(* ===== verification/Harold_Base.thy ===== *)
theory Harold_Base
  imports Main "HOL-Library.Word"
begin

unbundle bit_operations_syntax

text \<open>
  Prelude of the HAROLD development: the machine types of the kernel (\<open>uint8_t\<close>, \<open>uint16_t\<close>,
  \<open>uint32_t\<close> as words, so that every addition wraps as it does in C), byte strings, the
  big-endian accessors of the network code and the little-endian ones that a packed struct
  overlay means on x86, and the lemmas on words, lists and byte buffers that the component
  theories share.
\<close>

section \<open>Types and shared definitions\<close>

type_synonym u8 = "8 word"
type_synonym u16 = "16 word"
type_synonym u32 = "32 word"
type_synonym u64 = "64 word"

text \<open>A byte buffer, and the contents of a C string up to its terminating NUL.\<close>

type_synonym bytes = "u8 list"

definition cstr :: "string \<Rightarrow> bytes" where
  "cstr s = map of_char s"

text \<open>A fixed array read as a C string: everything before the first NUL.\<close>

definition c_string_of :: "bytes \<Rightarrow> bytes" where
  "c_string_of buf = takeWhile (\<lambda>c. c \<noteq> 0) buf"

text \<open>\<open>get_be16\<close>, \<open>put_be16\<close>, \<open>get_be32\<close>, \<open>put_be32\<close> of tcp.c (arp.c has the same 16-bit pair).\<close>

definition get_be16 :: "bytes \<Rightarrow> nat \<Rightarrow> u16" where
  "get_be16 buf offset = push_bit 8 (ucast (buf ! offset)) OR ucast (buf ! (offset + 1))"

definition put_be16 :: "bytes \<Rightarrow> nat \<Rightarrow> u16 \<Rightarrow> bytes" where
  "put_be16 buf offset v = buf[offset := ucast (drop_bit 8 v), offset + 1 := ucast (v AND 0xFF)]"

definition get_be32 :: "bytes \<Rightarrow> nat \<Rightarrow> u32" where
  "get_be32 buf offset =
     push_bit 24 (ucast (buf ! offset)) OR push_bit 16 (ucast (buf ! (offset + 1))) OR
     push_bit 8 (ucast (buf ! (offset + 2))) OR ucast (buf ! (offset + 3))"

definition put_be32 :: "bytes \<Rightarrow> nat \<Rightarrow> u32 \<Rightarrow> bytes" where
  "put_be32 buf offset v =
     buf[offset := ucast (drop_bit 24 v), offset + 1 := ucast (drop_bit 16 v),
         offset + 2 := ucast (drop_bit 8 v), offset + 3 := ucast (v AND 0xFF)]"

text \<open>Little-endian fields: what reading or writing a member of a packed struct does on x86.\<close>

definition get_le16 :: "bytes \<Rightarrow> nat \<Rightarrow> u16" where
  "get_le16 buf offset = ucast (buf ! offset) OR push_bit 8 (ucast (buf ! (offset + 1)))"

definition put_le16 :: "bytes \<Rightarrow> nat \<Rightarrow> u16 \<Rightarrow> bytes" where
  "put_le16 buf offset v = buf[offset := ucast v, offset + 1 := ucast (drop_bit 8 v)]"

definition get_le32 :: "bytes \<Rightarrow> nat \<Rightarrow> u32" where
  "get_le32 buf offset =
     ucast (buf ! offset) OR push_bit 8 (ucast (buf ! (offset + 1))) OR
     push_bit 16 (ucast (buf ! (offset + 2))) OR push_bit 24 (ucast (buf ! (offset + 3)))"

definition put_le32 :: "bytes \<Rightarrow> nat \<Rightarrow> u32 \<Rightarrow> bytes" where
  "put_le32 buf offset v =
     buf[offset := ucast v, offset + 1 := ucast (drop_bit 8 v),
         offset + 2 := ucast (drop_bit 16 v), offset + 3 := ucast (drop_bit 24 v)]"

text \<open>
  \<open>copy_into dst off src\<close> is the byte loop \<open>for i: dst[off + i] = src[i]\<close>: it overwrites
  \<open>length src\<close> bytes of \<open>dst\<close> from \<open>off\<close> on.
\<close>

definition copy_into :: "'a list \<Rightarrow> nat \<Rightarrow> 'a list \<Rightarrow> 'a list" where
  "copy_into dst off src = take off dst @ src @ drop (off + length src) dst"

section \<open>Lemma collections\<close>

named_theorems buf_simps \<open>reads and writes of byte buffers\<close>
named_theorems word_nat \<open>the natural number a word expression stands for\<close>

section \<open>Words\<close>

lemma unat_less_u8: "unat (x :: u8) < 256"
  using unsigned_less [of x, where 'a = nat] by simp

lemma unat_less_u16: "unat (x :: u16) < 65536"
  using unsigned_less [of x, where 'a = nat] by simp

lemma unat_less_u32: "unat (x :: u32) < 4294967296"
  using unsigned_less [of x, where 'a = nat] by simp

lemma unat_add_u32 [word_nat]:
  "unat (a :: u32) + unat b < 4294967296 \<Longrightarrow> unat (a + b) = unat a + unat b"
  by (simp add: unat_word_ariths)

lemma unat_sub_u32 [word_nat]:
  "unat (b :: u32) \<le> unat a \<Longrightarrow> unat (a - b) = unat a - unat b"
  by (simp add: unat_sub word_le_nat_alt)

lemma unat_mult_u32 [word_nat]:
  "unat (a :: u32) * unat b < 4294967296 \<Longrightarrow> unat (a * b) = unat a * unat b"
  by (simp add: unat_word_ariths)

lemma unat_inc_u32 [word_nat]: "(c :: u32) < t \<Longrightarrow> unat (c + 1) = Suc (unat c)"
  using unat_less_u32 [of t] by (simp add: word_less_nat_alt unat_word_ariths)

lemma unat_progress_u32:
  assumes "(b :: u32) < l" and "t \<le> l - b"
  shows "unat (b + t) = unat b + unat t" and "unat b + unat t \<le> unat l"
proof -
  have "unat t \<le> unat l - unat b" using assms by (simp add: word_le_nat_alt word_less_nat_alt unat_sub_u32)
  then show "unat b + unat t \<le> unat l" using assms by (simp add: word_less_nat_alt)
  then show "unat (b + t) = unat b + unat t" using unat_less_u32 [of l] by (intro unat_add_u32) linarith
qed

lemma unat_sector_room: "unat (512 - (x :: u32) mod 512) = 512 - unat x mod 512"
proof -
  have "unat x mod 512 < 512" by simp
  then have "unat (x mod 512) \<le> unat (512 :: u32)" by (simp add: unat_mod)
  then show ?thesis by (subst unat_sub_u32) (simp_all add: unat_mod)
qed

lemma unat_drop_bit_div [word_nat]: "unat (drop_bit n (x :: 'a :: len word)) = unat x div 2 ^ n"
  unfolding unat_drop_bit_eq by (simp only: drop_bit_eq_div)

lemma unat_of_nat_u32 [word_nat]: "n < 4294967296 \<Longrightarrow> unat (of_nat n :: u32) = n"
  by (simp add: unat_of_nat)

lemma sint_of_nat_u32: "n < 2147483648 \<Longrightarrow> sint (of_nat n :: u32) = int n"
  by (simp add: signed_of_nat signed_take_bit_int_eq_self)

lemma of_nat_u32_inj: "a < 4294967296 \<Longrightarrow> b < 4294967296 \<Longrightarrow> (of_nat a :: u32) = of_nat b \<longleftrightarrow> a = b"
  by (metis unat_of_nat_u32)

lemma unat_ucast_u8_u16 [word_nat]: "unat (ucast (x :: u8) :: u16) = unat x"
  using unsigned_less [of x, where 'a = nat] by (simp add: unsigned_ucast_eq take_bit_nat_eq_self_iff)

lemma unat_ucast_u8_u32 [word_nat]: "unat (ucast (x :: u8) :: u32) = unat x"
  using unsigned_less [of x, where 'a = nat] by (simp add: unsigned_ucast_eq take_bit_nat_eq_self_iff)

lemma unat_ucast_u16_u32 [word_nat]: "unat (ucast (x :: u16) :: u32) = unat x"
  using unsigned_less [of x, where 'a = nat] by (simp add: unsigned_ucast_eq take_bit_nat_eq_self_iff)

lemma unat_ucast_u32_u16 [word_nat]: "unat (ucast (x :: u32) :: u16) = unat x mod 65536"
  by (simp add: unsigned_ucast_eq unsigned_take_bit_eq take_bit_eq_mod)

lemma and_not_mask_eq: "(x :: 'a :: len word) AND NOT (mask n) = push_bit n (drop_bit n x)"
  by (rule bit_word_eqI) (auto simp: bit_simps)

lemma unat_and_not_mask [word_nat]:
  "unat ((x :: 'a :: len word) AND NOT (mask n)) = unat x div 2 ^ n * 2 ^ n"
proof -
  have le: "unat x div 2 ^ n * 2 ^ n < 2 ^ LENGTH('a)"
    using unsigned_less [of x, where 'a = nat] by (metis div_times_less_eq_dividend le_less_trans)
  have "unat (push_bit n (drop_bit n x)) = unat x div 2 ^ n * 2 ^ n mod 2 ^ LENGTH('a)"
    by (simp only: unsigned_push_bit_eq unat_drop_bit_eq)
      (simp add: take_bit_eq_mod push_bit_eq_mult drop_bit_eq_div)
  with le show ?thesis by (simp add: and_not_mask_eq)
qed

lemma unat_and_mask [word_nat]: "unat ((x :: 'a :: len word) AND mask n) = unat x mod 2 ^ n"
  by (simp add: unsigned_take_bit_eq flip: take_bit_eq_mask) (simp add: take_bit_eq_mod)

lemma bytes_of_u16: "push_bit 8 (ucast (ucast (drop_bit 8 (v :: u16)) :: u8)) OR ucast (ucast v :: u8) = v"
  by (rule bit_word_eqI) (auto simp: bit_simps)

lemma bytes_of_u32:
  "ucast (ucast (v :: u32) :: u8) OR push_bit 8 (ucast (ucast (drop_bit 8 v) :: u8)) OR
   push_bit 16 (ucast (ucast (drop_bit 16 v) :: u8)) OR
   push_bit 24 (ucast (ucast (drop_bit 24 v) :: u8)) = v"
  apply (rule bit_word_eqI)
  apply (auto simp: bit_simps)
  subgoal for n by (cases "24 \<le> n") auto
  done

lemma ucast_and_255_u16: "(ucast ((v :: u16) AND 0xFF) :: u8) = ucast v"
proof -
  have m: "(255 :: u16) = mask 8" by (simp add: mask_eq_exp_minus_1)
  show ?thesis unfolding m by (rule bit_word_eqI) (auto simp: bit_simps)
qed

lemma ucast_and_255_u32: "(ucast ((v :: u32) AND 0xFF) :: u8) = ucast v"
proof -
  have m: "(255 :: u32) = mask 8" by (simp add: mask_eq_exp_minus_1)
  show ?thesis unfolding m by (rule bit_word_eqI) (auto simp: bit_simps)
qed

section \<open>Byte buffers\<close>

lemma length_put_be16 [simp, buf_simps]: "length (put_be16 b i v) = length b"
  by (simp add: put_be16_def)

lemma length_put_be32 [simp, buf_simps]: "length (put_be32 b i v) = length b"
  by (simp add: put_be32_def)

lemma length_put_le16 [simp, buf_simps]: "length (put_le16 b i v) = length b"
  by (simp add: put_le16_def)

lemma length_put_le32 [simp, buf_simps]: "length (put_le32 b i v) = length b"
  by (simp add: put_le32_def)

lemma get_put_be16 [buf_simps]: "i + 1 < length b \<Longrightarrow> get_be16 (put_be16 b i v) i = v"
  by (simp add: get_be16_def put_be16_def ucast_and_255_u16 bytes_of_u16)

lemma get_put_be32 [buf_simps]: "i + 3 < length b \<Longrightarrow> get_be32 (put_be32 b i v) i = v"
  using bytes_of_u32 [of v]
  by (simp add: get_be32_def put_be32_def ucast_and_255_u32 or.assoc or.commute or.left_commute)

lemma get_put_le16 [buf_simps]: "i + 1 < length b \<Longrightarrow> get_le16 (put_le16 b i v) i = v"
  using bytes_of_u16 [of v] by (simp add: get_le16_def put_le16_def or.commute)

lemma get_put_le32 [buf_simps]: "i + 3 < length b \<Longrightarrow> get_le32 (put_le32 b i v) i = v"
  using bytes_of_u32 [of v] by (simp add: get_le32_def put_le32_def)

lemma nth_put_le16: "j \<noteq> i \<Longrightarrow> j \<noteq> i + 1 \<Longrightarrow> put_le16 b i v ! j = b ! j"
  by (simp add: put_le16_def)

lemma nth_put_le32: "j < i \<or> i + 4 \<le> j \<Longrightarrow> put_le32 b i v ! j = b ! j"
  by (auto simp: put_le32_def)

lemma get_le16_put_le16_other [buf_simps]:
  "j + 2 \<le> i \<or> i + 2 \<le> j \<Longrightarrow> get_le16 (put_le16 b i v) j = get_le16 b j"
  by (auto simp: get_le16_def put_le16_def)

lemma length_copy_into [simp, buf_simps]:
  "off + length src \<le> length dst \<Longrightarrow> length (copy_into dst off src) = length dst"
  by (simp add: copy_into_def)

lemma nth_copy_into [buf_simps]:
  "off + length src \<le> length dst \<Longrightarrow> i < length dst \<Longrightarrow>
   copy_into dst off src ! i = (if off \<le> i \<and> i < off + length src then src ! (i - off) else dst ! i)"
  by (auto simp: copy_into_def nth_append)

lemma copy_into_Nil [simp]: "copy_into dst off [] = dst"
  by (simp add: copy_into_def)

section \<open>First match in a range of indices\<close>

lemma find_from_Some_iff: "find P [a..<n] = Some i \<longleftrightarrow> a \<le> i \<and> i < n \<and> P i \<and> (\<forall>j. a \<le> j \<and> j < i \<longrightarrow> \<not> P j)"
proof -
  have "(\<exists>k. k < n - a \<and> P (a + k) \<and> i = a + k \<and> (\<forall>j < k. \<not> P (a + j))) \<longleftrightarrow> a \<le> i \<and> i < n \<and> P i \<and> (\<forall>j. a \<le> j \<and> j < i \<longrightarrow> \<not> P j)"
    (is "?l \<longleftrightarrow> ?r")
  proof
    assume ?l
    then obtain k where k: "k < n - a" "P (a + k)" "i = a + k" "\<forall>j < k. \<not> P (a + j)" by blast
    moreover have "\<not> P j" if "a \<le> j" "j < i" for j using k(3) k(4) [rule_format, of "j - a"] that by simp
    ultimately show ?r by auto
  next
    assume ?r
    then show ?l by (intro exI [of _ "i - a"]) auto
  qed
  then show ?thesis by (auto simp: find_Some_iff)
qed

lemma find_from_None_iff: "find P [a..<n] = None \<longleftrightarrow> (\<forall>i. a \<le> i \<and> i < n \<longrightarrow> \<not> P i)"
  by (auto simp: find_None_iff)

lemma find_upt_Some_iff: "find P [0..<n] = Some i \<longleftrightarrow> i < n \<and> P i \<and> (\<forall>j < i. \<not> P j)"
  by (simp add: find_from_Some_iff)

lemma find_upt_None_iff: "find P [0..<n] = None \<longleftrightarrow> (\<forall>i < n. \<not> P i)"
  by (simp add: find_from_None_iff)

end
