(* ===== verification/Kheap.thy ===== *)
theory Kheap
  imports Harold_Base
begin

text \<open>
  The kernel heap (src/src/heap.c) and the process heap of the userspace libc
  (\<open>malloc\<close>/\<open>free\<close> of src/userspace/libc.c), which is the same first-fit allocator over another
  region. Memory is an explicit store of 32-bit words, \<open>u32 \<Rightarrow> u32\<close>: a \<open>struct block_header\<close> at
  address \<open>p\<close> is the four words at \<open>p\<close> (size), \<open>p + 4\<close> (free flag), \<open>p + 8\<close> (next) and
  \<open>p + 12\<close> (prev), and the payload words of the callers live in the same store, so that a lost
  update or an overlap of two blocks is visible. A null pointer is the word \<open>0\<close>. The walk of
  the block list has no bound in the code, so it is a \<open>partial_function\<close>: \<open>None\<close> is a walk
  that never ends (a cyclic list).
  Disabling interrupts around an operation makes it one atomic step of the model.
\<close>

unbundle bit_operations_syntax

section \<open>The kernel heap\<close>

type_synonym store = "u32 \<Rightarrow> u32"

text \<open>The members of the block header at \<open>p\<close>; a header takes 16 bytes.\<close>

abbreviation (input) blk_size :: "store \<Rightarrow> u32 \<Rightarrow> u32" where "blk_size m p \<equiv> m p"
abbreviation (input) blk_free :: "store \<Rightarrow> u32 \<Rightarrow> u32" where "blk_free m p \<equiv> m (p + 4)"
abbreviation (input) blk_next :: "store \<Rightarrow> u32 \<Rightarrow> u32" where "blk_next m p \<equiv> m (p + 8)"
abbreviation (input) blk_prev :: "store \<Rightarrow> u32 \<Rightarrow> u32" where "blk_prev m p \<equiv> m (p + 12)"

record kheap =
  mem :: store
  heap_start :: u32
  heap_ready :: bool

definition HEAP_SIZE :: u32 where
  "HEAP_SIZE = 0x100000"

definition align_up :: "u32 \<Rightarrow> u32" where
  "align_up sz = (sz + (8 - 1)) AND NOT (8 - 1)"

definition heap_init :: "u32 \<Rightarrow> store \<Rightarrow> kheap" where
  "heap_init kernel_end m =
     (let start = (kernel_end + (8 - 1)) AND NOT (8 - 1);
          m = m(start := HEAP_SIZE - 16);
          m = m(start + 4 := 1);
          m = m(start + 8 := 0);
          m = m(start + 12 := 0)
      in \<lparr>mem = m, heap_start = start, heap_ready = True\<rparr>)"

definition split_block :: "store \<Rightarrow> u32 \<Rightarrow> u32 \<Rightarrow> store" where
  "split_block m block sz =
     (if blk_size m block < sz + 16 + 16 then m
      else
        (let new_block = block + 16 + sz;
             m = m(new_block := blk_size m block - sz - 16);
             m = m(new_block + 4 := 1);
             m = m(new_block + 8 := blk_next m block);
             m = m(new_block + 12 := block);
             m = (if blk_next m block \<noteq> 0 then m(blk_next m block + 12 := new_block) else m);
             m = m(block + 8 := new_block)
         in m(block := sz)))"

partial_function (option) kmalloc_walk :: "store \<Rightarrow> u32 \<Rightarrow> u32 \<Rightarrow> (u32 \<times> store) option" where
  "kmalloc_walk m block sz =
     (if block = 0 then Some (0, m)
      else if blk_free m block \<noteq> 0 \<and> sz \<le> blk_size m block
      then Some (block + 16, (split_block m block sz)(block + 4 := 0))
      else kmalloc_walk m (blk_next m block) sz)"

definition kmalloc :: "kheap \<Rightarrow> u32 \<Rightarrow> (u32 \<times> kheap) option" where
  "kmalloc h sz =
     (if \<not> heap_ready h \<or> sz = 0 then Some (0, h)
      else map_option (\<lambda>(result, m). (result, h\<lparr>mem := m\<rparr>))
             (kmalloc_walk (mem h) (heap_start h) (align_up sz)))"

definition coalesce :: "store \<Rightarrow> u32 \<Rightarrow> u32 \<Rightarrow> store" where
  "coalesce m a b =
     (let m = m(a := blk_size m a + (16 + blk_size m b));
          m = m(a + 8 := blk_next m b)
      in if blk_next m b \<noteq> 0 then m(blk_next m b + 12 := a) else m)"

definition kfree_store :: "store \<Rightarrow> u32 \<Rightarrow> store" where
  "kfree_store m ptr =
     (let block = ptr - 16;
          m = m(block + 4 := 1);
          m = (if blk_next m block \<noteq> 0 \<and> blk_free m (blk_next m block) \<noteq> 0
               then coalesce m block (blk_next m block) else m)
      in if blk_prev m block \<noteq> 0 \<and> blk_free m (blk_prev m block) \<noteq> 0
         then coalesce m (blk_prev m block) block else m)"

definition kfree :: "kheap \<Rightarrow> u32 \<Rightarrow> kheap" where
  "kfree h ptr = (if ptr = 0 then h else h\<lparr>mem := kfree_store (mem h) ptr\<rparr>)"

section \<open>The process heap of the userspace libc\<close>

record uheap =
  umem :: store
  malloc_heap_start :: u32

definition USER_HEAP_SIZE :: u32 where
  "USER_HEAP_SIZE = 65536"

definition malloc_align_up :: "u32 \<Rightarrow> u32" where
  "malloc_align_up sz = (sz + (8 - 1)) AND NOT (8 - 1)"

definition malloc_split_block :: "store \<Rightarrow> u32 \<Rightarrow> u32 \<Rightarrow> store" where
  "malloc_split_block m block sz =
     (if blk_size m block < sz + 16 + 16 then m
      else
        (let new_block = block + 16 + sz;
             m = m(new_block := blk_size m block - sz - 16);
             m = m(new_block + 4 := 1);
             m = m(new_block + 8 := blk_next m block);
             m = m(new_block + 12 := block);
             m = (if blk_next m block \<noteq> 0 then m(blk_next m block + 12 := new_block) else m);
             m = m(block + 8 := new_block)
         in m(block := sz)))"

partial_function (option) malloc_walk :: "store \<Rightarrow> u32 \<Rightarrow> u32 \<Rightarrow> (u32 \<times> store) option" where
  "malloc_walk m block sz =
     (if block = 0 then Some (0, m)
      else if blk_free m block \<noteq> 0 \<and> sz \<le> blk_size m block
      then Some (block + 16, (malloc_split_block m block sz)(block + 4 := 0))
      else malloc_walk m (blk_next m block) sz)"

text \<open>The address of the static array \<open>user_heap\<close> is fixed by the linker: a parameter.\<close>

definition malloc_setup :: "u32 \<Rightarrow> uheap \<Rightarrow> uheap" where
  "malloc_setup user_heap h =
     (if malloc_heap_start h = 0
      then (let m = (umem h)(user_heap := USER_HEAP_SIZE - 16);
                m = m(user_heap + 4 := 1);
                m = m(user_heap + 8 := 0);
                m = m(user_heap + 12 := 0)
            in \<lparr>umem = m, malloc_heap_start = user_heap\<rparr>)
      else h)"

definition malloc :: "u32 \<Rightarrow> uheap \<Rightarrow> u32 \<Rightarrow> (u32 \<times> uheap) option" where
  "malloc user_heap h sz =
     (if sz = 0 then Some (0, h)
      else (let h = malloc_setup user_heap h
            in map_option (\<lambda>(result, m). (result, h\<lparr>umem := m\<rparr>))
                 (malloc_walk (umem h) (malloc_heap_start h) (malloc_align_up sz))))"

definition malloc_coalesce :: "store \<Rightarrow> u32 \<Rightarrow> u32 \<Rightarrow> store" where
  "malloc_coalesce m a b =
     (let m = m(a := blk_size m a + (16 + blk_size m b));
          m = m(a + 8 := blk_next m b)
      in if blk_next m b \<noteq> 0 then m(blk_next m b + 12 := a) else m)"

definition free :: "uheap \<Rightarrow> u32 \<Rightarrow> uheap" where
  "free h ptr =
     (if ptr = 0 then h
      else
        (let block = ptr - 16;
             m = (umem h)(block + 4 := 1);
             m = (if blk_next m block \<noteq> 0 \<and> blk_free m (blk_next m block) \<noteq> 0
                  then malloc_coalesce m block (blk_next m block) else m);
             m = (if blk_prev m block \<noteq> 0 \<and> blk_free m (blk_prev m block) \<noteq> 0
                  then malloc_coalesce m (blk_prev m block) block else m)
         in h\<lparr>umem := m\<rparr>))"

section \<open>The abstract heap: a list of adjacent blocks\<close>

text \<open>
  A block is its payload size and whether it is free. The blocks tile the region, so their
  addresses follow from the address of the first one: a block at \<open>a\<close> of size \<open>s\<close> has its
  payload at \<open>a + 16\<close> and its right neighbour at \<open>a + 16 + s\<close>.
\<close>

type_synonym blocks = "(nat \<times> bool) list"

fun tot :: "blocks \<Rightarrow> nat" where
  "tot [] = 0"
| "tot ((s, f) # bs) = 16 + s + tot bs"

text \<open>First fit with splitting: the payload address and the new list, or \<open>None\<close>.\<close>

fun amalloc :: "nat \<Rightarrow> nat \<Rightarrow> blocks \<Rightarrow> (nat \<times> blocks) option" where
  "amalloc n a [] = None"
| "amalloc n a ((s, f) # bs) =
     (if f \<and> n \<le> s
      then Some (a + 16, (if s < n + 32 then [(s, False)] else [(n, False), (s - n - 16, True)]) @ bs)
      else map_option (\<lambda>(p, bs'). (p, (s, f) # bs')) (amalloc n (a + 16 + s) bs))"

text \<open>Freeing: mark the block whose payload is at \<open>p\<close>, then merge all neighbouring free blocks.\<close>

fun mark_free :: "nat \<Rightarrow> nat \<Rightarrow> blocks \<Rightarrow> blocks" where
  "mark_free p a [] = []"
| "mark_free p a ((s, f) # bs) = (s, f \<or> p = a + 16) # mark_free p (a + 16 + s) bs"

fun compact :: "blocks \<Rightarrow> blocks" where
  "compact ((s, True) # (t, True) # bs) = compact ((s + 16 + t, True) # bs)"
| "compact (b # bs) = b # compact bs"
| "compact [] = []"

definition afree :: "nat \<Rightarrow> nat \<Rightarrow> blocks \<Rightarrow> blocks" where
  "afree p a bs = compact (mark_free p a bs)"

definition no_adj_free :: "blocks \<Rightarrow> bool" where
  "no_adj_free bs = successively (\<lambda>b c. \<not> (snd b \<and> snd c)) bs"

text \<open>The payload addresses of the allocated blocks, and the blocks that are allocated.\<close>

fun payloads :: "nat \<Rightarrow> blocks \<Rightarrow> nat set" where
  "payloads a [] = {}"
| "payloads a ((s, f) # bs) = (if f then {} else {a + 16..<a + 16 + s}) \<union> payloads (a + 16 + s) bs"

fun live :: "nat \<Rightarrow> blocks \<Rightarrow> (nat \<times> nat) set" where
  "live a [] = {}"
| "live a ((s, f) # bs) = (if f then {} else {(a + 16, s)}) \<union> live (a + 16 + s) bs"

text \<open>
  The concrete list implements the abstract one: every header holds its size, flag, the
  address of its right neighbour (null for the last block, whose right neighbour would start
  at \<open>hi\<close>) and of its left neighbour.
\<close>

definition adr :: "nat \<Rightarrow> u32" where
  "adr x = of_nat x"

definition nxt :: "nat \<Rightarrow> nat \<Rightarrow> u32" where
  "nxt hi a = (if a = hi then 0 else adr a)"

fun seg :: "store \<Rightarrow> nat \<Rightarrow> nat \<Rightarrow> u32 \<Rightarrow> blocks \<Rightarrow> bool" where
  "seg m hi a pr [] = True"
| "seg m hi a pr ((s, f) # bs) =
     (m (adr a) = adr s \<and> (m (adr (a + 4)) \<noteq> 0) = f \<and>
      m (adr (a + 8)) = nxt hi (a + 16 + s) \<and> m (adr (a + 12)) = pr \<and>
      seg m hi (a + 16 + s) (adr a) bs)"

definition heap_rel :: "store \<Rightarrow> nat \<Rightarrow> blocks \<Rightarrow> bool" where
  "heap_rel m lo bs =
     (16 \<le> lo \<and> lo mod 8 = 0 \<and> lo + tot bs < 4294967296 \<and> bs \<noteq> [] \<and>
      list_all (\<lambda>(s, f). s mod 8 = 0) bs \<and> no_adj_free bs \<and> seg m (lo + tot bs) lo 0 bs)"

section \<open>Addresses\<close>

lemma adr_add [simp]: "adr a + adr b = adr (a + b)"
  by (simp add: adr_def)

lemma adr_add_numeral [simp]: "adr a + numeral k = adr (a + numeral k)"
  by (simp add: adr_def)

lemma adr_numeral_add: "numeral k + adr a = adr (numeral k + a)"
  by (simp add: adr_def)

lemma adr_diff: "b \<le> a \<Longrightarrow> adr a - adr b = adr (a - b)"
  by (simp add: adr_def)

lemma adr_diff_numeral: "numeral k \<le> a \<Longrightarrow> adr a - numeral k = adr (a - numeral k)"
  by (simp add: adr_def)

lemma adr_eq [simp]: "a < 4294967296 \<Longrightarrow> b < 4294967296 \<Longrightarrow> adr a = adr b \<longleftrightarrow> a = b"
  by (simp add: adr_def of_nat_u32_inj)

lemma adr_eq_0 [simp]: "a < 4294967296 \<Longrightarrow> adr a = 0 \<longleftrightarrow> a = 0"
  using of_nat_u32_inj [of a 0] by (simp add: adr_def)

lemma adr_less: "a < 4294967296 \<Longrightarrow> b < 4294967296 \<Longrightarrow> adr a < adr b \<longleftrightarrow> a < b"
  by (simp add: adr_def word_less_nat_alt unat_of_nat_u32)

lemma adr_le: "a < 4294967296 \<Longrightarrow> b < 4294967296 \<Longrightarrow> adr a \<le> adr b \<longleftrightarrow> a \<le> b"
  by (simp add: adr_def word_le_nat_alt unat_of_nat_u32)

lemma adr_unat [simp]: "adr (unat x) = x"
  by (simp add: adr_def)

lemma unat_adr: "a < 4294967296 \<Longrightarrow> unat (adr a) = a"
  by (simp add: adr_def unat_of_nat_u32)

section \<open>The list of headers in the store\<close>

fun last_addr :: "nat \<Rightarrow> u32 \<Rightarrow> blocks \<Rightarrow> u32" where
  "last_addr a pr [] = pr"
| "last_addr a pr ((s, f) # bs) = last_addr (a + 16 + s) (adr a) bs"

fun hdrs :: "nat \<Rightarrow> blocks \<Rightarrow> nat set" where
  "hdrs a [] = {}"
| "hdrs a ((s, f) # bs) = {a, a + 4, a + 8, a + 12} \<union> hdrs (a + 16 + s) bs"

lemma tot_append [simp]: "tot (xs @ ys) = tot xs + tot ys"
  by (induction xs rule: tot.induct) auto

lemma seg_append:
  "seg m hi a pr (xs @ ys) \<longleftrightarrow> seg m hi a pr xs \<and> seg m hi (a + tot xs) (last_addr a pr xs) ys"
  by (induction xs arbitrary: a pr rule: tot.induct) (auto simp: add.assoc)

lemma hdrs_bounds: "x \<in> hdrs a bs \<Longrightarrow> a \<le> x \<and> x < a + tot bs"
  by (induction bs arbitrary: a rule: tot.induct) fastforce+

lemma seg_frame:
  "(\<And>x. x \<in> hdrs a bs \<Longrightarrow> m' (adr x) = m (adr x)) \<Longrightarrow> seg m' hi a pr bs = seg m hi a pr bs"
  by (induction bs arbitrary: a pr rule: tot.induct) (auto simp: numeral_eq_Suc)

text \<open>Only the \<open>prev\<close> word of the first block depends on what is to the left of a segment.\<close>

definition set_prev :: "store \<Rightarrow> u32 \<Rightarrow> u32 \<Rightarrow> store" where
  "set_prev m p q = (if p \<noteq> 0 then m(p + 12 := q) else m)"

lemma tot_eq_0_iff: "tot bs = 0 \<longleftrightarrow> bs = []"
  by (cases bs rule: tot.cases) auto

lemma tot_ge_16: "tot bs = 0 \<or> 16 \<le> tot bs"
  by (cases bs rule: tot.cases) auto

lemma set_prev_nxt:
  assumes "0 < c" and "c + tot ys = hi" and "hi < 4294967296" and "x < 4294967296"
  shows "set_prev m (nxt hi c) q (adr x) = (if ys \<noteq> [] \<and> x = c + 12 then q else m (adr x))"
  using assms tot_ge_16 [of ys] by (auto simp: set_prev_def nxt_def tot_eq_0_iff)

lemma seg_set_prev:
  assumes "seg m hi a pr bs" and "a + tot bs = hi" and "hi < 4294967296" and "0 < a"
  shows "seg (set_prev m (nxt hi a) q) hi a q bs"
proof (cases bs rule: tot.cases)
  case (2 s f bs')
  have "seg (set_prev m (nxt hi a) q) hi (a + 16 + s) (adr a) bs' = seg m hi (a + 16 + s) (adr a) bs'"
    using assms 2 by (intro seg_frame) (auto simp: set_prev_def nxt_def dest!: hdrs_bounds)
  with assms 2 show ?thesis by (auto simp: set_prev_def nxt_def)
qed simp


lemma split_block_eq:
  assumes "seg m hi a pr ((s, True) # ys)" and "a + 16 + s + tot ys = hi" and "hi < 4294967296"
    and "0 < a" and "n + 32 \<le> s"
  shows "split_block m (adr a) (adr n) =
    (set_prev (m(adr (a + 16 + n) := adr (s - n - 16), adr (a + 16 + n + 4) := 1,
                 adr (a + 16 + n + 8) := nxt hi (a + 16 + s), adr (a + 16 + n + 12) := adr a))
       (nxt hi (a + 16 + s)) (adr (a + 16 + n)))
     (adr (a + 8) := adr (a + 16 + n), adr a := adr n)"
  using assms
  by (auto simp: split_block_def Let_def set_prev_def adr_less adr_diff adr_diff_numeral nxt_def)

lemma seg_split:
  assumes seg: "seg m hi a pr ((s, True) # ys)" and hi: "a + 16 + s + tot ys = hi" "hi < 4294967296"
    and "0 < a" and n: "n + 32 \<le> s"
  shows "seg ((split_block m (adr a) (adr n))(adr a + 4 := 0)) hi a pr ((n, False) # (s - n - 16, True) # ys)"
proof -
  let ?N = "a + 16 + n" and ?A = "a + 16 + s"
  let ?m1 = "m(adr ?N := adr (s - n - 16), adr (?N + 4) := 1, adr (?N + 8) := nxt hi ?A, adr (?N + 12) := adr a)"
  let ?m2 = "set_prev ?m1 (nxt hi ?A) (adr ?N)"
  let ?m3 = "?m2(adr (a + 8) := adr ?N, adr a := adr n, adr (a + 4) := 0)"
  have "seg ?m1 hi ?A (adr a) ys"
    using assms by (subst seg_frame [of _ _ _ m]) (auto dest!: hdrs_bounds)
  then have "seg ?m2 hi ?A (adr ?N) ys"
    using assms by (intro seg_set_prev) auto
  then have ys: "seg ?m3 hi ?A (adr ?N) ys"
    using assms by (subst seg_frame [of _ _ _ ?m2]) (auto dest!: hdrs_bounds)
  note rd = set_prev_nxt [of ?A ys hi, OF _ hi]
  have m: "m (adr (a + 12)) = pr" and r: "n + 32 \<le> s" "a + 16 + s + tot ys < 4294967296" "0 < a"
    using assms by auto
  have "?m3 (adr a) = adr n" "?m3 (adr (a + 4)) = 0" "?m3 (adr (a + 8)) = adr ?N" "?m3 (adr (a + 12)) = pr"
    "?m3 (adr ?N) = adr (s - n - 16)" "?m3 (adr (?N + 4)) = 1" "?m3 (adr (?N + 8)) = nxt hi ?A"
    "?m3 (adr (?N + 12)) = adr a"
    using m r by (simp_all add: rd)
  moreover have "nxt hi ?N = adr ?N" using r hi by (simp add: nxt_def)
  moreover have "?N + 16 + (s - n - 16) = ?A" using r by simp
  ultimately have "seg ?m3 hi a pr ((n, False) # (s - n - 16, True) # ys)"
    using ys by (simp add: add.assoc)
  then show ?thesis
    using split_block_eq [OF assms] by simp
qed

lemma seg_no_split:
  assumes "seg m hi a pr ((s, f) # ys)" and "a + 16 + s + tot ys = hi" "hi < 4294967296"
  shows "seg (m(adr (a + 4) := v)) hi a pr ((s, v \<noteq> 0) # ys)"
proof -
  have "seg (m(adr (a + 4) := v)) hi (a + 16 + s) (adr a) ys"
    using assms by (subst seg_frame [of _ _ _ m]) (auto dest!: hdrs_bounds)
  with assms show ?thesis by auto
qed

lemma seg_coalesce:
  assumes seg: "seg m hi a pr ((s, f) # (t, g) # ys)" and hi: "a + 32 + s + t + tot ys = hi" "hi < 4294967296"
    and "0 < a"
  shows "seg (coalesce m (adr a) (adr (a + 16 + s))) hi a pr ((s + 16 + t, f) # ys)"
proof -
  let ?B = "a + 16 + s"
  define c where "c = a + 16 + s + 16 + t"
  have c: "c + tot ys = hi" "a + 32 \<le> c" "?B + 16 \<le> c" "0 < c" using hi by (simp_all add: c_def)
  let ?m1 = "m(adr a := adr (s + 16 + t), adr (a + 8) := nxt hi c)"
  let ?m2 = "set_prev ?m1 (nxt hi c) (adr a)"
  have seg': "m (adr a) = adr s" "(m (adr (a + 4)) \<noteq> 0) = f" "m (adr (a + 12)) = pr"
    "m (adr ?B) = adr t" "m (adr (?B + 8)) = nxt hi c" "seg m hi c (adr ?B) ys"
    using seg by (simp_all add: c_def add.assoc)
  have eq: "?m2 = coalesce m (adr a) (adr ?B)"
    using seg' hi \<open>0 < a\<close> by (simp add: coalesce_def set_prev_def Let_def adr_numeral_add add.assoc)
  have "seg ?m1 hi c (adr ?B) ys"
    using seg' c hi by (subst seg_frame [of _ _ _ m]) (auto dest!: hdrs_bounds)
  then have "seg ?m2 hi c (adr a) ys"
    using c hi by (intro seg_set_prev) auto
  moreover have "?m2 (adr a) = adr (s + 16 + t)" "?m2 (adr (a + 4)) = m (adr (a + 4))"
    "?m2 (adr (a + 8)) = nxt hi c" "?m2 (adr (a + 12)) = m (adr (a + 12))"
    using hi c \<open>0 < a\<close> by (simp_all add: set_prev_nxt [of c ys hi])
  ultimately have "seg ?m2 hi a pr ((s + 16 + t, f) # ys)"
    using seg' by (simp add: c_def add.assoc)
  with eq show ?thesis by simp
qed

lemma payloads_bounds: "x \<in> payloads a bs \<Longrightarrow> a + 16 \<le> x \<and> x < a + tot bs"
  by (induction bs arbitrary: a rule: tot.induct) (fastforce split: if_splits)+

lemma amalloc_tot: "amalloc n a bs = Some (p, bs') \<Longrightarrow> tot bs' = tot bs"
  by (induction bs arbitrary: a bs' rule: tot.induct) (auto split: if_splits)

text \<open>
  What an operation may change: nothing outside the region \<open>[a, hi)\<close> and nothing in the
  payload of an allocated block.
\<close>

definition untouched :: "nat \<Rightarrow> nat \<Rightarrow> blocks \<Rightarrow> nat \<Rightarrow> bool" where
  "untouched hi a bs x \<longleftrightarrow> x < 4294967296 \<and> (x < a \<or> hi \<le> x \<or> x \<in> payloads a bs)"

lemma kmalloc_hit:
  assumes seg: "seg m hi a pr ((s, True) # ys)" and hi: "a + 16 + s + tot ys = hi" "hi < 4294967296"
    and a: "16 \<le> a" and n: "n \<le> s" and m': "m' = (split_block m (adr a) (adr n))(adr a + 4 := 0)"
  shows "seg m' hi a pr ((if s < n + 32 then [(s, False)] else [(n, False), (s - n - 16, True)]) @ ys)"
    and "untouched hi a ((s, True) # ys) x \<Longrightarrow> m' (adr x) = m (adr x)"
proof -
  have c: "blk_size m (adr a) < adr n + 16 + 16 \<longleftrightarrow> s < n + 32"
    using seg hi a n by (auto simp: adr_less)
  show "seg m' hi a pr ((if s < n + 32 then [(s, False)] else [(n, False), (s - n - 16, True)]) @ ys)"
  proof (cases "s < n + 32")
    case True
    then have "split_block m (adr a) (adr n) = m" using c by (simp add: split_block_def)
    then show ?thesis using seg_no_split [OF seg hi, of 0] True by (simp add: m')
  next
    case False
    then show ?thesis using seg_split [OF seg hi, of n] a by (simp add: m')
  qed
  assume "untouched hi a ((s, True) # ys) x"
  then have x: "x < 4294967296" "x < a \<or> hi \<le> x \<or> a + 16 + s + 16 \<le> x"
    by (auto simp: untouched_def dest!: payloads_bounds)
  then show "m' (adr x) = m (adr x)"
  proof (cases "s < n + 32")
    case True
    then have "split_block m (adr a) (adr n) = m" using c by (simp add: split_block_def)
    with x hi show ?thesis by (auto simp: m')
  next
    case False
    define c where "c = a + 16 + s"
    have c: "c + tot ys = hi" "0 < c" "a + 16 + n + 16 \<le> c" "a + 16 \<le> c" using hi a False by (simp_all add: c_def)
    have x': "x < a \<or> hi \<le> x \<or> c + 16 \<le> x" using x by (simp add: c_def)
    have ne: "x \<noteq> a \<and> x \<noteq> a + 4 \<and> x \<noteq> a + 8 \<and> x \<noteq> a + 16 + n \<and> x \<noteq> a + 16 + n + 4 \<and>
      x \<noteq> a + 16 + n + 8 \<and> x \<noteq> a + 16 + n + 12 \<and> (ys \<noteq> [] \<longrightarrow> x \<noteq> c + 12)"
      using x' c tot_ge_16 [of ys] by (cases "ys = []") (auto simp: tot_eq_0_iff)
    have lt: "a + 16 + n + 12 < 4294967296" using c hi by linarith
    show ?thesis
      using split_block_eq [OF seg hi, of n, folded c_def] a False ne lt x(1) hi
      by (auto simp: m' set_prev_nxt [of c ys hi x, OF c(2,1)])
  qed
qed

lemma kmalloc_walk_refine:
  assumes "seg m hi a pr bs" and "a + tot bs = hi" and "hi < 4294967296" and "16 \<le> a" and "n < 4294967296"
  shows "\<exists>r m'. kmalloc_walk m (nxt hi a) (adr n) = Some (r, m') \<and>
    (case amalloc n a bs of None \<Rightarrow> r = 0 \<and> m' = m
     | Some (p, bs') \<Rightarrow> r = adr p \<and> seg m' hi a pr bs' \<and>
         (\<forall>x. untouched hi a bs x \<longrightarrow> m' (adr x) = m (adr x)))"
  using assms
proof (induction bs arbitrary: a pr rule: tot.induct)
  case 1
  then show ?case by (subst kmalloc_walk.simps) (simp add: nxt_def)
next
  case (2 s f bs)
  have nx: "nxt hi a = adr a" "adr a \<noteq> 0" using 2 by (auto simp: nxt_def)
  have hd: "m (adr a) = adr s" "(m (adr (a + 4)) \<noteq> 0) = f" "m (adr (a + 8)) = nxt hi (a + 16 + s)"
    "m (adr (a + 12)) = pr" "seg m hi (a + 16 + s) (adr a) bs"
    using 2 by auto
  have le: "adr n \<le> adr s \<longleftrightarrow> n \<le> s" using 2 by (intro adr_le) auto
  show ?case
  proof (cases "f \<and> n \<le> s")
    case True
    let ?m' = "(split_block m (adr a) (adr n))(adr a + 4 := 0)"
    have "kmalloc_walk m (nxt hi a) (adr n) = Some (adr a + 16, ?m')"
      using True nx hd le by (subst kmalloc_walk.simps) simp
    moreover have "seg m hi a pr ((s, True) # bs)" using 2 True by simp
    note hit = kmalloc_hit [OF this _ _ _ _ refl]
    have "seg ?m' hi a pr ((if s < n + 32 then [(s, False)] else [(n, False), (s - n - 16, True)]) @ bs)"
      "\<And>x. untouched hi a ((s, f) # bs) x \<Longrightarrow> ?m' (adr x) = m (adr x)"
      using hit [of n] 2 True by auto
    ultimately show ?thesis using True by auto
  next
    case False
    then have w: "kmalloc_walk m (nxt hi a) (adr n) = kmalloc_walk m (nxt hi (a + 16 + s)) (adr n)"
      using nx hd le by (subst kmalloc_walk.simps) auto
    from "2.IH" [of "a + 16 + s" "adr a"] "2.prems" obtain r m' where
      r: "kmalloc_walk m (nxt hi (a + 16 + s)) (adr n) = Some (r, m')" and
      post: "case amalloc n (a + 16 + s) bs of None \<Rightarrow> r = 0 \<and> m' = m
        | Some (p, bs') \<Rightarrow> r = adr p \<and> seg m' hi (a + 16 + s) (adr a) bs' \<and>
            (\<forall>x. untouched hi (a + 16 + s) bs x \<longrightarrow> m' (adr x) = m (adr x))"
      by auto
    have "untouched hi (a + 16 + s) bs x" if "untouched hi a ((s, f) # bs) x" for x
      using that by (auto simp: untouched_def split: if_splits)
    moreover have "untouched hi (a + 16 + s) bs y" if "y \<in> {a, a + 4, a + 8, a + 12}" for y
      using that "2.prems" by (auto simp: untouched_def)
    ultimately show ?thesis
      using r w post False hd by (auto split: option.splits)
  qed
qed

section \<open>Freeing\<close>

lemma no_adj_free_append:
  "no_adj_free (xs @ ys) \<longleftrightarrow> no_adj_free xs \<and> no_adj_free ys \<and>
     (xs = [] \<or> ys = [] \<or> \<not> (snd (last xs) \<and> snd (hd ys)))"
  by (auto simp: no_adj_free_def successively_append_iff)

lemma no_adj_free_Cons:
  "no_adj_free (b # bs) \<longleftrightarrow> no_adj_free bs \<and> (bs = [] \<or> \<not> (snd b \<and> snd (hd bs)))"
  by (cases bs) (auto simp: no_adj_free_def)

lemma compact_append:
  "no_adj_free xs \<Longrightarrow> xs = [] \<or> zs = [] \<or> \<not> (snd (last xs) \<and> snd (hd zs)) \<Longrightarrow>
   compact (xs @ zs) = xs @ compact zs"
proof (induction xs)
  case (Cons x xs)
  then have IH: "compact (xs @ zs) = xs @ compact zs"
    by (auto simp: no_adj_free_Cons split: if_splits)
  have "xs @ zs = [] \<or> \<not> (snd x \<and> snd (hd (xs @ zs)))"
    using Cons.prems by (cases xs) (auto simp: no_adj_free_Cons)
  then have "compact (x # xs @ zs) = x # compact (xs @ zs)"
    by (cases "xs @ zs"; cases x; cases "hd (xs @ zs)"; cases "snd x") auto
  with IH show ?case by simp
qed simp

lemma compact_id: "no_adj_free xs \<Longrightarrow> compact xs = xs"
  using compact_append [of xs "[]"] by simp

lemma tot_compact [simp]: "tot (compact bs) = tot bs"
  by (induction bs rule: compact.induct) auto

lemma mark_free_outside: "p < a + 16 \<or> a + tot bs < p \<Longrightarrow> mark_free p a bs = bs"
  by (induction p a bs rule: mark_free.induct) auto

lemma mark_free_append: "mark_free p a (xs @ ys) = mark_free p a xs @ mark_free p (a + tot xs) ys"
  by (induction xs arbitrary: a rule: tot.induct) (auto simp: add.assoc)

lemma mark_free_at: "mark_free (a + tot xs + 16) a (xs @ (s, f) # ys) = xs @ (s, True) # ys"
  by (simp add: mark_free_append mark_free_outside)

text \<open>The block list after a free, in the three steps the code takes.\<close>

fun merge_right :: "nat \<Rightarrow> blocks \<Rightarrow> blocks" where
  "merge_right s ((t, True) # ys) = (s + 16 + t, True) # ys"
| "merge_right s ys = (s, True) # ys"

lemma afree_right:
  assumes "no_adj_free (xs @ (s, False) # ys)" and "xs = [] \<or> \<not> snd (last xs)"
  shows "afree (a + tot xs + 16) a (xs @ (s, False) # ys) = xs @ merge_right s ys"
proof -
  have ys: "no_adj_free xs" "no_adj_free ys" using assms by (auto simp: no_adj_free_append no_adj_free_Cons)
  have "compact ((s, True) # ys) = merge_right s ys"
  proof (cases "(s, ys)" rule: merge_right.cases)
    case (1 s' t ys')
    then have "compact ((s + 16 + t, True) # ys') = (s + 16 + t, True) # ys'"
      using ys by (intro compact_id) (auto simp: no_adj_free_Cons)
    then show ?thesis using 1 by simp
  qed (use ys in \<open>auto simp: compact_id no_adj_free_Cons\<close>)
  then show ?thesis
    using assms ys by (simp add: afree_def mark_free_at compact_append)
qed

lemma afree_left:
  assumes "no_adj_free (xs @ (u, True) # (s, False) # ys)" and "merge_right s ys = (s', True) # ys'"
  shows "afree (a + tot (xs @ [(u, True)]) + 16) a (xs @ (u, True) # (s, False) # ys) =
    xs @ (u + 16 + s', True) # ys'"
proof -
  have d: "no_adj_free xs" "no_adj_free ys" "xs = [] \<or> \<not> snd (last xs)"
    using assms(1) by (auto simp: no_adj_free_append no_adj_free_Cons)
  have "compact ((u + 16 + s, True) # ys) = (u + 16 + s', True) # ys'"
  proof (cases "(s, ys)" rule: merge_right.cases)
    case (1 z t zs)
    then have "compact ((u + 16 + s + 16 + t, True) # zs) = (u + 16 + s + 16 + t, True) # zs"
      using d by (intro compact_id) (auto simp: no_adj_free_Cons)
    then show ?thesis using 1 assms(2) by (auto simp: add.assoc)
  qed (use d assms(2) in \<open>auto simp: compact_id no_adj_free_Cons\<close>)
  then have "compact (xs @ (u, True) # (s, True) # ys) = xs @ (u + 16 + s', True) # ys'"
    using d by (subst compact_append) auto
  then show ?thesis
    using mark_free_at [of a "xs @ [(u, True)]" s False ys] by (simp add: afree_def)
qed

lemma coalesce_frame:
  assumes seg: "seg m hi a pr ((s, f) # (t, g) # ys)" and hi: "a + 32 + s + t + tot ys = hi" "hi < 4294967296"
    and "0 < a" and x: "x < 4294967296" "x \<notin> hdrs a ((s, f) # (t, g) # ys)"
  shows "coalesce m (adr a) (adr (a + 16 + s)) (adr x) = m (adr x)"
proof -
  define c where "c = a + 16 + s + 16 + t"
  have c: "c + tot ys = hi" "0 < c" using hi by (simp_all add: c_def)
  have seg': "m (adr a) = adr s" "m (adr (a + 16 + s)) = adr t" "m (adr (a + 16 + s + 8)) = nxt hi c"
    using seg by (simp_all add: c_def add.assoc)
  have eq: "coalesce m (adr a) (adr (a + 16 + s)) =
      set_prev (m(adr a := adr (s + 16 + t), adr (a + 8) := nxt hi c)) (nxt hi c) (adr a)"
    using seg' hi \<open>0 < a\<close> by (simp add: coalesce_def set_prev_def Let_def adr_numeral_add add.assoc)
  have "x \<noteq> a" "x \<noteq> a + 8" using x by auto
  moreover have "ys \<noteq> [] \<Longrightarrow> x \<noteq> c + 12"
    using x by (cases ys rule: tot.cases) (auto simp: c_def add.assoc)
  ultimately show ?thesis
    using x hi by (auto simp: eq set_prev_nxt [OF c(2,1) hi(2)])
qed

lemma hdrs_append: "hdrs a (xs @ ys) = hdrs a xs \<union> hdrs (a + tot xs) ys"
  by (induction xs arbitrary: a rule: tot.induct) (auto simp: add.assoc)

lemma seg_replace:
  assumes "seg m hi a pr (xs @ zs)" and "seg m' hi (a + tot xs) (last_addr a pr xs) zs'"
    and "\<And>x. x \<in> hdrs a xs \<Longrightarrow> m' (adr x) = m (adr x)"
  shows "seg m' hi a pr (xs @ zs')"
  using assms seg_frame [of a xs m' m hi pr] by (auto simp: seg_append)

lemma last_addr_snoc [simp]: "last_addr a pr (xs @ [(u, f)]) = adr (a + tot xs)"
  by (induction xs arbitrary: a pr rule: tot.induct) (auto simp: add.assoc)

text \<open>Marking the block free and merging it with a free right neighbour.\<close>

definition free_right :: "store \<Rightarrow> u32 \<Rightarrow> store" where
  "free_right m block =
     (let m = m(block + 4 := 1)
      in if blk_next m block \<noteq> 0 \<and> blk_free m (blk_next m block) \<noteq> 0
         then coalesce m block (blk_next m block) else m)"

lemma free_right_seg:
  assumes seg: "seg m hi b pr ((s, f) # ys)" and hi: "b + 16 + s + tot ys = hi" "hi < 4294967296" and "0 < b"
  shows "seg (free_right m (adr b)) hi b pr (merge_right s ys)"
    and "x < 4294967296 \<Longrightarrow> x \<notin> hdrs b ((s, f) # ys) \<Longrightarrow> free_right m (adr b) (adr x) = m (adr x)"
proof -
  let ?m1 = "m(adr (b + 4) := 1)"
  have s1: "seg ?m1 hi b pr ((s, True) # ys)" using seg_no_split [OF seg hi, of 1] by simp
  have nx: "?m1 (adr (b + 8)) = nxt hi (b + 16 + s)" using s1 by simp
  have nz: "nxt hi (b + 16 + s) \<noteq> 0 \<longleftrightarrow> ys \<noteq> []"
    using hi by (auto simp: nxt_def tot_eq_0_iff)
  have "seg (free_right m (adr b)) hi b pr (merge_right s ys) \<and>
    (x < 4294967296 \<longrightarrow> x \<notin> hdrs b ((s, f) # ys) \<longrightarrow> free_right m (adr b) (adr x) = m (adr x))"
  proof (cases "(s, ys)" rule: merge_right.cases)
    case (1 z t ys')
    then have ys: "ys = (t, True) # ys'" by simp
    have nb: "nxt hi (b + 16 + s) = adr (b + 16 + s)" using ys nz by (auto simp: nxt_def)
    have "?m1 (adr (b + 16 + s + 4)) \<noteq> 0" using s1 ys by simp
    then have eq: "free_right m (adr b) = coalesce ?m1 (adr b) (adr (b + 16 + s))"
      using nx nz nb ys by (simp add: free_right_def Let_def)
    have s1': "seg ?m1 hi b pr ((s, True) # (t, True) # ys')" using s1 ys by simp
    show ?thesis
      using seg_coalesce [OF s1'] coalesce_frame [OF s1', of x] hi \<open>0 < b\<close> ys by (auto simp: eq)
  qed (use s1 nx nz hi in \<open>auto simp: free_right_def Let_def nxt_def\<close>)
  then show "seg (free_right m (adr b)) hi b pr (merge_right s ys)"
    and "x < 4294967296 \<Longrightarrow> x \<notin> hdrs b ((s, f) # ys) \<Longrightarrow> free_right m (adr b) (adr x) = m (adr x)"
    by blast+
qed

lemma merge_right_Cons: "\<exists>s' ys'. merge_right s ys = (s', True) # ys' \<and> 16 + s' + tot ys' = 16 + s + tot ys"
  by (cases "(s, ys)" rule: merge_right.cases) auto

lemma hdrs_merge_right: "x \<in> hdrs b (merge_right s ys) \<Longrightarrow> x \<in> hdrs b ((s, f) # ys)"
  by (cases "(s, ys)" rule: merge_right.cases) (auto simp: algebra_simps)

lemma kfree_store_refine:
  assumes seg: "seg m hi lo 0 (xs @ (s, False) # ys)" and hi: "lo + tot (xs @ (s, False) # ys) = hi" "hi < 4294967296"
    and lo: "16 \<le> lo" and adj: "no_adj_free (xs @ (s, False) # ys)" and p: "p = lo + tot xs + 16"
  shows "seg (kfree_store m (adr p)) hi lo 0 (afree p lo (xs @ (s, False) # ys))"
    and "x < 4294967296 \<Longrightarrow> x \<notin> hdrs lo (xs @ (s, False) # ys) \<Longrightarrow> kfree_store m (adr p) (adr x) = m (adr x)"
proof -
  define b where "b = lo + tot xs"
  define m2 where "m2 = free_right m (adr b)"
  obtain s' ys' where mr: "merge_right s ys = (s', True) # ys'" "16 + s' + tot ys' = 16 + s + tot ys"
    using merge_right_Cons by blast
  have b: "adr p - 16 = adr b" "0 < b" "b + 16 + s + tot ys = hi" "b + 16 + s' + tot ys' = hi"
    using p lo hi mr by (auto simp: b_def adr_diff_numeral)
  have sb: "seg m hi b (last_addr lo 0 xs) ((s, False) # ys)" using seg by (simp add: seg_append b_def)
  note fr = free_right_seg [OF sb b(3) hi(2) b(2)]
  have frame2: "m2 (adr y) = m (adr y)" if "y < 4294967296" "y \<notin> hdrs b ((s, False) # ys)" for y
    using fr(2) [of y] that by (simp add: m2_def)
  have xs_frame: "m2 (adr y) = m (adr y)" if "y \<in> hdrs lo xs" for y
    using that hi b hdrs_bounds [of y lo xs] hdrs_bounds [of y b "(s, False) # ys"]
    by (intro frame2) (auto simp: b_def)
  have seg2: "seg m2 hi lo 0 (xs @ (s', True) # ys')"
    using fr(1) mr xs_frame by (intro seg_replace [OF seg]) (auto simp: m2_def b_def)
  have kf: "kfree_store m (adr p) =
    (if blk_prev m2 (adr b) \<noteq> 0 \<and> blk_free m2 (blk_prev m2 (adr b)) \<noteq> 0 then coalesce m2 (blk_prev m2 (adr b)) (adr b) else m2)"
    unfolding kfree_store_def m2_def free_right_def Let_def b(1) ..
  have pv: "m2 (adr (b + 12)) = last_addr lo 0 xs" using seg2 by (simp add: seg_append b_def)
  have "seg (kfree_store m (adr p)) hi lo 0 (afree p lo (xs @ (s, False) # ys)) \<and>
    (x < 4294967296 \<longrightarrow> x \<notin> hdrs lo (xs @ (s, False) # ys) \<longrightarrow> kfree_store m (adr p) (adr x) = m (adr x))"
  proof (cases "xs = [] \<or> \<not> snd (last xs)")
    case True
    have "kfree_store m (adr p) = m2"
    proof (cases xs rule: rev_cases)
      case Nil
      then show ?thesis using pv by (simp add: kf)
    next
      case (snoc xs' u)
      then have "m2 (adr (lo + tot xs' + 4)) = 0"
        using seg2 True by (cases u) (simp add: seg_append)
      then show ?thesis using pv snoc by (cases u) (simp add: kf)
    qed
    moreover have "afree p lo (xs @ (s, False) # ys) = xs @ (s', True) # ys'"
      using afree_right [OF adj True, of lo] mr p by simp
    ultimately show ?thesis using seg2 frame2 by (simp add: hdrs_append b_def)
  next
    case False
    then obtain xs' u where xs: "xs = xs' @ [(u, True)]"
      by (cases xs rule: rev_cases) auto
    define a where "a = lo + tot xs'"
    have ab: "b = a + 16 + u" "0 < a" using xs lo by (auto simp: a_def b_def)
    have sa: "seg m2 hi a (last_addr lo 0 xs') ((u, True) # (s', True) # ys')"
      using seg2 xs by (simp add: seg_append a_def)
    have c: "a + 32 + u + s' + tot ys' = hi" using ab b by simp
    have "m2 (adr (a + 4)) \<noteq> 0" using sa by simp
    then have eq: "kfree_store m (adr p) = coalesce m2 (adr a) (adr (a + 16 + u))"
      using pv xs ab hi b by (simp add: kf a_def)
    note co = seg_coalesce [OF sa c hi(2) ab(2)] coalesce_frame [OF sa c hi(2) ab(2)]
    have h: "y \<in> hdrs lo (xs @ (s, False) # ys)" if "y \<in> hdrs a ((u, True) # (s', True) # ys')" for y
      using that hdrs_merge_right [of y "a + 16 + u" s ys False] mr(1)
      by (auto simp: xs hdrs_append a_def add.assoc)
    have fr': "coalesce m2 (adr a) (adr (a + 16 + u)) (adr y) = m2 (adr y)" if "y \<in> hdrs lo xs'" for y
      using that hi xs hdrs_bounds [of y lo xs'] hdrs_bounds [of y a "(u, True) # (s', True) # ys'"]
      by (intro co(2)) (auto simp: a_def)
    have "seg (kfree_store m (adr p)) hi lo 0 (xs' @ (u + 16 + s', True) # ys')"
      unfolding eq
    proof (rule seg_replace)
      show "seg m2 hi lo 0 (xs' @ (u, True) # (s', True) # ys')" using seg2 xs by simp
      show "seg (coalesce m2 (adr a) (adr (a + 16 + u))) hi (lo + tot xs') (last_addr lo 0 xs') ((u + 16 + s', True) # ys')"
        using co(1) by (simp only: a_def)
    qed (rule fr')
    moreover have "afree p lo (xs @ (s, False) # ys) = xs' @ (u + 16 + s', True) # ys'"
      using afree_left [of xs' u s ys s' ys' lo] adj mr p xs by simp
    moreover have "kfree_store m (adr p) (adr x) = m (adr x)"
      if x: "x < 4294967296" "x \<notin> hdrs lo (xs @ (s, False) # ys)"
    proof -
      have "coalesce m2 (adr a) (adr (a + 16 + u)) (adr x) = m2 (adr x)"
        using x h by (intro co(2)) blast+
      moreover have "m2 (adr x) = m (adr x)"
        using x by (intro frame2) (simp_all add: hdrs_append b_def)
      ultimately show ?thesis by (simp only: eq)
    qed
    ultimately show ?thesis by simp
  qed
  then show "seg (kfree_store m (adr p)) hi lo 0 (afree p lo (xs @ (s, False) # ys))"
    and "x < 4294967296 \<Longrightarrow> x \<notin> hdrs lo (xs @ (s, False) # ys) \<Longrightarrow> kfree_store m (adr p) (adr x) = m (adr x)"
    by blast+
qed

end
