(* ===== verification/Kheap_Spec.thy ===== *)
theory Kheap_Spec
  imports Kheap
begin

text \<open>
  What the two allocators promise. The heap invariant \<open>heap_inv\<close> relates the store to an
  abstract list of blocks; \<open>kmalloc\<close> and \<open>kfree\<close> are shown to refine first fit with splitting
  and merging on that list. The locale \<open>allocator\<close> is the contract a client relies on; it is
  interpreted on the kernel heap and on the heap of the userspace libc.
\<close>

unbundle bit_operations_syntax

definition heap_inv :: "kheap \<Rightarrow> blocks \<Rightarrow> bool" where
  "heap_inv h bs = (heap_ready h \<and> heap_rel (mem h) (unat (heap_start h)) bs)"

definition round8 :: "nat \<Rightarrow> nat" where
  "round8 n = (n + 7) div 8 * 8"

definition heap_live :: "kheap \<Rightarrow> blocks \<Rightarrow> (nat \<times> nat) set" where
  "heap_live h bs = live (unat (heap_start h)) bs"

text \<open>The libc heap is set up by the first \<open>malloc\<close>; before that it is one free block.\<close>

definition uheap_inv :: "u32 \<Rightarrow> uheap \<Rightarrow> blocks \<Rightarrow> bool" where
  "uheap_inv user_heap h bs =
     (heap_rel (umem (malloc_setup user_heap h)) (unat user_heap) bs \<and>
      (malloc_heap_start h = 0 \<and> bs = [(65520, True)] \<or> malloc_heap_start h = user_heap))"

definition uheap_live :: "u32 \<Rightarrow> uheap \<Rightarrow> blocks \<Rightarrow> (nat \<times> nat) set" where
  "uheap_live user_heap h bs = live (unat user_heap) bs"

text \<open>
  A client of an allocator: \<open>client_run\<close> performs allocations and frees, keeping the set of
  pointers it owns. It frees only pointers it owns, and never one in \<open>keep\<close>.
\<close>

inductive client_run ::
  "('h \<Rightarrow> u32 \<Rightarrow> (u32 \<times> 'h) option) \<Rightarrow> ('h \<Rightarrow> u32 \<Rightarrow> 'h) \<Rightarrow> nat set \<Rightarrow> nat set \<times> 'h \<Rightarrow> nat set \<times> 'h \<Rightarrow> bool"
  for alloc dealloc keep c where
  stop: "client_run alloc dealloc keep c c"
| null: "client_run alloc dealloc keep c (L, h) \<Longrightarrow> sz \<noteq> 0 \<Longrightarrow> unat sz \<le> 4294967288 \<Longrightarrow>
    alloc h sz = Some (0, h') \<Longrightarrow> client_run alloc dealloc keep c (L, h')"
| got: "client_run alloc dealloc keep c (L, h) \<Longrightarrow> sz \<noteq> 0 \<Longrightarrow> unat sz \<le> 4294967288 \<Longrightarrow>
    alloc h sz = Some (r, h') \<Longrightarrow> r \<noteq> 0 \<Longrightarrow> client_run alloc dealloc keep c (insert (unat r) L, h')"
| release: "client_run alloc dealloc keep c (L, h) \<Longrightarrow> q \<in> L \<Longrightarrow> q \<notin> keep \<Longrightarrow>
    client_run alloc dealloc keep c (L - {q}, dealloc h (of_nat q))"

section \<open>Alignment\<close>

lemma align_up_eq: "align_up sz = (sz + 7) AND NOT (mask 3)"
  by (simp add: align_up_def mask_eq_exp_minus_1)

lemma unat_align_up: "unat sz \<le> 4294967288 \<Longrightarrow> unat (align_up sz) = round8 (unat sz)"
  by (simp add: align_up_eq unat_and_not_mask unat_add_u32 round8_def)

lemma align_up_wraps: "4294967288 < unat sz \<Longrightarrow> align_up sz = 0"
proof -
  assume sz: "4294967288 < unat sz"
  have "unat (sz + 7) = (unat sz + 7) mod 4294967296" by (simp add: unat_word_ariths)
  also have "\<dots> = unat sz + 7 - 4294967296"
    using sz unat_less_u32 [of sz] by (simp add: mod_if)
  finally have "unat (sz + 7) div 8 = 0" using unat_less_u32 [of sz] by simp
  then show ?thesis by (simp add: align_up_eq unat_and_not_mask flip: unat_eq_zero)
qed

lemma round8_bounds: "n \<le> round8 n" "round8 n < n + 8" "round8 n mod 8 = 0"
  by (simp_all add: round8_def)

section \<open>First fit on the abstract list\<close>

lemma live_bounds: "(p, s) \<in> live a bs \<Longrightarrow> a + 16 \<le> p \<and> p + s \<le> a + tot bs"
  by (induction bs arbitrary: a rule: tot.induct) (fastforce split: if_splits)+

lemma payloads_live: "payloads a bs = (\<Union>(p, s) \<in> live a bs. {p..<p + s})"
  by (induction bs arbitrary: a rule: tot.induct) auto

lemma amalloc_None_iff: "amalloc n a bs = None \<longleftrightarrow> (\<forall>(s, f) \<in> set bs. f \<longrightarrow> s < n)"
  by (induction bs arbitrary: a rule: tot.induct) auto

lemma amalloc_live:
  "amalloc n a bs = Some (p, bs') \<Longrightarrow>
   \<exists>s. n \<le> s \<and> s < n + 32 \<and> (p, s) \<notin> live a bs \<and> live a bs' = insert (p, s) (live a bs) \<and>
       a + 16 \<le> p \<and> p + s \<le> a + tot bs \<and> {p..<p + s} \<inter> payloads a bs = {}"
proof (induction bs arbitrary: a bs' rule: tot.induct)
  case (2 s f bs)
  show ?case
  proof (cases "f \<and> n \<le> s")
    case True
    let ?s = "if s < n + 32 then s else n"
    have out: "q < a + 16 + s + 16 \<Longrightarrow> (q, t) \<notin> live (a + 16 + s) bs" for q t
      using live_bounds [of q t "a + 16 + s" bs] by auto
    have "{a + 16..<a + 16 + ?s} \<inter> payloads (a + 16 + s) bs = {}"
      using True by (auto dest!: payloads_bounds split: if_splits)
    with True "2.prems" out show ?thesis
      by (intro exI [of _ ?s]) (auto simp: ac_simps split: if_splits)
  next
    case False
    then obtain bs'' where bs'': "amalloc n (a + 16 + s) bs = Some (p, bs'')" "bs' = (s, f) # bs''"
      using "2.prems" by auto
    from "2.IH" [OF this(1)] obtain t where t: "n \<le> t" "t < n + 32" "(p, t) \<notin> live (a + 16 + s) bs"
      "live (a + 16 + s) bs'' = insert (p, t) (live (a + 16 + s) bs)" "a + 16 + s + 16 \<le> p"
      "p + t \<le> a + 16 + s + tot bs" "{p..<p + t} \<inter> payloads (a + 16 + s) bs = {}" by blast
    then show ?thesis using bs'' by (intro exI [of _ t]) auto
  qed
qed simp

lemma amalloc_aligned:
  "amalloc n a bs = Some (p, bs') \<Longrightarrow> list_all (\<lambda>(s, f). s mod 8 = 0) bs \<Longrightarrow> n mod 8 = 0 \<Longrightarrow> a mod 8 = 0 \<Longrightarrow>
   list_all (\<lambda>(s, f). s mod 8 = 0) bs' \<and> p mod 8 = 0"
proof (induction bs arbitrary: a bs' rule: tot.induct)
  case (2 s f bs)
  have "n + 32 \<le> s \<Longrightarrow> (s - n - 16) mod 8 = 0" using "2.prems" by (auto simp: mod_eq_0_iff_dvd)
  moreover have "(a + 16) mod 8 = 0" "(a + 16 + s) mod 8 = 0"
    using "2.prems" by (auto simp: mod_eq_0_iff_dvd)
  ultimately show ?case using 2 by (auto split: if_splits)
qed simp

lemma amalloc_hd: "amalloc n a bs = Some (p, bs') \<Longrightarrow> bs' \<noteq> [] \<and> (snd (hd bs') \<longrightarrow> snd (hd bs))"
  by (cases bs rule: tot.cases) (auto split: if_splits)

lemma amalloc_no_adj: "amalloc n a bs = Some (p, bs') \<Longrightarrow> no_adj_free bs \<Longrightarrow> no_adj_free bs'"
proof (induction bs arbitrary: a bs' rule: tot.induct)
  case (2 s f bs)
  show ?case
  proof (cases "f \<and> n \<le> s")
    case True
    with "2.prems" show ?thesis by (auto simp: no_adj_free_Cons split: if_splits)
  next
    case False
    then obtain bs'' where bs'': "amalloc n (a + 16 + s) bs = Some (p, bs'')" "bs' = (s, f) # bs''"
      using "2.prems" by auto
    with 2 have "no_adj_free bs''" by (auto simp: no_adj_free_Cons)
    moreover have "bs \<noteq> []" using bs'' by auto
    ultimately show ?thesis using "2.prems" bs'' amalloc_hd [OF bs''(1)] by (auto simp: no_adj_free_Cons)
  qed
qed simp

lemma heap_rel_amalloc:
  assumes "heap_rel m lo bs" and "amalloc n lo bs = Some (p, bs')" and "n mod 8 = 0"
    and "seg m' (lo + tot bs) lo 0 bs'"
  shows "heap_rel m' lo bs'"
  using assms amalloc_aligned [OF assms(2)] amalloc_no_adj [OF assms(2)] amalloc_tot [OF assms(2)]
    amalloc_hd [OF assms(2)]
  by (auto simp: heap_rel_def)

section \<open>Freeing on the abstract list\<close>

lemma live_append: "live a (xs @ ys) = live a xs \<union> live (a + tot xs) ys"
  by (induction xs arbitrary: a rule: tot.induct) (auto simp: add.assoc)

lemma live_split:
  "(p, s) \<in> live a bs \<Longrightarrow> \<exists>xs ys. bs = xs @ (s, False) # ys \<and> p = a + tot xs + 16"
proof (induction bs arbitrary: a rule: tot.induct)
  case (2 t f bs)
  show ?case
  proof (cases "(p, s) \<in> live (a + 16 + t) bs")
    case True
    with "2.IH" obtain xs ys where "bs = xs @ (s, False) # ys" "p = a + 16 + t + tot xs + 16" by blast
    then show ?thesis by (intro exI [of _ "(t, f) # xs"] exI [of _ ys]) auto
  next
    case False
    with "2.prems" show ?thesis by (intro exI [of _ "[]"] exI [of _ bs]) (auto split: if_splits)
  qed
qed simp

lemma compact_induct [case_names Nil merge skip]:
  assumes "P []" and "\<And>s t cs. P ((s + 16 + t, True) # cs) \<Longrightarrow> P ((s, True) # (t, True) # cs)"
    and "\<And>s f bs. P bs \<Longrightarrow> compact ((s, f) # bs) = (s, f) # compact bs \<Longrightarrow>
      bs = [] \<or> \<not> (f \<and> snd (hd bs)) \<Longrightarrow> P ((s, f) # bs)"
  shows "P bs"
proof (induction bs rule: length_induct)
  case (1 bs)
  show ?case
  proof (cases bs)
    case (Cons b cs)
    obtain s f where b: "b = (s, f)" by (cases b)
    show ?thesis
    proof (cases "f \<and> cs \<noteq> [] \<and> snd (hd cs)")
      case True
      then obtain t ds where cs: "cs = (t, True) # ds" by (cases cs) auto
      have "length ((s + 16 + t, True) # ds) < length bs" using Cons cs by simp
      then have "P ((s + 16 + t, True) # ds)" using 1 by blast
      then have "P ((s, True) # (t, True) # ds)" by (rule assms(2))
      then show ?thesis using True b Cons cs by simp
    next
      case False
      then have "compact ((s, f) # cs) = (s, f) # compact cs"
        by (cases "(s, f) # cs" rule: compact.cases) auto
      moreover have "P cs" using 1 Cons by simp
      ultimately show ?thesis using False b Cons assms(3) by blast
    qed
  qed (simp add: assms(1))
qed

lemma live_compact: "live a (compact bs) = live a bs"
  by (induction bs arbitrary: a rule: compact_induct) (simp_all add: add.assoc)

lemma hd_compact: "bs \<noteq> [] \<Longrightarrow> compact bs \<noteq> [] \<and> snd (hd (compact bs)) = snd (hd bs)"
  by (induction bs rule: compact_induct) auto

lemma no_adj_free_compact: "no_adj_free (compact bs)"
proof (induction bs rule: compact_induct)
  case (skip s f bs)
  then show ?case using hd_compact [of bs] by (cases "bs = []") (auto simp: no_adj_free_Cons)
qed (auto simp: no_adj_free_def)

lemma sizes_compact:
  "list_all (\<lambda>(s, f). s mod 8 = 0) bs \<Longrightarrow> list_all (\<lambda>(s, f). s mod 8 = 0) (compact bs)"
  by (induction bs rule: compact_induct) (auto simp: mod_eq_0_iff_dvd)

lemma heap_rel_afree:
  assumes rel: "heap_rel m lo bs" and l: "(p, s) \<in> live lo bs"
  shows "heap_rel (kfree_store m (adr p)) lo (afree p lo bs)"
    and "x < 4294967296 \<Longrightarrow> x \<notin> hdrs lo bs \<Longrightarrow> kfree_store m (adr p) (adr x) = m (adr x)"
proof -
  obtain xs ys where bs: "bs = xs @ (s, False) # ys" and p: "p = lo + tot xs + 16"
    using live_split [OF l] by blast
  have af: "afree p lo bs = compact (xs @ (s, True) # ys)" by (simp add: afree_def bs p mark_free_at)
  note r = kfree_store_refine [of m "lo + tot bs" lo xs s ys p]
  have "seg (kfree_store m (adr p)) (lo + tot bs) lo 0 (afree p lo bs)"
    using rel p by (subst bs, intro r(1)) (auto simp: heap_rel_def bs)
  moreover have "tot (afree p lo bs) = tot bs" unfolding af by (simp add: bs)
  moreover have "afree p lo bs \<noteq> []" unfolding af using hd_compact [of "xs @ (s, True) # ys"] by simp
  moreover have "list_all (\<lambda>(s, f). s mod 8 = 0) (afree p lo bs)"
    using rel unfolding af by (intro sizes_compact) (auto simp: heap_rel_def bs)
  ultimately show "heap_rel (kfree_store m (adr p)) lo (afree p lo bs)"
    using rel by (simp add: heap_rel_def af no_adj_free_compact)
  show "x < 4294967296 \<Longrightarrow> x \<notin> hdrs lo bs \<Longrightarrow> kfree_store m (adr p) (adr x) = m (adr x)"
    using rel p r(2) [of x] by (auto simp: heap_rel_def bs)
qed

lemma live_afree:
  assumes "(p, s) \<in> live a bs"
  shows "live a (afree p a bs) = live a bs - {(p, s)}"
proof -
  obtain xs ys where bs: "bs = xs @ (s, False) # ys" and p: "p = a + tot xs + 16"
    using live_split [OF assms] by blast
  have "live a (afree p a bs) = live a xs \<union> live (a + tot xs + 16 + s) ys"
    by (simp add: bs p afree_def live_compact mark_free_at live_append)
  moreover have "(p, s) \<notin> live a xs" "(p, s) \<notin> live (a + tot xs + 16 + s) ys"
    using live_bounds [of p s a xs] live_bounds [of p s "a + tot xs + 16 + s" ys] p by auto
  ultimately show ?thesis using bs p by (auto simp: live_append)
qed

lemma hdrs_payloads: "hdrs a bs \<inter> payloads a bs = {}"
proof (induction bs arbitrary: a rule: tot.induct)
  case (2 s f bs)
  have "payloads (a + 16 + s) bs \<inter> {a, a + 4, a + 8, a + 12} = {}"
    "{a + 16..<a + 16 + s} \<inter> hdrs (a + 16 + s) bs = {}"
    by (auto dest!: payloads_bounds hdrs_bounds)
  with 2 show ?case by (auto split: if_splits)
qed simp

lemma live_disjoint:
  "(p, s) \<in> live a bs \<Longrightarrow> (q, t) \<in> live a bs \<Longrightarrow> (p, s) \<noteq> (q, t) \<Longrightarrow> {p..<p + s} \<inter> {q..<q + t} = {}"
proof (induction bs arbitrary: a rule: tot.induct)
  case (2 u f bs)
  have "r + v \<le> a + 16 + u + tot bs \<and> a + 16 + u + 16 \<le> r" if "(r, v) \<in> live (a + 16 + u) bs" for r v
    using live_bounds [OF that] by simp
  with 2 show ?case by (fastforce split: if_splits)
qed simp

section \<open>The operations on related states\<close>

lemma heap_rel_init:
  assumes "16 \<le> lo" "lo mod 8 = 0" "16 \<le> sz" "sz mod 8 = 0" "lo + sz < 4294967296"
  shows "heap_rel (m(adr lo := adr (sz - 16), adr lo + 4 := 1, adr lo + 8 := 0, adr lo + 12 := 0)) lo [(sz - 16, True)]"
  using assms by (auto simp: heap_rel_def nxt_def no_adj_free_def mod_eq_0_iff_dvd)

lemma kmalloc_walk_rel:
  assumes rel: "heap_rel m lo bs" and sz: "unat sz \<le> 4294967288"
  shows "\<exists>r m' bs'. kmalloc_walk m (adr lo) (align_up sz) = Some (r, m') \<and> heap_rel m' lo bs' \<and>
    (\<forall>x \<in> payloads lo bs. m' (adr x) = m (adr x)) \<and>
    (case amalloc (round8 (unat sz)) lo bs of None \<Rightarrow> r = 0 \<and> m' = m \<and> bs' = bs
     | Some (p, bs'') \<Rightarrow> r = adr p \<and> bs' = bs'')"
proof -
  let ?n = "round8 (unat sz)" and ?hi = "lo + tot bs"
  have n: "align_up sz = adr ?n" "?n < 4294967296"
    using sz unat_align_up [OF sz] unat_less_u32 [of "align_up sz"] by (simp_all add: adr_def flip: unat_align_up [OF sz])
  have lo: "nxt ?hi lo = adr lo" "?hi < 4294967296" "16 \<le> lo" "seg m ?hi lo 0 bs"
    using rel tot_eq_0_iff [of bs] by (auto simp: heap_rel_def nxt_def)
  obtain r m' where w: "kmalloc_walk m (adr lo) (align_up sz) = Some (r, m')" and
    post: "case amalloc ?n lo bs of None \<Rightarrow> r = 0 \<and> m' = m
     | Some (p, bs') \<Rightarrow> r = adr p \<and> seg m' ?hi lo 0 bs' \<and>
         (\<forall>x. untouched ?hi lo bs x \<longrightarrow> m' (adr x) = m (adr x))"
    using kmalloc_walk_refine [OF lo(4) refl lo(2,3) n(2)] lo(1) n(1) by auto
  have u: "untouched ?hi lo bs x" if "x \<in> payloads lo bs" for x
    using that payloads_bounds [OF that] lo by (auto simp: untouched_def)
  show ?thesis
  proof (cases "amalloc ?n lo bs")
    case None
    with w post rel show ?thesis by auto
  next
    case (Some pb)
    then obtain p bs' where am: "amalloc ?n lo bs = Some (p, bs')" by (cases pb) auto
    with heap_rel_amalloc [OF rel am round8_bounds(3)] w post u show ?thesis by auto
  qed
qed

lemma malloc_split_block_eq: "malloc_split_block = split_block"
  by (intro ext) (simp add: malloc_split_block_def split_block_def)

lemma malloc_walk_eq:
  assumes ret: "kmalloc_walk m block sz = Some r"
  shows "malloc_walk m block sz = Some r"
proof (rule kmalloc_walk.raw_induct [where P = "\<lambda>m block sz r. malloc_walk m block sz = Some r", OF _ ret])
  fix f m block sz r
  assume IH: "\<And>m block sz r. f m block sz = Some r \<Longrightarrow> malloc_walk m block sz = Some r"
    and eq: "(if block = 0 then Some (0, m)
      else if blk_free m block \<noteq> 0 \<and> sz \<le> blk_size m block
      then Some (block + 16, (split_block m block sz)(block + 4 := 0))
      else f m (blk_next m block) sz) = Some r"
  show "malloc_walk m block sz = Some r"
    using eq IH by (subst malloc_walk.simps) (auto simp: malloc_split_block_eq split: if_splits)
qed

lemma malloc_align_up_eq: "malloc_align_up = align_up"
  by (intro ext) (simp add: malloc_align_up_def align_up_def)

lemma malloc_coalesce_eq: "malloc_coalesce = coalesce"
  by (intro ext) (simp add: malloc_coalesce_def coalesce_def)

lemma free_eq: "free h p = (if p = 0 then h else h\<lparr>umem := kfree_store (umem h) p\<rparr>)"
  by (simp add: free_def kfree_store_def malloc_coalesce_eq Let_def)

section \<open>The contract of an allocator\<close>

locale allocator =
  fixes inv :: "'h \<Rightarrow> 'b \<Rightarrow> bool"
    and live_of :: "'h \<Rightarrow> 'b \<Rightarrow> (nat \<times> nat) set"
    and word_at :: "'h \<Rightarrow> nat \<Rightarrow> u32"
    and alloc :: "'h \<Rightarrow> u32 \<Rightarrow> (u32 \<times> 'h) option"
    and dealloc :: "'h \<Rightarrow> u32 \<Rightarrow> 'h"
  assumes alloc_spec: "inv h b \<Longrightarrow> sz \<noteq> 0 \<Longrightarrow> unat sz \<le> 4294967288 \<Longrightarrow>
      \<exists>r h' b'. alloc h sz = Some (r, h') \<and> inv h' b' \<and>
        (\<forall>p s x. (p, s) \<in> live_of h b \<and> p \<le> x \<and> x < p + s \<longrightarrow> word_at h' x = word_at h x) \<and>
        (if r = 0 then live_of h' b' = live_of h b
         else \<exists>s \<ge> unat sz. (unat r, s) \<notin> live_of h b \<and> live_of h' b' = insert (unat r, s) (live_of h b))"
    and dealloc_spec: "inv h b \<Longrightarrow> (p, s) \<in> live_of h b \<Longrightarrow>
      \<exists>b'. inv (dealloc h (of_nat p)) b' \<and> live_of (dealloc h (of_nat p)) b' = live_of h b - {(p, s)} \<and>
        (\<forall>q t x. (q, t) \<in> live_of h b - {(p, s)} \<and> q \<le> x \<and> x < q + t \<longrightarrow>
           word_at (dealloc h (of_nat p)) x = word_at h x)"
    and live_disj: "inv h b \<Longrightarrow> (p, s) \<in> live_of h b \<Longrightarrow> (q, t) \<in> live_of h b \<Longrightarrow> (p, s) \<noteq> (q, t) \<Longrightarrow>
      {p..<p + s} \<inter> {q..<q + t} = {}"
begin

text \<open>
  A block the client keeps stays allocated, disjoint from every other block and with its
  contents unchanged through any sequence of other allocations and frees.
\<close>

lemma kept_block:
  assumes "client_run alloc dealloc keep (L, h) c'" and "inv h b" and "L \<subseteq> fst ` live_of h b"
    and "(p, s) \<in> live_of h b" and "p \<in> keep"
  shows "\<exists>b'. inv (snd c') b' \<and> fst c' \<subseteq> fst ` live_of (snd c') b' \<and> (p, s) \<in> live_of (snd c') b' \<and>
    (\<forall>x. p \<le> x \<and> x < p + s \<longrightarrow> word_at (snd c') x = word_at h x)"
  using assms(1)
proof (induction rule: client_run.induct)
  case stop
  then show ?case using assms by auto
next
  case (null L1 h1 sz h2)
  then obtain b1 where "inv h1 b1" and b1: "L1 \<subseteq> fst ` live_of h1 b1" "(p, s) \<in> live_of h1 b1"
    "\<forall>x. p \<le> x \<and> x < p + s \<longrightarrow> word_at h1 x = word_at h x" by auto
  from alloc_spec [OF this(1) null.hyps(2,3)] null.hyps(4) obtain b2 where
    "inv h2 b2" "live_of h2 b2 = live_of h1 b1"
    "\<forall>p s x. (p, s) \<in> live_of h1 b1 \<and> p \<le> x \<and> x < p + s \<longrightarrow> word_at h2 x = word_at h1 x" by auto
  with b1 show ?case by (intro exI [of _ b2]) auto
next
  case (got L1 h1 sz r h2)
  then obtain b1 where "inv h1 b1" and b1: "L1 \<subseteq> fst ` live_of h1 b1" "(p, s) \<in> live_of h1 b1"
    "\<forall>x. p \<le> x \<and> x < p + s \<longrightarrow> word_at h1 x = word_at h x" by auto
  from alloc_spec [OF this(1) got.hyps(2,3)] got.hyps(4,5) obtain b2 t where
    b2: "inv h2 b2" "live_of h2 b2 = insert (unat r, t) (live_of h1 b1)"
    "\<forall>p s x. (p, s) \<in> live_of h1 b1 \<and> p \<le> x \<and> x < p + s \<longrightarrow> word_at h2 x = word_at h1 x" by auto
  then show ?case using b1 by (intro exI [of _ b2]) auto
next
  case (release L1 h1 q)
  then obtain b1 where "inv h1 b1" and b1: "L1 \<subseteq> fst ` live_of h1 b1" "(p, s) \<in> live_of h1 b1"
    "\<forall>x. p \<le> x \<and> x < p + s \<longrightarrow> word_at h1 x = word_at h x" by auto
  obtain t where t: "(q, t) \<in> live_of h1 b1" using release.hyps b1 by auto
  have pq: "p \<noteq> q" using release.hyps assms by auto
  from dealloc_spec [OF \<open>inv h1 b1\<close> t] obtain b2 where
    b2: "inv (dealloc h1 (of_nat q)) b2" "live_of (dealloc h1 (of_nat q)) b2 = live_of h1 b1 - {(q, t)}"
    "\<forall>q' t' x. (q', t') \<in> live_of h1 b1 - {(q, t)} \<and> q' \<le> x \<and> x < q' + t' \<longrightarrow>
       word_at (dealloc h1 (of_nat q)) x = word_at h1 x" by blast
  have "L1 - {q} \<subseteq> fst ` (live_of h1 b1 - {(q, t)})" using b1(1) by force
  moreover have "word_at (dealloc h1 (of_nat q)) x = word_at h x" if "p \<le> x" "x < p + s" for x
    using b1 b2(3) pq that by (metis DiffI Pair_inject singletonD)
  ultimately show ?case using b1 b2 pq by (intro exI [of _ b2]) auto
qed

end

section \<open>Both heaps are allocators\<close>

lemma heap_rel_alloc_live:
  assumes "heap_rel m lo bs" and "amalloc (round8 (unat sz)) lo bs = Some (p, bs')"
  shows "\<exists>s \<ge> unat sz. (p, s) \<notin> live lo bs \<and> live lo bs' = insert (p, s) (live lo bs)"
    and "adr p \<noteq> 0" and "unat (adr p) = p" and "p mod 8 = 0"
proof -
  obtain s where s: "round8 (unat sz) \<le> s" "(p, s) \<notin> live lo bs" "live lo bs' = insert (p, s) (live lo bs)"
    "lo + 16 \<le> p" "p + s \<le> lo + tot bs"
    using amalloc_live [OF assms(2)] by blast
  show "\<exists>s \<ge> unat sz. (p, s) \<notin> live lo bs \<and> live lo bs' = insert (p, s) (live lo bs)"
    using s round8_bounds(1) [of "unat sz"] by (intro exI [of _ s]) auto
  show "adr p \<noteq> 0" "unat (adr p) = p" using s assms(1) by (auto simp: heap_rel_def unat_adr)
  show "p mod 8 = 0"
    using amalloc_aligned [OF assms(2) _ round8_bounds(3)] assms(1) by (auto simp: heap_rel_def)
qed

lemma heap_rel_free_frame:
  assumes rel: "heap_rel m lo bs" and l: "(p, s) \<in> live lo bs" and q: "(q, t) \<in> live lo bs" "q \<le> x" "x < q + t"
  shows "kfree_store m (adr p) (adr x) = m (adr x)"
proof -
  have "x \<in> payloads lo bs" using q by (auto simp: payloads_live intro!: bexI [of _ "(q, t)"])
  then have "x < 4294967296" "x \<notin> hdrs lo bs"
    using rel payloads_bounds [of x lo bs] hdrs_payloads [of lo bs] by (auto simp: heap_rel_def)
  then show ?thesis by (rule heap_rel_afree(2) [OF rel l])
qed

interpretation kernel_heap: allocator heap_inv heap_live "\<lambda>h x. mem h (adr x)" kmalloc kfree
proof
  fix h b sz
  assume inv: "heap_inv h b" and sz: "sz \<noteq> (0 :: u32)" "unat sz \<le> 4294967288"
  let ?lo = "unat (heap_start h)"
  have rel: "heap_rel (mem h) ?lo b" and rdy: "heap_ready h" using inv by (auto simp: heap_inv_def)
  obtain r m' b' where w: "kmalloc_walk (mem h) (heap_start h) (align_up sz) = Some (r, m')" "heap_rel m' ?lo b'"
    "\<forall>x \<in> payloads ?lo b. m' (adr x) = mem h (adr x)"
    "case amalloc (round8 (unat sz)) ?lo b of None \<Rightarrow> r = 0 \<and> m' = mem h \<and> b' = b
     | Some (p, bs'') \<Rightarrow> r = adr p \<and> b' = bs''"
    using kmalloc_walk_rel [OF rel sz(2)] by auto
  have k: "kmalloc h sz = Some (r, h\<lparr>mem := m'\<rparr>)" "heap_inv (h\<lparr>mem := m'\<rparr>) b'"
    using w rdy sz by (simp_all add: kmalloc_def heap_inv_def)
  have "if r = 0 then heap_live (h\<lparr>mem := m'\<rparr>) b' = heap_live h b
    else \<exists>s \<ge> unat sz. (unat r, s) \<notin> heap_live h b \<and> heap_live (h\<lparr>mem := m'\<rparr>) b' = insert (unat r, s) (heap_live h b)"
    using w(4) heap_rel_alloc_live [OF rel, of sz] by (auto simp: heap_live_def split: option.splits)
  then show "\<exists>r h' b'. kmalloc h sz = Some (r, h') \<and> heap_inv h' b' \<and>
      (\<forall>p s x. (p, s) \<in> heap_live h b \<and> p \<le> x \<and> x < p + s \<longrightarrow> mem h' (adr x) = mem h (adr x)) \<and>
      (if r = 0 then heap_live h' b' = heap_live h b
       else \<exists>s \<ge> unat sz. (unat r, s) \<notin> heap_live h b \<and> heap_live h' b' = insert (unat r, s) (heap_live h b))"
    using k w(3) by (intro exI [of _ r] exI [of _ "h\<lparr>mem := m'\<rparr>"] exI [of _ b'])
      (auto simp: heap_live_def payloads_live)
next
  fix h b p s
  assume inv: "heap_inv h b" and l: "(p, s) \<in> heap_live h b"
  let ?lo = "unat (heap_start h)"
  have rel: "heap_rel (mem h) ?lo b" and l': "(p, s) \<in> live ?lo b" using inv l by (auto simp: heap_inv_def heap_live_def)
  have "of_nat p \<noteq> (0 :: u32)" using live_bounds [OF l'] rel adr_eq_0 [of p] by (auto simp: heap_rel_def adr_def)
  then have k: "kfree h (of_nat p) = h\<lparr>mem := kfree_store (mem h) (adr p)\<rparr>" by (simp add: kfree_def adr_def)
  show "\<exists>b'. heap_inv (kfree h (of_nat p)) b' \<and> heap_live (kfree h (of_nat p)) b' = heap_live h b - {(p, s)} \<and>
      (\<forall>q t x. (q, t) \<in> heap_live h b - {(p, s)} \<and> q \<le> x \<and> x < q + t \<longrightarrow>
         mem (kfree h (of_nat p)) (adr x) = mem h (adr x))"
    using heap_rel_afree(1) [OF rel l'] live_afree [OF l'] heap_rel_free_frame [OF rel l'] inv
    by (intro exI [of _ "afree p ?lo b"]) (auto simp: k heap_inv_def heap_live_def)
next
  fix h b p s q t
  assume "heap_inv h b" "(p, s) \<in> heap_live h b" "(q, t) \<in> heap_live h b" "(p, s) \<noteq> (q, t)"
  then show "{p..<p + s} \<inter> {q..<q + t} = {}" by (intro live_disjoint) (auto simp: heap_live_def)
qed

interpretation libc_heap: allocator "uheap_inv u" "uheap_live u"
  "\<lambda>h x. umem (malloc_setup u h) (adr x)" "malloc u" free for u
proof
  fix h b sz
  assume inv: "uheap_inv u h b" and sz: "sz \<noteq> (0 :: u32)" "unat sz \<le> 4294967288"
  let ?h = "malloc_setup u h"
  have rel: "heap_rel (umem ?h) (unat u) b" using inv by (simp add: uheap_inv_def)
  have u0: "u \<noteq> 0" using rel by (auto simp: heap_rel_def)
  have st: "malloc_heap_start ?h = u" using inv by (auto simp: uheap_inv_def malloc_setup_def Let_def)
  obtain r m' b' where w: "kmalloc_walk (umem ?h) u (align_up sz) = Some (r, m')" "heap_rel m' (unat u) b'"
    "\<forall>x \<in> payloads (unat u) b. m' (adr x) = umem ?h (adr x)"
    "case amalloc (round8 (unat sz)) (unat u) b of None \<Rightarrow> r = 0 \<and> m' = umem ?h \<and> b' = b
     | Some (p, bs'') \<Rightarrow> r = adr p \<and> b' = bs''"
    using kmalloc_walk_rel [OF rel sz(2)] by auto
  have su: "malloc_setup u (?h\<lparr>umem := m'\<rparr>) = ?h\<lparr>umem := m'\<rparr>" using st u0 by (simp add: malloc_setup_def)
  have k: "malloc u h sz = Some (r, ?h\<lparr>umem := m'\<rparr>)" "uheap_inv u (?h\<lparr>umem := m'\<rparr>) b'"
    using w st sz su malloc_walk_eq [OF w(1)]
    by (simp_all add: malloc_def uheap_inv_def malloc_align_up_eq Let_def)
  have "if r = 0 then uheap_live u (?h\<lparr>umem := m'\<rparr>) b' = uheap_live u h b
    else \<exists>s \<ge> unat sz. (unat r, s) \<notin> uheap_live u h b \<and>
      uheap_live u (?h\<lparr>umem := m'\<rparr>) b' = insert (unat r, s) (uheap_live u h b)"
    using w(4) heap_rel_alloc_live [OF rel, of sz] by (auto simp: uheap_live_def split: option.splits)
  then show "\<exists>r h' b'. malloc u h sz = Some (r, h') \<and> uheap_inv u h' b' \<and>
      (\<forall>p s x. (p, s) \<in> uheap_live u h b \<and> p \<le> x \<and> x < p + s \<longrightarrow>
         umem (malloc_setup u h') (adr x) = umem (malloc_setup u h) (adr x)) \<and>
      (if r = 0 then uheap_live u h' b' = uheap_live u h b
       else \<exists>s \<ge> unat sz. (unat r, s) \<notin> uheap_live u h b \<and> uheap_live u h' b' = insert (unat r, s) (uheap_live u h b))"
    using k w(3) su by (intro exI [of _ r] exI [of _ "?h\<lparr>umem := m'\<rparr>"] exI [of _ b'])
      (auto simp: uheap_live_def payloads_live)
next
  fix h b p s
  assume inv: "uheap_inv u h b" and l: "(p, s) \<in> uheap_live u h b"
  have rel: "heap_rel (umem (malloc_setup u h)) (unat u) b" and l': "(p, s) \<in> live (unat u) b"
    using inv l by (auto simp: uheap_inv_def uheap_live_def)
  have st: "malloc_heap_start h = u" and u0: "u \<noteq> 0" using inv l' rel by (auto simp: uheap_inv_def heap_rel_def)
  have su: "malloc_setup u (h\<lparr>umem := m\<rparr>) = h\<lparr>umem := m\<rparr>" for m using st u0 by (simp add: malloc_setup_def)
  have h: "malloc_setup u h = h" using st u0 by (simp add: malloc_setup_def)
  have "of_nat p \<noteq> (0 :: u32)" using live_bounds [OF l'] rel adr_eq_0 [of p] by (auto simp: heap_rel_def adr_def)
  then have k: "free h (of_nat p) = h\<lparr>umem := kfree_store (umem h) (adr p)\<rparr>" by (simp add: free_eq adr_def)
  show "\<exists>b'. uheap_inv u (free h (of_nat p)) b' \<and> uheap_live u (free h (of_nat p)) b' = uheap_live u h b - {(p, s)} \<and>
      (\<forall>q t x. (q, t) \<in> uheap_live u h b - {(p, s)} \<and> q \<le> x \<and> x < q + t \<longrightarrow>
         umem (malloc_setup u (free h (of_nat p))) (adr x) = umem (malloc_setup u h) (adr x))"
    using heap_rel_afree(1) [OF rel l'] live_afree [OF l'] heap_rel_free_frame [OF rel l'] st
    by (intro exI [of _ "afree p (unat u) b"]) (auto simp: k h su uheap_inv_def uheap_live_def)
next
  fix h b p s q t
  assume "uheap_inv u h b" "(p, s) \<in> uheap_live u h b" "(q, t) \<in> uheap_live u h b" "(p, s) \<noteq> (q, t)"
  then show "{p..<p + s} \<inter> {q..<q + t} = {}" by (intro live_disjoint) (auto simp: uheap_live_def)
qed

section \<open>Allocating and freeing again\<close>

lemma amalloc_split:
  "amalloc n a bs = Some (p, bs') \<Longrightarrow>
   \<exists>xs s ys. bs = xs @ (s, True) # ys \<and> n \<le> s \<and> p = a + tot xs + 16 \<and>
     bs' = xs @ (if s < n + 32 then [(s, False)] else [(n, False), (s - n - 16, True)]) @ ys"
proof (induction bs arbitrary: a bs' rule: tot.induct)
  case (2 s f bs)
  show ?case
  proof (cases "f \<and> n \<le> s")
    case True
    with "2.prems" show ?thesis by (intro exI [of _ "[]"] exI [of _ s] exI [of _ bs]) auto
  next
    case False
    then obtain bs'' where bs'': "amalloc n (a + 16 + s) bs = Some (p, bs'')" "bs' = (s, f) # bs''"
      using "2.prems" by auto
    from "2.IH" [OF this(1)] obtain xs t ys where
      x: "bs = xs @ (t, True) # ys" "n \<le> t" "p = a + 16 + s + tot xs + 16"
      "bs'' = xs @ (if t < n + 32 then [(t, False)] else [(n, False), (t - n - 16, True)]) @ ys" by blast
    show ?thesis
      by (rule exI [of _ "(s, f) # xs"], rule exI [of _ t], rule exI [of _ ys]) (use x bs'' in simp)
  qed
qed simp

lemma afree_amalloc:
  assumes am: "amalloc n a bs = Some (p, bs')" and adj: "no_adj_free bs"
  shows "afree p a bs' = bs"
proof -
  obtain xs s ys where bs: "bs = xs @ (s, True) # ys" "n \<le> s" and p: "p = a + tot xs + 16"
    and bs': "bs' = xs @ (if s < n + 32 then [(s, False)] else [(n, False), (s - n - 16, True)]) @ ys"
    using amalloc_split [OF am] by blast
  show ?thesis
  proof (cases "s < n + 32")
    case True
    then have "mark_free p a bs' = bs" using bs bs' p by (simp add: mark_free_at)
    then show ?thesis using adj by (simp add: afree_def compact_id)
  next
    case False
    have d: "no_adj_free xs" "xs = [] \<or> \<not> snd (last xs)" "no_adj_free ((s, True) # ys)"
      using adj bs by (auto simp: no_adj_free_append)
    have "compact ((n, True) # (s - n - 16, True) # ys) = (s, True) # ys"
      using False d(3) by (simp add: compact_id)
    then have "compact (xs @ (n, True) # (s - n - 16, True) # ys) = bs"
      using d bs by (simp add: compact_append)
    moreover have "mark_free p a bs' = xs @ (n, True) # (s - n - 16, True) # ys"
      using False bs' p by (simp add: mark_free_at)
    ultimately show ?thesis by (simp add: afree_def)
  qed
qed

text \<open>One call of \<open>kmalloc\<close>, with the abstract block list it leads to.\<close>

lemma kmalloc_step:
  assumes "heap_inv h bs" and "sz \<noteq> 0" and "unat sz \<le> 4294967288"
  shows "\<exists>r m' bs'. kmalloc h sz = Some (r, h\<lparr>mem := m'\<rparr>) \<and> heap_inv (h\<lparr>mem := m'\<rparr>) bs' \<and>
    (\<forall>x \<in> payloads (unat (heap_start h)) bs. m' (adr x) = mem h (adr x)) \<and>
    (case amalloc (round8 (unat sz)) (unat (heap_start h)) bs of None \<Rightarrow> r = 0 \<and> m' = mem h \<and> bs' = bs
     | Some (p, bs'') \<Rightarrow> r = adr p \<and> bs' = bs'')"
proof -
  have rel: "heap_rel (mem h) (unat (heap_start h)) bs" and rdy: "heap_ready h"
    using assms by (auto simp: heap_inv_def)
  from kmalloc_walk_rel [OF rel assms(3)] obtain r m' bs' where
    "kmalloc_walk (mem h) (heap_start h) (align_up sz) = Some (r, m')" "heap_rel m' (unat (heap_start h)) bs'"
    "\<forall>x \<in> payloads (unat (heap_start h)) bs. m' (adr x) = mem h (adr x)"
    "case amalloc (round8 (unat sz)) (unat (heap_start h)) bs of None \<Rightarrow> r = 0 \<and> m' = mem h \<and> bs' = bs
     | Some (p, bs'') \<Rightarrow> r = adr p \<and> bs' = bs''" by auto
  with rdy assms(2) show ?thesis
    by (intro exI [of _ r] exI [of _ m'] exI [of _ bs']) (auto simp: kmalloc_def heap_inv_def)
qed

lemma heap_init_rel:
  assumes "unat kernel_end \<le> 4293918000" and "16 \<le> unat kernel_end"
  shows "heap_inv (heap_init kernel_end m) [(1048560, True)]"
    and "heap_start (heap_init kernel_end m) = align_up kernel_end"
proof -
  let ?s = "align_up kernel_end"
  have u: "unat ?s = round8 (unat kernel_end)" using assms by (intro unat_align_up) simp
  have b: "16 \<le> unat ?s" "unat ?s mod 8 = 0" "unat ?s + 1048576 < 4294967296"
    using assms round8_bounds [of "unat kernel_end"] u by auto
  have "adr (1048576 - 16) = HEAP_SIZE - 16" by (simp add: adr_def HEAP_SIZE_def)
  then have "heap_rel (m(?s := HEAP_SIZE - 16, ?s + 4 := 1, ?s + 8 := 0, ?s + 12 := 0)) (unat ?s) [(1048576 - 16, True)]"
    using heap_rel_init [of "unat ?s" 1048576 m] b by simp
  moreover have e: "heap_init kernel_end m =
      \<lparr>mem = m(?s := HEAP_SIZE - 16, ?s + 4 := 1, ?s + 8 := 0, ?s + 12 := 0), heap_start = ?s, heap_ready = True\<rparr>"
    by (simp add: heap_init_def Let_def align_up_def)
  ultimately show "heap_inv (heap_init kernel_end m) [(1048560, True)]" by (simp add: heap_inv_def)
  show "heap_start (heap_init kernel_end m) = ?s" by (simp add: e)
qed

section \<open>Properties of the heaps\<close>

text \<open>A fresh heap for the examples: the kernel ends at 2 MB.\<close>

definition kh0 :: kheap where
  "kh0 = heap_init 0x200000 (\<lambda>_. 0)"

lemma kh0_inv: "heap_inv kh0 [(1048560, True)]"
  unfolding kh0_def by (rule heap_init_rel(1)) simp_all

lemma kh0_start: "unat (heap_start kh0) = 0x200000"
  by (simp add: kh0_def heap_init_def Let_def align_up_def)

lemma client_run_alloc:
  assumes "alloc h sz = Some (r, h')" and "sz \<noteq> 0" and "unat sz \<le> 4294967288"
  shows "\<exists>L'. client_run alloc dealloc keep (L, h) (L', h')"
proof (cases "r = 0")
  case True
  then show ?thesis using client_run.null [OF client_run.stop, of sz alloc h h' dealloc keep L] assms by auto
next
  case False
  then show ?thesis using client_run.got [OF client_run.stop, of sz alloc h r h' dealloc keep L] assms by auto
qed



text \<open>
  C7: freeing a pointer that \<open>kmalloc\<close> handed out and that was not freed since keeps the heap
  well formed (in particular no two neighbouring blocks are both free), removes exactly that
  block from the allocated ones and changes no word of any other allocated block.
\<close>

theorem kfree_correct:
  assumes "heap_inv h bs" and "(unat p, s) \<in> heap_live h bs"
  shows "\<exists>bs'. heap_inv (kfree h p) bs' \<and> heap_live (kfree h p) bs' = heap_live h bs - {(unat p, s)} \<and>
    (\<forall>q t x. (q, t) \<in> heap_live h bs - {(unat p, s)} \<and> q \<le> x \<and> x < q + t \<longrightarrow>
       mem (kfree h p) (adr x) = mem h (adr x))"
  using kernel_heap.dealloc_spec [OF assms] by simp

theorem kfree_correct_witness:
  "heap_inv kh0 [(1048560, True)] \<and>
   (\<exists>h1 bs1. kmalloc kh0 64 = Some (0x200010, h1) \<and> (0x200010, 64) \<in> heap_live h1 bs1 \<and>
      (\<exists>bs2. heap_inv (kfree h1 0x200010) bs2 \<and> heap_live (kfree h1 0x200010) bs2 = heap_live h1 bs1 - {(0x200010, 64)}))"
proof -
  obtain r m' bs' where k: "kmalloc kh0 64 = Some (r, kh0\<lparr>mem := m'\<rparr>)" "heap_inv (kh0\<lparr>mem := m'\<rparr>) bs'"
    "case amalloc (round8 64) (unat (heap_start kh0)) [(1048560, True)] of None \<Rightarrow> r = 0 \<and> m' = mem kh0 \<and> bs' = [(1048560, True)]
     | Some (p, bs'') \<Rightarrow> r = adr p \<and> bs' = bs''"
    using kmalloc_step [OF kh0_inv, of 64] by auto
  have r: "r = 0x200010" "bs' = [(64, False), (1048480, True)]"
    using k(3) by (simp_all add: kh0_start round8_def adr_def)
  have l: "(unat (0x200010 :: u32), 64) \<in> heap_live (kh0\<lparr>mem := m'\<rparr>) bs'"
    by (simp add: r heap_live_def kh0_start)
  show ?thesis using kfree_correct [OF k(2) l] k(1) l r kh0_inv by auto
qed

text \<open>
  \<open>kfree\<close> undoes \<open>kmalloc\<close>: allocating a block and freeing it again gives back exactly the
  list of blocks there was before, so no sequence of paired calls fragments or leaks the heap.
\<close>

theorem kmalloc_kfree_roundtrip:
  assumes "heap_inv h bs" and "sz \<noteq> 0" and "unat sz \<le> 4294967288" and "kmalloc h sz = Some (r, h')" and "r \<noteq> 0"
  shows "heap_inv (kfree h' r) bs"
proof -
  let ?lo = "unat (heap_start h)" and ?n = "round8 (unat sz)"
  obtain m' bs' where h': "h' = h\<lparr>mem := m'\<rparr>" "heap_inv h' bs'" and
    c: "case amalloc ?n ?lo bs of None \<Rightarrow> r = 0 \<and> m' = mem h \<and> bs' = bs | Some (p, bs'') \<Rightarrow> r = adr p \<and> bs' = bs''"
    using kmalloc_step [OF assms(1-3)] assms(4) by auto
  then obtain p where am: "amalloc ?n ?lo bs = Some (p, bs')" and r: "r = adr p"
    using assms(5) by (auto split: option.splits)
  have rel: "heap_rel (mem h) ?lo bs" "heap_rel m' ?lo bs'" using assms(1) h' by (auto simp: heap_inv_def)
  obtain s where "live ?lo bs' = insert (p, s) (live ?lo bs)" using amalloc_live [OF am] by blast
  then have "heap_rel (kfree_store m' (adr p)) ?lo (afree p ?lo bs')"
    by (intro heap_rel_afree(1) [OF rel(2), of p s]) auto
  moreover have "afree p ?lo bs' = bs" using rel(1) by (intro afree_amalloc [OF am]) (simp add: heap_rel_def)
  ultimately show ?thesis using assms(1,5) h' r by (simp add: heap_inv_def kfree_def)
qed

theorem kmalloc_kfree_roundtrip_witness:
  "\<exists>r h'. kmalloc kh0 5000 = Some (r, h') \<and> r \<noteq> 0 \<and> heap_inv (kfree h' r) [(1048560, True)]"
proof -
  obtain r m' bs' where k: "kmalloc kh0 5000 = Some (r, kh0\<lparr>mem := m'\<rparr>)"
    "case amalloc (round8 5000) (unat (heap_start kh0)) [(1048560, True)] of None \<Rightarrow> r = 0 \<and> m' = mem kh0 \<and> bs' = [(1048560, True)]
     | Some (p, bs'') \<Rightarrow> r = adr p \<and> bs' = bs''"
    using kmalloc_step [OF kh0_inv, of 5000] by auto
  have "r \<noteq> 0" using k(2) by (simp add: kh0_start round8_def adr_def)
  then show ?thesis using kmalloc_kfree_roundtrip [OF kh0_inv _ _ k(1)] k(1) by auto
qed

text \<open>
  C12: data in a block of the kernel heap survives: whatever other blocks a client allocates and
  frees, a block it keeps stays allocated, and every word in it keeps its contents.
\<close>

theorem kernel_heap_data_survives:
  assumes "client_run kmalloc kfree keep (L, h) (L', h')" and "heap_inv h bs" and "L \<subseteq> fst ` heap_live h bs"
    and "(p, s) \<in> heap_live h bs" and "p \<in> keep"
  shows "\<exists>bs'. heap_inv h' bs' \<and> (p, s) \<in> heap_live h' bs' \<and>
    (\<forall>x. p \<le> x \<and> x < p + s \<longrightarrow> mem h' (adr x) = mem h (adr x))"
  using kernel_heap.kept_block [OF assms] by auto

theorem kernel_heap_data_survives_witness:
  "\<exists>h1 h2 r. kmalloc kh0 64 = Some (0x200010, h1) \<and> kmalloc h1 128 = Some (r, h2) \<and>
     (\<exists>bs'. heap_inv h2 bs' \<and> (0x200010, 64) \<in> heap_live h2 bs' \<and>
       (\<forall>x. 0x200010 \<le> x \<and> x < 0x200010 + 64 \<longrightarrow> mem h2 (adr x) = mem h1 (adr x)))"
proof -
  obtain r m' bs' where k: "kmalloc kh0 64 = Some (r, kh0\<lparr>mem := m'\<rparr>)" "heap_inv (kh0\<lparr>mem := m'\<rparr>) bs'"
    "case amalloc (round8 64) (unat (heap_start kh0)) [(1048560, True)] of None \<Rightarrow> r = 0 \<and> m' = mem kh0 \<and> bs' = [(1048560, True)]
     | Some (p, bs'') \<Rightarrow> r = adr p \<and> bs' = bs''"
    using kmalloc_step [OF kh0_inv, of 64] by auto
  let ?h1 = "kh0\<lparr>mem := m'\<rparr>"
  have r: "r = 0x200010" "bs' = [(64, False), (1048480, True)]"
    using k(3) by (simp_all add: kh0_start round8_def adr_def)
  have l: "(0x200010, 64) \<in> heap_live ?h1 bs'" by (simp add: r heap_live_def kh0_start)
  obtain q m2 where k2: "kmalloc ?h1 128 = Some (q, ?h1\<lparr>mem := m2\<rparr>)" using kmalloc_step [OF k(2), of 128] by auto
  obtain L where "client_run kmalloc kfree {0x200010} ({0x200010}, ?h1) (L, ?h1\<lparr>mem := m2\<rparr>)"
    using client_run_alloc [of kmalloc, OF k2] by fastforce
  from kernel_heap_data_survives [OF this k(2) _ l] have
    "\<exists>bs'. heap_inv (?h1\<lparr>mem := m2\<rparr>) bs' \<and> (0x200010, 64) \<in> heap_live (?h1\<lparr>mem := m2\<rparr>) bs' \<and>
       (\<forall>x. 0x200010 \<le> x \<and> x < 0x200010 + 64 \<longrightarrow> mem (?h1\<lparr>mem := m2\<rparr>) (adr x) = mem ?h1 (adr x))"
    using l by force
  then show ?thesis using k(1) k2 r(1) by metis
qed

text \<open>
  the same for a process: whatever other blocks a program allocates and frees with
  \<open>malloc\<close> and \<open>free\<close> of the userspace libc, a block it keeps stays allocated and keeps its
  contents.
\<close>

theorem libc_heap_data_survives:
  assumes "client_run (malloc u) free keep (L, h) (L', h')" and "uheap_inv u h bs" and "L \<subseteq> fst ` uheap_live u h bs"
    and "(p, s) \<in> uheap_live u h bs" and "p \<in> keep"
  shows "\<exists>bs'. uheap_inv u h' bs' \<and> (p, s) \<in> uheap_live u h' bs' \<and>
    (\<forall>x. p \<le> x \<and> x < p + s \<longrightarrow> umem (malloc_setup u h') (adr x) = umem (malloc_setup u h) (adr x))"
  using libc_heap.kept_block [OF assms] by auto

definition uh0 :: uheap where
  "uh0 = \<lparr>umem = (\<lambda>_. 0), malloc_heap_start = 0\<rparr>"

lemma uh0_inv: "uheap_inv 0x400000 uh0 [(65520, True)]"
  using heap_rel_init [where lo = "0x400000" and sz = 65536 and m = "\<lambda>_. 0"]
  by (simp add: uheap_inv_def uh0_def malloc_setup_def Let_def USER_HEAP_SIZE_def adr_def)

theorem libc_heap_data_survives_witness:
  "\<exists>h1 h2 p s bs1. malloc 0x400000 uh0 64 = Some (p, h1) \<and> (unat p, s) \<in> uheap_live 0x400000 h1 bs1 \<and> 64 \<le> s \<and>
     (\<exists>q. malloc 0x400000 h1 32 = Some (q, h2)) \<and>
     (\<exists>bs'. uheap_inv 0x400000 h2 bs' \<and> (unat p, s) \<in> uheap_live 0x400000 h2 bs')"
proof -
  obtain p h1 b1 where k: "malloc 0x400000 uh0 64 = Some (p, h1)" "uheap_inv 0x400000 h1 b1"
    and c: "if p = 0 then uheap_live 0x400000 h1 b1 = uheap_live 0x400000 uh0 [(65520, True)]
      else \<exists>s \<ge> unat (64 :: u32). (unat p, s) \<notin> uheap_live 0x400000 uh0 [(65520, True)] \<and>
        uheap_live 0x400000 h1 b1 = insert (unat p, s) (uheap_live 0x400000 uh0 [(65520, True)])"
    using libc_heap.alloc_spec [OF uh0_inv, of 64] by auto
  have "\<exists>h. malloc 0x400000 uh0 64 = Some (0x400010, h)"
    by (simp add: malloc_def uh0_def malloc_setup_def Let_def USER_HEAP_SIZE_def malloc_align_up_def)
       (subst malloc_walk.simps, simp)
  then have "p = 0x400010" using k by simp
  then obtain s where s: "64 \<le> s" "(unat p, s) \<in> uheap_live 0x400000 h1 b1" using c by auto
  obtain q h2 where k2: "malloc 0x400000 h1 32 = Some (q, h2)" using libc_heap.alloc_spec [OF k(2), of 32] by auto
  obtain L where "client_run (malloc 0x400000) free {unat p} ({unat p}, h1) (L, h2)"
    using client_run_alloc [of "malloc 0x400000", OF k2] by fastforce
  from libc_heap_data_survives [OF this k(2) _ s(2)] have
    "\<exists>bs'. uheap_inv 0x400000 h2 bs' \<and> (unat p, s) \<in> uheap_live 0x400000 h2 bs'" using s by force
  then show ?thesis using k(1) k2 s by blast
qed

text \<open>
  a request of more than \<open>2^32 - 8\<close> bytes is not refused: rounding it up wraps to 0, so
  on a fresh heap \<open>kmalloc\<close> answers it with a non-null pointer to a block of size 0.
\<close>

theorem kmalloc_huge_request_wraps:
  "\<exists>h'. kmalloc kh0 0xFFFFFFFF = Some (0x200010, h') \<and> blk_size (mem h') (0x200010 - 16) = 0"
  by (simp add: kmalloc_def kh0_def heap_init_def Let_def align_up_def HEAP_SIZE_def)
     (subst kmalloc_walk.simps, simp add: split_block_def Let_def)

end
