(* ===== verification/Fat_Disk.thy ===== *)
theory Fat_Disk
  imports Harold_Base
begin

unbundle bit_operations_syntax

text \<open>
  The bottom of the FAT16 driver (src/src/fat.c): the drive as src/src/ata.c presents it, the
  volume layout that \<open>fat_init\<close> computes from the boot sector, and the file allocation table:
  reading and writing entries, allocating a cluster, and following, measuring and freeing
  cluster chains. Loops that follow the table may run forever on a cyclic chain; they are
  \<open>partial_function (option)\<close>, where \<open>None\<close> means that the call does not return.
\<close>

section \<open>The drive\<close>

text \<open>
  The drive holds 512-byte sectors. \<open>rd_bad\<close> and \<open>wr_bad\<close> say at which sectors it answers a
  read or a write command with the error bit; \<open>ata_wait_drq\<close> then fails before any data is
  transferred, so that a failing write leaves the sector as it was.
\<close>

record ata_disk =
  sectors :: "u32 \<Rightarrow> bytes"
  rd_bad :: "u32 \<Rightarrow> bool"
  wr_bad :: "u32 \<Rightarrow> bool"

text \<open>
  The address that reaches the drive: the four registers the driver programs from the LBA,
  put together again. Only the low 28 bits survive.
\<close>

definition ata_lba28 :: "u32 \<Rightarrow> u32" where
  "ata_lba28 lba =
     (let drive_head = 0xE0 OR (drop_bit 24 lba AND 0x0F);
          lba_low = lba AND 0xFF;
          lba_mid = drop_bit 8 lba AND 0xFF;
          lba_high = drop_bit 16 lba AND 0xFF
      in push_bit 24 (drive_head AND 0x0F) OR push_bit 16 lba_high OR push_bit 8 lba_mid OR lba_low)"

definition ata_read_sector :: "ata_disk \<Rightarrow> u32 \<Rightarrow> bytes option" where
  "ata_read_sector d lba =
     (if rd_bad d (ata_lba28 lba) then None else Some (sectors d (ata_lba28 lba)))"

definition ata_write_sector :: "ata_disk \<Rightarrow> u32 \<Rightarrow> bytes \<Rightarrow> int \<times> ata_disk" where
  "ata_write_sector d lba buf =
     (if wr_bad d (ata_lba28 lba) then (- 1, d)
      else (0, d\<lparr>sectors := (sectors d)(ata_lba28 lba := buf)\<rparr>))"

section \<open>The volume layout\<close>

record fat_layout =
  fat_start_lba :: u32
  root_dir_start_lba :: u32
  root_dir_sectors :: u32
  data_start_lba :: u32
  root_entry_count :: u16
  sectors_per_cluster :: u8
  num_fats :: u8
  fat_size_sectors :: u32
  fat_ready :: bool

text \<open>
  \<open>fat_init\<close>, over the boot sector's packed fields: bytes per sector at 11, sectors per cluster
  at 13, reserved sectors at 14, number of FATs at 16, root entries at 17, FAT size at 22 and
  the file system label at 54. An error leaves the layout as it was.
\<close>

definition fat_init :: "ata_disk \<Rightarrow> fat_layout \<Rightarrow> int \<times> fat_layout" where
  "fat_init d L =
     (case ata_read_sector d 0 of
        None \<Rightarrow> (- 1, L)
      | Some boot \<Rightarrow>
          if boot ! 510 \<noteq> 0x55 \<or> boot ! 511 \<noteq> 0xAA then (- 1, L)
          else if get_le16 boot 11 \<noteq> 512 then (- 1, L)
          else if boot ! 54 \<noteq> 0x46 \<or> boot ! 55 \<noteq> 0x41 \<or> boot ! 56 \<noteq> 0x54 \<or>
                  boot ! 57 \<noteq> 0x31 \<or> boot ! 58 \<noteq> 0x36 then (- 1, L)
          else
            (let rec = get_le16 boot 17;
                 nf = boot ! 16;
                 fs = ucast (get_le16 boot 22);
                 start = ucast (get_le16 boot 14);
                 root = start + ucast nf * fs;
                 rsec = (ucast rec * 32 + (512 - 1)) div 512
             in (0, \<lparr>fat_start_lba = start, root_dir_start_lba = root, root_dir_sectors = rsec,
                     data_start_lba = root + rsec, root_entry_count = rec,
                     sectors_per_cluster = boot ! 13, num_fats = nf, fat_size_sectors = fs,
                     fat_ready = True\<rparr>)))"

section \<open>The file allocation table\<close>

definition fat_get_next_cluster :: "fat_layout \<Rightarrow> ata_disk \<Rightarrow> u16 \<Rightarrow> u16" where
  "fat_get_next_cluster L d cluster =
     (let fat_offset = ucast cluster * 2 :: u32;
          fat_sector = fat_start_lba L + fat_offset div 512;
          offset_in_sector = fat_offset mod 512
      in case ata_read_sector d fat_sector of
           None \<Rightarrow> 0xFFFF
         | Some sector_buf \<Rightarrow> get_le16 sector_buf (2 * unat (offset_in_sector div 2)))"

text \<open>One round of the loop over the copies of the table.\<close>

definition fat_set_entry_copy :: "fat_layout \<Rightarrow> u16 \<Rightarrow> u16 \<Rightarrow> nat \<Rightarrow> ata_disk \<Rightarrow> ata_disk" where
  "fat_set_entry_copy L cluster v copy d =
     (let fat_offset = ucast cluster * 2 :: u32;
          sector_offset = fat_offset div 512;
          offset_in_sector = fat_offset mod 512;
          sector = fat_start_lba L + of_nat copy * fat_size_sectors L + sector_offset
      in case ata_read_sector d sector of
           None \<Rightarrow> d
         | Some sector_buf \<Rightarrow>
             snd (ata_write_sector d sector (put_le16 sector_buf (2 * unat (offset_in_sector div 2)) v)))"

definition fat_set_cluster_entry :: "fat_layout \<Rightarrow> ata_disk \<Rightarrow> u16 \<Rightarrow> u16 \<Rightarrow> ata_disk" where
  "fat_set_cluster_entry L d cluster v = fold (fat_set_entry_copy L cluster v) [0..<unat (num_fats L)] d"

text \<open>
  The scan of \<open>fat_alloc_cluster\<close>, with its cache of the FAT sector loaded last
  (\<open>0xFFFFFFFF\<close> when there is none).
\<close>

function fat_alloc_scan :: "fat_layout \<Rightarrow> ata_disk \<Rightarrow> u32 \<Rightarrow> u32 \<Rightarrow> bytes \<Rightarrow> u32 \<Rightarrow> u16 \<times> ata_disk" where
  "fat_alloc_scan L d total_entries loaded_sector sector_buf cluster =
     (if cluster < total_entries then
        let fat_offset = cluster * 2;
            sector = fat_start_lba L + fat_offset div 512;
            offset_in_sector = fat_offset mod 512
        in case (if sector \<noteq> loaded_sector then ata_read_sector d sector else Some sector_buf) of
             None \<Rightarrow> (0, d)
           | Some buf \<Rightarrow>
               if get_le16 buf (2 * unat (offset_in_sector div 2)) = 0
               then (ucast cluster, fat_set_cluster_entry L d (ucast cluster) 0xFFFF)
               else fat_alloc_scan L d total_entries sector buf (cluster + 1)
      else (0, d))"
  by pat_completeness auto

definition fat_alloc_cluster :: "fat_layout \<Rightarrow> ata_disk \<Rightarrow> u16 \<times> ata_disk" where
  "fat_alloc_cluster L d = fat_alloc_scan L d (fat_size_sectors L * (512 div 2)) 0xFFFFFFFF [] 2"

text \<open>A cluster number that names a data cluster, as every loop of the driver tests it.\<close>

definition valid_cluster :: "u16 \<Rightarrow> bool" where
  "valid_cluster c \<longleftrightarrow> 2 \<le> c \<and> c < 0xFFF8"

partial_function (option) fat_last_walk :: "fat_layout \<Rightarrow> ata_disk \<Rightarrow> u16 \<Rightarrow> u16 option" where
  "fat_last_walk L d cluster =
     (let nx = fat_get_next_cluster L d cluster
      in if valid_cluster nx then fat_last_walk L d nx else Some cluster)"

definition fat_find_last_cluster :: "fat_layout \<Rightarrow> ata_disk \<Rightarrow> u16 \<Rightarrow> u16 option" where
  "fat_find_last_cluster L d first_cluster =
     (if \<not> valid_cluster first_cluster then Some 0 else fat_last_walk L d first_cluster)"

partial_function (option) fat_free_chain :: "fat_layout \<Rightarrow> ata_disk \<Rightarrow> u16 \<Rightarrow> ata_disk option" where
  "fat_free_chain L d cluster =
     (if valid_cluster cluster then
        let nx = fat_get_next_cluster L d cluster
        in fat_free_chain L (fat_set_cluster_entry L d cluster 0) nx
      else Some d)"

termination fat_alloc_scan
  by (relation "measure (\<lambda>(L, d, total, ls, buf, c). unat total - unat c)")
     (auto simp: unat_inc_u32 word_less_nat_alt)

declare fat_alloc_scan.simps [simp del]

section \<open>Chains and well-formed volumes\<close>

text \<open>
  \<open>cchain nx c cs\<close>: following \<open>nx\<close> from \<open>c\<close> visits exactly the data clusters \<open>cs\<close> and then
  leaves the range of data clusters.
\<close>

fun cchain :: "(u16 \<Rightarrow> u16) \<Rightarrow> u16 \<Rightarrow> u16 list \<Rightarrow> bool" where
  "cchain nx c [] \<longleftrightarrow> \<not> valid_cluster c"
| "cchain nx c (x # xs) \<longleftrightarrow> c = x \<and> valid_cluster x \<and> cchain nx (nx x) xs"

text \<open>What \<open>fat_init\<close> establishes; the bounds come from the widths of the boot sector's fields.\<close>

definition lay_wf :: "fat_layout \<Rightarrow> bool" where
  "lay_wf L \<longleftrightarrow> unat (fat_start_lba L) < 65536 \<and> unat (fat_size_sectors L) < 65536 \<and>
     unat (root_dir_sectors L) \<le> 4096 \<and>
     root_dir_start_lba L = fat_start_lba L + ucast (num_fats L) * fat_size_sectors L \<and>
     data_start_lba L = root_dir_start_lba L + root_dir_sectors L"

definition disk_wf :: "ata_disk \<Rightarrow> bool" where
  "disk_wf d \<longleftrightarrow> (\<forall>lba. length (sectors d lba) = 512)"

definition good_sector :: "ata_disk \<Rightarrow> u32 \<Rightarrow> bool" where
  "good_sector d lba \<longleftrightarrow> \<not> rd_bad d lba \<and> \<not> wr_bad d lba"

text \<open>The sector of copy \<open>k\<close> of the table that holds the entry of cluster \<open>c\<close>.\<close>

definition fat_lba :: "fat_layout \<Rightarrow> nat \<Rightarrow> u16 \<Rightarrow> nat" where
  "fat_lba L k c = unat (fat_start_lba L) + k * unat (fat_size_sectors L) + unat c div 256"

definition in_fat :: "fat_layout \<Rightarrow> u16 \<Rightarrow> bool" where
  "in_fat L c \<longleftrightarrow> unat c div 256 < unat (fat_size_sectors L)"

definition fat_ok :: "fat_layout \<Rightarrow> ata_disk \<Rightarrow> bool" where
  "fat_ok L d \<longleftrightarrow> lay_wf L \<and> disk_wf d \<and> 0 < num_fats L \<and>
     (\<forall>k < unat (num_fats L). \<forall>c. in_fat L c \<longrightarrow> good_sector d (of_nat (fat_lba L k c)))"

section \<open>Lemmas on the drive\<close>

lemma ata_lba28_eq: "ata_lba28 lba = lba AND mask 28"
proof -
  have m: "(0x0F :: u32) = mask 4" "(0xFF :: u32) = mask 8" "(0xE0 :: u32) = push_bit 5 (mask 3)"
    by (simp_all add: mask_eq_exp_minus_1 push_bit_eq_mult)
  show ?thesis unfolding ata_lba28_def Let_def m
  proof (rule bit_word_eqI)
    fix n assume "n < LENGTH(32)"
    then consider "n < 8" | "8 \<le> n" "n < 16" | "16 \<le> n" "n < 24" | "24 \<le> n" "n < 32" by fastforce
    then show "bit (push_bit 24 ((push_bit 5 (mask 3) OR drop_bit 24 lba AND mask 4) AND mask 4) OR
        push_bit 16 (drop_bit 16 lba AND mask 8) OR push_bit 8 (drop_bit 8 lba AND mask 8) OR lba AND mask 8) n =
        bit (lba AND mask 28) n"
      by cases (auto simp: bit_simps)
  qed
qed

lemma ata_lba28_id [simp]: "unat lba < 268435456 \<Longrightarrow> ata_lba28 lba = lba"
  by (rule word_unat_eq_iff [THEN iffD2]) (simp add: ata_lba28_eq unat_and_mask)

lemma ata_lba28_of_nat [simp]: "n < 268435456 \<Longrightarrow> ata_lba28 (of_nat n) = of_nat n"
  by (rule ata_lba28_id) (simp add: unat_of_nat_u32)

lemma ata_write_sector_fields [simp]:
  "rd_bad (snd (ata_write_sector d lba buf)) = rd_bad d"
  "wr_bad (snd (ata_write_sector d lba buf)) = wr_bad d"
  by (simp_all add: ata_write_sector_def)

lemma sectors_ata_write: "sectors (snd (ata_write_sector d lba buf)) l =
    (if l = ata_lba28 lba \<and> \<not> wr_bad d l then buf else sectors d l)"
  by (auto simp: ata_write_sector_def)

end
