(* ===== verification/Fat_Table.thy ===== *)
theory Fat_Table
  imports Fat_Disk
begin

unbundle bit_operations_syntax

text \<open>
  The file allocation table is correct: an entry that is written is read back and no other
  entry changes, all copies agree, the allocator takes the first free cluster, and the loops
  that follow, extend and free a chain do to the list of its clusters what they should. The
  interface \<open>fat_table\<close> states the laws the chain lemmas need; the driver's table is shown to
  satisfy them.
\<close>

section \<open>An interface to cluster tables\<close>

lemma cchain_det: "cchain nx c cs \<Longrightarrow> cchain nx c ds \<Longrightarrow> cs = ds"
  by (induction nx c cs arbitrary: ds rule: cchain.induct; case_tac ds) auto

lemma cchain_suffix: "cchain nx c (xs @ y # ys) \<Longrightarrow> cchain nx y (y # ys)"
  by (induction xs arbitrary: c) auto

lemma cchain_distinct: "cchain nx c cs \<Longrightarrow> distinct cs"
proof (induction nx c cs rule: cchain.induct)
  case (2 nx c x xs)
  have "x \<notin> set xs"
  proof
    assume "x \<in> set xs"
    then obtain as bs where "xs = as @ x # bs" by (meson split_list)
    then have "cchain nx x (x # bs)" using 2(2) cchain_suffix [of nx "nx x" as x bs] by simp
    then have "x # bs = x # xs" using 2(2) cchain_det by (metis cchain.simps(2))
    then show False using \<open>xs = as @ x # bs\<close> by (metis append_self_conv2 list.inject list.set_intros(1)
          length_append length_Cons add_Suc_right le_add2 not_less_eq_eq)
  qed
  then show ?case using 2 by simp
qed simp

lemma cchain_valid: "cchain nx c cs \<Longrightarrow> x \<in> set cs \<Longrightarrow> valid_cluster x"
  by (induction nx c cs rule: cchain.induct) auto

lemma cchain_cong: "(\<And>x. x \<in> set cs \<Longrightarrow> nx x = nx' x) \<Longrightarrow> cchain nx c cs = cchain nx' c cs"
  by (induction cs arbitrary: c) auto

lemma cchain_snoc: "cchain nx c (cs @ [l]) \<Longrightarrow> valid_cluster n \<Longrightarrow> n \<notin> set (cs @ [l]) \<Longrightarrow>
    \<not> valid_cluster (nx n) \<Longrightarrow> cchain (nx(l := n)) c (cs @ [l, n])"
proof (induction cs arbitrary: c)
  case (Cons a cs)
  moreover have "a \<noteq> l" using cchain_distinct [OF Cons.prems(1)] by auto
  ultimately show ?case by auto
qed auto

locale fat_table =
  fixes get :: "'s \<Rightarrow> u16 \<Rightarrow> u16" and upd :: "'s \<Rightarrow> u16 \<Rightarrow> u16 \<Rightarrow> 's"
    and inv :: "'s \<Rightarrow> bool" and tab :: "u16 \<Rightarrow> bool"
  assumes get_upd: "inv s \<Longrightarrow> tab c \<Longrightarrow> tab c' \<Longrightarrow> get (upd s c v) c' = (if c' = c then v else get s c')"
    and inv_upd: "inv s \<Longrightarrow> tab c \<Longrightarrow> inv (upd s c v)"
begin

lemma chain_upd_other:
  assumes "inv s" and "tab x" and "\<forall>c \<in> set cs. tab c" and "x \<notin> set cs"
  shows "cchain (get (upd s x v)) c cs = cchain (get s) c cs"
  by (rule cchain_cong) (use assms in \<open>auto simp: get_upd\<close>)

lemma chain_link:
  assumes "inv s" and "cchain (get s) c (cs @ [l])" and "\<forall>x \<in> set (cs @ [l, n]). tab x"
    and "valid_cluster n" and "n \<notin> set (cs @ [l])" and "\<not> valid_cluster (get s n)"
  shows "cchain (get (upd s l n)) c (cs @ [l, n])"
proof -
  have "cchain ((get s)(l := n)) c (cs @ [l, n])" using cchain_snoc assms by auto
  moreover have "cchain ((get s)(l := n)) c (cs @ [l, n]) = cchain (get (upd s l n)) c (cs @ [l, n])"
    by (rule cchain_cong) (use assms in \<open>auto simp: get_upd\<close>)
  ultimately show ?thesis by simp
qed

lemma inv_fold_upd: "inv s \<Longrightarrow> \<forall>x \<in> set cs. tab x \<Longrightarrow> inv (fold (\<lambda>c s. upd s c v) cs s)"
  by (induction cs arbitrary: s) (auto simp: inv_upd)

lemma get_fold_upd: "inv s \<Longrightarrow> \<forall>x \<in> set cs. tab x \<Longrightarrow> tab c \<Longrightarrow>
    get (fold (\<lambda>c s. upd s c v) cs s) c = (if c \<in> set cs then v else get s c)"
  by (induction cs arbitrary: s) (auto simp: inv_upd get_upd)

end

section \<open>The driver's table\<close>

lemma fat_lba_bound:
  assumes "lay_wf L" and "k < 256"
  shows "fat_lba L k c < 268435456"
proof -
  have "k * unat (fat_size_sectors L) \<le> 255 * 65535" using assms by (intro mult_mono) (auto simp: lay_wf_def)
  moreover have "unat c div 256 \<le> unat c" by simp
  ultimately show ?thesis using assms unat_less_u16 [of c] unfolding lay_wf_def fat_lba_def by linarith
qed

lemma unat_fat_offset: "unat (ucast (c :: u16) * 2 div 512 :: u32) = unat c div 256"
    "unat (ucast (c :: u16) * 2 mod 512 div 2 :: u32) = unat c mod 256"
proof -
  have *: "unat (ucast c * 2 :: u32) = unat c * 2"
    using unat_less_u16 [of c] by (simp add: unat_mult_u32 unat_ucast_u16_u32)
  show "unat (ucast c * 2 div 512 :: u32) = unat c div 256" by (simp add: unat_div * div_mult2_eq)
  have "unat c * 2 mod 512 div 2 = unat c mod 256" by (simp add: mult_mod_left [of "unat c" 256 2, simplified, symmetric])
  then show "unat (ucast c * 2 mod 512 div 2 :: u32) = unat c mod 256" by (simp add: unat_div unat_mod *)
qed

lemma fat_lba_word:
  assumes "lay_wf L" and "k < 256"
  shows "fat_start_lba L + of_nat k * fat_size_sectors L + ucast (c :: u16) * 2 div 512 = of_nat (fat_lba L k c)"
proof -
  have "of_nat (unat (ucast c * 2 div 512 :: u32)) = (ucast c * 2 div 512 :: u32)" by simp
  then show ?thesis by (simp add: fat_lba_def unat_fat_offset)
qed

lemma fat_get_next_cluster_eq:
  assumes "lay_wf L"
  shows "fat_get_next_cluster L d c =
    (if rd_bad d (of_nat (fat_lba L 0 c)) then 0xFFFF else get_le16 (sectors d (of_nat (fat_lba L 0 c))) (2 * (unat c mod 256)))"
  using fat_lba_word [OF assms, of 0 c] fat_lba_bound [OF assms, of 0 c]
  by (simp add: fat_get_next_cluster_def Let_def unat_fat_offset ata_read_sector_def)

lemma fat_set_entry_copy_eq:
  assumes "lay_wf L" and "k < 256" and "l = of_nat (fat_lba L k c)"
  shows "fat_set_entry_copy L c v k d =
    (if rd_bad d l \<or> wr_bad d l then d
     else d\<lparr>sectors := (sectors d)(l := put_le16 (sectors d l) (2 * (unat c mod 256)) v)\<rparr>)"
  using fat_lba_word [OF assms(1,2), of c] fat_lba_bound [OF assms(1,2), of c] assms(3)
  by (simp add: fat_set_entry_copy_def Let_def unat_fat_offset ata_read_sector_def ata_write_sector_def)

lemma put_le16_twice [buf_simps]: "put_le16 (put_le16 buf i v) i v = put_le16 buf i v"
  by (simp add: put_le16_def list_update_swap [of i "Suc i"])

lemma fold_set_entry:
  assumes "lay_wf L" and "n \<le> 256"
  shows "rd_bad (fold (fat_set_entry_copy L c v) [0..<n] d) = rd_bad d"
    and "wr_bad (fold (fat_set_entry_copy L c v) [0..<n] d) = wr_bad d"
    and "sectors (fold (fat_set_entry_copy L c v) [0..<n] d) l =
      (if (\<exists>k < n. l = of_nat (fat_lba L k c)) \<and> good_sector d l
       then put_le16 (sectors d l) (2 * (unat c mod 256)) v else sectors d l)"
  using assms(2)
proof (induction n arbitrary: l)
  case (Suc n)
  { case 1 then show ?case using Suc(1) by (simp add: fat_set_entry_copy_eq [OF assms(1) _ refl]) }
  { case 2 then show ?case using Suc(2) by (simp add: fat_set_entry_copy_eq [OF assms(1) _ refl]) }
  { case 3 then show ?case using Suc(1,2) Suc(3) [of l] Suc(3) [of "of_nat (fat_lba L n c)"]
      by (auto simp: fat_set_entry_copy_eq [OF assms(1) _ refl] good_sector_def less_Suc_eq put_le16_twice) }
qed auto

lemma set_entry_fields:
  assumes "lay_wf L"
  shows "rd_bad (fat_set_cluster_entry L d c v) = rd_bad d" "wr_bad (fat_set_cluster_entry L d c v) = wr_bad d"
  using fold_set_entry(1,2) [OF assms less_imp_le [OF unat_less_u8]] by (simp_all add: fat_set_cluster_entry_def)

lemma sectors_set_entry:
  assumes "lay_wf L"
  shows "sectors (fat_set_cluster_entry L d c v) l =
    (if (\<exists>k < unat (num_fats L). l = of_nat (fat_lba L k c)) \<and> good_sector d l
     then put_le16 (sectors d l) (2 * (unat c mod 256)) v else sectors d l)"
  using fold_set_entry(3) [OF assms less_imp_le [OF unat_less_u8]] by (simp add: fat_set_cluster_entry_def)

lemma fat_lba_eq_iff:
  assumes "in_fat L c" and "in_fat L c'"
  shows "fat_lba L k c = fat_lba L j c' \<longleftrightarrow> k = j \<and> unat c div 256 = unat c' div 256"
proof -
  have "k * s + x = j * s + y \<longleftrightarrow> k = j \<and> x = y" if "x < s" "y < s" for s x y :: nat
  proof
    assume e: "k * s + x = j * s + y"
    have "(k * s + x) div s = k" "(j * s + y) div s = j" using that by simp_all
    with e show "k = j \<and> x = y" by simp
  qed simp
  then show ?thesis using assms by (simp add: fat_lba_def in_fat_def add.assoc)
qed

lemma fat_lba_word_eq_iff:
  assumes "lay_wf L" "k < 256" "j < 256" "in_fat L c" "in_fat L c'"
  shows "(of_nat (fat_lba L k c) :: u32) = of_nat (fat_lba L j c') \<longleftrightarrow> k = j \<and> unat c div 256 = unat c' div 256"
  using fat_lba_bound [OF assms(1,2), of c] fat_lba_bound [OF assms(1,3), of c']
  by (simp add: of_nat_u32_inj fat_lba_eq_iff [OF assms(4,5)])

lemma fat_ok_good: "fat_ok L d \<Longrightarrow> in_fat L c \<Longrightarrow> k < unat (num_fats L) \<Longrightarrow> good_sector d (of_nat (fat_lba L k c))"
  by (simp add: fat_ok_def)

lemma fat_ok_copy0: "fat_ok L d \<Longrightarrow> 0 < unat (num_fats L)"
  by (simp add: fat_ok_def word_less_nat_alt)

lemma fat_ok_set:
  assumes "fat_ok L d" shows "fat_ok L (fat_set_cluster_entry L d c v)"
  using assms by (auto simp: fat_ok_def disk_wf_def good_sector_def set_entry_fields sectors_set_entry buf_simps)

text \<open>An entry of copy \<open>k\<close> of the table.\<close>

definition fat_copy_entry :: "fat_layout \<Rightarrow> ata_disk \<Rightarrow> nat \<Rightarrow> u16 \<Rightarrow> u16" where
  "fat_copy_entry L d k c = get_le16 (sectors d (of_nat (fat_lba L k c))) (2 * (unat c mod 256))"

lemma fat_get_copy0: "fat_ok L d \<Longrightarrow> in_fat L c \<Longrightarrow> fat_get_next_cluster L d c = fat_copy_entry L d 0 c"
  using fat_ok_good [of L d c 0] fat_ok_copy0 [of L d]
  by (simp add: fat_get_next_cluster_eq fat_ok_def fat_copy_entry_def good_sector_def)

lemma get_put_le16_entry:
  assumes "i < 256" "j < 256" "length buf = 512"
  shows "get_le16 (put_le16 buf (2 * i) v) (2 * j) = (if i = j then v else get_le16 buf (2 * j))"
proof (cases "i = j")
  case False
  then have "2 * j + 2 \<le> 2 * i \<or> 2 * i + 2 \<le> 2 * j" by linarith
  then show ?thesis using False by (simp add: get_le16_put_le16_other)
qed (use assms in \<open>simp add: get_put_le16\<close>)

lemma fat_copy_entry_set:
  assumes "fat_ok L d" "in_fat L c" "in_fat L c'" "k < unat (num_fats L)"
  shows "fat_copy_entry L (fat_set_cluster_entry L d c v) k c' = (if c' = c then v else fat_copy_entry L d k c')"
proof -
  have wf: "lay_wf L" and len: "length (sectors d l) = 512" for l using assms by (auto simp: fat_ok_def disk_wf_def)
  have k: "k < 256" using assms(4) unat_less_u8 [of "num_fats L"] by linarith
  have m: "unat c mod 256 < 256" "unat c' mod 256 < 256" by simp_all
  have eq: "c' = c \<longleftrightarrow> unat c' div 256 = unat c div 256 \<and> unat c' mod 256 = unat c mod 256"
    by (metis div_mult_mod_eq word_unat_eq_iff)
  have hit: "(\<exists>j < unat (num_fats L). (of_nat (fat_lba L k c') :: u32) = of_nat (fat_lba L j c)) \<longleftrightarrow>
      unat c' div 256 = unat c div 256"
    (is "?l \<longleftrightarrow> ?r")
  proof -
    have *: "(of_nat (fat_lba L k c') :: u32) = of_nat (fat_lba L j c) \<longleftrightarrow> k = j \<and> ?r" if "j < unat (num_fats L)" for j
      using that unat_less_u8 [of "num_fats L"] by (intro fat_lba_word_eq_iff [OF wf k _ assms(3,2)]) linarith
    then have "?l \<longleftrightarrow> (\<exists>j < unat (num_fats L). k = j \<and> ?r)" by (intro ex_cong1 conj_cong refl)
    then show ?thesis using assms(4) by blast
  qed
  show ?thesis
    unfolding fat_copy_entry_def sectors_set_entry [OF wf] hit
    using fat_ok_good [OF assms(1,3,4)] by (auto simp: get_put_le16_entry [OF m len] get_put_le16_entry [OF m(1) m(1) len] eq)
qed

lemma fat_get_set:
  assumes "fat_ok L d" "in_fat L c" "in_fat L c'"
  shows "fat_get_next_cluster L (fat_set_cluster_entry L d c v) c' = (if c' = c then v else fat_get_next_cluster L d c')"
  using assms fat_copy_entry_set [OF assms fat_ok_copy0 [OF assms(1)]]
  by (simp add: fat_get_copy0 fat_ok_set)

interpretation fat16: fat_table "fat_get_next_cluster L" "fat_set_cluster_entry L" "fat_ok L" "in_fat L" for L
  by unfold_locales (simp_all add: fat_get_set fat_ok_set)

section \<open>Allocation\<close>

text \<open>The abstract allocator: the first free cluster of the table.\<close>

definition first_free :: "fat_layout \<Rightarrow> ata_disk \<Rightarrow> nat \<Rightarrow> nat option" where
  "first_free L d lo = find (\<lambda>c. fat_get_next_cluster L d (of_nat c) = 0) [lo..<unat (fat_size_sectors L) * 256]"

lemma fat_alloc_scan_spec:
  assumes ok: "fat_ok L d" and fs: "unat (fat_size_sectors L) \<le> 256"
    and te: "unat te = unat (fat_size_sectors L) * 256"
    and cache: "loaded = 0xFFFFFFFF \<or> buf = sectors d loaded"
  shows "fat_alloc_scan L d te loaded buf cluster =
    (case first_free L d (unat cluster) of None \<Rightarrow> (0, d)
     | Some c \<Rightarrow> (of_nat c, fat_set_cluster_entry L d (of_nat c) 0xFFFF))"
  using cache
proof (induction "unat te - unat cluster" arbitrary: loaded buf cluster rule: less_induct)
  case less
  show ?case
  proof (cases "cluster < te")
    case False
    then show ?thesis
      by (subst fat_alloc_scan.simps) (simp add: first_free_def te [symmetric] word_less_nat_alt)
  next
    case True
    let ?c = "ucast cluster :: u16"
    have lt: "unat cluster < unat (fat_size_sectors L) * 256" using True te by (simp add: word_less_nat_alt)
    then have c: "unat ?c = unat cluster" using fs by (simp add: unat_ucast_u32_u16)
    have cw: "cluster = ucast ?c" by (rule word_unat_eq_iff [THEN iffD2]) (simp add: c unat_ucast_u16_u32)
    have cn: "of_nat (unat cluster) = ?c" by simp
    have inf: "in_fat L ?c" using lt c by (simp add: in_fat_def div_less_iff_less_mult)
    have wf: "lay_wf L" using ok by (simp add: fat_ok_def)
    let ?l = "of_nat (fat_lba L 0 ?c) :: u32"
    have sec: "fat_start_lba L + cluster * 2 div 512 = ?l" using fat_lba_word [OF wf, of 0 ?c] cw by simp
    have b: "fat_lba L 0 ?c < 268435456" by (rule fat_lba_bound [OF wf]) simp
    have "?l \<noteq> 0xFFFFFFFF"
    proof
      assume "?l = 0xFFFFFFFF"
      then have "unat ?l = 4294967295" by (simp only:) simp
      then show False using b by (simp add: unat_of_nat_u32)
    qed
    then have rd: "(if ?l \<noteq> loaded then ata_read_sector d ?l else Some buf) = Some (sectors d ?l)"
      using less.prems fat_ok_good [OF ok inf fat_ok_copy0 [OF ok]] b by (auto simp: ata_read_sector_def good_sector_def)
    have gt: "get_le16 (sectors d ?l) (2 * unat (cluster * 2 mod 512 div 2)) = fat_get_next_cluster L d ?c"
      unfolding fat_get_copy0 [OF ok inf] fat_copy_entry_def using unat_fat_offset(2) [of ?c] cw by simp
    have inc: "unat (cluster + 1) = Suc (unat cluster)" using True by (rule unat_inc_u32)
    have ff: "first_free L d (unat cluster) =
        (if fat_get_next_cluster L d ?c = 0 then Some (unat cluster) else first_free L d (unat (cluster + 1)))"
      using lt by (simp add: first_free_def upt_conv_Cons cn inc)
    have ih: "fat_alloc_scan L d te ?l (sectors d ?l) (cluster + 1) =
       (case first_free L d (unat (cluster + 1)) of None \<Rightarrow> (0, d)
        | Some c \<Rightarrow> (of_nat c, fat_set_cluster_entry L d (of_nat c) 0xFFFF))"
      using True inc te by (intro less.hyps) (auto simp: word_less_nat_alt)
    show ?thesis
      by (subst fat_alloc_scan.simps) (simp only: True if_True Let_def sec rd option.case gt ff ih cn split: if_split, simp)
  qed
qed

lemma fat_alloc_cluster_spec:
  assumes "fat_ok L d" and "unat (fat_size_sectors L) \<le> 256"
  shows "fat_alloc_cluster L d =
    (case first_free L d 2 of None \<Rightarrow> (0, d)
     | Some c \<Rightarrow> (of_nat c, fat_set_cluster_entry L d (of_nat c) 0xFFFF))"
proof -
  have "unat (fat_size_sectors L * 256) = unat (fat_size_sectors L) * 256"
    using assms(2) by (subst unat_mult_u32) auto
  then show ?thesis
    using fat_alloc_scan_spec [OF assms, of "fat_size_sectors L * 256" "0xFFFFFFFF" "[]" 2]
    by (simp add: fat_alloc_cluster_def)
qed

lemma find_upt_Some: "find P [a..<b] = Some c \<longleftrightarrow> a \<le> c \<and> c < b \<and> P c \<and> (\<forall>x. a \<le> x \<and> x < c \<longrightarrow> \<not> P x)"
proof (induction "b - a" arbitrary: a)
  case (Suc n)
  then have "[a..<b] = a # [Suc a..<b]" by (simp add: upt_conv_Cons)
  moreover have "find P [Suc a..<b] = Some c \<longleftrightarrow> Suc a \<le> c \<and> c < b \<and> P c \<and> (\<forall>x. Suc a \<le> x \<and> x < c \<longrightarrow> \<not> P x)"
    using Suc by simp
  ultimately show ?case using Suc(2) by (cases "P a"; cases "a = c") (auto, (metis Suc_leI le_less)+)
qed auto

lemma find_upt_None: "find P [a..<b] = None \<longleftrightarrow> (\<forall>x. a \<le> x \<and> x < b \<longrightarrow> \<not> P x)"
  by (auto simp: find_None_iff)

section \<open>Following and freeing chains\<close>

lemma fat_last_walk_chain:
  "cchain (fat_get_next_cluster L d) c (c # cs) \<Longrightarrow> fat_last_walk L d c = Some (last (c # cs))"
proof (induction cs arbitrary: c)
  case (Cons x xs)
  then show ?case by (subst fat_last_walk.simps) (auto simp: Let_def)
qed (subst fat_last_walk.simps, simp add: Let_def)

lemma fat_find_last_chain:
  "cchain (fat_get_next_cluster L d) c cs \<Longrightarrow> fat_find_last_cluster L d c = Some (if cs = [] then 0 else last cs)"
  using fat_last_walk_chain [of L d c "tl cs"] by (cases cs) (auto simp: fat_find_last_cluster_def)

lemma fat_free_chain_eq:
  assumes "fat_ok L d" and "cchain (fat_get_next_cluster L d) c cs" and "\<forall>x \<in> set cs. in_fat L x"
  shows "fat_free_chain L d c = Some (fold (\<lambda>c d. fat_set_cluster_entry L d c 0) cs d)"
  using assms
proof (induction cs arbitrary: d c)
  case (Cons x xs)
  let ?d = "fat_set_cluster_entry L d c 0"
  have c: "x = c" "valid_cluster c" using Cons.prems by auto
  have "cchain (fat_get_next_cluster L ?d) (fat_get_next_cluster L d c) xs"
    using Cons.prems c cchain_distinct [OF Cons.prems(2)]
    by (subst fat16.chain_upd_other) auto
  then have "fat_free_chain L ?d (fat_get_next_cluster L d c) = Some (fold (\<lambda>c d. fat_set_cluster_entry L d c 0) xs ?d)"
    using Cons.prems by (intro Cons.IH fat_ok_set) auto
  then show ?case using c by (subst fat_free_chain.simps) (simp add: Let_def)
qed (subst fat_free_chain.simps, simp)

section \<open>Allocating and linking\<close>

lemma of_nat_u16_less: "n < 65536 \<Longrightarrow> unat (of_nat n :: u16) = n"
  by (simp add: unat_of_nat)

lemma in_fat_of_nat: "n < unat (fat_size_sectors L) * 256 \<Longrightarrow> n < 65536 \<Longrightarrow> in_fat L (of_nat n)"
  by (simp add: in_fat_def of_nat_u16_less div_less_iff_less_mult)

lemma u16_less_nat: "(c :: u16) < d \<longleftrightarrow> unat c < unat d" "c \<le> d \<longleftrightarrow> unat c \<le> unat d"
  by (simp_all add: word_less_nat_alt word_le_nat_alt)

lemma fat_alloc_cases:
  assumes "fat_ok L d" and "unat (fat_size_sectors L) \<le> 256"
  obtains (full) "fat_alloc_cluster L d = (0, d)"
      "\<And>c. in_fat L c \<Longrightarrow> 2 \<le> c \<Longrightarrow> fat_get_next_cluster L d c \<noteq> 0"
    | (got) c where "fat_alloc_cluster L d = (c, fat_set_cluster_entry L d c 0xFFFF)"
      "in_fat L c" "2 \<le> c" "fat_get_next_cluster L d c = 0"
      "\<And>x. 2 \<le> x \<Longrightarrow> x < c \<Longrightarrow> fat_get_next_cluster L d x \<noteq> 0"
proof (cases "first_free L d 2")
  case None
  then have free: "fat_get_next_cluster L d (of_nat x) \<noteq> 0" if "2 \<le> x" "x < unat (fat_size_sectors L) * 256" for x
    using that by (simp add: first_free_def find_upt_None)
  show ?thesis
  proof (rule full)
    show "fat_alloc_cluster L d = (0, d)" using None by (simp add: fat_alloc_cluster_spec [OF assms])
    show "fat_get_next_cluster L d c \<noteq> 0" if "in_fat L c" "2 \<le> c" for c
      using free [of "unat c"] that by (simp add: in_fat_def div_less_iff_less_mult u16_less_nat)
  qed
next
  case (Some n)
  then have n: "2 \<le> n" "n < unat (fat_size_sectors L) * 256" "fat_get_next_cluster L d (of_nat n) = 0"
      "\<And>x. 2 \<le> x \<Longrightarrow> x < n \<Longrightarrow> fat_get_next_cluster L d (of_nat x) \<noteq> 0"
    by (auto simp: first_free_def find_upt_Some)
  then have b: "n < 65536" using assms(2) by linarith
  show ?thesis
  proof (rule got)
    show "fat_alloc_cluster L d = (of_nat n, fat_set_cluster_entry L d (of_nat n) 0xFFFF)"
      using Some by (simp add: fat_alloc_cluster_spec [OF assms])
    show "fat_get_next_cluster L d x \<noteq> 0" if "2 \<le> x" "x < of_nat n" for x
      using n(4) [of "unat x"] that b by (simp add: u16_less_nat of_nat_u16_less)
  qed (use n b in \<open>auto simp: in_fat_of_nat u16_less_nat of_nat_u16_less\<close>)
qed

lemma free_not_in_chain:
  assumes "cchain (fat_get_next_cluster L d) c cs" and "fat_get_next_cluster L d n = 0"
    and "fat_get_next_cluster L d (last cs) \<noteq> 0"
  shows "n \<notin> set cs"
proof
  assume "n \<in> set cs"
  then obtain as bs where cs: "cs = as @ n # bs" by (meson split_list)
  then have "cchain (fat_get_next_cluster L d) n (n # bs)" using assms(1) cchain_suffix by metis
  then have "bs = []" using assms(2) by (cases bs) (auto simp: valid_cluster_def)
  then show False using cs assms(2,3) by simp
qed

lemma fat_extend:
  assumes ok: "fat_ok L d" and ch: "cchain (fat_get_next_cluster L d) c (cs @ [l])"
    and tab: "\<forall>x \<in> set (cs @ [l, n]). in_fat L x" and n: "valid_cluster n" "n \<notin> set (cs @ [l])"
  shows "cchain (fat_get_next_cluster L (fat_set_cluster_entry L (fat_set_cluster_entry L d n 0xFFFF) l n)) c (cs @ [l, n])"
proof (rule fat16.chain_link)
  show "fat_ok L (fat_set_cluster_entry L d n 0xFFFF)" using ok by (rule fat_ok_set)
  show "cchain (fat_get_next_cluster L (fat_set_cluster_entry L d n 0xFFFF)) c (cs @ [l])"
    using ok ch tab n by (subst fat16.chain_upd_other) auto
qed (use assms in \<open>auto simp: fat_get_set valid_cluster_def\<close>)

lemma lay_wf_regions:
  assumes wf: "lay_wf L"
  shows "unat (root_dir_start_lba L) = unat (fat_start_lba L) + unat (num_fats L) * unat (fat_size_sectors L)"
    and "unat (data_start_lba L) = unat (root_dir_start_lba L) + unat (root_dir_sectors L)"
    and "unat (data_start_lba L) + 65536 * unat (sectors_per_cluster L) < 268435456"
proof -
  have m: "unat (num_fats L) * unat (fat_size_sectors L) \<le> 255 * 65535"
    using wf unat_less_u8 [of "num_fats L"] by (intro mult_mono) (auto simp: lay_wf_def)
  then have mu: "unat (ucast (num_fats L) * fat_size_sectors L :: u32) = unat (num_fats L) * unat (fat_size_sectors L)"
    by (simp add: unat_mult_u32 unat_ucast_u8_u32)
  show root: "unat (root_dir_start_lba L) = unat (fat_start_lba L) + unat (num_fats L) * unat (fat_size_sectors L)"
    using wf m mu by (simp add: lay_wf_def unat_add_u32)
  show data: "unat (data_start_lba L) = unat (root_dir_start_lba L) + unat (root_dir_sectors L)"
    using wf m root by (simp add: lay_wf_def unat_add_u32)
  show "unat (data_start_lba L) + 65536 * unat (sectors_per_cluster L) < 268435456"
    using wf m root data unat_less_u8 [of "sectors_per_cluster L"] by (simp add: lay_wf_def)
qed

section \<open>Properties of the table\<close>

definition vol0 :: fat_layout where
  "vol0 = \<lparr>fat_start_lba = 1, root_dir_start_lba = 3, root_dir_sectors = 1, data_start_lba = 4,
     root_entry_count = 16, sectors_per_cluster = 1, num_fats = 2, fat_size_sectors = 1, fat_ready = True\<rparr>"

definition disk0 :: ata_disk where
  "disk0 = \<lparr>sectors = (\<lambda>_. replicate 512 0), rd_bad = (\<lambda>_. False), wr_bad = (\<lambda>_. False)\<rparr>"

lemma vol0_ok: "fat_ok vol0 disk0"
  by (simp add: fat_ok_def lay_wf_def disk_wf_def good_sector_def vol0_def disk0_def)

lemma vol0_in_fat: "c < 256 \<Longrightarrow> in_fat vol0 c"
  by (simp add: in_fat_def vol0_def u16_less_nat div_eq_0_iff)

lemma disk0_get: "in_fat vol0 c \<Longrightarrow> fat_get_next_cluster vol0 disk0 c = 0"
  unfolding fat_get_copy0 [OF vol0_ok] fat_copy_entry_def
  by (simp add: disk0_def get_le16_def nth_replicate less_mult_imp_div_less)

text \<open>
  writing the entry of a cluster changes that entry and no other, in every copy of the
  table at once, so the copies stay in step; the driver reads back what it wrote.
\<close>

theorem fat_entry_roundtrip:
  assumes "fat_ok L d" and "in_fat L c" and "in_fat L c'" and "k < unat (num_fats L)"
  shows "fat_get_next_cluster L (fat_set_cluster_entry L d c v) c' = (if c' = c then v else fat_get_next_cluster L d c') \<and>
    fat_copy_entry L (fat_set_cluster_entry L d c v) k c' = (if c' = c then v else fat_copy_entry L d k c') \<and>
    fat_ok L (fat_set_cluster_entry L d c v)"
  using assms by (simp add: fat_get_set fat_copy_entry_set fat_ok_set)

theorem fat_entry_roundtrip_witness:
  "fat_get_next_cluster vol0 (fat_set_cluster_entry vol0 disk0 5 9) 5 = 9 \<and>
   fat_copy_entry vol0 (fat_set_cluster_entry vol0 disk0 5 9) 1 5 = 9 \<and>
   fat_get_next_cluster vol0 (fat_set_cluster_entry vol0 disk0 5 9) 6 = 0"
proof -
  have k: "0 < unat (num_fats vol0)" "1 < unat (num_fats vol0)" by (simp_all add: vol0_def)
  show ?thesis
    using fat_entry_roundtrip [OF vol0_ok vol0_in_fat vol0_in_fat k(1), of 5 5 9]
      fat_entry_roundtrip [OF vol0_ok vol0_in_fat vol0_in_fat k(2), of 5 5 9]
      fat_entry_roundtrip [OF vol0_ok vol0_in_fat vol0_in_fat k(1), of 5 6 9]
    by (simp add: disk0_get vol0_in_fat)
qed

text \<open>
  on a volume whose table has at most 65536 entries the allocator returns the first free
  cluster and marks it as the end of a chain, leaving every other entry alone, or returns 0 and
  leaves the disk alone exactly when no cluster is free.
\<close>

theorem fat_alloc_cluster_correct:
  assumes "fat_ok L d" and "unat (fat_size_sectors L) \<le> 256" and "fat_alloc_cluster L d = (c, d')"
  shows "if c = 0 then d' = d \<and> (\<forall>x. in_fat L x \<and> 2 \<le> x \<longrightarrow> fat_get_next_cluster L d x \<noteq> 0)
     else in_fat L c \<and> 2 \<le> c \<and> fat_get_next_cluster L d c = 0 \<and>
       (\<forall>x. 2 \<le> x \<and> x < c \<longrightarrow> fat_get_next_cluster L d x \<noteq> 0) \<and>
       (\<forall>x. in_fat L x \<longrightarrow> fat_get_next_cluster L d' x = (if x = c then 0xFFFF else fat_get_next_cluster L d x))"
  using assms(1,2)
proof (cases rule: fat_alloc_cases)
  case (got c0)
  then show ?thesis using assms by (auto simp: fat_get_set)
qed (use assms in auto)

theorem fat_alloc_cluster_correct_witness:
  "fst (fat_alloc_cluster vol0 disk0) = 2 \<and>
   fat_get_next_cluster vol0 (snd (fat_alloc_cluster vol0 disk0)) 2 = 0xFFFF"
proof -
  obtain c d' where cd: "fat_alloc_cluster vol0 disk0 = (c, d')" by fastforce
  have "unat (fat_size_sectors vol0) \<le> 256" by (simp add: vol0_def)
  note a = fat_alloc_cluster_correct [OF vol0_ok this cd]
  have i2: "in_fat vol0 2" by (simp add: vol0_in_fat)
  then have "c \<noteq> 0" using a disk0_get [of 2] by (auto split: if_splits)
  then have "c = 2" using a disk0_get [OF i2] by (auto simp: not_less order.antisym)
  then show ?thesis using a cd i2 by simp
qed

text \<open>
  freeing a chain returns, sets the entries of exactly its clusters to 0 and leaves every
  other entry of the table as it was.
\<close>

theorem fat_free_chain_correct:
  assumes "fat_ok L d" and "cchain (fat_get_next_cluster L d) c cs" and "\<forall>x \<in> set cs. in_fat L x"
  shows "\<exists>d'. fat_free_chain L d c = Some d' \<and> fat_ok L d' \<and>
    (\<forall>x. in_fat L x \<longrightarrow> fat_get_next_cluster L d' x = (if x \<in> set cs then 0 else fat_get_next_cluster L d x))"
  using assms by (auto simp: fat_free_chain_eq fat16.inv_fold_upd fat16.get_fold_upd)

text \<open>The table with the chain 2, 5, 3.\<close>

definition disk_chain :: ata_disk where
  "disk_chain = fat_set_cluster_entry vol0 (fat_set_cluster_entry vol0 (fat_set_cluster_entry vol0 disk0 2 5) 5 3) 3 0xFFFF"

lemma disk_chain_ok: "fat_ok vol0 disk_chain"
  by (simp add: disk_chain_def fat_ok_set vol0_ok)

lemma disk_chain_get: "in_fat vol0 c \<Longrightarrow> fat_get_next_cluster vol0 disk_chain c =
    (if c = 3 then 0xFFFF else if c = 5 then 3 else if c = 2 then 5 else 0)"
  by (simp add: disk_chain_def fat_ok_set vol0_ok fat_get_set vol0_in_fat disk0_get)

lemma disk_chain_cchain: "cchain (fat_get_next_cluster vol0 disk_chain) 2 [2, 5, 3]"
  by (simp add: disk_chain_get vol0_in_fat valid_cluster_def)

theorem fat_free_chain_correct_witness:
  "\<exists>d'. fat_free_chain vol0 disk_chain 2 = Some d' \<and> fat_get_next_cluster vol0 d' 5 = 0"
  using fat_free_chain_correct [OF disk_chain_ok disk_chain_cchain] by (auto simp: vol0_in_fat)

text \<open>
  a chain grows by one cluster as the driver extends a directory or a file: the walk to its
  last cluster returns that cluster, and after a cluster is allocated and linked behind it the
  chain holds its old clusters and then the new one.
\<close>

theorem fat_extend_chain_correct:
  assumes "fat_ok L d" and "unat (fat_size_sectors L) \<le> 256"
    and "cchain (fat_get_next_cluster L d) c cs" and "cs \<noteq> []" and "\<forall>x \<in> set cs. in_fat L x"
    and "fat_get_next_cluster L d (last cs) \<noteq> 0"
    and "fat_alloc_cluster L d = (n, d')" and "valid_cluster n"
  shows "fat_find_last_cluster L d' c = Some (last cs) \<and>
    cchain (fat_get_next_cluster L (fat_set_cluster_entry L d' (last cs) n)) c (cs @ [n])"
proof

  have n: "d' = fat_set_cluster_entry L d n 0xFFFF" "in_fat L n" "fat_get_next_cluster L d n = 0"
    using assms(1,2) by (cases rule: fat_alloc_cases; use assms(7,8) in \<open>auto simp: valid_cluster_def\<close>)+
  have out: "n \<notin> set cs" using free_not_in_chain [OF assms(3) n(3) assms(6)] .
  have "cchain (fat_get_next_cluster L d') c cs"
    unfolding n(1) using assms n out by (subst fat16.chain_upd_other) auto
  then show "fat_find_last_cluster L d' c = Some (last cs)" using assms(4) by (simp add: fat_find_last_chain)
  have e: "butlast cs @ [last cs] = cs" "butlast cs @ [last cs, n] = cs @ [n]"
    using assms(4) append_butlast_last_id [of cs] by (simp, metis append.assoc append_Cons append_Nil)
  show "cchain (fat_get_next_cluster L (fat_set_cluster_entry L d' (last cs) n)) c (cs @ [n])"
    using fat_extend [of L d c "butlast cs" "last cs" n, unfolded e] assms n out by auto
qed

theorem fat_extend_chain_correct_witness:
  "\<exists>n d'. fat_alloc_cluster vol0 disk_chain = (n, d') \<and> valid_cluster n \<and>
     cchain (fat_get_next_cluster vol0 (fat_set_cluster_entry vol0 d' 3 n)) 2 [2, 5, 3, n]"
proof -
  have fs: "unat (fat_size_sectors vol0) \<le> 256" by (simp add: vol0_def)
  have l: "fat_get_next_cluster vol0 disk_chain (last [2, 5, 3]) \<noteq> 0" by (simp add: disk_chain_get vol0_in_fat)
  have t: "\<forall>x \<in> set [2, 5, 3]. in_fat vol0 x" by (simp add: vol0_in_fat)
  show ?thesis using disk_chain_ok fs
  proof (cases rule: fat_alloc_cases)
    case full
    then show ?thesis using full(2) [of 4] by (simp add: vol0_in_fat disk_chain_get)
  next
    case (got c)
    have "unat c < 256" using got(2) by (simp add: in_fat_def vol0_def div_eq_0_iff)
    then have v: "valid_cluster c" using got(3) by (simp add: valid_cluster_def u16_less_nat)
    from fat_extend_chain_correct [OF disk_chain_ok fs disk_chain_cchain _ t l got(1) v] v got(1)
    show ?thesis by auto
  qed
qed

text \<open>
  whatever the boot sector says, a mount that succeeds leaves a layout in which the table's
  copies, the root directory and the data area follow one another without wrapping, and no
  sector of any cluster is out of reach of the 28-bit addresses of the drive.
\<close>

theorem fat_init_layout:
  assumes "fat_init d L = (0, L')"
  shows "lay_wf L' \<and> fat_ready L' \<and>
    unat (root_dir_start_lba L') = unat (fat_start_lba L') + unat (num_fats L') * unat (fat_size_sectors L') \<and>
    unat (data_start_lba L') = unat (root_dir_start_lba L') + unat (root_dir_sectors L') \<and>
    unat (data_start_lba L') + 65536 * unat (sectors_per_cluster L') < 268435456"
proof (intro conjI)
  from assms obtain boot where L': "L' = (let rec = get_le16 boot 17; nf = boot ! 16; fs = ucast (get_le16 boot 22);
      start = ucast (get_le16 boot 14); root = start + ucast nf * fs; rsec = (ucast rec * 32 + (512 - 1)) div 512
    in \<lparr>fat_start_lba = start, root_dir_start_lba = root, root_dir_sectors = rsec, data_start_lba = root + rsec,
        root_entry_count = rec, sectors_per_cluster = boot ! 13, num_fats = nf, fat_size_sectors = fs, fat_ready = True\<rparr>)"
    by (auto simp: fat_init_def Let_def split: option.splits if_splits)
  let ?r = "(ucast (get_le16 boot 17) * 32 + 511) div 512 :: u32"
  have r: "unat ?r \<le> 4096"
    using unat_less_u16 [of "get_le16 boot 17"] by (simp add: unat_div unat_word_ariths word_nat)
  show wf: "lay_wf L'" and "fat_ready L'"
    using r unat_less_u16 by (simp_all add: L' Let_def lay_wf_def unat_ucast_u16_u32)
  show "unat (root_dir_start_lba L') = unat (fat_start_lba L') + unat (num_fats L') * unat (fat_size_sectors L')"
    "unat (data_start_lba L') = unat (root_dir_start_lba L') + unat (root_dir_sectors L')"
    "unat (data_start_lba L') + 65536 * unat (sectors_per_cluster L') < 268435456"
    using lay_wf_regions [OF wf] by simp_all
qed

text \<open>A boot sector: 1 reserved sector, 2 copies of 1 sector, 16 root entries, 1 sector per cluster.\<close>

definition boot0 :: bytes where
  "boot0 = (replicate 512 0)[11 := 0, 12 := 2, 13 := 1, 14 := 1, 16 := 2, 17 := 16, 22 := 1,
     54 := 0x46, 55 := 0x41, 56 := 0x54, 57 := 0x31, 58 := 0x36, 510 := 0x55, 511 := 0xAA]"

theorem fat_init_layout_witness:
  "\<exists>L'. fat_init (disk0\<lparr>sectors := (\<lambda>_. boot0)\<rparr>) vol0 = (0, L') \<and> lay_wf L'"
proof -
  have "fat_init (disk0\<lparr>sectors := (\<lambda>_. boot0)\<rparr>) vol0 = (0, vol0)"
    by (simp add: fat_init_def ata_read_sector_def disk0_def boot0_def vol0_def get_le16_def nth_list_update)
  from fat_init_layout [OF this] this show ?thesis by blast
qed

end
