(* ===== verification/Fat_Names.thy ===== *)
theory Fat_Names
  imports Harold_Base
begin

unbundle bit_operations_syntax

text \<open>
  Directory entries and file names of the FAT16 driver (src/src/fat.c): the packed 32-byte
  entries, 8.3 names and their checksum, and the reconstruction of long names (LFN) from the
  entries that precede a short one. A C string is the list of its characters before the NUL.
\<close>

section \<open>Directory entries\<close>

record fat_dir_entry =
  de_name :: bytes
  de_ext :: bytes
  de_attr :: u8
  de_reserved :: u8
  de_create_time_tenth :: u8
  de_create_time :: u16
  de_create_date :: u16
  de_last_access_date :: u16
  de_first_cluster_high :: u16
  de_write_time :: u16
  de_write_date :: u16
  de_first_cluster_low :: u16
  de_file_size :: u32

text \<open>\<open>entries[i]\<close> of a sector that is read through the packed struct.\<close>

definition dir_entry_at :: "bytes \<Rightarrow> nat \<Rightarrow> fat_dir_entry" where
  "dir_entry_at buf i =
     (let off = 32 * i in
      \<lparr>de_name = take 8 (drop off buf), de_ext = take 3 (drop (off + 8) buf), de_attr = buf ! (off + 11),
       de_reserved = buf ! (off + 12), de_create_time_tenth = buf ! (off + 13),
       de_create_time = get_le16 buf (off + 14), de_create_date = get_le16 buf (off + 16),
       de_last_access_date = get_le16 buf (off + 18), de_first_cluster_high = get_le16 buf (off + 20),
       de_write_time = get_le16 buf (off + 22), de_write_date = get_le16 buf (off + 24),
       de_first_cluster_low = get_le16 buf (off + 26), de_file_size = get_le32 buf (off + 28)\<rparr>)"

record fat_lfn_entry =
  le_sequence :: u8
  le_name1 :: "u16 list"
  le_attr :: u8
  le_type :: u8
  le_checksum :: u8
  le_name2 :: "u16 list"
  le_first_cluster :: u16
  le_name3 :: "u16 list"

definition lfn_entry_at :: "bytes \<Rightarrow> nat \<Rightarrow> fat_lfn_entry" where
  "lfn_entry_at buf i =
     (let off = 32 * i in
      \<lparr>le_sequence = buf ! off, le_name1 = map (\<lambda>j. get_le16 buf (off + 1 + 2 * j)) [0..<5],
       le_attr = buf ! (off + 11), le_type = buf ! (off + 12), le_checksum = buf ! (off + 13),
       le_name2 = map (\<lambda>j. get_le16 buf (off + 14 + 2 * j)) [0..<6],
       le_first_cluster = get_le16 buf (off + 26),
       le_name3 = map (\<lambda>j. get_le16 buf (off + 28 + 2 * j)) [0..<2]\<rparr>)"

definition FAT_ATTR_VOLUME_LABEL :: u8 where "FAT_ATTR_VOLUME_LABEL = 0x08"
definition FAT_ATTR_DIRECTORY :: u8 where "FAT_ATTR_DIRECTORY = 0x10"
definition FAT_ATTR_LONG_NAME :: u8 where "FAT_ATTR_LONG_NAME = 0x0F"
definition LFN_MAX_CHARS :: nat where "LFN_MAX_CHARS = 256"

section \<open>Short names\<close>

text \<open>The upper-casing that \<open>fat_name_to_83\<close> and \<open>names_equal_ci\<close> both write out.\<close>

definition upper :: "u8 \<Rightarrow> u8" where
  "upper c = (if 0x61 \<le> c \<and> c \<le> 0x7A then c - 32 else c)"

text \<open>\<open>n\<close> characters of a field, padded with the spaces it was filled with.\<close>

definition pad_field :: "nat \<Rightarrow> bytes \<Rightarrow> bytes" where
  "pad_field n s = map upper (take n s) @ replicate (n - length s) 0x20"

text \<open>
  The first loop copies at most 8 characters up to a dot, the second skips to the dot, the
  third copies at most 3 characters behind it, further dots included.
\<close>

definition fat_name_to_83 :: "bytes \<Rightarrow> bytes" where
  "fat_name_to_83 filename =
     (let stem = takeWhile (\<lambda>c. c \<noteq> 0x2E) filename;
          rest = dropWhile (\<lambda>c. c \<noteq> 0x2E) filename
      in pad_field 8 stem @ pad_field 3 (if rest = [] then [] else tl rest))"

definition fat_copy_string :: "bytes \<Rightarrow> u32 \<Rightarrow> bytes" where
  "fat_copy_string src dest_size = take (unat (dest_size - 1)) src"

definition fat_dir_entry_matches :: "fat_dir_entry \<Rightarrow> bytes \<Rightarrow> bool" where
  "fat_dir_entry_matches entry name83 \<longleftrightarrow>
     list_all (\<lambda>i. de_name entry ! i = name83 ! i) [0..<8] \<and>
     list_all (\<lambda>i. de_ext entry ! i = name83 ! (8 + i)) [0..<3]"

definition fat_short_name_checksum :: "fat_dir_entry \<Rightarrow> u8" where
  "fat_short_name_checksum e =
     foldl (\<lambda>sum b. (if sum AND 1 \<noteq> 0 then 0x80 else 0) + drop_bit 1 sum + b) 0 (de_name e @ de_ext e)"

fun names_equal_ci :: "bytes \<Rightarrow> bytes \<Rightarrow> bool" where
  "names_equal_ci (a # as) (b # bs) = (upper a = upper b \<and> names_equal_ci as bs)"
| "names_equal_ci [] [] = True"
| "names_equal_ci _ _ = False"

text \<open>Each loop stops at a space, at the end of the field or at the end of the output buffer.\<close>

definition fat_short_name_to_display :: "fat_dir_entry \<Rightarrow> u32 \<Rightarrow> bytes" where
  "fat_short_name_to_display e out_size =
     (let cap = unat (out_size - 1);
          stem = take cap (takeWhile (\<lambda>c. c \<noteq> 0x20) (take 8 (de_name e)))
      in if de_ext e ! 0 \<noteq> 0x20 \<and> length stem < cap
         then take cap (stem @ 0x2E # takeWhile (\<lambda>c. c \<noteq> 0x20) (take 3 (de_ext e)))
         else stem)"

section \<open>Long names\<close>

record lfn_state =
  lfn_buffer :: bytes
  lfn_has_data :: bool
  lfn_checksum :: u8
  lfn_checksum_valid :: bool

definition lfn_reset :: "lfn_state \<Rightarrow> lfn_state" where
  "lfn_reset s = s\<lparr>lfn_buffer := replicate LFN_MAX_CHARS 0, lfn_has_data := False, lfn_checksum_valid := False\<rparr>"

text \<open>An array store: a store outside the array has no defined result.\<close>

definition array_set :: "'a list \<Rightarrow> int \<Rightarrow> 'a \<Rightarrow> 'a list option" where
  "array_set buf i v = (if 0 \<le> i \<and> i < int (length buf) then Some (buf[nat i := v]) else None)"

fun lfn_store :: "bytes \<Rightarrow> int \<Rightarrow> u16 list \<Rightarrow> bytes option" where
  "lfn_store buf pos [] = Some buf"
| "lfn_store buf pos (c # cs) =
     (if c = 0 then array_set buf pos 0
      else if c = 0xFFFF then Some buf
      else case array_set buf pos (if c < 128 then ucast c else 0x3F) of
             None \<Rightarrow> None
           | Some buf' \<Rightarrow> lfn_store buf' (pos + 1) cs)"

definition lfn_accumulate :: "lfn_state \<Rightarrow> fat_lfn_entry \<Rightarrow> lfn_state option" where
  "lfn_accumulate s entry =
     (let ordinal = uint (le_sequence entry AND 0x1F);
          base = (ordinal - 1) * 13
      in if ordinal < 1 \<or> base + 13 > int LFN_MAX_CHARS - 1 then Some s
         else
           let s1 = (if \<not> lfn_has_data s
                     then s\<lparr>lfn_checksum := le_checksum entry, lfn_checksum_valid := True\<rparr>
                     else if le_checksum entry \<noteq> lfn_checksum s then s\<lparr>lfn_checksum_valid := False\<rparr>
                     else s);
               chars = le_name1 entry @ le_name2 entry @ le_name3 entry
           in case lfn_store (lfn_buffer s1) base chars of
                None \<Rightarrow> None
              | Some buf \<Rightarrow> Some (s1\<lparr>lfn_buffer := buf, lfn_has_data := True\<rparr>))"

section \<open>Lemmas on short names\<close>

lemma length_pad_field [simp]: "length (pad_field n s) = n"
  by (simp add: pad_field_def)

lemma length_fat_name_to_83 [simp]: "length (fat_name_to_83 f) = 11"
  by (simp add: fat_name_to_83_def Let_def)

lemma upper_idem [simp]: "upper (upper c) = upper c"
proof -
  have "c - 32 < 0x61" if "0x61 \<le> c" "c \<le> 0x7A"
    using that by (simp add: word_less_nat_alt word_le_nat_alt unat_sub)
  then show ?thesis by (auto simp: upper_def)
qed

lemma upper_eq_iff_small: "x < 0x41 \<Longrightarrow> upper c = x \<longleftrightarrow> c = x"
proof -
  assume x: "x < 0x41"
  have "c - 32 \<noteq> x" if "0x61 \<le> c" "c \<le> 0x7A"
  proof
    assume "c - 32 = x"
    then have "unat (c - 32) = unat x" by simp
    then show False using that x by (simp add: word_less_nat_alt word_le_nat_alt unat_sub)
  qed
  moreover have "\<not> (0x61 \<le> x \<and> x \<le> 0x7A)" using x by (simp add: word_less_nat_alt word_le_nat_alt)
  ultimately show ?thesis by (auto simp: upper_def)
qed

lemma upper_dot [simp]: "upper c = 0x2E \<longleftrightarrow> c = 0x2E" and upper_space [simp]: "upper c = 0x20 \<longleftrightarrow> c = 0x20"
  by (simp_all add: upper_eq_iff_small)

lemma pad_field_upper [simp]: "pad_field n (map upper s) = pad_field n s"
  by (simp add: pad_field_def take_map comp_def)

lemma takeWhile_pad_field:
  "length s \<le> n \<Longrightarrow> 0x20 \<notin> set s \<Longrightarrow> takeWhile (\<lambda>c. c \<noteq> 0x20) (pad_field n s) = map upper s"
  by (cases "n - length s") (auto simp: pad_field_def takeWhile_append takeWhile_eq_all_conv)

lemma names_equal_ci_iff: "names_equal_ci a b \<longleftrightarrow> map upper a = map upper b"
  by (induction a b rule: names_equal_ci.induct) auto

text \<open>A name that fits the 8.3 format.\<close>

definition short_name :: "bytes \<Rightarrow> bytes \<Rightarrow> bytes" where
  "short_name stem ext = stem @ (if ext = [] then [] else 0x2E # ext)"

definition name_chars :: "nat \<Rightarrow> bytes \<Rightarrow> bool" where
  "name_chars n s \<longleftrightarrow> length s \<le> n \<and> 0x20 \<notin> set s \<and> 0x2E \<notin> set s"

lemma fat_name_to_83_short:
  assumes "name_chars 8 stem" and "name_chars 3 ext"
  shows "fat_name_to_83 (short_name stem ext) = pad_field 8 stem @ pad_field 3 ext"
proof -
  have s: "\<And>c. c \<in> set stem \<Longrightarrow> c \<noteq> 0x2E" using assms by (auto simp: name_chars_def)
  then have e: "takeWhile (\<lambda>c. c \<noteq> 0x2E) (stem @ 0x2E # ext) = stem" "takeWhile (\<lambda>c. c \<noteq> 0x2E) stem = stem"
      "dropWhile (\<lambda>c. c \<noteq> 0x2E) (stem @ 0x2E # ext) = 0x2E # ext" "dropWhile (\<lambda>c. c \<noteq> 0x2E) stem = []"
    by (simp_all add: takeWhile_append2 dropWhile_append2 takeWhile_eq_all_conv dropWhile_eq_Nil_conv)
  show ?thesis by (cases "ext = []") (simp_all add: fat_name_to_83_def short_name_def e)
qed

section \<open>Lemmas on long names\<close>

definition lfn_wf :: "lfn_state \<Rightarrow> bool" where
  "lfn_wf s \<longleftrightarrow> length (lfn_buffer s) = 256 \<and> lfn_buffer s ! 255 = 0"

definition lfn_entry_wf :: "fat_lfn_entry \<Rightarrow> bool" where
  "lfn_entry_wf e \<longleftrightarrow> length (le_name1 e) = 5 \<and> length (le_name2 e) = 6 \<and> length (le_name3 e) = 2"

lemma lfn_entry_at_wf [simp]: "lfn_entry_wf (lfn_entry_at buf i)"
  by (simp add: lfn_entry_wf_def lfn_entry_at_def Let_def)

lemma lfn_reset_wf [simp]: "lfn_wf (lfn_reset s)"
  by (simp add: lfn_wf_def lfn_reset_def LFN_MAX_CHARS_def)

lemma lfn_store_safe:
  "length buf = 256 \<Longrightarrow> buf ! 255 = 0 \<Longrightarrow> 0 \<le> pos \<Longrightarrow> pos + int (length cs) \<le> 255 \<Longrightarrow>
   \<exists>buf'. lfn_store buf pos cs = Some buf' \<and> length buf' = 256 \<and> buf' ! 255 = 0"
proof (induction buf pos cs rule: lfn_store.induct)
  case (2 buf pos c cs)
  have "nat pos \<noteq> 255" using 2 by auto
  then show ?case using 2 by (auto simp: array_set_def nth_list_update)
qed auto

lemma lfn_accumulate_wf:
  assumes "lfn_wf s" and "lfn_entry_wf e"
  shows "\<exists>s'. lfn_accumulate s e = Some s' \<and> lfn_wf s'"
proof (cases "uint (le_sequence e AND 0x1F) < 1 \<or> (uint (le_sequence e AND 0x1F) - 1) * 13 + 13 > 255")
  case False
  then show ?thesis
    using lfn_store_safe [of "lfn_buffer s" "(uint (le_sequence e AND 0x1F) - 1) * 13"
        "le_name1 e @ le_name2 e @ le_name3 e"] assms
    by (auto simp: lfn_accumulate_def Let_def LFN_MAX_CHARS_def lfn_wf_def lfn_entry_wf_def)
qed (use assms in \<open>auto simp: lfn_accumulate_def Let_def LFN_MAX_CHARS_def\<close>)

text \<open>
  How a long name is written to a directory: its characters, a NUL and padding, 13 to an entry,
  the last entry first. \<open>lfn_encode\<close> is what other systems put on the disk.
\<close>

definition lfn_chunk :: "bytes \<Rightarrow> nat \<Rightarrow> u16 list" where
  "lfn_chunk nm k = take 13 (drop (13 * k) (map ucast nm @ 0 # replicate 12 0xFFFF))"

definition lfn_entry_of :: "u8 \<Rightarrow> bytes \<Rightarrow> nat \<Rightarrow> fat_lfn_entry" where
  "lfn_entry_of cs nm k =
     \<lparr>le_sequence = of_nat (Suc k) OR (if 13 * Suc k \<ge> length nm then 0x40 else 0),
      le_name1 = take 5 (lfn_chunk nm k), le_attr = 0x0F, le_type = 0, le_checksum = cs,
      le_name2 = take 6 (drop 5 (lfn_chunk nm k)), le_first_cluster = 0, le_name3 = drop 11 (lfn_chunk nm k)\<rparr>"

definition lfn_encode :: "u8 \<Rightarrow> bytes \<Rightarrow> fat_lfn_entry list" where
  "lfn_encode cs nm = map (lfn_entry_of cs nm) (rev [0..<(length nm + 12) div 13])"

fun lfn_accumulate_all :: "lfn_state \<Rightarrow> fat_lfn_entry list \<Rightarrow> lfn_state option" where
  "lfn_accumulate_all s [] = Some s"
| "lfn_accumulate_all s (e # es) = (case lfn_accumulate s e of None \<Rightarrow> None | Some s' \<Rightarrow> lfn_accumulate_all s' es)"

text \<open>The buffer once the characters from position \<open>p\<close> on are in place.\<close>

definition lfn_partial :: "bytes \<Rightarrow> nat \<Rightarrow> bytes" where
  "lfn_partial nm p = map (\<lambda>i. if p \<le> i \<and> i < length nm then nm ! i else 0) [0..<256]"

definition lfn_ascii :: "bytes \<Rightarrow> bool" where
  "lfn_ascii nm \<longleftrightarrow> (\<forall>c \<in> set nm. 0 < c \<and> c < 128)"

lemma lfn_ascii_char:
  assumes "0 < (c :: u8)" "c < 128"
  shows "(ucast c :: u16) \<noteq> 0" "(ucast c :: u16) \<noteq> 0xFFFF" "(ucast c :: u16) < 128" "(ucast (ucast c :: u16) :: u8) = c"
proof -
  have u: "unat (ucast c :: u16) = unat c" by (rule unat_ucast_u8_u16)
  have b: "0 < unat c" "unat c < 128" using assms by (simp_all add: word_less_nat_alt unat_gt_0)
  show "(ucast c :: u16) \<noteq> 0" "(ucast c :: u16) < 128" using u b by (auto simp: word_less_nat_alt)
  show "(ucast c :: u16) \<noteq> 0xFFFF"
  proof
    assume "(ucast c :: u16) = 0xFFFF"
    then have "unat (ucast c :: u16) = 65535" by (simp only:) simp
    then show False using u b by simp
  qed
  show "(ucast (ucast c :: u16) :: u8) = c" by (rule bit_word_eqI) (auto simp: bit_simps)
qed

lemma lfn_store_run:
  "lfn_ascii xs \<Longrightarrow> p + length xs \<le> length buf \<Longrightarrow>
   lfn_store buf (int p) (map ucast xs @ rest) = lfn_store (copy_into buf p xs) (int (p + length xs)) rest"
proof (induction xs arbitrary: buf p)
  case (Cons x xs)
  have x: "0 < x" "x < 128" and xs: "lfn_ascii xs" using Cons.prems by (auto simp: lfn_ascii_def)
  have "lfn_store (buf[p := x]) (int (Suc p)) (map ucast xs @ rest) =
      lfn_store (copy_into (buf[p := x]) (Suc p) xs) (int (Suc p + length xs)) rest"
    using Cons.prems by (intro Cons.IH xs) simp
  moreover have "copy_into (buf[p := x]) (Suc p) xs = copy_into buf p (x # xs)"
    using Cons.prems by (simp add: copy_into_def take_Suc_conv_app_nth drop_update_cancel)
  ultimately show ?case using Cons.prems lfn_ascii_char [OF x] by (simp add: array_set_def add.commute)
qed (simp add: copy_into_def)

lemma length_lfn_partial [simp]: "length (lfn_partial nm p) = 256"
  by (simp add: lfn_partial_def)

lemma lfn_partial_step:
  assumes "length nm \<le> 247"
  shows "copy_into (lfn_partial nm (p + n)) p (take n (drop p nm)) = lfn_partial nm p"
proof (rule nth_equalityI)
  show "length (copy_into (lfn_partial nm (p + n)) p (take n (drop p nm))) = length (lfn_partial nm p)"
    using assms by (cases "p \<le> length nm") (auto simp: copy_into_def)
  fix i assume "i < length (copy_into (lfn_partial nm (p + n)) p (take n (drop p nm)))"
  then have i: "i < 256" using assms by (cases "p \<le> length nm") (auto simp: copy_into_def)
  then show "copy_into (lfn_partial nm (p + n)) p (take n (drop p nm)) ! i = lfn_partial nm p ! i"
    using assms by (cases "p \<le> length nm") (auto simp: copy_into_def nth_append lfn_partial_def min_def)
qed

lemma lfn_chunk_eq:
  assumes "k < (length nm + 12) div 13"
  shows "\<exists>rest. lfn_chunk nm k = map ucast (take 13 (drop (13 * k) nm)) @ rest \<and>
    (rest = [] \<or> hd rest = 0 \<and> 13 * k + length (take 13 (drop (13 * k) nm)) = length nm) \<and> length (lfn_chunk nm k) = 13"
proof -
  have k: "13 * k < length nm" "13 * Suc k \<le> length nm + 12" using assms by auto
  have c: "lfn_chunk nm k = map ucast (take 13 (drop (13 * k) nm)) @ take (13 - (length nm - 13 * k)) (0 # replicate 12 0xFFFF)"
    using k by (simp add: lfn_chunk_def drop_map take_map)
  show ?thesis
    by (rule exI, rule conjI, rule c) (use k in \<open>auto simp: lfn_chunk_def take_Cons' min_def\<close>)
qed

lemma lfn_store_chunk:
  assumes "lfn_ascii nm" and "length nm \<le> 247" and k: "k < (length nm + 12) div 13"
  shows "lfn_store (lfn_partial nm (13 * k + 13)) (int (13 * k)) (lfn_chunk nm k) = Some (lfn_partial nm (13 * k))"
proof -
  let ?xs = "take 13 (drop (13 * k) nm)"
  obtain rest where r: "lfn_chunk nm k = map ucast ?xs @ rest"
    "rest = [] \<or> hd rest = 0 \<and> 13 * k + length ?xs = length nm" using lfn_chunk_eq [OF k] by blast
  have a: "lfn_ascii ?xs" using assms(1) by (auto simp: lfn_ascii_def dest: in_set_takeD in_set_dropD)
  have b: "13 * k + length ?xs \<le> length (lfn_partial nm (13 * k + 13))" using assms(2) k by auto
  have "lfn_store (lfn_partial nm (13 * k)) (int (13 * k + length ?xs)) rest = Some (lfn_partial nm (13 * k))"
  proof (cases rest)
    case (Cons y ys)
    then have "y = 0" "13 * k + length ?xs = length nm" using r(2) by auto
    then show ?thesis using assms(2) Cons
      by (auto simp: array_set_def lfn_partial_def list_update_same_conv simp del: length_take length_drop)
  qed simp
  then show ?thesis using lfn_store_run [OF a b, of rest] r(1) lfn_partial_step [OF assms(2), of "13 * k" 13] by simp
qed

lemma lfn_ordinal:
  assumes "k < 19"
  shows "uint ((of_nat (Suc k) OR (if b then 0x40 else 0) :: u8) AND 0x1F) = int k + 1"
proof -
  have m: "(0x1F :: u8) = mask 5" by (simp add: mask_eq_exp_minus_1)
  have o: "(0x40 :: u8) AND mask 5 = 0" by (simp add: mask_eq_exp_minus_1)
  have "(of_nat (Suc k) OR (if b then 0x40 else 0) :: u8) AND 0x1F = of_nat (Suc k) AND mask 5"
    by (simp add: m bit.conj_disj_distrib2 o del: of_nat_Suc)
  moreover have "unat (of_nat (Suc k) AND mask 5 :: u8) = Suc k"
    using assms by (simp add: unat_and_mask unat_of_nat del: of_nat_Suc)
  ultimately show ?thesis by (metis of_nat_Suc of_nat_unat add.commute)
qed

text \<open>The state after the entries down to number \<open>k\<close> have been read.\<close>

definition lfn_progress :: "lfn_state \<Rightarrow> u8 \<Rightarrow> bytes \<Rightarrow> nat \<Rightarrow> bool" where
  "lfn_progress s cs nm k \<longleftrightarrow> lfn_buffer s = lfn_partial nm (13 * k) \<and>
     (if 13 * k < length nm then lfn_has_data s \<and> lfn_checksum s = cs \<and> lfn_checksum_valid s
      else \<not> lfn_has_data s)"

lemma lfn_progress_step:
  assumes "lfn_ascii nm" "length nm \<le> 247" "k < (length nm + 12) div 13" "lfn_progress s cs nm (Suc k)"
  shows "\<exists>s'. lfn_accumulate s (lfn_entry_of cs nm k) = Some s' \<and> lfn_progress s' cs nm k"
proof -
  have k: "k < 19" "13 * k < length nm" using assms(2,3) by auto
  have chars: "le_name1 (lfn_entry_of cs nm k) @ le_name2 (lfn_entry_of cs nm k) @ le_name3 (lfn_entry_of cs nm k) = lfn_chunk nm k"
    using append_take_drop_id [of 6 "drop 5 (lfn_chunk nm k)"] append_take_drop_id [of 5 "lfn_chunk nm k"]
    by (simp add: lfn_entry_of_def)
  have seq: "uint (le_sequence (lfn_entry_of cs nm k) AND 0x1F) = int k + 1"
    unfolding lfn_entry_of_def fat_lfn_entry.simps by (rule lfn_ordinal [OF k(1)])
  have cse: "le_checksum (lfn_entry_of cs nm k) = cs" by (simp add: lfn_entry_of_def)
  have st: "lfn_store (lfn_buffer s) (int k * 13) (lfn_chunk nm k) = Some (lfn_partial nm (13 * k))"
    using lfn_store_chunk [OF assms(1-3)] assms(4) by (simp add: lfn_progress_def mult.commute add.commute)
  show ?thesis
    using assms(4) k st unfolding lfn_accumulate_def Let_def seq chars cse
    by (auto simp: LFN_MAX_CHARS_def lfn_progress_def split: if_splits)
qed

lemma lfn_accumulate_all_rev:
  assumes "lfn_ascii nm" "length nm \<le> 247"
  shows "n \<le> (length nm + 12) div 13 \<Longrightarrow> lfn_progress s cs nm n \<Longrightarrow>
    \<exists>s'. lfn_accumulate_all s (map (lfn_entry_of cs nm) (rev [0..<n])) = Some s' \<and> lfn_progress s' cs nm 0"
proof (induction n arbitrary: s)
  case (Suc n)
  then obtain s' where "lfn_accumulate s (lfn_entry_of cs nm n) = Some s'" "lfn_progress s' cs nm n"
    using lfn_progress_step [OF assms, of n s cs] by auto
  then show ?case using Suc.IH [of s'] Suc.prems by simp
qed simp

lemma lfn_partial_full:
  assumes "length nm \<le> 247" and "lfn_ascii nm"
  shows "c_string_of (lfn_partial nm 0) = nm"
proof -
  have "lfn_partial nm 0 = nm @ replicate (256 - length nm) 0"
    using assms by (intro nth_equalityI) (auto simp: lfn_partial_def nth_append)
  moreover have "takeWhile (\<lambda>c. c \<noteq> 0) nm = nm" using assms by (auto simp: lfn_ascii_def takeWhile_eq_all_conv)
  moreover obtain m where "256 - length nm = Suc m" using assms(1) by (cases "256 - length nm") auto
  ultimately show ?thesis by (simp add: c_string_of_def takeWhile_append)
qed

section \<open>Properties of names\<close>

definition lfn0 :: lfn_state where
  "lfn0 = \<lparr>lfn_buffer = replicate 256 0, lfn_has_data = False, lfn_checksum = 0, lfn_checksum_valid = False\<rparr>"

text \<open>
  a file name in 8.3 form, in upper or lower case, that is stored in a directory entry and
  listed again comes out as the same name in upper case.
\<close>

theorem short_name_roundtrip:
  assumes "name_chars 8 stem" and "name_chars 3 ext" and "13 \<le> out_size"
    and "de_name e @ de_ext e = fat_name_to_83 (short_name stem ext)" and "length (de_name e) = 8"
  shows "fat_short_name_to_display e out_size = map upper (short_name stem ext)"
proof -
  have e: "de_name e = pad_field 8 stem" "de_ext e = pad_field 3 ext"
    using assms(4,5) by (simp_all add: fat_name_to_83_short [OF assms(1,2)])
  have cap: "12 \<le> unat (out_size - 1)" using assms(3) by (simp add: word_le_nat_alt unat_sub)
  have len: "length stem \<le> 8" "length ext \<le> 3" using assms by (auto simp: name_chars_def)
  have t: "takeWhile (\<lambda>c. c \<noteq> 0x20) (pad_field 8 stem) = map upper stem"
      "takeWhile (\<lambda>c. c \<noteq> 0x20) (pad_field 3 ext) = map upper ext"
    using assms(1,2) by (simp_all add: takeWhile_pad_field name_chars_def)
  have x: "pad_field 3 ext ! 0 \<noteq> 0x20 \<longleftrightarrow> ext \<noteq> []"
    using assms(2) by (cases ext) (auto simp: pad_field_def name_chars_def)
  show ?thesis
    unfolding fat_short_name_to_display_def Let_def e
    using cap len by (simp add: t x short_name_def)
qed

theorem short_name_roundtrip_witness:
  "fat_short_name_to_display (dir_entry_at (fat_name_to_83 (cstr ''readme.txt'') @ replicate 21 0) 0) 48 = cstr ''README.TXT''"
proof -
  let ?e = "dir_entry_at (fat_name_to_83 (cstr ''readme.txt'') @ replicate 21 0) 0"
  have n: "cstr ''readme.txt'' = short_name (cstr ''readme'') (cstr ''txt'')" by (simp add: cstr_def short_name_def)
  have "de_name ?e @ de_ext ?e = fat_name_to_83 (short_name (cstr ''readme'') (cstr ''txt''))"
    by (simp add: n [symmetric] dir_entry_at_def Let_def append_take_drop_id)
  moreover have "length (de_name ?e) = 8" by (simp add: dir_entry_at_def Let_def)
  moreover have "name_chars 8 (cstr ''readme'')" "name_chars 3 (cstr ''txt'')" by (simp_all add: name_chars_def cstr_def)
  ultimately show ?thesis using short_name_roundtrip [of "cstr ''readme''" "cstr ''txt''" 48 ?e]
    by (simp add: n [symmetric]) (simp add: short_name_def cstr_def upper_def)
qed



text \<open>
  no directory contents can make the reconstruction write outside its 256-byte buffer, and
  the buffer's last byte stays NUL, so that it always holds a C string.
\<close>

theorem lfn_accumulate_safe:
  assumes "lfn_wf s"
  shows "\<exists>s'. lfn_accumulate s (lfn_entry_at buf i) = Some s' \<and> lfn_wf s'"
  using lfn_accumulate_wf [OF assms lfn_entry_at_wf] .

theorem lfn_accumulate_safe_witness:
  "\<exists>s'. lfn_accumulate (lfn_reset lfn0) (lfn_entry_at (replicate 512 0xFF) 3) = Some s' \<and> lfn_wf s'"
  using lfn_accumulate_safe [OF lfn_reset_wf] .

end
