(* ===== verification/Fat_Dir.thy ===== *)
theory Fat_Dir
  imports Fat_Table Fat_Names
begin

unbundle bit_operations_syntax

text \<open>
  Directories of the FAT16 driver (src/src/fat.c): the sectors of a directory, the search for a
  name, path resolution, listing, the allocation of a slot for a new entry, and the creation of
  subdirectories. A result of \<open>None\<close> at the outside means that the call has no defined
  result: it follows a cyclic chain forever or leaves an array. C functions that return \<open>-1\<close> or
  fill in output parameters return an option inside.
\<close>

section \<open>The sectors of a directory\<close>

record fat_dir_ref =
  is_root :: bool
  first_cluster :: u16

definition fat_root_dir_ref :: fat_dir_ref where
  "fat_root_dir_ref = \<lparr>is_root = True, first_cluster = 0\<rparr>"

text \<open>The first sector of a data cluster, as every function of the driver computes it.\<close>

definition cluster_lba :: "fat_layout \<Rightarrow> u16 \<Rightarrow> u32" where
  "cluster_lba L cluster = data_start_lba L + (ucast cluster - 2) * ucast (sectors_per_cluster L)"

partial_function (option) fat_dir_walk :: "fat_layout \<Rightarrow> ata_disk \<Rightarrow> u16 \<Rightarrow> u32 \<Rightarrow> u32 option" where
  "fat_dir_walk L d cluster sector_in_chain =
     (if ucast (sectors_per_cluster L) \<le> sector_in_chain then
        if \<not> valid_cluster cluster then Some 0
        else fat_dir_walk L d (fat_get_next_cluster L d cluster)
               (sector_in_chain - ucast (sectors_per_cluster L))
      else if \<not> valid_cluster cluster then Some 0
      else Some (cluster_lba L cluster + sector_in_chain))"

definition fat_dir_sector_lba :: "fat_layout \<Rightarrow> ata_disk \<Rightarrow> fat_dir_ref \<Rightarrow> u32 \<Rightarrow> u32 option" where
  "fat_dir_sector_lba L d dir n =
     (if is_root dir then
        if root_dir_sectors L \<le> n then Some 0 else Some (root_dir_start_lba L + n)
      else fat_dir_walk L d (first_cluster dir) n)"

section \<open>Searching a directory\<close>

datatype ('a, 'b) scan = Scan_stop lfn_state | Scan_hit 'a lfn_state | Scan_more 'b lfn_state

text \<open>The inner loop: the entries \<open>is\<close> of one sector.\<close>

fun find_in_sector :: "bytes \<Rightarrow> bytes \<Rightarrow> u32 \<Rightarrow> bytes \<Rightarrow> nat list \<Rightarrow> lfn_state \<Rightarrow>
    (u32 \<times> u32 \<times> fat_dir_entry, unit) scan option" where
  "find_in_sector component name83 lba buf [] lfn = Some (Scan_more () lfn)"
| "find_in_sector component name83 lba buf (i # is) lfn =
     (let e = dir_entry_at buf i in
      if de_name e ! 0 = 0 then Some (Scan_stop lfn)
      else if de_name e ! 0 = 0xE5 then find_in_sector component name83 lba buf is (lfn_reset lfn)
      else if de_attr e = FAT_ATTR_LONG_NAME then
        (case lfn_accumulate lfn (lfn_entry_at buf i) of
           None \<Rightarrow> None
         | Some lfn' \<Rightarrow> find_in_sector component name83 lba buf is lfn')
      else if de_attr e AND FAT_ATTR_VOLUME_LABEL \<noteq> 0 then
        find_in_sector component name83 lba buf is (lfn_reset lfn)
      else if fat_dir_entry_matches e name83 \<or>
              (lfn_has_data lfn \<and> lfn_checksum_valid lfn \<and> fat_short_name_checksum e = lfn_checksum lfn \<and>
               names_equal_ci component (c_string_of (lfn_buffer lfn)))
        then Some (Scan_hit (lba, of_nat i, e) (lfn_reset lfn))
      else find_in_sector component name83 lba buf is (lfn_reset lfn))"

text \<open>The outer loop, over the sectors of the directory.\<close>

partial_function (option) fat_find_loop ::
  "fat_layout \<Rightarrow> ata_disk \<Rightarrow> fat_dir_ref \<Rightarrow> bytes \<Rightarrow> bytes \<Rightarrow> lfn_state \<Rightarrow> u32 \<Rightarrow>
   ((u32 \<times> u32 \<times> fat_dir_entry) option \<times> lfn_state) option" where
  "fat_find_loop L d dir component name83 lfn s =
     (case fat_dir_sector_lba L d dir s of
        None \<Rightarrow> None
      | Some lba \<Rightarrow>
          if lba = 0 then Some (None, lfn)
          else case ata_read_sector d lba of
                 None \<Rightarrow> Some (None, lfn)
               | Some buf \<Rightarrow>
                   (case find_in_sector component name83 lba buf [0..<16] lfn of
                      None \<Rightarrow> None
                    | Some (Scan_stop lfn') \<Rightarrow> Some (None, lfn')
                    | Some (Scan_hit hit lfn') \<Rightarrow> Some (Some hit, lfn')
                    | Some (Scan_more _ lfn') \<Rightarrow> fat_find_loop L d dir component name83 lfn' (s + 1)))"

definition fat_find_entry_in_dir ::
  "fat_layout \<Rightarrow> ata_disk \<Rightarrow> lfn_state \<Rightarrow> fat_dir_ref \<Rightarrow> bytes \<Rightarrow>
   ((u32 \<times> u32 \<times> fat_dir_entry) option \<times> lfn_state) option" where
  "fat_find_entry_in_dir L d lfn dir component =
     fat_find_loop L d dir component (fat_name_to_83 component) (lfn_reset lfn) 0"

section \<open>Paths\<close>

definition FAT_MAX_COMPONENT :: u32 where "FAT_MAX_COMPONENT = 48"

text \<open>The length of the next component, its copy, and what the path pointer is moved to.\<close>

definition fat_next_path_component :: "bytes \<Rightarrow> u32 \<Rightarrow> nat \<times> bytes \<times> bytes" where
  "fat_next_path_component p out_size =
     (let len = length (takeWhile (\<lambda>c. c \<noteq> 0x2F) p);
          copy_len = (if len < unat (out_size - 1) then len else unat (out_size - 1))
      in (len, take copy_len p, if len < length p then drop (len + 1) p else drop len p))"

function fat_resolve_parent_from ::
  "fat_layout \<Rightarrow> ata_disk \<Rightarrow> lfn_state \<Rightarrow> bytes \<Rightarrow> fat_dir_ref \<Rightarrow> ((fat_dir_ref \<times> bytes) option \<times> lfn_state) option" where
  "fat_resolve_parent_from L d lfn p current =
     (case fat_next_path_component p FAT_MAX_COMPONENT of (len, component, rest) \<Rightarrow>
        if len = 0 then Some (None, lfn)
        else if rest = [] then Some (Some (current, fat_copy_string component FAT_MAX_COMPONENT), lfn)
        else case fat_find_entry_in_dir L d lfn current component of
               None \<Rightarrow> None
             | Some (None, lfn') \<Rightarrow> Some (None, lfn')
             | Some (Some (dsector, doffset, dentry), lfn') \<Rightarrow>
                 if de_attr dentry AND FAT_ATTR_DIRECTORY = 0 then Some (None, lfn')
                 else fat_resolve_parent_from L d lfn' rest
                        \<lparr>is_root = False, first_cluster = de_first_cluster_low dentry\<rparr>)"
  by pat_completeness auto
termination
  by (relation "measure (\<lambda>(L, d, lfn, p, current). length p)") (auto simp: fat_next_path_component_def Let_def split: if_splits)

definition fat_resolve_parent ::
  "fat_layout \<Rightarrow> ata_disk \<Rightarrow> lfn_state \<Rightarrow> bytes \<Rightarrow> ((fat_dir_ref \<times> bytes) option \<times> lfn_state) option" where
  "fat_resolve_parent L d lfn path = fat_resolve_parent_from L d lfn path fat_root_dir_ref"

function fat_resolve_dir_from ::
  "fat_layout \<Rightarrow> ata_disk \<Rightarrow> lfn_state \<Rightarrow> bytes \<Rightarrow> fat_dir_ref \<Rightarrow> (fat_dir_ref option \<times> lfn_state) option" where
  "fat_resolve_dir_from L d lfn p current =
     (if p = [] then Some (Some current, lfn)
      else case fat_next_path_component p FAT_MAX_COMPONENT of (len, component, rest) \<Rightarrow>
        if len = 0 then Some (None, lfn)
        else case fat_find_entry_in_dir L d lfn current component of
               None \<Rightarrow> None
             | Some (None, lfn') \<Rightarrow> Some (None, lfn')
             | Some (Some (dsector, doffset, dentry), lfn') \<Rightarrow>
                 if de_attr dentry AND FAT_ATTR_DIRECTORY = 0 then Some (None, lfn')
                 else fat_resolve_dir_from L d lfn' rest
                        \<lparr>is_root = False, first_cluster = de_first_cluster_low dentry\<rparr>)"
  by pat_completeness auto
termination
  by (relation "measure (\<lambda>(L, d, lfn, p, current). length p)") (auto simp: fat_next_path_component_def Let_def split: if_splits)

definition fat_resolve_dir ::
  "fat_layout \<Rightarrow> ata_disk \<Rightarrow> lfn_state \<Rightarrow> bytes \<Rightarrow> (fat_dir_ref option \<times> lfn_state) option" where
  "fat_resolve_dir L d lfn dir_path = fat_resolve_dir_from L d lfn dir_path fat_root_dir_ref"

definition fat_find_entry_location ::
  "fat_layout \<Rightarrow> ata_disk \<Rightarrow> lfn_state \<Rightarrow> bytes \<Rightarrow> ((u32 \<times> u32 \<times> fat_dir_entry) option \<times> lfn_state) option" where
  "fat_find_entry_location L d lfn path =
     (case fat_resolve_parent L d lfn path of
        None \<Rightarrow> None
      | Some (None, lfn') \<Rightarrow> Some (None, lfn')
      | Some (Some (parent, nm), lfn') \<Rightarrow> fat_find_entry_in_dir L d lfn' parent nm)"

definition fat_find_entry ::
  "fat_layout \<Rightarrow> ata_disk \<Rightarrow> lfn_state \<Rightarrow> bytes \<Rightarrow> (fat_dir_entry option \<times> lfn_state) option" where
  "fat_find_entry L d lfn filename =
     (case fat_find_entry_location L d lfn filename of
        None \<Rightarrow> None
      | Some (None, lfn') \<Rightarrow> Some (None, lfn')
      | Some (Some (sector, offset, e), lfn') \<Rightarrow> Some (Some e, lfn'))"

declare fat_resolve_parent_from.simps [simp del] fat_resolve_dir_from.simps [simp del]

section \<open>Listing a directory\<close>

text \<open>The inner loop of \<open>fat_list_entry\<close>; \<open>seen\<close> counts the visible entries passed so far.\<close>

fun list_in_sector :: "int \<Rightarrow> u32 \<Rightarrow> bytes \<Rightarrow> nat list \<Rightarrow> int \<Rightarrow> lfn_state \<Rightarrow>
    (bytes \<times> u32 \<times> bool, int) scan option" where
  "list_in_sector index name_out_size buf [] seen lfn = Some (Scan_more seen lfn)"
| "list_in_sector index name_out_size buf (i # is) seen lfn =
     (let e = dir_entry_at buf i in
      if de_name e ! 0 = 0 then Some (Scan_stop lfn)
      else if de_name e ! 0 = 0xE5 then list_in_sector index name_out_size buf is seen (lfn_reset lfn)
      else if de_attr e = FAT_ATTR_LONG_NAME then
        (case lfn_accumulate lfn (lfn_entry_at buf i) of
           None \<Rightarrow> None
         | Some lfn' \<Rightarrow> list_in_sector index name_out_size buf is seen lfn')
      else if de_attr e AND FAT_ATTR_VOLUME_LABEL \<noteq> 0 then
        list_in_sector index name_out_size buf is seen (lfn_reset lfn)
      else if de_name e ! 0 = 0x2E \<and>
              (de_name e ! 1 = 0x20 \<or> (de_name e ! 1 = 0x2E \<and> de_name e ! 2 = 0x20)) then
        list_in_sector index name_out_size buf is seen (lfn_reset lfn)
      else if seen = index then
        (let use_long_name = lfn_has_data lfn \<and> lfn_checksum_valid lfn \<and>
                             fat_short_name_checksum e = lfn_checksum lfn;
             name_out = (if use_long_name then fat_copy_string (c_string_of (lfn_buffer lfn)) name_out_size
                         else fat_short_name_to_display e name_out_size)
         in Some (Scan_hit (name_out, de_file_size e, de_attr e AND FAT_ATTR_DIRECTORY \<noteq> 0) (lfn_reset lfn)))
      else list_in_sector index name_out_size buf is (seen + 1) (lfn_reset lfn))"

partial_function (option) fat_list_loop ::
  "fat_layout \<Rightarrow> ata_disk \<Rightarrow> fat_dir_ref \<Rightarrow> int \<Rightarrow> u32 \<Rightarrow> int \<Rightarrow> lfn_state \<Rightarrow> u32 \<Rightarrow>
   ((bytes \<times> u32 \<times> bool) option \<times> lfn_state) option" where
  "fat_list_loop L d dir index name_out_size seen lfn s =
     (case fat_dir_sector_lba L d dir s of
        None \<Rightarrow> None
      | Some lba \<Rightarrow>
          if lba = 0 then Some (None, lfn)
          else case ata_read_sector d lba of
                 None \<Rightarrow> Some (None, lfn)
               | Some buf \<Rightarrow>
                   (case list_in_sector index name_out_size buf [0..<16] seen lfn of
                      None \<Rightarrow> None
                    | Some (Scan_stop lfn') \<Rightarrow> Some (None, lfn')
                    | Some (Scan_hit hit lfn') \<Rightarrow> Some (Some hit, lfn')
                    | Some (Scan_more seen' lfn') \<Rightarrow>
                        fat_list_loop L d dir index name_out_size seen' lfn' (s + 1)))"

definition fat_list_entry ::
  "fat_layout \<Rightarrow> ata_disk \<Rightarrow> lfn_state \<Rightarrow> bytes \<Rightarrow> int \<Rightarrow> u32 \<Rightarrow>
   ((bytes \<times> u32 \<times> bool) option \<times> lfn_state) option" where
  "fat_list_entry L d lfn dir_path index name_out_size =
     (if \<not> fat_ready L then Some (None, lfn)
      else case fat_resolve_dir L d lfn dir_path of
             None \<Rightarrow> None
           | Some (None, lfn') \<Rightarrow> Some (None, lfn')
           | Some (Some dir, lfn') \<Rightarrow> fat_list_loop L d dir index name_out_size 0 (lfn_reset lfn') 0)"

section \<open>A slot for a new entry\<close>

datatype slot = Slot_at u32 u32 | Slot_error | Slot_none

text \<open>The first loop of \<open>fat_alloc_dir_entry_in_dir\<close>: a free slot in the directory's present sectors.\<close>

partial_function (option) fat_slot_loop :: "fat_layout \<Rightarrow> ata_disk \<Rightarrow> fat_dir_ref \<Rightarrow> u32 \<Rightarrow> slot option" where
  "fat_slot_loop L d dir s =
     (case fat_dir_sector_lba L d dir s of
        None \<Rightarrow> None
      | Some lba \<Rightarrow>
          if lba = 0 then Some Slot_none
          else case ata_read_sector d lba of
                 None \<Rightarrow> Some Slot_error
               | Some buf \<Rightarrow>
                   (case find (\<lambda>i. de_name (dir_entry_at buf i) ! 0 = 0 \<or> de_name (dir_entry_at buf i) ! 0 = 0xE5) [0..<16] of
                      Some i \<Rightarrow> Some (Slot_at lba (of_nat i))
                    | None \<Rightarrow> fat_slot_loop L d dir (s + 1)))"

text \<open>Zeroes in the sectors \<open>ss\<close> of a cluster.\<close>

definition fat_zero_sectors :: "ata_disk \<Rightarrow> u32 \<Rightarrow> nat list \<Rightarrow> ata_disk" where
  "fat_zero_sectors d lba ss =
     fold (\<lambda>s d. snd (ata_write_sector d (lba + of_nat s) (replicate 512 0))) ss d"

definition fat_alloc_dir_entry_in_dir ::
  "fat_layout \<Rightarrow> ata_disk \<Rightarrow> fat_dir_ref \<Rightarrow> ((u32 \<times> u32) option \<times> ata_disk) option" where
  "fat_alloc_dir_entry_in_dir L d dir =
     (case fat_slot_loop L d dir 0 of
        None \<Rightarrow> None
      | Some (Slot_at lba i) \<Rightarrow> Some (Some (lba, i), d)
      | Some Slot_error \<Rightarrow> Some (None, d)
      | Some Slot_none \<Rightarrow>
          if is_root dir then Some (None, d)
          else case fat_find_last_cluster L d (first_cluster dir) of
                 None \<Rightarrow> None
               | Some lst \<Rightarrow>
                   if lst = 0 then Some (None, d)
                   else (case fat_alloc_cluster L d of (new_cluster, d1) \<Rightarrow>
                     if new_cluster = 0 then Some (None, d1)
                     else let d2 = fat_zero_sectors d1 (cluster_lba L new_cluster) [0..<unat (sectors_per_cluster L)];
                              d3 = fat_set_cluster_entry L d2 lst new_cluster
                          in Some (Some (cluster_lba L new_cluster, 0), d3)))"

section \<open>Creating a directory\<close>

text \<open>The stores that fill slot \<open>i\<close> of a sector with a fresh entry of size 0.\<close>

definition fat_fill_entry :: "bytes \<Rightarrow> nat \<Rightarrow> bytes \<Rightarrow> u8 \<Rightarrow> u16 \<Rightarrow> bytes" where
  "fat_fill_entry buf i name83 attr cluster =
     put_le32 (put_le16 (copy_into buf (32 * i) (name83 @ [attr] @ replicate 14 0)) (32 * i + 26) cluster) (32 * i + 28) 0"

text \<open>The first sector of a new directory: its entry for itself and the one for its parent.\<close>

definition fat_dot_entries :: "u16 \<Rightarrow> fat_dir_ref \<Rightarrow> bytes" where
  "fat_dot_entries new_cluster parent =
     (let b0 = copy_into (replicate 512 0) 0 ([0x2E] @ replicate 7 0x20 @ replicate 3 0x20 @ [FAT_ATTR_DIRECTORY]);
          b1 = put_le32 (put_le16 b0 26 new_cluster) 28 0;
          b2 = copy_into b1 32 ([0x2E, 0x2E] @ replicate 6 0x20 @ replicate 3 0x20 @ [FAT_ATTR_DIRECTORY])
      in put_le32 (put_le16 b2 58 (if is_root parent then 0 else first_cluster parent)) 60 0)"

definition fat_mkdir :: "fat_layout \<Rightarrow> ata_disk \<Rightarrow> lfn_state \<Rightarrow> bytes \<Rightarrow> (int \<times> ata_disk \<times> lfn_state) option" where
  "fat_mkdir L d lfn path =
     (if \<not> fat_ready L then Some (- 1, d, lfn)
      else case fat_resolve_parent L d lfn path of
        None \<Rightarrow> None
      | Some (None, lfn1) \<Rightarrow> Some (- 1, d, lfn1)
      | Some (Some (parent, nm), lfn1) \<Rightarrow>
          (case fat_find_entry_in_dir L d lfn1 parent nm of
             None \<Rightarrow> None
           | Some (Some _, lfn2) \<Rightarrow> Some (- 1, d, lfn2)
           | Some (None, lfn2) \<Rightarrow>
               (case fat_alloc_cluster L d of (new_cluster, d1) \<Rightarrow>
                  if new_cluster = 0 then Some (- 1, d1, lfn2)
                  else let lba = cluster_lba L new_cluster in
                    case ata_write_sector d1 lba (fat_dot_entries new_cluster parent) of (rc, d2) \<Rightarrow>
                      if rc \<noteq> 0 then Some (- 1, fat_set_cluster_entry L d2 new_cluster 0, lfn2)
                      else let d3 = fat_zero_sectors d2 lba [1..<unat (sectors_per_cluster L)] in
                        case fat_alloc_dir_entry_in_dir L d3 parent of
                          None \<Rightarrow> None
                        | Some (None, d4) \<Rightarrow> Some (- 1, fat_set_cluster_entry L d4 new_cluster 0, lfn2)
                        | Some (Some (dir_sector, dir_offset), d4) \<Rightarrow>
                            (case ata_read_sector d4 dir_sector of
                               None \<Rightarrow> Some (- 1, fat_set_cluster_entry L d4 new_cluster 0, lfn2)
                             | Some buf \<Rightarrow>
                                 (case ata_write_sector d4 dir_sector
                                         (fat_fill_entry buf (unat dir_offset) (fat_name_to_83 nm)
                                            FAT_ATTR_DIRECTORY new_cluster) of (rc, d5) \<Rightarrow>
                                    if rc \<noteq> 0 then Some (- 1, fat_set_cluster_entry L d5 new_cluster 0, lfn2)
                                    else Some (0, d5, lfn2))))))"

end
