(* ===== verification/Fat_File.thy ===== *)
theory Fat_File
  imports Fat_Dir
begin

unbundle bit_operations_syntax

text \<open>
  Files of the FAT16 driver (src/src/fat.c): reading a whole file, the table of open files, and
  the operations on a descriptor: read, seek, close, open for writing in its four modes, and
  write. The bytes that a C function stores into its caller's buffer are returned as a list.
\<close>

section \<open>State\<close>

record open_file =
  in_use :: bool
  file_size :: u32
  current_cluster :: u16
  of_first_cluster :: u16
  cluster_offset :: u32
  file_offset :: u32
  writable :: bool
  dir_entry_sector :: u32
  dir_entry_offset :: u32
  owner_task_id :: int

record fat_fs =
  fs_disk :: ata_disk
  fs_lay :: fat_layout
  fs_lfn :: lfn_state
  open_files :: "open_file list"

definition MAX_OPEN_FILES :: nat where "MAX_OPEN_FILES = 8"
definition FAT_FD_BASE :: int where "FAT_FD_BASE = 3"

definition cluster_size :: "fat_layout \<Rightarrow> u32" where
  "cluster_size L = ucast (sectors_per_cluster L) * 512"

section \<open>Reading a whole file\<close>

text \<open>The inner loop of \<open>fat_read_file\<close> over the sectors of a cluster; the flag reports a read error.\<close>

fun read_file_sectors :: "ata_disk \<Rightarrow> u32 \<Rightarrow> u32 \<Rightarrow> nat list \<Rightarrow> u32 \<Rightarrow> bytes \<Rightarrow> bool \<times> u32 \<times> bytes" where
  "read_file_sectors d lba fsize [] bytes_read out = (False, bytes_read, out)"
| "read_file_sectors d lba fsize (s # ss) bytes_read out =
     (if bytes_read < fsize then
        case ata_read_sector d (lba + of_nat s) of
          None \<Rightarrow> (True, bytes_read, out)
        | Some buf \<Rightarrow>
            let remaining = fsize - bytes_read;
                to_copy = (if remaining < 512 then remaining else 512)
            in read_file_sectors d lba fsize ss (bytes_read + to_copy) (out @ take (unat to_copy) buf)
      else (False, bytes_read, out))"

partial_function (option) read_file_clusters ::
  "fat_layout \<Rightarrow> ata_disk \<Rightarrow> u32 \<Rightarrow> u16 \<Rightarrow> u32 \<Rightarrow> bytes \<Rightarrow> (u32 \<times> bytes) option" where
  "read_file_clusters L d fsize cluster bytes_read out =
     (if valid_cluster cluster \<and> bytes_read < fsize then
        case read_file_sectors d (cluster_lba L cluster) fsize [0..<unat (sectors_per_cluster L)] bytes_read out of
          (err, bytes_read', out') \<Rightarrow>
            if err then Some (bytes_read', out')
            else read_file_clusters L d fsize (fat_get_next_cluster L d cluster) bytes_read' out'
      else Some (bytes_read, out))"

definition fat_read_file :: "fat_fs \<Rightarrow> bytes \<Rightarrow> u32 \<Rightarrow> (int \<times> bytes \<times> fat_fs) option" where
  "fat_read_file fs filename buffer_size =
     (if \<not> fat_ready (fs_lay fs) then Some (- 1, [], fs)
      else case fat_find_entry (fs_lay fs) (fs_disk fs) (fs_lfn fs) filename of
        None \<Rightarrow> None
      | Some (None, lfn) \<Rightarrow> Some (- 1, [], fs\<lparr>fs_lfn := lfn\<rparr>)
      | Some (Some entry, lfn) \<Rightarrow>
          if de_attr entry AND FAT_ATTR_DIRECTORY \<noteq> 0 then Some (- 1, [], fs\<lparr>fs_lfn := lfn\<rparr>)
          else if buffer_size < de_file_size entry then Some (- 1, [], fs\<lparr>fs_lfn := lfn\<rparr>)
          else case read_file_clusters (fs_lay fs) (fs_disk fs) (de_file_size entry)
                      (de_first_cluster_low entry) 0 [] of
                 None \<Rightarrow> None
               | Some (n, out) \<Rightarrow> Some (sint n, out, fs\<lparr>fs_lfn := lfn\<rparr>))"

section \<open>Descriptors\<close>

text \<open>The index of the first free slot, or none.\<close>

definition free_slot :: "open_file list \<Rightarrow> nat option" where
  "free_slot ofs = find (\<lambda>i. \<not> in_use (ofs ! i)) [0..<MAX_OPEN_FILES]"

text \<open>The check at the head of every operation on a descriptor.\<close>

definition fd_index :: "open_file list \<Rightarrow> int \<Rightarrow> nat option" where
  "fd_index ofs fd =
     (let index = fd - FAT_FD_BASE
      in if index < 0 \<or> index \<ge> int MAX_OPEN_FILES \<or> \<not> in_use (ofs ! nat index) then None else Some (nat index))"

definition fat_open :: "fat_fs \<Rightarrow> int \<Rightarrow> bytes \<Rightarrow> (int \<times> fat_fs) option" where
  "fat_open fs task_current_id filename =
     (if \<not> fat_ready (fs_lay fs) then Some (- 1, fs)
      else case fat_find_entry (fs_lay fs) (fs_disk fs) (fs_lfn fs) filename of
        None \<Rightarrow> None
      | Some (None, lfn) \<Rightarrow> Some (- 1, fs\<lparr>fs_lfn := lfn\<rparr>)
      | Some (Some entry, lfn) \<Rightarrow>
          let fs1 = fs\<lparr>fs_lfn := lfn\<rparr> in
          if de_attr entry AND FAT_ATTR_DIRECTORY \<noteq> 0 then Some (- 1, fs1)
          else case free_slot (open_files fs1) of
                 None \<Rightarrow> Some (- 1, fs1)
               | Some i \<Rightarrow>
                   Some (int i + FAT_FD_BASE,
                     fs1\<lparr>open_files := (open_files fs1)[i := (open_files fs1 ! i)
                       \<lparr>in_use := True, file_size := de_file_size entry,
                        current_cluster := de_first_cluster_low entry,
                        of_first_cluster := de_first_cluster_low entry, cluster_offset := 0,
                        file_offset := 0, writable := False, owner_task_id := task_current_id\<rparr>]\<rparr>))"

text \<open>The loop of \<open>fat_read\<close>: every round copies at least one byte.\<close>

function fat_read_loop ::
  "fat_layout \<Rightarrow> ata_disk \<Rightarrow> u32 \<Rightarrow> open_file \<Rightarrow> u32 \<Rightarrow> bytes \<Rightarrow> u32 \<times> bytes \<times> open_file" where
  "fat_read_loop L d len f bytes_read out =
     (if bytes_read < len \<and> file_offset f < file_size f \<and> valid_cluster (current_cluster f) then
        let sector_in_cluster = cluster_offset f div 512;
            offset_in_sector = cluster_offset f mod 512
        in case ata_read_sector d (cluster_lba L (current_cluster f) + sector_in_cluster) of
             None \<Rightarrow> (bytes_read, out, f)
           | Some sector_buf \<Rightarrow>
               let available_in_sector = 512 - offset_in_sector;
                   remaining_in_file = file_size f - file_offset f;
                   remaining_requested = len - bytes_read;
                   to_copy1 = (if remaining_in_file < available_in_sector then remaining_in_file
                               else available_in_sector);
                   to_copy = (if remaining_requested < to_copy1 then remaining_requested else to_copy1);
                   f1 = f\<lparr>file_offset := file_offset f + to_copy, cluster_offset := cluster_offset f + to_copy\<rparr>;
                   f2 = (if cluster_size L \<le> cluster_offset f1
                         then f1\<lparr>current_cluster := fat_get_next_cluster L d (current_cluster f1), cluster_offset := 0\<rparr>
                         else f1)
               in fat_read_loop L d len f2 (bytes_read + to_copy)
                    (out @ take (unat to_copy) (drop (unat offset_in_sector) sector_buf))
      else (bytes_read, out, f))"
  by pat_completeness auto

definition fat_read :: "fat_fs \<Rightarrow> int \<Rightarrow> u32 \<Rightarrow> int \<times> bytes \<times> fat_fs" where
  "fat_read fs fd len =
     (case fd_index (open_files fs) fd of
        None \<Rightarrow> (- 1, [], fs)
      | Some index \<Rightarrow>
          (case fat_read_loop (fs_lay fs) (fs_disk fs) len (open_files fs ! index) 0 [] of
             (n, out, f) \<Rightarrow> (sint n, out, fs\<lparr>open_files := (open_files fs)[index := f]\<rparr>)))"

text \<open>The walk of \<open>fat_seek\<close>: the cluster and the offset within it.\<close>

partial_function (option) fat_seek_walk :: "fat_layout \<Rightarrow> ata_disk \<Rightarrow> u16 \<Rightarrow> u32 \<Rightarrow> (u16 \<times> u32) option" where
  "fat_seek_walk L d cluster remaining =
     (if cluster_size L \<le> remaining then
        let nx = fat_get_next_cluster L d cluster
        in if \<not> valid_cluster nx then Some (cluster, cluster_size L)
           else fat_seek_walk L d nx (remaining - cluster_size L)
      else Some (cluster, remaining))"

definition fat_seek :: "fat_fs \<Rightarrow> int \<Rightarrow> u32 \<Rightarrow> (int \<times> fat_fs) option" where
  "fat_seek fs fd offset =
     (case fd_index (open_files fs) fd of
        None \<Rightarrow> Some (- 1, fs)
      | Some index \<Rightarrow>
          let f = open_files fs ! index in
          if file_size f < offset then Some (- 1, fs)
          else case fat_seek_walk (fs_lay fs) (fs_disk fs) (of_first_cluster f) offset of
                 None \<Rightarrow> None
               | Some (cluster, remaining) \<Rightarrow>
                   Some (0, fs\<lparr>open_files := (open_files fs)[index :=
                     f\<lparr>current_cluster := cluster, cluster_offset := remaining, file_offset := offset\<rparr>]\<rparr>))"

definition fat_close :: "fat_fs \<Rightarrow> int \<Rightarrow> int \<times> fat_fs" where
  "fat_close fs fd =
     (case fd_index (open_files fs) fd of
        None \<Rightarrow> (- 1, fs)
      | Some index \<Rightarrow>
          (0, fs\<lparr>open_files := (open_files fs)[index := (open_files fs ! index)\<lparr>in_use := False\<rparr>]\<rparr>))"

definition fat_close_all_for_task :: "fat_fs \<Rightarrow> int \<Rightarrow> fat_fs" where
  "fat_close_all_for_task fs task_id =
     fs\<lparr>open_files := map (\<lambda>f. if in_use f \<and> owner_task_id f = task_id then f\<lparr>in_use := False\<rparr> else f)
                          (open_files fs)\<rparr>"

section \<open>Opening for writing\<close>

definition FAT_OPEN_CREATE :: int where "FAT_OPEN_CREATE = 0"
definition FAT_OPEN_TRUNCATE :: int where "FAT_OPEN_TRUNCATE = 1"
definition FAT_OPEN_APPEND :: int where "FAT_OPEN_APPEND = 2"
definition FAT_OPEN_MODIFY :: int where "FAT_OPEN_MODIFY = 3"

text \<open>
  What the four ways of opening settle on: the disk, the starting cluster, the file's first
  cluster, its size, and the starting offsets in the file and in the cluster. An inner \<open>None\<close> is
  the return of \<open>-1\<close> after a failed write. The remainder by a cluster size of 0 in the append
  case traps.
\<close>

record open_start =
  start_cluster :: u16
  file_first_cluster :: u16
  start_file_size :: u32
  start_file_offset :: u32
  start_cluster_offset :: u32

definition start0 :: open_start where
  "start0 = \<lparr>start_cluster = 0, file_first_cluster = 0, start_file_size = 0, start_file_offset = 0, start_cluster_offset = 0\<rparr>"

definition open_write_new :: "ata_disk \<Rightarrow> u32 \<Rightarrow> u32 \<Rightarrow> bytes \<Rightarrow> bytes \<Rightarrow> open_start option \<times> ata_disk" where
  "open_write_new d dir_sector dir_offset sector_buf nm =
     (case ata_write_sector d dir_sector (fat_fill_entry sector_buf (unat dir_offset) (fat_name_to_83 nm) 0 0) of
        (rc, d1) \<Rightarrow> (if rc \<noteq> 0 then None else Some start0, d1))"

definition open_write_truncate ::
  "fat_layout \<Rightarrow> ata_disk \<Rightarrow> u32 \<Rightarrow> u32 \<Rightarrow> bytes \<Rightarrow> fat_dir_entry \<Rightarrow> (open_start option \<times> ata_disk) option" where
  "open_write_truncate L d dir_sector dir_offset sector_buf existing =
     (case (if de_first_cluster_low existing \<noteq> 0 then fat_free_chain L d (de_first_cluster_low existing) else Some d) of
        None \<Rightarrow> None
      | Some d1 \<Rightarrow>
          (case ata_write_sector d1 dir_sector
                  (put_le32 (put_le16 sector_buf (32 * unat dir_offset + 26) 0) (32 * unat dir_offset + 28) 0) of
             (rc, d2) \<Rightarrow> Some (if rc \<noteq> 0 then None else Some start0, d2)))"

definition open_write_append :: "fat_layout \<Rightarrow> ata_disk \<Rightarrow> fat_dir_entry \<Rightarrow> open_start option" where
  "open_write_append L d existing =
     (let s = start0\<lparr>start_file_size := de_file_size existing, start_file_offset := de_file_size existing,
                     file_first_cluster := de_first_cluster_low existing\<rparr>
      in if de_first_cluster_low existing \<noteq> 0 then
           case fat_find_last_cluster L d (de_first_cluster_low existing) of
             None \<Rightarrow> None
           | Some c \<Rightarrow>
               if cluster_size L = 0 then None
               else let off = de_file_size existing mod cluster_size L
                    in Some (s\<lparr>start_cluster := c,
                               start_cluster_offset := (if off = 0 \<and> 0 < de_file_size existing then cluster_size L else off)\<rparr>)
         else Some s)"

definition open_write_modify :: "fat_dir_entry \<Rightarrow> open_start" where
  "open_write_modify existing =
     start0\<lparr>start_file_size := de_file_size existing, file_first_cluster := de_first_cluster_low existing,
            start_cluster := de_first_cluster_low existing\<rparr>"

text \<open>The last part of \<open>fat_open_write\<close>: a descriptor for what was found or created.\<close>

definition open_write_fd :: "fat_fs \<Rightarrow> int \<Rightarrow> u32 \<Rightarrow> u32 \<Rightarrow> open_start \<Rightarrow> int \<times> fat_fs" where
  "open_write_fd fs task_current_id dir_sector dir_offset s =
     (case free_slot (open_files fs) of
        None \<Rightarrow> (- 1, fs)
      | Some i \<Rightarrow>
          (int i + FAT_FD_BASE,
           fs\<lparr>open_files := (open_files fs)[i :=
             \<lparr>in_use = True, file_size = start_file_size s, current_cluster = start_cluster s,
              of_first_cluster = file_first_cluster s, cluster_offset = start_cluster_offset s,
              file_offset = start_file_offset s, writable = True, dir_entry_sector = dir_sector,
              dir_entry_offset = dir_offset, owner_task_id = task_current_id\<rparr>]\<rparr>))"

definition open_write_entry ::
  "fat_layout \<Rightarrow> ata_disk \<Rightarrow> int \<Rightarrow> fat_dir_entry option \<Rightarrow> bytes \<Rightarrow> u32 \<Rightarrow> u32 \<Rightarrow> bytes \<Rightarrow>
   (open_start option \<times> ata_disk) option" where
  "open_write_entry L d mode exists nm dir_sector dir_offset sector_buf =
     (case exists of
        None \<Rightarrow> Some (open_write_new d dir_sector dir_offset sector_buf nm)
      | Some existing \<Rightarrow>
          if mode = FAT_OPEN_TRUNCATE then open_write_truncate L d dir_sector dir_offset sector_buf existing
          else if mode = FAT_OPEN_APPEND then
            map_option (\<lambda>s. (Some s, d)) (open_write_append L d existing)
          else Some (Some (open_write_modify existing), d))"

definition fat_open_write :: "fat_fs \<Rightarrow> int \<Rightarrow> bytes \<Rightarrow> int \<Rightarrow> (int \<times> fat_fs) option" where
  "fat_open_write fs task_current_id filename mode =
     (let L = fs_lay fs in
      if \<not> fat_ready L then Some (- 1, fs)
      else case fat_resolve_parent L (fs_disk fs) (fs_lfn fs) filename of
        None \<Rightarrow> None
      | Some (None, lfn1) \<Rightarrow> Some (- 1, fs\<lparr>fs_lfn := lfn1\<rparr>)
      | Some (Some (parent, nm), lfn1) \<Rightarrow>
          (case fat_find_entry_in_dir L (fs_disk fs) lfn1 parent nm of
             None \<Rightarrow> None
           | Some (found, lfn2) \<Rightarrow>
               let fs2 = fs\<lparr>fs_lfn := lfn2\<rparr>; exists = map_option (\<lambda>(_, _, e). e) found in
               if (case exists of None \<Rightarrow> False | Some e \<Rightarrow> de_attr e AND FAT_ATTR_DIRECTORY \<noteq> 0) then Some (- 1, fs2)
               else if exists \<noteq> None \<and> mode = FAT_OPEN_CREATE then Some (- 1, fs2)
               else case (case found of
                            Some (sec, off, _) \<Rightarrow> Some (Some (sec, off), fs_disk fs)
                          | None \<Rightarrow> fat_alloc_dir_entry_in_dir L (fs_disk fs) parent) of
                      None \<Rightarrow> None
                    | Some (None, d1) \<Rightarrow> Some (- 1, fs2\<lparr>fs_disk := d1\<rparr>)
                    | Some (Some (dir_sector, dir_offset), d1) \<Rightarrow>
                        (case ata_read_sector d1 dir_sector of
                           None \<Rightarrow> Some (- 1, fs2\<lparr>fs_disk := d1\<rparr>)
                         | Some sector_buf \<Rightarrow>
                             (case open_write_entry L d1 mode exists nm dir_sector dir_offset sector_buf of
                                None \<Rightarrow> None
                              | Some (None, d2) \<Rightarrow> Some (- 1, fs2\<lparr>fs_disk := d2\<rparr>)
                              | Some (Some s, d2) \<Rightarrow>
                                  Some (open_write_fd (fs2\<lparr>fs_disk := d2\<rparr>) task_current_id dir_sector dir_offset s)))))"

section \<open>Writing\<close>

text \<open>
  The first half of a round of \<open>fat_write\<close>: give the descriptor a cluster with room. \<open>None\<close> when
  the disk is full.
\<close>

definition fat_write_cluster :: "fat_layout \<Rightarrow> ata_disk \<Rightarrow> open_file \<Rightarrow> (open_file option) \<times> ata_disk" where
  "fat_write_cluster L d f =
     (if current_cluster f = 0 then
        (case fat_alloc_cluster L d of (new_cluster, d1) \<Rightarrow>
           if new_cluster = 0 then (None, d1)
           else let f1 = f\<lparr>current_cluster := new_cluster, cluster_offset := 0\<rparr>;
                    f2 = (if of_first_cluster f1 = 0 then f1\<lparr>of_first_cluster := new_cluster\<rparr> else f1);
                    d2 = (case ata_read_sector d1 (dir_entry_sector f2) of
                            None \<Rightarrow> d1
                          | Some buf \<Rightarrow> snd (ata_write_sector d1 (dir_entry_sector f2)
                                              (put_le16 buf (32 * unat (dir_entry_offset f2) + 26) new_cluster)))
                in (Some f2, d2))
      else if cluster_size L \<le> cluster_offset f then
        (case fat_alloc_cluster L d of (new_cluster, d1) \<Rightarrow>
           if new_cluster = 0 then (None, d1)
           else (Some (f\<lparr>current_cluster := new_cluster, cluster_offset := 0\<rparr>),
                 fat_set_cluster_entry L d1 (current_cluster f) new_cluster))
      else (Some f, d))"

function fat_write_loop ::
  "fat_layout \<Rightarrow> ata_disk \<Rightarrow> open_file \<Rightarrow> bytes \<Rightarrow> u32 \<Rightarrow> u32 \<Rightarrow> u32 \<times> open_file \<times> ata_disk" where
  "fat_write_loop L d f buffer len bytes_written =
     (if bytes_written < len then
        case fat_write_cluster L d f of
          (None, d1) \<Rightarrow> (bytes_written, f, d1)
        | (Some f1, d1) \<Rightarrow>
            let sector_in_cluster = cluster_offset f1 div 512;
                offset_in_sector = cluster_offset f1 mod 512;
                lba = cluster_lba L (current_cluster f1) + sector_in_cluster
            in case ata_read_sector d1 lba of
                 None \<Rightarrow> (bytes_written, f1, d1)
               | Some sector_buf \<Rightarrow>
                   let available_in_sector = 512 - offset_in_sector;
                       remaining_requested = len - bytes_written;
                       to_copy = (if available_in_sector < remaining_requested then available_in_sector
                                  else remaining_requested);
                       buf' = copy_into sector_buf (unat offset_in_sector)
                                (take (unat to_copy) (drop (unat bytes_written) buffer))
                   in case ata_write_sector d1 lba buf' of
                        (rc, d2) \<Rightarrow>
                          if rc \<noteq> 0 then (bytes_written, f1, d2)
                          else let off = file_offset f1 + to_copy;
                                   f2 = f1\<lparr>file_offset := off, cluster_offset := cluster_offset f1 + to_copy,
                                           file_size := (if file_size f1 < off then off else file_size f1)\<rparr>
                               in fat_write_loop L d2 f2 buffer len (bytes_written + to_copy)
      else (bytes_written, f, d))"
  by pat_completeness auto

text \<open>The last part of \<open>fat_write\<close>: record the size in the directory entry.\<close>

definition fat_write_size :: "ata_disk \<Rightarrow> open_file \<Rightarrow> ata_disk" where
  "fat_write_size d f =
     (case ata_read_sector d (dir_entry_sector f) of
        None \<Rightarrow> d
      | Some buf \<Rightarrow> snd (ata_write_sector d (dir_entry_sector f)
                          (put_le32 buf (32 * unat (dir_entry_offset f) + 28) (file_size f))))"

definition fat_write :: "fat_fs \<Rightarrow> int \<Rightarrow> bytes \<Rightarrow> u32 \<Rightarrow> int \<times> fat_fs" where
  "fat_write fs fd buffer len =
     (case fd_index (open_files fs) fd of
        None \<Rightarrow> (- 1, fs)
      | Some index \<Rightarrow>
          if \<not> writable (open_files fs ! index) then (- 1, fs)
          else case fat_write_loop (fs_lay fs) (fs_disk fs) (open_files fs ! index) buffer len 0 of
                 (n, f, d) \<Rightarrow>
                   (sint n, fs\<lparr>fs_disk := fat_write_size d f, open_files := (open_files fs)[index := f]\<rparr>))"

section \<open>The loops return\<close>

text \<open>Every round of \<open>fat_read\<close> and of \<open>fat_write\<close> moves on by at least one byte, whatever the disk holds.\<close>

lemma progress_u32:
  assumes "b < (l :: u32)" and "0 < t" and "t \<le> l - b"
  shows "unat l - unat (b + t) < unat l - unat b"
proof -
  have "unat (b + t) = unat b + unat t" using assms(1,3) by (rule unat_progress_u32(1))
  then show ?thesis using assms(1,2) by (simp add: word_less_nat_alt)
qed

lemma room_u32: "0 < 512 - (x :: u32) mod 512"
  using unat_sector_room [of x] by (simp add: word_less_nat_alt)

lemma left_u32: "a < b \<Longrightarrow> 0 < b - (a :: u32)"
  by (simp add: word_less_nat_alt unat_sub_u32)

termination fat_read_loop
  by (relation "measure (\<lambda>(L, d, len, f, n, out). unat len - unat n)")
     (auto simp: not_less intro!: progress_u32 room_u32 left_u32 word_less_nat_alt [THEN iffD1])

termination fat_write_loop
  by (relation "measure (\<lambda>(L, d, f, buffer, len, n). unat len - unat n)")
     (auto simp: not_less intro!: progress_u32 room_u32 left_u32 word_less_nat_alt [THEN iffD1])

declare fat_read_loop.simps [simp del] fat_write_loop.simps [simp del]

end
