(* ===== verification/Fat_Dir_Spec.thy ===== *)
theory Fat_Dir_Spec
  imports Fat_File
begin

unbundle bit_operations_syntax

text \<open>
  Directory entries are written and found again: the slot that the driver fills decodes to the
  entry it meant, no other slot of the sector changes, and a name that was not there before is
  found by the next search at the place where it was put.
\<close>

section \<open>Slots of a sector\<close>

lemma dir_entry_at_cong:
  assumes "length a = length b" and "\<And>k. 32 * i \<le> k \<Longrightarrow> k < 32 * i + 32 \<Longrightarrow> a ! k = b ! k" and "32 * i + 32 \<le> length a"
  shows "dir_entry_at a i = dir_entry_at b i"
proof -
  have t: "take n (drop p a) = take n (drop p b)" if "32 * i \<le> p" "p + n \<le> 32 * i + 32" for n p
    using assms that by (intro nth_equalityI) auto
  show ?thesis
    by (simp add: dir_entry_at_def Let_def get_le16_def get_le32_def assms(2) t)
qed

lemma lfn_entry_at_cong:
  assumes "\<And>k. 32 * i \<le> k \<Longrightarrow> k < 32 * i + 32 \<Longrightarrow> a ! k = b ! k"
  shows "lfn_entry_at a i = lfn_entry_at b i"
  unfolding lfn_entry_at_def Let_def get_le16_def by (simp add: assms)

text \<open>The entry that \<open>fat_fill_entry\<close> means.\<close>

definition fresh_entry :: "bytes \<Rightarrow> u8 \<Rightarrow> u16 \<Rightarrow> fat_dir_entry" where
  "fresh_entry name83 attr cluster =
     \<lparr>de_name = take 8 name83, de_ext = drop 8 name83, de_attr = attr, de_reserved = 0, de_create_time_tenth = 0,
      de_create_time = 0, de_create_date = 0, de_last_access_date = 0, de_first_cluster_high = 0,
      de_write_time = 0, de_write_date = 0, de_first_cluster_low = cluster, de_file_size = 0\<rparr>"

lemma length_fat_fill_entry [simp]:
  "length name83 = 11 \<Longrightarrow> 32 * i + 32 \<le> length buf \<Longrightarrow> length (fat_fill_entry buf i name83 attr cl) = length buf"
  by (simp add: fat_fill_entry_def put_le32_def put_le16_def copy_into_def)

lemma fat_fill_entry_other:
  assumes "length name83 = 11" "32 * i + 32 \<le> length buf" "k < 32 * i \<or> 32 * i + 32 \<le> k"
  shows "fat_fill_entry buf i name83 attr cl ! k = buf ! k"
  using assms by (auto simp: fat_fill_entry_def put_le32_def put_le16_def nth_list_update copy_into_def nth_append)

lemma dir_entry_at_fill_other:
  assumes "length name83 = 11" "i < 16" "j < 16" "length buf = 512" "j \<noteq> i"
  shows "dir_entry_at (fat_fill_entry buf i name83 attr cl) j = dir_entry_at buf j"
    and "lfn_entry_at (fat_fill_entry buf i name83 attr cl) j = lfn_entry_at buf j"
  using assms by (auto intro!: dir_entry_at_cong lfn_entry_at_cong fat_fill_entry_other)

lemma fat_fill_entry_nth:
  assumes "length name83 = 11" "32 * i + 32 \<le> length buf" "j < 26"
  shows "fat_fill_entry buf i name83 attr cl ! (32 * i + j) = (name83 @ [attr] @ replicate 14 0) ! j"
proof -
  have "fat_fill_entry buf i name83 attr cl ! (32 * i + j) =
      copy_into buf (32 * i) (name83 @ [attr] @ replicate 14 0) ! (32 * i + j)"
    using assms(3) by (simp add: fat_fill_entry_def put_le32_def put_le16_def)
  also have "\<dots> = (name83 @ [attr] @ replicate 14 0) ! j"
    using assms by (subst nth_copy_into) auto
  finally show ?thesis .
qed

lemma dir_entry_at_fill:
  assumes "length name83 = 11" "i < 16" "length buf = 512"
  shows "dir_entry_at (fat_fill_entry buf i name83 attr cl) i = fresh_entry name83 attr cl"
proof -
  let ?b = "fat_fill_entry buf i name83 attr cl"
  have len: "length ?b = 512" using assms by simp
  have n: "?b ! (32 * i + j) = (name83 @ [attr] @ replicate 14 0) ! j" if "j < 26" for j
    using assms that by (intro fat_fill_entry_nth) auto
  have nm: "take 8 (drop (32 * i) ?b) = take 8 name83"
    using assms len by (intro nth_equalityI) (auto simp: n nth_append)
  have ex: "take 3 (drop (32 * i + 8) ?b) = drop 8 name83"
    using assms len by (intro nth_equalityI) (auto simp: n nth_append add.assoc)
  have z: "?b ! (32 * i + j) = 0" if "12 \<le> j" "j < 26" for j
    using that assms(1) by (simp add: n nth_append nth_Cons')
  have z16: "get_le16 ?b (32 * i + j) = 0" if "12 \<le> j" "j < 25" for j
    using z [of j] z [of "Suc j"] that by (simp add: get_le16_def)
  have cl: "get_le16 ?b (32 * i + 26) = cl"
    using assms by (simp add: fat_fill_entry_def get_le16_def put_le32_def nth_list_update_neq put_le16_def)
       (metis get_put_le16 bytes_of_u16 or.commute)
  have fs: "get_le32 ?b (32 * i + 28) = 0"
    using assms by (simp add: fat_fill_entry_def) (subst get_put_le32, simp_all add: copy_into_def)
  show ?thesis
    unfolding dir_entry_at_def Let_def fresh_entry_def nm ex fs cl
    using z16 [of 14] z16 [of 16] z16 [of 18] z16 [of 20] z16 [of 22] z16 [of 24] z [of 12] z [of 13] n [of 11] assms(1)
    by (simp add: nth_append)
qed

text \<open>The two fields that \<open>fat_write\<close> updates in place.\<close>

lemma take_drop_list_update:
  "k < p \<or> p + n \<le> k \<Longrightarrow> take n (drop p (xs[k := v])) = take n (drop p xs)"
proof (rule nth_equalityI)
  assume k: "k < p \<or> p + n \<le> k"
  fix i assume "i < length (take n (drop p (xs[k := v])))"
  then have "i < n" "p + i < length xs" by auto
  then show "take n (drop p (xs[k := v])) ! i = take n (drop p xs) ! i" using k by auto
qed simp

lemma dir_entry_at_put_size:
  assumes "i < 16" "length buf = 512"
  shows "dir_entry_at (put_le32 buf (32 * i + 28) v) i = (dir_entry_at buf i)\<lparr>de_file_size := v\<rparr>"
proof -
  have "get_le32 (put_le32 buf (32 * i + 28) v) (32 * i + 28) = v" using assms by (simp add: get_put_le32)
  then show ?thesis
    by (simp add: dir_entry_at_def Let_def nth_put_le32 get_le16_def) (simp add: put_le32_def take_drop_list_update)
qed

lemma dir_entry_at_put_cluster:
  assumes "i < 16" "length buf = 512"
  shows "dir_entry_at (put_le16 buf (32 * i + 26) v) i = (dir_entry_at buf i)\<lparr>de_first_cluster_low := v\<rparr>"
proof -
  have "get_le16 (put_le16 buf (32 * i + 26) v) (32 * i + 26) = v" using assms by (simp add: get_put_le16)
  then show ?thesis
    by (simp add: dir_entry_at_def Let_def get_le16_put_le16_other get_le32_def)
       (simp add: put_le16_def take_drop_list_update)
qed

section \<open>Searching after an insertion\<close>

definition free_entry :: "fat_dir_entry \<Rightarrow> bool" where
  "free_entry e \<longleftrightarrow> de_name e ! 0 = 0 \<or> de_name e ! 0 = 0xE5"

lemma matches_fresh: "length n83 = 11 \<Longrightarrow> fat_dir_entry_matches (fresh_entry n83 attr cl) n83"
  by (auto simp: fat_dir_entry_matches_def fresh_entry_def list_all_iff)

lemma find_in_sector_append:
  "find_in_sector c n lba buf (xs @ ys) lfn =
     (case find_in_sector c n lba buf xs lfn of
        None \<Rightarrow> None | Some (Scan_more _ l) \<Rightarrow> find_in_sector c n lba buf ys l | Some r \<Rightarrow> Some r)"
  by (induction c n lba buf xs lfn rule: find_in_sector.induct) (simp_all add: Let_def split: option.split)

lemma find_in_sector_cong:
  "\<forall>i \<in> set xs. dir_entry_at a i = dir_entry_at b i \<and> lfn_entry_at a i = lfn_entry_at b i \<Longrightarrow>
   find_in_sector c n lba a xs lfn = find_in_sector c n lba b xs lfn"
  by (induction c n lba a xs lfn rule: find_in_sector.induct) (simp_all add: Let_def split: option.split)

lemma find_in_sector_no_stop:
  "\<forall>i \<in> set xs. \<not> free_entry (dir_entry_at buf i) \<Longrightarrow> find_in_sector c n lba buf xs lfn \<noteq> Some (Scan_stop l)"
  by (induction c n lba buf xs lfn rule: find_in_sector.induct)
     (auto simp: Let_def free_entry_def split: option.split)

lemma find_in_sector_insert:
  assumes i: "i < 16" and len: "length buf = 512" "length n83 = 11"
    and pre: "\<forall>j < i. \<not> free_entry (dir_entry_at buf j)"
    and old: "find_in_sector c n83 lba buf [0..<16] lfn = Some r" "\<And>h l. r \<noteq> Scan_hit h l"
    and nm: "n83 ! 0 \<noteq> 0" "n83 ! 0 \<noteq> 0xE5" and attr: "attr \<noteq> FAT_ATTR_LONG_NAME" "attr AND FAT_ATTR_VOLUME_LABEL = 0"
  shows "\<exists>l. find_in_sector c n83 lba (fat_fill_entry buf i n83 attr cl) [0..<16] lfn =
    Some (Scan_hit (lba, of_nat i, fresh_entry n83 attr cl) l)"
proof -
  let ?b = "fat_fill_entry buf i n83 attr cl"
  have sp: "[0..<16] = [0..<i] @ i # [Suc i..<16]" using i upt_add_eq_append [of 0 i "16 - i"] upt_conv_Cons [of i 16] by simp
  have eq: "find_in_sector c n83 lba ?b [0..<i] lfn = find_in_sector c n83 lba buf [0..<i] lfn"
    using i len by (intro find_in_sector_cong) (auto simp: dir_entry_at_fill_other)
  have ns: "find_in_sector c n83 lba buf [0..<i] lfn \<noteq> Some (Scan_stop l)" for l
    using pre by (intro find_in_sector_no_stop) auto
  obtain l where l: "find_in_sector c n83 lba buf [0..<i] lfn = Some (Scan_more () l)"
    using old unfolding sp find_in_sector_append by (auto simp: ns split: option.splits scan.splits)
  have e: "dir_entry_at ?b i = fresh_entry n83 attr cl" using len i by (intro dir_entry_at_fill)
  have n0: "de_name (fresh_entry n83 attr cl) ! 0 = n83 ! 0" "de_attr (fresh_entry n83 attr cl) = attr"
    by (simp_all add: fresh_entry_def)
  show ?thesis
    unfolding sp find_in_sector_append eq l
    using nm attr by (simp add: e n0 matches_fresh [OF len(2)] Let_def)
qed

text \<open>The disk after slot \<open>i\<close> of sector \<open>lba\<close> was filled.\<close>

definition put_entry :: "ata_disk \<Rightarrow> u32 \<Rightarrow> nat \<Rightarrow> bytes \<Rightarrow> u8 \<Rightarrow> u16 \<Rightarrow> ata_disk" where
  "put_entry d lba i n83 attr cl =
     d\<lparr>sectors := (sectors d)(ata_lba28 lba := fat_fill_entry (sectors d (ata_lba28 lba)) i n83 attr cl)\<rparr>"

lemma find_upt_first: "find P [0..<n] = Some i \<Longrightarrow> i < n \<and> P i \<and> (\<forall>j < i. \<not> P j)"
  by (simp add: find_upt_Some)

abbreviation slot_scan :: "bytes \<Rightarrow> nat option" where
  "slot_scan buf \<equiv> find (\<lambda>i. de_name (dir_entry_at buf i) ! 0 = 0 \<or> de_name (dir_entry_at buf i) ! 0 = 0xE5) [0..<16]"

lemma fat_slot_induct [consumes 1, case_names stop error hit more]:
  assumes "fat_slot_loop L d dir s = Some y"
    and "\<And>s. fat_dir_sector_lba L d dir s = Some 0 \<Longrightarrow> P s Slot_none"
    and "\<And>s lba. fat_dir_sector_lba L d dir s = Some lba \<Longrightarrow> lba \<noteq> 0 \<Longrightarrow> ata_read_sector d lba = None \<Longrightarrow> P s Slot_error"
    and "\<And>s lba buf i. fat_dir_sector_lba L d dir s = Some lba \<Longrightarrow> lba \<noteq> 0 \<Longrightarrow> ata_read_sector d lba = Some buf \<Longrightarrow>
      slot_scan buf = Some i \<Longrightarrow> P s (Slot_at lba (of_nat i))"
    and "\<And>s lba buf y. fat_dir_sector_lba L d dir s = Some lba \<Longrightarrow> lba \<noteq> 0 \<Longrightarrow> ata_read_sector d lba = Some buf \<Longrightarrow>
      slot_scan buf = None \<Longrightarrow> P (s + 1) y \<Longrightarrow> P s y"
  shows "P s y"
proof -
  have "L = L \<and> d = d \<and> dir = dir \<longrightarrow> P s y"
    by (rule fat_slot_loop.raw_induct [where P = "\<lambda>L' d' dir' s y. L' = L \<and> d' = d \<and> dir' = dir \<longrightarrow> P s y", OF _ assms(1)])
       (auto split: option.splits if_splits intro: assms(2-5))
  then show ?thesis by simp
qed

lemma ata_read_Some: "ata_read_sector d lba = Some buf \<longleftrightarrow> \<not> rd_bad d (ata_lba28 lba) \<and> buf = sectors d (ata_lba28 lba)"
  by (auto simp: ata_read_sector_def)

lemma fat_slot_loop_found:
  assumes "fat_slot_loop L d dir s = Some y" and "y = Slot_at lba i"
  shows "\<not> rd_bad d (ata_lba28 lba) \<and>
    (\<exists>k < 16. i = of_nat k \<and> free_entry (dir_entry_at (sectors d (ata_lba28 lba)) k))"
  using assms
  by (induction rule: fat_slot_induct) (auto simp: ata_read_Some free_entry_def dest!: find_upt_first)

lemma fat_slot_loop_insert:
  assumes "fat_slot_loop L d dir s = Some y" and "y = Slot_at lba (of_nat i)" and "i < 16"
    and free: "free_entry (dir_entry_at (sectors d (ata_lba28 lba)) i)"
    and "fat_find_loop L d dir c n83 lfn s = Some (None, lfn')"
    and dirsame: "\<And>s. fat_dir_sector_lba L (put_entry d lba i n83 attr cl) dir s = fat_dir_sector_lba L d dir s"
    and wf: "disk_wf d" and n83: "length n83 = 11"
    and nm: "n83 ! 0 \<noteq> 0" "n83 ! 0 \<noteq> 0xE5" and attr: "attr \<noteq> FAT_ATTR_LONG_NAME" "attr AND FAT_ATTR_VOLUME_LABEL = 0"
  shows "\<exists>l. fat_find_loop L (put_entry d lba i n83 attr cl) dir c n83 lfn s =
    Some (Some (lba, of_nat i, fresh_entry n83 attr cl), l)"
  using assms(1,2,5)
proof (induction arbitrary: lfn rule: fat_slot_induct)
  case (hit s x buf k)
  let ?d = "put_entry d lba i n83 attr cl"
  have x: "x = lba" and buf: "buf = sectors d (ata_lba28 lba)" using hit by (auto simp: ata_read_Some)
  have kf: "k < 16" "\<forall>j < k. \<not> free_entry (dir_entry_at buf j)" using find_upt_first [OF hit(4)] by (auto simp: free_entry_def)
  have "k = i" using hit(5) kf(1) assms(3) of_nat_u32_inj [of k i] by simp
  have "\<exists>r. find_in_sector c n83 x buf [0..<16] lfn = Some r \<and> (\<forall>h l. r \<noteq> Scan_hit h l)"
    using hit(6) hit(1-3) by (subst (asm) fat_find_loop.simps) (auto split: option.splits scan.splits)
  then have "\<exists>l. find_in_sector c n83 x (fat_fill_entry buf i n83 attr cl) [0..<16] lfn =
      Some (Scan_hit (x, of_nat i, fresh_entry n83 attr cl) l)"
    using wf kf \<open>k = i\<close> n83 nm attr assms(3) by (auto intro!: find_in_sector_insert simp: disk_wf_def buf)
  moreover have "ata_read_sector ?d x = Some (fat_fill_entry buf i n83 attr cl)"
    using hit(3) by (simp add: ata_read_Some put_entry_def x)
  ultimately show ?case using hit(1,2) dirsame x by (subst fat_find_loop.simps) auto
next
  case (more s x buf y)
  let ?d = "put_entry d lba i n83 attr cl"
  have nf: "\<forall>j < 16. \<not> free_entry (dir_entry_at buf j)" using more(4) by (auto simp: find_None_iff free_entry_def)
  have ne: "ata_lba28 x \<noteq> ata_lba28 lba" using nf free assms(3) more(3) by (auto simp: ata_read_Some)
  have ns: "find_in_sector c n83 x buf [0..<16] lfn \<noteq> Some (Scan_stop l)" for l
    using nf by (intro find_in_sector_no_stop) auto
  obtain l where l: "find_in_sector c n83 x buf [0..<16] lfn = Some (Scan_more () l)"
      "fat_find_loop L d dir c n83 l (s + 1) = Some (None, lfn')"
    using more(7) more(1-3) by (subst (asm) fat_find_loop.simps) (auto simp: ns split: option.splits scan.splits)
  have "ata_read_sector ?d x = Some buf" using more(3) ne by (simp add: ata_read_Some put_entry_def)
  then show ?case using more(5) [OF more(6) l(2)] more(1,2) l(1) dirsame by (subst fat_find_loop.simps) auto
qed simp_all

section \<open>Creating a file in the root directory\<close>

text \<open>A file name without directories that the driver does not cut off.\<close>

definition plain_name :: "bytes \<Rightarrow> bool" where
  "plain_name nm \<longleftrightarrow> nm \<noteq> [] \<and> length nm \<le> 47 \<and> 0x2F \<notin> set nm"

lemma fat_resolve_parent_root:
  assumes "plain_name nm"
  shows "fat_resolve_parent L d lfn nm = Some (Some (fat_root_dir_ref, nm), lfn)"
proof -
  have t: "takeWhile (\<lambda>c. c \<noteq> 0x2F) nm = nm" using assms by (auto simp: plain_name_def takeWhile_eq_all_conv)
  have "fat_next_path_component nm FAT_MAX_COMPONENT = (length nm, nm, [])"
    using assms by (simp add: fat_next_path_component_def Let_def FAT_MAX_COMPONENT_def plain_name_def t)
  then show ?thesis
    using assms unfolding fat_resolve_parent_def
    by (subst fat_resolve_parent_from.simps) (simp add: plain_name_def fat_copy_string_def FAT_MAX_COMPONENT_def)
qed

lemma fat_find_entry_root:
  assumes "plain_name nm"
  shows "fat_find_entry L d lfn nm =
    map_option (\<lambda>(r, l). (map_option (\<lambda>(_, _, e). e) r, l)) (fat_find_entry_in_dir L d lfn fat_root_dir_ref nm)"
  by (auto simp: fat_find_entry_def fat_find_entry_location_def fat_resolve_parent_root [OF assms] split: option.split)

lemma free_slot_Some: "free_slot ofs = Some i \<Longrightarrow> i < 8 \<and> \<not> in_use (ofs ! i) \<and> (\<forall>j < i. in_use (ofs ! j))"
  by (auto simp: free_slot_def MAX_OPEN_FILES_def dest: find_upt_first)

lemma open_write_fd_ok:
  assumes "open_write_fd fs t sec off s = (fd, fs')" and "fd \<noteq> - 1"
  shows "\<exists>i. free_slot (open_files fs) = Some i \<and> fd = int i + 3 \<and>
    fs' = fs\<lparr>open_files := (open_files fs)[i := \<lparr>in_use = True, file_size = start_file_size s, current_cluster = start_cluster s,
              of_first_cluster = file_first_cluster s, cluster_offset = start_cluster_offset s,
              file_offset = start_file_offset s, writable = True, dir_entry_sector = sec,
              dir_entry_offset = off, owner_task_id = t\<rparr>]\<rparr>"
  using assms by (auto simp: open_write_fd_def FAT_FD_BASE_def split: option.splits)

lemma fat_create_steps:
  assumes nm: "plain_name nm" and o: "fat_open_write fs t nm FAT_OPEN_CREATE = Some (fd, fs')" "fd \<noteq> - 1"
  shows "\<exists>lfn lba k d. fat_find_entry_in_dir (fs_lay fs) (fs_disk fs) (fs_lfn fs) fat_root_dir_ref nm = Some (None, lfn) \<and>
    fat_slot_loop (fs_lay fs) (fs_disk fs) fat_root_dir_ref 0 = Some (Slot_at lba (of_nat k)) \<and> k < 16 \<and>
    free_entry (dir_entry_at (sectors (fs_disk fs) (ata_lba28 lba)) k) \<and>
    d = put_entry (fs_disk fs) lba k (fat_name_to_83 nm) 0 0 \<and>
    open_write_fd (fs\<lparr>fs_lfn := lfn, fs_disk := d\<rparr>) t lba (of_nat k) start0 = (fd, fs')"
proof -
  let ?L = "fs_lay fs" and ?d = "fs_disk fs"
  have root: "fat_resolve_parent ?L ?d (fs_lfn fs) nm = Some (Some (fat_root_dir_ref, nm), fs_lfn fs)"
    using nm by (rule fat_resolve_parent_root)
  obtain lfn where f: "fat_find_entry_in_dir ?L ?d (fs_lfn fs) fat_root_dir_ref nm = Some (None, lfn)"
    using o by (auto simp: fat_open_write_def Let_def root FAT_OPEN_CREATE_def split: option.splits if_splits prod.splits)
  have al: "fat_alloc_dir_entry_in_dir ?L ?d fat_root_dir_ref =
      map_option (\<lambda>r. case r of Slot_at lba i \<Rightarrow> (Some (lba, i), ?d) | _ \<Rightarrow> (None, ?d)) (fat_slot_loop ?L ?d fat_root_dir_ref 0)"
    by (auto simp: fat_alloc_dir_entry_in_dir_def fat_root_dir_ref_def split: option.split slot.split)
  obtain lba off where sl: "fat_slot_loop ?L ?d fat_root_dir_ref 0 = Some (Slot_at lba off)"
    using o by (auto simp: fat_open_write_def Let_def root f al split: option.splits if_splits slot.splits)
  from fat_slot_loop_found [OF sl refl] obtain k where k: "k < 16" "off = of_nat k" "\<not> rd_bad ?d (ata_lba28 lba)"
    "free_entry (dir_entry_at (sectors ?d (ata_lba28 lba)) k)" by auto
  have uk: "unat (of_nat k :: u32) = k" using k(1) by (simp add: unat_of_nat_u32)
  have rd: "ata_read_sector ?d lba = Some (sectors ?d (ata_lba28 lba))" using k(3) by (simp add: ata_read_Some)
  have w: "ata_write_sector ?d lba (fat_fill_entry (sectors ?d (ata_lba28 lba)) k (fat_name_to_83 nm) 0 0) =
      (0, put_entry ?d lba k (fat_name_to_83 nm) 0 0)"
    using o by (auto simp: fat_open_write_def Let_def root f al sl k(2) uk rd open_write_entry_def open_write_new_def
        ata_write_sector_def put_entry_def split: option.splits if_splits)
  have "open_write_fd (fs\<lparr>fs_lfn := lfn, fs_disk := put_entry ?d lba k (fat_name_to_83 nm) 0 0\<rparr>) t lba (of_nat k) start0 = (fd, fs')"
    using o by (auto simp: fat_open_write_def Let_def root f al sl k(2) uk rd open_write_entry_def open_write_new_def w
        split: if_splits)
  then show ?thesis using f sl k by blast
qed


text \<open>An empty volume with every descriptor free.\<close>

definition fs0 :: fat_fs where
  "fs0 = \<lparr>fs_disk = disk0, fs_lay = vol0, fs_lfn = lfn0, open_files = replicate 8
     \<lparr>in_use = False, file_size = 0, current_cluster = 0, of_first_cluster = 0, cluster_offset = 0, file_offset = 0,
      writable = False, dir_entry_sector = 0, dir_entry_offset = 0, owner_task_id = 0\<rparr>\<rparr>"

lemma disk0_read: "ata_read_sector disk0 lba = Some (replicate 512 0)"
  by (simp add: ata_read_sector_def disk0_def)

lemma zero_entry: "de_name (dir_entry_at (replicate 512 0) 0) ! 0 = 0"
  by (simp add: dir_entry_at_def Let_def)

lemma upt16: "[0..<16] = 0 # [1..<16]"
  by (simp add: upt_conv_Cons)

lemma fs0_root: "fat_dir_sector_lba vol0 d fat_root_dir_ref 0 = Some 3"
  by (simp add: fat_dir_sector_lba_def fat_root_dir_ref_def vol0_def)

lemma fs0_search: "fat_find_entry_in_dir vol0 disk0 lfn fat_root_dir_ref nm = Some (None, lfn_reset lfn)"
  unfolding fat_find_entry_in_dir_def
  by (subst fat_find_loop.simps) (simp add: fs0_root disk0_read upt16 zero_entry Let_def)

lemma fs0_slot: "fat_slot_loop vol0 disk0 fat_root_dir_ref 0 = Some (Slot_at 3 0)"
  by (subst fat_slot_loop.simps) (simp add: fs0_root disk0_read upt16 zero_entry)

lemma fs0_create:
  assumes "plain_name nm"
  shows "\<exists>fs'. fat_open_write fs0 1 nm FAT_OPEN_CREATE = Some (3, fs')"
  using assms
  by (simp add: fat_open_write_def fs0_def fat_resolve_parent_root fs0_search fat_alloc_dir_entry_in_dir_def fs0_slot disk0_read
      open_write_entry_def open_write_new_def ata_write_sector_def open_write_fd_def free_slot_def MAX_OPEN_FILES_def
      FAT_FD_BASE_def upt_rec)
     (simp add: vol0_def disk0_def)


end
