(* ===== verification/Fat_Read.thy ===== *)
theory Fat_Read
  imports Fat_Dir_Spec
begin

unbundle bit_operations_syntax

text \<open>
  Reading and seeking are correct: the abstract file is the list of bytes that the sectors of
  its cluster chain hold, cut at the file's size, together with a position; \<open>fat_read\<close> returns
  the bytes at the position and moves it, \<open>fat_seek\<close> sets it, \<open>fat_read_file\<close> returns the whole
  contents.
\<close>

section \<open>The contents of a chain\<close>

abbreviation spc :: "fat_layout \<Rightarrow> nat" where
  "spc L \<equiv> unat (sectors_per_cluster L)"

definition csz :: "fat_layout \<Rightarrow> nat" where
  "csz L = 512 * spc L"

text \<open>The sectors of a chain, in the order of the file's bytes, and the bytes in them.\<close>

definition chain_lbas :: "fat_layout \<Rightarrow> u16 list \<Rightarrow> u32 list" where
  "chain_lbas L cs = map (\<lambda>i. cluster_lba L (cs ! (i div spc L)) + of_nat (i mod spc L)) [0..<length cs * spc L]"

definition chain_data :: "fat_layout \<Rightarrow> ata_disk \<Rightarrow> u16 list \<Rightarrow> bytes" where
  "chain_data L d cs = concat (map (sectors d) (chain_lbas L cs))"

definition file_contents :: "fat_layout \<Rightarrow> ata_disk \<Rightarrow> u16 list \<Rightarrow> nat \<Rightarrow> bytes" where
  "file_contents L d cs n = take n (chain_data L d cs)"

text \<open>A file of \<open>n\<close> bytes whose clusters are \<open>cs\<close>: the chain is there, long enough, and readable.\<close>

definition file_ok :: "fat_layout \<Rightarrow> ata_disk \<Rightarrow> u16 \<Rightarrow> u16 list \<Rightarrow> nat \<Rightarrow> bool" where
  "file_ok L d c cs n \<longleftrightarrow> lay_wf L \<and> disk_wf d \<and> 0 < spc L \<and> cchain (fat_get_next_cluster L d) c cs \<and>
     n \<le> length cs * csz L \<and> (\<forall>l \<in> set (chain_lbas L cs). \<not> rd_bad d l)"

text \<open>A descriptor stands at its file offset: in the cluster and at the offset that this means.\<close>

definition fpos_ok :: "fat_layout \<Rightarrow> u16 list \<Rightarrow> open_file \<Rightarrow> bool" where
  "fpos_ok L cs f \<longleftrightarrow> file_offset f \<le> file_size f \<and>
     (file_offset f < file_size f \<longrightarrow>
        current_cluster f = cs ! (unat (file_offset f) div csz L) \<and>
        unat (cluster_offset f) = unat (file_offset f) mod csz L)"

section \<open>Sector arithmetic\<close>

lemma csz_word: "unat (cluster_size L) = csz L"
  using unat_less_u8 [of "sectors_per_cluster L"]
  by (simp add: cluster_size_def csz_def unat_mult_u32 unat_ucast_u8_u32)

lemma csz_bound: "csz L \<le> 130560"
  using unat_less_u8 [of "sectors_per_cluster L"] by (simp add: csz_def)

lemma unat_cluster_lba:
  assumes "lay_wf L" and "valid_cluster c" and "s < spc L"
  shows "unat (cluster_lba L c + of_nat s) = unat (data_start_lba L) + (unat c - 2) * spc L + s"
    and "unat (cluster_lba L c + of_nat s) < 268435456"
proof -
  have c: "2 \<le> unat c" "unat c < 65536" using assms(2) unat_less_u16 [of c]
    by (auto simp: valid_cluster_def u16_less_nat)
  have m: "(unat c - 2) * spc L \<le> 65533 * spc L" using c by (intro mult_right_mono) auto
  have k: "(unat c - 2) * spc L + s < 65536 * spc L" using m assms(3) by linarith
  have sub: "unat (ucast c - 2 :: u32) = unat c - 2" using c by (simp add: unat_sub_u32 unat_ucast_u16_u32)
  have p: "unat ((ucast c - 2) * ucast (sectors_per_cluster L) :: u32) = (unat c - 2) * spc L"
  proof -
    have "unat (ucast c - 2 :: u32) * unat (ucast (sectors_per_cluster L) :: u32) < 4294967296"
      unfolding sub unat_ucast_u8_u32 using m unat_less_u8 [of "sectors_per_cluster L"] by linarith
    then show ?thesis by (simp only: unat_mult_u32 sub unat_ucast_u8_u32)
  qed
  have s: "unat (of_nat s :: u32) = s" using assms(3) unat_less_u8 [of "sectors_per_cluster L"] by (simp add: unat_of_nat_u32)
  have d: "unat (data_start_lba L) + 65536 * spc L < 268435456" by (rule lay_wf_regions(3) [OF assms(1)])
  have a: "unat (cluster_lba L c) = unat (data_start_lba L) + (unat c - 2) * spc L"
    unfolding cluster_lba_def using p d k by (subst unat_add_u32) auto
  show u: "unat (cluster_lba L c + of_nat s) = unat (data_start_lba L) + (unat c - 2) * spc L + s"
    using a s d k by (subst unat_add_u32) auto
  show "unat (cluster_lba L c + of_nat s) < 268435456" using u d k by linarith
qed

text \<open>Where a byte offset lands: sector \<open>p div 512\<close> of the chain, in cluster \<open>p div csz L\<close>.\<close>

lemma offset_div:
  assumes "0 < spc L"
  shows "p div csz L = p div 512 div spc L" and "p mod csz L div 512 = p div 512 mod spc L"
    and "p mod csz L mod 512 = p mod 512"
  using assms by (simp_all add: csz_def div_mult2_eq mod_mult2_eq)

lemma offset_step:
  assumes "0 < spc L" and "t \<le> 512 - p mod 512"
  shows "csz L \<le> p mod csz L + t \<Longrightarrow> (p + t) div csz L = Suc (p div csz L) \<and> (p + t) mod csz L = 0"
    and "\<not> csz L \<le> p mod csz L + t \<Longrightarrow> (p + t) div csz L = p div csz L \<and> (p + t) mod csz L = p mod csz L + t"
proof -
  have c: "0 < csz L" using assms(1) by (simp add: csz_def)
  have "p div 512 mod spc L < spc L" using assms(1) by simp
  then have "512 * (p div 512 mod spc L) + 512 \<le> csz L" unfolding csz_def by linarith
  then have le: "p mod csz L + t \<le> csz L" using assms(2) unfolding csz_def mod_mult2_eq by linarith
  have e: "p + t = p div csz L * csz L + (p mod csz L + t)" by (metis add.assoc div_mult_mod_eq)
  show "(p + t) div csz L = Suc (p div csz L) \<and> (p + t) mod csz L = 0" if "csz L \<le> p mod csz L + t"
  proof -
    have "p + t = csz L * Suc (p div csz L)" using that le e by simp
    then show ?thesis using c by simp
  qed
  show "(p + t) div csz L = p div csz L \<and> (p + t) mod csz L = p mod csz L + t" if "\<not> csz L \<le> p mod csz L + t"
    using e that c by (metis add.commute div_mult_self3 div_less add.right_neutral mod_mult_self3 mod_less not_le less_not_refl)
qed

lemma length_chain_lbas [simp]: "length (chain_lbas L cs) = length cs * spc L"
  by (simp add: chain_lbas_def)

lemma chain_lbas_nth: "i < length cs * spc L \<Longrightarrow>
    chain_lbas L cs ! i = cluster_lba L (cs ! (i div spc L)) + of_nat (i mod spc L)"
  by (simp add: chain_lbas_def)

lemma length_concat_const: "\<forall>x \<in> set xs. length x = n \<Longrightarrow> length (concat xs) = length xs * n"
  by (induction xs) auto

lemma length_chain_data: "disk_wf d \<Longrightarrow> length (chain_data L d cs) = length cs * csz L"
  by (subst chain_data_def, subst length_concat_const [where n = 512]) (auto simp: disk_wf_def csz_def)

lemma take_drop_concat:
  "\<forall>x \<in> set xs. length x = n \<Longrightarrow> q < length xs \<Longrightarrow> r + t \<le> n \<Longrightarrow>
   take t (drop (q * n + r) (concat xs)) = take t (drop r (xs ! q))"
proof (induction xs arbitrary: q)
  case (Cons x xs)
  then show ?case
  proof (cases q)
    case (Suc q')
    then have "drop (q * n + r) (concat (x # xs)) = drop (q' * n + r) (concat xs)" using Cons.prems by simp
    then show ?thesis using Suc Cons by simp
  qed simp
qed simp

lemma chain_data_sector:
  assumes "disk_wf d" and "p < length cs * csz L" and "0 < spc L" and "t \<le> 512 - p mod 512"
  shows "take t (drop p (chain_data L d cs)) =
    take t (drop (p mod 512) (sectors d (chain_lbas L cs ! (p div 512))))"
proof -
  have q: "p div 512 < length (map (sectors d) (chain_lbas L cs))"
    using assms(2) by (simp add: csz_def less_mult_imp_div_less algebra_simps)
  have "p mod 512 < 512" by simp
  then have t: "p mod 512 + t \<le> 512" using assms(4) by linarith
  have "take t (drop (p div 512 * 512 + p mod 512) (chain_data L d cs)) =
      take t (drop (p mod 512) (map (sectors d) (chain_lbas L cs) ! (p div 512)))"
    unfolding chain_data_def by (rule take_drop_concat [OF _ q t]) (use assms(1) in \<open>auto simp: disk_wf_def\<close>)
  then show ?thesis using q by (simp only: div_mult_mod_eq nth_map length_map)
qed

lemma cchain_nth_next: "cchain nx c cs \<Longrightarrow> Suc i < length cs \<Longrightarrow> nx (cs ! i) = cs ! Suc i"
proof (induction nx c cs arbitrary: i rule: cchain.induct)
  case (2 nx c x xs)
  then show ?case by (cases xs; cases i) auto
qed simp

section \<open>Reading\<close>

text \<open>The sector of the byte at offset \<open>p\<close>, as a descriptor that stands there computes it.\<close>

lemma file_sector:
  assumes ok: "file_ok L d c cs n" and p: "p < n"
    and pos: "cl = cs ! (p div csz L)" "unat off = p mod csz L"
  shows "valid_cluster cl"
    and "ata_read_sector d (cluster_lba L cl + off div 512) = Some (sectors d (chain_lbas L cs ! (p div 512)))"
    and "cluster_lba L cl + off div 512 = chain_lbas L cs ! (p div 512)"
proof -
  have s: "0 < spc L" and wf: "lay_wf L" and le: "p < length cs * csz L"
    using ok p by (auto simp: file_ok_def)
  then have "p div csz L < length cs" by (simp add: less_mult_imp_div_less)
  then show v: "valid_cluster cl" using ok pos(1) cchain_valid by (metis file_ok_def nth_mem)
  have q: "p div 512 < length cs * spc L"
    using le by (simp add: csz_def less_mult_imp_div_less algebra_simps)
  have o: "off div 512 = of_nat (p div 512 mod spc L)"
    by (rule word_unat_eq_iff [THEN iffD2])
       (use unat_less_u8 [of "sectors_per_cluster L"] s in
         \<open>simp add: unat_div pos(2) offset_div [OF s] unat_of_nat_u32 order.strict_trans [OF mod_less_divisor]\<close>)
  show e: "cluster_lba L cl + off div 512 = chain_lbas L cs ! (p div 512)"
    by (simp add: chain_lbas_nth [OF q] o pos(1) offset_div(1) [OF s])
  have "unat (cluster_lba L cl + of_nat (p div 512 mod spc L)) < 268435456"
    by (rule unat_cluster_lba(2) [OF wf v]) (use s in simp)
  then have "ata_lba28 (chain_lbas L cs ! (p div 512)) = chain_lbas L cs ! (p div 512)" by (simp add: e [symmetric] o)
  moreover have "\<not> rd_bad d (chain_lbas L cs ! (p div 512))" using ok q by (simp add: file_ok_def)
  ultimately show "ata_read_sector d (cluster_lba L cl + off div 512) = Some (sectors d (chain_lbas L cs ! (p div 512)))"
    by (simp add: e ata_read_sector_def)
qed

text \<open>One round moves the position over \<open>t\<close> bytes, into the next cluster at a boundary.\<close>

lemma fpos_ok_advance:
  assumes ok: "file_ok L d c cs (unat (file_size f))" and pos: "fpos_ok L cs f"
    and lt: "file_offset f < file_size f"
    and t: "unat t \<le> 512 - unat (file_offset f) mod 512" "unat (file_offset f) + unat t \<le> unat (file_size f)"
  shows "fpos_ok L cs
    (if cluster_size L \<le> cluster_offset f + t
     then f\<lparr>file_offset := file_offset f + t, current_cluster := fat_get_next_cluster L d (current_cluster f), cluster_offset := 0\<rparr>
     else f\<lparr>file_offset := file_offset f + t, cluster_offset := cluster_offset f + t\<rparr>)"
proof -
  let ?p = "unat (file_offset f)"
  have s: "0 < spc L" using ok by (simp add: file_ok_def)
  have cur: "current_cluster f = cs ! (?p div csz L)" "unat (cluster_offset f) = ?p mod csz L"
    using pos lt by (simp_all add: fpos_ok_def)
  have po: "unat (file_offset f + t) = ?p + unat t" using t(2) unat_less_u32 [of "file_size f"] by (intro unat_add_u32) linarith
  have "?p mod csz L < csz L" using s by (simp add: csz_def)
  then have co: "unat (cluster_offset f + t) = ?p mod csz L + unat t"
    using cur(2) t(1) csz_bound [of L] by (subst unat_add_u32) auto
  note st = offset_step [OF s t(1)]
  show ?thesis
  proof (cases "cluster_size L \<le> cluster_offset f + t")
    case True
    then have b: "csz L \<le> ?p mod csz L + unat t" by (simp add: word_le_nat_alt csz_word co)
    have "fat_get_next_cluster L d (current_cluster f) = cs ! Suc (?p div csz L)" if "?p + unat t < unat (file_size f)"
    proof -
      have "?p + unat t < length cs * csz L" using that ok by (simp add: file_ok_def)
      then have "(?p + unat t) div csz L < length cs" by (simp add: less_mult_imp_div_less)
      then have "Suc (?p div csz L) < length cs" using st(1) [OF b] by simp
      then show ?thesis unfolding cur(1) using ok by (intro cchain_nth_next [of _ c]) (auto simp: file_ok_def)
    qed
    then show ?thesis using True st(1) [OF b] t(2) by (simp add: fpos_ok_def word_less_nat_alt word_le_nat_alt po)
  next
    case False
    then have b: "\<not> csz L \<le> ?p mod csz L + unat t" by (simp add: word_le_nat_alt csz_word co)
    then show ?thesis using False st(2) [OF b] t(2) cur(1) by (simp add: fpos_ok_def word_less_nat_alt word_le_nat_alt po co)
  qed
qed

lemma take_drop_split: "a \<le> n \<Longrightarrow> take a (drop p xs) @ take (n - a) (drop (p + a) xs) = take n (drop p xs)"
  by (metis add.commute drop_drop le_add_diff_inverse take_add)

text \<open>The bytes that a read of \<open>len\<close> at the descriptor's position returns.\<close>

definition read_amount :: "open_file \<Rightarrow> u32 \<Rightarrow> nat" where
  "read_amount f len = min (unat len) (unat (file_size f) - unat (file_offset f))"

lemma fat_read_loop_spec:
  assumes "file_ok L d c cs (unat (file_size f))" and "fpos_ok L cs f" and "b \<le> len"
  shows "\<exists>f'. fat_read_loop L d len f b out =
      (b + of_nat (read_amount f (len - b)),
       out @ take (read_amount f (len - b)) (drop (unat (file_offset f)) (chain_data L d cs)), f') \<and>
    fpos_ok L cs f' \<and> file_offset f' = file_offset f + of_nat (read_amount f (len - b)) \<and>
    (\<exists>fo cc co. f' = f\<lparr>file_offset := fo, current_cluster := cc, cluster_offset := co\<rparr>)"
  using assms
proof (induction "unat len - unat b" arbitrary: b f out rule: less_induct)
  case less
  note ok = less.prems(1) and pos = less.prems(2) and bl = less.prems(3)
  show ?case
  proof (cases "b < len \<and> file_offset f < file_size f")
    case False
    then have "b = len \<or> \<not> file_offset f < file_size f" using bl by auto
    then have "read_amount f (len - b) = 0" by (auto simp: read_amount_def word_less_nat_alt)
    moreover have "fat_read_loop L d len f b out = (b, out, f)"
      using False by (subst fat_read_loop.simps, subst if_not_P) auto
    moreover have "\<exists>fo cc co. f = f\<lparr>file_offset := fo, current_cluster := cc, cluster_offset := co\<rparr>"
      by (intro exI [of _ "file_offset f"] exI [of _ "current_cluster f"] exI [of _ "cluster_offset f"]) simp
    ultimately show ?thesis using pos by (intro exI [of _ f]) simp
  next
    case True
    let ?p = "unat (file_offset f)"
    have p: "?p < unat (file_size f)" using True by (simp add: word_less_nat_alt)
    have cur: "current_cluster f = cs ! (?p div csz L)" "unat (cluster_offset f) = ?p mod csz L"
      using pos True by (simp_all add: fpos_ok_def)
    note fsec = file_sector [OF ok p cur]
    have s: "0 < spc L" and dw: "disk_wf d" and lt: "?p < length cs * csz L" using ok p by (auto simp: file_ok_def)
    have om: "unat (cluster_offset f mod 512) = ?p mod 512" by (simp add: unat_mod cur(2) offset_div(3) [OF s])
    define t1 where "t1 = (if file_size f - file_offset f < 512 - cluster_offset f mod 512 then file_size f - file_offset f
        else 512 - cluster_offset f mod 512)"
    define t where "t = (if len - b < t1 then len - b else t1)"
    have u: "unat (len - b) = unat len - unat b" "unat (file_size f - file_offset f) = unat (file_size f) - ?p"
      "unat (512 - cluster_offset f mod 512) = 512 - ?p mod 512"
      using True by (simp_all add: unat_sub_u32 word_less_nat_alt unat_sector_room cur(2) offset_div(3) [OF s])
    have ut: "unat t = min (unat len - unat b) (min (unat (file_size f) - ?p) (512 - ?p mod 512))"
      unfolding t_def t1_def using u by (simp add: word_less_nat_alt min_def)
    have t: "0 < unat t" "unat t \<le> 512 - ?p mod 512" "?p + unat t \<le> unat (file_size f)" "unat b + unat t \<le> unat len"
    proof -
      have m: "?p mod 512 < 512" and bl: "unat b < unat len" using True by (simp_all add: word_less_nat_alt)
      show "0 < unat t" "unat t \<le> 512 - ?p mod 512" using ut m bl p by linarith+
      show "?p + unat t \<le> unat (file_size f)" "unat b + unat t \<le> unat len" using ut bl p by linarith+
    qed
    have bt: "unat (b + t) = unat b + unat t" using t(4) unat_less_u32 [of len] by (intro unat_add_u32) linarith
    define f2 where "f2 = (if cluster_size L \<le> cluster_offset f + t
        then f\<lparr>file_offset := file_offset f + t, current_cluster := fat_get_next_cluster L d (current_cluster f), cluster_offset := 0\<rparr>
        else f\<lparr>file_offset := file_offset f + t, cluster_offset := cluster_offset f + t\<rparr>)"
    have pos2: "fpos_ok L cs f2" unfolding f2_def by (rule fpos_ok_advance [OF ok pos _ t(2,3)]) (use True in simp)
    have f2: "file_offset f2 = file_offset f + t" "file_size f2 = file_size f" by (simp_all add: f2_def)
    have po: "unat (file_offset f2) = ?p + unat t"
      unfolding f2 using t(3) unat_less_u32 [of "file_size f"] by (intro unat_add_u32) linarith
    let ?chunk = "take (unat t) (drop (?p mod 512) (sectors d (chain_lbas L cs ! (?p div 512))))"
    have chunk: "?chunk = take (unat t) (drop ?p (chain_data L d cs))"
      by (rule chain_data_sector [OF dw lt s t(2), symmetric])
    have step: "fat_read_loop L d len f b out = fat_read_loop L d len f2 (b + t) (out @ ?chunk)"
      using True fsec(1)
      by (subst fat_read_loop.simps)
         (simp only: simp_thms if_True Let_def fsec(2) option.case om t1_def [symmetric] t_def [symmetric] f2_def
            open_file.simps split: if_split, simp)
    have am: "read_amount f (len - b) = unat t + read_amount f2 (len - (b + t))"
    proof -
      have "unat (len - (b + t)) = unat len - (unat b + unat t)" using t(4) bt by (simp add: unat_sub_u32)
      then show ?thesis unfolding read_amount_def po f2(2) u(1) using t(3,4) by linarith
    qed
    obtain f' where f': "fat_read_loop L d len f2 (b + t) (out @ ?chunk) =
      (b + t + of_nat (read_amount f2 (len - (b + t))),
       (out @ ?chunk) @ take (read_amount f2 (len - (b + t))) (drop (unat (file_offset f2)) (chain_data L d cs)), f')"
      "fpos_ok L cs f'" "file_offset f' = file_offset f2 + of_nat (read_amount f2 (len - (b + t)))"
      "\<exists>fo cc co. f' = f2\<lparr>file_offset := fo, current_cluster := cc, cluster_offset := co\<rparr>"
    proof -
      have "unat len - unat (b + t) < unat len - unat b" "file_ok L d c cs (unat (file_size f2))" "b + t \<le> len"
        using t bt ok f2 by (auto simp: word_le_nat_alt)
      from less.hyps [OF this(1,2) pos2 this(3), of "out @ ?chunk"] show thesis using that by blast
    qed
    have out: "?chunk @ take (read_amount f2 (len - (b + t))) (drop (unat (file_offset f2)) (chain_data L d cs)) =
        take (read_amount f (len - b)) (drop ?p (chain_data L d cs))"
      unfolding chunk po am using take_drop_split [of "unat t" "unat t + read_amount f2 (len - (b + t))" ?p "chain_data L d cs"] by simp
    have shape: "\<exists>fo cc co. f' = f\<lparr>file_offset := fo, current_cluster := cc, cluster_offset := co\<rparr>"
      using f'(4) by (auto simp: f2_def split: if_splits)
    show ?thesis
      unfolding step f'(1) using f'(2,3) shape out by (simp add: am f2 add.assoc)
  qed
qed

section \<open>Seeking\<close>

lemma fat_seek_walk_spec:
  assumes "cchain (fat_get_next_cluster L d) c cs" and "0 < spc L" and "unat off \<le> length cs * csz L"
  shows "fat_seek_walk L d c off = Some
    (if cs = [] then (c, 0)
     else if unat off < length cs * csz L then (cs ! (unat off div csz L), of_nat (unat off mod csz L))
     else (last cs, cluster_size L))"
  using assms
proof (induction cs arbitrary: c off)
  case Nil
  then show ?case by (subst fat_seek_walk.simps) (auto simp: word_le_nat_alt csz_word csz_def unat_eq_zero)
next
  case (Cons x cs)
  have c: "c = x" "valid_cluster c" "cchain (fat_get_next_cluster L d) (fat_get_next_cluster L d c) cs"
    using Cons.prems(1) by auto
  have z: "0 < csz L" using Cons.prems(2) by (simp add: csz_def)
  show ?case
  proof (cases "cluster_size L \<le> off")
    case False
    then have "unat off < csz L" by (simp add: word_le_nat_alt csz_word)
    then show ?thesis using False c(1) by (subst fat_seek_walk.simps) (simp add: trans_less_add1)
  next
    case True
    then have le: "csz L \<le> unat off" by (simp add: word_le_nat_alt csz_word)
    have u: "unat (off - cluster_size L) = unat off - csz L" using le by (simp add: unat_sub_u32 csz_word)
    show ?thesis
    proof (cases cs)
      case Nil
      then have "unat off = csz L" "\<not> valid_cluster (fat_get_next_cluster L d c)" using Cons.prems(3) le c(3) by auto
      then show ?thesis using True Nil c(1) by (subst fat_seek_walk.simps) (simp add: Let_def)
    next
      case (Cons y ys)
      then have v: "valid_cluster (fat_get_next_cluster L d c)" using c(3) by simp
      have ih: "fat_seek_walk L d (fat_get_next_cluster L d c) (off - cluster_size L) = Some
        (if unat off - csz L < length cs * csz L then (cs ! ((unat off - csz L) div csz L), of_nat ((unat off - csz L) mod csz L))
         else (last cs, cluster_size L))"
        using Cons.IH [OF c(3) Cons.prems(2), of "off - cluster_size L"] Cons.prems(3) u Cons by simp
      have dv: "unat off div csz L = Suc ((unat off - csz L) div csz L)" "unat off mod csz L = (unat off - csz L) mod csz L"
        using le z by (simp_all add: le_div_geq le_mod_geq)
      show ?thesis
        by (subst fat_seek_walk.simps) (use True v ih dv le Cons in \<open>auto simp: Let_def\<close>)
    qed
  qed
qed

lemma seek_fpos:
  assumes ok: "file_ok L d (of_first_cluster f) cs (unat (file_size f))" and "off \<le> file_size f"
  shows "\<exists>cl co. fat_seek_walk L d (of_first_cluster f) off = Some (cl, co) \<and>
    fpos_ok L cs (f\<lparr>current_cluster := cl, cluster_offset := co, file_offset := off\<rparr>)"
proof -
  have le: "unat off \<le> unat (file_size f)" using assms(2) by (simp add: word_le_nat_alt)
  have sz: "unat (file_size f) \<le> length cs * csz L" and s: "0 < spc L"
    and ch: "cchain (fat_get_next_cluster L d) (of_first_cluster f) cs" using ok by (auto simp: file_ok_def)
  have m: "unat (of_nat (unat off mod csz L) :: u32) = unat off mod csz L"
    using csz_bound [of L] s by (intro unat_of_nat_u32) (simp add: csz_def order.strict_trans1 [OF less_imp_le [OF mod_less_divisor]])
  show ?thesis
    using fat_seek_walk_spec [OF ch s, of off] le sz m assms(2)
    by (auto simp: fpos_ok_def word_less_nat_alt)
qed

section \<open>Reading a whole file\<close>

lemma read_file_sectors_spec:
  assumes ok: "file_ok L d c cs (unat n)" and i: "i < length cs"
  shows "s0 \<le> spc L \<Longrightarrow> b \<le> n \<Longrightarrow> (b < n \<longrightarrow> unat b = i * csz L + 512 * s0) \<Longrightarrow>
    \<exists>b'. read_file_sectors d (cluster_lba L (cs ! i)) n [s0..<spc L] b out =
        (False, b', out @ take (unat b' - unat b) (drop (unat b) (chain_data L d cs))) \<and>
      unat b' = (if b < n then min (unat n) (i * csz L + csz L) else unat b)"
proof (induction "spc L - s0" arbitrary: s0 b out)
  case 0
  then show ?case by (auto simp: csz_def word_less_nat_alt min_def)
next
  case (Suc k)
  then have s0: "s0 < spc L" by simp
  show ?case
  proof (cases "b < n")
    case False
    then show ?thesis using s0 by (simp add: upt_conv_Cons)
  next
    case True
    have ub: "unat b = i * csz L + 512 * s0" "unat b < unat n" using Suc.prems True by (simp_all add: word_less_nat_alt)
    have s: "0 < spc L" and dw: "disk_wf d" and lt: "unat b < length cs * csz L" using ok ub by (auto simp: file_ok_def)
    have sl: "512 * s0 < csz L" "s0 < 256" using s0 unat_less_u8 [of "sectors_per_cluster L"] by (simp_all add: csz_def)
    have dm: "unat b div csz L = i" "unat b mod csz L = 512 * s0" using ub(1) sl by simp_all
    have off: "unat (of_nat (512 * s0) :: u32) = unat b mod csz L" using dm sl by (simp add: unat_of_nat_u32 del: of_nat_mult)
    have "unat (of_nat (512 * s0) div 512 :: u32) = unat (of_nat s0 :: u32)"
      using sl by (simp add: unat_div unat_of_nat_u32 del: of_nat_mult)
    then have os: "(of_nat (512 * s0) div 512 :: u32) = of_nat s0" by (simp only: word_unat_eq_iff)
    have rd: "ata_read_sector d (cluster_lba L (cs ! i) + of_nat s0) = Some (sectors d (chain_lbas L cs ! (unat b div 512)))"
      using file_sector(2) [OF ok ub(2) refl off] by (simp only: dm(1) os)
    have b512: "unat b mod 512 = 0" using ub(1) by (simp add: csz_def)
    define t where "t = (if n - b < 512 then n - b else 512)"
    have ut: "unat t = min (unat n - unat b) 512" using True by (simp add: t_def word_less_nat_alt unat_sub_u32 min_def)
    have bt: "unat (b + t) = unat b + unat t" "b + t \<le> n"
    proof -
      have "t \<le> n - b" by (auto simp: t_def not_less)
      from unat_progress_u32 [OF True this] show "unat (b + t) = unat b + unat t" "b + t \<le> n"
        by (simp_all add: word_le_nat_alt)
    qed
    have chunk: "take (unat t) (sectors d (chain_lbas L cs ! (unat b div 512))) = take (unat t) (drop (unat b) (chain_data L d cs))"
      using chain_data_sector [OF dw lt s, of "unat t"] ut b512 by simp
    have step: "read_file_sectors d (cluster_lba L (cs ! i)) n [s0..<spc L] b out =
        read_file_sectors d (cluster_lba L (cs ! i)) n [Suc s0..<spc L] (b + t) (out @ take (unat t) (drop (unat b) (chain_data L d cs)))"
      using s0 True by (simp add: upt_conv_Cons rd Let_def t_def [symmetric] chunk)
    have nx: "b + t < n \<longrightarrow> unat (b + t) = i * csz L + 512 * Suc s0"
      using ut bt ub by (auto simp: word_less_nat_alt)
    obtain b' where b': "read_file_sectors d (cluster_lba L (cs ! i)) n [Suc s0..<spc L] (b + t) (out @ take (unat t) (drop (unat b) (chain_data L d cs))) =
        (False, b', (out @ take (unat t) (drop (unat b) (chain_data L d cs))) @ take (unat b' - unat (b + t)) (drop (unat (b + t)) (chain_data L d cs)))"
      "unat b' = (if b + t < n then min (unat n) (i * csz L + csz L) else unat (b + t))"
    proof -
      have "k = spc L - Suc s0" "Suc s0 \<le> spc L" using Suc.hyps(2) s0 by auto
      from Suc.hyps(1) [OF this bt(2) nx, of "out @ take (unat t) (drop (unat b) (chain_data L d cs))"]
      show thesis using that by blast
    qed
    have e: "unat b' = min (unat n) (i * csz L + csz L)"
    proof (cases "b + t < n")
      case False
      then have "unat (b + t) = unat n" using bt(2) by (metis order.not_eq_order_implies_strict)
      moreover have "unat (b + t) \<le> i * csz L + csz L" using bt ub ut s0 by (simp add: csz_def)
      ultimately show ?thesis using False b'(2) by simp
    qed (use b'(2) in simp)
    have "512 * s0 + 512 \<le> csz L" using s0 by (simp add: csz_def)
    moreover have "unat t \<le> 512" "unat t \<le> unat n - unat b" using ut by simp_all
    ultimately have "unat b + unat t \<le> unat b'" unfolding e using ub by simp
    then have "take (unat t) (drop (unat b) (chain_data L d cs)) @ take (unat b' - unat (b + t)) (drop (unat (b + t)) (chain_data L d cs)) =
        take (unat b' - unat b) (drop (unat b) (chain_data L d cs))"
      using take_drop_split [of "unat t" "unat b' - unat b" "unat b" "chain_data L d cs"] bt(1) by simp
    then show ?thesis unfolding step b'(1) using e True by simp
  qed
qed

lemma read_file_clusters_spec:
  assumes ok: "file_ok L d c cs (unat n)"
  shows "i \<le> length cs \<Longrightarrow> cchain (fat_get_next_cluster L d) cl (drop i cs) \<Longrightarrow> unat b = min (unat n) (i * csz L) \<Longrightarrow>
    read_file_clusters L d n cl b out = Some (n, out @ take (unat n - unat b) (drop (unat b) (chain_data L d cs)))"
proof (induction "length cs - i" arbitrary: i cl b out)
  case 0
  then have "unat b = unat n" using ok by (simp add: file_ok_def)
  then have "b = n" by (simp only: word_unat_eq_iff)
  then show ?case by (subst read_file_clusters.simps) simp
next
  case (Suc k)
  then have i: "i < length cs" by simp
  then have dr: "drop i cs = cs ! i # drop (Suc i) cs" by (simp add: Cons_nth_drop_Suc)
  then have cl: "cl = cs ! i" "valid_cluster cl" "cchain (fat_get_next_cluster L d) (fat_get_next_cluster L d cl) (drop (Suc i) cs)"
    using Suc.prems(2) by auto
  show ?case
  proof (cases "b < n")
    case False
    then have "b = n" using Suc.prems(3) by (metis min.cobounded1 word_le_nat_alt order.not_eq_order_implies_strict)
    then show ?thesis by (subst read_file_clusters.simps) simp
  next
    case True
    obtain b' where b': "read_file_sectors d (cluster_lba L cl) n [0..<spc L] b out =
        (False, b', out @ take (unat b' - unat b) (drop (unat b) (chain_data L d cs)))"
      "unat b' = min (unat n) (i * csz L + csz L)"
      using read_file_sectors_spec [OF ok i, of 0 b out] Suc.prems(3) True cl(1)
      by (auto simp: word_less_nat_alt word_le_nat_alt min_def split: if_splits)
    have "unat b \<le> unat b'" "unat b' \<le> unat n" using b'(2) Suc.prems(3) by auto
    then have "take (unat b' - unat b) (drop (unat b) (chain_data L d cs)) @ take (unat n - unat b') (drop (unat b') (chain_data L d cs)) =
        take (unat n - unat b) (drop (unat b) (chain_data L d cs))"
      using take_drop_split [of "unat b' - unat b" "unat n - unat b" "unat b" "chain_data L d cs"] by simp
    then show ?thesis
      using Suc.hyps(1) [of "Suc i" "fat_get_next_cluster L d cl" b' "out @ take (unat b' - unat b) (drop (unat b) (chain_data L d cs))"]
        Suc.hyps(2) i cl b' True by (subst read_file_clusters.simps) (simp add: add.commute)
  qed
qed

section \<open>Properties of reading\<close>

lemma fat_read_spec:
  assumes "fd_index (open_files fs) fd = Some i" and "f = open_files fs ! i"
    and "file_ok (fs_lay fs) (fs_disk fs) c cs (unat (file_size f))" and "fpos_ok (fs_lay fs) cs f"
    and "len < 0x80000000" and "n = min (unat len) (unat (file_size f) - unat (file_offset f))"
  shows "\<exists>f'. fat_read fs fd len =
      (int n, take n (drop (unat (file_offset f)) (file_contents (fs_lay fs) (fs_disk fs) cs (unat (file_size f)))),
       fs\<lparr>open_files := (open_files fs)[i := f']\<rparr>) \<and>
    fpos_ok (fs_lay fs) cs f' \<and> unat (file_offset f') = unat (file_offset f) + n \<and>
    (\<exists>fo cc co. f' = f\<lparr>file_offset := fo, current_cluster := cc, cluster_offset := co\<rparr>)"
proof -
  have n: "read_amount f len = n" using assms(6) by (simp add: read_amount_def)
  have b: "n < 2147483648" using assms(5,6) by (simp add: word_less_nat_alt)
  then have sn: "sint (of_nat n :: u32) = int n" by (simp add: sint_of_nat_u32)
  have fo: "unat (file_offset f + of_nat n) = unat (file_offset f) + n"
    using assms(4,6) b unat_less_u32 [of "file_size f"]
    by (subst unat_add_u32) (auto simp: unat_of_nat_u32 fpos_ok_def word_le_nat_alt)
  have tk: "take n (drop (unat (file_offset f)) (chain_data (fs_lay fs) (fs_disk fs) cs)) =
      take n (drop (unat (file_offset f)) (file_contents (fs_lay fs) (fs_disk fs) cs (unat (file_size f))))"
    using assms(6) by (simp add: file_contents_def drop_take take_take min.absorb1)
  obtain f' where r: "fat_read_loop (fs_lay fs) (fs_disk fs) len f 0 [] =
      (of_nat n, take n (drop (unat (file_offset f)) (chain_data (fs_lay fs) (fs_disk fs) cs)), f')"
    "fpos_ok (fs_lay fs) cs f'" "file_offset f' = file_offset f + of_nat n"
    "\<exists>fo cc co. f' = f\<lparr>file_offset := fo, current_cluster := cc, cluster_offset := co\<rparr>"
    using fat_read_loop_spec [OF assms(3,4), of 0 len "[]"] n by auto
  have "fat_read fs fd len = (int n, take n (drop (unat (file_offset f))
      (file_contents (fs_lay fs) (fs_disk fs) cs (unat (file_size f)))), fs\<lparr>open_files := (open_files fs)[i := f']\<rparr>)"
    using r(1) assms(1) sn tk by (simp add: fat_read_def assms(2) [symmetric])
  moreover have "unat (file_offset f') = unat (file_offset f) + n" using r(3) fo by simp
  ultimately show ?thesis using r(2,4) by blast
qed

text \<open>
  C15: a read returns exactly the bytes of the file at the descriptor's position, as many as are
  asked for and are left, and moves the position behind them; nothing else changes.
\<close>

theorem fat_read_correct:
  assumes "fd_index (open_files fs) fd = Some i" and "f = open_files fs ! i"
    and "file_ok (fs_lay fs) (fs_disk fs) c cs (unat (file_size f))" and "fpos_ok (fs_lay fs) cs f"
    and "len < 0x80000000" and "n = min (unat len) (unat (file_size f) - unat (file_offset f))"
  shows "\<exists>f'. fat_read fs fd len =
      (int n, take n (drop (unat (file_offset f)) (file_contents (fs_lay fs) (fs_disk fs) cs (unat (file_size f)))),
       fs\<lparr>open_files := (open_files fs)[i := f']\<rparr>) \<and>
    fpos_ok (fs_lay fs) cs f' \<and> unat (file_offset f') = unat (file_offset f) + n \<and>
    (\<exists>fo cc co. f' = f\<lparr>file_offset := fo, current_cluster := cc, cluster_offset := co\<rparr>)"
  using assms by (rule fat_read_spec)

text \<open>
  A volume with one file, \<open>A.TXT\<close>, of 1300 bytes in the clusters 2, 5 and 3, and a descriptor
  open on it.
\<close>

definition name_a :: bytes where "name_a = cstr ''a.txt''"

definition disk_a :: ata_disk where
  "disk_a = disk_chain\<lparr>sectors := (sectors disk_chain)
     (4 := replicate 512 0x41, 7 := replicate 512 0x42, 5 := replicate 512 0x43,
      3 := put_le32 (fat_fill_entry (replicate 512 0) 0 (fat_name_to_83 name_a) 0 2) 28 1300)\<rparr>"

definition file_a :: open_file where
  "file_a = \<lparr>in_use = True, file_size = 1300, current_cluster = 2, of_first_cluster = 2, cluster_offset = 0, file_offset = 0,
     writable = False, dir_entry_sector = 0, dir_entry_offset = 0, owner_task_id = 1\<rparr>"

definition fs_a :: fat_fs where
  "fs_a = fs0\<lparr>fs_disk := disk_a, open_files := (open_files fs0)[0 := file_a]\<rparr>"

lemma disk_chain_bad: "rd_bad disk_chain = (\<lambda>_. False)"
  by (simp add: disk_chain_def set_entry_fields vol0_ok [unfolded fat_ok_def] disk0_def)

lemma disk_a_get: "in_fat vol0 c \<Longrightarrow> fat_get_next_cluster vol0 disk_a c = fat_get_next_cluster vol0 disk_chain c"
  using vol0_ok by (simp add: fat_get_next_cluster_eq fat_ok_def disk_a_def in_fat_def fat_lba_def vol0_def)

lemma lbas_a: "chain_lbas vol0 [2, 5, 3] = [4, 7, 5]"
  by (simp add: chain_lbas_def vol0_def cluster_lba_def upt_rec)

lemma file_a_ok: "file_ok vol0 disk_a 2 [2, 5, 3] 1300"
proof -
  have "cchain (fat_get_next_cluster vol0 disk_a) 2 [2, 5, 3]"
    by (simp add: disk_a_get disk_chain_get vol0_in_fat valid_cluster_def)
  moreover have "disk_wf disk_a"
    using disk_chain_ok by (auto simp: disk_wf_def fat_ok_def disk_a_def)
  ultimately show ?thesis
    using vol0_ok by (simp add: file_ok_def fat_ok_def lbas_a disk_a_def disk_chain_bad) (simp add: vol0_def csz_def)
qed

lemma contents_a: "file_contents vol0 disk_a [2, 5, 3] 1300 = replicate 512 0x41 @ replicate 512 0x42 @ replicate 276 0x43"
  by (simp add: file_contents_def chain_data_def lbas_a disk_a_def)

lemma fd_a: "fd_index (open_files fs_a) 3 = Some 0" "open_files fs_a ! 0 = file_a" "fs_lay fs_a = vol0" "fs_disk fs_a = disk_a"
    "0 < length (open_files fs_a)"
  by (simp_all add: fs_a_def fs0_def fd_index_def FAT_FD_BASE_def MAX_OPEN_FILES_def file_a_def)

lemma fpos_a: "fpos_ok vol0 [2, 5, 3] file_a"
  by (simp add: fpos_ok_def file_a_def)

lemma slices_a:
  "take 4 (file_contents vol0 disk_a [2, 5, 3] 1300) = [0x41, 0x41, 0x41, 0x41]"
  "take 3 (drop 511 (file_contents vol0 disk_a [2, 5, 3] 1300)) = [0x41, 0x42, 0x42]"
  unfolding contents_a by (simp_all, simp_all add: numeral_eq_Suc)

lemma file_a_open: "file_ok (fs_lay fs_a) (fs_disk fs_a) (of_first_cluster file_a) [2, 5, 3] (unat (file_size file_a))"
    "fpos_ok (fs_lay fs_a) [2, 5, 3] file_a"
  using file_a_ok fpos_a by (simp_all add: fd_a) (simp add: file_a_def)

theorem fat_read_correct_witness:
  "\<exists>f'. fat_read fs_a 3 4 = (4, [0x41, 0x41, 0x41, 0x41], fs_a\<lparr>open_files := (open_files fs_a)[0 := f']\<rparr>) \<and>
     fpos_ok vol0 [2, 5, 3] f' \<and> unat (file_offset f') = 4"
proof -
  have sz: "unat (file_size file_a) = 1300" "unat (file_offset file_a) = 0" by (simp_all add: file_a_def)
  have n: "4 = min (unat (4 :: u32)) (unat (file_size file_a) - unat (file_offset file_a))" by (simp add: sz)
  from fat_read_correct [OF fd_a(1) fd_a(2) [symmetric] file_a_open _ n] show ?thesis
    by (simp add: sz fd_a(3,4) slices_a(1)) blast
qed

text \<open>
  seeking to an offset up to the size succeeds, whatever the position was, and a read that
  follows returns the bytes of the file from that offset on.
\<close>

theorem fat_seek_then_read:
  assumes "fd_index (open_files fs) fd = Some i" and "f = open_files fs ! i" and "i < length (open_files fs)"
    and "file_ok (fs_lay fs) (fs_disk fs) (of_first_cluster f) cs (unat (file_size f))"
    and "offset \<le> file_size f" and "len < 0x80000000"
    and "n = min (unat len) (unat (file_size f) - unat offset)"
  shows "\<exists>fs1 fs2. fat_seek fs fd offset = Some (0, fs1) \<and>
    fat_read fs1 fd len =
      (int n, take n (drop (unat offset) (file_contents (fs_lay fs) (fs_disk fs) cs (unat (file_size f)))), fs2)"
proof -
  obtain cl co where w: "fat_seek_walk (fs_lay fs) (fs_disk fs) (of_first_cluster f) offset = Some (cl, co)"
    "fpos_ok (fs_lay fs) cs (f\<lparr>current_cluster := cl, cluster_offset := co, file_offset := offset\<rparr>)"
    using seek_fpos [OF assms(4,5)] by blast
  let ?f = "f\<lparr>current_cluster := cl, cluster_offset := co, file_offset := offset\<rparr>"
  have sk: "fat_seek fs fd offset = Some (0, fs\<lparr>open_files := (open_files fs)[i := ?f]\<rparr>)"
    using assms(1,2,5) w(1) by (simp add: fat_seek_def Let_def not_less [symmetric])
  have n: "read_amount ?f len = n" using assms(7) by (simp add: read_amount_def)
  have b: "n < 2147483648" using assms(6,7) by (simp add: word_less_nat_alt)
  have "file_ok (fs_lay fs) (fs_disk fs) (of_first_cluster f) cs (unat (file_size ?f))" using assms(4) by simp
  from fat_read_loop_spec [OF this w(2), of 0 len "[]"] obtain f' where
    rd: "fat_read_loop (fs_lay fs) (fs_disk fs) len ?f 0 [] =
      (of_nat n, take n (drop (unat offset) (chain_data (fs_lay fs) (fs_disk fs) cs)), f')" using n by auto
  have ix: "fd_index ((open_files fs)[i := ?f]) fd = Some i"
    using assms(1-3) by (auto simp: fd_index_def Let_def split: if_splits)
  have "take n (drop (unat offset) (chain_data (fs_lay fs) (fs_disk fs) cs)) =
      take n (drop (unat offset) (file_contents (fs_lay fs) (fs_disk fs) cs (unat (file_size f))))"
    using assms(7) by (simp add: file_contents_def drop_take take_take min.absorb1)
  then show ?thesis using sk rd ix assms(3) b by (simp add: fat_read_def sint_of_nat_u32)
qed

theorem fat_seek_then_read_witness:
  "\<exists>fs1 fs2. fat_seek fs_a 3 511 = Some (0, fs1) \<and> fat_read fs1 3 3 = (3, [0x41, 0x42, 0x42], fs2)"
proof -
  have sz: "unat (file_size file_a) = 1300" "511 \<le> file_size file_a" by (simp_all add: file_a_def)
  have n: "3 = min (unat (3 :: u32)) (unat (file_size file_a) - unat (511 :: u32))" by (simp add: sz)
  from fat_seek_then_read [OF fd_a(1) fd_a(2) [symmetric] fd_a(5) file_a_open(1) sz(2) _ n] show ?thesis
    by (simp add: sz(1) fd_a(3,4) slices_a(2))
qed

text \<open>
  \<open>fat_read_file\<close> returns the whole contents of the file that the path resolves to, when it
  is not a directory and fits the caller's buffer.
\<close>

theorem fat_read_file_correct:
  assumes "fat_ready (fs_lay fs)"
    and "fat_find_entry (fs_lay fs) (fs_disk fs) (fs_lfn fs) path = Some (Some e, lfn)"
    and "de_attr e AND FAT_ATTR_DIRECTORY = 0" and "de_file_size e \<le> buffer_size" and "de_file_size e < 0x80000000"
    and "file_ok (fs_lay fs) (fs_disk fs) (de_first_cluster_low e) cs (unat (de_file_size e))"
  shows "fat_read_file fs path buffer_size =
    Some (int (unat (de_file_size e)), file_contents (fs_lay fs) (fs_disk fs) cs (unat (de_file_size e)), fs\<lparr>fs_lfn := lfn\<rparr>)"
proof -
  have ch: "cchain (fat_get_next_cluster (fs_lay fs) (fs_disk fs)) (de_first_cluster_low e) (drop 0 cs)"
    using assms(6) by (simp add: file_ok_def)
  have "sint (de_file_size e) = int (unat (de_file_size e))"
    using assms(5) sint_of_nat_u32 [of "unat (de_file_size e)"] by (simp add: word_less_nat_alt)
  then show ?thesis
    using read_file_clusters_spec [OF assms(6) _ ch, of 0 "[]"] assms(1-3) leD [OF assms(4)]
    by (simp add: fat_read_file_def file_contents_def)
qed

lemma find_a:
  "\<exists>e lfn. fat_find_entry vol0 disk_a lfn0 name_a = Some (Some e, lfn) \<and>
     de_attr e = 0 \<and> de_file_size e = 1300 \<and> de_first_cluster_low e = 2"
proof -
  let ?n = "fat_name_to_83 name_a"
  let ?e = "(fresh_entry ?n 0 2)\<lparr>de_file_size := 1300\<rparr>"
  have rd: "ata_read_sector disk_a 3 = Some (put_le32 (fat_fill_entry (replicate 512 0) 0 ?n 0 2) 28 1300)"
    by (simp add: ata_read_sector_def disk_a_def disk_chain_bad)
  have e: "dir_entry_at (put_le32 (fat_fill_entry (replicate 512 0) 0 ?n 0 2) 28 1300) 0 = ?e"
    using dir_entry_at_put_size [of 0 "fat_fill_entry (replicate 512 0) 0 ?n 0 2" 1300] by (simp add: dir_entry_at_fill)
  have n0: "?n ! 0 = 0x41" by (simp add: name_a_def fat_name_to_83_def cstr_def pad_field_def upper_def)
  have m: "fat_dir_entry_matches ?e ?n" using matches_fresh [of ?n 0 2] by (simp add: fat_dir_entry_matches_def)
  have "plain_name name_a" by (simp add: plain_name_def cstr_def name_a_def)
  moreover have "fat_find_entry_in_dir vol0 disk_a lfn0 fat_root_dir_ref name_a = Some (Some (3, 0, ?e), lfn_reset (lfn_reset lfn0))"
    unfolding fat_find_entry_in_dir_def
    by (subst fat_find_loop.simps)
       (simp add: fs0_root rd upt16 e m Let_def, simp add: fresh_entry_def n0 FAT_ATTR_LONG_NAME_def)
  ultimately show ?thesis by (simp add: fat_find_entry_root fresh_entry_def)
qed

theorem fat_read_file_correct_witness:
  "\<exists>fs'. fat_read_file fs_a name_a 4096 = Some (1300, replicate 512 0x41 @ replicate 512 0x42 @ replicate 276 0x43, fs')"
proof -
  obtain e lfn where e: "fat_find_entry (fs_lay fs_a) (fs_disk fs_a) (fs_lfn fs_a) name_a = Some (Some e, lfn)"
    "de_attr e = 0" "de_file_size e = 1300" "de_first_cluster_low e = 2"
    using find_a by (auto simp: fs_a_def fs0_def)
  have "fat_ready (fs_lay fs_a)" by (simp add: fs_a_def fs0_def vol0_def)
  from fat_read_file_correct [OF this e(1), of 4096 "[2, 5, 3]"] e file_a_ok contents_a show ?thesis by (simp add: fd_a)
qed

end
