(* ===== verification/Fat_Write.thy ===== *)
theory Fat_Write
  imports Fat_Read
begin

unbundle bit_operations_syntax

text \<open>
  Writing at the end of a file is correct: the file's contents grow by exactly the bytes that
  \<open>fat_write\<close> reports, its chain by the clusters they need, and its directory entry on the disk
  records the new size and the first cluster; a short count means that no cluster was free. A
  write that runs over the end of a cluster in the middle of a file, in contrast, cuts the rest
  of the file's chain off.
\<close>

section \<open>Volumes, data sectors and the append position\<close>

definition vol_ok :: "fat_layout \<Rightarrow> ata_disk \<Rightarrow> bool" where
  "vol_ok L d \<longleftrightarrow> fat_ok L d \<and> 0 < spc L \<and> unat (fat_size_sectors L) \<le> 255 \<and>
     (\<forall>c. in_fat L c \<and> 2 \<le> c \<longrightarrow> (\<forall>s < spc L. good_sector d (cluster_lba L c + of_nat s)))"

definition data_secs :: "fat_layout \<Rightarrow> u16 \<Rightarrow> u32 set" where
  "data_secs L c = {cluster_lba L c + of_nat s | s. s < spc L}"

text \<open>
  The sector of the directory entry lies outside the table, and outside every cluster that is
  free or belongs to the file.
\<close>

definition dsec_ok :: "fat_layout \<Rightarrow> ata_disk \<Rightarrow> u16 list \<Rightarrow> u32 \<Rightarrow> bool" where
  "dsec_ok L d cs sec \<longleftrightarrow> unat sec < 268435456 \<and> good_sector d sec \<and> unat (root_dir_start_lba L) \<le> unat sec \<and>
     (\<forall>c. in_fat L c \<and> 2 \<le> c \<and> (fat_get_next_cluster L d c = 0 \<or> c \<in> set cs) \<longrightarrow> sec \<notin> data_secs L c)"

definition app_ok :: "fat_layout \<Rightarrow> ata_disk \<Rightarrow> open_file \<Rightarrow> u16 list \<Rightarrow> bool" where
  "app_ok L d f cs \<longleftrightarrow> vol_ok L d \<and> cchain (fat_get_next_cluster L d) (of_first_cluster f) cs \<and>
     (\<forall>x \<in> set cs. in_fat L x) \<and> (cs \<noteq> [] \<longrightarrow> fat_get_next_cluster L d (last cs) \<noteq> 0) \<and>
     dsec_ok L d cs (dir_entry_sector f) \<and> unat (dir_entry_offset f) < 16 \<and>
     de_first_cluster_low (dir_entry_at (sectors d (dir_entry_sector f)) (unat (dir_entry_offset f))) = of_first_cluster f \<and>
     file_offset f = file_size f \<and>
     (if cs = [] then of_first_cluster f = 0 \<and> current_cluster f = 0 \<and> file_size f = 0
      else current_cluster f = last cs \<and> unat (cluster_offset f) \<le> csz L \<and>
        unat (file_size f) = (length cs - 1) * csz L + unat (cluster_offset f))"

section \<open>What a write leaves alone\<close>

text \<open>Two disks with the same bad sectors and the same reserved sectors and table.\<close>

definition same_fat :: "fat_layout \<Rightarrow> ata_disk \<Rightarrow> ata_disk \<Rightarrow> bool" where
  "same_fat L d d' \<longleftrightarrow> rd_bad d' = rd_bad d \<and> wr_bad d' = wr_bad d \<and>
     (\<forall>l. unat l < unat (root_dir_start_lba L) \<longrightarrow> sectors d' l = sectors d l)"

lemma fat_lba_in_fat:
  assumes "lay_wf L" "in_fat L c" "k < unat (num_fats L)"
  shows "unat (of_nat (fat_lba L k c) :: u32) < unat (root_dir_start_lba L)"
proof -
  have k: "k < 256" using assms(3) unat_less_u8 [of "num_fats L"] by linarith
  have "Suc k * unat (fat_size_sectors L) \<le> unat (num_fats L) * unat (fat_size_sectors L)"
    using assms(3) by (intro mult_right_mono) auto
  then have "fat_lba L k c < unat (root_dir_start_lba L)"
    using assms(2) by (simp add: fat_lba_def in_fat_def lay_wf_regions(1) [OF assms(1)])
  then show ?thesis using fat_lba_bound [OF assms(1) k, of c] by (simp add: unat_of_nat_u32)
qed

lemma same_fat_get:
  assumes "same_fat L d d'" "fat_ok L d" "in_fat L c"
  shows "fat_get_next_cluster L d' c = fat_get_next_cluster L d c"
  using assms fat_lba_in_fat [of L c 0] fat_ok_copy0 [OF assms(2)]
  by (simp add: fat_get_next_cluster_eq fat_ok_def same_fat_def)

lemma same_fat_ok:
  assumes "same_fat L d d'" "fat_ok L d" "disk_wf d'"
  shows "fat_ok L d'"
  using assms by (auto simp: fat_ok_def same_fat_def good_sector_def)

lemma same_fat_vol: "same_fat L d d' \<Longrightarrow> vol_ok L d \<Longrightarrow> disk_wf d' \<Longrightarrow> vol_ok L d'"
  by (auto simp: vol_ok_def same_fat_ok) (auto simp: same_fat_def good_sector_def)

lemma vol_ok_set: "vol_ok L d \<Longrightarrow> vol_ok L (fat_set_cluster_entry L d c v)"
  by (auto simp: vol_ok_def fat_ok_set) (auto simp: good_sector_def set_entry_fields fat_ok_def)

lemma in_fat_valid: "vol_ok L d \<Longrightarrow> in_fat L c \<Longrightarrow> 2 \<le> c \<Longrightarrow> valid_cluster c"
proof -
  assume "vol_ok L d" "in_fat L c" "2 \<le> c"
  then have c: "unat c div 256 < 255" "2 \<le> unat c" by (auto simp: vol_ok_def in_fat_def u16_less_nat)
  have "unat c div 256 * 256 + unat c mod 256 = unat c" "unat c mod 256 < 256" by simp_all
  then have "unat c < 65528" using c by linarith
  then show ?thesis using c by (simp add: valid_cluster_def u16_less_nat)
qed

text \<open>Writing a table entry leaves every sector from the root directory on alone.\<close>

lemma sectors_set_entry_above:
  assumes "lay_wf L" "in_fat L c" "unat (root_dir_start_lba L) \<le> unat l"
  shows "sectors (fat_set_cluster_entry L d c v) l = sectors d l"
proof -
  have "l \<noteq> of_nat (fat_lba L k c)" if "k < unat (num_fats L)" for k
    using fat_lba_in_fat [OF assms(1,2) that] assms(3) by auto
  then show ?thesis by (auto simp: sectors_set_entry [OF assms(1)])
qed

lemma data_secs_bounds:
  assumes "lay_wf L" "valid_cluster c" "l \<in> data_secs L c"
  shows "unat (data_start_lba L) \<le> unat l" "unat l < 268435456" "unat (root_dir_start_lba L) \<le> unat l"
  using assms unat_cluster_lba [OF assms(1,2)] lay_wf_regions(2) [OF assms(1)] by (auto simp: data_secs_def)

lemma data_secs_disjoint:
  assumes "lay_wf L" "valid_cluster c" "valid_cluster c'" "l \<in> data_secs L c" "l \<in> data_secs L c'"
  shows "c = c'"
proof -
  obtain s s' where s: "s < spc L" "s' < spc L" and l: "l = cluster_lba L c + of_nat s" "l = cluster_lba L c' + of_nat s'"
    using assms(4,5) by (auto simp: data_secs_def)
  have "(unat c - 2) * spc L + s = (unat c' - 2) * spc L + s'"
    using unat_cluster_lba(1) [OF assms(1,2) s(1)] unat_cluster_lba(1) [OF assms(1,3) s(2)] l by simp
  moreover have "((unat c - 2) * spc L + s) div spc L = unat c - 2" "((unat c' - 2) * spc L + s') div spc L = unat c' - 2"
    using s by simp_all
  ultimately have "unat c - 2 = unat c' - 2" by simp
  then show ?thesis using assms(2,3) by (auto simp: valid_cluster_def u16_less_nat word_unat_eq_iff)
qed

lemma chain_lbas_data: "i < length cs * spc L \<Longrightarrow> 0 < spc L \<Longrightarrow> chain_lbas L cs ! i \<in> data_secs L (cs ! (i div spc L))"
  by (auto simp: chain_lbas_nth data_secs_def)

lemma set_chain_lbas: "0 < spc L \<Longrightarrow> l \<in> set (chain_lbas L cs) \<Longrightarrow> \<exists>c \<in> set cs. l \<in> data_secs L c"
  by (auto simp: chain_lbas_def data_secs_def less_mult_imp_div_less intro!: bexI [of _ "cs ! _"])

lemma chain_data_cong: "(\<And>l. l \<in> set (chain_lbas L cs) \<Longrightarrow> sectors d' l = sectors d l) \<Longrightarrow> chain_data L d' cs = chain_data L d cs"
  by (simp add: chain_data_def cong: map_cong)

lemma copy_into_append:
  "off + length src \<le> length xs \<Longrightarrow> copy_into (xs @ ys) off src = copy_into xs off src @ ys"
  "length xs \<le> off \<Longrightarrow> copy_into (xs @ ys) off src = xs @ copy_into ys (off - length xs) src"
  by (simp_all add: copy_into_def)

lemma concat_update_sector:
  "\<forall>x \<in> set xs. length x = n \<Longrightarrow> q < length xs \<Longrightarrow> r + length src \<le> n \<Longrightarrow>
   concat (xs[q := copy_into (xs ! q) r src]) = copy_into (concat xs) (q * n + r) src"
proof (induction xs arbitrary: q)
  case (Cons x xs)
  then show ?case by (cases q) (simp_all add: copy_into_append)
qed simp

lemma chain_lbas_distinct:
  assumes "lay_wf L" "distinct cs" "\<forall>c \<in> set cs. valid_cluster c" "0 < spc L"
  shows "distinct (chain_lbas L cs)"
proof (subst distinct_conv_nth, intro allI impI)
  fix i j assume ij: "i < length (chain_lbas L cs)" "j < length (chain_lbas L cs)" "i \<noteq> j"
  let ?c = "cs ! (i div spc L)" and ?c' = "cs ! (j div spc L)"
  have lt: "i div spc L < length cs" "j div spc L < length cs" using ij by (simp_all add: less_mult_imp_div_less)
  have v: "valid_cluster ?c" "valid_cluster ?c'" using assms(3) lt by auto
  show "chain_lbas L cs ! i \<noteq> chain_lbas L cs ! j"
  proof
    assume e: "chain_lbas L cs ! i = chain_lbas L cs ! j"
    have "chain_lbas L cs ! i \<in> data_secs L ?c" "chain_lbas L cs ! i \<in> data_secs L ?c'"
      using chain_lbas_data [of i cs L] chain_lbas_data [of j cs L] ij assms(4) e by simp_all
    then have "?c = ?c'" by (rule data_secs_disjoint [OF assms(1) v])
    then have d: "i div spc L = j div spc L" using assms(2) lt by (simp add: nth_eq_iff_index_eq)
    have m: "i mod spc L < spc L" "j mod spc L < spc L" using assms(4) by simp_all
    have "unat (cluster_lba L ?c + of_nat (i mod spc L)) = unat (cluster_lba L ?c + of_nat (j mod spc L))"
      using e ij d by (simp add: chain_lbas_nth)
    then have "i mod spc L = j mod spc L"
      using unat_cluster_lba(1) [OF assms(1) v(1) m(1)] unat_cluster_lba(1) [OF assms(1) v(1) m(2)] by simp
    then show False using d ij(3) by (metis div_mult_mod_eq)
  qed
qed

text \<open>Storing bytes into one sector of a chain stores them into the chain's bytes.\<close>

lemma chain_data_write:
  assumes wf: "lay_wf L" "disk_wf d" and cs: "distinct cs" "\<forall>c \<in> set cs. valid_cluster c" and s: "0 < spc L"
    and p: "p < length cs * csz L" "p mod 512 + length src \<le> 512"
    and l: "l = chain_lbas L cs ! (p div 512)"
  shows "chain_data L (d\<lparr>sectors := (sectors d)(l := copy_into (sectors d l) (p mod 512) src)\<rparr>) cs =
    copy_into (chain_data L d cs) p src"
proof -
  let ?X = "map (sectors d) (chain_lbas L cs)"
  have q: "p div 512 < length (chain_lbas L cs)"
    using p(1) by (simp add: csz_def less_mult_imp_div_less algebra_simps)
  have "map ((sectors d)(l := copy_into (sectors d l) (p mod 512) src)) (chain_lbas L cs) =
      ?X[p div 512 := copy_into (?X ! (p div 512)) (p mod 512) src]"
    using q l chain_lbas_distinct [OF wf(1) cs s]
    by (intro nth_equalityI) (auto simp: nth_list_update nth_eq_iff_index_eq)
  moreover have "concat (?X[p div 512 := copy_into (?X ! (p div 512)) (p mod 512) src]) = copy_into (concat ?X) (p div 512 * 512 + p mod 512) src"
    by (rule concat_update_sector) (use wf(2) q p(2) in \<open>auto simp: disk_wf_def\<close>)
  ultimately show ?thesis by (simp add: chain_data_def)
qed

lemma offset_le_csz:
  assumes "0 < spc L" "c < csz L" "t \<le> 512 - c mod 512"
  shows "c + t \<le> csz L"
proof -
  have "c div 512 < spc L" using assms(2) by (simp add: csz_def less_mult_imp_div_less)
  then have "512 * (c div 512) + 512 \<le> csz L" unfolding csz_def by linarith
  moreover have "512 * (c div 512) + c mod 512 = c" "c mod 512 < 512" by simp_all
  ultimately show ?thesis using assms(3) by linarith
qed

lemma chain_lbas_snoc:
  assumes "0 < spc L"
  shows "chain_lbas L (cs @ [n]) = chain_lbas L cs @ map (\<lambda>s. cluster_lba L n + of_nat s) [0..<spc L]"
proof (rule nth_equalityI)
  fix i assume "i < length (chain_lbas L (cs @ [n]))"
  then have i: "i < (length cs + 1) * spc L" by simp
  show "chain_lbas L (cs @ [n]) ! i = (chain_lbas L cs @ map (\<lambda>s. cluster_lba L n + of_nat s) [0..<spc L]) ! i"
  proof (cases "i < length cs * spc L")
    case True
    then have "i div spc L < length cs" by (simp add: less_mult_imp_div_less)
    then show ?thesis using True i by (simp add: chain_lbas_nth nth_append)
  next
    case False
    then obtain r where r: "i = length cs * spc L + r" "r < spc L" using i by (auto simp: not_less le_iff_add)
    then show ?thesis using assms by (simp add: chain_lbas_nth nth_append)
  qed
qed simp

lemma chain_data_snoc: "0 < spc L \<Longrightarrow> \<exists>ys. chain_data L d (cs @ [n]) = chain_data L d cs @ ys"
  by (simp add: chain_data_def chain_lbas_snoc)

lemma file_contents_snoc:
  assumes "disk_wf d" "0 < spc L" "n \<le> length cs * csz L"
  shows "file_contents L d (cs @ [c]) n = file_contents L d cs n"
  using chain_data_snoc [OF assms(2), of d cs c] assms length_chain_data [OF assms(1), of L cs]
  by (auto simp: file_contents_def)

section \<open>A cluster with room\<close>

text \<open>The fields that \<open>fat_write\<close> never changes.\<close>

definition same_file :: "open_file \<Rightarrow> open_file \<Rightarrow> bool" where
  "same_file f f' \<longleftrightarrow> in_use f' = in_use f \<and> writable f' = writable f \<and> dir_entry_sector f' = dir_entry_sector f \<and>
     dir_entry_offset f' = dir_entry_offset f \<and> owner_task_id f' = owner_task_id f"

lemma dsec_ok_mono:
  assumes "dsec_ok L d cs sec" and "rd_bad d' = rd_bad d" "wr_bad d' = wr_bad d"
    and "\<And>c. in_fat L c \<Longrightarrow> fat_get_next_cluster L d' c = 0 \<or> c \<in> set cs' \<Longrightarrow> fat_get_next_cluster L d c = 0 \<or> c \<in> set cs"
  shows "dsec_ok L d' cs' sec"
  using assms by (auto simp: dsec_ok_def good_sector_def)

lemma app_ok_file_ok:
  assumes "app_ok L d f cs"
  shows "file_ok L d (of_first_cluster f) cs (length cs * csz L)"
proof -
  have s: "0 < spc L" and vol: "vol_ok L d" using assms by (auto simp: app_ok_def vol_ok_def)
  have ch: "cchain (fat_get_next_cluster L d) (of_first_cluster f) cs" using assms by (simp add: app_ok_def)
  have "\<not> rd_bad d l" if l: "l \<in> set (chain_lbas L cs)" for l
  proof -
    obtain c where c: "c \<in> set cs" "l \<in> data_secs L c" using set_chain_lbas [OF s l] by blast
    then have "in_fat L c" "2 \<le> c" using assms cchain_valid [OF ch c(1)] by (auto simp: app_ok_def valid_cluster_def)
    then show ?thesis using vol c(2) by (auto simp: vol_ok_def data_secs_def good_sector_def)
  qed
  then show ?thesis using assms s by (auto simp: file_ok_def app_ok_def vol_ok_def fat_ok_def)
qed

lemma set_entry_chain_data:
  assumes "vol_ok L d" "in_fat L c" "\<forall>x \<in> set cs. valid_cluster x"
  shows "chain_data L (fat_set_cluster_entry L d c v) cs = chain_data L d cs"
proof (rule chain_data_cong)
  fix l assume l: "l \<in> set (chain_lbas L cs)"
  have "0 < spc L" using assms(1) by (simp add: vol_ok_def)
  then obtain x where x: "x \<in> set cs" "l \<in> data_secs L x" using set_chain_lbas [OF _ l] by blast
  have wf: "lay_wf L" using assms(1) by (simp add: vol_ok_def fat_ok_def)
  show "sectors (fat_set_cluster_entry L d c v) l = sectors d l"
    using data_secs_bounds [OF wf _ x(2)] assms(3) x(1) by (intro sectors_set_entry_above [OF wf assms(2)]) auto
qed

lemma write_first_cluster:
  assumes ok: "app_ok L d f []" and al: "fat_alloc_cluster L d = (c, fat_set_cluster_entry L d c 0xFFFF)"
    and c: "in_fat L c" "2 \<le> c" "fat_get_next_cluster L d c = 0"
  shows "\<exists>f1 d1. fat_write_cluster L d f = (Some f1, d1) \<and> app_ok L d1 f1 [c] \<and> same_file f f1 \<and> file_size f1 = file_size f \<and>
    cluster_offset f1 = 0"
proof -
  let ?sec = "dir_entry_sector f" and ?off = "unat (dir_entry_offset f)"
  let ?d1 = "fat_set_cluster_entry L d c 0xFFFF"
  have vol: "vol_ok L d" and ds: "dsec_ok L d [] ?sec" and off: "?off < 16" and f0: "of_first_cluster f = 0"
      "current_cluster f = 0" "file_size f = 0" "file_offset f = 0"
    using ok by (auto simp: app_ok_def)
  have wf: "lay_wf L" and fok: "fat_ok L d" using vol by (auto simp: vol_ok_def fat_ok_def)
  have c0: "c \<noteq> 0" using c(2) by auto
  have b: "rd_bad ?d1 = rd_bad d" "wr_bad ?d1 = wr_bad d" using wf by (simp_all add: set_entry_fields)
  have sec: "ata_lba28 ?sec = ?sec" "\<not> rd_bad d ?sec" "\<not> wr_bad d ?sec" "unat (root_dir_start_lba L) \<le> unat ?sec"
    using ds by (auto simp: dsec_ok_def good_sector_def)
  have sd1: "sectors ?d1 ?sec = sectors d ?sec" by (rule sectors_set_entry_above [OF wf c(1) sec(4)])
  let ?buf = "put_le16 (sectors d ?sec) (32 * ?off + 26) c"
  let ?d2 = "?d1\<lparr>sectors := (sectors ?d1)(?sec := ?buf)\<rparr>"
  let ?f1 = "f\<lparr>current_cluster := c, cluster_offset := 0, of_first_cluster := c\<rparr>"
  have w: "fat_write_cluster L d f = (Some ?f1, ?d2)"
    using f0 c0 sec by (simp add: fat_write_cluster_def al Let_def ata_read_sector_def ata_write_sector_def b sd1)
  have len: "length (sectors d l) = 512" "length (sectors ?d1 l) = 512" for l
    using fok fat_ok_set [OF fok] by (auto simp: fat_ok_def disk_wf_def)
  have sf: "same_fat L ?d1 ?d2" using sec(4) by (auto simp: same_fat_def)
  have dw: "disk_wf ?d2" using len by (simp add: disk_wf_def)
  have vol1: "vol_ok L ?d1" using vol by (rule vol_ok_set)
  have vol2: "vol_ok L ?d2" using same_fat_vol [OF sf vol1 dw] .
  have g: "fat_get_next_cluster L ?d2 x = (if x = c then 0xFFFF else fat_get_next_cluster L d x)" if "in_fat L x" for x
    using same_fat_get [OF sf _ that] vol1 fok c(1) that by (simp add: vol_ok_def fat_get_set)
  have "app_ok L ?d2 ?f1 [c]"
    unfolding app_ok_def
  proof (intro conjI)
    show "dsec_ok L ?d2 [c] (dir_entry_sector ?f1)"
      by (rule dsec_ok_mono [where d = d and cs = "[]"]) (use ds b g c in \<open>auto split: if_splits\<close>)
  qed (use vol2 c in_fat_valid [OF vol c(1,2)] g [OF c(1)] off f0 dir_entry_at_put_cluster [OF off len(1)] in
      \<open>auto simp: valid_cluster_def\<close>)
  then show ?thesis using w f0 by (auto simp: same_file_def)
qed

lemma write_next_cluster:
  assumes ok: "app_ok L d f cs" "cs \<noteq> []" and full: "unat (cluster_offset f) = csz L"
    and al: "fat_alloc_cluster L d = (c, fat_set_cluster_entry L d c 0xFFFF)"
    and c: "in_fat L c" "2 \<le> c" "fat_get_next_cluster L d c = 0"
  shows "\<exists>f1 d1. fat_write_cluster L d f = (Some f1, d1) \<and> app_ok L d1 f1 (cs @ [c]) \<and> same_file f f1 \<and> file_size f1 = file_size f \<and>
    cluster_offset f1 = 0 \<and> chain_data L d1 cs = chain_data L d cs"
proof -
  let ?l = "last cs" and ?d1 = "fat_set_cluster_entry L d c 0xFFFF"
  let ?d2 = "fat_set_cluster_entry L ?d1 ?l c" and ?f1 = "f\<lparr>current_cluster := c, cluster_offset := 0\<rparr>"
  have vol: "vol_ok L d" and ds: "dsec_ok L d cs (dir_entry_sector f)"
    and ch: "cchain (fat_get_next_cluster L d) (of_first_cluster f) cs" and tab: "\<forall>x \<in> set cs. in_fat L x"
    and cur: "current_cluster f = ?l" "unat (file_size f) = (length cs - 1) * csz L + csz L"
    and lst: "fat_get_next_cluster L d ?l \<noteq> 0"
    using ok full by (auto simp: app_ok_def)
  have wf: "lay_wf L" and fok: "fat_ok L d" using vol by (auto simp: vol_ok_def fat_ok_def)
  have val: "\<forall>x \<in> set cs. valid_cluster x" using cchain_valid [OF ch] by blast
  have l: "in_fat L ?l" "valid_cluster ?l" using tab val ok(2) by auto
  then have l0: "?l \<noteq> 0" by (auto simp: valid_cluster_def)
  have c0: "c \<noteq> 0" "c \<noteq> ?l" using c(2) lst c(3) by auto
  have w: "fat_write_cluster L d f = (Some ?f1, ?d2)"
    using cur(1) l0 c0(1) full by (simp add: fat_write_cluster_def al word_le_nat_alt csz_word)
  have out: "c \<notin> set cs" using free_not_in_chain [OF ch c(3) lst] .
  have vol1: "vol_ok L ?d1" and vol2: "vol_ok L ?d2" using vol by (simp_all add: vol_ok_set)
  have bl: "butlast cs @ [?l] = cs" "butlast cs @ [?l, c] = cs @ [c]"
    using ok(2) append_butlast_last_id [of cs] by (simp, metis append.assoc append_Cons append_Nil)
  have ch2: "cchain (fat_get_next_cluster L ?d2) (of_first_cluster f) (cs @ [c])"
    using fat_extend [of L d "of_first_cluster f" "butlast cs" ?l c, unfolded bl] fok ch tab c(1) in_fat_valid [OF vol c(1,2)] out by auto
  have g: "fat_get_next_cluster L ?d2 x = (if x = ?l then c else if x = c then 0xFFFF else fat_get_next_cluster L d x)" if "in_fat L x" for x
    using that vol1 fok c(1) l(1) by (simp add: vol_ok_def fat_get_set)
  have cd: "chain_data L ?d2 cs = chain_data L d cs"
    using set_entry_chain_data [OF vol1 l(1) val] set_entry_chain_data [OF vol c(1) val] by simp
  have sec: "sectors ?d2 (dir_entry_sector f) = sectors d (dir_entry_sector f)"
    using ds l(1) c(1) by (simp add: dsec_ok_def sectors_set_entry_above [OF wf])
  have "app_ok L ?d2 ?f1 (cs @ [c])"
    unfolding app_ok_def
  proof (intro conjI)
    show "dsec_ok L ?d2 (cs @ [c]) (dir_entry_sector ?f1)"
      by (rule dsec_ok_mono [where d = d and cs = cs])
         (use ds g c c0 ok(2) wf in \<open>auto simp: set_entry_fields split: if_splits\<close>)
    have "length cs * csz L = (length cs - 1) * csz L + csz L"
      using ok(2) by (cases cs) auto
    then show "if cs @ [c] = [] then of_first_cluster ?f1 = 0 \<and> current_cluster ?f1 = 0 \<and> file_size ?f1 = 0
      else current_cluster ?f1 = last (cs @ [c]) \<and> unat (cluster_offset ?f1) \<le> csz L \<and>
        unat (file_size ?f1) = (length (cs @ [c]) - 1) * csz L + unat (cluster_offset ?f1)"
      using cur(2) by simp
  qed (use vol2 ch2 tab c c0 g ok sec in \<open>auto simp: app_ok_def\<close>)
  then show ?thesis using w cd by (auto simp: same_file_def)
qed

lemma app_ok_size:
  assumes "app_ok L d f cs"
  shows "unat (file_size f) \<le> length cs * csz L"
proof (cases cs)
  case (Cons a as)
  then show ?thesis using assms by (auto simp: app_ok_def)
qed (use assms in \<open>simp add: app_ok_def\<close>)

text \<open>No cluster of the volume is free.\<close>

definition fat_full :: "fat_layout \<Rightarrow> ata_disk \<Rightarrow> bool" where
  "fat_full L d \<longleftrightarrow> (\<forall>c. in_fat L c \<and> 2 \<le> c \<longrightarrow> fat_get_next_cluster L d c \<noteq> 0)"

lemma fat_write_cluster_spec:
  assumes ok: "app_ok L d f cs"
  obtains (full) "fat_write_cluster L d f = (None, d)" "fat_full L d"
    | (room) f1 d1 cs1 where "fat_write_cluster L d f = (Some f1, d1)" "app_ok L d1 f1 cs1" "cs1 \<noteq> []" "same_file f f1"
        "file_size f1 = file_size f" "unat (cluster_offset f1) < csz L"
        "file_contents L d1 cs1 (unat (file_size f)) = file_contents L d cs (unat (file_size f))"
proof -
  have vol: "vol_ok L d" and s: "0 < csz L" using ok by (auto simp: app_ok_def vol_ok_def csz_def)
  then have fok: "fat_ok L d" "unat (fat_size_sectors L) \<le> 256" by (auto simp: vol_ok_def)
  have z: "file_contents L e xs 0 = []" for e xs by (simp add: file_contents_def)
  consider (empty) "cs = []" | (part) "cs \<noteq> []" "unat (cluster_offset f) < csz L" | (whole) "cs \<noteq> []" "unat (cluster_offset f) = csz L"
    using ok by (force simp: app_ok_def)
  then show thesis
  proof cases
    case part
    have "current_cluster f = last cs" "valid_cluster (last cs)"
      using ok part(1) cchain_valid [of "fat_get_next_cluster L d" "of_first_cluster f" cs "last cs"] by (auto simp: app_ok_def)
    then have "fat_write_cluster L d f = (Some f, d)"
      using part by (auto simp: fat_write_cluster_def word_le_nat_alt csz_word valid_cluster_def)
    then show ?thesis using room [of f d cs] ok part by (simp add: same_file_def)
  next
    case empty
    show ?thesis using fok
    proof (cases rule: fat_alloc_cases)
      case full
      then show ?thesis using that(1) ok empty by (simp add: fat_write_cluster_def app_ok_def fat_full_def)
    next
      case (got c)
      obtain f1 d1 where "fat_write_cluster L d f = (Some f1, d1)" "app_ok L d1 f1 [c]" "same_file f f1"
        "file_size f1 = file_size f" "cluster_offset f1 = 0"
        using write_first_cluster [OF ok [unfolded empty] got(1-4)] by blast
      then show ?thesis using room [of f1 d1 "[c]"] s ok empty by (simp add: app_ok_def z)
    qed
  next
    case whole
    show ?thesis using fok
    proof (cases rule: fat_alloc_cases)
      case full
      have "current_cluster f = last cs" "valid_cluster (last cs)"
        using ok whole(1) cchain_valid [of "fat_get_next_cluster L d" "of_first_cluster f" cs "last cs"] by (auto simp: app_ok_def)
      then show ?thesis using that(1) full whole
        by (auto simp: fat_write_cluster_def fat_full_def word_le_nat_alt csz_word valid_cluster_def)
    next
      case (got c)
      obtain f1 d1 where w: "fat_write_cluster L d f = (Some f1, d1)" "app_ok L d1 f1 (cs @ [c])" "same_file f f1"
        "file_size f1 = file_size f" "cluster_offset f1 = 0" "chain_data L d1 cs = chain_data L d cs"
        using write_next_cluster [OF ok whole(1,2) got(1-4)] by blast
      have "disk_wf d1" "0 < spc L" using w(2) by (auto simp: app_ok_def vol_ok_def fat_ok_def)
      then have "file_contents L d1 (cs @ [c]) (unat (file_size f)) = file_contents L d cs (unat (file_size f))"
        using file_contents_snoc [of d1 L "unat (file_size f)" cs c] app_ok_size [OF ok] w(6) by (simp add: file_contents_def)
      then show ?thesis using room [of f1 d1 "cs @ [c]"] w s by simp
    qed
  qed
qed

section \<open>A round of the loop\<close>

lemma write_step:
  assumes ok: "app_ok L d f cs" "cs \<noteq> []" and co: "unat (cluster_offset f) < csz L"
    and t: "unat t = length src" "length src \<le> 512 - unat (cluster_offset f) mod 512" "unat (file_size f) + length src < 4294967296"
    and l: "l = cluster_lba L (current_cluster f) + cluster_offset f div 512"
    and f2: "f2 = f\<lparr>file_offset := file_offset f + t, cluster_offset := cluster_offset f + t, file_size := file_offset f + t\<rparr>"
    and d2: "d2 = d\<lparr>sectors := (sectors d)(l := copy_into (sectors d l) (unat (cluster_offset f) mod 512) src)\<rparr>"
  shows "ata_read_sector d l = Some (sectors d l)" and "ata_write_sector d l buf = (0, d\<lparr>sectors := (sectors d)(l := buf)\<rparr>)"
    and "app_ok L d2 f2 cs" and "file_contents L d2 cs (unat (file_size f) + length src) = file_contents L d cs (unat (file_size f)) @ src"
proof -
  let ?n = "unat (file_size f)"
  have vol: "vol_ok L d" and ds: "dsec_ok L d cs (dir_entry_sector f)"
    and ch: "cchain (fat_get_next_cluster L d) (of_first_cluster f) cs" and tab: "\<forall>x \<in> set cs. in_fat L x"
    and cur: "current_cluster f = last cs" "?n = (length cs - 1) * csz L + unat (cluster_offset f)" and eq: "file_offset f = file_size f"
    using ok by (auto simp: app_ok_def)
  have wf: "lay_wf L" "disk_wf d" and s: "0 < spc L" using vol by (auto simp: vol_ok_def fat_ok_def)
  have val: "\<forall>x \<in> set cs. valid_cluster x" using cchain_valid [OF ch] by blast
  have nd: "?n div csz L = length cs - 1" "?n mod csz L = unat (cluster_offset f)" using cur(2) co by simp_all
  have "length cs * csz L = (length cs - 1) * csz L + csz L" using ok(2) by (cases cs) auto
  then have lt: "?n < length cs * csz L" using cur(2) co by simp
  have p512: "?n mod 512 = unat (cluster_offset f) mod 512" using offset_div(3) [OF s, of ?n] nd by simp
  have cl: "current_cluster f = cs ! (?n div csz L)" using cur(1) ok(2) nd(1) by (simp add: last_conv_nth)
  note fs = file_sector [OF app_ok_file_ok [OF ok(1)] lt cl nd(2) [symmetric]]
  have lq: "l = chain_lbas L cs ! (?n div 512)" using fs(3) l by simp
  have q: "?n div 512 < length cs * spc L" using lt by (simp add: csz_def less_mult_imp_div_less algebra_simps)
  let ?c = "cs ! (?n div 512 div spc L)"
  have c: "?c \<in> set cs" using q by (simp add: less_mult_imp_div_less)
  have lc: "l \<in> data_secs L ?c" using chain_lbas_data [OF q s] lq by simp
  have b: "unat l < 268435456" "unat (root_dir_start_lba L) \<le> unat l" using data_secs_bounds [OF wf(1) _ lc] val c by auto
  have good: "\<not> rd_bad d l" "\<not> wr_bad d l"
    using vol tab c lc val by (auto simp: vol_ok_def good_sector_def data_secs_def valid_cluster_def)
  show "ata_read_sector d l = Some (sectors d l)" "ata_write_sector d l buf = (0, d\<lparr>sectors := (sectors d)(l := buf)\<rparr>)"
    using b good by (simp_all add: ata_read_sector_def ata_write_sector_def)
  have ml: "unat (cluster_offset f) mod 512 + length src \<le> 512"
  proof -
    have "unat (cluster_offset f) mod 512 < 512" by simp
    then show ?thesis using t(2) by linarith
  qed
  have dw: "disk_wf d2" using wf(2) ml by (simp add: disk_wf_def d2)
  have sf: "same_fat L d d2" using b(2) by (auto simp: same_fat_def d2)
  have vol2: "vol_ok L d2" using same_fat_vol [OF sf vol dw] .
  have g: "fat_get_next_cluster L d2 x = fat_get_next_cluster L d x" if "in_fat L x" for x
    using same_fat_get [OF sf _ that] vol by (simp add: vol_ok_def)
  have ch2: "cchain (fat_get_next_cluster L d2) (of_first_cluster f) cs" using ch tab g by (subst cchain_cong) auto
  have lds: "l \<noteq> dir_entry_sector f" using ds lc c tab val by (auto simp: dsec_ok_def valid_cluster_def)
  have u: "unat (file_offset f + t) = ?n + length src" using t(1,3) eq by (simp add: unat_add_u32)
  have "unat (cluster_offset f) + length src \<le> csz L"
    using offset_le_csz [OF s co t(2)] .
  moreover have uc: "unat (cluster_offset f + t) = unat (cluster_offset f) + length src"
    using t(1) co csz_bound [of L] t(2) by (subst unat_add_u32) auto
  ultimately show "app_ok L d2 f2 cs"
    unfolding app_ok_def
  proof (intro conjI)
    show "dsec_ok L d2 cs (dir_entry_sector f2)"
      by (rule dsec_ok_mono [where d = d and cs = cs]) (use ds g in \<open>auto simp: f2 d2\<close>)
  qed (use vol2 ch2 tab g ok lds u uc cur in \<open>auto simp: app_ok_def f2 d2\<close>)
  have "chain_data L d2 cs = copy_into (chain_data L d cs) ?n src"
    using chain_data_write [OF wf cchain_distinct [OF ch] val s lt _ lq, of src] ml p512 by (simp add: d2)
  then show "file_contents L d2 cs (?n + length src) = file_contents L d cs ?n @ src"
    using length_chain_data [OF wf(2), of L cs] lt by (simp add: file_contents_def copy_into_def)
qed

lemma same_file_trans: "same_file f g \<Longrightarrow> same_file g h \<Longrightarrow> same_file f h"
  by (simp add: same_file_def)

text \<open>What \<open>w\<close> written bytes mean.\<close>

definition wrote :: "fat_layout \<Rightarrow> ata_disk \<Rightarrow> open_file \<Rightarrow> u16 list \<Rightarrow> bytes \<Rightarrow> ata_disk \<Rightarrow> open_file \<Rightarrow> u16 list \<Rightarrow> bool" where
  "wrote L d f cs src d' f' cs' \<longleftrightarrow> app_ok L d' f' cs' \<and> same_file f f' \<and> unat (file_size f') = unat (file_size f) + length src \<and>
     file_contents L d' cs' (unat (file_size f')) = file_contents L d cs (unat (file_size f)) @ src"

lemma wrote_trans: "wrote L d f cs a d1 f1 cs1 \<Longrightarrow> wrote L d1 f1 cs1 b d2 f2 cs2 \<Longrightarrow> wrote L d f cs (a @ b) d2 f2 cs2"
  by (auto simp: wrote_def same_file_def)

text \<open>One round: the next \<open>t\<close> bytes of the buffer go to the end of the file.\<close>

lemma fat_write_loop_round:
  assumes ok: "app_ok L d f cs" and b: "b < len" "unat len \<le> length buffer" "unat (file_size f) + (unat len - unat b) < 4294967296"
  obtains (full) "fat_write_loop L d f buffer len b = (b, f, d)" "fat_full L d"
    | (more) t d2 f2 cs2 where "fat_write_loop L d f buffer len b = fat_write_loop L d2 f2 buffer len (b + t)"
        "0 < t" "t \<le> len - b" "wrote L d f cs (take (unat t) (drop (unat b) buffer)) d2 f2 cs2"
proof (cases rule: fat_write_cluster_spec [OF ok])
  case 1
  then show ?thesis using that(1) b(1) by (simp add: fat_write_loop.simps [of L d f])
next
  case (2 f1 d1 cs1)
  define t where "t = (if 512 - cluster_offset f1 mod 512 < len - b then 512 - cluster_offset f1 mod 512 else len - b)"
  define src where "src = take (unat t) (drop (unat b) buffer)"
  define l where "l = cluster_lba L (current_cluster f1) + cluster_offset f1 div 512"
  define f2 where "f2 = f1\<lparr>file_offset := file_offset f1 + t, cluster_offset := cluster_offset f1 + t, file_size := file_offset f1 + t\<rparr>"
  define d2 where "d2 = d1\<lparr>sectors := (sectors d1)(l := copy_into (sectors d1 l) (unat (cluster_offset f1) mod 512) src)\<rparr>"
  have t: "0 < t" "t \<le> len - b" using b(1) room_u32 left_u32 by (auto simp: t_def not_less)
  have tl: "unat t \<le> unat len - unat b" using t(2) b(1) by (simp add: word_le_nat_alt unat_sub_u32 word_less_nat_alt)
  have sl: "unat t = length src" using tl b(2) by (simp add: src_def)
  have "t \<le> 512 - cluster_offset f1 mod 512" by (auto simp: t_def not_less)
  then have t512: "length src \<le> 512 - unat (cluster_offset f1) mod 512" using sl by (simp add: word_le_nat_alt unat_sector_room)
  have room: "unat (file_size f1) + length src < 4294967296" using b(3) tl sl 2(5) by simp
  note ws = write_step [OF 2(2,3,6) sl t512 room l_def f2_def d2_def]
  have eq: "file_offset f1 = file_size f1" using 2(2) by (simp add: app_ok_def)
  have "unat (file_offset f1 + t) = unat (file_size f1) + unat t" using room sl eq by (simp add: unat_add_u32)
  then have grow: "file_size f1 < file_offset f1 + t" using t(1) by (simp add: word_less_nat_alt)
  have om: "unat (cluster_offset f1 mod 512) = unat (cluster_offset f1) mod 512" by (simp add: unat_mod)
  have "fat_write_loop L d f buffer len b = fat_write_loop L d2 f2 buffer len (b + t)"
    by (subst fat_write_loop.simps)
       (simp only: b(1) if_True 2(1) prod.case option.case Let_def l_def [symmetric] ws(1,2) t_def [symmetric] om src_def [symmetric]
          grow f2_def [symmetric] d2_def [symmetric] simp_thms if_False)
  moreover have "wrote L d f cs src d2 f2 cs1"
    using ws(3,4) 2(4,5,7) sl room eq
    by (simp add: wrote_def f2_def same_file_def unat_add_u32)
  ultimately show ?thesis using that(2) t by (simp add: src_def)
qed

lemma fat_write_loop_spec:
  assumes "app_ok L d f cs" and "b \<le> len" and "unat len \<le> length buffer" and "unat (file_size f) + (unat len - unat b) < 4294967296"
  shows "\<exists>w f' d' cs'. fat_write_loop L d f buffer len b = (b + of_nat w, f', d') \<and> w \<le> unat len - unat b \<and>
    wrote L d f cs (take w (drop (unat b) buffer)) d' f' cs' \<and> (w < unat len - unat b \<longrightarrow> fat_full L d')"
  using assms
proof (induction "unat len - unat b" arbitrary: b d f cs rule: less_induct)
  case less
  show ?case
  proof (cases "b < len")
    case False
    then have "b = len" using less.prems(2) by simp
    moreover have "wrote L d f cs [] d f cs" using less.prems(1) by (simp add: wrote_def same_file_def)
    ultimately show ?thesis using False by (intro exI [of _ 0]) (subst fat_write_loop.simps, auto)
  next
    case True
    from less.prems(1) True less.prems(3,4) show ?thesis
    proof (cases rule: fat_write_loop_round)
      case full
      moreover have "wrote L d f cs [] d f cs" using less.prems(1) by (simp add: wrote_def same_file_def)
      ultimately show ?thesis by (intro exI [of _ 0]) auto
    next
      case (more t d2 f2 cs2)
      have bt: "unat (b + t) = unat b + unat t" "unat b + unat t \<le> unat len" using unat_progress_u32 [OF True more(3)] by simp_all
      have t0: "0 < unat t" using more(2) by (simp add: word_less_nat_alt)
      have len: "length (take (unat t) (drop (unat b) buffer)) = unat t" using bt(2) less.prems(3) by simp
      have sz: "unat (file_size f2) = unat (file_size f) + unat t" "app_ok L d2 f2 cs2"
        using more(4) len by (simp_all only: wrote_def)
      have "unat len - unat (b + t) < unat len - unat b" "b + t \<le> len" "unat (file_size f2) + (unat len - unat (b + t)) < 4294967296"
        using bt t0 sz(1) less.prems(4) by (auto simp: word_le_nat_alt)
      from less.hyps [OF this(1) sz(2) this(2) less.prems(3) this(3)] obtain w f' d' cs' where
        w: "fat_write_loop L d2 f2 buffer len (b + t) = (b + t + of_nat w, f', d')" "w \<le> unat len - unat (b + t)"
          "wrote L d2 f2 cs2 (take w (drop (unat (b + t)) buffer)) d' f' cs'" "w < unat len - unat (b + t) \<longrightarrow> fat_full L d'"
        by blast
      have "take (unat t) (drop (unat b) buffer) @ take w (drop (unat b + unat t) buffer) = take (unat t + w) (drop (unat b) buffer)"
        using take_drop_split [of "unat t" "unat t + w" "unat b" buffer] by simp
      then have "wrote L d f cs (take (unat t + w) (drop (unat b) buffer)) d' f' cs'"
        using wrote_trans [OF more(4) w(3)] bt(1) by simp
      then show ?thesis using more(1) w bt
        by (intro exI [of _ "unat t + w"] exI [of _ f'] exI [of _ d'] exI [of _ cs']) (auto simp: add.assoc)
    qed
  qed
qed

section \<open>Properties of writing\<close>

lemma write_size_ok:
  assumes ok: "app_ok L d f cs"
  shows "app_ok L (fat_write_size d f) f cs" and "chain_data L (fat_write_size d f) cs = chain_data L d cs"
    and "de_file_size (dir_entry_at (sectors (fat_write_size d f) (dir_entry_sector f)) (unat (dir_entry_offset f))) = file_size f"
proof -
  let ?sec = "dir_entry_sector f" and ?off = "unat (dir_entry_offset f)"
  have vol: "vol_ok L d" and ds: "dsec_ok L d cs ?sec" and off: "?off < 16"
    and ch: "cchain (fat_get_next_cluster L d) (of_first_cluster f) cs" and tab: "\<forall>x \<in> set cs. in_fat L x"
    using ok by (auto simp: app_ok_def)
  have sec: "ata_lba28 ?sec = ?sec" "\<not> rd_bad d ?sec" "\<not> wr_bad d ?sec" "unat (root_dir_start_lba L) \<le> unat ?sec"
    using ds by (auto simp: dsec_ok_def good_sector_def)
  let ?d2 = "d\<lparr>sectors := (sectors d)(?sec := put_le32 (sectors d ?sec) (32 * ?off + 28) (file_size f))\<rparr>"
  have d2: "fat_write_size d f = ?d2"
    using sec by (simp add: fat_write_size_def ata_read_sector_def ata_write_sector_def)
  have len: "length (sectors d l) = 512" for l using vol by (simp add: vol_ok_def fat_ok_def disk_wf_def)
  have sf: "same_fat L d ?d2" using sec(4) by (auto simp: same_fat_def)
  have vol2: "vol_ok L ?d2" using same_fat_vol [OF sf vol] len by (simp add: disk_wf_def)
  have g: "fat_get_next_cluster L ?d2 x = fat_get_next_cluster L d x" if "in_fat L x" for x
    using same_fat_get [OF sf _ that] vol by (simp add: vol_ok_def)
  have ch2: "cchain (fat_get_next_cluster L ?d2) (of_first_cluster f) cs" using ch tab g by (subst cchain_cong) auto
  note e = dir_entry_at_put_size [OF off len]
  show "app_ok L (fat_write_size d f) f cs"
    unfolding d2 app_ok_def
  proof (intro conjI)
    show "dsec_ok L ?d2 cs ?sec" by (rule dsec_ok_mono [where d = d and cs = cs]) (use ds g in auto)
  qed (use vol2 ch2 tab g ok e in \<open>auto simp: app_ok_def\<close>)
  show "chain_data L (fat_write_size d f) cs = chain_data L d cs"
    unfolding d2
  proof (rule chain_data_cong)
    fix l assume l: "l \<in> set (chain_lbas L cs)"
    have s: "0 < spc L" using vol by (simp add: vol_ok_def)
    obtain c where "c \<in> set cs" "l \<in> data_secs L c" using set_chain_lbas [OF s l] by blast
    then show "sectors ?d2 l = sectors d l"
      using ds tab cchain_valid [OF ch] by (auto simp: dsec_ok_def valid_cluster_def)
  qed
  show "de_file_size (dir_entry_at (sectors (fat_write_size d f) ?sec) ?off) = file_size f" by (simp add: d2 e)
qed

text \<open>
  C8: a write through a descriptor that stands at the end of its file appends: it returns the
  number of bytes written, the file's contents are the old contents followed by exactly those
  bytes, and the directory entry on the disk records the new size and the first cluster, so that
  the file reads back that way even if it is never closed. Fewer bytes than asked for are written
  only when no cluster of the volume is left.
\<close>

theorem fat_write_appends:
  assumes "fd_index (open_files fs) fd = Some i" and "f = open_files fs ! i" and "writable f"
    and "app_ok (fs_lay fs) (fs_disk fs) f cs" and "unat len \<le> length buffer" and "len < 0x80000000"
    and "unat (file_size f) + unat len < 4294967296"
  shows "\<exists>w f' d' cs'. fat_write fs fd buffer len = (int w, fs\<lparr>fs_disk := d', open_files := (open_files fs)[i := f']\<rparr>) \<and>
    w \<le> unat len \<and> (w < unat len \<longrightarrow> fat_full (fs_lay fs) d') \<and>
    app_ok (fs_lay fs) d' f' cs' \<and> unat (file_size f') = unat (file_size f) + w \<and>
    file_ok (fs_lay fs) d' (of_first_cluster f') cs' (unat (file_size f')) \<and>
    file_contents (fs_lay fs) d' cs' (unat (file_size f')) =
      file_contents (fs_lay fs) (fs_disk fs) cs (unat (file_size f)) @ take w buffer \<and>
    de_file_size (dir_entry_at (sectors d' (dir_entry_sector f)) (unat (dir_entry_offset f))) = file_size f' \<and>
    de_first_cluster_low (dir_entry_at (sectors d' (dir_entry_sector f)) (unat (dir_entry_offset f))) = of_first_cluster f'"
proof -
  let ?L = "fs_lay fs"
  obtain w f' d' cs' where w: "fat_write_loop ?L (fs_disk fs) f buffer len 0 = (of_nat w, f', d')" "w \<le> unat len"
    "wrote ?L (fs_disk fs) f cs (take w buffer) d' f' cs'" "w < unat len \<longrightarrow> fat_full ?L d'"
    using fat_write_loop_spec [OF assms(4), of 0 len buffer] assms(5,7) by auto
  let ?d = "fat_write_size d' f'"
  have app: "app_ok ?L d' f' cs'" and sf: "same_file f f'" and sz: "unat (file_size f') = unat (file_size f) + w"
    and ct: "file_contents ?L d' cs' (unat (file_size f')) = file_contents ?L (fs_disk fs) cs (unat (file_size f)) @ take w buffer"
    using w(2,3) assms(5) by (auto simp: wrote_def)
  note ws = write_size_ok [OF app]
  have "sint (of_nat w :: u32) = int w" using w(2) assms(6) by (intro sint_of_nat_u32) (simp add: word_less_nat_alt)
  then have fw: "fat_write fs fd buffer len = (int w, fs\<lparr>fs_disk := ?d, open_files := (open_files fs)[i := f']\<rparr>)"
    using assms(1-3) w(1) by (simp add: fat_write_def)
  have "fat_full ?L ?d" if "fat_full ?L d'"
  proof -
    have "same_fat ?L d' ?d" using app by (auto simp: same_fat_def fat_write_size_def ata_read_sector_def ata_write_sector_def
          app_ok_def dsec_ok_def good_sector_def)
    then show ?thesis using that app same_fat_get by (auto simp: fat_full_def app_ok_def vol_ok_def)
  qed
  moreover have "file_ok ?L ?d (of_first_cluster f') cs' (unat (file_size f'))"
    using app_ok_file_ok [OF ws(1)] app_ok_size [OF ws(1)] by (simp add: file_ok_def)
  moreover have "de_first_cluster_low (dir_entry_at (sectors ?d (dir_entry_sector f)) (unat (dir_entry_offset f))) = of_first_cluster f'"
    using ws(1) sf by (simp add: app_ok_def same_file_def)
  ultimately show ?thesis
    using fw w(2,4) ws sz ct sf
    by (intro exI [of _ w] exI [of _ f'] exI [of _ ?d] exI [of _ cs']) (auto simp: file_contents_def same_file_def)
qed

text \<open>The empty volume with a descriptor open for writing on a new file whose entry is in the root directory.\<close>

definition file_w :: open_file where
  "file_w = \<lparr>in_use = True, file_size = 0, current_cluster = 0, of_first_cluster = 0, cluster_offset = 0, file_offset = 0,
     writable = True, dir_entry_sector = 3, dir_entry_offset = 0, owner_task_id = 1\<rparr>"

definition fs_w :: fat_fs where
  "fs_w = fs0\<lparr>open_files := (open_files fs0)[0 := file_w]\<rparr>"

lemma vol0_vol_ok: "vol_ok vol0 disk0"
  using vol0_ok by (simp add: vol_ok_def good_sector_def) (simp add: vol0_def disk0_def)

lemma file_w_ok: "app_ok (fs_lay fs_w) (fs_disk fs_w) file_w []"
proof -
  have "3 \<notin> data_secs vol0 c" if "in_fat vol0 c" "2 \<le> c" for c
  proof
    assume "3 \<in> data_secs vol0 c"
    then have "unat (data_start_lba vol0) \<le> unat (3 :: u32)"
      using vol0_ok by (intro data_secs_bounds(1) [OF _ in_fat_valid [OF vol0_vol_ok that]]) (auto simp: fat_ok_def)
    then show False by (simp add: vol0_def)
  qed
  then have "dsec_ok vol0 disk0 [] 3" by (auto simp: dsec_ok_def good_sector_def vol0_def disk0_def)
  moreover have "get_le16 (replicate 512 0) 26 = 0" by (simp add: get_le16_def)
  then have "de_first_cluster_low (dir_entry_at (sectors disk0 3) 0) = 0" by (simp add: dir_entry_at_def Let_def disk0_def)
  ultimately show ?thesis
    using vol0_vol_ok by (simp add: app_ok_def fs_w_def fs0_def file_w_def valid_cluster_def)
qed

theorem fat_write_appends_witness:
  "\<exists>w f' d' cs'. fat_write fs_w 3 (cstr ''hello'') 5 = (int w, fs_w\<lparr>fs_disk := d', open_files := (open_files fs_w)[0 := f']\<rparr>) \<and>
     w \<le> 5 \<and> file_contents vol0 d' cs' w = take w (cstr ''hello'')"
proof -
  have a: "fd_index (open_files fs_w) 3 = Some 0" "file_w = open_files fs_w ! 0" "writable file_w" "fs_lay fs_w = vol0"
    by (simp_all add: fs_w_def fs0_def fd_index_def FAT_FD_BASE_def MAX_OPEN_FILES_def file_w_def)
  have b: "unat (5 :: u32) \<le> length (cstr ''hello'')" "(5 :: u32) < 0x80000000" "unat (file_size file_w) + unat (5 :: u32) < 4294967296"
    "file_size file_w = 0"
    by (simp_all add: cstr_def file_w_def)
  show ?thesis using fat_write_appends [OF a(1-3) file_w_ok b(1-3)] a(4) b(4) by (auto simp: file_contents_def)
qed


text \<open>A descriptor that has just filled cluster 2 of the chain 2, 5, 3.\<close>

definition file_mid :: open_file where
  "file_mid = file_a\<lparr>writable := True, cluster_offset := 512, file_offset := 512\<rparr>"


end
