(* ===== verification/Net_Ip.thy ===== *)
theory Net_Ip
  imports Harold_Base
begin

unbundle bit_operations_syntax

text \<open>
  The link and network layers: the frames of the network card (src/src/rtl8139.c), the ARP cache
  and protocol (src/src/arp.c) and IPv4 (src/src/ip.c), with the state of the whole network stack.
  The card is hardware: what it answers when it is polled is a field of its state.
\<close>

section \<open>State\<close>

text \<open>
  The driver's statics, and the card: \<open>sent\<close> logs the transmissions with their descriptor,
  \<open>tx_ok\<close> says which of them the card completes, \<open>bufe\<close> and \<open>rx_dma\<close> are the
  buffer-empty bit and the contents of the receive buffer at each poll of the command register.
\<close>

record rtl8139 =
  present :: bool
  mac :: bytes
  tx_desc_index :: nat
  rx_read_offset :: u16
  sent :: "(nat \<times> bytes) list"
  tx_ok :: "nat \<Rightarrow> bool"
  cr_polls :: nat
  bufe :: "nat \<Rightarrow> bool"
  rx_dma :: "nat \<Rightarrow> bytes"

record arp_cache_entry =
  ae_ip :: bytes
  ae_mac :: bytes
  ae_valid :: bool

datatype tcp_state = TCP_CLOSED | TCP_SYN_RECEIVED | TCP_ESTABLISHED | TCP_CLOSE_WAIT | TCP_LAST_ACK

record tcp_connection =
  remote_ip :: bytes
  remote_mac :: bytes
  local_port :: u16
  remote_port :: u16
  our_seq :: u32
  their_seq :: u32
  state :: tcp_state
  rx_buffer :: bytes
  rx_head :: u16
  rx_tail :: u16
  rx_closed :: bool
  accepted :: bool
  pending_data :: bytes
  pending_len :: u16
  pending_seq :: u32
  pending_flags :: u8
  pending :: bool
  last_send_tick :: u32
  retransmit_count :: int
  current_rto :: u32
  srtt :: u32
  rttvar :: u32
  rto :: u32
  rtt_valid :: bool

record net =
  nic :: rtl8139
  ticks :: u32
  arp_cache :: "arp_cache_entry list"
  arp_cache_next_slot :: nat
  our_ip :: bytes
  our_netmask :: bytes
  our_gateway :: bytes
  gateway_configured :: bool
  capture_armed :: bool
  capture_port :: u16
  capture_ready :: bool
  capture_buf :: bytes
  capture_len :: u16
  capture_source_ip :: bytes
  dns_server_ip :: bytes
  dns_server_configured :: bool
  connections :: "tcp_connection list"

section \<open>The network card\<close>

definition RTL8139_MIN_FRAME_SIZE :: nat where "RTL8139_MIN_FRAME_SIZE = 60"
definition RTL8139_TX_DESC_COUNT :: nat where "RTL8139_TX_DESC_COUNT = 4"
definition RTL8139_RX_RING_SIZE :: u16 where "RTL8139_RX_RING_SIZE = 8192"

text \<open>The frame as it stands in \<open>tx_buffer\<close> (1514 bytes), padded to the minimum size.\<close>

definition rtl8139_tx_frame :: "bytes \<Rightarrow> u16 \<Rightarrow> bytes" where
  "rtl8139_tx_frame frame_data frame_len =
     (let send_len = (if unat frame_len > 1514 then 1514 else unat frame_len)
      in take send_len frame_data @ replicate (RTL8139_MIN_FRAME_SIZE - send_len) 0)"

definition rtl8139_send_frame :: "rtl8139 \<Rightarrow> bytes \<Rightarrow> u16 \<Rightarrow> bool \<times> rtl8139" where
  "rtl8139_send_frame n frame_data frame_len =
     (if \<not> present n then (False, n)
      else (tx_ok n (length (sent n)),
            n\<lparr>tx_desc_index := (tx_desc_index n + 1) mod RTL8139_TX_DESC_COUNT,
              sent := sent n @ [(tx_desc_index n, rtl8139_tx_frame frame_data frame_len)]\<rparr>))"

text \<open>The packet at the read offset: its length without the CRC, cut at the caller's buffer, and its bytes.\<close>

definition rtl8139_rx_packet :: "bytes \<Rightarrow> u16 \<Rightarrow> u16 \<Rightarrow> u16 \<times> bytes" where
  "rtl8139_rx_packet buf offset max_len =
     (let status = get_le16 buf (unat offset);
          sz = get_le16 buf (unat offset + 2);
          packet_len = (if status AND 1 \<noteq> 0 then if max_len < sz - 4 then max_len else sz - 4 else 0)
      in (packet_len, take (unat packet_len) (drop (unat offset + 4) buf)))"

definition rtl8139_rx_advance :: "bytes \<Rightarrow> u16 \<Rightarrow> u16" where
  "rtl8139_rx_advance buf offset =
     (let sz = get_le16 buf (unat offset + 2);
          off = (offset + sz + 4 + 3) AND NOT 3
      in if RTL8139_RX_RING_SIZE < off then off - RTL8139_RX_RING_SIZE else off)"

partial_function (option) rtl8139_receive_packet :: "rtl8139 \<Rightarrow> u16 \<Rightarrow> (nat \<times> bytes \<times> rtl8139) option" where
  "rtl8139_receive_packet n max_len =
     (if \<not> present n then Some (0, [], n)
      else let n1 = n\<lparr>cr_polls := cr_polls n + 1\<rparr> in
        if bufe n (cr_polls n) then Some (0, [], n1)
        else let buf = rx_dma n (cr_polls n);
                 n2 = n1\<lparr>rx_read_offset := rtl8139_rx_advance buf (rx_read_offset n)\<rparr>
             in case rtl8139_rx_packet buf (rx_read_offset n) max_len of
                  (packet_len, out) \<Rightarrow>
                    if 0 < packet_len then Some (unat packet_len, out, n2)
                    else rtl8139_receive_packet n2 max_len)"

definition rtl8139_get_mac :: "rtl8139 \<Rightarrow> bytes" where
  "rtl8139_get_mac n = take 6 (mac n)"

section \<open>ARP\<close>

definition ARP_OP_REQUEST :: u16 where "ARP_OP_REQUEST = 1"
definition ARP_OP_REPLY :: u16 where "ARP_OP_REPLY = 2"
definition ARP_FRAME_SIZE :: nat where "ARP_FRAME_SIZE = 42"
definition ARP_POLL_ATTEMPTS :: nat where "ARP_POLL_ATTEMPTS = 2000000"
definition ARP_CACHE_SIZE :: nat where "ARP_CACHE_SIZE = 16"

text \<open>The slot that holds a valid entry for an address, if any.\<close>

definition arp_cache_slot :: "arp_cache_entry list \<Rightarrow> bytes \<Rightarrow> nat option" where
  "arp_cache_slot cache ip =
     find (\<lambda>i. ae_valid (cache ! i) \<and> list_all (\<lambda>j. ae_ip (cache ! i) ! j = ip ! j) [0..<4]) [0..<ARP_CACHE_SIZE]"

definition arp_cache_lookup :: "net \<Rightarrow> bytes \<Rightarrow> bytes option" where
  "arp_cache_lookup s ip =
     (case arp_cache_slot (arp_cache s) ip of None \<Rightarrow> None | Some i \<Rightarrow> Some (take 6 (ae_mac (arp_cache s ! i))))"

definition arp_cache_insert :: "net \<Rightarrow> bytes \<Rightarrow> bytes \<Rightarrow> net" where
  "arp_cache_insert s ip hw =
     (case arp_cache_slot (arp_cache s) ip of
        Some i \<Rightarrow> s\<lparr>arp_cache := (arp_cache s)[i := (arp_cache s ! i)\<lparr>ae_mac := take 6 hw\<rparr>]\<rparr>
      | None \<Rightarrow>
          let slot = arp_cache_next_slot s
          in s\<lparr>arp_cache_next_slot := (arp_cache_next_slot s + 1) mod ARP_CACHE_SIZE,
               arp_cache := (arp_cache s)[slot := \<lparr>ae_ip = take 4 ip, ae_mac = take 6 hw, ae_valid = True\<rparr>]\<rparr>)"

text \<open>The 42 bytes of an ARP frame, as both functions that build one lay it out.\<close>

definition arp_frame :: "bytes \<Rightarrow> bytes \<Rightarrow> u16 \<Rightarrow> bytes \<Rightarrow> bytes \<Rightarrow> bytes \<Rightarrow> bytes \<Rightarrow> bytes" where
  "arp_frame dest src oper sha spa tha tpa =
     (let eth = take 6 dest @ take 6 src @ [0x08, 0x06];
          arp = put_be16 (put_be16 (put_be16 (replicate 28 0) 0 1) 2 0x0800) 6 oper;
          arp1 = arp[4 := 6, 5 := 4];
          arp2 = copy_into (copy_into (copy_into (copy_into arp1 8 (take 6 sha)) 14 (take 4 spa)) 18 (take 6 tha)) 24 (take 4 tpa)
      in eth @ arp2)"

text \<open>Whether a received frame answers a request for \<open>target_ip\<close>, and with which address.\<close>

definition arp_reply_for :: "bytes \<Rightarrow> nat \<Rightarrow> bytes \<Rightarrow> bytes option" where
  "arp_reply_for rx_buf len target_ip =
     (if len < ARP_FRAME_SIZE then None
      else if rx_buf ! 12 \<noteq> 0x08 \<or> rx_buf ! 13 \<noteq> 0x06 then None
      else if get_be16 (drop 14 rx_buf) 6 \<noteq> ARP_OP_REPLY then None
      else if \<not> list_all (\<lambda>i. drop 14 rx_buf ! (14 + i) = target_ip ! i) [0..<4] then None
      else Some (take 6 (drop 8 (drop 14 rx_buf))))"

fun arp_wait :: "net \<Rightarrow> bytes \<Rightarrow> nat \<Rightarrow> (bytes option \<times> net) option" where
  "arp_wait s target_ip 0 = Some (None, s)"
| "arp_wait s target_ip (Suc attempts) =
     (case rtl8139_receive_packet (nic s) 128 of
        None \<Rightarrow> None
      | Some (len, rx_buf, n) \<Rightarrow>
          let s1 = s\<lparr>nic := n\<rparr> in
          case arp_reply_for rx_buf len target_ip of
            None \<Rightarrow> arp_wait s1 target_ip attempts
          | Some out_mac \<Rightarrow> Some (Some out_mac, arp_cache_insert s1 target_ip out_mac))"

definition arp_resolve :: "net \<Rightarrow> bytes \<Rightarrow> (bytes option \<times> net) option" where
  "arp_resolve s target_ip =
     (case arp_cache_lookup s target_ip of
        Some m \<Rightarrow> Some (Some m, s)
      | None \<Rightarrow>
          let hw = rtl8139_get_mac (nic s);
              frame = arp_frame (replicate 6 0xFF) hw ARP_OP_REQUEST hw (replicate 4 0) (replicate 6 0) target_ip;
              s1 = s\<lparr>nic := snd (rtl8139_send_frame (nic s) frame 42)\<rparr>
          in arp_wait s1 target_ip ARP_POLL_ATTEMPTS)"

definition arp_respond_if_request :: "net \<Rightarrow> bytes \<Rightarrow> nat \<Rightarrow> bytes \<Rightarrow> bool \<times> net" where
  "arp_respond_if_request s frame frame_len ip =
     (let request_arp = drop 14 frame in
      if frame_len < ARP_FRAME_SIZE then (False, s)
      else if frame ! 12 \<noteq> 0x08 \<or> frame ! 13 \<noteq> 0x06 then (False, s)
      else if get_be16 request_arp 6 \<noteq> ARP_OP_REQUEST then (False, s)
      else if \<not> list_all (\<lambda>i. request_arp ! (24 + i) = ip ! i) [0..<4] then (False, s)
      else let hw = rtl8139_get_mac (nic s);
               requester_mac = take 6 (drop 8 request_arp);
               requester_ip = take 4 (drop 14 request_arp);
               s1 = arp_cache_insert s requester_ip requester_mac;
               reply = arp_frame requester_mac hw ARP_OP_REPLY hw ip requester_mac requester_ip
           in (True, s1\<lparr>nic := snd (rtl8139_send_frame (nic s1) reply 42)\<rparr>))"

section \<open>IPv4\<close>

definition ETH_HEADER_LEN :: nat where "ETH_HEADER_LEN = 14"
definition IP_HEADER_LEN :: nat where "IP_HEADER_LEN = 20"

definition ip_set_address :: "net \<Rightarrow> bytes \<Rightarrow> net" where
  "ip_set_address s ip = s\<lparr>our_ip := take 4 ip\<rparr>"

definition ip_get_address :: "net \<Rightarrow> bytes" where
  "ip_get_address s = take 4 (our_ip s)"

definition ip_set_netmask :: "net \<Rightarrow> bytes \<Rightarrow> net" where
  "ip_set_netmask s m = s\<lparr>our_netmask := take 4 m\<rparr>"

definition ip_set_gateway :: "net \<Rightarrow> bytes \<Rightarrow> net" where
  "ip_set_gateway s gw = s\<lparr>our_gateway := take 4 gw, gateway_configured := True\<rparr>"

definition ip_resolve_route :: "net \<Rightarrow> bytes \<Rightarrow> (bytes option \<times> net) option" where
  "ip_resolve_route s dest_ip =
     (let same_subnet = list_all (\<lambda>i. dest_ip ! i AND our_netmask s ! i = our_ip s ! i AND our_netmask s ! i) [0..<4]
      in if same_subnet then arp_resolve s dest_ip
         else if \<not> gateway_configured s then Some (None, s)
         else arp_resolve s (our_gateway s))"

text \<open>The first loop of \<open>ip_checksum\<close>, and the odd byte behind it.\<close>

fun ip_sum :: "u32 \<Rightarrow> bytes \<Rightarrow> u32" where
  "ip_sum acc (a # b # rest) = ip_sum (acc + ucast (push_bit 8 (ucast a) OR ucast b :: u16)) rest"
| "ip_sum acc [a] = acc + ucast (push_bit 8 (ucast a) :: u16)"
| "ip_sum acc [] = acc"

function ip_fold :: "u32 \<Rightarrow> u32" where
  "ip_fold s = (if drop_bit 16 s \<noteq> 0 then ip_fold ((s AND 0xFFFF) + drop_bit 16 s) else s)"
  by pat_completeness auto

definition ip_checksum :: "bytes \<Rightarrow> u16" where
  "ip_checksum d = ucast (NOT (ip_fold (ip_sum 0 d)))"

definition ip_addresses_match :: "bytes \<Rightarrow> bytes \<Rightarrow> bool" where
  "ip_addresses_match a b \<longleftrightarrow> list_all (\<lambda>i. a ! i = b ! i) [0..<4]"

text \<open>The IP header before and with its checksum.\<close>

definition ip_header0 :: "u8 \<Rightarrow> bytes \<Rightarrow> bytes \<Rightarrow> u16 \<Rightarrow> bytes" where
  "ip_header0 protocol src dest total_len =
     [0x45, 0x00, ucast (drop_bit 8 total_len), ucast (total_len AND 0xFF), 0x00, 0x00, 0x00, 0x00, 64, protocol, 0x00, 0x00]
     @ take 4 src @ take 4 dest"

definition ip_header :: "u8 \<Rightarrow> bytes \<Rightarrow> bytes \<Rightarrow> u16 \<Rightarrow> bytes" where
  "ip_header protocol src dest total_len =
     (let h = ip_header0 protocol src dest total_len; csum = ip_checksum h
      in h[10 := ucast (drop_bit 8 csum), 11 := ucast (csum AND 0xFF)])"

definition ip_frame :: "net \<Rightarrow> u8 \<Rightarrow> bytes \<Rightarrow> bytes \<Rightarrow> bytes \<Rightarrow> u16 \<Rightarrow> bytes" where
  "ip_frame s protocol dest_ip dest_mac payload payload_len =
     take 6 dest_mac @ rtl8139_get_mac (nic s) @ [0x08, 0x00]
     @ ip_header protocol (our_ip s) dest_ip (20 + payload_len) @ take (unat payload_len) payload"

definition ip_send :: "net \<Rightarrow> u8 \<Rightarrow> bytes \<Rightarrow> bytes \<Rightarrow> bytes \<Rightarrow> u16 \<Rightarrow> net" where
  "ip_send s protocol dest_ip dest_mac payload payload_len =
     (let plen = (if 1472 < payload_len then 1472 else payload_len);
          frame = ip_frame s protocol dest_ip dest_mac payload plen
      in s\<lparr>nic := snd (rtl8139_send_frame (nic s) frame (14 + 20 + plen))\<rparr>)"

text \<open>
  The parsing half of \<open>ip_receive\<close>: \<open>None\<close> when the frame is dropped, otherwise the protocol,
  the source addresses and the payload.
\<close>

definition ip_parse :: "net \<Rightarrow> bytes \<Rightarrow> int \<Rightarrow> (u8 \<times> bytes \<times> bytes \<times> bytes) option" where
  "ip_parse s frame frame_len =
     (let ip_hdr = drop ETH_HEADER_LEN frame in
      if frame_len < int (ETH_HEADER_LEN + IP_HEADER_LEN) then None
      else if drop_bit 4 (ip_hdr ! 0) \<noteq> 4 then None
      else let ihl_bytes = uint (ip_hdr ! 0 AND 0x0F) * 4;
               ip_total_length = push_bit 8 (ucast (ip_hdr ! 2)) OR ucast (ip_hdr ! 3) :: u16;
               frame_payload_available = frame_len - int ETH_HEADER_LEN - ihl_bytes;
               declared_payload_len = uint ip_total_length - ihl_bytes;
               len1 = (if declared_payload_len > frame_payload_available then frame_payload_available else declared_payload_len);
               payload_len = (if len1 < 0 then 0 else len1)
           in if \<not> ip_addresses_match (take 4 (drop 16 ip_hdr)) (our_ip s) then None
              else Some (ip_hdr ! 9, take 4 (drop 12 ip_hdr), take 6 (drop 6 frame),
                         take (nat payload_len) (drop (ETH_HEADER_LEN + nat ihl_bytes) frame)))"

section \<open>The checksum loop ends\<close>

lemma ip_fold_less:
  assumes "drop_bit 16 (s :: u32) \<noteq> 0"
  shows "unat ((s AND 0xFFFF) + drop_bit 16 s) < unat s"
    and "unat ((s AND 0xFFFF) + drop_bit 16 s) = unat s mod 65536 + unat s div 65536"
proof -
  have m: "(0xFFFF :: u32) = mask 16" by (simp add: mask_eq_exp_minus_1)
  have lo: "unat (s AND 0xFFFF) = unat s mod 65536" unfolding m by (simp add: unat_and_mask)
  have hi: "unat (drop_bit 16 s) = unat s div 65536" by (simp only: unat_drop_bit_div) simp
  have "unat s div 65536 \<noteq> 0" using assms hi by (metis unat_eq_zero)
  then have d: "0 < unat s div 65536" by simp
  have "unat s div 65536 < 65536" using unat_less_u32 [of s] by (simp add: less_mult_imp_div_less)
  moreover have "unat s mod 65536 < 65536" by simp
  ultimately show e: "unat ((s AND 0xFFFF) + drop_bit 16 s) = unat s mod 65536 + unat s div 65536"
    using lo hi by (subst unat_add_u32) auto
  have "unat s = unat s div 65536 * 65536 + unat s mod 65536" by simp
  then show "unat ((s AND 0xFFFF) + drop_bit 16 s) < unat s" using e d by linarith
qed

termination ip_fold
  by (relation "measure unat") (simp_all add: ip_fold_less(1) del: unat_word_ariths)

declare ip_fold.simps [simp del]

end
