(* ===== verification/Net_Udp.thy ===== *)
theory Net_Udp
  imports Net_Ip
begin

unbundle bit_operations_syntax

text \<open>
  The datagram protocols on top of IP: the ICMP echo responder (src/src/icmp.c), UDP with its
  one-shot capture of a reply (src/src/udp.c) and the DNS resolver (src/src/dns.c). Where the
  code halts until the next interrupt, the argument \<open>hlt\<close> is what the interrupt handlers and
  the other tasks do to the network state in between.
\<close>

section \<open>ICMP\<close>

definition ICMP_TYPE_ECHO_REQUEST :: u8 where "ICMP_TYPE_ECHO_REQUEST = 8"
definition ICMP_TYPE_ECHO_REPLY :: u8 where "ICMP_TYPE_ECHO_REPLY = 0"
definition ICMP_HEADER_LEN :: u16 where "ICMP_HEADER_LEN = 8"

definition icmp_handle :: "net \<Rightarrow> bytes \<Rightarrow> bytes \<Rightarrow> bytes \<Rightarrow> u16 \<Rightarrow> net" where
  "icmp_handle s source_ip source_mac icmp_data icmp_len =
     (if icmp_len < ICMP_HEADER_LEN then s
      else if icmp_data ! 0 \<noteq> ICMP_TYPE_ECHO_REQUEST then s
      else let len = (if 1472 < icmp_len then 1472 else icmp_len);
               reply = (take (unat len) icmp_data)[0 := ICMP_TYPE_ECHO_REPLY, 1 := 0, 2 := 0x00, 3 := 0x00];
               csum = ip_checksum reply
           in ip_send s 1 source_ip source_mac (reply[2 := ucast (drop_bit 8 csum), 3 := ucast (csum AND 0xFF)]) len)"

section \<open>UDP\<close>

definition UDP_HEADER_LEN :: u16 where "UDP_HEADER_LEN = 8"
definition PSEUDO_HEADER_LEN :: nat where "PSEUDO_HEADER_LEN = 12"
definition UDP_ECHO_PORT :: u16 where "UDP_ECHO_PORT = 7"
definition UDP_CAPTURE_BUF_SIZE :: nat where "UDP_CAPTURE_BUF_SIZE = 512"

text \<open>The buffer of \<open>udp_send\<close> before the checksum: pseudo-header, header and payload.\<close>

definition udp_buf :: "bytes \<Rightarrow> bytes \<Rightarrow> u16 \<Rightarrow> u16 \<Rightarrow> u16 \<Rightarrow> bytes \<Rightarrow> bytes" where
  "udp_buf src dest_ip source_port dest_port udp_len payload =
     take 4 src @ take 4 dest_ip @ [0x00, 17, ucast (drop_bit 8 udp_len), ucast (udp_len AND 0xFF)]
     @ [ucast (drop_bit 8 source_port), ucast (source_port AND 0xFF), ucast (drop_bit 8 dest_port), ucast (dest_port AND 0xFF),
        ucast (drop_bit 8 udp_len), ucast (udp_len AND 0xFF), 0x00, 0x00]
     @ payload"

definition udp_send :: "net \<Rightarrow> u16 \<Rightarrow> u16 \<Rightarrow> bytes \<Rightarrow> bytes \<Rightarrow> bytes \<Rightarrow> u16 \<Rightarrow> net" where
  "udp_send s source_port dest_port dest_ip dest_mac payload payload_len =
     (let plen = (if 1472 < payload_len then 1472 else payload_len);
          udp_len = UDP_HEADER_LEN + plen;
          buf = udp_buf (ip_get_address s) dest_ip source_port dest_port udp_len (take (unat plen) payload);
          csum0 = ip_checksum (take (PSEUDO_HEADER_LEN + unat udp_len) buf);
          csum = (if csum0 = 0 then 0xFFFF else csum0);
          udp_hdr = (drop PSEUDO_HEADER_LEN buf)[6 := ucast (drop_bit 8 csum), 7 := ucast (csum AND 0xFF)]
      in ip_send s 17 dest_ip dest_mac udp_hdr udp_len)"

definition udp_receive :: "net \<Rightarrow> bytes \<Rightarrow> bytes \<Rightarrow> bytes \<Rightarrow> u16 \<Rightarrow> net" where
  "udp_receive s source_ip source_mac udp_data udp_len =
     (if udp_len < UDP_HEADER_LEN then s
      else let source_port = get_be16 udp_data 0;
               dest_port = get_be16 udp_data 2;
               payload = drop (unat UDP_HEADER_LEN) udp_data;
               payload_len = udp_len - UDP_HEADER_LEN
           in if capture_armed s \<and> dest_port = capture_port s then
                let copy_len = (if UDP_CAPTURE_BUF_SIZE < unat payload_len then of_nat UDP_CAPTURE_BUF_SIZE else payload_len)
                in s\<lparr>capture_buf := copy_into (capture_buf s) 0 (take (unat copy_len) payload),
                     capture_len := copy_len, capture_source_ip := take 4 source_ip,
                     capture_armed := False, capture_ready := True\<rparr>
              else if dest_port = UDP_ECHO_PORT then
                udp_send s UDP_ECHO_PORT source_port source_ip source_mac payload payload_len
              else s)"

definition udp_arm_response_capture :: "net \<Rightarrow> u16 \<Rightarrow> net" where
  "udp_arm_response_capture s lport = s\<lparr>capture_ready := False, capture_port := lport, capture_armed := True\<rparr>"

partial_function (option) udp_wait_loop :: "(net \<Rightarrow> net) \<Rightarrow> net \<Rightarrow> u32 \<Rightarrow> u32 \<Rightarrow> (bool \<times> net) option" where
  "udp_wait_loop hlt s start timeout_ticks =
     (if capture_ready s then Some (True, s\<lparr>capture_armed := False\<rparr>)
      else if timeout_ticks \<le> ticks s - start then Some (False, s\<lparr>capture_armed := False\<rparr>)
      else udp_wait_loop hlt (hlt s) start timeout_ticks)"

text \<open>The reply's bytes and its source address, or \<open>None\<close> on a timeout.\<close>

definition udp_wait_for_response :: "(net \<Rightarrow> net) \<Rightarrow> net \<Rightarrow> u32 \<Rightarrow> u32 \<Rightarrow> ((bytes \<times> bytes) option \<times> net) option" where
  "udp_wait_for_response hlt s buf_size timeout_ticks =
     (case udp_wait_loop hlt s (ticks s) timeout_ticks of
        None \<Rightarrow> None
      | Some (False, s1) \<Rightarrow> Some (None, s1)
      | Some (True, s1) \<Rightarrow>
          let copy_len = (if buf_size < ucast (capture_len s1) then ucast buf_size else capture_len s1)
          in Some (Some (take (unat copy_len) (capture_buf s1), take 4 (capture_source_ip s1)), s1))"

section \<open>DNS\<close>

definition DNS_PORT :: u16 where "DNS_PORT = 53"
definition DNS_QUERY_LOCAL_PORT :: u16 where "DNS_QUERY_LOCAL_PORT = 53000"
definition DNS_TIMEOUT_TICKS :: u32 where "DNS_TIMEOUT_TICKS = 200"
definition DNS_MAX_NAME_LEN :: nat where "DNS_MAX_NAME_LEN = 253"

definition dns_set_server :: "net \<Rightarrow> bytes \<Rightarrow> net" where
  "dns_set_server s server_ip = s\<lparr>dns_server_ip := take 4 server_ip, dns_server_configured := True\<rparr>"

text \<open>The loop of \<open>dns_encode_name\<close>: \<open>out\<close> is what has been written so far.\<close>

function dns_encode_loop :: "bytes \<Rightarrow> nat \<Rightarrow> nat \<Rightarrow> nat \<Rightarrow> bytes \<Rightarrow> bytes option" where
  "dns_encode_loop hostname out_size label_start i out =
     (let c = (if i < length hostname then hostname ! i else 0) in
      if c = 0x2E \<or> c = 0 then
        let label_len = i - label_start in
        if label_len = 0 \<or> 63 < label_len \<or> out_size \<le> length out + 1 + label_len then None
        else let out1 = out @ [of_nat label_len] @ map (\<lambda>j. hostname ! (label_start + j)) [0..<label_len] in
             if c = 0 then Some out1
             else if DNS_MAX_NAME_LEN < i + 1 then None
             else dns_encode_loop hostname out_size (i + 1) (i + 1) out1
      else if DNS_MAX_NAME_LEN < i + 1 then None
      else dns_encode_loop hostname out_size label_start (i + 1) out)"
  by pat_completeness auto

termination dns_encode_loop
  by (relation "measure (\<lambda>(h, n, l, i, out). 254 - i)") (auto simp: DNS_MAX_NAME_LEN_def)

declare dns_encode_loop.simps [simp del]

definition dns_encode_name :: "bytes \<Rightarrow> nat \<Rightarrow> bytes option" where
  "dns_encode_name hostname out_size =
     (case dns_encode_loop hostname out_size 0 0 [] of
        None \<Rightarrow> None
      | Some out \<Rightarrow> if out_size \<le> length out then None else Some (out @ [0]))"

datatype dns_error = DNS_no_server | DNS_no_route | DNS_bad_name | DNS_timeout | DNS_short | DNS_bad_source
  | DNS_no_answers | DNS_no_A_record

definition dns_query_header :: bytes where
  "dns_query_header = [0x12, 0x34, 0x01, 0x00, 0x00, 0x01, 0x00, 0x00, 0x00, 0x00, 0x00, 0x00]"

text \<open>\<open>while (pos < response_len \&\& response[pos] != 0) pos += response[pos] + 1\<close>\<close>

function dns_skip_labels :: "bytes \<Rightarrow> nat \<Rightarrow> nat \<Rightarrow> nat" where
  "dns_skip_labels response response_len pos =
     (if pos < response_len \<and> response ! pos \<noteq> 0
      then dns_skip_labels response response_len (pos + unat (response ! pos) + 1) else pos)"
  by pat_completeness auto

termination dns_skip_labels
  by (relation "measure (\<lambda>(r, n, pos). n - pos)") auto

declare dns_skip_labels.simps [simp del]

text \<open>The loop over the answer records; \<open>n\<close> counts the records that are left.\<close>

fun dns_answers :: "bytes \<Rightarrow> nat \<Rightarrow> nat \<Rightarrow> nat \<Rightarrow> bytes option" where
  "dns_answers response response_len 0 pos = None"
| "dns_answers response response_len (Suc n) pos =
     (if \<not> pos < response_len then None
      else let pos1 = (if response ! pos AND 0xC0 = 0xC0 then pos + 2
                       else dns_skip_labels response response_len pos + 1) in
        if response_len < pos1 + 10 then None
        else let rtype = get_be16 response pos1;
                 rdlength = get_be16 response (pos1 + 8);
                 pos2 = pos1 + 10
             in if rtype = 1 \<and> rdlength = 4 \<and> pos2 + 4 \<le> response_len then Some (take 4 (drop pos2 response))
                else dns_answers response response_len n (pos2 + unat rdlength))"

definition dns_parse_response :: "bytes \<Rightarrow> nat \<Rightarrow> bytes \<Rightarrow> bytes \<Rightarrow> dns_error + bytes" where
  "dns_parse_response response response_len response_source_ip server_ip =
     (if response_len < 12 then Inl DNS_short
      else if \<not> list_all (\<lambda>i. response_source_ip ! i = server_ip ! i) [0..<4] then Inl DNS_bad_source
      else let ancount = get_be16 response 6 in
        if ancount = 0 then Inl DNS_no_answers
        else case dns_answers response response_len (unat ancount) (dns_skip_labels response response_len 12 + 1 + 4) of
               None \<Rightarrow> Inl DNS_no_A_record
             | Some out_ip \<Rightarrow> Inr out_ip)"

definition dns_resolve :: "(net \<Rightarrow> net) \<Rightarrow> net \<Rightarrow> bytes \<Rightarrow> ((dns_error + bytes) \<times> net) option" where
  "dns_resolve hlt s hostname =
     (if \<not> dns_server_configured s then Some (Inl DNS_no_server, s)
      else case ip_resolve_route s (dns_server_ip s) of
        None \<Rightarrow> None
      | Some (None, s1) \<Rightarrow> Some (Inl DNS_no_route, s1)
      | Some (Some dns_mac, s1) \<Rightarrow>
         (case dns_encode_name hostname (512 - 12 - 4) of
            None \<Rightarrow> Some (Inl DNS_bad_name, s1)
          | Some name \<Rightarrow>
              let query = dns_query_header @ name @ [0x00, 0x01, 0x00, 0x01];
                  s2 = udp_arm_response_capture s1 DNS_QUERY_LOCAL_PORT;
                  s3 = udp_send s2 DNS_QUERY_LOCAL_PORT DNS_PORT (dns_server_ip s2) dns_mac query (of_nat (length query))
              in case udp_wait_for_response hlt s3 512 DNS_TIMEOUT_TICKS of
                   None \<Rightarrow> None
                 | Some (None, s4) \<Rightarrow> Some (Inl DNS_timeout, s4)
                 | Some (Some (response, src), s4) \<Rightarrow>
                     Some (dns_parse_response response (length response) src (dns_server_ip s4), s4)))"

end
