(* ===== verification/Net_Ip_Spec.thy ===== *)
theory Net_Ip_Spec
  imports Net_Ip
begin

unbundle bit_operations_syntax

text \<open>
  The Internet checksum verifies, IP packets survive the trip through the card's padding, and
  the ARP cache answers with the last address it was told.
\<close>

section \<open>The Internet checksum\<close>

text \<open>The sum of the big-endian 16-bit words of a buffer, an odd last byte counting as a high byte.\<close>

fun wsum :: "bytes \<Rightarrow> nat" where
  "wsum (a # b # rest) = unat a * 256 + unat b + wsum rest"
| "wsum [a] = unat a * 256"
| "wsum [] = 0"

lemma wsum_bound: "wsum d \<le> 65535 * ((length d + 1) div 2)"
proof (induction d rule: wsum.induct)
  case (1 a b rest)
  then show ?case using unat_less_u8 [of a] unat_less_u8 [of b] by simp
next
  case (2 a)
  then show ?case using unat_less_u8 [of a] by simp
qed simp

lemma unat_be16: "unat (push_bit 8 (ucast (a :: u8)) OR ucast (b :: u8) :: u16) = unat a * 256 + unat b"
proof -
  have "push_bit 8 (ucast a) AND (ucast b :: u16) = 0"
    by (rule bit_word_eqI) (auto simp: bit_simps dest: bit_imp_le_length)
  then have "push_bit 8 (ucast a) OR ucast b = push_bit 8 (ucast a) + (ucast b :: u16)"
    by (simp add: disjunctive_add_eq_or [symmetric])
  moreover have "unat (push_bit 8 (ucast a) :: u16) = unat a * 256"
    unfolding unsigned_push_bit_eq unat_ucast_u8_u16
    using unat_less_u8 [of a] by (simp add: take_bit_eq_mod push_bit_eq_mult)
  ultimately show ?thesis
    using unat_less_u8 [of a] unat_less_u8 [of b] by (simp add: unat_word_ariths unat_ucast_u8_u16)
qed

lemma unat_be16_hi: "unat (push_bit 8 (ucast (a :: u8)) :: u16) = unat a * 256"
  using unat_be16 [of a 0] by simp

lemma ip_sum_nat: "unat acc + wsum d < 4294967296 \<Longrightarrow> unat (ip_sum acc d) = unat acc + wsum d"
proof (induction acc d rule: ip_sum.induct)
  case (1 acc a b rest)
  have w: "unat (ucast (push_bit 8 (ucast a) OR ucast b :: u16) :: u32) = unat a * 256 + unat b"
    by (simp only: unat_ucast_u16_u32 unat_be16)
  have "unat (acc + ucast (push_bit 8 (ucast a) OR ucast b :: u16)) = unat acc + (unat a * 256 + unat b)"
    using 1(2) w by (subst unat_add_u32) auto
  then show ?case using 1 by simp
next
  case (2 acc a)
  have w: "unat (ucast (push_bit 8 (ucast a) :: u16) :: u32) = unat a * 256"
    by (simp only: unat_ucast_u16_u32 unat_be16_hi)
  show ?case using 2 w by (simp add: unat_add_u32)
qed simp

lemma mod_65535_fold: "(n mod 65536 + n div 65536) mod 65535 = n mod (65535 :: nat)"
proof -
  have "n = n div 65536 * 65535 + (n mod 65536 + n div 65536)" by (simp add: mult.commute)
  then show ?thesis by (metis mod_mult_self3)
qed

lemma ip_fold_spec:
  "unat (ip_fold s) < 65536 \<and> unat (ip_fold s) mod 65535 = unat s mod 65535 \<and> (unat (ip_fold s) = 0 \<longleftrightarrow> unat s = 0)"
proof (induction s rule: ip_fold.induct)
  case (1 s)
  show ?case
  proof (cases "drop_bit 16 s \<noteq> 0")
    case True
    have hi: "unat (drop_bit 16 s) = unat s div 65536" by (simp only: unat_drop_bit_div) simp
    have nz: "unat s \<noteq> 0" using True by (metis drop_bit_of_0 unat_eq_zero)
    have "unat s div 65536 \<noteq> 0" using True hi by (metis unat_eq_zero)
    then show ?thesis
      using 1 [OF True] ip_fold_less(2) [OF True] mod_65535_fold [of "unat s"] nz True
      by (subst (1 2 3) ip_fold.simps) simp
  next
    case False
    then have "unat (drop_bit 16 s) = 0" by simp
    then have "unat s div 65536 = 0" by (simp only: unat_drop_bit_div) simp
    then have "unat s < 65536" by (simp add: div_eq_0_iff)
    then show ?thesis using False by (subst (1 2 3) ip_fold.simps) simp
  qed
qed

lemma unat_ip_checksum:
  assumes "length d < 100000"
  shows "unat (ip_checksum d) = 65535 - unat (ip_fold (of_nat (wsum d)))"
    and "unat (ip_fold (of_nat (wsum d))) < 65536"
    and "unat (ip_fold (of_nat (wsum d))) mod 65535 = wsum d mod 65535"
    and "unat (ip_fold (of_nat (wsum d))) = 0 \<longleftrightarrow> wsum d = 0"
proof -
  have b: "wsum d < 4294967296" using wsum_bound [of d] assms by linarith
  have "unat (ip_sum 0 d) = wsum d" using b ip_sum_nat [of 0 d] by simp
  then have "of_nat (unat (ip_sum 0 d)) = (of_nat (wsum d) :: u32)" by (simp only:)
  then have s: "ip_sum 0 d = of_nat (wsum d)" by simp
  let ?f = "ip_fold (of_nat (wsum d))"
  note sp = ip_fold_spec [of "of_nat (wsum d)"]
  show f: "unat ?f < 65536" "unat ?f mod 65535 = wsum d mod 65535" "unat ?f = 0 \<longleftrightarrow> wsum d = 0"
    using sp b by (simp_all add: unat_of_nat_u32)
  have "NOT ?f = 0xFFFFFFFF - ?f" by (simp add: not_eq_complement)
  moreover have "unat (0xFFFFFFFF - ?f) = unat (0xFFFFFFFF :: u32) - unat ?f"
    using unat_less_u32 [of ?f] by (intro unat_sub_u32) simp
  ultimately have "unat (NOT ?f) = 4294967295 - unat ?f" by simp
  then have "unat (ucast (NOT ?f) :: u16) = (4294967295 - unat ?f) mod 65536" by (simp only: unat_ucast_u32_u16)
  also have "\<dots> = (65535 * 65536 + (65535 - unat ?f)) mod 65536" using f(1) by simp
  also have "\<dots> = 65535 - unat ?f" by (simp only: mod_mult_self3) simp
  finally show "unat (ip_checksum d) = 65535 - unat ?f" by (simp add: ip_checksum_def s)
qed

text \<open>Filling a zero 16-bit field adds its value to the sum.\<close>

lemma wsum_update:
  "even i \<Longrightarrow> i + 1 < length d \<Longrightarrow> d ! i = 0 \<Longrightarrow> d ! (i + 1) = 0 \<Longrightarrow>
   wsum (d[i := a, i + 1 := b]) = wsum d + (unat a * 256 + unat b)"
proof (induction d arbitrary: i rule: wsum.induct)
  case (1 x y rest)
  show ?case
  proof (cases i)
    case (Suc j)
    then obtain k where k: "i = Suc (Suc k)" "even k" using 1(2) by (cases j) auto
    then show ?thesis using 1(1) [of k] 1(2-) by simp
  qed (use 1 in simp)
qed auto

lemma checksum_bytes: "unat (ucast (drop_bit 8 c) :: u8) * 256 + unat (ucast (c AND 0xFF) :: u8) = unat (c :: u16)"
proof -
  have m: "(0xFF :: u16) = mask 8" by (simp add: mask_eq_exp_minus_1)
  have "unat c div 256 < 256" using unat_less_u16 [of c] by (simp add: less_mult_imp_div_less)
  then have "unat (ucast (drop_bit 8 c) :: u8) = unat c div 256"
    by (simp add: unsigned_ucast_eq unsigned_take_bit_eq take_bit_eq_mod unat_drop_bit_div del: drop_bit_eq_div)
  moreover have "unat (ucast (c AND 0xFF) :: u8) = unat c mod 256"
    by (simp add: unsigned_ucast_eq unsigned_take_bit_eq take_bit_eq_mod m unat_and_mask)
  ultimately show ?thesis by simp
qed

text \<open>A sum that is positive and a multiple of 65535 has checksum 0.\<close>

lemma ip_checksum_zero:
  assumes "length d < 100000" and "wsum d mod 65535 = 0" and "0 < wsum d"
  shows "ip_checksum d = 0"
proof -
  note u = unat_ip_checksum [OF assms(1)]
  let ?f = "unat (ip_fold (of_nat (wsum d)))"
  have "?f \<noteq> 0" "?f mod 65535 = 0" "?f < 65536" using u(2-4) assms(2,3) by auto
  then have "?f = 65535" by (cases "?f < 65535") simp_all
  then have "unat (ip_checksum d) = 0" using u(1) by simp
  then show ?thesis by (simp add: unat_eq_zero)
qed

lemma checksum_verifies:
  assumes "even i" "i + 1 < length d" "d ! i = 0" "d ! (i + 1) = 0" "length d < 100000"
    and "c = ip_checksum d \<or> ip_checksum d = 0 \<and> c = 0xFFFF"
  shows "ip_checksum (d[i := ucast (drop_bit 8 c), i + 1 := ucast (c AND 0xFF)]) = 0"
proof -
  note u = unat_ip_checksum [OF assms(5)]
  let ?f = "unat (ip_fold (of_nat (wsum d)))"
  let ?d = "d[i := ucast (drop_bit 8 c), i + 1 := ucast (c AND 0xFF)]"
  have w: "wsum ?d = wsum d + unat c" using wsum_update [OF assms(1-4)] checksum_bytes [of c] by simp
  have c: "(wsum d + unat c) mod 65535 = 0 \<and> 0 < wsum d + unat c"
    using assms(6)
  proof
    assume "c = ip_checksum d"
    then have c: "unat c = 65535 - ?f" using u(1) by simp
    have "(wsum d + unat c) mod 65535 = (?f + (65535 - ?f)) mod 65535" using u(3) c by (metis mod_add_left_eq)
    then show ?thesis using u(2,4) c by (cases "wsum d = 0") auto
  next
    assume a: "ip_checksum d = 0 \<and> c = 0xFFFF"
    then have "?f = 65535" using u(1,2) by simp
    then have "wsum d mod 65535 = 0" using u(3) by simp
    then show ?thesis using a by (simp add: mod_add_left_eq [symmetric])
  qed
  then show ?thesis using w assms(5) by (intro ip_checksum_zero) auto
qed

section \<open>IP packets\<close>

lemma length_ip_header0: "length src = 4 \<Longrightarrow> length dest = 4 \<Longrightarrow> length (ip_header0 p src dest n) = 20"
  by (simp add: ip_header0_def)

lemma length_ip_header [simp]: "length src = 4 \<Longrightarrow> length dest = 4 \<Longrightarrow> length (ip_header p src dest n) = 20"
  by (simp add: ip_header_def Let_def length_ip_header0)

lemma ip_header_verifies:
  assumes "length src = 4" "length dest = 4"
  shows "ip_checksum (ip_header p src dest n) = 0"
  unfolding ip_header_def Let_def
  using checksum_verifies [of 10 "ip_header0 p src dest n" "ip_checksum (ip_header0 p src dest n)"] assms
  by (simp add: length_ip_header0) (simp add: ip_header0_def)

lemma ip_header_fields:
  assumes "length src = 4" "length dest = 4"
  shows "ip_header p src dest n ! 0 = 0x45" "ip_header p src dest n ! 9 = p"
    "push_bit 8 (ucast (ip_header p src dest n ! 2)) OR ucast (ip_header p src dest n ! 3) = n"
    "take 4 (drop 12 (ip_header p src dest n)) = src" "take 4 (drop 16 (ip_header p src dest n)) = dest"
proof -
  have l: "length (ip_header0 p src dest n) = 20" using assms by (rule length_ip_header0)
  have e: "ip_header p src dest n ! i = ip_header0 p src dest n ! i" if "i \<noteq> 10" "i \<noteq> 11" for i
    using that by (simp add: ip_header_def Let_def)
  show "ip_header p src dest n ! 0 = 0x45" "ip_header p src dest n ! 9 = p" by (simp_all add: e ip_header0_def)
  show "push_bit 8 (ucast (ip_header p src dest n ! 2)) OR ucast (ip_header p src dest n ! 3) = n"
    by (simp add: e ip_header0_def ucast_and_255_u16 bytes_of_u16)
  show "take 4 (drop 12 (ip_header p src dest n)) = src"
    using assms by (simp add: ip_header_def Let_def drop_update_swap) (simp add: ip_header0_def)
  show "take 4 (drop 16 (ip_header p src dest n)) = dest"
    using assms by (simp add: ip_header_def Let_def) (simp add: ip_header0_def)
qed

text \<open>A host whose addresses have the right lengths.\<close>

definition host_ok :: "net \<Rightarrow> bool" where
  "host_ok s \<longleftrightarrow> length (our_ip s) = 4 \<and> length (mac (nic s)) = 6 \<and> present (nic s)"

text \<open>What a host puts on the wire when it sends an IP packet.\<close>

definition ip_wire :: "net \<Rightarrow> u8 \<Rightarrow> bytes \<Rightarrow> bytes \<Rightarrow> bytes \<Rightarrow> bytes" where
  "ip_wire s p dest_ip dest_mac payload =
     (let f = ip_frame s p dest_ip dest_mac payload (of_nat (length payload)) in f @ replicate (60 - length f) 0)"

lemma ip_frame_shape:
  assumes "host_ok s" "length dest_ip = 4" "length dest_mac = 6" "length payload \<le> 1472"
  shows "ip_frame s p dest_ip dest_mac payload (of_nat (length payload)) =
    (dest_mac @ mac (nic s) @ [0x08, 0x00]) @ ip_header p (our_ip s) dest_ip (of_nat (20 + length payload)) @ payload"
  using assms by (simp add: ip_frame_def host_ok_def rtl8139_get_mac_def unat_of_nat)

lemma length_ip_frame:
  assumes "host_ok s" "length dest_ip = 4" "length dest_mac = 6" "length payload \<le> 1472"
  shows "length (ip_frame s p dest_ip dest_mac payload (of_nat (length payload))) = 34 + length payload"
  using assms by (simp add: ip_frame_shape [OF assms] host_ok_def)

lemma ip_send_wire:
  assumes "host_ok s" "length dest_ip = 4" "length dest_mac = 6" "length payload \<le> 1472"
  shows "ip_send s p dest_ip dest_mac payload (of_nat (length payload)) =
    s\<lparr>nic := (nic s)\<lparr>tx_desc_index := (tx_desc_index (nic s) + 1) mod 4,
       sent := sent (nic s) @ [(tx_desc_index (nic s), ip_wire s p dest_ip dest_mac payload)]\<rparr>\<rparr>"
proof -
  have l: "unat (of_nat (length payload) :: u16) = length payload" "unat (14 + 20 + of_nat (length payload) :: u16) = 34 + length payload"
    using assms(4) by (simp_all add: unat_of_nat unat_word_ariths)
  then have c: "\<not> 1472 < (of_nat (length payload) :: u16)" using assms(4) by (simp add: word_less_nat_alt)
  show ?thesis
    using assms c l length_ip_frame [OF assms, of p]
    by (simp add: ip_send_def Let_def rtl8139_send_frame_def host_ok_def rtl8139_tx_frame_def ip_wire_def
        RTL8139_TX_DESC_COUNT_def RTL8139_MIN_FRAME_SIZE_def)
qed

lemma ip_parse_wire:
  assumes "host_ok s" "length dest_mac = 6" "length payload \<le> 1472" and r: "our_ip r = dest_ip" "length dest_ip = 4"
  shows "ip_parse r (ip_wire s p dest_ip dest_mac payload) (int (length (ip_wire s p dest_ip dest_mac payload))) =
    Some (p, our_ip s, mac (nic s), payload)"
proof -
  define T :: u16 where "T = of_nat (20 + length payload)"
  let ?h = "ip_header p (our_ip s) dest_ip T"
  define e where "e = dest_mac @ mac (nic s) @ [0x08, 0x00]"
  obtain z where w: "ip_wire s p dest_ip dest_mac payload = e @ ?h @ payload @ z"
    using ip_frame_shape [OF assms(1) r(2) assms(2,3), of p, folded T_def e_def] by (auto simp: ip_wire_def Let_def)
  have le: "length e = 14" and es: "take 6 (drop 6 e) = mac (nic s)" using assms by (simp_all add: host_ok_def e_def)
  have ip: "length (our_ip s) = 4" using assms(1) by (simp add: host_ok_def)
  have lh: "length ?h = 20" using ip r(2) by simp
  note f = ip_header_fields [OF ip r(2), of p T]
  have dr: "drop 14 (e @ ?h @ payload @ z) = ?h @ payload @ z" by (simp add: le)
  have n: "(?h @ payload @ z) ! i = ?h ! i" if "i < 20" for i using that by (simp add: nth_append lh)
  have t: "take 4 (drop k (?h @ payload @ z)) = take 4 (drop k ?h)" if "k + 4 \<le> 20" for k using that by (simp add: lh)
  have tot: "uint T = int (20 + length payload)"
    using assms(3) by (simp add: T_def unsigned_of_nat take_bit_nat_eq_self del: of_nat_add)
  have ver: "drop_bit 4 (?h ! 0) = 4" "uint (?h ! 0 AND 0x0F) * 4 = 20" by (simp_all add: f)
  have pay: "take (length payload) (drop 34 (e @ ?h @ payload @ z)) = payload" by (simp add: le lh)
  have src: "take 6 (drop 6 (e @ ?h @ payload @ z)) = mac (nic s)" by (simp add: es le)
  have mt: "ip_addresses_match dest_ip (our_ip r)" by (simp add: ip_addresses_match_def list_all_iff r)
  have len: "int (length (e @ ?h @ payload @ z)) = 34 + int (length payload) + int (length z)" by (simp add: le lh)
  show ?thesis
    unfolding ip_parse_def w ETH_HEADER_LEN_def IP_HEADER_LEN_def Let_def dr len
    by (simp only: n t f ver tot pay src mt zero_less_numeral, simp add: n t f tot le lh es mt)
qed

section \<open>The ARP cache\<close>

text \<open>
  The cache is well formed: 16 slots, addresses of the right lengths, at most one valid entry
  per IP address, and a next slot inside the array.
\<close>

definition arp_wf :: "net \<Rightarrow> bool" where
  "arp_wf s \<longleftrightarrow> length (arp_cache s) = 16 \<and> arp_cache_next_slot s < 16 \<and>
     (\<forall>e \<in> set (arp_cache s). ae_valid e \<longrightarrow> length (ae_ip e) = 4 \<and> length (ae_mac e) = 6) \<and>
     (\<forall>i < 16. \<forall>j < 16. ae_valid (arp_cache s ! i) \<and> ae_valid (arp_cache s ! j) \<and>
        ae_ip (arp_cache s ! i) = ae_ip (arp_cache s ! j) \<longrightarrow> i = j)"

lemma list_all_4: "length a = 4 \<Longrightarrow> length b = 4 \<Longrightarrow> list_all (\<lambda>j. a ! j = b ! j) [0..<4] \<longleftrightarrow> a = b"
  by (auto simp: list_all_iff list_eq_iff_nth_eq)

lemma arp_cache_slot_Some:
  assumes "arp_wf s" "length ip = 4"
  shows "arp_cache_slot (arp_cache s) ip = Some i \<longleftrightarrow> i < 16 \<and> ae_valid (arp_cache s ! i) \<and> ae_ip (arp_cache s ! i) = ip"
proof -
  let ?P = "\<lambda>i. ae_valid (arp_cache s ! i) \<and> list_all (\<lambda>j. ae_ip (arp_cache s ! i) ! j = ip ! j) [0..<4]"
  have P: "?P i \<longleftrightarrow> ae_valid (arp_cache s ! i) \<and> ae_ip (arp_cache s ! i) = ip" if "i < 16" for i
  proof (cases "ae_valid (arp_cache s ! i)")
    case True
    then have "length (ae_ip (arp_cache s ! i)) = 4" using assms(1) that by (simp add: arp_wf_def)
    then show ?thesis using list_all_4 [OF _ assms(2)] by blast
  qed simp
  have "find ?P [0..<16] = Some i \<longleftrightarrow> i < 16 \<and> ?P i"
  proof
    assume "find ?P [0..<16] = Some i"
    then show "i < 16 \<and> ?P i" by (auto simp: find_Some_iff)
  next
    assume i: "i < 16 \<and> ?P i"
    then obtain k where k: "find ?P [0..<16] = Some k" by (cases "find ?P [0..<16]") (auto simp: find_None_iff)
    then have "k < 16 \<and> ?P k" by (auto simp: find_Some_iff)
    then have "k = i" using i P assms(1) unfolding arp_wf_def by metis
    then show "find ?P [0..<16] = Some i" using k by simp
  qed
  then show ?thesis using P by (auto simp: arp_cache_slot_def ARP_CACHE_SIZE_def)
qed

lemma arp_cache_slot_None:
  assumes "arp_wf s" "length ip = 4"
  shows "arp_cache_slot (arp_cache s) ip = None \<longleftrightarrow> (\<forall>i < 16. ae_valid (arp_cache s ! i) \<longrightarrow> ae_ip (arp_cache s ! i) \<noteq> ip)"
  using arp_cache_slot_Some [OF assms] by (metis not_None_eq)

lemma arp_insert_wf:
  assumes wf: "arp_wf s" and len: "length ip = 4" "length hw = 6"
  shows "arp_wf (arp_cache_insert s ip hw)"
proof -
  have l: "length (arp_cache s) = 16" "arp_cache_next_slot s < 16"
    and u: "\<And>i j. i < 16 \<Longrightarrow> j < 16 \<Longrightarrow> ae_valid (arp_cache s ! i) \<Longrightarrow> ae_valid (arp_cache s ! j) \<Longrightarrow>
      ae_ip (arp_cache s ! i) = ae_ip (arp_cache s ! j) \<Longrightarrow> i = j"
    and v: "\<And>i. i < 16 \<Longrightarrow> ae_valid (arp_cache s ! i) \<Longrightarrow> length (ae_ip (arp_cache s ! i)) = 4 \<and> length (ae_mac (arp_cache s ! i)) = 6"
    using wf unfolding arp_wf_def by (blast, blast, blast, metis nth_mem)
  have intro: "arp_wf t" if "length (arp_cache t) = 16" "arp_cache_next_slot t < 16"
      "\<And>i. i < 16 \<Longrightarrow> ae_valid (arp_cache t ! i) \<Longrightarrow> length (ae_ip (arp_cache t ! i)) = 4 \<and> length (ae_mac (arp_cache t ! i)) = 6"
      "\<And>i j. i < 16 \<Longrightarrow> j < 16 \<Longrightarrow> ae_valid (arp_cache t ! i) \<Longrightarrow> ae_valid (arp_cache t ! j) \<Longrightarrow>
        ae_ip (arp_cache t ! i) = ae_ip (arp_cache t ! j) \<Longrightarrow> i = j" for t
    using that unfolding arp_wf_def by (metis in_set_conv_nth)
  show ?thesis
  proof (cases "arp_cache_slot (arp_cache s) ip")
    case None
    then have n: "\<And>i. i < 16 \<Longrightarrow> ae_valid (arp_cache s ! i) \<Longrightarrow> ae_ip (arp_cache s ! i) \<noteq> ip"
      by (simp add: arp_cache_slot_None [OF wf len(1)])
    let ?e = "\<lparr>ae_ip = take 4 ip, ae_mac = take 6 hw, ae_valid = True\<rparr>"
    have c: "arp_cache (arp_cache_insert s ip hw) = (arp_cache s)[arp_cache_next_slot s := ?e]"
        "arp_cache_next_slot (arp_cache_insert s ip hw) < 16"
      using None by (simp_all add: arp_cache_insert_def Let_def ARP_CACHE_SIZE_def)
    show ?thesis
    proof (rule intro)
      fix i j assume "i < 16" "j < 16" "ae_valid (arp_cache (arp_cache_insert s ip hw) ! i)"
        "ae_valid (arp_cache (arp_cache_insert s ip hw) ! j)"
        "ae_ip (arp_cache (arp_cache_insert s ip hw) ! i) = ae_ip (arp_cache (arp_cache_insert s ip hw) ! j)"
      then show "i = j" using n [of i] n [of j] u [of i j] len l by (auto simp: c nth_list_update split: if_splits)
    qed (use c l len v in \<open>auto simp: nth_list_update\<close>)
  next
    case (Some k)
    then have k: "k < 16" "ae_valid (arp_cache s ! k)" "ae_ip (arp_cache s ! k) = ip" by (simp_all add: arp_cache_slot_Some [OF wf len(1)])
    have c: "arp_cache (arp_cache_insert s ip hw) = (arp_cache s)[k := (arp_cache s ! k)\<lparr>ae_mac := take 6 hw\<rparr>]"
        "arp_cache_next_slot (arp_cache_insert s ip hw) < 16"
      using Some l by (simp_all add: arp_cache_insert_def)
    show ?thesis
    proof (rule intro)
      fix i j assume "i < 16" "j < 16" "ae_valid (arp_cache (arp_cache_insert s ip hw) ! i)"
        "ae_valid (arp_cache (arp_cache_insert s ip hw) ! j)"
        "ae_ip (arp_cache (arp_cache_insert s ip hw) ! i) = ae_ip (arp_cache (arp_cache_insert s ip hw) ! j)"
      then show "i = j" using u [of i j] k l by (auto simp: c nth_list_update split: if_splits)
    qed (use c l len v k in \<open>auto simp: nth_list_update\<close>)
  qed
qed

lemma arp_lookup_Some:
  assumes "arp_wf s" "length ip = 4"
  shows "arp_cache_lookup s ip = Some m \<longleftrightarrow> (\<exists>i < 16. ae_valid (arp_cache s ! i) \<and> ae_ip (arp_cache s ! i) = ip \<and> ae_mac (arp_cache s ! i) = m)"
proof (cases "arp_cache_slot (arp_cache s) ip")
  case None
  then show ?thesis using arp_cache_slot_None [OF assms] by (auto simp: arp_cache_lookup_def)
next
  case (Some k)
  then have k: "k < 16" "ae_valid (arp_cache s ! k)" "ae_ip (arp_cache s ! k) = ip" by (simp_all add: arp_cache_slot_Some [OF assms])
  have un: "i = k" if "i < 16" "ae_valid (arp_cache s ! i)" "ae_ip (arp_cache s ! i) = ip" for i
    using arp_cache_slot_Some [OF assms, of i] that Some by simp
  have "arp_cache s ! k \<in> set (arp_cache s)" using assms(1) k(1) by (simp add: arp_wf_def)
  then have "length (ae_mac (arp_cache s ! k)) = 6" using assms(1) k(2) unfolding arp_wf_def by blast
  then have "arp_cache_lookup s ip = Some (ae_mac (arp_cache s ! k))" using Some by (simp add: arp_cache_lookup_def)
  then show ?thesis using k un by (metis option.inject)
qed

lemma arp_lookup_nic [simp]: "arp_cache_lookup (s\<lparr>nic := n\<rparr>) ip = arp_cache_lookup s ip"
  by (simp add: arp_cache_lookup_def cong: option.case_cong)

section \<open>ARP frames\<close>

lemma replicate_28: "replicate 28 (0 :: u8) = [0, 0, 0, 0, 0, 0, 0, 0] @ replicate 20 0"
  by (simp add: numeral_eq_Suc)

lemma arp_frame_eq:
  assumes "length dest = 6" "length src = 6" "length sha = 6" "length spa = 4" "length tha = 6" "length tpa = 4"
  shows "arp_frame dest src oper sha spa tha tpa =
    dest @ src @ [0x08, 0x06, 0, 1, 8, 0, 6, 4, ucast (drop_bit 8 oper), ucast (oper AND 0xFF)] @ sha @ spa @ tha @ tpa"
  using assms unfolding arp_frame_def Let_def put_be16_def replicate_28
  by (simp add: copy_into_def)

text \<open>The fields of an ARP frame, also behind padding.\<close>

lemma arp_frame_fields:
  assumes len: "length dest = 6" "length src = 6" "length sha = 6" "length spa = 4" "length tha = 6" "length tpa = 4"
    and f: "f = arp_frame dest src oper sha spa tha tpa @ z"
  shows "f ! 12 = 0x08" "f ! 13 = 0x06" "get_be16 (drop 14 f) 6 = oper" "take 6 (drop 8 (drop 14 f)) = sha"
    "take 4 (drop 14 (drop 14 f)) = spa" "\<And>i. i < 4 \<Longrightarrow> drop 14 f ! (24 + i) = tpa ! i" "\<And>i. i < 4 \<Longrightarrow> drop 14 f ! (14 + i) = spa ! i"
    "length (arp_frame dest src oper sha spa tha tpa) = 42"
  using len unfolding f arp_frame_eq [OF len]
  by (simp_all add: nth_append get_be16_def ucast_and_255_u16 bytes_of_u16)

section \<open>Properties of the network layer\<close>

text \<open>
  a buffer whose 16-bit checksum field is filled in by the driver's checksum routine
  verifies: the routine computes 0 over it. This is the check that receivers make of IP headers,
  ICMP messages, UDP datagrams and TCP segments.
\<close>

theorem ip_checksum_verifies:
  assumes "even i" and "i + 1 < length d" and "d ! i = 0" and "d ! (i + 1) = 0" and "length d < 100000"
  shows "ip_checksum (d[i := ucast (drop_bit 8 (ip_checksum d)), i + 1 := ucast (ip_checksum d AND 0xFF)]) = 0"
  using checksum_verifies [OF assms] by blast

theorem ip_checksum_verifies_witness:
  "ip_checksum ([0x45, 0, 0, 84, 0, 0][4 := ucast (drop_bit 8 (ip_checksum [0x45, 0, 0, 84, 0, 0])),
     4 + 1 := ucast (ip_checksum [0x45, 0, 0, 84, 0, 0] AND 0xFF)]) = 0"
  by (rule ip_checksum_verifies) simp_all


text \<open>Two hosts on one wire, with empty tables.\<close>

definition conn0 :: tcp_connection where
  "conn0 = \<lparr>remote_ip = [0, 0, 0, 0], remote_mac = replicate 6 0, local_port = 0, remote_port = 0, our_seq = 0, their_seq = 0,
     state = TCP_CLOSED, rx_buffer = replicate 512 0, rx_head = 0, rx_tail = 0, rx_closed = False, accepted = False,
     pending_data = replicate 1460 0, pending_len = 0, pending_seq = 0, pending_flags = 0, pending = False,
     last_send_tick = 0, retransmit_count = 0, current_rto = 0, srtt = 0, rttvar = 0, rto = 0, rtt_valid = False\<rparr>"

definition host :: "u8 \<Rightarrow> net" where
  "host k = \<lparr>nic = \<lparr>present = True, mac = [2, 0, 0, 0, 0, k], tx_desc_index = 0, rx_read_offset = 0, sent = [],
       tx_ok = (\<lambda>_. True), cr_polls = 0, bufe = (\<lambda>_. True), rx_dma = (\<lambda>_. replicate 9708 0)\<rparr>, ticks = 0,
     arp_cache = replicate 16 \<lparr>ae_ip = [0, 0, 0, 0], ae_mac = replicate 6 0, ae_valid = False\<rparr>, arp_cache_next_slot = 0,
     our_ip = [10, 0, 0, k], our_netmask = [255, 255, 255, 0], our_gateway = [0, 0, 0, 0], gateway_configured = False,
     capture_armed = False, capture_port = 0, capture_ready = False, capture_buf = replicate 512 0, capture_len = 0,
     capture_source_ip = [0, 0, 0, 0], dns_server_ip = [0, 0, 0, 0], dns_server_configured = False,
     connections = replicate 8 conn0\<rparr>"

lemma host_simps [simp]: "host_ok (host k)" "our_ip (host k) = [10, 0, 0, k]" "mac (nic (host k)) = [2, 0, 0, 0, 0, k]"
    "present (nic (host k))" "arp_wf (host k)"
  by (simp_all add: host_ok_def host_def arp_wf_def)


text \<open>
  recording an address keeps the cache well formed, with at most one entry per IP address;
  a lookup then answers with what was recorded last, and every other address that is still in the
  cache answers as before.
\<close>

theorem arp_cache_correct:
  assumes "arp_wf s" and "length ip = 4" and "length hw = 6" and "length ip' = 4" and "ip' \<noteq> ip"
  shows "arp_wf (arp_cache_insert s ip hw) \<and> arp_cache_lookup (arp_cache_insert s ip hw) ip = Some hw \<and>
    arp_cache_lookup (arp_cache_insert s ip hw) ip' \<in> {arp_cache_lookup s ip', None} \<and>
    (arp_cache_lookup s ip \<noteq> None \<longrightarrow> arp_cache_lookup (arp_cache_insert s ip hw) ip' = arp_cache_lookup s ip')"
proof -
  let ?t = "arp_cache_insert s ip hw"
  have wf: "arp_wf ?t" using assms(1-3) by (rule arp_insert_wf)
  have l: "length (arp_cache s) = 16" "arp_cache_next_slot s < 16" using assms(1) by (auto simp: arp_wf_def)
  note lk = arp_lookup_Some [OF wf] and lk0 = arp_lookup_Some [OF assms(1)]
  have hit: "\<exists>k < 16. arp_cache ?t ! k = \<lparr>ae_ip = ip, ae_mac = hw, ae_valid = True\<rparr> \<and>
      (\<forall>i < 16. i \<noteq> k \<longrightarrow> arp_cache ?t ! i = arp_cache s ! i) \<and>
      (arp_cache_lookup s ip \<noteq> None \<longrightarrow> ae_valid (arp_cache s ! k) \<and> ae_ip (arp_cache s ! k) = ip)"
  proof (cases "arp_cache_slot (arp_cache s) ip")
    case None
    then have "arp_cache_lookup s ip = None" by (simp add: arp_cache_lookup_def)
    then show ?thesis using None l assms(2,3)
      by (intro exI [of _ "arp_cache_next_slot s"]) (simp add: arp_cache_insert_def Let_def)
  next
    case (Some k)
    then have "k < 16" "ae_valid (arp_cache s ! k)" "ae_ip (arp_cache s ! k) = ip" by (simp_all add: arp_cache_slot_Some [OF assms(1,2)])
    then show ?thesis using Some l assms(3) by (intro exI [of _ k]) (simp add: arp_cache_insert_def)
  qed
  then obtain k where k: "k < 16" "arp_cache ?t ! k = \<lparr>ae_ip = ip, ae_mac = hw, ae_valid = True\<rparr>"
      "\<And>i. i < 16 \<Longrightarrow> i \<noteq> k \<Longrightarrow> arp_cache ?t ! i = arp_cache s ! i"
      "arp_cache_lookup s ip \<noteq> None \<longrightarrow> ae_valid (arp_cache s ! k) \<and> ae_ip (arp_cache s ! k) = ip" by blast
  have new: "arp_cache_lookup ?t ip = Some hw" using lk [OF assms(2), of hw] k by auto
  have old: "arp_cache_lookup s ip' = Some m" if h: "arp_cache_lookup ?t ip' = Some m" for m
  proof -
    obtain i where i: "i < 16" "ae_valid (arp_cache ?t ! i)" "ae_ip (arp_cache ?t ! i) = ip'" "ae_mac (arp_cache ?t ! i) = m"
      using h lk [OF assms(4)] by blast
    then have "i \<noteq> k" using k(2) assms(5) by auto
    then show ?thesis using i k(3) lk0 [OF assms(4)] by auto
  qed
  have keep: "arp_cache_lookup ?t ip' = Some m" if h: "arp_cache_lookup s ip \<noteq> None" "arp_cache_lookup s ip' = Some m" for m
  proof -
    obtain i where i: "i < 16" "ae_valid (arp_cache s ! i)" "ae_ip (arp_cache s ! i) = ip'" "ae_mac (arp_cache s ! i) = m"
      using h(2) lk0 [OF assms(4)] by blast
    then have "i \<noteq> k" using k(4) h(1) assms(5) by auto
    then show ?thesis using i k(3) lk [OF assms(4)] by auto
  qed
  have "arp_cache_lookup ?t ip' \<in> {arp_cache_lookup s ip', None}" using old by (cases "arp_cache_lookup ?t ip'") auto
  moreover have "arp_cache_lookup ?t ip' = arp_cache_lookup s ip'" if "arp_cache_lookup s ip \<noteq> None"
    using old keep [OF that] by (cases "arp_cache_lookup ?t ip'"; cases "arp_cache_lookup s ip'") auto
  ultimately show ?thesis using wf new by blast
qed

theorem arp_cache_correct_witness:
  "arp_cache_lookup (arp_cache_insert (host 1) [10, 0, 0, 2] [2, 0, 0, 0, 0, 2]) [10, 0, 0, 2] = Some [2, 0, 0, 0, 0, 2]"
  using arp_cache_correct [of "host 1" "[10, 0, 0, 2]" "[2, 0, 0, 0, 0, 2]" "[10, 0, 0, 3]"] by simp

text \<open>
  an ARP exchange resolves: the request that a host broadcasts for another host's address is
  answered by that host with one frame, which the asking host accepts as the answer and which
  gives it the other's hardware address. The answering host learns the asker's address.
\<close>

theorem arp_exchange:
  assumes "host_ok a" and "host_ok b" and "arp_wf b"
    and "req = arp_frame (replicate 6 0xFF) (mac (nic a)) ARP_OP_REQUEST (mac (nic a)) spa (replicate 6 0) (our_ip b) @ z"
    and "length spa = 4"
  shows "\<exists>b' desc reply. arp_respond_if_request b req (length req) (our_ip b) = (True, b') \<and>
    sent (nic b') = sent (nic b) @ [(desc, reply)] \<and> arp_reply_for reply (length reply) (our_ip b) = Some (mac (nic b)) \<and>
    take 6 reply = mac (nic a) \<and> arp_cache_lookup b' spa = Some (mac (nic a))"
proof -
  have a: "length (mac (nic a)) = 6" and b: "length (mac (nic b)) = 6" "length (our_ip b) = 4" "present (nic b)"
    using assms(1,2) by (auto simp: host_ok_def)
  note rf = arp_frame_fields [OF _ a a assms(5) _ b(2) assms(4), simplified]
  let ?m = "mac (nic a)"
  let ?b1 = "arp_cache_insert b spa ?m"
  let ?reply = "arp_frame ?m (mac (nic b)) ARP_OP_REPLY (mac (nic b)) (our_ip b) ?m spa"
  have nb: "nic ?b1 = nic b" by (simp add: arp_cache_insert_def Let_def split: option.split)
  have wire: "rtl8139_tx_frame ?reply 42 = ?reply @ replicate 18 0"
    using arp_frame_fields(8) [OF a b(1) b(1,2) a assms(5) refl, of ARP_OP_REPLY]
    by (simp add: rtl8139_tx_frame_def RTL8139_MIN_FRAME_SIZE_def)
  note pf = arp_frame_fields [OF a b(1) b(1,2) a assms(5), of "?reply @ replicate 18 0" ARP_OP_REPLY "replicate 18 0", OF refl]
  have lr: "42 \<le> length req" using rf(8) assms(4) by simp
  have "arp_respond_if_request b req (length req) (our_ip b) =
      (True, ?b1\<lparr>nic := snd (rtl8139_send_frame (nic b) ?reply 42)\<rparr>)"
    unfolding arp_respond_if_request_def Let_def
    using rf lr b by (simp add: list_all_iff ARP_FRAME_SIZE_def nb rtl8139_get_mac_def)
  moreover have "sent (snd (rtl8139_send_frame (nic b) ?reply 42)) = sent (nic b) @ [(tx_desc_index (nic b), ?reply @ replicate 18 0)]"
    using b(3) by (simp add: rtl8139_send_frame_def wire)
  moreover have "arp_reply_for (?reply @ replicate 18 0) (length (?reply @ replicate 18 0)) (our_ip b) = Some (mac (nic b))"
    using pf by (simp add: arp_reply_for_def list_all_iff ARP_FRAME_SIZE_def)
  moreover have "take 6 (?reply @ replicate 18 0) = ?m"
    using a by (simp add: arp_frame_eq [OF a b(1) b(1,2) a assms(5)])
  moreover have "arp_cache_lookup ?b1 spa = Some ?m"
  proof -
    have "arp_wf ?b1" using arp_insert_wf [OF assms(3,5) a] .
    moreover have "\<exists>k < 16. ae_valid (arp_cache ?b1 ! k) \<and> ae_ip (arp_cache ?b1 ! k) = spa \<and> ae_mac (arp_cache ?b1 ! k) = ?m"
    proof (cases "arp_cache_slot (arp_cache b) spa")
      case None
      then show ?thesis using assms(3,5) a
        by (intro exI [of _ "arp_cache_next_slot b"]) (simp add: arp_cache_insert_def Let_def arp_wf_def)
    next
      case (Some k)
      then show ?thesis using assms(3) a arp_cache_slot_Some [OF assms(3,5), of k]
        by (intro exI [of _ k]) (simp add: arp_cache_insert_def arp_wf_def)
    qed
    ultimately show ?thesis using arp_lookup_Some [OF _ assms(5)] by blast
  qed
  ultimately show ?thesis by auto
qed

theorem arp_exchange_witness:
  "\<exists>b' desc reply. arp_respond_if_request (host 2)
       (arp_frame (replicate 6 0xFF) [2, 0, 0, 0, 0, 1] ARP_OP_REQUEST [2, 0, 0, 0, 0, 1] [0, 0, 0, 0] (replicate 6 0) [10, 0, 0, 2]) 42
       [10, 0, 0, 2] = (True, b') \<and> sent (nic b') = [(desc, reply)] \<and>
     arp_reply_for reply (length reply) [10, 0, 0, 2] = Some [2, 0, 0, 0, 0, 2]"
proof -
  let ?q = "arp_frame (replicate 6 0xFF) [2, 0, 0, 0, 0, 1] ARP_OP_REQUEST [2, 0, 0, 0, 0, 1] [0, 0, 0, 0] (replicate 6 0) [10, 0, 0, 2]"
  have l: "length ?q = 42" by (rule arp_frame_fields(8)) (auto intro: refl [of "_ @ []"])
  have s: "sent (nic (host 2)) = []" by (simp add: host_def)
  show ?thesis using arp_exchange [of "host 1" "host 2" ?q "[0, 0, 0, 0]" "[]"] l s by auto
qed

end
