(* ===== verification/Net_Dns_Spec.thy ===== *)
theory Net_Dns_Spec
  imports Net_Udp Net_Ip_Spec
begin

unbundle bit_operations_syntax

text \<open>
  The resolver's two translations: a host name into the label format of a query, and a reply into
  the address it carries. Both are specified against the message format, not against the loops.
\<close>

section \<open>Names\<close>

text \<open>A dotted name split at its dots, and the label format: each label behind its length, then a zero.\<close>

fun dns_split :: "bytes \<Rightarrow> bytes \<Rightarrow> bytes list" where
  "dns_split cur [] = [cur]"
| "dns_split cur (x # xs) = (if x = 0x2E then cur # dns_split [] xs else dns_split (cur @ [x]) xs)"

definition dns_labels :: "bytes \<Rightarrow> bytes list" where
  "dns_labels h = dns_split [] h"

definition dns_format :: "bytes list \<Rightarrow> bytes" where
  "dns_format ls = concat (map (\<lambda>l. of_nat (length l) # l) ls)"

definition label_ok :: "bytes \<Rightarrow> bool" where
  "label_ok l \<longleftrightarrow> l \<noteq> [] \<and> length l \<le> 63"

lemma dns_format_simps [simp]:
  "dns_format [] = []" "dns_format (l # ls) = of_nat (length l) # l @ dns_format ls"
  by (simp_all add: dns_format_def)

lemma length_dns_split: "length (dns_format (dns_split cur xs)) = length cur + length xs + 1"
  by (induction cur xs rule: dns_split.induct) auto

lemma dns_encode_too_long:
  "0 \<notin> set hostname \<Longrightarrow> 253 < length hostname \<Longrightarrow> i \<le> 253 \<Longrightarrow> dns_encode_loop hostname n ls i out = None"
proof (induction hostname n ls i out rule: dns_encode_loop.induct)
  case (1 h n ls i out)
  have c: "(if i < length h then h ! i else 0) \<noteq> 0" using 1(3-5) by (auto simp: in_set_conv_nth)
  show ?case
    by (subst dns_encode_loop.simps)
      (use 1 c in \<open>auto simp: Let_def DNS_MAX_NAME_LEN_def\<close>)
qed

lemma dns_encode_loop_spec:
  "hostname = pre @ cur @ rest \<Longrightarrow> 0 \<notin> set hostname \<Longrightarrow> length hostname \<le> 253 \<Longrightarrow> length out = length pre \<Longrightarrow>
   dns_encode_loop hostname 496 (length pre) (length pre + length cur) out =
     (if list_all label_ok (dns_split cur rest) then Some (out @ dns_format (dns_split cur rest)) else None)"
proof (induction rest arbitrary: pre cur out)
  case Nil
  have "map (\<lambda>j. hostname ! (length pre + j)) [0..<length cur] = cur" using Nil(1) by (simp add: nth_append map_nth)
  then show ?case using Nil by (subst dns_encode_loop.simps) (auto simp: Let_def label_ok_def)
next
  case (Cons x rest)
  let ?i = "length pre + length cur"
  have c: "?i < length hostname" "hostname ! ?i = x" using Cons.prems(1) by (simp_all add: nth_append)
  have x: "x \<noteq> 0" using Cons.prems(1,2) by auto
  have cur: "map (\<lambda>j. hostname ! (length pre + j)) [0..<length cur] = cur"
    using Cons.prems(1) by (auto simp: nth_append intro!: nth_equalityI)
  have b: "?i + 1 \<le> 253" using c(1) Cons.prems(3) by simp
  show ?case
  proof (cases "x = 0x2E")
    case True
    have "dns_encode_loop hostname 496 (?i + 1) (?i + 1) (out @ of_nat (length cur) # cur) =
      (if list_all label_ok (dns_split [] rest) then Some ((out @ of_nat (length cur) # cur) @ dns_format (dns_split [] rest)) else None)"
      using Cons.IH [of "pre @ cur @ [x]" "[]" "out @ of_nat (length cur) # cur"] Cons.prems by simp
    then show ?thesis using True c cur b Cons.prems(4) x
      by (subst dns_encode_loop.simps) (auto simp: Let_def label_ok_def DNS_MAX_NAME_LEN_def)
  next
    case False
    then show ?thesis using Cons.IH [of pre "cur @ [x]" out] c b x Cons.prems
      by (subst dns_encode_loop.simps) (simp add: Let_def DNS_MAX_NAME_LEN_def)
  qed
qed

text \<open>
  \<open>dns_encode_name\<close> with the room of a query accepts exactly the names of at most 253 bytes
  whose labels are 1 to 63 bytes long, and encodes such a name as its labels in order, each
  behind its length, closed by the root label; the result fits the query buffer.
\<close>

theorem dns_encode_name_correct:
  assumes "0 \<notin> set hostname"
  shows "dns_encode_name hostname 496 =
    (if length hostname \<le> 253 \<and> list_all label_ok (dns_labels hostname)
     then Some (dns_format (dns_labels hostname) @ [0]) else None)
    \<and> (\<forall>enc. dns_encode_name hostname 496 = Some enc \<longrightarrow> length enc \<le> 255)"
proof (cases "length hostname \<le> 253")
  case True
  then have "dns_encode_loop hostname 496 0 0 [] =
     (if list_all label_ok (dns_labels hostname) then Some (dns_format (dns_labels hostname)) else None)"
    using dns_encode_loop_spec [of hostname "[]" "[]" hostname "[]"] assms by (simp add: dns_labels_def)
  then show ?thesis using True length_dns_split [of "[]" hostname] by (auto simp: dns_encode_name_def dns_labels_def)
next
  case False
  then have "dns_encode_loop hostname 496 0 0 [] = None" using assms by (intro dns_encode_too_long) auto
  then show ?thesis using False by (simp add: dns_encode_name_def)
qed

theorem dns_encode_name_correct_witness:
  "dns_encode_name [97, 98, 46, 99] 496 = Some [2, 97, 98, 1, 99, 0]"
  using dns_encode_name_correct [of "[97, 98, 46, 99]"] by (simp add: dns_labels_def label_ok_def)

section \<open>Replies\<close>

lemma unat_label: "label_ok l \<Longrightarrow> unat (of_nat (length l) :: u8) = length l" "label_ok l \<Longrightarrow> (of_nat (length l) :: u8) \<noteq> 0"
proof -
  assume a: "label_ok l"
  then have "length l < 256" by (simp add: label_ok_def)
  then show u: "unat (of_nat (length l) :: u8) = length l" by (simp add: unat_of_nat)
  show "(of_nat (length l) :: u8) \<noteq> 0" using u a by (auto simp: label_ok_def)
qed

lemma dns_skip_format:
  "list_all label_ok ls \<Longrightarrow> length p + length (dns_format ls) < n \<Longrightarrow>
   dns_skip_labels (p @ dns_format ls @ [0] @ s) n (length p) = length p + length (dns_format ls)"
proof (induction ls arbitrary: p)
  case (Cons l ls)
  let ?r = "p @ dns_format (l # ls) @ [0] @ s"
  have l: "label_ok l" "list_all label_ok ls" using Cons.prems(1) by auto
  have "?r ! length p = of_nat (length l)" by (simp add: nth_append)
  then have "dns_skip_labels ?r n (length p) = dns_skip_labels ?r n (length p + length l + 1)"
    using Cons.prems(2) unat_label [OF l(1)] by (subst dns_skip_labels.simps) simp
  also have "\<dots> = length p + length (dns_format (l # ls))"
    using Cons.IH [OF l(2), of "p @ of_nat (length l) # l"] Cons.prems(2) by simp
  finally show ?case .
qed (simp add: dns_skip_labels.simps nth_append)

text \<open>
  A resource record: its owner name, either a compression pointer or labels, its type, the
  class and time to live, and its data.
\<close>

datatype rr_name = Pointer u8 u8 | Labels "bytes list"

fun rr_name_bytes :: "rr_name \<Rightarrow> bytes" where
  "rr_name_bytes (Pointer a b) = [a, b]"
| "rr_name_bytes (Labels ls) = dns_format ls @ [0]"

fun rr_name_ok :: "rr_name \<Rightarrow> bool" where
  "rr_name_ok (Pointer a b) \<longleftrightarrow> a AND 0xC0 = 0xC0"
| "rr_name_ok (Labels ls) \<longleftrightarrow> list_all label_ok ls"

record rr =
  rr_owner :: rr_name
  rr_type :: u16
  rr_class_ttl :: bytes
  rr_data :: bytes

definition be16 :: "u16 \<Rightarrow> bytes" where
  "be16 v = [ucast (drop_bit 8 v), ucast (v AND 0xFF)]"

definition rr_bytes :: "rr \<Rightarrow> bytes" where
  "rr_bytes r = rr_name_bytes (rr_owner r) @ be16 (rr_type r) @ rr_class_ttl r @ be16 (of_nat (length (rr_data r))) @ rr_data r"

definition rr_ok :: "rr \<Rightarrow> bool" where
  "rr_ok r \<longleftrightarrow> rr_name_ok (rr_owner r) \<and> length (rr_class_ttl r) = 6 \<and> length (rr_data r) < 65536"

definition rr_A :: "rr \<Rightarrow> bool" where
  "rr_A r \<longleftrightarrow> rr_type r = 1 \<and> length (rr_data r) = 4"

lemma length_be16 [simp]: "length (be16 v) = 2"
  by (simp add: be16_def)

lemma get_be16_be16: "get_be16 (p @ be16 v @ s) (length p) = v"
  by (simp add: get_be16_def be16_def nth_append ucast_and_255_u16 bytes_of_u16)

lemma label_len_no_pointer:
  assumes "label_ok l"
  shows "(of_nat (length l) :: u8) AND 0xC0 \<noteq> 0xC0"
proof
  assume a: "(of_nat (length l) :: u8) AND 0xC0 = 0xC0"
  have "(of_nat (length l) :: u8) AND 0xC0 \<le> of_nat (length l)" by (simp add: word_and_le2)
  then have "unat (0xC0 :: u8) \<le> unat (of_nat (length l) :: u8)" unfolding a word_le_nat_alt .
  then show False using assms unat_label(1) [OF assms] by (simp add: label_ok_def)
qed

text \<open>The parser steps over the owner name of a record.\<close>

lemma dns_owner_skip:
  assumes "rr_name_ok nm" and "r = p @ rr_name_bytes nm @ s" and "length p + length (rr_name_bytes nm) \<le> n"
  shows "(if r ! length p AND 0xC0 = 0xC0 then length p + 2 else dns_skip_labels r n (length p) + 1) = length p + length (rr_name_bytes nm)"
proof (cases nm)
  case (Pointer a b)
  then show ?thesis using assms by simp
next
  case (Labels ls)
  then have ok: "list_all label_ok ls" and r: "r = p @ dns_format ls @ [0] @ s" and n: "length p + length (dns_format ls) < n"
    using assms by auto
  have "r ! length p AND 0xC0 \<noteq> 0xC0"
  proof (cases ls)
    case (Cons l ls')
    then have "label_ok l" using ok by simp
    then show ?thesis using label_len_no_pointer r Cons by (simp add: nth_append)
  qed (simp add: r)
  then show ?thesis using dns_skip_format [OF ok n] r Labels by simp
qed

text \<open>One record of the answer section: an A record is returned, any other is stepped over.\<close>

lemma dns_answers_step:
  assumes "rr_ok x" and r: "r = p @ rr_bytes x @ s" and n: "length p + length (rr_bytes x) \<le> n"
  shows "dns_answers r n (Suc k) (length p) =
    (if rr_A x then Some (rr_data x) else dns_answers r n k (length p + length (rr_bytes x)))"
proof -
  let ?nm = "rr_name_bytes (rr_owner x)"
  define q where "q = p @ ?nm"
  define u where "u = q @ be16 (rr_type x) @ rr_class_ttl x"
  have x: "rr_name_ok (rr_owner x)" "length (rr_class_ttl x) = 6" "length (rr_data x) < 65536" using assms(1) by (auto simp: rr_ok_def)
  have r1: "r = p @ ?nm @ be16 (rr_type x) @ rr_class_ttl x @ be16 (of_nat (length (rr_data x))) @ rr_data x @ s" by (simp add: r rr_bytes_def)
  have len: "length (rr_bytes x) = length ?nm + 10 + length (rr_data x)" by (simp add: rr_bytes_def be16_def x)
  have own: "(if r ! length p AND 0xC0 = 0xC0 then length p + 2 else dns_skip_labels r n (length p) + 1) = length q"
    using dns_owner_skip [OF x(1) r1] n len by (simp add: q_def)
  have ty: "get_be16 r (length q) = rr_type x" using get_be16_be16 [of q "rr_type x"] by (simp add: r1 q_def)
  have lu: "length u = length q + 8" by (simp add: u_def be16_def x)
  have rl: "get_be16 r (length q + 8) = of_nat (length (rr_data x))"
    using get_be16_be16 [of u "of_nat (length (rr_data x))" "rr_data x @ s"] by (simp add: r1 u_def q_def x add.assoc)
  have l4: "(of_nat (length (rr_data x)) :: u16) = 4 \<longleftrightarrow> length (rr_data x) = 4"
    using x(3) by (simp add: word_unat_eq_iff unat_of_nat)
  have dr: "take (length (rr_data x)) (drop (length q + 10) r) = rr_data x"
    by (simp add: r1 q_def be16_def x)
  have lt: "length p < n" "length q + 10 \<le> n" "length q + 10 + length (rr_data x) \<le> n" using n len by (auto simp: q_def)
  have un: "unat (of_nat (length (rr_data x)) :: u16) = length (rr_data x)" using x(3) by (simp add: unat_of_nat)
  show ?thesis
    unfolding dns_answers.simps Let_def own
    using lt ty rl l4 dr un len by (auto simp: rr_A_def q_def add.assoc)
qed

lemma dns_answers_find:
  "list_all rr_ok skip \<Longrightarrow> list_all (\<lambda>x. \<not> rr_A x) skip \<Longrightarrow> rr_ok a \<Longrightarrow> rr_A a \<Longrightarrow>
   r = p @ concat (map rr_bytes skip) @ rr_bytes a @ s \<Longrightarrow> length skip < k \<Longrightarrow>
   dns_answers r (length r) k (length p) = Some (rr_data a)"
proof (induction skip arbitrary: p k)
  case Nil
  then obtain k' where k: "k = Suc k'" by (cases k) auto
  then show ?case using dns_answers_step [OF Nil(3), of r p s "length r" k'] Nil by simp
next
  case (Cons x skip)
  then obtain k' where k: "k = Suc k'" by (cases k) auto
  have st: "dns_answers r (length r) k (length p) = dns_answers r (length r) k' (length (p @ rr_bytes x))"
    using dns_answers_step [of x r p "concat (map rr_bytes skip) @ rr_bytes a @ s" "length r" k'] Cons.prems by (simp add: k)
  show ?case unfolding st using Cons.prems k by (intro Cons.IH) auto
qed

text \<open>
  the resolver finds the address in a reply. For every well-formed reply of the configured
  server - a header, the echoed question, and any number of other records with pointer or inline
  names before the first A record - the parser returns exactly the data of that A record.
\<close>

theorem dns_first_A_record:
  assumes "length hdr = 12" and "list_all label_ok q" and "length qtype = 4"
    and "list_all rr_ok skip" and "list_all (\<lambda>x. \<not> rr_A x) skip" and "rr_ok a" and "rr_A a"
    and "length skip < unat (get_be16 hdr 6)" and "length server = 4"
    and "r = hdr @ (dns_format q @ [0]) @ qtype @ concat (map rr_bytes skip) @ rr_bytes a @ rest"
  shows "dns_parse_response r (length r) server server = Inr (rr_data a)"
proof -
  let ?p = "hdr @ (dns_format q @ [0]) @ qtype"
  have an: "get_be16 r 6 = get_be16 hdr 6" using assms(1) by (simp add: assms(10) get_be16_def nth_append)
  have nz: "get_be16 hdr 6 \<noteq> 0" using assms(8) by auto
  have sk: "dns_skip_labels r (length r) 12 = 12 + length (dns_format q)"
    using dns_skip_format [OF assms(2), of hdr "length r" "qtype @ concat (map rr_bytes skip) @ rr_bytes a @ rest"] assms(1)
    by (simp add: assms(10))
  have lp: "length ?p = 12 + length (dns_format q) + 1 + 4" using assms(1,3) by simp
  have "dns_answers r (length r) (unat (get_be16 hdr 6)) (12 + length (dns_format q) + 1 + 4) = Some (rr_data a)"
    unfolding lp [symmetric] by (rule dns_answers_find [OF assms(4-7)]) (use assms(8) in \<open>simp_all add: assms(10)\<close>)
  moreover have "\<not> length r < 12" using assms(1) by (simp add: assms(10))
  ultimately show ?thesis using an nz sk by (simp add: dns_parse_response_def list_all_iff Let_def)
qed

theorem dns_first_A_record_witness:
  "(let r = [0x12, 0x34, 0x81, 0x80, 0, 1, 0, 2, 0, 0, 0, 0] @ [1, 97, 0] @ [0, 1, 0, 1] @
      [0xC0, 0x0C, 0, 5, 0, 1, 0, 0, 0, 9, 0, 2, 0xC0, 0x0C] @ [0xC0, 0x0C, 0, 1, 0, 1, 0, 0, 0, 9, 0, 4, 93, 184, 216, 34]
    in dns_parse_response r (length r) [8, 8, 8, 8] [8, 8, 8, 8] = Inr [93, 184, 216, 34])"
proof -
  let ?c = "\<lparr>rr_owner = Pointer 0xC0 0x0C, rr_type = 5, rr_class_ttl = [0, 1, 0, 0, 0, 9], rr_data = [0xC0, 0x0C]\<rparr>"
  let ?a = "\<lparr>rr_owner = Pointer 0xC0 0x0C, rr_type = 1, rr_class_ttl = [0, 1, 0, 0, 0, 9], rr_data = [93, 184, 216, 34]\<rparr>"
  have "unat (get_be16 [0x12, 0x34, 0x81, 0x80, 0, 1, 0, 2, 0, 0, 0, 0] 6) = 2" by (simp add: get_be16_def)
  then show ?thesis
    using dns_first_A_record [of "[0x12, 0x34, 0x81, 0x80, 0, 1, 0, 2, 0, 0, 0, 0]" "[[97]]" "[0, 1, 0, 1]" "[?c]" ?a "[8, 8, 8, 8]", OF _ _ _ _ _ _ _ _ _ refl, of "[]"]
    by (simp add: rr_ok_def rr_A_def label_ok_def rr_bytes_def be16_def)
qed

text \<open>The parser never looks at a byte behind the reply.\<close>

lemma get_be16_append: "i + 1 < length r \<Longrightarrow> get_be16 (r @ x) i = get_be16 r i"
  by (simp add: get_be16_def nth_append)

lemma dns_skip_append: "dns_skip_labels (r @ x) (length r) pos = dns_skip_labels r (length r) pos"
proof (induction r "length r" pos rule: dns_skip_labels.induct)
  case (1 r pos)
  then show ?case by (subst (1 2) dns_skip_labels.simps) (auto simp: nth_append)
qed

lemma dns_answers_append: "dns_answers (r @ x) (length r) k pos = dns_answers r (length r) k pos"
proof (induction k arbitrary: pos)
  case (Suc k)
  show ?case
    by (auto simp: Let_def Suc dns_skip_append get_be16_append nth_append)
qed simp


end
