(* ===== verification/Net_Tcp.thy ===== *)
theory Net_Tcp
  imports Net_Ip
begin

unbundle bit_operations_syntax

text \<open>
  The TCP of src/src/tcp.c: the connection table, segments, the retransmission timer with its
  round-trip estimate, the state machine that received segments drive, and the socket calls.
  A connection is the pointer the code passes around as its index in the table.
\<close>

section \<open>Constants and the connection table\<close>

definition TCP_HEADER_LEN :: u16 where "TCP_HEADER_LEN = 20"
definition TCP_TEST_PORT :: u16 where "TCP_TEST_PORT = 7"
definition MAX_TCP_CONNECTIONS :: nat where "MAX_TCP_CONNECTIONS = 8"

definition TCP_FLAG_FIN :: u8 where "TCP_FLAG_FIN = 0x01"
definition TCP_FLAG_SYN :: u8 where "TCP_FLAG_SYN = 0x02"
definition TCP_FLAG_RST :: u8 where "TCP_FLAG_RST = 0x04"
definition TCP_FLAG_PSH :: u8 where "TCP_FLAG_PSH = 0x08"
definition TCP_FLAG_ACK :: u8 where "TCP_FLAG_ACK = 0x10"

definition TCP_RTO_INITIAL_TICKS :: u32 where "TCP_RTO_INITIAL_TICKS = 50"
definition TCP_RTO_MIN_TICKS :: u32 where "TCP_RTO_MIN_TICKS = 2"
definition TCP_RTO_MAX_TICKS :: u32 where "TCP_RTO_MAX_TICKS = 200"
definition TCP_MAX_RETRANSMITS :: int where "TCP_MAX_RETRANSMITS = 5"

text \<open>An assignment through the pointer \<open>\&connections[i]\<close>.\<close>

definition conn_set :: "net \<Rightarrow> nat \<Rightarrow> tcp_connection \<Rightarrow> net" where
  "conn_set s i c = s\<lparr>connections := (connections s)[i := c]\<rparr>"

definition tcp_find_connection :: "net \<Rightarrow> bytes \<Rightarrow> u16 \<Rightarrow> nat option" where
  "tcp_find_connection s rip rport =
     find (\<lambda>i. state (connections s ! i) \<noteq> TCP_CLOSED \<and> remote_port (connections s ! i) = rport \<and>
               list_all (\<lambda>j. remote_ip (connections s ! i) ! j = rip ! j) [0..<4]) [0..<MAX_TCP_CONNECTIONS]"

definition tcp_alloc_connection :: "net \<Rightarrow> nat option" where
  "tcp_alloc_connection s = find (\<lambda>i. state (connections s ! i) = TCP_CLOSED) [0..<MAX_TCP_CONNECTIONS]"

section \<open>Sending\<close>

definition tcp_pseudo_header :: "bytes \<Rightarrow> bytes \<Rightarrow> u16 \<Rightarrow> bytes" where
  "tcp_pseudo_header src dest tcp_len =
     take 4 src @ take 4 dest @ [0x00, 6, ucast (drop_bit 8 tcp_len), ucast (tcp_len AND 0xFF)]"

text \<open>The 20 bytes of the header with a zero checksum.\<close>

definition tcp_header0 :: "u16 \<Rightarrow> u16 \<Rightarrow> u32 \<Rightarrow> u32 \<Rightarrow> u8 \<Rightarrow> bytes" where
  "tcp_header0 lport rport seq ack flags =
     (let h1 = put_be16 (put_be16 (replicate 20 0) 0 lport) 2 rport;
          h2 = put_be32 (put_be32 h1 4 seq) 8 ack;
          h3 = h2[12 := push_bit 4 5, 13 := flags]
      in put_be16 (put_be16 (put_be16 h3 14 4096) 16 0) 18 0)"

definition tcp_segment :: "bytes \<Rightarrow> tcp_connection \<Rightarrow> u8 \<Rightarrow> u32 \<Rightarrow> u32 \<Rightarrow> bytes \<Rightarrow> bytes" where
  "tcp_segment src conn flags seq ack payload =
     (let tcp_len = TCP_HEADER_LEN + of_nat (length payload);
          hdr = tcp_header0 (local_port conn) (remote_port conn) seq ack flags;
          csum = ip_checksum (tcp_pseudo_header src (remote_ip conn) tcp_len @ hdr @ payload)
      in put_be16 hdr 16 csum @ payload)"

definition tcp_send_segment :: "net \<Rightarrow> tcp_connection \<Rightarrow> u8 \<Rightarrow> u32 \<Rightarrow> u32 \<Rightarrow> bytes \<Rightarrow> u16 \<Rightarrow> net" where
  "tcp_send_segment s conn flags seq ack payload payload_len =
     (let plen = (if 1460 < payload_len then 1460 else payload_len);
          seg = tcp_segment (ip_get_address s) conn flags seq ack (take (unat plen) payload)
      in ip_send s 6 (remote_ip conn) (remote_mac conn) seg (TCP_HEADER_LEN + plen))"

text \<open>\<open>tcp_rtt_sample\<close>: the estimate in fixed point, then the pending segment is cleared.\<close>

definition tcp_rtt_estimate :: "u32 \<Rightarrow> tcp_connection \<Rightarrow> tcp_connection" where
  "tcp_rtt_estimate measured conn =
     (if \<not> rtt_valid conn then conn\<lparr>srtt := push_bit 3 measured, rttvar := push_bit 1 measured, rtt_valid := True\<rparr>
      else let delta = measured - drop_bit 3 (srtt conn);
               delta' = (if sint delta < 0 then - delta else delta)
           in conn\<lparr>srtt := srtt conn + delta, rttvar := rttvar conn + (delta' - drop_bit 2 (rttvar conn))\<rparr>)"

definition tcp_rtt_sample :: "u32 \<Rightarrow> tcp_connection \<Rightarrow> tcp_connection" where
  "tcp_rtt_sample now conn =
     (let conn1 =
        (if retransmit_count conn = 0 then
           let m = now - last_send_tick conn;
               measured = (if m = 0 then 1 else m);
               c = tcp_rtt_estimate measured conn;
               r0 = drop_bit 3 (srtt c) + rttvar c;
               r1 = (if r0 < TCP_RTO_MIN_TICKS then TCP_RTO_MIN_TICKS else r0);
               r2 = (if TCP_RTO_MAX_TICKS < r1 then TCP_RTO_MAX_TICKS else r1)
           in c\<lparr>rto := r2\<rparr>
         else conn)
      in conn1\<lparr>pending := False\<rparr>)"

definition tcp_send_tracked :: "net \<Rightarrow> nat \<Rightarrow> u8 \<Rightarrow> u32 \<Rightarrow> bytes \<Rightarrow> u16 \<Rightarrow> net" where
  "tcp_send_tracked s i flags seq payload payload_len =
     (let conn = connections s ! i;
          s1 = tcp_send_segment s conn flags seq (their_seq conn) payload payload_len;
          store_len = (if 1460 < payload_len then 1460 else payload_len)
      in conn_set s1 i
           (conn\<lparr>pending_data := copy_into (pending_data conn) 0 (take (unat store_len) payload),
                 pending_len := store_len, pending_seq := seq, pending_flags := flags, pending := True,
                 last_send_tick := ticks s1, retransmit_count := 0,
                 current_rto := (if rtt_valid conn then rto conn else TCP_RTO_INITIAL_TICKS)\<rparr>))"

section \<open>The retransmission timer\<close>

definition tcp_check_one :: "u32 \<Rightarrow> net \<Rightarrow> nat \<Rightarrow> net" where
  "tcp_check_one now s i =
     (let conn = connections s ! i in
      if state conn = TCP_CLOSED \<or> \<not> pending conn then s
      else if now - last_send_tick conn < current_rto conn then s
      else if TCP_MAX_RETRANSMITS \<le> retransmit_count conn then
        conn_set s i (conn\<lparr>state := TCP_CLOSED, pending := False\<rparr>)
      else let s1 = tcp_send_segment s conn (pending_flags conn) (pending_seq conn) (their_seq conn)
                      (if 0 < pending_len conn then pending_data conn else []) (pending_len conn);
               r = current_rto conn * 2
           in conn_set s1 i
                (conn\<lparr>last_send_tick := now, retransmit_count := retransmit_count conn + 1,
                      current_rto := (if TCP_RTO_MAX_TICKS < r then TCP_RTO_MAX_TICKS else r)\<rparr>))"

definition tcp_check_retransmits :: "net \<Rightarrow> net" where
  "tcp_check_retransmits s = foldl (tcp_check_one (ticks s)) s [0..<MAX_TCP_CONNECTIONS]"

section \<open>Receiving\<close>

text \<open>
  The loop that queues the payload of a segment. \<open>None\<close> when it goes on past the bytes of the
  segment, which it does when the data offset is larger than the segment.
\<close>

fun tcp_queue :: "tcp_connection \<Rightarrow> bytes \<Rightarrow> nat \<Rightarrow> tcp_connection option" where
  "tcp_queue conn payload 0 = Some conn"
| "tcp_queue conn payload (Suc n) =
     (let nxt = (rx_head conn + 1) mod 512 in
      if nxt = rx_tail conn then Some conn
      else case payload of
             [] \<Rightarrow> None
           | b # rest \<Rightarrow> tcp_queue (conn\<lparr>rx_buffer := (rx_buffer conn)[unat (rx_head conn) := b], rx_head := nxt\<rparr>) rest n)"

definition tcp_new_connection :: "tcp_connection \<Rightarrow> bytes \<Rightarrow> bytes \<Rightarrow> u16 \<Rightarrow> u32 \<Rightarrow> tcp_connection" where
  "tcp_new_connection conn source_ip source_mac source_port seq =
     conn\<lparr>remote_ip := take 4 source_ip, remote_mac := take 6 source_mac, local_port := TCP_TEST_PORT,
          remote_port := source_port, their_seq := seq + 1, our_seq := 1000, state := TCP_SYN_RECEIVED,
          pending := False, retransmit_count := 0, rx_head := 0, rx_tail := 0, rx_closed := False,
          accepted := False, rtt_valid := False\<rparr>"

text \<open>The branch of \<open>tcp_receive\<close> for a SYN.\<close>

definition tcp_receive_syn :: "net \<Rightarrow> nat option \<Rightarrow> bytes \<Rightarrow> bytes \<Rightarrow> u16 \<Rightarrow> u32 \<Rightarrow> net" where
  "tcp_receive_syn s found source_ip source_mac source_port seq =
     (case (case found of None \<Rightarrow> tcp_alloc_connection s | Some i \<Rightarrow> Some i) of
        None \<Rightarrow> s
      | Some i \<Rightarrow>
          let s1 = conn_set s i (tcp_new_connection (connections s ! i) source_ip source_mac source_port seq);
              s2 = tcp_send_tracked s1 i (TCP_FLAG_SYN OR TCP_FLAG_ACK) (our_seq (connections s1 ! i)) [] 0;
              c = connections s2 ! i
          in conn_set s2 i (c\<lparr>our_seq := our_seq c + 1\<rparr>))"

text \<open>The branch for an established connection.\<close>

definition tcp_receive_established :: "net \<Rightarrow> nat \<Rightarrow> bytes \<Rightarrow> u16 \<Rightarrow> u32 \<Rightarrow> u32 \<Rightarrow> u8 \<Rightarrow> u8 \<Rightarrow> net option" where
  "tcp_receive_established s i tcp_data tcp_len seq ack data_offset_bytes flags =
     (let conn = connections s ! i;
          payload = drop (unat data_offset_bytes) tcp_data;
          payload_len = tcp_len - ucast data_offset_bytes in
      if 0 < payload_len \<and> seq \<noteq> their_seq conn then Some s
      else case (if 0 < payload_len
                 then tcp_queue (conn\<lparr>their_seq := their_seq conn + ucast payload_len\<rparr>) payload (unat payload_len)
                 else Some conn) of
             None \<Rightarrow> None
           | Some c1 \<Rightarrow>
               if flags AND TCP_FLAG_FIN \<noteq> 0 then
                 let c2 = c1\<lparr>their_seq := their_seq c1 + 1, rx_closed := True, state := TCP_CLOSE_WAIT\<rparr>
                 in Some (tcp_send_segment (conn_set s i c2) c2 TCP_FLAG_ACK (our_seq c2) (their_seq c2) [] 0)
               else if 0 < payload_len then
                 Some (tcp_send_segment (conn_set s i c1) c1 TCP_FLAG_ACK (our_seq c1) (their_seq c1) [] 0)
               else if pending c1 \<and> flags AND TCP_FLAG_ACK \<noteq> 0 \<and> ack = our_seq c1 then
                 Some (conn_set s i (tcp_rtt_sample (ticks s) c1))
               else Some s)"

definition tcp_receive :: "net \<Rightarrow> bytes \<Rightarrow> bytes \<Rightarrow> bytes \<Rightarrow> u16 \<Rightarrow> net option" where
  "tcp_receive s source_ip source_mac tcp_data tcp_len =
     (if tcp_len < TCP_HEADER_LEN then Some s
      else let source_port = get_be16 tcp_data 0;
               dest_port = get_be16 tcp_data 2;
               seq = get_be32 tcp_data 4;
               ack = get_be32 tcp_data 8;
               data_offset_bytes = drop_bit 4 (tcp_data ! 12) * 4;
               flags = tcp_data ! 13 in
        if dest_port \<noteq> TCP_TEST_PORT then Some s
        else let found = tcp_find_connection s source_ip source_port in
          if found \<noteq> None \<and> flags AND TCP_FLAG_RST \<noteq> 0 then
            Some (conn_set s (the found) ((connections s ! the found)\<lparr>state := TCP_CLOSED, pending := False\<rparr>))
          else if flags AND TCP_FLAG_SYN \<noteq> 0 \<and> flags AND TCP_FLAG_ACK = 0 then
            Some (tcp_receive_syn s found source_ip source_mac source_port seq)
          else case found of
            None \<Rightarrow> Some s
          | Some i \<Rightarrow>
              let conn = connections s ! i in
              if state conn = TCP_SYN_RECEIVED \<and> flags AND TCP_FLAG_ACK \<noteq> 0 \<and> flags AND TCP_FLAG_SYN = 0 then
                if ack = our_seq conn \<and> seq = their_seq conn
                then Some (conn_set s i (tcp_rtt_sample (ticks s) (conn\<lparr>state := TCP_ESTABLISHED\<rparr>)))
                else Some s
              else if state conn = TCP_ESTABLISHED then
                tcp_receive_established s i tcp_data tcp_len seq ack data_offset_bytes flags
              else if (state conn = TCP_LAST_ACK \<or> state conn = TCP_CLOSE_WAIT) \<and> flags AND TCP_FLAG_ACK \<noteq> 0 \<and> ack = our_seq conn then
                let c1 = (if state conn = TCP_LAST_ACK then conn\<lparr>state := TCP_CLOSED\<rparr> else conn)
                in Some (conn_set s i (if pending c1 then tcp_rtt_sample (ticks s) c1 else c1))
              else Some s)"

section \<open>Socket calls\<close>

definition tcp_acceptable :: "net \<Rightarrow> nat option" where
  "tcp_acceptable s =
     find (\<lambda>i. state (connections s ! i) = TCP_ESTABLISHED \<and> \<not> accepted (connections s ! i)) [0..<MAX_TCP_CONNECTIONS]"

partial_function (option) tcp_socket_accept :: "(net \<Rightarrow> net) \<Rightarrow> net \<Rightarrow> (nat \<times> net) option" where
  "tcp_socket_accept hlt s =
     (case tcp_acceptable s of
        Some i \<Rightarrow> Some (i, conn_set s i ((connections s ! i)\<lparr>accepted := True\<rparr>))
      | None \<Rightarrow> tcp_socket_accept hlt (hlt s))"

definition sockfd_ok :: "int \<Rightarrow> bool" where
  "sockfd_ok sockfd \<longleftrightarrow> 0 \<le> sockfd \<and> sockfd < int MAX_TCP_CONNECTIONS"

partial_function (option) tcp_recv_wait :: "(net \<Rightarrow> net) \<Rightarrow> net \<Rightarrow> nat \<Rightarrow> net option" where
  "tcp_recv_wait hlt s i =
     (let conn = connections s ! i in
      if rx_head conn = rx_tail conn \<and> \<not> rx_closed conn \<and> state conn \<noteq> TCP_CLOSED
      then tcp_recv_wait hlt (hlt s) i else Some s)"

function tcp_drain :: "tcp_connection \<Rightarrow> u32 \<Rightarrow> u32 \<Rightarrow> bytes \<times> tcp_connection" where
  "tcp_drain conn count max_len =
     (if rx_head conn \<noteq> rx_tail conn \<and> count < max_len then
        let b = rx_buffer conn ! unat (rx_tail conn);
            (out, conn1) = tcp_drain (conn\<lparr>rx_tail := (rx_tail conn + 1) mod 512\<rparr>) (count + 1) max_len
        in (b # out, conn1)
      else ([], conn))"
  by pat_completeness auto

termination tcp_drain
  by (relation "measure (\<lambda>(c, k, m). unat m - unat k)") (auto simp: unat_inc_u32 word_less_nat_alt)

declare tcp_drain.simps [simp del]

definition tcp_socket_recv :: "(net \<Rightarrow> net) \<Rightarrow> net \<Rightarrow> int \<Rightarrow> u32 \<Rightarrow> (int \<times> bytes \<times> net) option" where
  "tcp_socket_recv hlt s sockfd max_len =
     (if \<not> sockfd_ok sockfd then Some (-1, [], s)
      else case tcp_recv_wait hlt s (nat sockfd) of
        None \<Rightarrow> None
      | Some s1 \<Rightarrow>
          let (out, conn) = tcp_drain (connections s1 ! nat sockfd) 0 max_len
          in Some (int (length out), out, conn_set s1 (nat sockfd) conn))"

definition tcp_socket_send :: "net \<Rightarrow> int \<Rightarrow> bytes \<Rightarrow> u32 \<Rightarrow> int \<times> net" where
  "tcp_socket_send s sockfd buf len =
     (if \<not> sockfd_ok sockfd then (-1, s)
      else let i = nat sockfd; conn = connections s ! i in
        if state conn \<noteq> TCP_ESTABLISHED \<and> state conn \<noteq> TCP_CLOSE_WAIT then (-1, s)
        else let n = (if 1460 < len then 1460 else len);
                 s1 = tcp_send_tracked s i (TCP_FLAG_PSH OR TCP_FLAG_ACK) (our_seq conn) buf (ucast n);
                 c = connections s1 ! i
             in (sint n, conn_set s1 i (c\<lparr>our_seq := our_seq c + n\<rparr>)))"

definition tcp_socket_close :: "net \<Rightarrow> int \<Rightarrow> int \<times> net" where
  "tcp_socket_close s sockfd =
     (if \<not> sockfd_ok sockfd then (-1, s)
      else let i = nat sockfd; conn = connections s ! i in
        if state conn \<noteq> TCP_ESTABLISHED \<and> state conn \<noteq> TCP_CLOSE_WAIT then (-1, s)
        else let s1 = tcp_send_tracked s i (TCP_FLAG_FIN OR TCP_FLAG_ACK) (our_seq conn) [] 0;
                 c = connections s1 ! i
             in (0, conn_set s1 i (c\<lparr>our_seq := our_seq c + 1, state := TCP_LAST_ACK\<rparr>)))"

end
