(* ===== verification/Ring_Buffer.thy ===== *)
theory Ring_Buffer
  imports Harold_Base
begin

text \<open>
  The bounded queue that the drivers share: an array with a head and a tail index, one slot of
  which stays empty so that equal indices mean an empty queue. keyboard.c, serial.c, mouse.c and
  the receive buffers of tcp.c each have their own copy of it. The locale states the contract of
  one \<open>push\<close> and one \<open>pop\<close> against the indices and proves once that such a buffer is a
  first-in-first-out queue of \<open>cap - 1\<close> elements that drops what does not fit.
\<close>

text \<open>The elements that are queued, oldest first.\<close>

definition ring_contents :: "nat \<Rightarrow> nat \<Rightarrow> nat \<Rightarrow> 'a list \<Rightarrow> 'a list" where
  "ring_contents cap head tail buf = map (\<lambda>i. buf ! ((tail + i) mod cap)) [0..<(head + cap - tail) mod cap]"

lemma length_ring_contents: "length (ring_contents cap h t b) = (h + cap - t) mod cap"
  by (simp add: ring_contents_def)

lemma ring_used: "h < (cap :: nat) \<Longrightarrow> t < cap \<Longrightarrow> (h + cap - t) mod cap = (if t \<le> h then h - t else h + cap - t)"
  by (auto simp: le_mod_geq)

lemma ring_next: "h < (cap :: nat) \<Longrightarrow> (h + 1) mod cap = (if h + 1 = cap then 0 else h + 1)"
  by auto

lemma ring_next_less: "h < (cap :: nat) \<Longrightarrow> (h + 1) mod cap < cap"
  by auto

lemma ring_used_step:
  assumes "h < (cap :: nat)" "t < cap" "(h + 1) mod cap \<noteq> t"
  shows "((h + 1) mod cap + cap - t) mod cap = (h + cap - t) mod cap + 1"
  using assms(3) unfolding ring_used [OF ring_next_less [OF assms(1)] assms(2)] ring_used [OF assms(1,2)]
  unfolding ring_next [OF assms(1)] using assms(1,2) by (auto split: if_splits)

lemma ring_full: "h < (cap :: nat) \<Longrightarrow> t < cap \<Longrightarrow> (h + cap - t) mod cap = cap - 1 \<longleftrightarrow> (h + 1) mod cap = t"
  by (simp only: ring_used ring_next) (auto split: if_splits)

lemma ring_empty: "h < (cap :: nat) \<Longrightarrow> t < cap \<Longrightarrow> (h + cap - t) mod cap = 0 \<longleftrightarrow> h = t"
  by (simp only: ring_used) (auto split: if_splits)

lemma ring_contents_push:
  assumes "h < cap" "t < cap" "length b = cap" "(h + 1) mod cap \<noteq> t"
  shows "ring_contents cap ((h + 1) mod cap) t (b[h := x]) = ring_contents cap h t b @ [x]"
proof -
  let ?n = "(h + cap - t) mod cap"
  have c: "0 < cap" using assms by linarith
  have n: "((h + 1) mod cap + cap - t) mod cap = ?n + 1" by (rule ring_used_step [OF assms(1,2,4)])
  have last: "(t + ?n) mod cap = h"
    using assms(1,2) by (simp add: mod_add_right_eq)
  have lt: "?n < cap" using c by simp
  have old: "(t + i) mod cap \<noteq> h" if "i < ?n" for i
  proof
    assume "(t + i) mod cap = h"
    then have "(t + i) mod cap = (t + ?n) mod cap" using last by simp
    moreover have "(t + k) mod cap = (if t + k < cap then t + k else t + k - cap)" if "k < cap" for k
      using that assms(2) by (simp add: le_mod_geq)
    ultimately show False using that lt by (auto split: if_splits)
  qed
  show ?thesis
    unfolding ring_contents_def n using last assms(1,3) by (simp add: nth_list_update) (metis atLeastLessThan_iff old)
qed

lemma ring_contents_pop:
  assumes "h < cap" "t < cap" "h \<noteq> t"
  shows "ring_contents cap h t b = b ! t # ring_contents cap h ((t + 1) mod cap) b"
proof -
  let ?n = "(h + cap - t) mod cap"
  have c: "0 < cap" using assms by linarith
  have n: "?n = (h + cap - (t + 1) mod cap) mod cap + 1"
    unfolding ring_used [OF assms(1) ring_next_less [OF assms(2)]] ring_used [OF assms(1,2)]
    unfolding ring_next [OF assms(2)] using assms by (auto split: if_splits)
  have "[0..<?n] = 0 # map Suc [0..<(h + cap - (t + 1) mod cap) mod cap]"
    unfolding n by (simp add: upt_conv_Cons map_Suc_upt del: upt_Suc)
  moreover have "(t + Suc i) mod cap = ((t + 1) mod cap + i) mod cap" for i by (simp add: mod_add_left_eq)
  ultimately show ?thesis using assms(2) by (simp add: ring_contents_def o_def)
qed

text \<open>An operation of a producer or of a consumer.\<close>

datatype 'a ring_op = Put 'a | Get

text \<open>Any interleaving of producer and consumer: what was read, and the state after it.\<close>

fun ring_run :: "('s \<Rightarrow> bool) \<Rightarrow> ('a \<Rightarrow> 's \<Rightarrow> 's) \<Rightarrow> ('s \<Rightarrow> 'a \<times> 's) \<Rightarrow> 'a ring_op list \<Rightarrow> 's \<Rightarrow> 'a list \<times> 's" where
  "ring_run none push pop [] s = ([], s)"
| "ring_run none push pop (Put x # ops) s = ring_run none push pop ops (push x s)"
| "ring_run none push pop (Get # ops) s =
     (if none s then ring_run none push pop ops s
      else let (out, s') = ring_run none push pop ops (snd (pop s)) in (fst (pop s) # out, s'))"

text \<open>The elements that found room, in order.\<close>

fun ring_accepted :: "('s \<Rightarrow> bool) \<Rightarrow> ('s \<Rightarrow> bool) \<Rightarrow> ('a \<Rightarrow> 's \<Rightarrow> 's) \<Rightarrow> ('s \<Rightarrow> 'a \<times> 's) \<Rightarrow> 'a ring_op list \<Rightarrow> 's \<Rightarrow> 'a list" where
  "ring_accepted none full push pop [] s = []"
| "ring_accepted none full push pop (Put x # ops) s = (if full s then [] else [x]) @ ring_accepted none full push pop ops (push x s)"
| "ring_accepted none full push pop (Get # ops) s =
     (if none s then ring_accepted none full push pop ops s else ring_accepted none full push pop ops (snd (pop s)))"

locale ring_buffer =
  fixes cap :: nat
    and inv :: "'s \<Rightarrow> bool"
    and head tail :: "'s \<Rightarrow> nat"
    and buf :: "'s \<Rightarrow> 'a list"
    and push :: "'a \<Rightarrow> 's \<Rightarrow> 's"
    and pop :: "'s \<Rightarrow> 'a \<times> 's"
  assumes inv_bounds: "inv s \<Longrightarrow> head s < cap \<and> tail s < cap \<and> length (buf s) = cap"
    and push_room: "inv s \<Longrightarrow> (head s + 1) mod cap \<noteq> tail s \<Longrightarrow>
      inv (push x s) \<and> head (push x s) = (head s + 1) mod cap \<and> tail (push x s) = tail s \<and> buf (push x s) = (buf s)[head s := x]"
    and push_full: "inv s \<Longrightarrow> (head s + 1) mod cap = tail s \<Longrightarrow> push x s = s"
    and pop_some: "inv s \<Longrightarrow> head s \<noteq> tail s \<Longrightarrow>
      fst (pop s) = buf s ! tail s \<and> inv (snd (pop s)) \<and> head (snd (pop s)) = head s \<and>
      tail (snd (pop s)) = (tail s + 1) mod cap \<and> buf (snd (pop s)) = buf s"
begin

abbreviation (input) contents where
  "contents s \<equiv> ring_contents cap (head s) (tail s) (buf s)"

lemma push_inv: "inv s \<Longrightarrow> inv (push x s)"
  using push_room push_full by (cases "(head s + 1) mod cap = tail s") auto

lemma contents_bound: "inv s \<Longrightarrow> length (contents s) \<le> cap - 1"
proof -
  assume "inv s"
  then have "0 < cap" using inv_bounds [of s] by linarith
  then have "(head s + cap - tail s) mod cap < cap" by simp
  then show ?thesis by (simp add: length_ring_contents)
qed

lemma full_iff: "inv s \<Longrightarrow> length (contents s) = cap - 1 \<longleftrightarrow> (head s + 1) mod cap = tail s"
  using inv_bounds [of s] ring_full [of "head s" cap "tail s"] by (simp only: length_ring_contents)

lemma empty_iff: "inv s \<Longrightarrow> contents s = [] \<longleftrightarrow> head s = tail s"
proof -
  assume "inv s"
  then have "length (contents s) = 0 \<longleftrightarrow> head s = tail s"
    using inv_bounds [of s] ring_empty [of "head s" cap "tail s"] by (simp only: length_ring_contents)
  then show ?thesis by simp
qed

lemma push_contents:
  assumes "inv s"
  shows "contents (push x s) = (if length (contents s) < cap - 1 then contents s @ [x] else contents s)"
proof (cases "(head s + 1) mod cap = tail s")
  case True
  then show ?thesis using full_iff [OF assms] push_full [OF assms] by simp
next
  case False
  then have "length (contents s) < cap - 1" using full_iff [OF assms] contents_bound [OF assms] by simp
  then show ?thesis
    using False push_room [OF assms False, of x] inv_bounds [OF assms] ring_contents_push [of "head s" cap "tail s" "buf s" x] by simp
qed

lemma pop_contents:
  assumes "inv s" "contents s \<noteq> []"
  shows "contents s = fst (pop s) # contents (snd (pop s))" and "inv (snd (pop s))"
proof -
  have ne: "head s \<noteq> tail s" using assms empty_iff by blast
  note p = pop_some [OF assms(1) ne]
  show "inv (snd (pop s))" using p by simp
  show "contents s = fst (pop s) # contents (snd (pop s))"
    using p ring_contents_pop [of "head s" cap "tail s" "buf s"] inv_bounds [OF assms(1)] ne by simp
qed

text \<open>Many elements at once: those that fit are queued in order, the rest is dropped.\<close>

lemma push_all:
  "inv s \<Longrightarrow> inv (fold push xs s) \<and> contents (fold push xs s) = contents s @ take (cap - 1 - length (contents s)) xs"
proof (induction xs arbitrary: s)
  case (Cons x xs)
  let ?c = "contents s"
  have i: "inv (push x s)" using Cons.prems by (rule push_inv)
  note ih = Cons.IH [OF i]
  show ?case
  proof (cases "length ?c < cap - 1")
    case True
    then have "cap - 1 - length ?c = Suc (cap - 1 - length (?c @ [x]))" by simp
    then show ?thesis using ih True by (simp add: push_contents [OF Cons.prems])
  next
    case False
    then show ?thesis using ih by (simp add: push_contents [OF Cons.prems])
  qed
qed simp

lemma run_fifo:
  "inv s \<Longrightarrow> ring_run (\<lambda>s. head s = tail s) push pop ops s = (out, s') \<Longrightarrow>
   inv s' \<and> out @ contents s' = contents s @
     ring_accepted (\<lambda>s. head s = tail s) (\<lambda>s. (head s + 1) mod cap = tail s) push pop ops s"
proof (induction ops arbitrary: s out)
  case (Cons op ops)
  note i = Cons.prems(1)
  show ?case
  proof (cases op)
    case (Put x)
    then show ?thesis
      using Cons.IH [OF push_inv [OF i], of x] Cons.prems(2) push_contents [OF i, of x] full_iff [OF i] contents_bound [OF i] by auto
  next
    case Get
    show ?thesis
    proof (cases "head s = tail s")
      case False
      then have ne: "contents s \<noteq> []" using empty_iff [OF i] by blast
      obtain o' where o': "ring_run (\<lambda>s. head s = tail s) push pop ops (snd (pop s)) = (o', s')" "out = fst (pop s) # o'"
        using Cons.prems(2) Get False by (auto split: prod.splits)
      note ih = Cons.IH [OF pop_contents(2) [OF i ne] o'(1)]
      show ?thesis unfolding Get o'(2) pop_contents(1) [OF i ne] using ih False by simp
    qed (use Cons Get in auto)
  qed
qed simp

end

end
