(* ===== verification/Net_Tcp_Spec.thy ===== *)
theory Net_Tcp_Spec
  imports Net_Tcp Net_Ip_Spec Ring_Buffer
begin

unbundle bit_operations_syntax

text \<open>
  The invariant of the connection table and the step relation of the TCP layer: whatever
  segments arrive, whenever the timer runs and whatever the socket calls do, every connection
  stays well formed and no two connections have the same peer.
\<close>

section \<open>What sending leaves alone\<close>

lemma ip_send_frame_cond [simp]:
  "connections (ip_send s p d m x n) = connections s" "ticks (ip_send s p d m x n) = ticks s"
  "our_ip (ip_send s p d m x n) = our_ip s" "mac (nic (ip_send s p d m x n)) = mac (nic s)"
  "present (nic (ip_send s p d m x n)) = present (nic s)"
  by (simp_all add: ip_send_def Let_def rtl8139_send_frame_def)

lemma tcp_send_segment_frame [simp]:
  "connections (tcp_send_segment s c f sq a x n) = connections s" "ticks (tcp_send_segment s c f sq a x n) = ticks s"
  "our_ip (tcp_send_segment s c f sq a x n) = our_ip s" "mac (nic (tcp_send_segment s c f sq a x n)) = mac (nic s)"
  "present (nic (tcp_send_segment s c f sq a x n)) = present (nic s)"
  by (simp_all add: tcp_send_segment_def Let_def)

lemma conn_set_simps [simp]:
  "connections (conn_set s i c) = (connections s)[i := c]" "ticks (conn_set s i c) = ticks s" "nic (conn_set s i c) = nic s"
  "our_ip (conn_set s i c) = our_ip s"
  by (simp_all add: conn_set_def)

lemma host_ok_conn_set [simp]: "host_ok (conn_set s i c) = host_ok s"
  by (simp add: host_ok_def)

lemma host_ok_send [simp]: "host_ok (tcp_send_segment s c f sq a x n) = host_ok s"
  by (simp add: host_ok_def)

lemma connections_tracked:
  "connections (tcp_send_tracked s i f sq x n) =
     (connections s)[i := (connections s ! i)\<lparr>pending_data := copy_into (pending_data (connections s ! i)) 0 (take (unat (if 1460 < n then 1460 else n)) x),
        pending_len := (if 1460 < n then 1460 else n), pending_seq := sq, pending_flags := f, pending := True, last_send_tick := ticks s,
        retransmit_count := 0, current_rto := (if rtt_valid (connections s ! i) then rto (connections s ! i) else 50)\<rparr>]"
  by (simp add: tcp_send_tracked_def Let_def TCP_RTO_INITIAL_TICKS_def)

section \<open>Well-formed connections\<close>

definition conn_ok :: "tcp_connection \<Rightarrow> bool" where
  "conn_ok c \<longleftrightarrow> length (rx_buffer c) = 512 \<and> rx_head c < 512 \<and> rx_tail c < 512 \<and>
     length (pending_data c) = 1460 \<and> pending_len c \<le> 1460 \<and> 0 \<le> retransmit_count c \<and> retransmit_count c \<le> 5 \<and>
     (state c = TCP_CLOSED \<longrightarrow> \<not> pending c) \<and>
     (state c \<noteq> TCP_CLOSED \<longrightarrow> length (remote_ip c) = 4 \<and> length (remote_mac c) = 6 \<and> local_port c = 7) \<and>
     (state c = TCP_SYN_RECEIVED \<or> state c = TCP_ESTABLISHED \<longrightarrow> \<not> rx_closed c) \<and>
     (rtt_valid c \<longrightarrow> 2 \<le> rto c \<and> rto c \<le> 200) \<and> (pending c \<longrightarrow> 2 \<le> current_rto c \<and> current_rto c \<le> 200)"

definition peers_distinct :: "tcp_connection list \<Rightarrow> bool" where
  "peers_distinct cs \<longleftrightarrow> (\<forall>i < length cs. \<forall>j < length cs. i \<noteq> j \<and> state (cs ! i) \<noteq> TCP_CLOSED \<and> state (cs ! j) \<noteq> TCP_CLOSED \<longrightarrow>
     \<not> (remote_ip (cs ! i) = remote_ip (cs ! j) \<and> remote_port (cs ! i) = remote_port (cs ! j)))"

definition tcp_wf :: "net \<Rightarrow> bool" where
  "tcp_wf s \<longleftrightarrow> length (connections s) = 8 \<and> list_all conn_ok (connections s) \<and> peers_distinct (connections s)"

lemma tcp_wf_conn: "tcp_wf s \<Longrightarrow> i < 8 \<Longrightarrow> conn_ok (connections s ! i)"
  by (simp add: tcp_wf_def list_all_length)

text \<open>The same peer, or a connection that is closed now.\<close>

definition keeps_peer :: "tcp_connection \<Rightarrow> tcp_connection \<Rightarrow> bool" where
  "keeps_peer c c' \<longleftrightarrow> state c' = TCP_CLOSED \<or>
     state c \<noteq> TCP_CLOSED \<and> remote_ip c' = remote_ip c \<and> remote_port c' = remote_port c"

lemma peers_distinct_keep:
  assumes "peers_distinct cs" and "i < length cs" and "keeps_peer (cs ! i) c"
  shows "peers_distinct (cs[i := c])"
  using assms unfolding peers_distinct_def keeps_peer_def by (simp add: nth_list_update) metis

lemma tcp_wf_keep:
  assumes "tcp_wf s" and "i < 8" and "conn_ok c" and "keeps_peer (connections s ! i) c"
  shows "tcp_wf (conn_set s i c)"
  using assms peers_distinct_keep [of "connections s" i c] by (auto simp: tcp_wf_def list_all_iff dest: subsetD [OF set_update_subset_insert])

lemma tcp_wf_cong: "connections s' = connections s \<Longrightarrow> tcp_wf s' = tcp_wf s"
  by (simp add: tcp_wf_def)

lemma tcp_wf_send [simp]: "tcp_wf (tcp_send_segment s c f sq a x n) = tcp_wf s"
  by (rule tcp_wf_cong) simp

lemma rtt_estimate_fields [simp]:
  "rx_buffer (tcp_rtt_estimate m c) = rx_buffer c" "rx_head (tcp_rtt_estimate m c) = rx_head c" "rx_tail (tcp_rtt_estimate m c) = rx_tail c"
  "pending_data (tcp_rtt_estimate m c) = pending_data c" "pending_len (tcp_rtt_estimate m c) = pending_len c"
  "retransmit_count (tcp_rtt_estimate m c) = retransmit_count c" "state (tcp_rtt_estimate m c) = state c"
  "remote_ip (tcp_rtt_estimate m c) = remote_ip c" "remote_mac (tcp_rtt_estimate m c) = remote_mac c"
  "remote_port (tcp_rtt_estimate m c) = remote_port c" "local_port (tcp_rtt_estimate m c) = local_port c"
  "rx_closed (tcp_rtt_estimate m c) = rx_closed c" "our_seq (tcp_rtt_estimate m c) = our_seq c" "their_seq (tcp_rtt_estimate m c) = their_seq c"
  "accepted (tcp_rtt_estimate m c) = accepted c"
  by (simp_all add: tcp_rtt_estimate_def Let_def)

lemma rtt_sample_fields [simp]:
  "rx_buffer (tcp_rtt_sample t c) = rx_buffer c" "rx_head (tcp_rtt_sample t c) = rx_head c" "rx_tail (tcp_rtt_sample t c) = rx_tail c"
  "pending_data (tcp_rtt_sample t c) = pending_data c" "pending_len (tcp_rtt_sample t c) = pending_len c"
  "retransmit_count (tcp_rtt_sample t c) = retransmit_count c" "state (tcp_rtt_sample t c) = state c"
  "remote_ip (tcp_rtt_sample t c) = remote_ip c" "remote_mac (tcp_rtt_sample t c) = remote_mac c"
  "remote_port (tcp_rtt_sample t c) = remote_port c" "local_port (tcp_rtt_sample t c) = local_port c"
  "rx_closed (tcp_rtt_sample t c) = rx_closed c" "our_seq (tcp_rtt_sample t c) = our_seq c" "their_seq (tcp_rtt_sample t c) = their_seq c"
  "accepted (tcp_rtt_sample t c) = accepted c" "pending (tcp_rtt_sample t c) = False"
  by (simp_all add: tcp_rtt_sample_def Let_def)

lemma rtt_sample_rto:
  assumes "rtt_valid c \<longrightarrow> 2 \<le> rto c \<and> rto c \<le> 200" "rtt_valid (tcp_rtt_sample t c)"
  shows "2 \<le> rto (tcp_rtt_sample t c) \<and> rto (tcp_rtt_sample t c) \<le> 200"
  using assms unfolding tcp_rtt_sample_def Let_def TCP_RTO_MIN_TICKS_def TCP_RTO_MAX_TICKS_def
  by (cases "retransmit_count c = 0") (simp_all add: not_less)

lemma conn_ok_sample:
  assumes "conn_ok c" shows "conn_ok (tcp_rtt_sample t c)"
  using assms rtt_sample_rto [of c t] by (simp add: conn_ok_def)

lemma conn_ok_close: "conn_ok c \<Longrightarrow> conn_ok (c\<lparr>state := TCP_CLOSED, pending := False\<rparr>)"
  by (simp add: conn_ok_def)

section \<open>The receive buffer\<close>

definition rx_inv :: "tcp_connection \<Rightarrow> bool" where
  "rx_inv c \<longleftrightarrow> length (rx_buffer c) = 512 \<and> rx_head c < 512 \<and> rx_tail c < 512"

text \<open>One round of the loops of \<open>tcp_receive\<close> and \<open>tcp_socket_recv\<close>.\<close>

definition rx_push :: "u8 \<Rightarrow> tcp_connection \<Rightarrow> tcp_connection" where
  "rx_push b c = (if (rx_head c + 1) mod 512 = rx_tail c then c
     else c\<lparr>rx_buffer := (rx_buffer c)[unat (rx_head c) := b], rx_head := (rx_head c + 1) mod 512\<rparr>)"

definition rx_pop :: "tcp_connection \<Rightarrow> u8 \<times> tcp_connection" where
  "rx_pop c = (rx_buffer c ! unat (rx_tail c), c\<lparr>rx_tail := (rx_tail c + 1) mod 512\<rparr>)"

definition rx_contents :: "tcp_connection \<Rightarrow> bytes" where
  "rx_contents c = ring_contents 512 (unat (rx_head c)) (unat (rx_tail c)) (rx_buffer c)"

lemma unat_ring_next: "unat (((x :: u16) + 1) mod 512) = (unat x + 1) mod 512"
proof -
  have d: "(512 :: nat) dvd 65536" by simp
  have "unat ((x + 1) mod 512) = (unat x + 1) mod 65536 mod 512" by (simp add: unat_mod unat_word_ariths)
  then show ?thesis by (simp only: mod_mod_cancel [OF d])
qed

lemma ring_next_bound: "((x :: u16) + 1) mod 512 < 512"
  by (simp only: word_less_nat_alt unat_ring_next) simp

lemma ring_next_eq: "((x :: u16) + 1) mod 512 = y \<longleftrightarrow> (unat x + 1) mod 512 = unat y"
  by (metis unat_ring_next word_unat_eq_iff)

interpretation tcp_rx: ring_buffer 512 rx_inv "\<lambda>c. unat (rx_head c)" "\<lambda>c. unat (rx_tail c)" rx_buffer rx_push rx_pop
proof unfold_locales
  fix c x
  show "rx_inv c \<Longrightarrow> unat (rx_head c) < 512 \<and> unat (rx_tail c) < 512 \<and> length (rx_buffer c) = 512"
    by (simp add: rx_inv_def word_less_nat_alt)
  show "rx_inv c \<Longrightarrow> (unat (rx_head c) + 1) mod 512 \<noteq> unat (rx_tail c) \<Longrightarrow>
      rx_inv (rx_push x c) \<and> unat (rx_head (rx_push x c)) = (unat (rx_head c) + 1) mod 512 \<and>
      unat (rx_tail (rx_push x c)) = unat (rx_tail c) \<and> rx_buffer (rx_push x c) = (rx_buffer c)[unat (rx_head c) := x]"
    using unat_ring_next [of "rx_head c"] ring_next_bound [of "rx_head c"] ring_next_eq [of "rx_head c" "rx_tail c"]
    by (simp add: rx_push_def rx_inv_def)
  show "rx_inv c \<Longrightarrow> (unat (rx_head c) + 1) mod 512 = unat (rx_tail c) \<Longrightarrow> rx_push x c = c"
    using ring_next_eq [of "rx_head c" "rx_tail c"] by (simp add: rx_push_def)
  show "rx_inv c \<Longrightarrow> unat (rx_head c) \<noteq> unat (rx_tail c) \<Longrightarrow>
      fst (rx_pop c) = rx_buffer c ! unat (rx_tail c) \<and> rx_inv (snd (rx_pop c)) \<and> unat (rx_head (snd (rx_pop c))) = unat (rx_head c) \<and>
      unat (rx_tail (snd (rx_pop c))) = (unat (rx_tail c) + 1) mod 512 \<and> rx_buffer (snd (rx_pop c)) = rx_buffer c"
    using unat_ring_next [of "rx_tail c"] ring_next_bound [of "rx_tail c"] by (simp add: rx_pop_def rx_inv_def)
qed

lemma rx_inv_ok: "conn_ok c \<Longrightarrow> rx_inv c"
  by (simp add: conn_ok_def rx_inv_def)

lemma rx_push_fields [simp]:
  "state (rx_push b c) = state c" "remote_ip (rx_push b c) = remote_ip c" "remote_mac (rx_push b c) = remote_mac c"
  "remote_port (rx_push b c) = remote_port c" "local_port (rx_push b c) = local_port c" "our_seq (rx_push b c) = our_seq c"
  "their_seq (rx_push b c) = their_seq c" "rx_closed (rx_push b c) = rx_closed c" "pending (rx_push b c) = pending c"
  "pending_data (rx_push b c) = pending_data c" "pending_len (rx_push b c) = pending_len c" "retransmit_count (rx_push b c) = retransmit_count c"
  "rtt_valid (rx_push b c) = rtt_valid c" "rto (rx_push b c) = rto c" "current_rto (rx_push b c) = current_rto c" "accepted (rx_push b c) = accepted c"
  by (simp_all add: rx_push_def)

lemma fold_rx_push_full: "(rx_head c + 1) mod 512 = rx_tail c \<Longrightarrow> fold rx_push bs c = c"
  by (induction bs) (simp_all add: rx_push_def)

text \<open>The queueing loop pushes the payload byte by byte; it stays inside the segment when that is long enough.\<close>

lemma tcp_queue_push: "n \<le> length payload \<Longrightarrow> tcp_queue c payload n = Some (fold rx_push (take n payload) c)"
proof (induction c payload n rule: tcp_queue.induct)
  case (2 c payload n)
  obtain b rest where p: "payload = b # rest" using 2(2) by (cases payload) auto
  show ?case
  proof (cases "(rx_head c + 1) mod 512 = rx_tail c")
    case True
    then show ?thesis using fold_rx_push_full [OF True] by simp
  next
    case False
    then show ?thesis using 2 p by (simp add: rx_push_def Let_def)
  qed
qed simp

lemma tcp_queue_some: "tcp_queue c payload n = Some c' \<Longrightarrow> \<exists>bs. c' = fold rx_push bs c"
proof (induction c payload n rule: tcp_queue.induct)
  case (2 c payload n)
  show ?case
  proof (cases "(rx_head c + 1) mod 512 = rx_tail c")
    case True
    then show ?thesis using 2(2) by (intro exI [of _ "[]"]) (simp add: Let_def)
  next
    case False
    then obtain b rest where p: "payload = b # rest" "tcp_queue (rx_push b c) rest n = Some c'"
      using 2(2) by (auto simp: Let_def rx_push_def split: list.splits)
    have pe: "rx_push b c = c\<lparr>rx_buffer := (rx_buffer c)[unat (rx_head c) := b], rx_head := (rx_head c + 1) mod 512\<rparr>"
      using False by (simp add: rx_push_def)
    obtain bs where "c' = fold rx_push bs (rx_push b c)" using 2(1) [OF refl False p(1)] p(2) unfolding pe by blast
    then show ?thesis by (intro exI [of _ "b # bs"]) simp
  qed
qed (auto intro: exI [of _ "[]"])

lemma fold_rx_push_fields [simp]:
  "state (fold rx_push bs c) = state c" "remote_ip (fold rx_push bs c) = remote_ip c" "remote_mac (fold rx_push bs c) = remote_mac c"
  "remote_port (fold rx_push bs c) = remote_port c" "local_port (fold rx_push bs c) = local_port c" "our_seq (fold rx_push bs c) = our_seq c"
  "their_seq (fold rx_push bs c) = their_seq c" "rx_closed (fold rx_push bs c) = rx_closed c" "pending (fold rx_push bs c) = pending c"
  "pending_data (fold rx_push bs c) = pending_data c" "pending_len (fold rx_push bs c) = pending_len c"
  "retransmit_count (fold rx_push bs c) = retransmit_count c" "rtt_valid (fold rx_push bs c) = rtt_valid c"
  "rto (fold rx_push bs c) = rto c" "current_rto (fold rx_push bs c) = current_rto c" "accepted (fold rx_push bs c) = accepted c"
  by (induction bs arbitrary: c) simp_all

lemma conn_ok_push: "conn_ok c \<Longrightarrow> conn_ok (fold rx_push bs c)"
  using tcp_rx.push_all [of c bs] rx_inv_ok [of c] by (simp add: conn_ok_def rx_inv_def)

text \<open>The copy loop of \<open>tcp_socket_recv\<close> takes the oldest bytes, as many as were asked for.\<close>

lemma tcp_drain_spec:
  "rx_inv c \<Longrightarrow> k \<le> m \<Longrightarrow> tcp_drain c k m = (out, c') \<Longrightarrow>
   rx_inv c' \<and> out = take (unat m - unat k) (rx_contents c) \<and> rx_contents c' = drop (unat m - unat k) (rx_contents c) \<and>
   (\<exists>t. c' = c\<lparr>rx_tail := t\<rparr>)"
proof (induction c k m arbitrary: out c' rule: tcp_drain.induct)
  case (1 c k m)
  show ?case
  proof (cases "rx_head c \<noteq> rx_tail c \<and> k < m")
    case True
    let ?c1 = "c\<lparr>rx_tail := (rx_tail c + 1) mod 512\<rparr>"
    have ne: "rx_contents c \<noteq> []" using True tcp_rx.empty_iff [OF 1(2)] by (simp add: rx_contents_def word_unat_eq_iff)
    have pop: "rx_contents c = rx_buffer c ! unat (rx_tail c) # rx_contents ?c1" "rx_inv ?c1"
      using tcp_rx.pop_contents [OF 1(2) ne [unfolded rx_contents_def]] by (simp_all add: rx_pop_def rx_contents_def)
    obtain o1 where o1: "tcp_drain ?c1 (k + 1) m = (o1, c')" "out = rx_buffer c ! unat (rx_tail c) # o1"
      using 1(4) True by (subst (asm) tcp_drain.simps) (auto split: prod.splits)
    have k: "unat (k + 1) = Suc (unat k)" using True unat_inc_u32 [of k m] by blast
    have km: "k + 1 \<le> m" using True by (simp add: inc_le)
    note ih = 1(1) [OF True refl pop(2) km o1(1)]
    have d: "unat m - unat k = Suc (unat m - Suc (unat k))" using True by (auto simp: word_less_nat_alt)
    show ?thesis using ih unfolding k pop(1) d o1(2) by auto
  next
    case False
    then have e: "out = []" "c' = c" using 1(4) by (auto simp: tcp_drain.simps)
    have "rx_contents c = [] \<or> unat m - unat k = 0"
      using False 1(3) tcp_rx.empty_iff [OF 1(2)] by (auto simp: rx_contents_def word_unat_eq_iff)
    then show ?thesis using e 1(2) by (auto intro: exI [of _ "rx_tail c"])
  qed
qed

section \<open>The connection table\<close>

lemma tcp_find_Some:
  assumes "tcp_find_connection s ip port = Some i"
  shows "i < 8" "state (connections s ! i) \<noteq> TCP_CLOSED" "remote_port (connections s ! i) = port"
    "list_all (\<lambda>j. remote_ip (connections s ! i) ! j = ip ! j) [0..<4]"
  using assms by (simp_all add: tcp_find_connection_def find_upt_Some_iff MAX_TCP_CONNECTIONS_def)

lemma tcp_find_Some_ip:
  assumes "tcp_wf s" "length ip = 4" "tcp_find_connection s ip port = Some i"
  shows "remote_ip (connections s ! i) = ip"
proof -
  note f = tcp_find_Some [OF assms(3)]
  have "length (remote_ip (connections s ! i)) = 4" using tcp_wf_conn [OF assms(1) f(1)] f(2) by (simp add: conn_ok_def)
  then show ?thesis using list_all_4 assms(2) f(4) by blast
qed

lemma tcp_find_iff:
  assumes "tcp_wf s" "length ip = 4" "i < 8"
  shows "tcp_find_connection s ip port = Some i \<longleftrightarrow>
    state (connections s ! i) \<noteq> TCP_CLOSED \<and> remote_ip (connections s ! i) = ip \<and> remote_port (connections s ! i) = port"
proof
  assume "tcp_find_connection s ip port = Some i"
  then show "state (connections s ! i) \<noteq> TCP_CLOSED \<and> remote_ip (connections s ! i) = ip \<and> remote_port (connections s ! i) = port"
    using tcp_find_Some tcp_find_Some_ip [OF assms(1,2)] by blast
next
  assume a: "state (connections s ! i) \<noteq> TCP_CLOSED \<and> remote_ip (connections s ! i) = ip \<and> remote_port (connections s ! i) = port"
  then have "tcp_find_connection s ip port \<noteq> None"
    using assms(3) by (auto simp: tcp_find_connection_def find_upt_None_iff MAX_TCP_CONNECTIONS_def list_all_iff)
  then obtain j where j: "tcp_find_connection s ip port = Some j" by blast
  note f = tcp_find_Some [OF j]
  have "j = i"
    using assms(1,3) f(1-3) tcp_find_Some_ip [OF assms(1,2) j] a unfolding tcp_wf_def peers_distinct_def by metis
  then show "tcp_find_connection s ip port = Some i" using j by simp
qed

lemma tcp_find_None:
  assumes "tcp_find_connection s ip port = None" "i < 8" "state (connections s ! i) \<noteq> TCP_CLOSED"
  shows "\<not> (remote_ip (connections s ! i) = ip \<and> remote_port (connections s ! i) = port)"
  using assms by (auto simp: tcp_find_connection_def find_upt_None_iff MAX_TCP_CONNECTIONS_def list_all_iff)

text \<open>Claiming a slot for a new peer.\<close>

lemma conn_ok_new:
  "conn_ok c \<Longrightarrow> length ip = 4 \<Longrightarrow> length hw = 6 \<Longrightarrow> conn_ok (tcp_new_connection c ip hw port sq)"
  by (simp add: conn_ok_def tcp_new_connection_def TCP_TEST_PORT_def)

lemma conn_ok_tracked:
  "conn_ok c \<Longrightarrow> state c \<noteq> TCP_CLOSED \<Longrightarrow>
   conn_ok (c\<lparr>pending_data := copy_into (pending_data c) 0 (take (unat (if 1460 < n then 1460 else n)) x),
     pending_len := (if 1460 < n then 1460 else n), pending_seq := sq, pending_flags := f, pending := True, last_send_tick := t,
     retransmit_count := 0, current_rto := (if rtt_valid c then rto c else 50)\<rparr>)"
proof -
  assume a: "conn_ok c" "state c \<noteq> TCP_CLOSED"
  let ?k = "if 1460 < n then 1460 else n"
  have k: "?k \<le> 1460" by (simp add: not_less)
  then have "length (take (unat ?k) x) \<le> 1460" by (simp add: word_le_nat_alt)
  then have "length (copy_into (pending_data c) 0 (take (unat ?k) x)) = 1460" using a(1) by (simp add: conn_ok_def)
  then show ?thesis using a k by (simp add: conn_ok_def)
qed

lemma peers_distinct_new:
  assumes "peers_distinct cs" and "i < length cs"
    and "\<And>j. j < length cs \<Longrightarrow> j \<noteq> i \<Longrightarrow> state (cs ! j) \<noteq> TCP_CLOSED \<Longrightarrow> \<not> (remote_ip (cs ! j) = remote_ip c \<and> remote_port (cs ! j) = remote_port c)"
  shows "peers_distinct (cs[i := c])"
  using assms unfolding peers_distinct_def by (simp add: nth_list_update) metis

lemma conn_ok_our_seq [simp]: "conn_ok (c\<lparr>our_seq := x\<rparr>) = conn_ok c"
  by (simp add: conn_ok_def)

lemma conn_ok_their_seq [simp]: "conn_ok (c\<lparr>their_seq := x\<rparr>) = conn_ok c"
  by (simp add: conn_ok_def)

lemma conn_ok_accepted [simp]: "conn_ok (c\<lparr>accepted := x\<rparr>) = conn_ok c"
  by (simp add: conn_ok_def)

text \<open>The connection that answers a SYN.\<close>

definition syn_conn :: "tcp_connection \<Rightarrow> u32 \<Rightarrow> bytes \<Rightarrow> bytes \<Rightarrow> u16 \<Rightarrow> u32 \<Rightarrow> tcp_connection" where
  "syn_conn c now ip hw port sq =
     (tcp_new_connection c ip hw port sq)\<lparr>pending_len := 0, pending_seq := 1000, pending_flags := 0x12,
        pending := True, last_send_tick := now, retransmit_count := 0, current_rto := 50, our_seq := 1001\<rparr>"

lemma tcp_receive_syn_eq:
  assumes "length (connections s) = 8" and "(case found of None \<Rightarrow> tcp_alloc_connection s | Some i \<Rightarrow> Some i) = Some i" and "i < 8"
    and n: "n = tcp_new_connection (connections s ! i) ip hw port sq"
  shows "tcp_receive_syn s found ip hw port sq =
    conn_set (tcp_send_segment (conn_set s i n) n 0x12 1000 (sq + 1) [] 0) i (syn_conn (connections s ! i) (ticks s) ip hw port sq)"
proof -
  have l: "i < length (connections s)" using assms(1,3) by simp
  have f: "our_seq n = 1000" "their_seq n = sq + 1" "rtt_valid n = False" "pending_data n = pending_data (connections s ! i)"
    by (simp_all add: n tcp_new_connection_def)
  have fl: "TCP_FLAG_SYN OR TCP_FLAG_ACK = 0x12" by (simp add: TCP_FLAG_SYN_def TCP_FLAG_ACK_def)
  show ?thesis
    unfolding tcp_receive_syn_def assms(2) option.case Let_def n [symmetric] fl
    using l f by (simp add: tcp_send_tracked_def Let_def TCP_RTO_INITIAL_TICKS_def syn_conn_def n [symmetric] conn_set_def)
qed

lemma tcp_wf_syn:
  assumes "tcp_wf s" "length ip = 4" "length hw = 6"
  shows "tcp_wf (tcp_receive_syn s (tcp_find_connection s ip port) ip hw port sq)"
proof (cases "case tcp_find_connection s ip port of None \<Rightarrow> tcp_alloc_connection s | Some i \<Rightarrow> Some i")
  case None
  then show ?thesis using assms(1) by (simp add: tcp_receive_syn_def)
next
  case (Some i)
  have i: "i < 8" using Some tcp_find_Some(1)
    by (auto simp: tcp_alloc_connection_def find_upt_Some_iff MAX_TCP_CONNECTIONS_def split: option.splits)
  have l: "length (connections s) = 8" using assms(1) by (simp add: tcp_wf_def)
  let ?c = "syn_conn (connections s ! i) (ticks s) ip hw port sq"
  have ok: "conn_ok (tcp_new_connection (connections s ! i) ip hw port sq)" "conn_ok ?c"
    using conn_ok_new [OF tcp_wf_conn [OF assms(1) i] assms(2,3)] by (simp_all add: conn_ok_def syn_conn_def tcp_new_connection_def)
  have peer: "\<not> (remote_ip (connections s ! j) = ip \<and> remote_port (connections s ! j) = port)"
    if j: "j < 8" "j \<noteq> i" "state (connections s ! j) \<noteq> TCP_CLOSED" for j
  proof (cases "tcp_find_connection s ip port")
    case None
    then show ?thesis using tcp_find_None j by blast
  next
    case (Some k)
    then have "k = i" using \<open>(case tcp_find_connection s ip port of None \<Rightarrow> tcp_alloc_connection s | Some i \<Rightarrow> Some i) = Some i\<close> by simp
    then show ?thesis using Some tcp_find_iff [OF assms(1,2) j(1), of port] j(2,3) by simp
  qed
  have f: "remote_ip ?c = ip" "remote_port ?c = port" using assms(2) by (simp_all add: syn_conn_def tcp_new_connection_def)
  have "peers_distinct ((connections s)[i := ?c])"
  proof (rule peers_distinct_new)
    show "peers_distinct (connections s)" using assms(1) by (simp add: tcp_wf_def)
  qed (use i l peer f in simp_all)
  then show ?thesis
    unfolding tcp_receive_syn_eq [OF l Some i refl]
    using assms(1) ok(2) l i by (simp add: tcp_wf_def list_all_length nth_list_update)
qed

section \<open>Every operation keeps the table well formed\<close>

lemma keeps_peer_refl: "state c \<noteq> TCP_CLOSED \<Longrightarrow> keeps_peer c c"
  by (simp add: keeps_peer_def)

lemma tcp_wf_established:
  assumes "tcp_wf s" "i < 8" "state (connections s ! i) = TCP_ESTABLISHED"
    and "tcp_receive_established s i d n sq a off f = Some s'"
  shows "tcp_wf s'"
proof -
  let ?c = "connections s ! i"
  have ok: "conn_ok ?c" using assms(1,2) by (rule tcp_wf_conn)
  have q: "conn_ok c1 \<and> state c1 = TCP_ESTABLISHED \<and> remote_ip c1 = remote_ip ?c \<and> remote_port c1 = remote_port ?c"
    if "tcp_queue (?c\<lparr>their_seq := x\<rparr>) p k = Some c1" for x p k c1
    using tcp_queue_some [OF that] conn_ok_push [of "?c\<lparr>their_seq := x\<rparr>"] ok assms(3) by auto
  have set1: "tcp_wf (conn_set s i c1)" if "conn_ok c1" "remote_ip c1 = remote_ip ?c" "remote_port c1 = remote_port ?c" for c1
    using that assms(3) by (intro tcp_wf_keep [OF assms(1,2)]) (simp_all add: keeps_peer_def)
  have fin: "conn_ok (c1\<lparr>their_seq := y, rx_closed := True, state := TCP_CLOSE_WAIT\<rparr>)"
    if "conn_ok c1" "state c1 = TCP_ESTABLISHED" for c1 y
    using that by (simp add: conn_ok_def)
  show ?thesis
    using assms(1,4) unfolding tcp_receive_established_def Let_def
    by (auto simp: assms(3) ok split: if_splits option.splits intro!: set1 fin conn_ok_sample dest!: q)
qed

text \<open>Whatever a segment contains, receiving it keeps the table well formed.\<close>

lemma tcp_wf_receive:
  assumes "tcp_wf s" "length ip = 4" "length hw = 6" and "tcp_receive s ip hw d n = Some s'"
  shows "tcp_wf s'"
proof (cases "tcp_find_connection s ip (get_be16 d 0)")
  case None
  then show ?thesis using assms(4) tcp_wf_syn [OF assms(1-3), of "get_be16 d 0"] assms(1)
    unfolding tcp_receive_def Let_def by (auto split: if_splits)
next
  case (Some i)
  let ?c = "connections s ! i"
  note f = tcp_find_Some [OF Some]
  have ok: "conn_ok ?c" using assms(1) f(1) by (rule tcp_wf_conn)
  have set1: "tcp_wf (conn_set s i c1)" if "conn_ok c1" "remote_ip c1 = remote_ip ?c" "remote_port c1 = remote_port ?c" for c1
    using that f(2) by (intro tcp_wf_keep [OF assms(1) f(1)]) (simp_all add: keeps_peer_def)
  have est: "conn_ok (?c\<lparr>state := TCP_ESTABLISHED\<rparr>)" if "state ?c = TCP_SYN_RECEIVED" using ok that by (simp add: conn_ok_def)
  have fin: "conn_ok (if pending ?c then tcp_rtt_sample t (?c\<lparr>state := TCP_CLOSED\<rparr>) else ?c\<lparr>state := TCP_CLOSED\<rparr>)" for t
    using ok rtt_sample_rto [of "?c\<lparr>state := TCP_CLOSED\<rparr>" t] by (simp add: conn_ok_def)
  show ?thesis
    using assms(1,4) tcp_wf_syn [OF assms(1-3), of "get_be16 d 0"] fin [of "ticks s"] unfolding tcp_receive_def Let_def Some
    by (auto simp: ok est split: if_splits intro!: set1 conn_ok_sample conn_ok_close elim!: tcp_wf_established [OF assms(1) f(1)])
qed

lemma tcp_wf_check_one:
  assumes "tcp_wf s" "i < 8" shows "tcp_wf (tcp_check_one now s i)"
proof -
  let ?c = "connections s ! i"
  have ok: "conn_ok ?c" using assms by (rule tcp_wf_conn)
  have r: "2 \<le> (if 200 < r * 2 then 200 else r * 2)" "(if 200 < r * 2 then 200 else r * 2) \<le> 200" if "2 \<le> r" "r \<le> 200" for r :: u32
  proof -
    have "unat (r * 2) = unat r * 2" using that by (subst unat_mult_u32) (auto simp: word_le_nat_alt)
    then show "2 \<le> (if 200 < r * 2 then 200 else r * 2)" "(if 200 < r * 2 then 200 else r * 2) \<le> 200"
      using that by (auto simp: word_le_nat_alt word_less_nat_alt)
  qed
  have again: "conn_ok (?c\<lparr>last_send_tick := now, retransmit_count := retransmit_count ?c + 1,
      current_rto := (if TCP_RTO_MAX_TICKS < current_rto ?c * 2 then TCP_RTO_MAX_TICKS else current_rto ?c * 2)\<rparr>)"
    if "pending ?c" "\<not> TCP_MAX_RETRANSMITS \<le> retransmit_count ?c"
    using ok r [of "current_rto ?c"] that by (auto simp: conn_ok_def TCP_RTO_MAX_TICKS_def TCP_MAX_RETRANSMITS_def)
  show ?thesis
    unfolding tcp_check_one_def Let_def
    using assms ok again by (auto intro!: tcp_wf_keep conn_ok_close simp: keeps_peer_def)
qed

lemma tcp_wf_check: "tcp_wf s \<Longrightarrow> tcp_wf (tcp_check_retransmits s)"
proof -
  have "tcp_wf s \<Longrightarrow> list_all (\<lambda>i. i < 8) is \<Longrightarrow> tcp_wf (foldl (tcp_check_one now) s is)" for now "is"
    by (induction "is" arbitrary: s) (simp_all add: tcp_wf_check_one)
  then show "tcp_wf s \<Longrightarrow> tcp_wf (tcp_check_retransmits s)"
    by (simp add: tcp_check_retransmits_def MAX_TCP_CONNECTIONS_def list_all_iff)
qed

lemma tcp_wf_tracked:
  assumes "tcp_wf s" "i < 8" "state (connections s ! i) = TCP_ESTABLISHED \<or> state (connections s ! i) = TCP_CLOSE_WAIT"
  shows "tcp_wf (conn_set (tcp_send_tracked s i f sq x n) i
      ((connections (tcp_send_tracked s i f sq x n) ! i)\<lparr>our_seq := q\<rparr>))"
    and "tcp_wf (conn_set (tcp_send_tracked s i f sq x n) i
      ((connections (tcp_send_tracked s i f sq x n) ! i)\<lparr>our_seq := q, state := TCP_LAST_ACK\<rparr>))"
proof -
  let ?t = "tcp_send_tracked s i f sq x n" and ?c = "connections s ! i"
  have l: "i < length (connections s)" using assms(1,2) by (simp add: tcp_wf_def)
  have open': "state ?c \<noteq> TCP_CLOSED" using assms(3) by auto
  note ok = conn_ok_tracked [OF tcp_wf_conn [OF assms(1,2)] open']
  have c: "connections ?t ! i = ?c\<lparr>pending_data := copy_into (pending_data ?c) 0 (take (unat (if 1460 < n then 1460 else n)) x),
        pending_len := (if 1460 < n then 1460 else n), pending_seq := sq, pending_flags := f, pending := True, last_send_tick := ticks s,
        retransmit_count := 0, current_rto := (if rtt_valid ?c then rto ?c else 50)\<rparr>"
    using l by (simp add: connections_tracked)
  have cs: "connections ?t = (connections s)[i := connections ?t ! i]" unfolding c by (simp add: connections_tracked)
  have step: "tcp_wf (conn_set ?t i c')" if "conn_ok c'" "remote_ip c' = remote_ip ?c" "remote_port c' = remote_port ?c" for c'
  proof -
    have "tcp_wf (conn_set s i c')" using that open' by (intro tcp_wf_keep [OF assms(1,2)]) (simp_all add: keeps_peer_def)
    moreover have "connections (conn_set ?t i c') = connections (conn_set s i c')" by (simp add: cs [THEN arg_cong [of _ _ "\<lambda>cs. cs[i := c']"]])
    ultimately show ?thesis by (metis tcp_wf_cong)
  qed
  show "tcp_wf (conn_set ?t i ((connections ?t ! i)\<lparr>our_seq := q\<rparr>))"
    by (rule step) (simp_all add: c ok)
  show "tcp_wf (conn_set ?t i ((connections ?t ! i)\<lparr>our_seq := q, state := TCP_LAST_ACK\<rparr>))"
    by (rule step) (use ok assms(3) open' in \<open>simp_all add: c conn_ok_def\<close>)
qed

lemma tcp_wf_send_call: "tcp_wf s \<Longrightarrow> tcp_wf (snd (tcp_socket_send s fd buf len))"
  unfolding tcp_socket_send_def Let_def sockfd_ok_def MAX_TCP_CONNECTIONS_def
  by (auto intro!: tcp_wf_tracked(1))

lemma tcp_wf_close_call: "tcp_wf s \<Longrightarrow> tcp_wf (snd (tcp_socket_close s fd))"
  unfolding tcp_socket_close_def Let_def sockfd_ok_def MAX_TCP_CONNECTIONS_def
  by (auto intro!: tcp_wf_tracked(2))

end
