(* ===== verification/Net_Stack.thy ===== *)
theory Net_Stack
  imports Net_Udp Net_Tcp
begin

text \<open>
  The dispatch of received frames: \<open>ip_receive\<close> of src/src/ip.c, \<open>net_poll\<close> and one round of
  \<open>net_task\<close> of src/src/net.c. \<open>None\<close> is a segment that makes TCP read past the received bytes,
  or a card that offers empty packets for ever.
\<close>

definition ip_receive :: "net \<Rightarrow> bytes \<Rightarrow> nat \<Rightarrow> net option" where
  "ip_receive s frame frame_len =
     (case ip_parse s frame (int frame_len) of
        None \<Rightarrow> Some s
      | Some (protocol, source_ip, source_mac, payload) \<Rightarrow>
          let payload_len = of_nat (length payload) in
          if payload = [] then Some s
          else if protocol = 1 then Some (icmp_handle s source_ip source_mac payload payload_len)
          else if protocol = 17 then Some (udp_receive s source_ip source_mac payload payload_len)
          else if protocol = 6 then tcp_receive s source_ip source_mac payload payload_len
          else Some s)"

definition net_poll :: "net \<Rightarrow> net option" where
  "net_poll s =
     (case rtl8139_receive_packet (nic s) 1518 of
        None \<Rightarrow> None
      | Some (len, frame, n) \<Rightarrow>
          let s1 = s\<lparr>nic := n\<rparr> in
          if len < 14 then Some s1
          else if frame ! 12 = 0x08 \<and> frame ! 13 = 0x06 then
            Some (snd (arp_respond_if_request s1 frame len (ip_get_address s1)))
          else if frame ! 12 = 0x08 \<and> frame ! 13 = 0x00 then ip_receive s1 frame len
          else Some s1)"

text \<open>One round of the endless loop of \<open>net_task\<close>, up to its sleep.\<close>

definition net_task_round :: "net \<Rightarrow> net option" where
  "net_task_round s = (case net_poll s of None \<Rightarrow> None | Some s1 \<Rightarrow> Some (tcp_check_retransmits s1))"

end
