(* ===== verification/Net_Udp_Spec.thy ===== *)
theory Net_Udp_Spec
  imports Net_Ip_Spec Net_Stack
begin

unbundle bit_operations_syntax

text \<open>
  What the datagram protocols promise, end to end: from the frame one host puts on the wire to
  the state of the host that receives it. Then the name encoding and the reply parser of DNS.
\<close>

section \<open>Dispatch of a received packet\<close>

lemma ip_receive_wire:
  assumes "host_ok s" "length dest_mac = 6" "length payload \<le> 1472" "payload \<noteq> []" "our_ip r = dest_ip" "length dest_ip = 4"
    and w: "w = ip_wire s p dest_ip dest_mac payload"
  shows "ip_receive r w (length w) =
    (if p = 1 then Some (icmp_handle r (our_ip s) (mac (nic s)) payload (of_nat (length payload)))
     else if p = 17 then Some (udp_receive r (our_ip s) (mac (nic s)) payload (of_nat (length payload)))
     else if p = 6 then tcp_receive r (our_ip s) (mac (nic s)) payload (of_nat (length payload)) else Some r)"
  using assms(4) ip_parse_wire [OF assms(1-3,5,6), of p] by (simp add: ip_receive_def w Let_def)

lemma unat_of_nat_u16: "n < 65536 \<Longrightarrow> unat (of_nat n :: u16) = n"
  by (simp add: unat_of_nat)

lemma ip_parse_sent:
  assumes "host_ok s" "host_ok r" "length payload \<le> 1472"
  shows "\<exists>w. sent (nic (ip_send s p (our_ip r) (mac (nic r)) payload (of_nat (length payload)))) = sent (nic s) @ [(tx_desc_index (nic s), w)] \<and>
    ip_parse r w (int (length w)) = Some (p, our_ip s, mac (nic s), payload)"
proof -
  have "length (our_ip r) = 4" "length (mac (nic r)) = 6" using assms(2) by (auto simp: host_ok_def)
  then show ?thesis
    using ip_parse_wire [OF assms(1) _ assms(3), of "mac (nic r)" r "our_ip r" p] ip_send_wire [OF assms(1) _ _ assms(3), of "our_ip r" "mac (nic r)" p]
    by simp
qed

section \<open>ICMP\<close>

lemma icmp_reply_shape:
  assumes "8 \<le> length d" "length d \<le> 1472" "d ! 0 = 8"
    and "reply0 = d[0 := 0, 1 := 0, 2 := 0, 3 := 0]"
    and "reply = reply0[2 := ucast (drop_bit 8 (ip_checksum reply0)), 3 := ucast (ip_checksum reply0 AND 0xFF)]"
  shows "icmp_handle r sip smac d (of_nat (length d)) = ip_send r 1 sip smac reply (of_nat (length reply))"
    and "ip_checksum reply = 0" and "length reply = length d" and "reply ! 0 = 0" and "reply ! 1 = 0" and "drop 4 reply = drop 4 d"
proof -
  have l: "unat (of_nat (length d) :: u16) = length d" using assms(2) by (simp add: unat_of_nat_u16)
  show len: "length reply = length d" by (simp add: assms(4,5))
  show "icmp_handle r sip smac d (of_nat (length d)) = ip_send r 1 sip smac reply (of_nat (length reply))"
    using assms(1-3) l by (simp add: icmp_handle_def Let_def ICMP_HEADER_LEN_def ICMP_TYPE_ECHO_REQUEST_def ICMP_TYPE_ECHO_REPLY_def
        word_less_nat_alt len assms(4,5))
  show "ip_checksum reply = 0"
    using checksum_verifies [of 2 reply0 "ip_checksum reply0"] assms(1,2) by (simp add: assms(4,5))
  have "0 < length d" using assms(1) by linarith
  then show "reply ! 0 = 0" by (simp add: assms(4,5))
  show "reply ! 1 = 0" using assms(1) by (simp add: assms(4,5))
  show "drop 4 reply = drop 4 d" by (simp add: assms(4,5))
qed

text \<open>
  a ping is answered. When a host's echo request of 8 to 1472 bytes reaches the host it is
  addressed to, that host sends exactly one packet back, which the asking host parses as an ICMP
  message from it: an echo reply with the request's identifier, sequence number and payload, and a
  checksum that verifies.
\<close>

theorem icmp_echo_answered:
  assumes "host_ok a" and "host_ok b" and "8 \<le> length d" and "length d \<le> 1472" and "d ! 0 = 8"
    and "w = ip_wire a 1 (our_ip b) (mac (nic b)) d"
  shows "\<exists>b' desc w' reply. ip_receive b w (length w) = Some b' \<and> sent (nic b') = sent (nic b) @ [(desc, w')] \<and>
    ip_parse a w' (int (length w')) = Some (1, our_ip b, mac (nic b), reply) \<and>
    length reply = length d \<and> take 2 reply = [0, 0] \<and> drop 4 reply = drop 4 d \<and> ip_checksum reply = 0"
proof -
  define r0 where "r0 = d[0 := 0, 1 := 0, 2 := 0, 3 := 0]"
  define r where "r = r0[2 := ucast (drop_bit 8 (ip_checksum r0)), 3 := ucast (ip_checksum r0 AND 0xFF)]"
  note sh = icmp_reply_shape [OF assms(3-5) r0_def r_def]
  have b: "length (our_ip b) = 4" "length (mac (nic b)) = 6" using assms(2) by (auto simp: host_ok_def)
  have ne: "d \<noteq> []" using assms(3) by auto
  have recv: "ip_receive b w (length w) = Some (ip_send b 1 (our_ip a) (mac (nic a)) r (of_nat (length r)))"
    using ip_receive_wire [OF assms(1) b(2) assms(4) ne refl b(1) assms(6)] sh(1) by simp
  have t2: "take 2 r = [0, 0]"
    using sh(3-5) assms(3) by (cases r; cases "tl r") auto
  show ?thesis
    using recv ip_parse_sent [OF assms(2,1), of r 1] sh(2,3,6) t2 assms(4) by auto
qed

theorem icmp_echo_answered_witness:
  "\<exists>b' desc w' reply. ip_receive (host 2) (ip_wire (host 1) 1 [10, 0, 0, 2] [2, 0, 0, 0, 0, 2] [8, 0, 0, 0, 1, 2, 3, 4, 65, 66])
      (length (ip_wire (host 1) 1 [10, 0, 0, 2] [2, 0, 0, 0, 0, 2] [8, 0, 0, 0, 1, 2, 3, 4, 65, 66])) = Some b' \<and>
    sent (nic b') = [(desc, w')] \<and> ip_parse (host 1) w' (int (length w')) = Some (1, [10, 0, 0, 2], [2, 0, 0, 0, 0, 2], reply) \<and>
    drop 4 reply = [1, 2, 3, 4, 65, 66]"
proof -
  have s: "sent (nic (host 2)) = []" by (simp add: host_def)
  show ?thesis using icmp_echo_answered [of "host 1" "host 2" "[8, 0, 0, 0, 1, 2, 3, 4, 65, 66]", OF _ _ _ _ _ refl] s by auto
qed

section \<open>UDP\<close>

text \<open>The datagram that \<open>udp_send\<close> hands to IP, and the pseudo-header its checksum covers.\<close>

definition udp_datagram :: "bytes \<Rightarrow> bytes \<Rightarrow> u16 \<Rightarrow> u16 \<Rightarrow> bytes \<Rightarrow> bytes" where
  "udp_datagram src dest sp dp payload =
     (let buf = udp_buf src dest sp dp (of_nat (8 + length payload)) payload;
          c = ip_checksum buf; c' = (if c = 0 then 0xFFFF else c)
      in (drop 12 buf)[6 := ucast (drop_bit 8 c'), 7 := ucast (c' AND 0xFF)])"

definition udp_pseudo :: "bytes \<Rightarrow> bytes \<Rightarrow> nat \<Rightarrow> bytes" where
  "udp_pseudo src dest n = src @ dest @ [0, 17, ucast (drop_bit 8 (of_nat n :: u16)), ucast (of_nat n AND 0xFF :: u16)]"

lemma udp_send_datagram:
  assumes "host_ok s" "length dest = 4" "length payload \<le> 1464"
  shows "udp_send s sp dp dest dmac payload (of_nat (length payload)) =
    ip_send s 17 dest dmac (udp_datagram (our_ip s) dest sp dp payload) (of_nat (length (udp_datagram (our_ip s) dest sp dp payload)))"
proof -
  define n where "n = length payload"
  have l: "unat (of_nat n :: u16) = n" "unat (8 + of_nat n :: u16) = 8 + n"
    using assms(3) by (simp_all add: unat_of_nat_u16 n_def unat_word_ariths)
  have w: "(8 + of_nat n :: u16) = of_nat (8 + n)" by simp
  have ip: "length (our_ip s) = 4" using assms(1) by (simp add: host_ok_def)
  have b: "length (udp_buf (our_ip s) dest sp dp (8 + of_nat n) payload) = 20 + n" using ip assms(2) by (simp add: udp_buf_def n_def)
  then have d: "length (udp_datagram (our_ip s) dest sp dp payload) = 8 + n" using ip assms(2) by (simp add: udp_datagram_def Let_def udp_buf_def n_def)
  have nb: "\<not> 1472 < (of_nat n :: u16)" using l assms(3) by (simp add: word_less_nat_alt n_def)
  have full: "take (12 + (8 + n)) (udp_buf (our_ip s) dest sp dp (8 + of_nat n) payload) = udp_buf (our_ip s) dest sp dp (8 + of_nat n) payload"
    using b by simp
  show ?thesis
    unfolding udp_send_def Let_def ip_get_address_def UDP_HEADER_LEN_def PSEUDO_HEADER_LEN_def n_def [symmetric] d
    using nb l ip full by (simp add: n_def udp_datagram_def Let_def)
qed

lemma udp_datagram_fields:
  assumes "length src = 4" "length dest = 4" "length payload \<le> 1464" and d: "d = udp_datagram src dest sp dp payload"
  shows "length d = 8 + length payload" and "get_be16 d 0 = sp" and "get_be16 d 2 = dp" and "get_be16 d 4 = of_nat (8 + length payload)"
    and "drop 8 d = payload" and "ip_checksum (udp_pseudo src dest (length d) @ d) = 0"
proof -
  define N :: u16 where "N = of_nat (8 + length payload)"
  define buf where "buf = udp_buf src dest sp dp N payload"
  define c where "c = (if ip_checksum buf = 0 then 0xFFFF else ip_checksum buf)"
  define p where "p = udp_pseudo src dest (8 + length payload)"
  have lp: "length p = 12" using assms(1,2) by (simp add: p_def udp_pseudo_def)
  define x :: bytes where "x = [ucast (drop_bit 8 sp), ucast (sp AND 0xFF), ucast (drop_bit 8 dp), ucast (dp AND 0xFF), ucast (drop_bit 8 N), ucast (N AND 0xFF)]"
  have buf: "buf = p @ x @ [0, 0] @ payload"
    using assms(1,2) by (simp add: buf_def udp_buf_def p_def udp_pseudo_def x_def N_def del: of_nat_add)
  have dd: "d = x @ [ucast (drop_bit 8 c), ucast (c AND 0xFF)] @ payload"
    unfolding d udp_datagram_def Let_def N_def [symmetric] buf_def [symmetric] c_def [symmetric]
    unfolding buf by (simp add: lp x_def)
  show len: "length d = 8 + length payload" by (simp add: dd x_def)
  show "get_be16 d 0 = sp" "get_be16 d 2 = dp" by (simp_all add: dd x_def get_be16_def ucast_and_255_u16 bytes_of_u16)
  show "get_be16 d 4 = of_nat (8 + length payload)"
    unfolding N_def [symmetric] by (simp add: dd x_def get_be16_def ucast_and_255_u16 bytes_of_u16)
  show "drop 8 d = payload" by (simp add: dd x_def)
  have lb: "length buf = 20 + length payload" by (simp add: buf lp x_def)
  have z: "buf ! 18 = 0" "buf ! 19 = 0" by (simp_all add: buf nth_append lp x_def)
  have upd: "buf[18 := a, 18 + 1 := b] = p @ x @ [a, b] @ payload" for a b
    unfolding buf by (simp add: list_update_append lp x_def)
  have "ip_checksum (buf[18 := ucast (drop_bit 8 c), 18 + 1 := ucast (c AND 0xFF)]) = 0"
    using checksum_verifies [of 18 buf c] lb z assms(3) by (auto simp: c_def)
  then show "ip_checksum (udp_pseudo src dest (length d) @ d) = 0"
    unfolding upd len p_def [symmetric] by (simp add: dd)
qed

text \<open>A datagram on the wire reaches \<open>udp_receive\<close> of the host it is addressed to.\<close>

lemma udp_on_wire:
  assumes "host_ok a" "host_ok b" "length payload \<le> 1464"
    and d: "d = udp_datagram (our_ip a) (our_ip b) sp dp payload"
  shows "\<exists>w. sent (nic (udp_send a sp dp (our_ip b) (mac (nic b)) payload (of_nat (length payload)))) = sent (nic a) @ [(tx_desc_index (nic a), w)] \<and>
    ip_parse b w (int (length w)) = Some (17, our_ip a, mac (nic a), d) \<and>
    ip_receive b w (length w) = Some (udp_receive b (our_ip a) (mac (nic a)) d (of_nat (8 + length payload)))"
proof -
  have l: "length (our_ip a) = 4" "length (our_ip b) = 4" "length (mac (nic b)) = 6" using assms(1,2) by (auto simp: host_ok_def)
  note f = udp_datagram_fields [OF l(1,2) assms(3) d]
  have d1: "length d \<le> 1472" "d \<noteq> []" using f(1) assms(3) by auto
  show ?thesis
    using ip_parse_wire [OF assms(1) l(3) d1(1) refl l(2), of 17] ip_send_wire [OF assms(1) l(2,3) d1(1), of 17]
      ip_receive_wire [OF assms(1) l(3) d1 refl l(2) refl, of 17] udp_send_datagram [OF assms(1) l(2) assms(3), of sp dp "mac (nic b)"]
      f(1) by (simp add: d)
qed

lemma udp_receive_datagram:
  assumes "length src = 4" "length dest = 4" "length payload \<le> 1464" and d: "d = udp_datagram src dest sp dp payload"
  shows "udp_receive b sip smac d (of_nat (8 + length payload)) =
    (if capture_armed b \<and> dp = capture_port b then
       b\<lparr>capture_buf := copy_into (capture_buf b) 0 (take 512 payload), capture_len := of_nat (min 512 (length payload)),
         capture_source_ip := take 4 sip, capture_armed := False, capture_ready := True\<rparr>
     else if dp = 7 then udp_send b 7 sp sip smac payload (of_nat (length payload)) else b)"
proof -
  note f = udp_datagram_fields [OF assms]
  define N :: u16 where "N = of_nat (8 + length payload)"
  have N: "N - 8 = of_nat (length payload)" by (simp add: N_def)
  have n8: "\<not> N < 8" using assms(3) by (simp add: N_def word_less_nat_alt unat_of_nat_u16 del: of_nat_add)
  have u: "unat (of_nat (length payload) :: u16) = length payload" using assms(3) by (simp add: unat_of_nat_u16)
  show ?thesis
    unfolding N_def [symmetric] udp_receive_def Let_def UDP_HEADER_LEN_def N
    using n8 f(2,3,5) u by (auto simp: UDP_CAPTURE_BUF_SIZE_def UDP_ECHO_PORT_def min_def)
qed

lemma udp_wait_ready:
  assumes "capture_ready b" and "unat (capture_len b) \<le> unat n"
  shows "udp_wait_for_response hlt b n t =
    Some (Some (take (unat (capture_len b)) (capture_buf b), take 4 (capture_source_ip b)), b\<lparr>capture_armed := False\<rparr>)"
proof -
  have "\<not> n < ucast (capture_len b)" using assms(2) by (simp add: word_less_nat_alt unat_ucast_u16_u32)
  then show ?thesis
    using assms(1) by (simp add: udp_wait_for_response_def udp_wait_loop.simps [of hlt b] Let_def)
qed

text \<open>
  a datagram of up to 1464 bytes reaches the program that waits for it. One frame goes on
  the wire; when the addressed host, waiting on that port, receives the frame, the waiting call
  returns the first 512 bytes of the payload, unchanged, with the sender's address, and the
  checksum over the pseudo-header verifies.
\<close>

theorem udp_delivery:
  assumes "host_ok a" and "host_ok b" and "length payload \<le> 1464"
    and "capture_armed b" and "capture_port b = dp" and "length (capture_buf b) = 512"
  shows "\<exists>desc w d b'. sent (nic (udp_send a sp dp (our_ip b) (mac (nic b)) payload (of_nat (length payload)))) = sent (nic a) @ [(desc, w)] \<and>
    ip_parse b w (int (length w)) = Some (17, our_ip a, mac (nic a), d) \<and>
    ip_checksum (udp_pseudo (our_ip a) (our_ip b) (length d) @ d) = 0 \<and>
    ip_receive b w (length w) = Some b' \<and> capture_ready b' \<and>
    udp_wait_for_response hlt b' 512 t = Some (Some (take 512 payload, our_ip a), b'\<lparr>capture_armed := False\<rparr>)"
proof -
  have l: "length (our_ip a) = 4" "length (our_ip b) = 4" using assms(1,2) by (auto simp: host_ok_def)
  define d where "d = udp_datagram (our_ip a) (our_ip b) sp dp payload"
  define b' where "b' = udp_receive b (our_ip a) (mac (nic a)) d (of_nat (8 + length payload))"
  have b': "b' = b\<lparr>capture_buf := copy_into (capture_buf b) 0 (take 512 payload), capture_len := of_nat (min 512 (length payload)),
         capture_source_ip := our_ip a, capture_armed := False, capture_ready := True\<rparr>"
    unfolding b'_def udp_receive_datagram [OF l assms(3) d_def] using assms(4,5) l by simp
  have n: "unat (capture_len b') = min 512 (length payload)" by (simp add: b' unat_of_nat_u16)
  have "take (min 512 (length payload)) (capture_buf b') = take 512 payload"
    using assms(6) by (simp add: b' copy_into_def min_def)
  then have "udp_wait_for_response hlt b' 512 t = Some (Some (take 512 payload, our_ip a), b'\<lparr>capture_armed := False\<rparr>)"
    using udp_wait_ready [of b' 512 hlt t] n l by (simp add: b')
  moreover obtain w where "sent (nic (udp_send a sp dp (our_ip b) (mac (nic b)) payload (of_nat (length payload)))) = sent (nic a) @ [(tx_desc_index (nic a), w)]"
    "ip_parse b w (int (length w)) = Some (17, our_ip a, mac (nic a), d)" "ip_receive b w (length w) = Some b'"
    using udp_on_wire [OF assms(1-3) d_def] unfolding b'_def by blast
  moreover have "capture_ready b'" by (simp add: b')
  ultimately show ?thesis using udp_datagram_fields(6) [OF l assms(3) d_def] by blast
qed

theorem udp_delivery_witness:
  "\<exists>desc w b'. sent (nic (udp_send (host 1) 53 53000 [10, 0, 0, 2] [2, 0, 0, 0, 0, 2] [1, 2, 3] 3)) = [(desc, w)] \<and>
    ip_receive (udp_arm_response_capture (host 2) 53000) w (length w) = Some b' \<and>
    udp_wait_for_response id b' 512 200 = Some (Some ([1, 2, 3], [10, 0, 0, 1]), b'\<lparr>capture_armed := False\<rparr>)"
proof -
  let ?b = "udp_arm_response_capture (host 2) 53000"
  have b: "host_ok ?b" "capture_armed ?b" "capture_port ?b = 53000" "length (capture_buf ?b) = 512"
    "our_ip ?b = [10, 0, 0, 2]" "mac (nic ?b) = [2, 0, 0, 0, 0, 2]" "sent (nic (host 1)) = []"
    by (simp_all add: udp_arm_response_capture_def host_ok_def host_def)
  then show ?thesis using udp_delivery [of "host 1" ?b "[1, 2, 3]" 53000 53 id 200] by auto
qed

text \<open>
  the echo service answers: a datagram of up to 1464 bytes to port 7 of a host that does not
  wait on that port makes it send back one datagram, from port 7 to the sender's port, with the
  same payload and a checksum that verifies.
\<close>

theorem udp_echo_answered:
  assumes "host_ok a" and "host_ok b" and "length payload \<le> 1464" and "\<not> (capture_armed b \<and> capture_port b = 7)"
    and "w = ip_wire a 17 (our_ip b) (mac (nic b)) (udp_datagram (our_ip a) (our_ip b) sp 7 payload)"
  shows "\<exists>b' desc w' d. ip_receive b w (length w) = Some b' \<and> sent (nic b') = sent (nic b) @ [(desc, w')] \<and>
    ip_parse a w' (int (length w')) = Some (17, our_ip b, mac (nic b), d) \<and>
    get_be16 d 0 = 7 \<and> get_be16 d 2 = sp \<and> get_be16 d 4 = of_nat (length d) \<and> drop 8 d = payload \<and>
    ip_checksum (udp_pseudo (our_ip b) (our_ip a) (length d) @ d) = 0"
proof -
  have l: "length (our_ip a) = 4" "length (our_ip b) = 4" "length (mac (nic b)) = 6" using assms(1,2) by (auto simp: host_ok_def)
  note f = udp_datagram_fields [OF l(1,2) assms(3) refl, of sp 7]
  have recv: "ip_receive b w (length w) = Some (udp_send b 7 sp (our_ip a) (mac (nic a)) payload (of_nat (length payload)))"
    using ip_receive_wire [OF assms(1) l(3) _ _ refl l(2) assms(5)] f(1) assms(3,4)
      udp_receive_datagram [OF l(1,2) assms(3) refl, of b "our_ip a" "mac (nic a)" sp 7] by (force simp del: of_nat_add)
  define d where "d = udp_datagram (our_ip b) (our_ip a) 7 sp payload"
  note g = udp_datagram_fields [OF l(2,1) assms(3) d_def]
  obtain w' where "sent (nic (udp_send b 7 sp (our_ip a) (mac (nic a)) payload (of_nat (length payload)))) = sent (nic b) @ [(tx_desc_index (nic b), w')]"
    "ip_parse a w' (int (length w')) = Some (17, our_ip b, mac (nic b), d)"
    using udp_on_wire [OF assms(2,1,3) d_def] by blast
  moreover have "get_be16 d 4 = of_nat (length d)" using g(1,4) by metis
  ultimately show ?thesis using recv g(2,3,5,6) by blast
qed

theorem udp_echo_answered_witness:
  "\<exists>w b' desc w' d. ip_receive (host 2) w (length w) = Some b' \<and> sent (nic b') = [] @ [(desc, w')] \<and>
    ip_parse (host 1) w' (int (length w')) = Some (17, [10, 0, 0, 2], [2, 0, 0, 0, 0, 2], d) \<and> get_be16 d 2 = 4000 \<and> drop 8 d = [9, 9]"
proof -
  have h: "sent (nic (host 2)) = []" "\<not> (capture_armed (host 2) \<and> capture_port (host 2) = 7)" by (simp_all add: host_def)
  show ?thesis using udp_echo_answered [of "host 1" "host 2" "[9, 9]", OF _ _ _ h(2) refl, of 4000, unfolded h(1) host_simps] by simp blast
qed

end
