(* ===== verification/Net_Tcp_Stream.thy ===== *)
theory Net_Tcp_Stream
  imports Net_Tcp_Spec Net_Udp_Spec
begin

unbundle bit_operations_syntax

text \<open>
  What TCP promises to the programs that use it: the segments on the wire, the handshake, the
  byte stream, the retransmissions, and the invariant of the connection table over every
  interleaving of received segments, timer rounds and socket calls.
\<close>

section \<open>Segments\<close>

lemma tcp_header0_eq:
  "tcp_header0 lp rp sq ak fl =
    [ucast (drop_bit 8 lp), ucast (lp AND 0xFF), ucast (drop_bit 8 rp), ucast (rp AND 0xFF)] @
    [ucast (drop_bit 24 sq), ucast (drop_bit 16 sq), ucast (drop_bit 8 sq), ucast (sq AND 0xFF)] @
    [ucast (drop_bit 24 ak), ucast (drop_bit 16 ak), ucast (drop_bit 8 ak), ucast (ak AND 0xFF)] @
    [0x50, fl, 16, 0, 0, 0, 0, 0]"
proof -
  have r: "replicate 20 (0 :: u8) = [0, 0, 0, 0, 0, 0, 0, 0, 0, 0, 0, 0, 0, 0, 0, 0, 0, 0, 0, 0]" by (simp add: numeral_eq_Suc)
  show ?thesis unfolding tcp_header0_def Let_def r by (simp add: put_be16_def put_be32_def)
qed

lemma be32_bytes:
  "push_bit 24 (ucast (ucast (drop_bit 24 (v :: u32)) :: u8)) OR push_bit 16 (ucast (ucast (drop_bit 16 v) :: u8)) OR
   push_bit 8 (ucast (ucast (drop_bit 8 v) :: u8)) OR ucast (ucast (v AND 0xFF) :: u8) = v"
  using get_put_be32 [of 0 "[0, 0, 0, 0]" v] by (simp add: get_be32_def put_be32_def)

lemma tcp_segment_fields:
  assumes "length payload \<le> 1460" "length src = 4" "length (remote_ip c) = 4" and d: "d = tcp_segment src c fl sq ak payload"
  shows "length d = 20 + length payload" and "get_be16 d 0 = local_port c" and "get_be16 d 2 = remote_port c"
    and "get_be32 d 4 = sq" and "get_be32 d 8 = ak" and "d ! 12 = 0x50" and "d ! 13 = fl" and "drop 20 d = payload"
    and "ip_checksum (tcp_pseudo_header src (remote_ip c) (of_nat (length d)) @ d) = 0"
proof -
  define N :: u16 where "N = of_nat (20 + length payload)"
  have N: "TCP_HEADER_LEN + of_nat (length payload) = N" by (simp add: N_def TCP_HEADER_LEN_def)
  define h where "h = tcp_header0 (local_port c) (remote_port c) sq ak fl"
  define p where "p = tcp_pseudo_header src (remote_ip c) N"
  define cs where "cs = ip_checksum (p @ h @ payload)"
  have lp: "length p = 12" using assms(2,3) by (simp add: p_def tcp_pseudo_header_def)
  have lh: "length h = 20" by (simp add: h_def tcp_header0_eq)
  have dd: "d = put_be16 h 16 cs @ payload"
    unfolding d tcp_segment_def Let_def N by (simp add: h_def cs_def p_def)
  show len: "length d = 20 + length payload" by (simp add: dd lh)
  show "get_be16 d 0 = local_port c" "get_be16 d 2 = remote_port c" "get_be32 d 4 = sq" "get_be32 d 8 = ak" "d ! 12 = 0x50" "d ! 13 = fl"
    by (simp_all add: dd h_def tcp_header0_eq put_be16_def get_be16_def get_be32_def be32_bytes ucast_and_255_u16 bytes_of_u16)
  show "drop 20 d = payload" by (simp add: dd lh)
  have up: "p @ put_be16 h 16 v @ payload = (p @ h @ payload)[28 := ucast (drop_bit 8 v), 28 + 1 := ucast (v AND 0xFF)]" for v
    by (simp add: put_be16_def list_update_append lp lh)
  have z: "(p @ h @ payload) ! 28 = 0" "(p @ h @ payload) ! (28 + 1) = 0"
    by (simp_all add: nth_append lp lh) (simp_all add: h_def tcp_header0_eq)
  have "ip_checksum (p @ put_be16 h 16 cs @ payload) = 0"
    unfolding up by (rule checksum_verifies) (use z lp lh assms(1) in \<open>simp_all add: cs_def\<close>)
  then show "ip_checksum (tcp_pseudo_header src (remote_ip c) (of_nat (length d)) @ d) = 0"
    unfolding len N_def [symmetric] p_def [symmetric] by (simp add: dd)
qed

lemma tcp_send_segment_eq:
  assumes "host_ok s" "length payload \<le> 1460"
  shows "tcp_send_segment s c fl sq ak payload (of_nat (length payload)) =
    ip_send s 6 (remote_ip c) (remote_mac c) (tcp_segment (our_ip s) c fl sq ak payload) (of_nat (20 + length payload))"
proof -
  have l: "unat (of_nat (length payload) :: u16) = length payload" using assms(2) by (simp add: unat_of_nat_u16)
  have n: "\<not> 1460 < (of_nat (length payload) :: u16)" using l assms(2) by (simp add: word_less_nat_alt)
  have "take 4 (our_ip s) = our_ip s" using assms(1) by (simp add: host_ok_def)
  then show ?thesis using n l by (simp add: tcp_send_segment_def Let_def ip_get_address_def TCP_HEADER_LEN_def)
qed

text \<open>A segment of up to 1452 bytes of data goes on the wire whole.\<close>

lemma tcp_send_wire:
  assumes "host_ok s" "length payload \<le> 1452" "length (remote_ip c) = 4" "length (remote_mac c) = 6"
  shows "tcp_send_segment s c fl sq ak payload (of_nat (length payload)) =
    s\<lparr>nic := (nic s)\<lparr>tx_desc_index := (tx_desc_index (nic s) + 1) mod 4,
       sent := sent (nic s) @ [(tx_desc_index (nic s), ip_wire s 6 (remote_ip c) (remote_mac c) (tcp_segment (our_ip s) c fl sq ak payload))]\<rparr>\<rparr>"
proof -
  have "length (our_ip s) = 4" using assms(1) by (simp add: host_ok_def)
  then have l: "length (tcp_segment (our_ip s) c fl sq ak payload) = 20 + length payload"
    using tcp_segment_fields(1) [OF _ _ assms(3) refl, of payload "our_ip s"] assms(2) by simp
  show ?thesis
    using tcp_send_segment_eq [OF assms(1), of payload c fl sq ak] ip_send_wire [OF assms(1,3,4), of "tcp_segment (our_ip s) c fl sq ak payload" 6] l assms(2)
    by simp
qed

lemma tcp_sent_segment:
  assumes "host_ok s" "length payload \<le> 1452" "length (remote_ip c) = 4" "length (remote_mac c) = 6" "our_ip r = remote_ip c"
  shows "\<exists>w. sent (nic (tcp_send_segment s c fl sq ak payload (of_nat (length payload)))) = sent (nic s) @ [(tx_desc_index (nic s), w)] \<and>
    ip_parse r w (int (length w)) = Some (6, our_ip s, mac (nic s), tcp_segment (our_ip s) c fl sq ak payload)"
proof -
  have "length (our_ip s) = 4" using assms(1) by (simp add: host_ok_def)
  then have l: "length (tcp_segment (our_ip s) c fl sq ak payload) \<le> 1472"
    using tcp_segment_fields(1) [OF _ _ assms(3) refl, of payload "our_ip s"] assms(2) by simp
  show ?thesis
    using ip_parse_wire [OF assms(1,4) l assms(5,3), of 6] tcp_send_wire [OF assms(1-4), of fl sq ak] by simp
qed

section \<open>The table over every interleaving\<close>

text \<open>
  The steps that touch the connections: a received segment with any contents, a timer round, the
  passing of time, anything the card does, and the atomic part of each socket call.
\<close>

inductive tcp_step :: "net \<Rightarrow> net \<Rightarrow> bool" where
  receive: "length ip = 4 \<Longrightarrow> length hw = 6 \<Longrightarrow> tcp_receive s ip hw d n = Some s' \<Longrightarrow> tcp_step s s'"
| timer: "tcp_step s (tcp_check_retransmits s)"
| tick: "tcp_step s (s\<lparr>ticks := t\<rparr>)"
| card: "tcp_step s (s\<lparr>nic := c\<rparr>)"
| accept: "tcp_acceptable s = Some i \<Longrightarrow> tcp_step s (conn_set s i ((connections s ! i)\<lparr>accepted := True\<rparr>))"
| recv: "i < 8 \<Longrightarrow> tcp_drain (connections s ! i) 0 m = (out, c) \<Longrightarrow> tcp_step s (conn_set s i c)"
| send: "tcp_socket_send s fd buf len = (r, s') \<Longrightarrow> tcp_step s s'"
| close: "tcp_socket_close s fd = (r, s') \<Longrightarrow> tcp_step s s'"

inductive tcp_reach :: "net \<Rightarrow> bool" where
  boot: "connections s = replicate 8 conn0 \<Longrightarrow> tcp_reach s"
| step: "tcp_reach s \<Longrightarrow> tcp_step s s' \<Longrightarrow> tcp_reach s'"

lemma conn0_ok: "conn_ok conn0"
  by (simp add: conn_ok_def conn0_def)

lemma conn0_closed [simp]: "state conn0 = TCP_CLOSED"
  by (simp add: conn0_def)

lemma tcp_wf_boot: "connections s = replicate 8 conn0 \<Longrightarrow> tcp_wf s"
  by (auto simp: tcp_wf_def conn0_ok list_all_iff peers_distinct_def)

lemma tcp_wf_update_same:
  assumes "tcp_wf s" "i < 8" "conn_ok c" "state c = state (connections s ! i)"
    "remote_ip c = remote_ip (connections s ! i)" "remote_port c = remote_port (connections s ! i)"
  shows "tcp_wf (conn_set s i c)"
  using assms by (intro tcp_wf_keep) (auto simp: keeps_peer_def)

lemma tcp_acceptable_Some: "tcp_acceptable s = Some i \<Longrightarrow> i < 8 \<and> state (connections s ! i) = TCP_ESTABLISHED \<and> \<not> accepted (connections s ! i)"
  by (auto simp: tcp_acceptable_def find_upt_Some_iff MAX_TCP_CONNECTIONS_def)

lemma tcp_step_wf: "tcp_step s s' \<Longrightarrow> tcp_wf s \<Longrightarrow> tcp_wf s'"
proof (induction rule: tcp_step.induct)
  case (receive ip hw s d n s')
  then show ?case using tcp_wf_receive by blast
next
  case (timer s)
  then show ?case by (rule tcp_wf_check)
next
  case (tick s t)
  then show ?case by (simp add: tcp_wf_def)
next
  case (card s c)
  then show ?case by (simp add: tcp_wf_def)
next
  case (accept s i)
  then show ?case using tcp_acceptable_Some tcp_wf_conn by (intro tcp_wf_update_same) auto
next
  case (recv i s m out c)
  have ok: "conn_ok (connections s ! i)" using recv by (intro tcp_wf_conn)
  obtain t where "c = (connections s ! i)\<lparr>rx_tail := t\<rparr>" "rx_inv c" using tcp_drain_spec [OF rx_inv_ok [OF ok] _ recv(2)] by auto
  then show ?case using recv ok by (intro tcp_wf_update_same) (auto simp: conn_ok_def rx_inv_def)
next
  case (send s fd buf len r s')
  then show ?case using tcp_wf_send_call [of s fd buf len] by simp
next
  case (close s fd r s')
  then show ?case using tcp_wf_close_call [of s fd] by simp
qed



section \<open>One peer never touches another's connection\<close>

lemma tcp_receive_touches:
  assumes "tcp_receive s ip hw d n = Some s'" "length (connections s) = 8"
  shows "connections s' = connections s \<or>
    (\<exists>i c. connections s' = (connections s)[i := c] \<and>
      (tcp_find_connection s ip (get_be16 d 0) = Some i \<or> tcp_alloc_connection s = Some i))"
proof (cases "tcp_find_connection s ip (get_be16 d 0)")
  case None
  have "tcp_receive_syn s None ip hw p q = s \<or> (\<exists>i c. connections (tcp_receive_syn s None ip hw p q) = (connections s)[i := c] \<and> tcp_alloc_connection s = Some i)" for p q
  proof (cases "tcp_alloc_connection s")
    case (Some i)
    then have "i < 8" by (auto simp: tcp_alloc_connection_def find_upt_Some_iff MAX_TCP_CONNECTIONS_def)
    then show ?thesis using Some tcp_receive_syn_eq [OF assms(2) _ _ refl, of None i ip hw p q] by auto
  qed (simp add: tcp_receive_syn_def)
  then show ?thesis using assms(1) None unfolding tcp_receive_def Let_def by (auto split: if_splits) metis
next
  case (Some i)
  have i: "i < 8" using tcp_find_Some [OF Some] by simp
  have syn: "\<exists>c. connections (tcp_receive_syn s (Some i) ip hw p q) = (connections s)[i := c]" for p q
    using tcp_receive_syn_eq [OF assms(2) _ i refl, of "Some i" ip hw p q] by auto
  have est: "\<exists>c. connections s' = (connections s)[i := c]" if "tcp_receive_established s i d n a b x y = Some s'" for a b x y
    using that unfolding tcp_receive_established_def Let_def
    by (auto split: if_splits option.splits intro: exI [of _ "connections s ! i"])
  have "\<exists>c. connections s' = (connections s)[i := c]"
    using assms(1) syn est unfolding tcp_receive_def Let_def Some
    by (auto split: if_splits intro: exI [of _ "connections s ! i"])
  then show ?thesis using Some by blast
qed

text \<open>
  connections are isolated from each other: whatever a segment from one peer contains, the
  open connections of all other peers are exactly as before.
\<close>

theorem tcp_isolation:
  assumes "tcp_wf s" and "length ip = 4" and "tcp_receive s ip hw d n = Some s'"
    and "j < 8" and "state (connections s ! j) \<noteq> TCP_CLOSED"
    and "\<not> (remote_ip (connections s ! j) = ip \<and> remote_port (connections s ! j) = get_be16 d 0)"
  shows "connections s' ! j = connections s ! j"
proof -
  have l: "length (connections s) = 8" using assms(1) by (simp add: tcp_wf_def)
  have "tcp_find_connection s ip (get_be16 d 0) \<noteq> Some j" using assms by (simp add: tcp_find_iff)
  moreover have "tcp_alloc_connection s \<noteq> Some j"
    using assms(5) by (auto simp: tcp_alloc_connection_def find_upt_Some_iff)
  ultimately show ?thesis using tcp_receive_touches [OF assms(3) l] by (auto simp: nth_list_update)
qed

text \<open>How a segment that a peer sent is taken apart.\<close>

lemma tcp_receive_segment:
  assumes "length payload \<le> 1460" "length src = 4" "length (remote_ip pc) = 4" "remote_port pc = 7"
    and d: "d = tcp_segment src pc fl sq ak payload"
  shows "tcp_receive s ip hw d (of_nat (length d)) =
    (let found = tcp_find_connection s ip (local_port pc) in
     if found \<noteq> None \<and> fl AND TCP_FLAG_RST \<noteq> 0 then
       Some (conn_set s (the found) ((connections s ! the found)\<lparr>state := TCP_CLOSED, pending := False\<rparr>))
     else if fl AND TCP_FLAG_SYN \<noteq> 0 \<and> fl AND TCP_FLAG_ACK = 0 then Some (tcp_receive_syn s found ip hw (local_port pc) sq)
     else case found of
       None \<Rightarrow> Some s
     | Some i \<Rightarrow>
         let conn = connections s ! i in
         if state conn = TCP_SYN_RECEIVED \<and> fl AND TCP_FLAG_ACK \<noteq> 0 \<and> fl AND TCP_FLAG_SYN = 0 then
           if ak = our_seq conn \<and> sq = their_seq conn
           then Some (conn_set s i (tcp_rtt_sample (ticks s) (conn\<lparr>state := TCP_ESTABLISHED\<rparr>))) else Some s
         else if state conn = TCP_ESTABLISHED then tcp_receive_established s i d (of_nat (length d)) sq ak 20 fl
         else if (state conn = TCP_LAST_ACK \<or> state conn = TCP_CLOSE_WAIT) \<and> fl AND TCP_FLAG_ACK \<noteq> 0 \<and> ak = our_seq conn then
           let c1 = (if state conn = TCP_LAST_ACK then conn\<lparr>state := TCP_CLOSED\<rparr> else conn)
           in Some (conn_set s i (if pending c1 then tcp_rtt_sample (ticks s) c1 else c1))
         else Some s)"
proof -
  note f = tcp_segment_fields [OF assms(1-3) d]
  have n: "\<not> (of_nat (length d) :: u16) < TCP_HEADER_LEN"
    unfolding TCP_HEADER_LEN_def word_less_nat_alt using f(1) assms(1) by (simp add: unat_of_nat_u16 del: of_nat_add)
  have o: "drop_bit 4 (0x50 :: u8) * 4 = 20" by simp
  show ?thesis
    unfolding tcp_receive_def Let_def f(2-7) o using n assms(4) by (simp add: TCP_TEST_PORT_def)
qed

lemma tcp_receive_segment_established:
  assumes "length payload \<le> 1460" "length src = 4" "length (remote_ip pc) = 4"
    and d: "d = tcp_segment src pc fl sq ak payload" and c: "c = connections s ! i"
  shows "tcp_receive_established s i d (of_nat (length d)) sq ak 20 fl =
    (if payload \<noteq> [] \<and> sq \<noteq> their_seq c then Some s
     else let c1 = (if payload \<noteq> [] then fold rx_push payload (c\<lparr>their_seq := their_seq c + of_nat (length payload)\<rparr>) else c) in
       if fl AND TCP_FLAG_FIN \<noteq> 0 then
         let c2 = c1\<lparr>their_seq := their_seq c1 + 1, rx_closed := True, state := TCP_CLOSE_WAIT\<rparr>
         in Some (tcp_send_segment (conn_set s i c2) c2 TCP_FLAG_ACK (our_seq c2) (their_seq c2) [] 0)
       else if payload \<noteq> [] then Some (tcp_send_segment (conn_set s i c1) c1 TCP_FLAG_ACK (our_seq c1) (their_seq c1) [] 0)
       else if pending c1 \<and> fl AND TCP_FLAG_ACK \<noteq> 0 \<and> ak = our_seq c1 then Some (conn_set s i (tcp_rtt_sample (ticks s) c1))
       else Some s)"
proof -
  note f = tcp_segment_fields [OF assms(1-3) d]
  define m :: u16 where "m = of_nat (length payload)"
  have m: "of_nat (length d) - ucast (20 :: u8) = m" unfolding f(1) m_def by simp
  have um: "unat m = length payload" using assms(1) by (simp add: m_def unat_of_nat_u16)
  have pos: "0 < m \<longleftrightarrow> payload \<noteq> []" using um by (auto simp: word_less_nat_alt)
  have uc: "(ucast m :: u32) = of_nat (length payload)" using um assms(1) by (simp add: word_unat_eq_iff unat_ucast_u16_u32 unat_of_nat)
  show ?thesis
    unfolding tcp_receive_established_def Let_def m c [symmetric] pos uc um
    by (simp add: f(8) tcp_queue_push)
qed

section \<open>The handshake\<close>

lemma flag_bits [simp]:
  "TCP_FLAG_SYN AND TCP_FLAG_RST = 0" "TCP_FLAG_SYN \<noteq> 0" "TCP_FLAG_SYN AND TCP_FLAG_ACK = 0"
  "TCP_FLAG_ACK AND TCP_FLAG_RST = 0" "TCP_FLAG_ACK AND TCP_FLAG_SYN = 0" "TCP_FLAG_ACK \<noteq> 0" "TCP_FLAG_ACK AND TCP_FLAG_FIN = 0"
  by (simp_all add: TCP_FLAG_SYN_def TCP_FLAG_RST_def TCP_FLAG_ACK_def TCP_FLAG_FIN_def)

lemma rx_contents_reset: "rx_contents (c\<lparr>rx_head := 0, rx_tail := 0\<rparr>) = []"
  by (simp add: rx_contents_def ring_contents_def)

text \<open>
  C19: the passive open. A SYN from a new peer, when a slot is free, is answered with one SYN-ACK
  on the wire that acknowledges it (sequence 1000, acknowledgement one past the SYN's); the
  peer's ACK of that segment then makes the connection established, with both sequence numbers
  agreed, nothing pending and an empty receive buffer, and ready for \<open>tcp_socket_accept\<close>.
\<close>

theorem tcp_handshake:
  assumes "tcp_wf s" and "host_ok s" and "length ip = 4" and "length hw = 6"
    and "tcp_find_connection s ip (local_port pc) = None" and "tcp_alloc_connection s = Some i"
    and "remote_port pc = 7" and "remote_ip pc = our_ip s" and "our_ip r = ip"
    and "syn = tcp_segment ip pc TCP_FLAG_SYN x a []" and "ackseg = tcp_segment ip pc TCP_FLAG_ACK (x + 1) 1001 []"
  shows "\<exists>s1 desc w seg s2. tcp_receive s ip hw syn (of_nat (length syn)) = Some s1 \<and> sent (nic s1) = sent (nic s) @ [(desc, w)] \<and>
    ip_parse r w (int (length w)) = Some (6, our_ip s, mac (nic s), seg) \<and>
    get_be16 seg 0 = 7 \<and> get_be16 seg 2 = local_port pc \<and> get_be32 seg 4 = 1000 \<and> get_be32 seg 8 = x + 1 \<and> seg ! 13 = 0x12 \<and>
    tcp_receive s1 ip hw ackseg (of_nat (length ackseg)) = Some s2 \<and>
    (let c = connections s2 ! i in state c = TCP_ESTABLISHED \<and> remote_ip c = ip \<and> remote_port c = local_port pc \<and>
       our_seq c = 1001 \<and> their_seq c = x + 1 \<and> \<not> pending c \<and> \<not> accepted c \<and> rx_contents c = []) \<and>
    tcp_acceptable s2 \<noteq> None"
proof -
  let ?p = "local_port pc"
  have rip: "length (remote_ip pc) = 4" "length (our_ip s) = 4" using assms(2,8) by (auto simp: host_ok_def)
  have i: "i < 8" using assms(6) by (auto simp: tcp_alloc_connection_def find_upt_Some_iff MAX_TCP_CONNECTIONS_def)
  have l: "length (connections s) = 8" using assms(1) by (simp add: tcp_wf_def)
  define n where "n = tcp_new_connection (connections s ! i) ip hw ?p x"
  define c where "c = syn_conn (connections s ! i) (ticks s) ip hw ?p x"
  define s1 where "s1 = tcp_receive_syn s None ip hw ?p x"
  have s1: "s1 = conn_set (tcp_send_segment (conn_set s i n) n 0x12 1000 (x + 1) [] 0) i c"
    unfolding s1_def c_def using tcp_receive_syn_eq [OF l _ i n_def, of None] assms(6) by simp
  have r1: "tcp_receive s ip hw syn (of_nat (length syn)) = Some s1"
    unfolding tcp_receive_segment [OF _ assms(3) rip(1) assms(7,10), of s ip hw, simplified] s1_def by (simp add: assms(5))
  have nf: "remote_ip n = ip" "length (remote_mac n) = 6" "local_port n = 7" "remote_port n = ?p"
    using assms(3,4) by (simp_all add: n_def tcp_new_connection_def TCP_TEST_PORT_def)
  obtain w where w: "sent (nic s1) = sent (nic s) @ [(tx_desc_index (nic s), w)]"
    "ip_parse r w (int (length w)) = Some (6, our_ip s, mac (nic s), tcp_segment (our_ip s) n 0x12 1000 (x + 1) [])"
    using tcp_sent_segment [of "conn_set s i n" "[]" n r "0x12" 1000 "x + 1"] assms(2,3,9) nf by (auto simp: s1)
  note seg = tcp_segment_fields [of "[]" "our_ip s" n, OF _ rip(2) _ refl, of "0x12" 1000 "x + 1", unfolded nf, simplified]
  have wf1: "tcp_wf s1" unfolding s1_def using tcp_wf_syn [OF assms(1,3,4), of ?p x] assms(5) by simp
  have cf: "connections s1 ! i = c" "state c = TCP_SYN_RECEIVED" "remote_ip c = ip" "remote_port c = ?p" "our_seq c = 1001" "their_seq c = x + 1"
    "accepted c = False" "rx_head c = 0" "rx_tail c = 0"
    using l i assms(3) by (simp_all add: s1 c_def syn_conn_def tcp_new_connection_def)
  have f1: "tcp_find_connection s1 ip ?p = Some i" using tcp_find_iff [OF wf1 assms(3) i, of ?p] cf by simp
  define s2 where "s2 = conn_set s1 i (tcp_rtt_sample (ticks s1) (c\<lparr>state := TCP_ESTABLISHED\<rparr>))"
  have r2: "tcp_receive s1 ip hw ackseg (of_nat (length ackseg)) = Some s2"
    unfolding tcp_receive_segment [OF _ assms(3) rip(1) assms(7,11), of s1 ip hw, simplified] s2_def f1 by (simp add: cf)
  have c2: "connections s2 ! i = tcp_rtt_sample (ticks s1) (c\<lparr>state := TCP_ESTABLISHED\<rparr>)"
    using i wf1 by (simp add: s2_def tcp_wf_def)
  have acc: "tcp_acceptable s2 \<noteq> None"
    using i c2 cf(7) by (auto simp: tcp_acceptable_def find_upt_None_iff MAX_TCP_CONNECTIONS_def)
  have rx: "rx_contents (connections s2 ! i) = []" by (simp add: c2 rx_contents_def ring_contents_def cf)
  show ?thesis
    by (intro exI conjI, rule r1, rule w(1), rule w(2)) (use seg assms(3) r2 acc rx cf in \<open>simp_all add: c2 nf\<close>)
qed

text \<open>Example states: a host before any connection, and one with an established connection in slot 0.\<close>

definition peer0 :: tcp_connection where
  "peer0 = conn0\<lparr>local_port := 4000, remote_port := 7, remote_ip := [10, 0, 0, 1]\<rparr>"

definition conn1 :: tcp_connection where
  "conn1 = conn0\<lparr>remote_ip := [10, 0, 0, 2], remote_mac := [2, 0, 0, 0, 0, 2], local_port := 7, remote_port := 4000,
     our_seq := 1001, their_seq := 501, state := TCP_ESTABLISHED\<rparr>"

definition host1 :: net where
  "host1 = conn_set (host 1) 0 conn1"

lemma conn1_simps [simp]: "state conn1 = TCP_ESTABLISHED" "remote_ip conn1 = [10, 0, 0, 2]" "remote_port conn1 = 4000" "their_seq conn1 = 501"
    "remote_mac conn1 = [2, 0, 0, 0, 0, 2]" "our_seq conn1 = 1001" "rx_contents conn1 = []" "conn_ok conn1" "rtt_valid conn1 = False" "rx_closed conn1 = False"
  by (simp_all add: conn1_def conn0_def rx_contents_def ring_contents_def conn_ok_def)

lemma host_tcp: "tcp_wf (host 1)" "connections (host 1) = replicate 8 conn0" "sent (nic (host 1)) = []" "ticks (host 1) = 0"
  by (rule tcp_wf_boot) (simp_all add: host_def)

lemma host1_simps [simp]: "host_ok host1" "tcp_wf host1" "connections host1 ! 0 = conn1" "our_ip host1 = [10, 0, 0, 1]"
    "mac (nic host1) = [2, 0, 0, 0, 0, 1]" "sent (nic host1) = []" "ticks host1 = 0"
proof -
  have "peers_distinct ((replicate 8 conn0)[0 := conn1])"
    by (rule peers_distinct_new) (auto simp: peers_distinct_def)
  then show "tcp_wf host1" by (simp add: host1_def tcp_wf_def host_tcp list_all_length nth_list_update conn0_ok)
qed (simp_all add: host1_def host_tcp)

theorem tcp_handshake_witness:
  "\<exists>s1 s2. tcp_receive (host 1) [10, 0, 0, 2] [2, 0, 0, 0, 0, 2] (tcp_segment [10, 0, 0, 2] peer0 TCP_FLAG_SYN 500 0 [])
       (of_nat (length (tcp_segment [10, 0, 0, 2] peer0 TCP_FLAG_SYN 500 0 []))) = Some s1 \<and>
     tcp_receive s1 [10, 0, 0, 2] [2, 0, 0, 0, 0, 2] (tcp_segment [10, 0, 0, 2] peer0 TCP_FLAG_ACK (500 + 1) 1001 [])
       (of_nat (length (tcp_segment [10, 0, 0, 2] peer0 TCP_FLAG_ACK (500 + 1) 1001 []))) = Some s2 \<and>
     state (connections s2 ! 0) = TCP_ESTABLISHED"
proof -
  have f: "tcp_find_connection (host 1) [10, 0, 0, 2] (local_port peer0) = None"
    by (simp add: tcp_find_connection_def find_upt_None_iff MAX_TCP_CONNECTIONS_def host_tcp)
  have a: "tcp_alloc_connection (host 1) = Some 0"
    by (simp add: tcp_alloc_connection_def find_upt_Some_iff MAX_TCP_CONNECTIONS_def host_tcp)
  have p: "remote_port peer0 = 7" "remote_ip peer0 = our_ip (host 1)" by (simp_all add: peer0_def)
  show ?thesis
    using tcp_handshake [OF host_tcp(1) _ _ _ f a p _ refl refl, of "[2, 0, 0, 0, 0, 2]" "host 2" 500 0] by (simp add: Let_def) blast
qed

theorem tcp_isolation_witness:
  "\<exists>s'. tcp_receive host1 [10, 0, 0, 3] [2, 0, 0, 0, 0, 3] (tcp_segment [10, 0, 0, 3] peer0 TCP_FLAG_SYN 500 0 [])
      (of_nat (length (tcp_segment [10, 0, 0, 3] peer0 TCP_FLAG_SYN 500 0 []))) = Some s' \<and> connections s' ! 0 = conn1"
proof -
  let ?d = "tcp_segment [10, 0, 0, 3] peer0 TCP_FLAG_SYN 500 0 []"
  have p: "length (remote_ip peer0) = 4" "remote_port peer0 = 7" by (simp_all add: peer0_def)
  have "tcp_receive host1 [10, 0, 0, 3] [2, 0, 0, 0, 0, 3] ?d (of_nat (length ?d)) \<noteq> None"
    using tcp_receive_segment [OF _ _ p refl, of "[]" "[10, 0, 0, 3]" host1] by (simp add: Let_def)
  then obtain s' where s': "tcp_receive host1 [10, 0, 0, 3] [2, 0, 0, 0, 0, 3] ?d (of_nat (length ?d)) = Some s'" by blast
  then show ?thesis using tcp_isolation [of host1 "[10, 0, 0, 3]" "[2, 0, 0, 0, 0, 3]" ?d _ s' 0] by simp
qed

section \<open>The byte stream\<close>

lemma tcp_recv_ready:
  assumes "i < 8" "conn_ok (connections s ! i)" "rx_contents (connections s ! i) \<noteq> []"
  shows "\<exists>s'. tcp_socket_recv hlt s (int i) m =
      Some (int (length (take (unat m) (rx_contents (connections s ! i)))), take (unat m) (rx_contents (connections s ! i)), s')"
proof -
  let ?c = "connections s ! i"
  have inv: "rx_inv ?c" using assms(2) by (rule rx_inv_ok)
  then have "rx_head ?c \<noteq> rx_tail ?c" using assms(3) tcp_rx.empty_iff [OF inv] by (auto simp: rx_contents_def)
  then have w: "tcp_recv_wait hlt s i = Some s" by (simp add: tcp_recv_wait.simps [of hlt s i] Let_def)
  obtain out c' where d: "tcp_drain ?c 0 m = (out, c')" by fastforce
  have "out = take (unat m) (rx_contents ?c)" using tcp_drain_spec [OF inv _ d] by simp
  then show ?thesis using assms(1) w d by (simp add: tcp_socket_recv_def sockfd_ok_def MAX_TCP_CONNECTIONS_def)
qed

lemma fold_push_contents:
  assumes "conn_ok c"
  shows "rx_contents (fold rx_push bs c) = rx_contents c @ take (511 - length (rx_contents c)) bs"
  using tcp_rx.push_all [OF rx_inv_ok [OF assms], of bs] by (simp add: rx_contents_def)

lemma rx_contents_their_seq [simp]: "rx_contents (c\<lparr>their_seq := x\<rparr>) = rx_contents c"
  by (simp add: rx_contents_def)

lemma tcp_data_segment:
  assumes "tcp_wf s" "i < 8" "c = connections s ! i" "state c = TCP_ESTABLISHED"
    and "local_port pc = remote_port c" "remote_port pc = 7" "length (remote_ip pc) = 4"
    and "payload \<noteq> []" "length payload \<le> 1460" "fl AND TCP_FLAG_RST = 0" "fl AND TCP_FLAG_SYN = 0" "fl AND TCP_FLAG_FIN = 0"
    and "d = tcp_segment (remote_ip c) pc fl sq ak payload"
    and "c1 = fold rx_push payload (c\<lparr>their_seq := their_seq c + of_nat (length payload)\<rparr>)"
  shows "tcp_receive s (remote_ip c) hw d (of_nat (length d)) =
    (if sq \<noteq> their_seq c then Some s else Some (tcp_send_segment (conn_set s i c1) c1 TCP_FLAG_ACK (our_seq c1) (their_seq c1) [] 0))"
proof -
  have ok: "conn_ok c" using tcp_wf_conn [OF assms(1,2)] assms(3) by simp
  then have ip: "length (remote_ip c) = 4" using assms(4) by (simp add: conn_ok_def)
  have find: "tcp_find_connection s (remote_ip c) (local_port pc) = Some i"
    using tcp_find_iff [OF assms(1) ip assms(2)] assms(3-5) by simp
  show ?thesis
    unfolding tcp_receive_segment [OF assms(9) ip assms(7,6,13)] Let_def find
    using assms(3,4,8,10-12) tcp_receive_segment_established [OF assms(9) ip assms(7,13,3)] by (simp add: Let_def assms(14))
qed

text \<open>
  C20: data arrives in order and once. A data segment with the expected sequence number is queued
  behind what is there already, as much of it as the 512-byte ring takes; the next expected
  number advances by its length, one ACK with exactly that number goes to the peer, and
  \<open>tcp_socket_recv\<close> hands the program the oldest bytes, as many as it asked for.
\<close>

theorem tcp_in_order_delivery:
  assumes "tcp_wf s" and "host_ok s" and "i < 8" and "c = connections s ! i" and "state c = TCP_ESTABLISHED"
    and "local_port pc = remote_port c" and "remote_port pc = 7" and "remote_ip pc = our_ip s" and "our_ip r = remote_ip c"
    and "payload \<noteq> []" and "length payload \<le> 1460"
    and "fl AND TCP_FLAG_RST = 0" and "fl AND TCP_FLAG_SYN = 0" and "fl AND TCP_FLAG_FIN = 0"
    and "d = tcp_segment (remote_ip c) pc fl (their_seq c) ak payload"
    and "stream = rx_contents c @ take (511 - length (rx_contents c)) payload"
  shows "\<exists>s' desc w seg s''. tcp_receive s (remote_ip c) hw d (of_nat (length d)) = Some s' \<and>
    rx_contents (connections s' ! i) = stream \<and> their_seq (connections s' ! i) = their_seq c + of_nat (length payload) \<and>
    sent (nic s') = sent (nic s) @ [(desc, w)] \<and> ip_parse r w (int (length w)) = Some (6, our_ip s, mac (nic s), seg) \<and>
    seg ! 13 = TCP_FLAG_ACK \<and> get_be32 seg 8 = their_seq c + of_nat (length payload) \<and>
    tcp_socket_recv hlt s' (int i) m = Some (int (length (take (unat m) stream)), take (unat m) stream, s'')"
proof -
  have ok: "conn_ok c" using tcp_wf_conn [OF assms(1,3)] assms(4) by simp
  then have rip: "length (remote_ip c) = 4" "length (remote_mac c) = 6" using assms(5) by (simp_all add: conn_ok_def)
  have oip: "length (our_ip s) = 4" using assms(2) by (simp add: host_ok_def)
  have l: "i < length (connections s)" using assms(1,3) by (simp add: tcp_wf_def)
  define c1 where "c1 = fold rx_push payload (c\<lparr>their_seq := their_seq c + of_nat (length payload)\<rparr>)"
  define s' where "s' = tcp_send_segment (conn_set s i c1) c1 TCP_FLAG_ACK (our_seq c1) (their_seq c1) [] 0"
  have recv: "tcp_receive s (remote_ip c) hw d (of_nat (length d)) = Some s'"
    unfolding s'_def using tcp_data_segment [OF assms(1,3,4,5,6,7) _ assms(10-15) c1_def] assms(8) oip by simp
  have c1: "connections s' ! i = c1" "rx_contents c1 = stream" "conn_ok c1" "remote_ip c1 = remote_ip c" "remote_mac c1 = remote_mac c"
    "their_seq c1 = their_seq c + of_nat (length payload)"
    using fold_push_contents [of "c\<lparr>their_seq := their_seq c + of_nat (length payload)\<rparr>" payload]
      conn_ok_push [of "c\<lparr>their_seq := their_seq c + of_nat (length payload)\<rparr>" payload] ok l by (simp_all add: s'_def c1_def assms(16))
  have ne: "stream \<noteq> []" using assms(10) by (cases "rx_contents c") (simp_all add: assms(16))
  obtain w where w: "sent (nic s') = sent (nic s) @ [(tx_desc_index (nic s), w)]"
    "ip_parse r w (int (length w)) = Some (6, our_ip s, mac (nic s), tcp_segment (our_ip s) c1 TCP_FLAG_ACK (our_seq c1) (their_seq c1) [])"
    using tcp_sent_segment [of "conn_set s i c1" "[]" c1 r TCP_FLAG_ACK "our_seq c1" "their_seq c1"] assms(2,9) rip c1 by (auto simp: s'_def)
  have f: "length (remote_ip c1) = 4" using c1(4) rip by simp
  note seg = tcp_segment_fields [of "[]" "our_ip s" c1, OF _ oip f refl, of TCP_FLAG_ACK "our_seq c1" "their_seq c1", simplified]
  obtain s'' where "tcp_socket_recv hlt s' (int i) m = Some (int (length (take (unat m) stream)), take (unat m) stream, s'')"
    using tcp_recv_ready [of i s' hlt m] assms(3) c1 ne by auto
  moreover have "rx_contents (connections s' ! i) = stream" "their_seq (connections s' ! i) = their_seq c + of_nat (length payload)"
    using c1 by simp_all
  ultimately show ?thesis using recv w seg(5,7) [unfolded c1(6)] c1(6) by metis
qed

theorem tcp_in_order_delivery_witness:
  "\<exists>s' s''. tcp_receive host1 [10, 0, 0, 2] [2, 0, 0, 0, 0, 2] (tcp_segment [10, 0, 0, 2] peer0 0x18 501 1001 [72, 105])
       (of_nat (length (tcp_segment [10, 0, 0, 2] peer0 0x18 501 1001 [72, 105]))) = Some s' \<and>
     tcp_socket_recv id s' 0 100 = Some (2, [72, 105], s'')"
proof -
  have p: "local_port peer0 = remote_port conn1" "remote_port peer0 = 7" "remote_ip peer0 = our_ip host1" by (simp_all add: peer0_def)
  have fl: "(0x18 :: u8) AND TCP_FLAG_RST = 0" "(0x18 :: u8) AND TCP_FLAG_SYN = 0" "(0x18 :: u8) AND TCP_FLAG_FIN = 0"
    by (simp_all add: TCP_FLAG_RST_def TCP_FLAG_SYN_def TCP_FLAG_FIN_def)
  have ih: "our_ip (host 2) = remote_ip conn1" by simp
  show ?thesis
    using tcp_in_order_delivery [of host1 0 conn1, OF _ _ _ _ _ p ih _ _ fl refl refl, of "[72, 105]" "[2, 0, 0, 0, 0, 2]" 1001 id 100] by auto
qed

text \<open>
  a data segment that arrives a second time - the peer resends it because the ACK was lost -
  is dropped without any answer: the host's state is unchanged and no frame is sent, so the peer
  never learns that its data was taken.
\<close>

theorem tcp_duplicate_not_acknowledged:
  assumes "tcp_wf s" and "host_ok s" and "i < 8" and "c = connections s ! i" and "state c = TCP_ESTABLISHED"
    and "local_port pc = remote_port c" and "remote_port pc = 7" and "length (remote_ip pc) = 4"
    and "payload \<noteq> []" and "length payload \<le> 1460"
    and "fl AND TCP_FLAG_RST = 0" and "fl AND TCP_FLAG_SYN = 0" and "fl AND TCP_FLAG_FIN = 0"
    and "d = tcp_segment (remote_ip c) pc fl (their_seq c) ak payload"
  shows "\<exists>s'. tcp_receive s (remote_ip c) hw d (of_nat (length d)) = Some s' \<and>
    length (sent (nic s')) = length (sent (nic s)) + 1 \<and> tcp_receive s' (remote_ip c) hw d (of_nat (length d)) = Some s'"
proof -
  have ok: "conn_ok c" using tcp_wf_conn [OF assms(1,3)] assms(4) by simp
  then have ip: "length (remote_ip c) = 4" "length (remote_mac c) = 6" using assms(5) by (simp_all add: conn_ok_def)
  have l: "i < length (connections s)" using assms(1,3) by (simp add: tcp_wf_def)
  define c1 where "c1 = fold rx_push payload (c\<lparr>their_seq := their_seq c + of_nat (length payload)\<rparr>)"
  define s' where "s' = tcp_send_segment (conn_set s i c1) c1 TCP_FLAG_ACK (our_seq c1) (their_seq c1) [] 0"
  have r1: "tcp_receive s (remote_ip c) hw d (of_nat (length d)) = Some s'"
    unfolding s'_def using tcp_data_segment [OF assms(1,3-14) c1_def, of hw] by simp
  have wf: "tcp_wf s'"
    unfolding s'_def tcp_wf_send using conn_ok_push [of "c\<lparr>their_seq := their_seq c + of_nat (length payload)\<rparr>" payload] ok assms(4)
    by (intro tcp_wf_update_same [OF assms(1,3)]) (simp_all add: c1_def)
  have c1: "c1 = connections s' ! i" "state c1 = TCP_ESTABLISHED" "remote_ip c1 = remote_ip c" "remote_mac c1 = remote_mac c" "remote_port c1 = remote_port c"
    using l assms(5) by (simp_all add: s'_def c1_def)
  have "(of_nat (length payload) :: u32) \<noteq> 0" using assms(9,10) of_nat_u32_inj [of "length payload" 0] by simp
  then have seq: "their_seq c \<noteq> their_seq c1" by (simp add: c1_def)
  have "tcp_receive s' (remote_ip c1) hw d (of_nat (length d)) = Some s'"
    using tcp_data_segment [OF wf assms(3) c1(1,2) _ assms(7-13) _ refl, of d "their_seq c" ak hw] c1(3,5) assms(6,14) seq by simp
  moreover have "length (sent (nic s')) = length (sent (nic s)) + 1"
    using tcp_send_wire [of "conn_set s i c1" "[]" c1 TCP_FLAG_ACK "our_seq c1" "their_seq c1"] assms(2) ip c1(3,4) by (simp add: s'_def)
  ultimately show ?thesis using r1 c1(3) by auto
qed

theorem tcp_duplicate_not_acknowledged_witness:
  "\<exists>s'. length (sent (nic s')) = 1 \<and> tcp_receive s' [10, 0, 0, 2] [2, 0, 0, 0, 0, 2] (tcp_segment [10, 0, 0, 2] peer0 0x18 501 1001 [72, 105])
       (of_nat (length (tcp_segment [10, 0, 0, 2] peer0 0x18 501 1001 [72, 105]))) = Some s'"
proof -
  have p: "local_port peer0 = remote_port conn1" "remote_port peer0 = 7" "length (remote_ip peer0) = 4" by (simp_all add: peer0_def)
  have fl: "(0x18 :: u8) AND TCP_FLAG_RST = 0" "(0x18 :: u8) AND TCP_FLAG_SYN = 0" "(0x18 :: u8) AND TCP_FLAG_FIN = 0"
    by (simp_all add: TCP_FLAG_RST_def TCP_FLAG_SYN_def TCP_FLAG_FIN_def)
  show ?thesis
    using tcp_duplicate_not_acknowledged [of host1 0 conn1, OF _ _ _ _ _ p _ _ fl refl, of "[72, 105]" "[2, 0, 0, 0, 0, 2]" 1001] by auto
qed

section \<open>Full-size segments\<close>

text \<open>\<open>ip_send\<close> cuts its payload at 1472 bytes.\<close>

lemma ip_send_clamp: "1472 < n \<Longrightarrow> ip_send s p d m x n = ip_send s p d m (take 1472 x) 1472"
  by (simp add: ip_send_def ip_frame_def Let_def)

text \<open>
  a full segment loses its last eight bytes. The socket layer sends up to 1460 bytes at a
  time, which with the TCP header makes 1480, but the IP layer cuts every payload at 1472: of
  1460 bytes handed to \<open>tcp_socket_send\<close>, which reports them all as sent and advances the
  sequence number by 1460, only 1452 are on the wire.
\<close>

theorem tcp_full_segment_truncated:
  assumes "tcp_wf s" and "host_ok s" and "i < 8" and "c = connections s ! i" and "state c = TCP_ESTABLISHED"
    and "length buf = 1460" and "our_ip r = remote_ip c"
  shows "\<exists>s' desc w seg. tcp_socket_send s (int i) buf 1460 = (1460, s') \<and> our_seq (connections s' ! i) = our_seq c + 1460 \<and>
    sent (nic s') = sent (nic s) @ [(desc, w)] \<and> ip_parse r w (int (length w)) = Some (6, our_ip s, mac (nic s), seg) \<and>
    drop 20 seg = take 1452 buf"
proof -
  have ok: "conn_ok c" using tcp_wf_conn [OF assms(1,3)] assms(4) by simp
  then have rip: "length (remote_ip c) = 4" "length (remote_mac c) = 6" using assms(5) by (simp_all add: conn_ok_def)
  have oip: "length (our_ip s) = 4" using assms(2) by (simp add: host_ok_def)
  have l: "i < length (connections s)" using assms(1,3) by (simp add: tcp_wf_def)
  let ?fl = "TCP_FLAG_PSH OR TCP_FLAG_ACK"
  define seg where "seg = tcp_segment (our_ip s) c ?fl (our_seq c) (their_seq c) buf"
  have b: "length buf \<le> 1460" using assms(6) by simp
  note f = tcp_segment_fields [OF b oip rip(1) seg_def]
  define x where "x = tcp_send_segment s c ?fl (our_seq c) (their_seq c) buf 1460"
  have "x = ip_send s 6 (remote_ip c) (remote_mac c) seg 1480"
    unfolding x_def seg_def using tcp_send_segment_eq [OF assms(2) b] assms(6) by simp
  then have x: "x = ip_send s 6 (remote_ip c) (remote_mac c) (take 1472 seg) (of_nat (length (take 1472 seg)))"
    using f(1) assms(6) by (simp add: ip_send_clamp)
  have lt: "length (take 1472 seg) \<le> 1472" by simp
  have send: "tcp_socket_send s (int i) buf 1460 =
      (1460, conn_set (tcp_send_tracked s i ?fl (our_seq c) buf 1460) i
        ((connections (tcp_send_tracked s i ?fl (our_seq c) buf 1460) ! i)\<lparr>our_seq := our_seq c + 1460\<rparr>))"
    using assms(3-5) l by (simp add: tcp_socket_send_def Let_def sockfd_ok_def MAX_TCP_CONNECTIONS_def connections_tracked)
  have nicx: "nic (tcp_send_tracked s i ?fl (our_seq c) buf 1460) = nic x"
    by (simp add: tcp_send_tracked_def Let_def x_def assms(4))
  have len: "length (connections (tcp_send_tracked s i ?fl (our_seq c) buf 1460)) = length (connections s)" by (simp add: connections_tracked)
  have "drop 20 (take 1472 seg) = take 1452 (drop 20 seg)" by (simp add: take_drop)
  then have dr: "drop 20 (take 1472 seg) = take 1452 buf" using f(8) by simp
  show ?thesis
    using send nicx len l dr ip_send_wire [OF assms(2) rip lt, of 6] ip_parse_wire [OF assms(2) rip(2) lt assms(7) rip(1), of 6]
    unfolding x [symmetric] by simp
qed

theorem tcp_full_segment_truncated_witness:
  "\<exists>s' desc w seg. tcp_socket_send host1 (int 0) (replicate 1460 1) 1460 = (1460, s') \<and> sent (nic s') = [(desc, w)] \<and>
    ip_parse (host 2) w (int (length w)) = Some (6, [10, 0, 0, 1], [2, 0, 0, 0, 0, 1], seg) \<and> drop 20 seg = take 1452 (replicate 1460 1)"
  using tcp_full_segment_truncated [of host1 0 conn1 "replicate 1460 1" "host 2"] by auto

section \<open>The retransmission timer\<close>

text \<open>What a timer round does to one connection.\<close>

definition timer_conn :: "u32 \<Rightarrow> tcp_connection \<Rightarrow> tcp_connection" where
  "timer_conn now c =
     (if state c = TCP_CLOSED \<or> \<not> pending c \<or> now - last_send_tick c < current_rto c then c
      else if 5 \<le> retransmit_count c then c\<lparr>state := TCP_CLOSED, pending := False\<rparr>
      else c\<lparr>last_send_tick := now, retransmit_count := retransmit_count c + 1,
             current_rto := (if 200 < current_rto c * 2 then 200 else current_rto c * 2)\<rparr>)"

lemma connections_check_one: "connections (tcp_check_one now s i) = (connections s)[i := timer_conn now (connections s ! i)]"
  by (auto simp: tcp_check_one_def timer_conn_def Let_def TCP_MAX_RETRANSMITS_def TCP_RTO_MAX_TICKS_def)

lemma foldl_check:
  "n \<le> length (connections s) \<Longrightarrow>
   connections (foldl (tcp_check_one now) s [0..<n]) = map (timer_conn now) (take n (connections s)) @ drop n (connections s)"
proof (induction n)
  case (Suc n)
  have n: "n < length (connections s)" using Suc by simp
  then show ?case using Suc
    by (simp add: connections_check_one nth_append list_update_append take_Suc_conv_app_nth Cons_nth_drop_Suc [symmetric])
qed simp

text \<open>A timer round treats every connection by itself.\<close>

lemma tcp_check_retransmits_map:
  "length (connections s) = 8 \<Longrightarrow> connections (tcp_check_retransmits s) = map (timer_conn (ticks s)) (connections s)"
  using foldl_check [of 8 s "ticks s"] by (simp add: tcp_check_retransmits_def MAX_TCP_CONNECTIONS_def)

text \<open>Timer rounds at the given ticks, and ticks that are at least the largest timeout apart.\<close>

fun timer_rounds :: "net \<Rightarrow> u32 list \<Rightarrow> net" where
  "timer_rounds s [] = s"
| "timer_rounds s (t # ts) = timer_rounds (tcp_check_retransmits (s\<lparr>ticks := t\<rparr>)) ts"

fun spaced :: "u32 \<Rightarrow> u32 list \<Rightarrow> bool" where
  "spaced p [] \<longleftrightarrow> True"
| "spaced p (t # ts) \<longleftrightarrow> 200 \<le> t - p \<and> spaced t ts"

lemma timer_rounds_closed:
  "tcp_wf s \<Longrightarrow> i < 8 \<Longrightarrow> state (connections s ! i) = TCP_CLOSED \<Longrightarrow> state (connections (timer_rounds s ts) ! i) = TCP_CLOSED"
proof (induction ts arbitrary: s)
  case (Cons t ts)
  let ?s = "s\<lparr>ticks := t\<rparr>"
  have wf: "tcp_wf ?s" using Cons.prems(1) by (simp add: tcp_wf_def)
  then have "state (connections (tcp_check_retransmits ?s) ! i) = TCP_CLOSED"
    using Cons.prems by (subst tcp_check_retransmits_map) (simp_all add: tcp_wf_def timer_conn_def)
  then show ?case using Cons.IH [OF tcp_wf_check [OF wf] Cons.prems(2)] by simp
qed simp

text \<open>
  C21: a dead peer does not hold a connection for ever: after at most six timer rounds that are a
  full timeout apart, with no answer in between, a connection with an unacknowledged segment is
  closed and its slot is free again. The tick counter may wrap around in between.
\<close>

theorem tcp_gives_up:
  assumes "tcp_wf s" and "i < 8" and "pending (connections s ! i)"
    and "spaced (last_send_tick (connections s ! i)) ts" and "6 \<le> int (length ts) + retransmit_count (connections s ! i)"
  shows "state (connections (timer_rounds s ts) ! i) = TCP_CLOSED"
  using assms
proof (induction ts arbitrary: s)
  case Nil
  then show ?case using tcp_wf_conn [OF Nil(1,2)] by (simp add: conn_ok_def)
next
  case (Cons t ts)
  let ?s = "s\<lparr>ticks := t\<rparr>" and ?c = "connections s ! i"
  have wf: "tcp_wf ?s" using Cons.prems(1) by (simp add: tcp_wf_def)
  have ok: "conn_ok ?c" "length (connections s) = 8" using Cons.prems(1,2) by (auto intro: tcp_wf_conn simp: tcp_wf_def)
  have due: "\<not> t - last_send_tick ?c < current_rto ?c" "state ?c \<noteq> TCP_CLOSED"
    using ok(1) Cons.prems(3,4) by (auto simp: conn_ok_def)
  have c: "connections (tcp_check_retransmits ?s) ! i = timer_conn t ?c"
    using ok(2) Cons.prems(2) by (subst tcp_check_retransmits_map) simp_all
  show ?case
  proof (cases "5 \<le> retransmit_count ?c")
    case True
    then have "state (connections (tcp_check_retransmits ?s) ! i) = TCP_CLOSED" using due Cons.prems(3) by (simp add: c timer_conn_def)
    then show ?thesis using timer_rounds_closed [OF tcp_wf_check [OF wf] Cons.prems(2)] by simp
  next
    case False
    then have tc: "timer_conn t ?c = ?c\<lparr>last_send_tick := t, retransmit_count := retransmit_count ?c + 1,
        current_rto := (if 200 < current_rto ?c * 2 then 200 else current_rto ?c * 2)\<rparr>"
      using due Cons.prems(3) by (simp add: timer_conn_def)
    show ?thesis using Cons.IH [OF tcp_wf_check [OF wf] Cons.prems(2)] Cons.prems(3-5) by (simp add: c tc)
  qed
qed

definition host1_pending :: net where
  "host1_pending = conn_set host1 0 (conn1\<lparr>pending := True, current_rto := 50\<rparr>)"

theorem tcp_gives_up_witness:
  "state (connections (timer_rounds host1_pending [300, 600, 900, 1200, 1500, 1800]) ! 0) = TCP_CLOSED"
proof -
  let ?c = "conn1\<lparr>pending := True, current_rto := 50\<rparr>"
  have "tcp_wf host1_pending" unfolding host1_pending_def
    by (rule tcp_wf_update_same) (simp_all add: conn_ok_def conn1_def conn0_def)
  moreover have "connections host1_pending ! 0 = ?c" using host1_simps(2) by (simp add: host1_pending_def tcp_wf_def)
  moreover have "last_send_tick ?c = 0" "retransmit_count ?c = 0" by (simp_all add: conn1_def conn0_def)
  ultimately show ?thesis using tcp_gives_up [of host1_pending 0 "[300, 600, 900, 1200, 1500, 1800]"] by simp
qed

lemma tcp_send_segment_take: "tcp_send_segment s c f sq a x n = tcp_send_segment s c f sq a (take (unat n) x) n"
  by (auto simp: tcp_send_segment_def Let_def word_less_nat_alt min_def)

text \<open>
  a retransmission repeats the segment: when the timer finds a tracked segment of up to 1452
  bytes unacknowledged after its timeout, the frame that goes on the wire is byte for byte the
  frame that was sent first.
\<close>

theorem tcp_retransmission_repeats:
  assumes "tcp_wf s" and "host_ok s" and "i < 8" and "state (connections s ! i) \<noteq> TCP_CLOSED" and "length payload \<le> 1452"
    and "s1 = tcp_send_tracked s i fl sq payload (of_nat (length payload))"
    and "current_rto (connections s1 ! i) \<le> now - ticks s"
  shows "\<exists>w k k'. sent (nic s1) = sent (nic s) @ [(k, w)] \<and> sent (nic (tcp_check_one now s1 i)) = sent (nic s1) @ [(k', w)]"
proof -
  let ?c = "connections s ! i" and ?n = "of_nat (length payload) :: u16"
  have ok: "conn_ok ?c" using tcp_wf_conn [OF assms(1,3)] .
  then have rip: "length (remote_ip ?c) = 4" "length (remote_mac ?c) = 6" using assms(4) by (simp_all add: conn_ok_def)
  have l: "i < length (connections s)" using assms(1,3) by (simp add: tcp_wf_def)
  have un: "unat ?n = length payload" using assms(5) by (simp add: unat_of_nat_u16)
  have nc: "\<not> 1460 < ?n" using un assms(5) by (simp add: word_less_nat_alt)
  define c1 where "c1 = connections s1 ! i"
  have c1: "c1 = ?c\<lparr>pending_data := copy_into (pending_data ?c) 0 payload, pending_len := ?n, pending_seq := sq, pending_flags := fl,
      pending := True, last_send_tick := ticks s, retransmit_count := 0, current_rto := (if rtt_valid ?c then rto ?c else 50)\<rparr>"
    unfolding c1_def assms(6) connections_tracked using l nc un by simp
  have pd: "take (length payload) (pending_data c1) = payload" by (simp add: c1 copy_into_def)
  have dat: "take (unat (pending_len c1)) (if 0 < pending_len c1 then pending_data c1 else []) = payload"
    using pd un by (auto simp: c1 word_less_nat_alt copy_into_def)
  have resend: "nic (tcp_check_one now s1 i) = nic (tcp_send_segment s1 c1 fl sq (their_seq ?c) payload ?n)"
    using assms(4,7) dat tcp_send_segment_take [of s1 c1 fl sq "their_seq ?c" "if 0 < pending_len c1 then pending_data c1 else []" "pending_len c1"]
    unfolding tcp_check_one_def Let_def c1_def [symmetric]
    by (simp add: c1 TCP_MAX_RETRANSMITS_def not_less [symmetric])
  have n1: "nic s1 = nic (tcp_send_segment s ?c fl sq (their_seq ?c) payload ?n)" by (simp add: assms(6) tcp_send_tracked_def Let_def)
  have h1: "host_ok s1" "our_ip s1 = our_ip s" "mac (nic s1) = mac (nic s)"
    using assms(2) by (simp_all add: assms(6) tcp_send_tracked_def Let_def host_ok_def)
  have seg: "tcp_segment x c1 fl sq q y = tcp_segment x ?c fl sq q y" for x q y by (simp add: tcp_segment_def c1)
  have wire: "ip_wire s1 p d m x = ip_wire s p d m x" for p d m x
    using h1 by (simp add: ip_wire_def ip_frame_def rtl8139_get_mac_def)
  have c1r: "length (remote_ip c1) = 4" "length (remote_mac c1) = 6" "remote_ip c1 = remote_ip ?c" "remote_mac c1 = remote_mac ?c" using rip by (simp_all add: c1)
  show ?thesis
    using tcp_send_wire [OF assms(2,5) rip, of fl sq "their_seq ?c"] tcp_send_wire [OF h1(1) assms(5) c1r(1,2), of fl sq "their_seq ?c"]
    unfolding resend n1 by (simp add: seg wire c1r h1 n1 [symmetric])
qed

theorem tcp_retransmission_repeats_witness:
  "\<exists>w k k'. sent (nic (tcp_send_tracked host1 0 0x18 1001 [72, 105] (of_nat (length [72, 105 :: u8])))) = [(k, w)] \<and>
     sent (nic (tcp_check_one 50 (tcp_send_tracked host1 0 0x18 1001 [72, 105] (of_nat (length [72, 105 :: u8]))) 0)) = [(k, w), (k', w)]"
proof -
  have l: "length (connections host1) = 8" using host1_simps(2) by (simp add: tcp_wf_def)
  have "current_rto (connections (tcp_send_tracked host1 0 0x18 1001 [72, 105] (of_nat (length [72, 105 :: u8]))) ! 0) \<le> 50 - ticks host1"
    using l by (simp add: connections_tracked)
  then show ?thesis using tcp_retransmission_repeats [of host1 0 "[72, 105]", OF _ _ _ _ _ refl, of "0x18" 1001 50] by auto
qed

section \<open>A bad data offset\<close>

text \<open>
  the data offset of a segment is not checked against its length. A 20-byte segment with the
  expected sequence number on an established connection whose data offset is more than 20 makes
  the payload length wrap around, and the receiver queues bytes that were never received as data
  of the connection.
\<close>

theorem tcp_bad_offset_reads_past:
  assumes "tcp_wf s" and "i < 8" and "c = connections s ! i" and "state c = TCP_ESTABLISHED" and "length (rx_contents c) < 511"
    and "length d = 20" and "get_be16 d 0 = remote_port c" and "get_be16 d 2 = 7" and "get_be32 d 4 = their_seq c"
    and "5 < drop_bit 4 (d ! 12)" and "d ! 13 = TCP_FLAG_ACK"
  shows "tcp_receive s (remote_ip c) hw d (of_nat (length d)) = None"
proof -
  have ok: "conn_ok c" using tcp_wf_conn [OF assms(1,2)] assms(3) by simp
  then have ip: "length (remote_ip c) = 4" using assms(4) by (simp add: conn_ok_def)
  have find: "tcp_find_connection s (remote_ip c) (remote_port c) = Some i"
    using tcp_find_iff [OF assms(1) ip assms(2)] assms(3,4) by simp
  define q where "q = unat (drop_bit 4 (d ! 12))"
  have q: "5 < q" "q < 16"
    using assms(10) unat_less_u8 [of "d ! 12"] by (simp_all add: q_def word_less_nat_alt unat_drop_bit_div less_mult_imp_div_less del: drop_bit_eq_div)
  have o: "unat (drop_bit 4 (d ! 12) * 4) = q * 4" using q by (simp add: unat_word_ariths q_def)
  have n: "unat (20 - ucast (drop_bit 4 (d ! 12) * 4) :: u16) = 65536 + 20 - q * 4"
  proof -
    have "unat (ucast (drop_bit 4 (d ! 12) * 4) :: u16) = q * 4" using o by (simp only: unat_ucast_u8_u16)
    then show ?thesis using q by (simp add: unat_sub_if')
  qed
  have nz: "0 < (20 - ucast (drop_bit 4 (d ! 12) * 4) :: u16)" using n q by (simp add: word_less_nat_alt)
  have room: "(rx_head c + 1) mod 512 \<noteq> rx_tail c"
    using tcp_rx.full_iff [OF rx_inv_ok [OF ok]] assms(5) ring_next_eq [of "rx_head c" "rx_tail c"] by (simp add: rx_contents_def)
  have qq: "tcp_queue (c\<lparr>their_seq := y\<rparr>) [] (Suc k) = None" for y k using room by (simp add: Let_def)
  obtain k where k: "65536 + 20 - q * 4 = Suc k" using q by (cases "65536 + 20 - q * 4") auto
  have dr: "drop (q * 4) d = []" using q assms(6) by simp
  have "tcp_receive_established s i d 20 (their_seq c) a (drop_bit 4 (d ! 12) * 4) TCP_FLAG_ACK = None" for a
    unfolding tcp_receive_established_def Let_def assms(3) [symmetric] o n dr k using nz by (simp add: qq del: tcp_queue.simps)
  then show ?thesis
    unfolding tcp_receive_def Let_def assms(7-9,11) find assms(6) using assms(3,4) by (simp add: TCP_HEADER_LEN_def TCP_TEST_PORT_def)
qed

theorem tcp_bad_offset_reads_past_witness:
  "tcp_receive host1 [10, 0, 0, 2] [2, 0, 0, 0, 0, 2]
     [15, 160, 0, 7, 0, 0, 1, 245, 0, 0, 3, 233, 0xF0, TCP_FLAG_ACK, 0, 0, 0, 0, 0, 0] 20 = None"
  using tcp_bad_offset_reads_past [of host1 0 conn1 "[15, 160, 0, 7, 0, 0, 1, 245, 0, 0, 3, 233, 0xF0, TCP_FLAG_ACK, 0, 0, 0, 0, 0, 0]" "[2, 0, 0, 0, 0, 2]"]
  by (simp add: get_be16_def get_be32_def)

end
