(* ===== verification/Pmm.thy ===== *)
theory Pmm
  imports Harold_Base
begin

unbundle bit_operations_syntax

text \<open>
  The physical memory manager of src/src/pmm.c: a bitmap with one bit per 4 KB frame, built from
  the memory map of the boot loader, with first-fit allocation. Then its contract: the set of
  free frames as the abstract state, what allocation and release do to it, and what every client
  of a frame pool can rely on.
\<close>

section \<open>Model\<close>

record pmm =
  frame_bitmap :: "u32 list"
  total_frames :: u32
  used_frames :: u32

definition FRAME_SIZE :: u32 where "FRAME_SIZE = 4096"
definition MAX_FRAMES :: nat where "MAX_FRAMES = 1024 * 1024"

definition bitmap_set :: "pmm \<Rightarrow> u32 \<Rightarrow> pmm" where
  "bitmap_set s frame =
     s\<lparr>frame_bitmap := (frame_bitmap s)[unat (frame div 32) := frame_bitmap s ! unat (frame div 32) OR push_bit (unat (frame mod 32)) 1]\<rparr>"

definition bitmap_clear :: "pmm \<Rightarrow> u32 \<Rightarrow> pmm" where
  "bitmap_clear s frame =
     s\<lparr>frame_bitmap := (frame_bitmap s)[unat (frame div 32) := frame_bitmap s ! unat (frame div 32) AND NOT (push_bit (unat (frame mod 32)) 1)]\<rparr>"

definition bitmap_test :: "pmm \<Rightarrow> u32 \<Rightarrow> bool" where
  "bitmap_test s frame \<longleftrightarrow> frame_bitmap s ! unat (frame div 32) AND push_bit (unat (frame mod 32)) 1 \<noteq> 0"

text \<open>The structures of the boot loader, and an entry of the memory map as it lies in memory.\<close>

record multiboot_info =
  mb_flags :: u32
  mmap_length :: u32
  mmap_addr :: u32

record mmap_entry =
  me_size :: u32
  me_addr :: u64
  me_len :: u64
  me_type :: u32

definition mem_le32 :: "(u32 \<Rightarrow> u8) \<Rightarrow> u32 \<Rightarrow> u32" where
  "mem_le32 m a = get_le32 (map m [a, a + 1, a + 2, a + 3]) 0"

definition mem_le64 :: "(u32 \<Rightarrow> u8) \<Rightarrow> u32 \<Rightarrow> u64" where
  "mem_le64 m a = ucast (mem_le32 m a) OR push_bit 32 (ucast (mem_le32 m (a + 4)))"

definition mmap_entry_at :: "(u32 \<Rightarrow> u8) \<Rightarrow> u32 \<Rightarrow> mmap_entry" where
  "mmap_entry_at m a = \<lparr>me_size = mem_le32 m a, me_addr = mem_le64 m (a + 4), me_len = mem_le64 m (a + 12), me_type = mem_le32 m (a + 20)\<rparr>"

text \<open>Freeing one usable region, frame by frame.\<close>

definition pmm_free_region :: "pmm \<Rightarrow> u32 \<Rightarrow> u32 \<Rightarrow> pmm" where
  "pmm_free_region s start_frame frame_count =
     foldl (\<lambda>s i. let frame = start_frame + of_nat i in
              if unat frame < MAX_FRAMES then let s1 = bitmap_clear s frame in s1\<lparr>total_frames := total_frames s1 + 1\<rparr> else s)
       s [0..<unat frame_count]"

definition pmm_entry :: "pmm \<Rightarrow> mmap_entry \<Rightarrow> pmm" where
  "pmm_entry s e = (if me_type e = 1 then pmm_free_region s (ucast (me_addr e) div FRAME_SIZE) (ucast (me_len e) div FRAME_SIZE) else s)"

partial_function (option) pmm_walk :: "(u32 \<Rightarrow> u8) \<Rightarrow> u32 \<Rightarrow> u32 \<Rightarrow> pmm \<Rightarrow> pmm option" where
  "pmm_walk m entry mmap_end s =
     (if entry < mmap_end
      then pmm_walk m (entry + me_size (mmap_entry_at m entry) + 4) mmap_end (pmm_entry s (mmap_entry_at m entry))
      else Some s)"

definition pmm_reserve :: "pmm \<Rightarrow> u32 \<Rightarrow> pmm" where
  "pmm_reserve s kernel_end =
     foldl (\<lambda>s i. let frame = of_nat i in
              if \<not> bitmap_test s frame then let s1 = bitmap_set s frame in s1\<lparr>total_frames := total_frames s1 - 1\<rparr> else s)
       s [0..<unat (kernel_end div FRAME_SIZE + 1)]"

text \<open>\<open>None\<close> when the machine halts for lack of a memory map, or the walk over it does not end.\<close>

definition pmm_init :: "(u32 \<Rightarrow> u8) \<Rightarrow> multiboot_info \<Rightarrow> u32 \<Rightarrow> pmm \<Rightarrow> pmm option" where
  "pmm_init m info kernel_end s =
     (if mb_flags info AND push_bit 6 1 = 0 then None
      else case pmm_walk m (mmap_addr info) (mmap_addr info + mmap_length info)
                  (s\<lparr>frame_bitmap := replicate (MAX_FRAMES div 32) 0xFFFFFFFF\<rparr>) of
             None \<Rightarrow> None
           | Some s1 \<Rightarrow> Some ((pmm_reserve s1 kernel_end)\<lparr>used_frames := 0\<rparr>))"

text \<open>The scan of \<open>pmm_alloc_frame\<close>: \<open>None\<close> when it goes past the end of the bitmap.\<close>

function pmm_scan :: "pmm \<Rightarrow> u32 \<Rightarrow> (u32 \<times> pmm) option" where
  "pmm_scan s i =
     (if i < total_frames s + used_frames s then
        if MAX_FRAMES \<le> unat i then None
        else if \<not> bitmap_test s i then
          let s1 = bitmap_set s i in Some (i * FRAME_SIZE, s1\<lparr>used_frames := used_frames s1 + 1\<rparr>)
        else pmm_scan s (i + 1)
      else Some (0, s))"
  by pat_completeness auto

termination pmm_scan
  by (relation "measure (\<lambda>(s, i). unat (total_frames s + used_frames s) - unat i)") (auto simp: unat_inc_u32 word_less_nat_alt)

declare pmm_scan.simps [simp del]

definition pmm_alloc_frame :: "pmm \<Rightarrow> (u32 \<times> pmm) option" where
  "pmm_alloc_frame s = pmm_scan s 0"

definition pmm_free_frame :: "pmm \<Rightarrow> u32 \<Rightarrow> pmm" where
  "pmm_free_frame s frame_addr =
     (let frame = frame_addr div FRAME_SIZE in
      if bitmap_test s frame then let s1 = bitmap_clear s frame in s1\<lparr>used_frames := used_frames s1 - 1\<rparr> else s)"

definition pmm_get_free_frame_count :: "pmm \<Rightarrow> u32" where
  "pmm_get_free_frame_count s = total_frames s - used_frames s"

definition pmm_get_total_frame_count :: "pmm \<Rightarrow> u32" where
  "pmm_get_total_frame_count s = total_frames s"

section \<open>The bitmap as a set\<close>

definition frame_used :: "pmm \<Rightarrow> nat \<Rightarrow> bool" where
  "frame_used s f \<longleftrightarrow> bit (frame_bitmap s ! (f div 32)) (f mod 32)"

definition free_frames :: "pmm \<Rightarrow> nat set" where
  "free_frames s = {f. f < 1048576 \<and> \<not> frame_used s f}"

lemma finite_free_frames [simp]: "finite (free_frames s)"
  by (simp add: free_frames_def)

lemma free_frames_less: "f \<in> free_frames s \<Longrightarrow> f < 1048576"
  by (simp add: free_frames_def)

lemma bitmap_test_eq: "bitmap_test s frame = frame_used s (unat frame)"
  by (simp add: bitmap_test_def frame_used_def unat_div unat_mod bit_iff_and_push_bit_not_eq_0)

lemma frame_index: "unat (frame :: u32) < 1048576 \<Longrightarrow> unat (frame div 32) < 32768"
  by (simp add: unat_div less_mult_imp_div_less)

lemma frame_split: "f div 32 = g div 32 \<Longrightarrow> f mod 32 = g mod 32 \<Longrightarrow> f = (g :: nat)"
  by (metis div_mult_mod_eq)

lemma frame_used_set:
  assumes "length (frame_bitmap s) = 32768" "unat frame < 1048576"
  shows "frame_used (bitmap_set s frame) g \<longleftrightarrow> g = unat frame \<or> frame_used s g"
proof -
  let ?k = "unat (frame div 32)"
  have k: "?k < 32768" "?k = unat frame div 32" "unat (frame mod 32) = unat frame mod 32"
    using frame_index [OF assms(2)] by (simp_all add: unat_div unat_mod)
  have b: "bit (x OR push_bit (unat frame mod 32) 1) j \<longleftrightarrow> bit x j \<or> j = unat frame mod 32" if "j < 32" for x :: u32 and j
    using that by (auto simp: bit_simps)
  show ?thesis
  proof (cases "g div 32 = unat frame div 32")
    case True
    then show ?thesis using k assms(1) b [of "g mod 32"] frame_split [of g "unat frame"] by (auto simp: frame_used_def bitmap_set_def)
  next
    case False
    then show ?thesis using k by (auto simp: frame_used_def bitmap_set_def)
  qed
qed

lemma frame_used_clear:
  assumes "length (frame_bitmap s) = 32768" "unat frame < 1048576"
  shows "frame_used (bitmap_clear s frame) g \<longleftrightarrow> g \<noteq> unat frame \<and> frame_used s g"
proof -
  let ?k = "unat (frame div 32)"
  have k: "?k < 32768" "?k = unat frame div 32" "unat (frame mod 32) = unat frame mod 32"
    using frame_index [OF assms(2)] by (simp_all add: unat_div unat_mod)
  have b: "bit (x AND NOT (push_bit (unat frame mod 32) 1)) j \<longleftrightarrow> bit x j \<and> j \<noteq> unat frame mod 32" if "j < 32" for x :: u32 and j
    using that by (auto simp: bit_simps)
  show ?thesis
  proof (cases "g div 32 = unat frame div 32")
    case True
    then show ?thesis using k assms(1) b [of "g mod 32"] frame_split [of g "unat frame"] by (auto simp: frame_used_def bitmap_clear_def)
  next
    case False
    then show ?thesis using k by (auto simp: frame_used_def bitmap_clear_def)
  qed
qed

lemma bitmap_fields [simp]:
  "length (frame_bitmap (bitmap_set s f)) = length (frame_bitmap s)" "length (frame_bitmap (bitmap_clear s f)) = length (frame_bitmap s)"
  "total_frames (bitmap_set s f) = total_frames s" "total_frames (bitmap_clear s f) = total_frames s"
  "used_frames (bitmap_set s f) = used_frames s" "used_frames (bitmap_clear s f) = used_frames s"
  by (simp_all add: bitmap_set_def bitmap_clear_def)

lemma frame_used_counters [simp]:
  "frame_used (s\<lparr>total_frames := t\<rparr>) f = frame_used s f" "frame_used (s\<lparr>used_frames := u\<rparr>) f = frame_used s f"
  by (simp_all add: frame_used_def)

lemma free_frames_counters [simp]:
  "free_frames (s\<lparr>total_frames := t\<rparr>) = free_frames s" "free_frames (s\<lparr>used_frames := u\<rparr>) = free_frames s"
  by (simp_all add: free_frames_def)

lemma free_frames_set:
  "length (frame_bitmap s) = 32768 \<Longrightarrow> unat f < 1048576 \<Longrightarrow> free_frames (bitmap_set s f) = free_frames s - {unat f}"
  by (auto simp: free_frames_def frame_used_set)

lemma free_frames_clear:
  "length (frame_bitmap s) = 32768 \<Longrightarrow> unat f < 1048576 \<Longrightarrow> free_frames (bitmap_clear s f) = insert (unat f) (free_frames s)"
  by (auto simp: free_frames_def frame_used_clear)

section \<open>Allocation\<close>

lemma pmm_scan_spec:
  assumes "length (frame_bitmap s) = 32768" and "unat (total_frames s + used_frames s) \<le> 1048576"
    and "\<And>f. f < unat i \<Longrightarrow> f \<notin> free_frames s"
  shows "(\<exists>f. f \<in> free_frames s \<and> f < unat (total_frames s + used_frames s) \<and> (\<forall>g \<in> free_frames s. f \<le> g) \<and>
       pmm_scan s i = Some (of_nat f * 4096, (bitmap_set s (of_nat f))\<lparr>used_frames := used_frames s + 1\<rparr>)) \<or>
     (\<forall>f \<in> free_frames s. unat (total_frames s + used_frames s) \<le> f) \<and> pmm_scan s i = Some (0, s)"
  using assms
proof (induction s i rule: pmm_scan.induct)
  case (1 s i)
  let ?b = "total_frames s + used_frames s"
  show ?case
  proof (cases "i < ?b")
    case False
    then have "unat ?b \<le> unat i" by (simp add: word_less_nat_alt)
    then have "\<forall>f \<in> free_frames s. unat ?b \<le> f" using 1(4) by (meson le_less_trans not_le)
    moreover have "pmm_scan s i = Some (0, s)" using False by (simp add: pmm_scan.simps [of s i])
    ultimately show ?thesis by blast
  next
    case True
    then have i: "unat i < 1048576" using 1(3) by (simp add: word_less_nat_alt)
    show ?thesis
    proof (cases "bitmap_test s i")
      case False
      then have "unat i \<in> free_frames s" using i by (simp add: bitmap_test_eq free_frames_def)
      moreover have "unat i \<le> g" if "g \<in> free_frames s" for g using that 1(4) [of g] by (cases "g < unat i") auto
      moreover have "pmm_scan s i = Some (i * 4096, (bitmap_set s i)\<lparr>used_frames := used_frames s + 1\<rparr>)"
        using True False i by (simp add: pmm_scan.simps [of s i] MAX_FRAMES_def Let_def FRAME_SIZE_def)
      ultimately show ?thesis using True by (intro disjI1 exI [of _ "unat i"]) (auto simp: word_less_nat_alt)
    next
      case t: True
      have "unat (i + 1) = Suc (unat i)" using unat_inc_u32 [OF True] .
      moreover have "unat i \<notin> free_frames s" using t by (simp add: bitmap_test_eq free_frames_def)
      ultimately have p: "f \<notin> free_frames s" if "f < unat (i + 1)" for f using that 1(4) [of f] by (auto simp: less_Suc_eq)
      have "pmm_scan s i = pmm_scan s (i + 1)" using True t i by (simp add: pmm_scan.simps [of s i] MAX_FRAMES_def)
      then show ?thesis using 1(1) [OF True _ _ 1(2,3) p] i t by (simp add: MAX_FRAMES_def)
    qed
  qed
qed

text \<open>
  The manager is consistent: the counters add up, frame 0 is never free (0 means out of memory),
  and the memory is at most 2 GB, so that the scan stays inside the bitmap.
\<close>

definition pmm_wf :: "pmm \<Rightarrow> bool" where
  "pmm_wf s \<longleftrightarrow> length (frame_bitmap s) = 32768 \<and> 0 \<notin> free_frames s \<and>
     unat (total_frames s) = card (free_frames s) + unat (used_frames s) \<and> unat (total_frames s) \<le> 524288"

lemma pmm_wf_bound:
  assumes "pmm_wf s"
  shows "unat (total_frames s + used_frames s) = unat (total_frames s) + unat (used_frames s)" "unat (total_frames s + used_frames s) \<le> 1048576"
proof -
  have "unat (total_frames s) \<le> 524288" "unat (used_frames s) \<le> unat (total_frames s)" using assms by (auto simp: pmm_wf_def)
  then show "unat (total_frames s + used_frames s) = unat (total_frames s) + unat (used_frames s)" "unat (total_frames s + used_frames s) \<le> 1048576"
    using unat_add_u32 [of "total_frames s" "used_frames s"] by simp_all
qed

lemma unat_frame_addr: "f < 1048576 \<Longrightarrow> unat (of_nat f * 4096 :: u32) = f * 4096"
  by (subst unat_mult_u32) (simp_all add: unat_of_nat)

lemma frame_addr_div: "f < 1048576 \<Longrightarrow> unat (of_nat f * 4096 div 4096 :: u32) = f"
  by (simp add: unat_div unat_frame_addr)

text \<open>What \<open>pmm_alloc_frame\<close> returns: the lowest free frame below its bound, or 0.\<close>

lemma pmm_alloc_cases:
  assumes "pmm_wf s"
  obtains (frame) f where "f \<in> free_frames s" "f < unat (total_frames s) + unat (used_frames s)" "\<forall>g \<in> free_frames s. f \<le> g"
      "pmm_alloc_frame s = Some (of_nat f * 4096, (bitmap_set s (of_nat f))\<lparr>used_frames := used_frames s + 1\<rparr>)"
    | (none) "\<forall>f \<in> free_frames s. unat (total_frames s) + unat (used_frames s) \<le> f" "pmm_alloc_frame s = Some (0, s)"
  using pmm_scan_spec [of s 0] assms pmm_wf_bound [OF assms] that unfolding pmm_alloc_frame_def pmm_wf_def by auto

lemma pmm_wf_alloc:
  assumes "pmm_wf s" "f \<in> free_frames s" and t: "t = (bitmap_set s (of_nat f))\<lparr>used_frames := used_frames s + 1\<rparr>"
  shows "pmm_wf t" and "free_frames t = free_frames s - {f}"
proof -
  have f: "f < 1048576" using assms(2) by (rule free_frames_less)
  have l: "length (frame_bitmap s) = 32768" using assms(1) by (simp add: pmm_wf_def)
  show fr: "free_frames t = free_frames s - {f}" using f l by (simp add: t free_frames_set unat_of_nat)
  have c: "card (free_frames s) = Suc (card (free_frames s - {f}))" using assms(2) by (metis card.remove finite_free_frames)
  have "unat (used_frames s) < unat (total_frames s)" using assms(1) c by (simp add: pmm_wf_def)
  then have "unat (used_frames s + 1) = Suc (unat (used_frames s))" by (intro unat_inc_u32) (simp add: word_less_nat_alt)
  then show "pmm_wf t" using assms(1) fr c by (simp add: pmm_wf_def) (simp add: t)
qed

lemma pmm_wf_free:
  assumes "pmm_wf s" "f < 1048576" "f \<noteq> 0" "f \<notin> free_frames s" "0 < unat (used_frames s)" and t: "t = pmm_free_frame s (of_nat f * 4096)"
  shows "pmm_wf t" and "free_frames t = insert f (free_frames s)"
proof -
  have l: "length (frame_bitmap s) = 32768" using assms(1) by (simp add: pmm_wf_def)
  have u: "bitmap_test s (of_nat f * 4096 div 4096)"
    using assms(2,4) by (simp add: bitmap_test_eq frame_addr_div free_frames_def)
  have tt: "t = (bitmap_clear s (of_nat f * 4096 div 4096))\<lparr>used_frames := used_frames s - 1\<rparr>"
    using u by (simp add: t pmm_free_frame_def Let_def FRAME_SIZE_def)
  show fr: "free_frames t = insert f (free_frames s)"
    unfolding tt using l assms(2) by (simp add: free_frames_clear frame_addr_div)
  have "unat (used_frames s - 1) = unat (used_frames s) - 1" using assms(5) by (subst unat_sub_u32) simp_all
  then show "pmm_wf t" using assms(1,3-5) fr by (simp add: pmm_wf_def) (simp add: tt)
qed

section \<open>The contract of a frame pool\<close>

text \<open>
  What the clients of the manager (paging, the loader, user stacks) rely on: a frame they get was
  free and is theirs until they release it. Frames are named by their address, 0 is the failure.
\<close>

locale frame_pool =
  fixes inv :: "'s \<Rightarrow> bool"
    and valid :: "u32 \<Rightarrow> bool"
    and avail :: "'s \<Rightarrow> u32 set"
    and held :: "'s \<Rightarrow> nat"
    and alloc :: "'s \<Rightarrow> (u32 \<times> 's) option"
    and release :: "'s \<Rightarrow> u32 \<Rightarrow> 's"
  assumes avail_valid: "inv s \<Longrightarrow> a \<in> avail s \<Longrightarrow> valid a \<and> a \<noteq> 0"
    and alloc_returns: "inv s \<Longrightarrow> \<exists>a s'. alloc s = Some (a, s')"
    and alloc_frame: "inv s \<Longrightarrow> alloc s = Some (a, s') \<Longrightarrow> a \<noteq> 0 \<Longrightarrow>
      inv s' \<and> a \<in> avail s \<and> avail s' = avail s - {a} \<and> held s' = Suc (held s)"
    and alloc_fail: "inv s \<Longrightarrow> alloc s = Some (0, s') \<Longrightarrow> s' = s"
    and release_frame: "inv s \<Longrightarrow> valid a \<Longrightarrow> a \<notin> avail s \<Longrightarrow> 0 < held s \<Longrightarrow>
      inv (release s a) \<and> avail (release s a) = insert a (avail s) \<and> held (release s a) = held s - 1"
begin

lemma alloc_cases:
  assumes "inv s"
  obtains (frame) a s' where "alloc s = Some (a, s')" "a \<noteq> 0" "inv s'" "a \<in> avail s" "avail s' = avail s - {a}" "held s' = Suc (held s)"
    | (none) "alloc s = Some (0, s)"
  using alloc_returns [OF assms] alloc_frame [OF assms] alloc_fail [OF assms] that by metis

text \<open>Releasing several frames: they are all available again, in whatever order.\<close>

lemma release_all:
  "inv s \<Longrightarrow> distinct as \<Longrightarrow> list_all valid as \<Longrightarrow> set as \<inter> avail s = {} \<Longrightarrow> length as \<le> held s \<Longrightarrow>
   inv (foldl release s as) \<and> avail (foldl release s as) = avail s \<union> set as \<and> held (foldl release s as) = held s - length as"
proof (induction as arbitrary: s)
  case (Cons a as)
  have r: "inv (release s a)" "avail (release s a) = insert a (avail s)" "held (release s a) = held s - 1"
    using release_frame [of s a] Cons.prems by auto
  have "set as \<inter> avail (release s a) = {}" "length as \<le> held (release s a)" using r Cons.prems by auto
  then show ?case using Cons.IH [OF r(1)] Cons.prems r by auto
qed simp

text \<open>A released frame can be had again, and nobody else's frame is touched.\<close>

lemma release_alloc:
  assumes "inv s" "alloc s = Some (a, s')" "a \<noteq> 0"
  shows "inv (release s' a) \<and> avail (release s' a) = avail s \<and> held (release s' a) = held s"
proof -
  have f: "inv s'" "a \<in> avail s" "avail s' = avail s - {a}" "held s' = Suc (held s)" using alloc_frame [OF assms] by auto
  then show ?thesis using release_frame [of s' a] avail_valid [OF assms(1) f(2)] by auto
qed

end

definition pmm_avail :: "pmm \<Rightarrow> u32 set" where
  "pmm_avail s = (\<lambda>f. of_nat f * 4096) ` free_frames s"

lemma frame_addr_inj: "f < 1048576 \<Longrightarrow> g < 1048576 \<Longrightarrow> (of_nat f * 4096 :: u32) = of_nat g * 4096 \<longleftrightarrow> f = g"
  by (metis frame_addr_div)

lemma inj_frame_addr: "inj_on (\<lambda>f. of_nat f * 4096 :: u32) (free_frames s)"
  by (rule inj_onI) (simp add: frame_addr_inj free_frames_less)

lemma card_pmm_avail: "card (pmm_avail s) = card (free_frames s)"
  by (simp add: pmm_avail_def card_image inj_frame_addr)

lemma pmm_avail_iff: "f < 1048576 \<Longrightarrow> of_nat f * 4096 \<in> pmm_avail s \<longleftrightarrow> f \<in> free_frames s"
  by (auto simp: pmm_avail_def frame_addr_inj free_frames_less)

text \<open>A frame address: page aligned and not 0.\<close>

definition frame_addr :: "u32 \<Rightarrow> bool" where
  "frame_addr a \<longleftrightarrow> a mod 4096 = 0 \<and> a \<noteq> 0"

lemma frame_addr_eq: "frame_addr a \<longleftrightarrow> (\<exists>f. 0 < f \<and> f < 1048576 \<and> a = of_nat f * 4096)"
proof
  assume a: "frame_addr a"
  let ?f = "unat a div 4096"
  have "unat (a mod 4096) = 0" using a by (simp add: frame_addr_def)
  then have m: "unat a mod 4096 = 0" by (simp add: unat_mod)
  have f: "?f < 1048576" using unat_less_u32 [of a] by (simp add: less_mult_imp_div_less)
  have "unat (of_nat ?f * 4096 :: u32) = unat a"
    unfolding unat_frame_addr [OF f] using m by (simp add: dvd_div_mult_self mod_0_imp_dvd)
  then have "a = of_nat ?f * 4096" by (simp add: word_unat_eq_iff)
  moreover have "0 < ?f" using a \<open>a = of_nat ?f * 4096\<close> by (metis frame_addr_def gr0I mult_zero_left of_nat_0)
  ultimately show "\<exists>f. 0 < f \<and> f < 1048576 \<and> a = of_nat f * 4096" using f by blast
next
  assume "\<exists>f. 0 < f \<and> f < 1048576 \<and> a = of_nat f * 4096"
  then obtain f where f: "0 < f" "f < 1048576" "a = of_nat f * 4096" by blast
  then have "unat a = f * 4096" by (simp add: unat_frame_addr)
  then show "frame_addr a" using f(1) by (auto simp: frame_addr_def word_unat_eq_iff unat_mod)
qed

interpretation pmm_pool: frame_pool pmm_wf frame_addr pmm_avail "\<lambda>s. unat (used_frames s)" pmm_alloc_frame pmm_free_frame
proof unfold_locales
  fix s s' :: pmm and a
  show "frame_addr a \<and> a \<noteq> 0" if h: "pmm_wf s" "a \<in> pmm_avail s"
  proof -
    obtain f where f: "f \<in> free_frames s" "a = of_nat f * 4096" using h(2) by (auto simp: pmm_avail_def)
    then have "frame_addr a" using h(1) free_frames_less [OF f(1)] unfolding frame_addr_eq
      by (intro exI [of _ f]) (auto simp: pmm_wf_def intro: gr0I)
    then show ?thesis by (simp add: frame_addr_def)
  qed
  show "pmm_wf s \<Longrightarrow> \<exists>a s'. pmm_alloc_frame s = Some (a, s')"
    by (erule pmm_alloc_cases) auto
  show "pmm_wf s' \<and> a \<in> pmm_avail s \<and> pmm_avail s' = pmm_avail s - {a} \<and> unat (used_frames s') = Suc (unat (used_frames s))"
    if h: "pmm_wf s" "pmm_alloc_frame s = Some (a, s')" "a \<noteq> 0"
    using h(1)
  proof (cases rule: pmm_alloc_cases)
    case (frame f)
    then have a: "a = of_nat f * 4096" "s' = (bitmap_set s (of_nat f))\<lparr>used_frames := used_frames s + 1\<rparr>" using h(2) by auto
    note w = pmm_wf_alloc [OF h(1) frame(1) a(2)]
    have av: "pmm_avail s' = pmm_avail s - {a}"
      unfolding pmm_avail_def w(2) a(1) using free_frames_less [OF frame(1)] by (auto simp: frame_addr_inj dest: free_frames_less)
    have "total_frames s' = total_frames s" by (simp add: a(2))
    moreover have "card (free_frames s) = Suc (card (free_frames s'))" using frame(1) w(2) by (metis card.remove finite_free_frames)
    ultimately have "unat (used_frames s') = Suc (unat (used_frames s))" using w(1) h(1) by (simp add: pmm_wf_def)
    then show ?thesis using w(1) a(1) frame(1) av by (auto simp: pmm_avail_def)
  qed (use h in auto)
  show "s' = s" if h: "pmm_wf s" "pmm_alloc_frame s = Some (0, s')"
    using h(1)
  proof (cases rule: pmm_alloc_cases)
    case (frame f)
    then have "f = 0" using h(2) frame_addr_inj [of f 0] free_frames_less [OF frame(1)] by simp
    then show ?thesis using frame(1) h(1) by (simp add: pmm_wf_def)
  qed (use h in auto)
  show "pmm_wf (pmm_free_frame s a) \<and> pmm_avail (pmm_free_frame s a) = insert a (pmm_avail s) \<and>
      unat (used_frames (pmm_free_frame s a)) = unat (used_frames s) - 1"
    if h: "pmm_wf s" "frame_addr a" "a \<notin> pmm_avail s" "0 < unat (used_frames s)"
  proof -
    obtain f where f: "0 < f" "f < 1048576" "a = of_nat f * 4096" using h(2) frame_addr_eq by blast
    have nf: "f \<notin> free_frames s" using h(3) f by (auto simp: pmm_avail_def)
    note w = pmm_wf_free [OF h(1) f(2) _ nf h(4) refl, folded f(3)]
    have "total_frames (pmm_free_frame s a) = total_frames s" by (simp add: pmm_free_frame_def Let_def)
    moreover have "card (insert f (free_frames s)) = Suc (card (free_frames s))" using nf by simp
    ultimately have "unat (used_frames (pmm_free_frame s a)) = unat (used_frames s) - 1"
      using w f(1) h(1) by (simp add: pmm_wf_def) linarith
    then show ?thesis using w f by (auto simp: pmm_avail_def)
  qed
qed

section \<open>Properties\<close>

text \<open>
  C22: \<open>pmm_alloc_frame\<close> always returns. It hands out the lowest free frame below its bound, marks
  exactly that frame used and counts it, or returns 0 and changes nothing when no frame below the
  bound is free; the manager stays consistent.
\<close>

theorem pmm_alloc_correct:
  assumes "pmm_wf s"
  shows "(\<exists>f s'. pmm_alloc_frame s = Some (of_nat f * 4096, s') \<and> f \<in> free_frames s \<and> (\<forall>g \<in> free_frames s. f \<le> g) \<and>
      free_frames s' = free_frames s - {f} \<and> used_frames s' = used_frames s + 1 \<and> pmm_wf s') \<or>
    pmm_alloc_frame s = Some (0, s) \<and> (\<forall>f \<in> free_frames s. unat (total_frames s) + unat (used_frames s) \<le> f)"
  using assms
proof (cases rule: pmm_alloc_cases)
  case (frame f)
  then show ?thesis using pmm_wf_alloc [OF assms frame(1) refl] by (intro disjI1 exI [of _ f]) auto
qed auto

text \<open>An example: a machine with two usable frames.\<close>

definition pmm_full :: pmm where
  "pmm_full = \<lparr>frame_bitmap = replicate 32768 0xFFFFFFFF, total_frames = 0, used_frames = 0\<rparr>"

definition pmm_example :: pmm where
  "pmm_example = (bitmap_clear (bitmap_clear pmm_full 1) 2)\<lparr>total_frames := 2\<rparr>"

lemma pmm_full_free: "free_frames pmm_full = {}"
proof -
  have "(0xFFFFFFFF :: u32) = - 1" by simp
  then have "bit (0xFFFFFFFF :: u32) k" if "k < 32" for k using that by (simp only: bit_minus_1_iff possible_bit_word) simp
  then show ?thesis by (auto simp: free_frames_def frame_used_def pmm_full_def less_mult_imp_div_less)
qed

lemma pmm_example_wf: "free_frames pmm_example = {1, 2}" "pmm_wf pmm_example"
proof -
  have l: "length (frame_bitmap pmm_full) = 32768" by (simp add: pmm_full_def)
  show f: "free_frames pmm_example = {1, 2}"
    by (auto simp: pmm_example_def free_frames_clear l pmm_full_free)
  show "pmm_wf pmm_example"
    by (simp add: pmm_wf_def f) (simp add: pmm_example_def l pmm_full_def)
qed

theorem pmm_alloc_correct_witness: "\<exists>s'. pmm_alloc_frame pmm_example = Some (4096, s') \<and> free_frames s' = {2}"
proof -
  have u: "unat (total_frames pmm_example) + unat (used_frames pmm_example) = 2" by (simp add: pmm_example_def pmm_full_def)
  then show ?thesis using pmm_alloc_correct [OF pmm_example_wf(2)] pmm_example_wf(1) by auto
qed

text \<open>
  the scan bound of \<open>pmm_alloc_frame\<close>, the number of usable plus the number of used frames,
  is enough: when fewer frames are reserved below the highest usable frame than are usable, a
  free frame is found as long as there is one, in every order of allocations and releases.
\<close>

theorem pmm_alloc_complete:
  assumes "pmm_wf s" and "free_frames s \<subseteq> U" and "card U = unat (total_frames s)" and "finite U"
    and "\<forall>f \<in> U. f < unat (total_frames s) + h" and "h < unat (total_frames s)" and "free_frames s \<noteq> {}"
  shows "\<exists>f s'. pmm_alloc_frame s = Some (of_nat f * 4096, s') \<and> f \<in> free_frames s \<and> of_nat f * 4096 \<noteq> (0 :: u32)"
  using assms(1)
proof (cases rule: pmm_alloc_cases)
  case (frame f)
  then have "f \<noteq> 0" using assms(1) unfolding pmm_wf_def by metis
  moreover have "f < 1048576" using frame(1) by (rule free_frames_less)
  ultimately show ?thesis using frame frame_addr_inj [of f 0] by auto
next
  case none
  let ?t = "unat (total_frames s)" and ?u = "unat (used_frames s)"
  have "free_frames s \<subseteq> {?t + ?u ..< ?t + h}" using none(1) assms(2,5) by force
  then have "card (free_frames s) \<le> h - ?u" using card_mono [of "{?t + ?u ..< ?t + h}"] by force
  moreover have "?t = card (free_frames s) + ?u" using assms(1) by (simp add: pmm_wf_def)
  moreover have "0 < card (free_frames s)" using assms(7) by (simp add: card_gt_0_iff)
  ultimately show ?thesis using assms(6) by linarith
qed

theorem pmm_alloc_complete_witness:
  "\<exists>f s'. pmm_alloc_frame pmm_example = Some (of_nat f * 4096, s') \<and> f \<in> free_frames pmm_example \<and> of_nat f * 4096 \<noteq> (0 :: u32)"
  by (rule pmm_alloc_complete [of _ "{1, 2}" 1]) (auto simp: pmm_example_wf, simp_all add: pmm_example_def pmm_full_def)

section \<open>The memory map\<close>

text \<open>The entries that the walk over the memory map visits, from one address to the end.\<close>

fun mmap_chain :: "(u32 \<Rightarrow> u8) \<Rightarrow> u32 \<Rightarrow> u32 \<Rightarrow> mmap_entry list \<Rightarrow> bool" where
  "mmap_chain m a e [] \<longleftrightarrow> \<not> a < e"
| "mmap_chain m a e (x # xs) \<longleftrightarrow> a < e \<and> mmap_entry_at m a = x \<and> mmap_chain m (a + me_size x + 4) e xs"

lemma pmm_walk_chain: "mmap_chain m a e es \<Longrightarrow> pmm_walk m a e s = Some (foldl pmm_entry s es)"
proof (induction es arbitrary: a s)
  case (Cons x es)
  then show ?case by (subst pmm_walk.simps) simp
qed (simp add: pmm_walk.simps)

definition entry_frames :: "mmap_entry \<Rightarrow> nat set" where
  "entry_frames e = (if me_type e = 1 then {unat (me_addr e) div 4096 ..< unat (me_addr e) div 4096 + unat (me_len e) div 4096} else {})"

text \<open>A region below 4 GB; its base and length fit the 32-bit casts.\<close>

definition entry_low :: "mmap_entry \<Rightarrow> bool" where
  "entry_low e \<longleftrightarrow> unat (me_addr e) < 4294967296 \<and> unat (me_len e) < 4294967296 \<and>
     unat (me_addr e) div 4096 + unat (me_len e) div 4096 \<le> 1048576"

lemma pmm_free_region_spec:
  assumes "length (frame_bitmap s) = 32768" "unat start + unat n \<le> 1048576"
  shows "length (frame_bitmap (pmm_free_region s start n)) = 32768"
    and "free_frames (pmm_free_region s start n) = free_frames s \<union> {unat start ..< unat start + unat n}"
    and "total_frames (pmm_free_region s start n) = total_frames s + n"
    and "used_frames (pmm_free_region s start n) = used_frames s"
proof -
  define g where "g = (\<lambda>s i. let frame = start + of_nat i in
      if unat frame < MAX_FRAMES then let s1 = bitmap_clear s frame in s1\<lparr>total_frames := total_frames s1 + 1\<rparr> else s)"
  have u: "unat (start + of_nat i) = unat start + i" if "i < unat n" for i
    using that assms(2) by (subst unat_add_u32) (simp_all add: unat_of_nat)
  have P: "k \<le> unat n \<Longrightarrow> length (frame_bitmap (foldl g s [0..<k])) = 32768 \<and>
      free_frames (foldl g s [0..<k]) = free_frames s \<union> {unat start ..< unat start + k} \<and>
      total_frames (foldl g s [0..<k]) = total_frames s + of_nat k \<and> used_frames (foldl g s [0..<k]) = used_frames s" for k
  proof (induction k)
    case (Suc k)
    let ?t = "foldl g s [0..<k]"
    have ih: "length (frame_bitmap ?t) = 32768" "free_frames ?t = free_frames s \<union> {unat start ..< unat start + k}"
      "total_frames ?t = total_frames s + of_nat k" "used_frames ?t = used_frames s" using Suc by auto
    have k: "unat (start + of_nat k) = unat start + k" "unat start + k < 1048576" using u [of k] Suc.prems assms(2) by auto
    have st: "foldl g s [0..<Suc k] = (bitmap_clear ?t (start + of_nat k))\<lparr>total_frames := total_frames ?t + 1\<rparr>"
      using k by (simp add: g_def Let_def MAX_FRAMES_def)
    have fr: "free_frames (foldl g s [0..<Suc k]) = insert (unat start + k) (free_frames ?t)"
      unfolding st using ih(1) k by (simp add: free_frames_clear)
    show ?case unfolding fr ih(2) unfolding st using ih by (simp add: atLeastLessThanSuc)
  qed (simp add: assms(1))
  have e: "pmm_free_region s start n = foldl g s [0..<unat n]" unfolding pmm_free_region_def g_def ..
  show "length (frame_bitmap (pmm_free_region s start n)) = 32768"
    "free_frames (pmm_free_region s start n) = free_frames s \<union> {unat start ..< unat start + unat n}"
    "total_frames (pmm_free_region s start n) = total_frames s + n" "used_frames (pmm_free_region s start n) = used_frames s"
    unfolding e using P [of "unat n"] by simp_all
qed

lemma unat_ucast_u64_u32: "unat (ucast (x :: u64) :: u32) = unat x mod 4294967296"
  by (simp add: unsigned_ucast_eq unsigned_take_bit_eq take_bit_eq_mod)

lemma pmm_entry_spec:
  assumes "length (frame_bitmap s) = 32768" "entry_low e"
  shows "length (frame_bitmap (pmm_entry s e)) = 32768" and "free_frames (pmm_entry s e) = free_frames s \<union> entry_frames e"
    and "total_frames (pmm_entry s e) = total_frames s + of_nat (card (entry_frames e))" and "used_frames (pmm_entry s e) = used_frames s"
proof -
  let ?a = "ucast (me_addr e) div FRAME_SIZE :: u32" and ?n = "ucast (me_len e) div FRAME_SIZE :: u32"
  have u: "unat ?a = unat (me_addr e) div 4096" "unat ?n = unat (me_len e) div 4096"
    using assms(2) by (simp_all add: entry_low_def FRAME_SIZE_def unat_div unat_ucast_u64_u32)
  have b: "unat ?a + unat ?n \<le> 1048576" using assms(2) u by (simp add: entry_low_def)
  have n: "(of_nat (unat (me_len e) div 4096) :: u32) = ?n" using u(2) [symmetric] by simp
  note r = pmm_free_region_spec [OF assms(1) b]
  show "length (frame_bitmap (pmm_entry s e)) = 32768" "free_frames (pmm_entry s e) = free_frames s \<union> entry_frames e"
    "total_frames (pmm_entry s e) = total_frames s + of_nat (card (entry_frames e))" "used_frames (pmm_entry s e) = used_frames s"
    using r u n assms(1) by (simp_all add: pmm_entry_def entry_frames_def)
qed

lemma finite_entry_frames [simp]: "finite (entry_frames e)"
  by (simp add: entry_frames_def)

text \<open>The map as a whole: all usable frames are free, and counted once when the regions are disjoint.\<close>

definition map_frames :: "mmap_entry list \<Rightarrow> nat set" where
  "map_frames es = (\<Union>e \<in> set es. entry_frames e)"

fun map_disjoint :: "mmap_entry list \<Rightarrow> bool" where
  "map_disjoint [] \<longleftrightarrow> True"
| "map_disjoint (e # es) \<longleftrightarrow> entry_frames e \<inter> map_frames es = {} \<and> map_disjoint es"

lemma map_frames_simps [simp]: "map_frames [] = {}" "map_frames (e # es) = entry_frames e \<union> map_frames es"
  by (simp_all add: map_frames_def)

lemma finite_map_frames [simp]: "finite (map_frames es)"
  by (simp add: map_frames_def)

lemma foldl_pmm_entry:
  "length (frame_bitmap s) = 32768 \<Longrightarrow> list_all entry_low es \<Longrightarrow> map_disjoint es \<Longrightarrow>
   length (frame_bitmap (foldl pmm_entry s es)) = 32768 \<and> free_frames (foldl pmm_entry s es) = free_frames s \<union> map_frames es \<and>
   total_frames (foldl pmm_entry s es) = total_frames s + of_nat (card (map_frames es)) \<and> used_frames (foldl pmm_entry s es) = used_frames s"
proof (induction es arbitrary: s)
  case (Cons e es)
  have e: "entry_low e" using Cons.prems by simp
  note p = pmm_entry_spec [OF Cons.prems(1) e]
  have "card (map_frames (e # es)) = card (entry_frames e) + card (map_frames es)"
    using Cons.prems(3) by (simp add: card_Un_disjoint)
  then show ?case using Cons.IH [OF p(1)] Cons.prems p by (simp add: Un_assoc)
qed simp

text \<open>Taking back the frames of the kernel.\<close>

lemma pmm_reserve_spec:
  assumes "length (frame_bitmap s) = 32768" "total_frames s = of_nat (card (free_frames s))"
  shows "length (frame_bitmap (pmm_reserve s k)) = 32768" and "free_frames (pmm_reserve s k) = free_frames s - {0 .. unat k div 4096}"
    and "total_frames (pmm_reserve s k) = of_nat (card (free_frames (pmm_reserve s k)))"
proof -
  define g where "g = (\<lambda>s i. let frame = of_nat i in
      if \<not> bitmap_test s frame then let s1 = bitmap_set s frame in s1\<lparr>total_frames := total_frames s1 - 1\<rparr> else s)"
  have P: "j \<le> 1048576 \<Longrightarrow> length (frame_bitmap (foldl g s [0..<j])) = 32768 \<and> free_frames (foldl g s [0..<j]) = free_frames s - {0..<j} \<and>
      total_frames (foldl g s [0..<j]) = of_nat (card (free_frames (foldl g s [0..<j])))" for j
  proof (induction j)
    case (Suc j)
    let ?t = "foldl g s [0..<j]"
    have ih: "length (frame_bitmap ?t) = 32768" "free_frames ?t = free_frames s - {0..<j}" "total_frames ?t = of_nat (card (free_frames ?t))"
      using Suc by auto
    have j: "unat (of_nat j :: u32) = j" "j < 1048576" using Suc.prems by (simp_all add: unat_of_nat)
    show ?case
    proof (cases "j \<in> free_frames ?t")
      case True
      then have "\<not> bitmap_test ?t (of_nat j)" using j by (simp add: bitmap_test_eq free_frames_def)
      then have st: "foldl g s [0..<Suc j] = (bitmap_set ?t (of_nat j))\<lparr>total_frames := total_frames ?t - 1\<rparr>" by (simp add: g_def Let_def)
      have c: "card (free_frames ?t) = Suc (card (free_frames ?t - {j}))" using True by (metis card.remove finite_free_frames)
      have fr: "free_frames (foldl g s [0..<Suc j]) = free_frames ?t - {j}" unfolding st using ih(1) j by (simp add: free_frames_set)
      have tot: "total_frames (foldl g s [0..<Suc j]) = of_nat (card (free_frames ?t - {j}))" unfolding st using ih(3) c by simp
      have len: "length (frame_bitmap (foldl g s [0..<Suc j])) = 32768" unfolding st using ih(1) by simp
      show ?thesis unfolding fr tot using len ih(2) by (auto simp: atLeastLessThanSuc)
    next
      case False
      then have "bitmap_test ?t (of_nat j)" using j by (simp add: bitmap_test_eq free_frames_def)
      then have st: "foldl g s [0..<Suc j] = ?t" by (simp add: g_def Let_def)
      show ?thesis unfolding st using ih False by (auto simp: atLeastLessThanSuc)
    qed
  qed (simp add: assms)
  have k: "unat (k div FRAME_SIZE + 1) = unat k div 4096 + 1" "unat k div 4096 + 1 \<le> 1048576"
  proof -
    have "unat k div 4096 < 1048576" using unat_less_u32 [of k] by (simp add: less_mult_imp_div_less)
    then show "unat (k div FRAME_SIZE + 1) = unat k div 4096 + 1" "unat k div 4096 + 1 \<le> 1048576"
      by (simp_all add: FRAME_SIZE_def unat_word_ariths unat_div)
  qed
  have r: "pmm_reserve s k = foldl g s [0..<unat k div 4096 + 1]" unfolding pmm_reserve_def k(1) by (simp add: g_def)
  have e: "{0..<unat k div 4096 + 1} = {0..unat k div 4096}" by auto
  show "length (frame_bitmap (pmm_reserve s k)) = 32768" "free_frames (pmm_reserve s k) = free_frames s - {0 .. unat k div 4096}"
    "total_frames (pmm_reserve s k) = of_nat (card (free_frames (pmm_reserve s k)))"
    unfolding r using P [OF k(2)] e by simp_all
qed

text \<open>
  \<open>pmm_init\<close> builds the bitmap from the memory map: for a map of disjoint regions below 4 GB it
  ends, the free frames are exactly the usable frames that the kernel does not occupy, the total
  is their number and nothing is counted as used.
\<close>

theorem pmm_init_correct:
  assumes "mb_flags info AND push_bit 6 1 \<noteq> 0" and "mmap_chain m (mmap_addr info) (mmap_addr info + mmap_length info) es"
    and "list_all entry_low es" and "map_disjoint es" and "total_frames s = 0"
  shows "\<exists>s'. pmm_init m info kernel_end s = Some s' \<and> length (frame_bitmap s') = 32768 \<and>
    free_frames s' = map_frames es - {0 .. unat kernel_end div 4096} \<and>
    total_frames s' = of_nat (card (free_frames s')) \<and> used_frames s' = 0"
proof -
  let ?s0 = "s\<lparr>frame_bitmap := replicate (MAX_FRAMES div 32) 0xFFFFFFFF\<rparr>"
  have l: "length (frame_bitmap ?s0) = 32768" by (simp add: MAX_FRAMES_def)
  have "free_frames ?s0 = free_frames pmm_full" by (simp add: free_frames_def frame_used_def pmm_full_def MAX_FRAMES_def)
  then have f0: "free_frames ?s0 = {}" by (simp add: pmm_full_free)
  define s1 where "s1 = foldl pmm_entry ?s0 es"
  have s1: "length (frame_bitmap s1) = 32768" "free_frames s1 = map_frames es" "total_frames s1 = of_nat (card (free_frames s1))"
    using foldl_pmm_entry [OF l assms(3,4)] f0 assms(5) by (simp_all add: s1_def)
  note r = pmm_reserve_spec [OF s1(1,3), of kernel_end]
  show ?thesis using assms(1) pmm_walk_chain [OF assms(2), of ?s0] r s1(2) by (simp add: pmm_init_def s1_def [symmetric])
qed

definition mmap_mem :: "u32 \<Rightarrow> u8" where
  "mmap_mem a = (if a = 0 then 20 else if a = 6 then 16 else if a = 14 then 2 else if a = 20 then 1 else 0)"

theorem pmm_init_correct_witness:
  "\<exists>s'. pmm_init mmap_mem \<lparr>mb_flags = 64, mmap_length = 24, mmap_addr = 0\<rparr> 0x100FFF pmm_full = Some s' \<and> free_frames s' = {257 ..< 288}"
proof -
  let ?e = "\<lparr>me_size = 20, me_addr = 0x100000, me_len = 0x20000, me_type = 1\<rparr>"
  have c: "mmap_chain mmap_mem 0 (0 + 24) [?e]"
    by (simp add: mmap_entry_at_def mem_le64_def mem_le32_def get_le32_def mmap_mem_def)
  have f: "map_frames [?e] = {256 ..< 288}" by (simp add: entry_frames_def)
  have d: "{256 ..< 288} - {0 .. 256} = {257 ..< 288 :: nat}" by auto
  let ?i = "\<lparr>mb_flags = 64, mmap_length = 24, mmap_addr = 0\<rparr>"
  have "\<exists>s'. pmm_init mmap_mem ?i 0x100FFF pmm_full = Some s' \<and> length (frame_bitmap s') = 32768 \<and>
    free_frames s' = map_frames [?e] - {0 .. unat (0x100FFF :: u32) div 4096} \<and>
    total_frames s' = of_nat (card (free_frames s')) \<and> used_frames s' = 0"
  proof (rule pmm_init_correct)
    show "mmap_chain mmap_mem (mmap_addr ?i) (mmap_addr ?i + mmap_length ?i) [?e]" using c by simp
    show "total_frames pmm_full = 0" by (simp add: pmm_full_def)
  qed (simp_all add: entry_low_def)
  moreover have "unat (0x100FFF :: u32) div 4096 = 256" by simp
  ultimately show ?thesis unfolding f using d by metis
qed

text \<open>
  The casts to 32 bits: a usable region above 4 GB frees the frames of the memory 4 GB below it,
  whatever that memory is used for.
\<close>

lemma pmm_high_memory_aliases:
  assumes "length (frame_bitmap s) = 32768" "me_type e = 1" "me_addr e = 0x100000000" "me_len e = 0x1000"
  shows "0 \<in> free_frames (pmm_entry s e)"
proof -
  have "pmm_entry s e = pmm_free_region s 0 1" using assms by (simp add: pmm_entry_def FRAME_SIZE_def)
  then show ?thesis using pmm_free_region_spec(2) [OF assms(1), of 0 1] by simp
qed

lemma pmm_scan_overrun:
  "free_frames s = {} \<Longrightarrow> 1048576 < unat (total_frames s + used_frames s) \<Longrightarrow> unat i \<le> 1048576 \<Longrightarrow> pmm_scan s i = None"
proof (induction s i rule: pmm_scan.induct)
  case (1 s i)
  have lt: "i < total_frames s + used_frames s" using 1(3,4) by (simp add: word_less_nat_alt)
  show ?case
  proof (cases "unat i < 1048576")
    case True
    then have t: "bitmap_test s i" using 1(2) by (auto simp: bitmap_test_eq free_frames_def)
    have "unat (i + 1) \<le> 1048576" using unat_inc_u32 [OF lt] True by simp
    then have "pmm_scan s (i + 1) = None" using 1(1) [OF lt _ _ 1(2,3)] True t by (simp add: MAX_FRAMES_def)
    then show ?thesis using lt True t by (simp add: pmm_scan.simps [of s i] MAX_FRAMES_def)
  next
    case False
    then show ?thesis using lt by (simp add: pmm_scan.simps [of s i] MAX_FRAMES_def)
  qed
qed

text \<open>
  with more than 2 GB of memory the scan bound can be larger than the bitmap: once every
  frame is taken, \<open>pmm_alloc_frame\<close> reads past its end.
\<close>

theorem pmm_scan_overruns:
  assumes "free_frames s = {}" and "1048576 < unat (total_frames s + used_frames s)"
  shows "pmm_alloc_frame s = None"
  using pmm_scan_overrun [OF assms, of 0] by (simp add: pmm_alloc_frame_def)

theorem pmm_scan_overruns_witness: "pmm_alloc_frame (pmm_full\<lparr>total_frames := 600000, used_frames := 600000\<rparr>) = None"
  by (rule pmm_scan_overruns) (simp_all add: pmm_full_free)

end
