(* ===== verification/Paging.thy ===== *)
theory Paging
  imports Pmm "HOL-Library.Multiset"
begin

unbundle bit_operations_syntax

text \<open>
  Page directories and tables (src/src/paging.c). Physical memory below 4 MB is a map from word
  addresses to words, which the kernel reads and writes through its identity mapping; \<open>kdir\<close> and
  \<open>kpt\<close> are the link-time addresses of the kernel's static directory and table, and \<open>cr3\<close> the
  directory the processor uses.
\<close>

section \<open>Model\<close>

record paging =
  pm :: pmm
  mem :: "u32 \<Rightarrow> u32"
  kdir :: u32
  kpt :: u32
  cr3 :: u32

definition PAGE_PRESENT :: u32 where "PAGE_PRESENT = 0x1"
definition PAGE_WRITABLE :: u32 where "PAGE_WRITABLE = 0x2"
definition PAGE_USER :: u32 where "PAGE_USER = 0x4"
definition PAGE_SIZE :: u32 where "PAGE_SIZE = 4096"
definition ENTRIES :: nat where "ENTRIES = 1024"

text \<open>The address part of an entry, \<open>entry & ~0xFFF\<close>.\<close>

definition page_base :: "u32 \<Rightarrow> u32" where
  "page_base entry = entry AND NOT 0xFFF"

text \<open>The address of \<open>table[i]\<close>, and a loop that stores \<open>f i\<close> in every entry of a table.\<close>

definition slot :: "u32 \<Rightarrow> nat \<Rightarrow> u32" where
  "slot table i = table + 4 * of_nat i"

definition fill_table :: "(u32 \<Rightarrow> u32) \<Rightarrow> u32 \<Rightarrow> ((u32 \<Rightarrow> u32) \<Rightarrow> nat \<Rightarrow> u32) \<Rightarrow> (u32 \<Rightarrow> u32)" where
  "fill_table m table f = foldl (\<lambda>m i. m(slot table i := f m i)) m [0..<ENTRIES]"

definition load_page_directory :: "paging \<Rightarrow> u32 \<Rightarrow> paging" where
  "load_page_directory s dir = s\<lparr>cr3 := dir\<rparr>"

definition paging_init :: "paging \<Rightarrow> paging" where
  "paging_init s =
     (let m1 = fill_table (mem s) (kpt s) (\<lambda>m i. (of_nat i * PAGE_SIZE) OR PAGE_PRESENT OR PAGE_WRITABLE);
          m2 = fill_table m1 (kdir s) (\<lambda>m i. 0);
          m3 = m2(slot (kdir s) 0 := kpt s OR PAGE_PRESENT OR PAGE_WRITABLE OR PAGE_USER)
      in load_page_directory (s\<lparr>mem := m3\<rparr>) (kdir s))"

definition paging_get_kernel_directory :: "paging \<Rightarrow> u32" where
  "paging_get_kernel_directory s = kdir s"

text \<open>
  The common part of \<open>paging_clone_kernel_directory\<close> and \<open>paging_alloc_user_page_table\<close>: a frame
  inside the mapped 4 MB that becomes a copy of the table at \<open>src\<close>; 0 when there is none.
\<close>

definition paging_copy_frame :: "paging \<Rightarrow> u32 \<Rightarrow> (u32 \<times> paging) option" where
  "paging_copy_frame s src =
     (case pmm_alloc_frame (pm s) of
        None \<Rightarrow> None
      | Some (phys, p) \<Rightarrow>
          if phys = 0 then Some (0, s\<lparr>pm := p\<rparr>)
          else if 0x400000 \<le> phys then Some (0, s\<lparr>pm := pmm_free_frame p phys\<rparr>)
          else Some (phys, s\<lparr>pm := p, mem := fill_table (mem s) phys (\<lambda>m i. m (slot src i))\<rparr>))"

definition paging_clone_kernel_directory :: "paging \<Rightarrow> (u32 \<times> paging) option" where
  "paging_clone_kernel_directory s = paging_copy_frame s (kdir s)"

definition paging_switch_directory :: "paging \<Rightarrow> u32 \<Rightarrow> paging" where
  "paging_switch_directory s dir = load_page_directory s dir"

definition paging_alloc_user_page_table :: "paging \<Rightarrow> (u32 \<times> paging) option" where
  "paging_alloc_user_page_table s = paging_copy_frame s (kpt s)"

definition paging_get_or_create_user_table :: "paging \<Rightarrow> u32 \<Rightarrow> u32 \<Rightarrow> (u32 \<times> paging) option" where
  "paging_get_or_create_user_table s dir vaddr =
     (let dir_index = unat (vaddr div (PAGE_SIZE * of_nat ENTRIES)) in
      if ENTRIES \<le> dir_index then Some (0, s)
      else let entry = mem s (slot dir dir_index); existing_table = page_base entry in
        if entry AND PAGE_PRESENT \<noteq> 0 \<and> existing_table \<noteq> kpt s then Some (existing_table, s)
        else case paging_alloc_user_page_table s of
               None \<Rightarrow> None
             | Some (table, s1) \<Rightarrow>
                 if table = 0 then Some (0, s1)
                 else Some (table, s1\<lparr>mem := (mem s1)(slot dir dir_index := table OR PAGE_PRESENT OR PAGE_WRITABLE OR PAGE_USER)\<rparr>))"

definition paging_map_user_page :: "paging \<Rightarrow> u32 \<Rightarrow> u32 \<Rightarrow> u32 \<Rightarrow> paging" where
  "paging_map_user_page s table vaddr frame =
     (let index = unat ((vaddr div PAGE_SIZE) mod of_nat ENTRIES)
      in s\<lparr>mem := (mem s)(slot table index := frame OR PAGE_PRESENT OR PAGE_WRITABLE OR PAGE_USER)\<rparr>)"

text \<open>The inner and the outer loop of \<open>paging_free_user_directory\<close>.\<close>

definition paging_free_entry :: "paging \<Rightarrow> u32 \<Rightarrow> pmm \<Rightarrow> nat \<Rightarrow> pmm" where
  "paging_free_entry s table p j =
     (let table_entry = mem s (slot table j) in
      if table_entry AND PAGE_PRESENT = 0 then p
      else if table_entry = mem s (slot (kpt s) j) then p
      else pmm_free_frame p (page_base table_entry))"

definition paging_free_table :: "paging \<Rightarrow> u32 \<Rightarrow> pmm \<Rightarrow> nat \<Rightarrow> pmm" where
  "paging_free_table s dir p i =
     (let entry = mem s (slot dir i); table = page_base entry in
      if entry AND PAGE_PRESENT = 0 then p
      else if table = kpt s then p
      else pmm_free_frame (foldl (paging_free_entry s table) p [0..<ENTRIES]) table)"

definition paging_free_user_directory :: "paging \<Rightarrow> u32 \<Rightarrow> paging" where
  "paging_free_user_directory s dir = s\<lparr>pm := foldl (paging_free_table s dir) (pm s) [0..<ENTRIES]\<rparr>"

section \<open>Table entries\<close>

definition aligned :: "u32 \<Rightarrow> bool" where
  "aligned a \<longleftrightarrow> a mod 4096 = 0"

lemma aligned_frame: "frame_addr a \<Longrightarrow> aligned a"
  by (simp add: frame_addr_def aligned_def)

lemma aligned_eq: "aligned a \<longleftrightarrow> unat a mod 4096 = 0"
proof -
  have "unat (a mod 4096) = unat a mod 4096" by (simp add: unat_mod)
  then show ?thesis unfolding aligned_def by (metis unat_0 unat_eq_zero)
qed

lemma aligned_and: "aligned a \<longleftrightarrow> a AND 0xFFF = 0"
proof -
  have "unat (a AND 0xFFF) = unat a mod 4096" using unat_and_mask [of a 12] by (simp add: mask_eq_exp_minus_1)
  then show ?thesis unfolding aligned_eq by (metis unat_0 unat_eq_zero)
qed

lemma aligned_and_low: "aligned a \<Longrightarrow> c AND 0xFFF = c \<Longrightarrow> a AND c = 0"
proof -
  assume a: "aligned a" and c: "c AND 0xFFF = c"
  have "a AND c = a AND (0xFFF AND c)" using c by (simp add: and.commute)
  then show ?thesis using a by (simp add: aligned_and and.assoc [symmetric])
qed

lemma aligned_clear: "aligned a \<Longrightarrow> page_base a = a"
proof -
  assume a: "aligned a"
  have "a AND (0xFFF OR NOT 0xFFF) = a" by (simp only: bit.disj_cancel_right and.right_neutral)
  then show ?thesis using a by (simp only: aligned_and page_base_def bit.conj_disj_distrib or.left_neutral)
qed

text \<open>The entry for a user page, table or directory at an aligned address.\<close>

definition user_entry :: "u32 \<Rightarrow> u32" where
  "user_entry a = a OR PAGE_PRESENT OR PAGE_WRITABLE OR PAGE_USER"

definition kernel_entry :: "nat \<Rightarrow> u32" where
  "kernel_entry i = (of_nat i * PAGE_SIZE) OR PAGE_PRESENT OR PAGE_WRITABLE"

lemmas page_flags = PAGE_PRESENT_def PAGE_WRITABLE_def PAGE_USER_def

lemma user_entry_fields [simp]:
  assumes "aligned a"
  shows "page_base (user_entry a) = a" and "user_entry a AND PAGE_PRESENT = 1" and "user_entry a AND PAGE_USER = 4"
  using aligned_clear [OF assms] aligned_and_low [OF assms, of 1] aligned_and_low [OF assms, of 4]
  by (simp_all add: user_entry_def page_base_def page_flags bit.conj_disj_distrib2)

lemma kernel_entry_fields [simp]:
  assumes "i < 1024"
  shows "page_base (kernel_entry i) = of_nat i * 4096" and "kernel_entry i AND PAGE_PRESENT = 1" and "kernel_entry i AND PAGE_USER = 0"
proof -
  have a: "aligned (of_nat i * 4096)" unfolding aligned_eq using unat_frame_addr [of i] assms by simp
  show "page_base (kernel_entry i) = of_nat i * 4096" "kernel_entry i AND PAGE_PRESENT = 1" "kernel_entry i AND PAGE_USER = 0"
    using aligned_clear [OF a] aligned_and_low [OF a, of 1] aligned_and_low [OF a, of 4]
    by (simp_all add: kernel_entry_def page_base_def page_flags PAGE_SIZE_def bit.conj_disj_distrib2)
qed

lemma user_not_kernel: "aligned a \<Longrightarrow> i < 1024 \<Longrightarrow> user_entry a \<noteq> kernel_entry i"
proof
  assume "aligned a" "i < 1024" "user_entry a = kernel_entry i"
  then have "(4 :: u32) = 0" using kernel_entry_fields(3) [of i] user_entry_fields(3) [of a] by argo
  then show False by simp
qed

section \<open>Tables in memory\<close>

lemma unat_slot:
  assumes "aligned a" "i < 1024"
  shows "unat (slot a i) = unat a + 4 * i"
proof -
  have m: "unat a mod 4096 = 0" using assms(1) by (simp add: aligned_eq)
  then have d: "unat a = unat a div 4096 * 4096" by (simp add: mod_0_imp_dvd)
  have "unat a div 4096 < 1048576" using unat_less_u32 [of a] by (simp add: less_mult_imp_div_less)
  then have b: "unat a + 4 * i < 4294967296" using d assms(2) by linarith
  have o: "unat (4 * of_nat i :: u32) = 4 * i" using assms(2) by (subst unat_mult_u32) (simp_all add: unat_of_nat)
  show u: "unat (slot a i) = unat a + 4 * i" unfolding slot_def using b o by (subst unat_add_u32) simp_all
qed

lemma slot_eq_iff [simp]:
  assumes "aligned a" "aligned b" "i < 1024" "j < 1024"
  shows "slot a i = slot b j \<longleftrightarrow> a = b \<and> i = j"
proof
  assume "slot a i = slot b j"
  then have e: "unat a + 4 * i = unat b + 4 * j" using unat_slot [of a i] unat_slot [of b j] assms by simp
  obtain p q where pq: "unat a = 4096 * p" "unat b = 4096 * q" using assms(1,2) unfolding aligned_eq by (metis mod_0_imp_dvd dvdE)
  then have "i + 1024 * p = j + 1024 * q" using e by linarith
  then have "(i + 1024 * p) div 1024 = (j + 1024 * q) div 1024" by (simp only:)
  then have "p = q" using assms(3,4) by simp
  then show "a = b \<and> i = j" using e pq by (simp add: word_unat_eq_iff)
qed simp

lemma fill_const:
  "(\<And>j. j < n \<Longrightarrow> x \<noteq> slot t j) \<Longrightarrow> foldl (\<lambda>m i. m(slot t i := g i)) m [0..<n] x = m x"
  by (induction n) auto

lemma fill_table_other: "(\<And>i. i < 1024 \<Longrightarrow> x \<noteq> slot t i) \<Longrightarrow> fill_table m t (\<lambda>m. g) x = m x"
  unfolding fill_table_def ENTRIES_def by (rule fill_const)

lemma fill_table_at:
  assumes "aligned t" "i < 1024"
  shows "fill_table m t (\<lambda>m. g) (slot t i) = g i"
proof -
  have "n \<le> 1024 \<Longrightarrow> i < n \<Longrightarrow> foldl (\<lambda>m i. m(slot t i := g i)) m [0..<n] (slot t i) = g i" for n
  proof (induction n)
    case (Suc n)
    then show ?case using assms by (cases "i = n") auto
  qed simp
  then show ?thesis using assms by (simp add: fill_table_def ENTRIES_def)
qed

lemma fill_table_copy:
  assumes "aligned t" "aligned src" "t \<noteq> src"
  shows "fill_table m t (\<lambda>m i. m (slot src i)) = fill_table m t (\<lambda>_ i. m (slot src i))"
proof -
  have "n \<le> 1024 \<Longrightarrow> foldl (\<lambda>m i. m(slot t i := m (slot src i))) m [0..<n] = foldl (\<lambda>m' i. m'(slot t i := m (slot src i))) m [0..<n]" for n
  proof (induction n)
    case (Suc n)
    then have "foldl (\<lambda>m' i. m'(slot t i := m (slot src i))) m [0..<n] (slot src n) = m (slot src n)"
      using assms by (intro fill_const) auto
    then show ?case using Suc by (simp del: fun_upd_apply)
  qed simp
  then show ?thesis by (simp add: fill_table_def ENTRIES_def)
qed

end
