(* ===== verification/Task.thy ===== *)
theory Task
  imports Kheap Paging Fat_File
begin

unbundle bit_operations_syntax

text \<open>
  The task table and the scheduler (src/src/task.c, task.h), the timer that drives it
  (src/src/pit.c) and the kernel stack pointer of the task state segment (src/src/tss.c). The state
  composes the kernel heap, the page tables and the file layer, which task creation and reaping
  use. \<open>cpu_esp\<close> is the stack pointer that \<open>switch_task\<close> stores after it has pushed the registers;
  a table index is a \<open>nat\<close>, the results of \<open>task_create\<close> are C integers.
\<close>

section \<open>Model\<close>

datatype task_state_t = TASK_UNUSED | TASK_READY | TASK_RUNNING | TASK_SLEEPING

record task =
  esp :: u32
  stack_base :: u32
  state :: task_state_t
  task_id :: int
  wake_tick :: u32
  page_directory :: u32

record kernel =
  tasks :: "task list"
  current_task :: nat
  task_count :: nat
  heap :: kheap
  pg :: paging
  fs :: fat_fs
  tss_esp0 :: u32
  cpu_esp :: u32
  tick_count :: u32
  configured_frequency :: u32

definition MAX_TASKS :: nat where "MAX_TASKS = 8"
definition TASK_STACK_SIZE :: u32 where "TASK_STACK_SIZE = 4096"
definition PIT_BASE_FREQ :: u32 where "PIT_BASE_FREQ = 1193182"

definition set_task :: "kernel \<Rightarrow> nat \<Rightarrow> task \<Rightarrow> kernel" where
  "set_task s i t = s\<lparr>tasks := (tasks s)[i := t]\<rparr>"

definition runnable :: "kernel \<Rightarrow> nat \<Rightarrow> bool" where
  "runnable s i \<longleftrightarrow> state (tasks s ! i) = TASK_READY \<or> state (tasks s ! i) = TASK_RUNNING"

definition next_task_id :: "kernel \<Rightarrow> nat \<Rightarrow> nat" where
  "next_task_id s from =
     (case find (\<lambda>i. runnable s ((from + i) mod task_count s)) [1..<Suc (task_count s)] of
        Some i \<Rightarrow> (from + i) mod task_count s
      | None \<Rightarrow> from)"

text \<open>
  \<open>switch_task\<close>: the outgoing task's stack pointer is stored, the incoming one's loaded. The
  argument was read before the call, so that a switch of a task to itself loads its old value.
\<close>

definition switch_task :: "kernel \<Rightarrow> nat \<Rightarrow> u32 \<Rightarrow> kernel" where
  "switch_task s old new_esp = (set_task s old ((tasks s ! old)\<lparr>esp := cpu_esp s\<rparr>))\<lparr>cpu_esp := new_esp\<rparr>"

definition tss_set_kernel_stack :: "kernel \<Rightarrow> u32 \<Rightarrow> kernel" where
  "tss_set_kernel_stack s esp0 = s\<lparr>tss_esp0 := esp0\<rparr>"

definition task_switch_to :: "kernel \<Rightarrow> nat \<Rightarrow> kernel" where
  "task_switch_to s i =
     (let old = current_task s;
          s = set_task (s\<lparr>current_task := i\<rparr>) i ((tasks s ! i)\<lparr>state := TASK_RUNNING\<rparr>);
          t = tasks s ! i;
          s = (if stack_base t \<noteq> 0 then tss_set_kernel_stack s (stack_base t + TASK_STACK_SIZE) else s);
          s = (if page_directory t \<noteq> 0 then s\<lparr>pg := paging_switch_directory (pg s) (page_directory t)\<rparr> else s)
      in switch_task s old (esp t))"

definition set_current :: "kernel \<Rightarrow> (task \<Rightarrow> task) \<Rightarrow> kernel" where
  "set_current s f = set_task s (current_task s) (f (tasks s ! current_task s))"

definition task_exit :: "kernel \<Rightarrow> kernel" where
  "task_exit s = (let s = set_current s (\<lambda>t. t\<lparr>state := TASK_UNUSED\<rparr>)
                  in task_switch_to s (next_task_id s (current_task s)))"

definition task_current_id :: "kernel \<Rightarrow> nat" where
  "task_current_id s = current_task s"

definition task_get_current_page_directory :: "kernel \<Rightarrow> u32" where
  "task_get_current_page_directory s = page_directory (tasks s ! current_task s)"

text \<open>One pass of the loop of \<open>task_reap\<close>, and the loop.\<close>

definition task_reap_one :: "kernel \<Rightarrow> nat \<Rightarrow> kernel" where
  "task_reap_one s i =
     (let t = tasks s ! i in
      if state t = TASK_UNUSED \<and> stack_base t \<noteq> 0 then
        let s = s\<lparr>heap := kfree (heap s) (stack_base t)\<rparr>;
            s = set_task s i (t\<lparr>stack_base := 0\<rparr>);
            s = s\<lparr>fs := fat_close_all_for_task (fs s) (int i)\<rparr>
        in if page_directory t \<noteq> 0 then
             let p = paging_free_user_directory (pg s) (page_directory t);
                 s = s\<lparr>pg := p\<lparr>pm := pmm_free_frame (pm p) (page_directory t)\<rparr>\<rparr>
             in set_task s i (t\<lparr>stack_base := 0, page_directory := 0\<rparr>)
           else s
      else s)"

definition task_reap :: "kernel \<Rightarrow> kernel" where
  "task_reap s = foldl task_reap_one s [1..<task_count s]"

definition tasking_init :: "kernel \<Rightarrow> kernel" where
  "tasking_init s =
     (let ts = map (\<lambda>t. t\<lparr>state := TASK_UNUSED\<rparr>) (take MAX_TASKS (tasks s)) @ drop MAX_TASKS (tasks s)
      in s\<lparr>tasks := ts[0 := (ts ! 0)\<lparr>task_id := 0, state := TASK_RUNNING, stack_base := 0, page_directory := paging_get_kernel_directory (pg s)\<rparr>],
           current_task := 0, task_count := 1\<rparr>)"

text \<open>The words that \<open>task_create\<close> pushes, from the top of the new stack down.\<close>

definition push_words :: "store \<Rightarrow> u32 \<Rightarrow> u32 list \<Rightarrow> store \<times> u32" where
  "push_words m stack_end ws = foldl (\<lambda>(m, sp) w. (m(sp - 4 := w), sp - 4)) (m, stack_end) ws"

definition task_slot :: "kernel \<Rightarrow> nat option" where
  "task_slot s = find (\<lambda>i. state (tasks s ! i) = TASK_UNUSED \<and> stack_base (tasks s ! i) = 0 \<and> page_directory (tasks s ! i) = 0)
                      [1..<task_count s]"

text \<open>The part of \<open>task_create\<close> behind the choice of a slot.\<close>

definition task_build :: "kernel \<Rightarrow> nat \<Rightarrow> u32 \<Rightarrow> u32 \<Rightarrow> (int \<times> kernel) option" where
  "task_build s i entry_point task_launch =
     (case kmalloc (heap s) TASK_STACK_SIZE of
        None \<Rightarrow> None
      | Some (new_stack_base, h) \<Rightarrow>
          if new_stack_base = 0 then Some (-1, s\<lparr>heap := h\<rparr>)
          else case paging_clone_kernel_directory (pg s) of
            None \<Rightarrow> None
          | Some (new_page_directory, p) \<Rightarrow>
              if new_page_directory = 0 then Some (-1, s\<lparr>heap := kfree h new_stack_base, pg := p\<rparr>)
              else let (m, stack_top) = push_words (kheap.mem h) (new_stack_base + TASK_STACK_SIZE) [entry_point, task_launch, 0, 0, 0, 0]
                in Some (int i, set_task (s\<lparr>heap := h\<lparr>kheap.mem := m\<rparr>, pg := p\<rparr>) i
                     ((tasks s ! i)\<lparr>stack_base := new_stack_base, page_directory := new_page_directory, esp := stack_top,
                        task_id := int i, state := TASK_READY\<rparr>)))"

definition task_create :: "kernel \<Rightarrow> u32 \<Rightarrow> u32 \<Rightarrow> (int \<times> kernel) option" where
  "task_create s entry_point task_launch =
     (case task_slot s of
        Some i \<Rightarrow> task_build s i entry_point task_launch
      | None \<Rightarrow> if MAX_TASKS \<le> task_count s then Some (-1, s)
                else task_build (s\<lparr>task_count := Suc (task_count s)\<rparr>) (task_count s) entry_point task_launch)"

definition wake_sleepers :: "kernel \<Rightarrow> u32 \<Rightarrow> kernel" where
  "wake_sleepers s now =
     foldl (\<lambda>s i. if state (tasks s ! i) = TASK_SLEEPING \<and> 0 \<le> sint (now - wake_tick (tasks s ! i))
                  then set_task s i ((tasks s ! i)\<lparr>state := TASK_READY\<rparr>) else s) s [0..<task_count s]"

definition pit_get_ticks :: "kernel \<Rightarrow> u32" where
  "pit_get_ticks s = tick_count s"

definition pit_get_frequency :: "kernel \<Rightarrow> u32" where
  "pit_get_frequency s = configured_frequency s"

definition yield_running :: "kernel \<Rightarrow> kernel" where
  "yield_running s = set_current s (\<lambda>t. if state t = TASK_RUNNING then t\<lparr>state := TASK_READY\<rparr> else t)"

definition schedule :: "kernel \<Rightarrow> kernel" where
  "schedule s =
     (let s = wake_sleepers s (pit_get_ticks s) in
      if task_count s \<le> 1 then s
      else let next = next_task_id s (current_task s) in
        if next = current_task s then s
        else task_switch_to (yield_running s) next)"

definition pit_handler :: "kernel \<Rightarrow> kernel" where
  "pit_handler s = schedule (s\<lparr>tick_count := tick_count s + 1\<rparr>)"

text \<open>
  \<open>pit_init\<close>: the two bytes of the divisor it writes to the port, and the frequency it records;
  \<open>None\<close> is the divide error for frequency 0.
\<close>

definition pit_init :: "kernel \<Rightarrow> u32 \<Rightarrow> (u8 \<times> u8 \<times> kernel) option" where
  "pit_init s frequency =
     (if frequency = 0 then None
      else let divisor = PIT_BASE_FREQ div frequency
        in Some (ucast (divisor AND 0xFF), ucast (drop_bit 8 divisor AND 0xFF), s\<lparr>configured_frequency := frequency\<rparr>))"

definition sleep_ticks :: "kernel \<Rightarrow> u32 \<Rightarrow> u32" where
  "sleep_ticks s ms =
     (let freq = (if pit_get_frequency s = 0 then 100 else pit_get_frequency s); ticks = (ms * freq) div 1000
      in if ticks = 0 then 1 else ticks)"

definition task_sleep :: "kernel \<Rightarrow> u32 \<Rightarrow> kernel" where
  "task_sleep s ms =
     (let s = set_current s (\<lambda>t. t\<lparr>wake_tick := pit_get_ticks s + sleep_ticks s ms, state := TASK_SLEEPING\<rparr>)
      in task_switch_to s (next_task_id s (current_task s)))"

text \<open>
  One round of \<open>task_wait\<close>: \<open>None\<close> when the target is gone and the call returns, otherwise the
  state after the switch; the caller goes on with the next round when it is switched back in.
\<close>

definition task_wait_round :: "kernel \<Rightarrow> nat \<Rightarrow> kernel option" where
  "task_wait_round s target_id =
     (if state (tasks s ! target_id) = TASK_UNUSED then None
      else let s = yield_running s in Some (task_switch_to s (next_task_id s (current_task s))))"

end
