(* ===== verification/Task_Sched.thy ===== *)
theory Task_Sched
  imports Task
begin

text \<open>
  The scheduler: the next task is the first runnable one in cyclic order, exactly one task runs at
  any time and it is the one the processor's stack and address space belong to, a task that is
  switched out finds its context unchanged, every ready task gets its turn, and a sleeping task
  wakes on its tick, also when the tick counter wraps around.
\<close>

section \<open>Round robin\<close>

definition dist :: "nat \<Rightarrow> nat \<Rightarrow> nat \<Rightarrow> nat" where
  "dist c from j = (j + c - from) mod c"

lemma dist_unique: "from < c \<Longrightarrow> d < c \<Longrightarrow> dist c from ((from + d) mod c) = d"
  unfolding dist_def by (cases "from + d < c") (auto simp: le_mod_geq)

lemma dist_reaches: "from < c \<Longrightarrow> j < c \<Longrightarrow> (from + dist c from j) mod c = j"
  unfolding dist_def by (cases "from \<le> j") (auto simp: le_mod_geq)

lemma dist_pos: "from < c \<Longrightarrow> j < c \<Longrightarrow> j \<noteq> from \<Longrightarrow> 0 < dist c from j \<and> dist c from j < c"
  unfolding dist_def by (cases "from \<le> j") (auto simp: le_mod_geq)

lemma next_task_runnable:
  assumes "from < task_count s" "j < task_count s" "runnable s j" "j \<noteq> from"
  defines "n \<equiv> next_task_id s from"
  shows "n < task_count s" "runnable s n" "n \<noteq> from" "dist (task_count s) n j < dist (task_count s) from j"
proof -
  let ?c = "task_count s" and ?d = "dist (task_count s) from j"
  have d: "0 < ?d" "?d < ?c" "(from + ?d) mod ?c = j" using dist_pos dist_reaches assms(1,2,4) by auto
  then have "find (\<lambda>i. runnable s ((from + i) mod ?c)) [1..<Suc ?c] \<noteq> None"
    using assms(3) unfolding find_from_None_iff by (auto intro!: exI [of _ ?d])
  then obtain i where f: "find (\<lambda>i. runnable s ((from + i) mod ?c)) [1..<Suc ?c] = Some i" by blast
  then have i: "1 \<le> i" "runnable s ((from + i) mod ?c)" and least: "\<And>k. 1 \<le> k \<Longrightarrow> k < i \<Longrightarrow> \<not> runnable s ((from + k) mod ?c)"
    unfolding find_from_Some_iff by auto
  have di: "\<not> ?d < i" using least [of ?d] d(1,3) assms(3) by auto
  have n: "n = (from + i) mod ?c" unfolding n_def next_task_id_def f by simp
  show "runnable s n" "n < ?c" using i(2) assms(1) by (simp_all add: n)
  have "dist ?c from n = i" unfolding n using dist_unique [of "from" ?c i] assms(1) di d(2) by simp
  then show "n \<noteq> from" using i(1) by (auto simp: dist_def)
  have "(n + (?d - i)) mod ?c = (from + i + (?d - i)) mod ?c" unfolding n by (rule mod_add_left_eq)
  then have "(n + (?d - i)) mod ?c = j" using d(3) di by simp
  then have "dist ?c n j = ?d - i" using dist_unique [of n ?c "?d - i"] \<open>n < ?c\<close> d(2) by simp
  then show "dist ?c n j < ?d" using i(1) d(1) by simp
qed

lemma next_task_other:
  assumes "next_task_id s from \<noteq> from"
  shows "runnable s (next_task_id s from)"
proof (cases "find (\<lambda>i. runnable s ((from + i) mod task_count s)) [1..<Suc (task_count s)]")
  case (Some i)
  then show ?thesis using find_from_Some_iff [THEN iffD1, OF Some] unfolding next_task_id_def Some by simp
next
  case None
  then show ?thesis using assms unfolding next_task_id_def None by simp
qed

section \<open>Switching\<close>

lemma set_task_fields [simp]:
  "current_task (set_task s i t) = current_task s" "task_count (set_task s i t) = task_count s" "heap (set_task s i t) = heap s"
  "pg (set_task s i t) = pg s" "fs (set_task s i t) = fs s" "tss_esp0 (set_task s i t) = tss_esp0 s" "cpu_esp (set_task s i t) = cpu_esp s"
  "tick_count (set_task s i t) = tick_count s" "configured_frequency (set_task s i t) = configured_frequency s"
  "tasks (set_task s i t) = (tasks s)[i := t]"
  by (simp_all add: set_task_def)

lemma set_current_fields [simp]:
  "current_task (set_current s f) = current_task s" "task_count (set_current s f) = task_count s" "heap (set_current s f) = heap s"
  "pg (set_current s f) = pg s" "fs (set_current s f) = fs s" "tss_esp0 (set_current s f) = tss_esp0 s" "cpu_esp (set_current s f) = cpu_esp s"
  "tick_count (set_current s f) = tick_count s" "configured_frequency (set_current s f) = configured_frequency s"
  "tasks (set_current s f) = (tasks s)[current_task s := f (tasks s ! current_task s)]"
  by (simp_all add: set_current_def)

lemma task_switch_to_fields [simp]:
  "current_task (task_switch_to s i) = i" "task_count (task_switch_to s i) = task_count s" "heap (task_switch_to s i) = heap s"
  "fs (task_switch_to s i) = fs s" "tick_count (task_switch_to s i) = tick_count s" "configured_frequency (task_switch_to s i) = configured_frequency s"
  "i < length (tasks s) \<Longrightarrow> cpu_esp (task_switch_to s i) = esp (tasks s ! i)"
  "i < length (tasks s) \<Longrightarrow> tss_esp0 (task_switch_to s i) = (if stack_base (tasks s ! i) \<noteq> 0 then stack_base (tasks s ! i) + 4096 else tss_esp0 s)"
  "i < length (tasks s) \<Longrightarrow> pg (task_switch_to s i) = (if page_directory (tasks s ! i) \<noteq> 0 then (pg s)\<lparr>cr3 := page_directory (tasks s ! i)\<rparr> else pg s)"
  by (simp_all add: task_switch_to_def Let_def switch_task_def tss_set_kernel_stack_def paging_switch_directory_def load_page_directory_def TASK_STACK_SIZE_def)

lemma tasks_switch_to:
  "tasks (task_switch_to s i) = (let ts = (tasks s)[i := (tasks s ! i)\<lparr>state := TASK_RUNNING\<rparr>]
     in ts[current_task s := (ts ! current_task s)\<lparr>esp := cpu_esp s\<rparr>])"
  by (simp add: task_switch_to_def Let_def switch_task_def tss_set_kernel_stack_def)

lemma length_switch_to [simp]: "length (tasks (task_switch_to s i)) = length (tasks s)"
  by (simp add: tasks_switch_to Let_def)

definition wakes :: "u32 \<Rightarrow> task \<Rightarrow> task" where
  "wakes now t = (if state t = TASK_SLEEPING \<and> 0 \<le> sint (now - wake_tick t) then t\<lparr>state := TASK_READY\<rparr> else t)"

lemma wake_sleepers_eq:
  assumes "task_count s \<le> length (tasks s)"
  shows "wake_sleepers s now = s\<lparr>tasks := map (wakes now) (take (task_count s) (tasks s)) @ drop (task_count s) (tasks s)\<rparr>"
proof -
  define g where "g = (\<lambda>s i. if state (tasks s ! i) = TASK_SLEEPING \<and> 0 \<le> sint (now - wake_tick (tasks s ! i))
      then set_task s i ((tasks s ! i)\<lparr>state := TASK_READY\<rparr>) else s)"
  have g: "g s i = set_task s i (wakes now (tasks s ! i))" for s i
  proof -
    have "set_task s i (tasks s ! i) = s" by (simp add: set_task_def)
    then show ?thesis by (simp add: g_def wakes_def)
  qed
  have "n \<le> length (tasks s) \<Longrightarrow> foldl g s [0..<n] = s\<lparr>tasks := map (wakes now) (take n (tasks s)) @ drop n (tasks s)\<rparr>" for n
  proof (induction n)
    case (Suc n)
    then have "drop n (tasks s) = (tasks s ! n) # drop (Suc n) (tasks s)" "take (Suc n) (tasks s) = take n (tasks s) @ [tasks s ! n]"
      by (simp_all add: Cons_nth_drop_Suc take_Suc_conv_app_nth)
    then show ?case using Suc by (simp add: g set_task_def nth_append list_update_append)
  qed simp
  then show ?thesis using assms unfolding wake_sleepers_def g_def by simp
qed

lemma wake_sleepers_fields [simp]:
  assumes "task_count s \<le> length (tasks s)"
  shows "current_task (wake_sleepers s now) = current_task s" "task_count (wake_sleepers s now) = task_count s" "heap (wake_sleepers s now) = heap s"
    "pg (wake_sleepers s now) = pg s" "fs (wake_sleepers s now) = fs s" "tss_esp0 (wake_sleepers s now) = tss_esp0 s" "cpu_esp (wake_sleepers s now) = cpu_esp s"
    "tick_count (wake_sleepers s now) = tick_count s" "configured_frequency (wake_sleepers s now) = configured_frequency s"
    "length (tasks (wake_sleepers s now)) = length (tasks s)"
    "i < task_count s \<Longrightarrow> tasks (wake_sleepers s now) ! i = wakes now (tasks s ! i)"
    "task_count s \<le> i \<Longrightarrow> i < length (tasks s) \<Longrightarrow> tasks (wake_sleepers s now) ! i = tasks s ! i"
  using assms by (auto simp: wake_sleepers_eq [OF assms] nth_append)

lemma wakes_fields [simp]:
  "esp (wakes now t) = esp t" "stack_base (wakes now t) = stack_base t" "page_directory (wakes now t) = page_directory t" "wake_tick (wakes now t) = wake_tick t"
  "state (wakes now t) = TASK_RUNNING \<longleftrightarrow> state t = TASK_RUNNING" "state (wakes now t) = TASK_UNUSED \<longleftrightarrow> state t = TASK_UNUSED"
  "state t = TASK_READY \<Longrightarrow> state (wakes now t) = TASK_READY"
  by (auto simp: wakes_def)

section \<open>The invariant of the task table\<close>

definition sched_ok :: "kernel \<Rightarrow> bool" where
  "sched_ok s \<longleftrightarrow> length (tasks s) = 8 \<and> task_count s \<le> 8 \<and> current_task s < task_count s \<and>
     (\<forall>i < 8. state (tasks s ! i) = TASK_RUNNING \<longleftrightarrow> i = current_task s) \<and> runnable s 0 \<and>
     (\<forall>i < 8. task_count s \<le> i \<longrightarrow> state (tasks s ! i) = TASK_UNUSED) \<and>
     (let t = tasks s ! current_task s in
      (stack_base t \<noteq> 0 \<longrightarrow> tss_esp0 s = stack_base t + 4096) \<and> (page_directory t \<noteq> 0 \<longrightarrow> cr3 (pg s) = page_directory t))"

lemma sched_ok_cong:
  assumes "sched_ok s" and e: "tasks s' = tasks s" "task_count s' = task_count s" "current_task s' = current_task s"
    "tss_esp0 s' = tss_esp0 s" "cr3 (pg s') = cr3 (pg s)"
  shows "sched_ok s'"
  using assms(1) unfolding sched_ok_def runnable_def e .

lemma sched_ok_states:
  assumes "sched_ok s" "length (tasks s') = length (tasks s)" "task_count s' = task_count s" "current_task s' = current_task s"
    "tss_esp0 s' = tss_esp0 s" "cr3 (pg s') = cr3 (pg s)" "\<And>j. j < 8 \<Longrightarrow> state (tasks s' ! j) = state (tasks s ! j)"
    "tasks s' ! current_task s = tasks s ! current_task s"
  shows "sched_ok s'"
  using assms unfolding sched_ok_def runnable_def Let_def by auto

lemma sched_running: "sched_ok s \<Longrightarrow> state (tasks s ! current_task s) = TASK_RUNNING"
  unfolding sched_ok_def using less_le_trans by blast

text \<open>A state that is about to switch: the current task's state is anything, no other task runs.\<close>

definition switch_ok :: "kernel \<Rightarrow> bool" where
  "switch_ok s \<longleftrightarrow> length (tasks s) = 8 \<and> task_count s \<le> 8 \<and> current_task s < task_count s \<and>
     (\<forall>i < 8. state (tasks s ! i) \<noteq> TASK_RUNNING) \<and> runnable s 0 \<and>
     (\<forall>i < 8. task_count s \<le> i \<longrightarrow> state (tasks s ! i) = TASK_UNUSED)"

lemma sched_switch:
  assumes ok: "switch_ok s" and i: "i < task_count s" "i \<noteq> current_task s"
  shows "sched_ok (task_switch_to s i)"
  using assms unfolding sched_ok_def switch_ok_def runnable_def
  by (auto simp: tasks_switch_to Let_def nth_list_update)

definition leave :: "kernel \<Rightarrow> (task \<Rightarrow> task) \<Rightarrow> kernel" where
  "leave s f = (let s = set_current s f in task_switch_to s (next_task_id s (current_task s)))"

lemma leave_forms:
  "task_exit s = leave s (\<lambda>t. t\<lparr>state := TASK_UNUSED\<rparr>)"
  "task_sleep s ms = leave s (\<lambda>t. t\<lparr>wake_tick := tick_count s + sleep_ticks s ms, state := TASK_SLEEPING\<rparr>)"
  "state (tasks s ! target) \<noteq> TASK_UNUSED \<Longrightarrow>
     task_wait_round s target = Some (leave s (\<lambda>t. if state t = TASK_RUNNING then t\<lparr>state := TASK_READY\<rparr> else t))"
  by (simp_all add: task_exit_def task_sleep_def task_wait_round_def leave_def Let_def yield_running_def pit_get_ticks_def)

lemma leave_switch_ok:
  assumes ok: "sched_ok s" and c: "current_task s \<noteq> 0" and f: "state (f (tasks s ! current_task s)) \<noteq> TASK_RUNNING"
  shows "switch_ok (set_current s f)"
  using assms unfolding sched_ok_def switch_ok_def runnable_def by (auto simp: nth_list_update Let_def)

lemma switch_next:
  assumes "switch_ok s" "current_task s \<noteq> 0"
  shows "next_task_id s (current_task s) < task_count s" "next_task_id s (current_task s) \<noteq> current_task s"
  using next_task_runnable [of "current_task s" s 0] assms by (auto simp: switch_ok_def)

lemma leave_ok:
  assumes "sched_ok s" "current_task s \<noteq> 0" "state (f (tasks s ! current_task s)) \<noteq> TASK_RUNNING"
  shows "sched_ok (leave s f)"
  using leave_switch_ok [of s f] assms switch_next [of "set_current s f"] assms(2) unfolding leave_def Let_def by (auto intro: sched_switch)

text \<open>The scheduler's own switch, from the timer.\<close>

lemma sched_tick_wake:
  assumes "sched_ok s"
  shows "sched_ok (wake_sleepers s now)"
proof -
  have l: "task_count s \<le> length (tasks s)" "length (tasks s) = 8" using assms by (auto simp: sched_ok_def)
  let ?w = "wake_sleepers s now"
  have w: "tasks ?w ! i = (if i < task_count s then wakes now (tasks s ! i) else tasks s ! i)" if "i < 8" for i
    using wake_sleepers_fields(11,12) [OF l(1)] that l(2) by simp
  have c: "current_task s < task_count s" "current_task s < 8" "0 < task_count s" using assms by (auto simp: sched_ok_def)
  have "state (tasks ?w ! i) = TASK_RUNNING \<longleftrightarrow> state (tasks s ! i) = TASK_RUNNING"
    "state (tasks ?w ! i) = TASK_UNUSED \<longleftrightarrow> state (tasks s ! i) = TASK_UNUSED" if "i < 8" for i using w [OF that] by auto
  moreover have "runnable ?w 0" using w [of 0] c assms by (auto simp: sched_ok_def runnable_def)
  moreover have "stack_base (tasks ?w ! current_task s) = stack_base (tasks s ! current_task s)"
    "page_directory (tasks ?w ! current_task s) = page_directory (tasks s ! current_task s)" using w [OF c(2)] c(1) by auto
  ultimately show ?thesis using assms wake_sleepers_fields(1,2,4,6,10) [OF l(1)] unfolding sched_ok_def Let_def by simp
qed

lemma schedule_cases:
  assumes ok: "sched_ok s"
  obtains (stay) "schedule s = wake_sleepers s (tick_count s)"
      "task_count s \<le> 1 \<or> next_task_id (wake_sleepers s (tick_count s)) (current_task s) = current_task s"
    | (switch) w n where "w = yield_running (wake_sleepers s (tick_count s))" "switch_ok w" "current_task w = current_task s"
        "n = next_task_id (wake_sleepers s (tick_count s)) (current_task s)" "n < task_count s" "n \<noteq> current_task s"
        "schedule s = task_switch_to w n"
proof -
  let ?w = "wake_sleepers s (tick_count s)"
  let ?n = "next_task_id ?w (current_task s)"
  have l: "task_count s \<le> length (tasks s)" using ok by (auto simp: sched_ok_def)
  note f = wake_sleepers_fields [OF l]
  have wok: "sched_ok ?w" using ok by (rule sched_tick_wake)
  show ?thesis
  proof (cases "task_count s \<le> 1 \<or> ?n = current_task s")
    case True
    then have "schedule s = ?w" using f(1,2) by (auto simp: schedule_def Let_def pit_get_ticks_def)
    then show ?thesis using that(1) True by blast
  next
    case False
    have "switch_ok (yield_running ?w)"
      using wok unfolding yield_running_def sched_ok_def switch_ok_def runnable_def Let_def by (auto simp: nth_list_update)
    moreover have "?n < task_count s"
    proof (cases "find (\<lambda>i. runnable ?w ((current_task s + i) mod task_count s)) [1..<Suc (task_count s)]")
      case (Some i)
      then show ?thesis using ok f(2) by (simp add: next_task_id_def sched_ok_def)
    next
      case None
      then show ?thesis using ok f(2) by (simp add: next_task_id_def sched_ok_def)
    qed
    ultimately show ?thesis using that(2) [of "yield_running ?w" ?n] False f(1,2) by (simp add: schedule_def Let_def pit_get_ticks_def yield_running_def)
  qed
qed

lemma pit_handler_ok:
  assumes "sched_ok s"
  shows "sched_ok (pit_handler s)"
proof -
  have ok: "sched_ok (s\<lparr>tick_count := tick_count s + 1\<rparr>)" using assms by (rule sched_ok_cong) simp_all
  from ok show ?thesis unfolding pit_handler_def
  proof (cases rule: schedule_cases)
    case stay
    then show "sched_ok (schedule (s\<lparr>tick_count := tick_count s + 1\<rparr>))" using sched_tick_wake [OF ok] by simp
  next
    case (switch w n)
    have "task_count w = task_count s" using ok by (simp add: switch(1) yield_running_def sched_ok_def)
    then show "sched_ok (schedule (s\<lparr>tick_count := tick_count s + 1\<rparr>))"
      using sched_switch [OF switch(2), of n] switch by simp
  qed
qed

section \<open>Creating and reaping, as far as the scheduler sees it\<close>

lemma clone_cr3: "paging_clone_kernel_directory p = Some (d, p') \<Longrightarrow> cr3 p' = cr3 p"
  by (auto simp: paging_clone_kernel_directory_def paging_copy_frame_def split: option.splits if_splits)

lemma task_build_shape:
  assumes "task_build s i e l = Some (r, s')"
  shows "current_task s' = current_task s" "task_count s' = task_count s" "tss_esp0 s' = tss_esp0 s" "cpu_esp s' = cpu_esp s" "cr3 (pg s') = cr3 (pg s)"
    "tasks s' = tasks s \<or> (\<exists>t. tasks s' = (tasks s)[i := t] \<and> state t = TASK_READY)"
  using assms by (auto simp: task_build_def Let_def clone_cr3 split: option.splits if_splits prod.splits)

lemma task_create_shape:
  assumes ok: "sched_ok s" and c: "task_create s e l = Some (r, s')"
  shows "current_task s' = current_task s" "task_count s \<le> task_count s'" "task_count s' \<le> 8" "tss_esp0 s' = tss_esp0 s" "cpu_esp s' = cpu_esp s"
    "cr3 (pg s') = cr3 (pg s)"
    "tasks s' = tasks s \<or> (\<exists>i t. i < task_count s' \<and> state (tasks s ! i) = TASK_UNUSED \<and> tasks s' = (tasks s)[i := t] \<and> state t = TASK_READY)"
proof -
  have l: "task_count s \<le> 8" "\<And>i. i < 8 \<Longrightarrow> task_count s \<le> i \<Longrightarrow> state (tasks s ! i) = TASK_UNUSED" using ok by (auto simp: sched_ok_def)
  consider (full) "s' = s" | (build) i s0 where "task_build s0 i e l = Some (r, s')" "s0 = s \<and> i < task_count s \<or> s0 = s\<lparr>task_count := Suc (task_count s)\<rparr> \<and> i = task_count s \<and> task_count s < 8"
      "state (tasks s ! i) = TASK_UNUSED"
    using c l unfolding task_create_def task_slot_def
    by (auto simp: find_from_Some_iff MAX_TASKS_def split: option.splits if_splits)
  then have "current_task s' = current_task s \<and> task_count s \<le> task_count s' \<and> task_count s' \<le> 8 \<and> tss_esp0 s' = tss_esp0 s \<and> cpu_esp s' = cpu_esp s \<and>
    cr3 (pg s') = cr3 (pg s) \<and>
    (tasks s' = tasks s \<or> (\<exists>i t. i < task_count s' \<and> state (tasks s ! i) = TASK_UNUSED \<and> tasks s' = (tasks s)[i := t] \<and> state t = TASK_READY))"
  proof cases
    case build
    note b = task_build_shape [OF build(1)]
    show ?thesis using b build(2,3) l(1) by auto
  qed (use l in simp)
  then show "current_task s' = current_task s" "task_count s \<le> task_count s'" "task_count s' \<le> 8" "tss_esp0 s' = tss_esp0 s" "cpu_esp s' = cpu_esp s"
    "cr3 (pg s') = cr3 (pg s)"
    "tasks s' = tasks s \<or> (\<exists>i t. i < task_count s' \<and> state (tasks s ! i) = TASK_UNUSED \<and> tasks s' = (tasks s)[i := t] \<and> state t = TASK_READY)" by auto
qed

lemma task_create_ok:
  assumes ok: "sched_ok s" and c: "task_create s e l = Some (r, s')"
  shows "sched_ok s'"
proof -
  note h = task_create_shape [OF assms]
  have nc: "state (tasks s ! current_task s) = TASK_RUNNING" "current_task s < 8" using ok by (auto simp: sched_ok_def)
  from h(7) show ?thesis
  proof
    assume "tasks s' = tasks s"
    then show ?thesis using ok h unfolding sched_ok_def runnable_def Let_def by auto
  next
    assume "\<exists>i t. i < task_count s' \<and> state (tasks s ! i) = TASK_UNUSED \<and> tasks s' = (tasks s)[i := t] \<and> state t = TASK_READY"
    then obtain i t where i: "i < task_count s'" "state (tasks s ! i) = TASK_UNUSED" "tasks s' = (tasks s)[i := t]" "state t = TASK_READY" by blast
    have ne: "i \<noteq> current_task s" using i(2) nc by auto
    have st: "state (tasks s' ! j) = (if j = i then TASK_READY else state (tasks s ! j))" if "j < 8" for j
      using i that ok by (auto simp: sched_ok_def nth_list_update)
    have "runnable s' 0" using st [of 0] ok by (auto simp: sched_ok_def runnable_def)
    moreover have "tasks s' ! current_task s = tasks s ! current_task s" using ne i(3) by simp
    moreover have "length (tasks s') = length (tasks s)" using i(3) by simp
    ultimately show ?thesis using ok h(1-6) st i(1,2) ne unfolding sched_ok_def Let_def by auto
  qed
qed

lemma task_reap_one_shape:
  fixes s i
  defines "s' \<equiv> task_reap_one s i"
  shows "current_task s' = current_task s" "task_count s' = task_count s" "tss_esp0 s' = tss_esp0 s" "cpu_esp s' = cpu_esp s" "cr3 (pg s') = cr3 (pg s)"
    "\<exists>t. tasks s' = (tasks s)[i := t] \<and> state t = state (tasks s ! i) \<and> (state (tasks s ! i) \<noteq> TASK_UNUSED \<longrightarrow> t = tasks s ! i)"
  unfolding s'_def task_reap_one_def Let_def
  by (auto simp: paging_free_user_directory_def intro: exI [of _ "tasks s ! i"])

lemma task_reap_shape:
  fixes s
  defines "s' \<equiv> task_reap s"
  shows "current_task s' = current_task s" "task_count s' = task_count s" "tss_esp0 s' = tss_esp0 s" "cpu_esp s' = cpu_esp s" "cr3 (pg s') = cr3 (pg s)"
    "length (tasks s') = length (tasks s)"
    "\<And>j. state (tasks s' ! j) = state (tasks s ! j) \<and> (state (tasks s ! j) \<noteq> TASK_UNUSED \<longrightarrow> tasks s' ! j = tasks s ! j)"
proof -
  have "current_task (foldl task_reap_one s js) = current_task s \<and> task_count (foldl task_reap_one s js) = task_count s \<and>
    tss_esp0 (foldl task_reap_one s js) = tss_esp0 s \<and> cpu_esp (foldl task_reap_one s js) = cpu_esp s \<and> cr3 (pg (foldl task_reap_one s js)) = cr3 (pg s) \<and>
    length (tasks (foldl task_reap_one s js)) = length (tasks s) \<and>
    (\<forall>j. state (tasks (foldl task_reap_one s js) ! j) = state (tasks s ! j) \<and>
      (state (tasks s ! j) \<noteq> TASK_UNUSED \<longrightarrow> tasks (foldl task_reap_one s js) ! j = tasks s ! j))" for js
  proof (induction js arbitrary: s)
    case (Cons i js)
    note one = task_reap_one_shape [of s i]
    obtain t where t: "tasks (task_reap_one s i) = (tasks s)[i := t]" "state t = state (tasks s ! i)" "state (tasks s ! i) \<noteq> TASK_UNUSED \<longrightarrow> t = tasks s ! i"
      using one(6) by blast
    have "state (tasks (task_reap_one s i) ! j) = state (tasks s ! j) \<and> (state (tasks s ! j) \<noteq> TASK_UNUSED \<longrightarrow> tasks (task_reap_one s i) ! j = tasks s ! j)" for j
      using t by (cases "i < length (tasks s)") (auto simp: nth_list_update list_update_beyond)
    then show ?case using Cons.IH [of "task_reap_one s i"] one(1-5) t(1) by simp
  qed simp
  then show "current_task s' = current_task s" "task_count s' = task_count s" "tss_esp0 s' = tss_esp0 s" "cpu_esp s' = cpu_esp s" "cr3 (pg s') = cr3 (pg s)"
    "length (tasks s') = length (tasks s)"
    "\<And>j. state (tasks s' ! j) = state (tasks s ! j) \<and> (state (tasks s ! j) \<noteq> TASK_UNUSED \<longrightarrow> tasks s' ! j = tasks s ! j)"
    unfolding s'_def task_reap_def by auto
qed

lemma task_reap_ok:
  assumes "sched_ok s"
  shows "sched_ok (task_reap s)"
proof -
  note h = task_reap_shape [of s]
  have "tasks (task_reap s) ! current_task s = tasks s ! current_task s" using h(7) [of "current_task s"] sched_running [OF assms] by simp
  then show ?thesis using sched_ok_states [OF assms, of "task_reap s"] h by simp
qed

section \<open>Runs of the kernel\<close>

text \<open>
  What can happen to the task table: a timer tick; a call of \<open>task_exit\<close>, \<open>task_sleep\<close> or
  \<open>task_wait\<close> by a task other than the kernel's own loop, which is task 0 and calls none of them; the
  creation of a task; \<open>task_reap\<close>, which only the kernel's loop calls; and any code of the current
  task that moves its stack pointer.
\<close>

inductive kstep :: "kernel \<Rightarrow> kernel \<Rightarrow> bool" where
  tick: "kstep s (pit_handler s)"
| exit: "current_task s \<noteq> 0 \<Longrightarrow> kstep s (task_exit s)"
| sleep: "current_task s \<noteq> 0 \<Longrightarrow> kstep s (task_sleep s ms)"
| wait: "current_task s \<noteq> 0 \<Longrightarrow> task_wait_round s target = Some s' \<Longrightarrow> kstep s s'"
| create: "task_create s entry_point task_launch = Some (r, s') \<Longrightarrow> kstep s s'"
| reap: "current_task s = 0 \<Longrightarrow> kstep s (task_reap s)"
| run: "kstep s (s\<lparr>cpu_esp := sp\<rparr>)"

inductive kreach :: "kernel \<Rightarrow> bool" where
  boot: "length (tasks s) = 8 \<Longrightarrow> cr3 (pg s) = kdir (pg s) \<Longrightarrow> kreach (tasking_init s)"
| step: "kreach s \<Longrightarrow> kstep s s' \<Longrightarrow> kreach s'"

lemma wait_form:
  "task_wait_round s target = Some s' \<Longrightarrow> s' = leave s (\<lambda>t. if state t = TASK_RUNNING then t\<lparr>state := TASK_READY\<rparr> else t)"
  using leave_forms(3) [of s target] by (cases "state (tasks s ! target) = TASK_UNUSED") (simp_all add: task_wait_round_def)

lemma kstep_ok:
  assumes "kstep s s'" "sched_ok s"
  shows "sched_ok s'"
  using assms
proof (induction rule: kstep.induct)
  case (tick s) then show ?case by (simp add: pit_handler_ok)
next
  case (exit s) then show ?case by (simp add: leave_forms leave_ok)
next
  case (sleep s ms) then show ?case by (simp add: leave_forms leave_ok)
next
  case (wait s target s') then show ?case using wait_form [of s target s'] leave_ok by simp
next
  case (create s e l r s') then show ?case by (simp add: task_create_ok)
next
  case (reap s) then show ?case by (simp add: task_reap_ok)
next
  case (run s sp) then show ?case using sched_ok_cong by fastforce
qed

lemma tasking_init_ok:
  assumes "length (tasks s) = 8" "cr3 (pg s) = kdir (pg s)"
  shows "sched_ok (tasking_init s)"
  using assms unfolding sched_ok_def tasking_init_def
  by (auto simp: Let_def MAX_TASKS_def runnable_def nth_list_update paging_get_kernel_directory_def)

lemma kreach_ok: "kreach s \<Longrightarrow> sched_ok s"
  by (induction rule: kreach.induct) (auto intro: tasking_init_ok kstep_ok)

text \<open>
  C5: in every state the kernel can reach, in any order of timer ticks, exits, sleeps, waits,
  creations and reaps, exactly one task is running: the current one. The kernel's own loop can
  always be scheduled, and the processor's page directory and the stack for entries from ring 3
  are those of the current task.
\<close>

theorem one_task_runs:
  assumes "kreach s"
  shows "current_task s < task_count s \<and> task_count s \<le> 8 \<and> (\<forall>i < 8. state (tasks s ! i) = TASK_RUNNING \<longleftrightarrow> i = current_task s) \<and>
    runnable s 0 \<and>
    (page_directory (tasks s ! current_task s) \<noteq> 0 \<longrightarrow> cr3 (pg s) = page_directory (tasks s ! current_task s)) \<and>
    (stack_base (tasks s ! current_task s) \<noteq> 0 \<longrightarrow> tss_esp0 s = stack_base (tasks s ! current_task s) + TASK_STACK_SIZE)"
  using kreach_ok [OF assms] by (simp add: sched_ok_def Let_def TASK_STACK_SIZE_def)

text \<open>What a task keeps while another one is current.\<close>

definition keeps_context :: "kernel \<Rightarrow> kernel \<Rightarrow> nat \<Rightarrow> bool" where
  "keeps_context s s' j \<longleftrightarrow> esp (tasks s' ! j) = esp (tasks s ! j) \<and> stack_base (tasks s' ! j) = stack_base (tasks s ! j) \<and>
     page_directory (tasks s' ! j) = page_directory (tasks s ! j) \<and> state (tasks s' ! j) \<noteq> TASK_UNUSED \<and>
     (current_task s' = j \<longrightarrow> cpu_esp s' = esp (tasks s ! j))"

text \<open>What a switch leaves behind of the task that was current.\<close>

definition saves_context :: "kernel \<Rightarrow> kernel \<Rightarrow> bool" where
  "saves_context s s' \<longleftrightarrow> (current_task s' \<noteq> current_task s \<longrightarrow> esp (tasks s' ! current_task s) = cpu_esp s)"

lemma switch_context:
  assumes "length (tasks s) = 8" "i < 8" "i \<noteq> current_task s" "current_task s < 8"
  shows "j < 8 \<Longrightarrow> j \<noteq> current_task s \<Longrightarrow> state (tasks s ! j) \<noteq> TASK_UNUSED \<Longrightarrow> keeps_context s (task_switch_to s i) j" "saves_context s (task_switch_to s i)"
  using assms by (auto simp: keeps_context_def saves_context_def tasks_switch_to Let_def nth_list_update)

lemma leave_context:
  assumes ok: "sched_ok s" and c: "current_task s \<noteq> 0" and f: "state (f (tasks s ! current_task s)) \<noteq> TASK_RUNNING"
  shows "j < 8 \<Longrightarrow> j \<noteq> current_task s \<Longrightarrow> state (tasks s ! j) \<noteq> TASK_UNUSED \<Longrightarrow> keeps_context s (leave s f) j" "saves_context s (leave s f)"
proof -
  let ?s = "set_current s f" and ?n = "next_task_id (set_current s f) (current_task s)"
  have w: "switch_ok ?s" using leave_switch_ok [of s f] assms by simp
  have n: "?n < 8" "?n \<noteq> current_task ?s" using switch_next [of ?s] w c by (auto simp: switch_ok_def)
  have l: "length (tasks ?s) = 8" "current_task ?s < 8" using w by (auto simp: switch_ok_def)
  note k = switch_context [OF l(1) n l(2)]
  show "keeps_context s (leave s f) j" if h: "j < 8" "j \<noteq> current_task s" "state (tasks s ! j) \<noteq> TASK_UNUSED"
    using k(1) [of j] h by (simp add: keeps_context_def leave_def Let_def)
  show "saves_context s (leave s f)" using k(2) by (simp add: saves_context_def leave_def Let_def)
qed

lemma pit_context:
  assumes ok: "sched_ok s"
  shows "j < 8 \<Longrightarrow> j \<noteq> current_task s \<Longrightarrow> state (tasks s ! j) \<noteq> TASK_UNUSED \<Longrightarrow> keeps_context s (pit_handler s) j" "saves_context s (pit_handler s)"
proof -
  let ?t = "s\<lparr>tick_count := tick_count s + 1\<rparr>"
  let ?w = "wake_sleepers ?t (tick_count ?t)"
  have okt: "sched_ok ?t" using ok by (rule sched_ok_cong) simp_all
  have l: "task_count ?t \<le> length (tasks ?t)" "length (tasks s) = 8" "current_task s < 8" "task_count s \<le> 8" using okt ok by (auto simp: sched_ok_def)
  have wj: "esp (tasks ?w ! j) = esp (tasks s ! j) \<and> stack_base (tasks ?w ! j) = stack_base (tasks s ! j) \<and>
      page_directory (tasks ?w ! j) = page_directory (tasks s ! j) \<and> (state (tasks ?w ! j) = TASK_UNUSED \<longleftrightarrow> state (tasks s ! j) = TASK_UNUSED)" if "j < 8" for j
    using wake_sleepers_fields(11,12) [OF l(1), of j] that l(2) by (cases "j < task_count s") auto
  have f: "current_task ?w = current_task s" "cpu_esp ?w = cpu_esp s" "length (tasks ?w) = 8" using wake_sleepers_fields [OF l(1)] l(2) by auto
  from okt have "(\<forall>j < 8. j \<noteq> current_task s \<longrightarrow> state (tasks s ! j) \<noteq> TASK_UNUSED \<longrightarrow> keeps_context s (schedule ?t) j) \<and> saves_context s (schedule ?t)"
  proof (cases rule: schedule_cases)
    case stay
    then show ?thesis using wj f by (simp add: keeps_context_def saves_context_def)
  next
    case (switch w n)
    have n: "length (tasks w) = 8" "n < 8" "n \<noteq> current_task w" "current_task w < 8" using switch l f by (auto simp: yield_running_def)
    have c: "cpu_esp w = cpu_esp s" using switch(1) f by (simp add: yield_running_def)
    have e: "tasks w ! j = tasks ?w ! j" if "j \<noteq> current_task s" for j using that switch(1) f by (simp add: yield_running_def)
    show ?thesis using switch_context [OF n] e wj c switch(3,7) by (simp add: keeps_context_def saves_context_def)
  qed
  then show "j < 8 \<Longrightarrow> j \<noteq> current_task s \<Longrightarrow> state (tasks s ! j) \<noteq> TASK_UNUSED \<Longrightarrow> keeps_context s (pit_handler s) j" "saves_context s (pit_handler s)"
    unfolding pit_handler_def by auto
qed

lemma create_context:
  assumes ok: "sched_ok s" and c: "task_create s e l = Some (r, s')"
  shows "j < 8 \<Longrightarrow> j \<noteq> current_task s \<Longrightarrow> state (tasks s ! j) \<noteq> TASK_UNUSED \<Longrightarrow> keeps_context s s' j" "saves_context s s'"
proof -
  note h = task_create_shape [OF assms]
  show "saves_context s s'" using h(1) by (simp add: saves_context_def)
  assume j: "j < 8" "j \<noteq> current_task s" "state (tasks s ! j) \<noteq> TASK_UNUSED"
  then have "tasks s' ! j = tasks s ! j" using h(7) nth_list_update_neq by metis
  then show "keeps_context s s' j" using h(1) j by (simp add: keeps_context_def)
qed

text \<open>
  C25: the context of a task survives while others run. In every step of the kernel a task that
  exists and is not the current one keeps its saved stack pointer, its stack and its address space
  and is not removed; when the step makes it current, the processor's stack pointer is exactly the
  one it had saved. A switch saves the stack pointer of the task that was current.
\<close>

theorem context_survives:
  assumes "sched_ok s" and "kstep s s'" and "j < task_count s" and "j \<noteq> current_task s" and "state (tasks s ! j) \<noteq> TASK_UNUSED"
  shows "keeps_context s s' j \<and> saves_context s s'"
proof -
  have j: "j < 8" using assms(1,3) by (auto simp: sched_ok_def)
  from assms(2,1) j assms(4,5) show ?thesis
  proof (induction rule: kstep.induct)
    case (tick s) then show ?case using pit_context by simp
  next
    case (exit s) then show ?case using leave_context [of s] by (simp add: leave_forms)
  next
    case (sleep s ms) then show ?case using leave_context [of s] by (simp add: leave_forms)
  next
    case (wait s target s') then show ?case using wait_form [of s target s'] leave_context [of s] by simp
  next
    case (create s e l r s') then show ?case using create_context by blast
  next
    case (reap s) then show ?case using task_reap_shape [of s] by (simp add: keeps_context_def saves_context_def)
  next
    case (run s sp) then show ?case by (simp add: keeps_context_def saves_context_def)
  qed
qed

section \<open>Every ready task gets its turn\<close>

text \<open>How far a task is from its turn; a slot for a new task may put it back once.\<close>

definition turns :: "kernel \<Rightarrow> nat \<Rightarrow> nat" where
  "turns s j = (8 - task_count s) * 9 + dist (task_count s) (current_task s) j"

definition waiting :: "kernel \<Rightarrow> nat \<Rightarrow> bool" where
  "waiting s j \<longleftrightarrow> j < task_count s \<and> j \<noteq> current_task s \<and> state (tasks s ! j) = TASK_READY"

lemma runnable_other: "runnable (set_current s f) j = runnable s j" if "j \<noteq> current_task s"
  using that by (simp add: runnable_def)

lemma switch_turns:
  assumes "length (tasks s) = 8" "task_count s \<le> 8" "current_task s < task_count s" "waiting s j" "n = next_task_id s (current_task s)"
  shows "current_task (task_switch_to s n) = j \<or> waiting (task_switch_to s n) j \<and> turns (task_switch_to s n) j < turns s j"
proof -
  have w: "j < task_count s" "j \<noteq> current_task s" "state (tasks s ! j) = TASK_READY" using assms(4) by (auto simp: waiting_def)
  note nx = next_task_runnable [OF assms(3) w(1) _ w(2), folded assms(5)]
  have r: "runnable s j" using w(3) by (simp add: runnable_def)
  show ?thesis using nx [OF r] w assms(1,2) by (auto simp: waiting_def turns_def tasks_switch_to Let_def nth_list_update)
qed

lemma leave_turns:
  assumes ok: "sched_ok s" and w: "waiting s j"
  shows "current_task (leave s f) = j \<or> waiting (leave s f) j \<and> turns (leave s f) j \<le> turns s j"
proof -
  have "waiting (set_current s f) j" "turns (set_current s f) j = turns s j" using w by (simp_all add: waiting_def turns_def)
  then show ?thesis using switch_turns [of "set_current s f" j] ok unfolding leave_def Let_def by (auto simp: sched_ok_def)
qed

lemma tick_turns:
  assumes ok: "sched_ok s" and w: "waiting s j"
  shows "current_task (pit_handler s) = j \<or> waiting (pit_handler s) j \<and> turns (pit_handler s) j < turns s j"
proof -
  let ?t = "s\<lparr>tick_count := tick_count s + 1\<rparr>"
  let ?w = "wake_sleepers ?t (tick_count ?t)"
  have okt: "sched_ok ?t" using ok by (rule sched_ok_cong) simp_all
  have l: "task_count ?t \<le> length (tasks ?t)" "length (tasks s) = 8" "task_count s \<le> 8" "current_task s < task_count s" using okt ok by (auto simp: sched_ok_def)
  have j: "j < task_count s" "j \<noteq> current_task s" "state (tasks s ! j) = TASK_READY" using w by (auto simp: waiting_def)
  have f: "current_task ?w = current_task s" "task_count ?w = task_count s" "length (tasks ?w) = 8" using wake_sleepers_fields [OF l(1)] l(2) by auto
  have wj: "state (tasks ?w ! j) = TASK_READY" using wake_sleepers_fields(11) [OF l(1)] j by simp
  then have r: "runnable ?w j" by (simp add: runnable_def)
  note nx = next_task_runnable [of "current_task s" ?w j, unfolded f, OF l(4) j(1) r j(2)]
  from okt have "current_task (schedule ?t) = j \<or> waiting (schedule ?t) j \<and> turns (schedule ?t) j < turns s j"
  proof (cases rule: schedule_cases)
    case stay
    then show ?thesis using nx(3) j l(4) by simp
  next
    case (switch v n)
    have n: "n = next_task_id ?w (current_task s)" using switch(4) by simp
    have v: "task_count v = task_count s" "length (tasks v) = 8" "tasks v ! j = tasks ?w ! j" "current_task v = current_task s"
      using switch(1) f j(2) by (simp_all add: yield_running_def)
    show ?thesis using nx(4) n v wj j switch(7) l(3) by (auto simp: waiting_def turns_def tasks_switch_to Let_def nth_list_update)
  qed
  then show ?thesis by (simp add: pit_handler_def)
qed

lemma step_turns:
  assumes "kstep s s'" and "sched_ok s" and "waiting s j"
  shows "current_task s' = j \<or> waiting s' j \<and> turns s' j \<le> turns s j"
  using assms
proof (induction rule: kstep.induct)
  case (tick s) then show ?case using tick_turns [of s j] by auto
next
  case (exit s) then show ?case using leave_turns [of s j] by (simp add: leave_forms less_imp_le)
next
  case (sleep s ms) then show ?case using leave_turns [of s j] by (simp add: leave_forms less_imp_le)
next
  case (wait s target s') then show ?case using wait_form [of s target s'] leave_turns [of s j] by (simp add: less_imp_le)
next
  case (create s e l r s')
  note h = task_create_shape [OF create(2,1)]
  have j: "j < task_count s" "j \<noteq> current_task s" "state (tasks s ! j) = TASK_READY" using create by (auto simp: waiting_def)
  have "tasks s' ! j = tasks s ! j" using h(7) j(3) nth_list_update_neq task_state_t.distinct(1) by metis
  then have "waiting s' j" using j h(1,2) by (simp add: waiting_def)
  moreover have "turns s' j \<le> turns s j"
  proof (cases "task_count s' = task_count s")
    case False
    have "dist (task_count s') (current_task s') j < 8" using h(1-3) j(1) by (simp add: dist_def less_le_trans [OF mod_less_divisor])
    then show ?thesis using False h(2,3) by (simp add: turns_def)
  qed (use h(1) in \<open>simp add: turns_def\<close>)
  ultimately show ?case by blast
next
  case (reap s)
  then show ?case using task_reap_shape [of s] by (simp add: waiting_def turns_def)
next
  case (run s sp)
  then show ?case by (simp add: waiting_def turns_def)
qed

text \<open>
  C26: no task starves. In every run of the kernel - exits, sleeps, waits, creations and reaps in any
  order - in which the timer ticks again and again, a task that is ready becomes the current task.
\<close>

theorem every_ready_task_runs:
  assumes "sched_ok (\<sigma> 0)" and "\<forall>n. kstep (\<sigma> n) (\<sigma> (Suc n))" and "\<forall>n. \<exists>m \<ge> n. \<sigma> (Suc m) = pit_handler (\<sigma> m)"
    and "j < task_count (\<sigma> 0)" and "state (tasks (\<sigma> 0) ! j) = TASK_READY"
  shows "\<exists>n. current_task (\<sigma> n) = j"
proof (rule ccontr)
  assume "\<not> ?thesis"
  then have nj: "current_task (\<sigma> n) \<noteq> j" for n by blast
  have ok: "sched_ok (\<sigma> n)" for n by (induction n) (use assms(1,2) kstep_ok in blast)+
  have w: "waiting (\<sigma> n) j" for n
  proof (induction n)
    case 0
    then show ?case using assms(4,5) nj [of 0] by (auto simp: waiting_def)
  next
    case (Suc n)
    then show ?case using step_turns [OF _ ok Suc] assms(2) nj by blast
  qed
  have le: "turns (\<sigma> (Suc n)) j \<le> turns (\<sigma> n) j" for n using step_turns [OF _ ok w] assms(2) nj by blast
  have mono: "n \<le> m \<Longrightarrow> turns (\<sigma> m) j \<le> turns (\<sigma> n) j" for n m by (rule lift_Suc_antimono_le) (use le in blast)+
  have "\<exists>n. turns (\<sigma> n) j + k \<le> turns (\<sigma> 0) j" for k
  proof (induction k)
    case (Suc k)
    then obtain n where n: "turns (\<sigma> n) j + k \<le> turns (\<sigma> 0) j" by blast
    obtain m where m: "n \<le> m" "\<sigma> (Suc m) = pit_handler (\<sigma> m)" using assms(3) by blast
    have "turns (\<sigma> (Suc m)) j < turns (\<sigma> m) j" using tick_turns [OF ok w] nj m(2) by metis
    then have "turns (\<sigma> (Suc m)) j + Suc k \<le> turns (\<sigma> 0) j" using mono [OF m(1)] n by linarith
    then show ?case by blast
  qed auto
  then show False by (metis not_add_less2 not_less_eq_eq add.commute lessI le_add2 le_trans)
qed

section \<open>Sleeping\<close>

text \<open>Runs with their number of timer ticks.\<close>

inductive kruns :: "kernel \<Rightarrow> nat \<Rightarrow> kernel \<Rightarrow> bool" where
  refl: "kruns s 0 s"
| tick: "kruns s n t \<Longrightarrow> kruns s (Suc n) (pit_handler t)"
| other: "kruns s n t \<Longrightarrow> kstep t t' \<Longrightarrow> tick_count t' = tick_count t \<Longrightarrow> kruns s n t'"

lemma sint_nonneg_u32: "0 \<le> sint (w :: u32) \<longleftrightarrow> unat w < 2147483648"
proof -
  have "0 \<le> sint w \<longleftrightarrow> \<not> bit w 31" by (simp add: sint_uint bit_uint_iff)
  also have "bit w 31 \<longleftrightarrow> bit (unat w) 31" by (simp add: bit_unsigned_iff)
  also have "bit (unat w) 31 \<longleftrightarrow> odd (unat w div 2147483648)" by (simp add: bit_iff_odd)
  also have "(\<not> odd (unat w div 2147483648)) \<longleftrightarrow> even (unat w div 2147483648)" by simp
  also have "\<dots> \<longleftrightarrow> unat w < 2147483648"
  proof -
    have "unat w div 2147483648 < 2" using unat_less_u32 [of w] by (simp add: less_mult_imp_div_less)
    then show ?thesis by (cases "unat w < 2147483648") (auto simp: div_eq_0_iff less_2_cases_iff)
  qed
  finally show ?thesis .
qed

text \<open>The comparison of \<open>wake_sleepers\<close>: due or not, also across a wrap of the counter.\<close>

lemma wake_due:
  assumes "n \<le> t" "0 < t" "t < 2147483648"
  shows "0 \<le> sint ((c + of_nat n) - (c + of_nat t) :: u32) \<longleftrightarrow> n = t"
proof (cases "n = t")
  case False
  define k where "k = 4294967296 - (t - n)"
  have "(of_nat k :: u32) = of_nat 4294967296 - of_nat (t - n)" unfolding k_def using assms by (intro of_nat_diff) simp
  then have e: "(c + of_nat n) - (c + of_nat t) = (of_nat k :: u32)" using assms(1) by (simp add: of_nat_diff)
  have k: "unat (of_nat k :: u32) = k" "2147483648 \<le> k" unfolding k_def using assms False by (intro unat_of_nat_u32, simp_all)
  then show ?thesis unfolding e sint_nonneg_u32 k(1) using False by simp
qed simp

text \<open>A sleeping task as long as no tick comes, and when one comes.\<close>

definition asleep :: "kernel \<Rightarrow> nat \<Rightarrow> u32 \<Rightarrow> bool" where
  "asleep s j wake \<longleftrightarrow> j < task_count s \<and> j \<noteq> current_task s \<and> state (tasks s ! j) = TASK_SLEEPING \<and> wake_tick (tasks s ! j) = wake"

lemma asleep_leave:
  assumes ok: "sched_ok s" and c: "current_task s \<noteq> 0" and j: "asleep s j w"
  shows "asleep (leave s f) j w"
proof -
  let ?s = "set_current s f" and ?n = "next_task_id (set_current s f) (current_task s)"
  have j': "j < task_count s" "j \<noteq> current_task s" "state (tasks s ! j) = TASK_SLEEPING" "wake_tick (tasks s ! j) = w" using j by (auto simp: asleep_def)
  have "runnable ?s 0" using ok c by (simp add: sched_ok_def runnable_other)
  then have "runnable ?s ?n" using next_task_runnable(2) [of "current_task s" ?s 0] ok c by (auto simp: sched_ok_def)
  then have "?n \<noteq> j" using j' by (auto simp: runnable_def)
  then show ?thesis using j' by (simp add: asleep_def leave_def Let_def tasks_switch_to)
qed

lemma asleep_step:
  assumes "kstep s s'" "sched_ok s" "asleep s j w" "tick_count s' = tick_count s"
  shows "asleep s' j w"
  using assms
proof (induction rule: kstep.induct)
  case (tick s)
  have "tick_count (pit_handler s) = tick_count s + 1"
    using tick(1) unfolding pit_handler_def by (auto simp: schedule_def Let_def yield_running_def sched_ok_def)
  then show ?case using tick by simp
next
  case (exit s) then show ?case using asleep_leave [of s j w] by (simp add: leave_forms)
next
  case (sleep s ms) then show ?case using asleep_leave [of s j w] by (simp add: leave_forms)
next
  case (wait s target s') then show ?case using wait_form [of s target s'] asleep_leave [of s j w] by simp
next
  case (create s e l r s')
  note h = task_create_shape [OF create(2,1)]
  have "tasks s' ! j = tasks s ! j" using h(7) create(3) nth_list_update_neq task_state_t.distinct(5) unfolding asleep_def by metis
  then show ?case using create(3) h(1,2) by (simp add: asleep_def)
next
  case (reap s) then show ?case using task_reap_shape [of s] by (simp add: asleep_def)
next
  case (run s sp) then show ?case by (simp add: asleep_def)
qed

lemma asleep_tick:
  assumes ok: "sched_ok s" and j: "asleep s j w"
  shows "tick_count (pit_handler s) = tick_count s + 1"
    and "\<not> 0 \<le> sint (tick_count s + 1 - w) \<Longrightarrow> asleep (pit_handler s) j w" and "0 \<le> sint (tick_count s + 1 - w) \<Longrightarrow> runnable (pit_handler s) j"
proof -
  let ?t = "s\<lparr>tick_count := tick_count s + 1\<rparr>"
  let ?w = "wake_sleepers ?t (tick_count ?t)"
  have okt: "sched_ok ?t" using ok by (rule sched_ok_cong) simp_all
  have l: "task_count ?t \<le> length (tasks ?t)" "length (tasks s) = 8" "task_count s \<le> 8" using okt ok by (auto simp: sched_ok_def)
  have j': "j < task_count s" "j \<noteq> current_task s" "state (tasks s ! j) = TASK_SLEEPING" "wake_tick (tasks s ! j) = w" using j by (auto simp: asleep_def)
  note f = wake_sleepers_fields [OF l(1)]
  have wj: "tasks ?w ! j = wakes (tick_count s + 1) (tasks s ! j)" using f(11) j'(1) by simp
  from okt have "tick_count (schedule ?t) = tick_count s + 1 \<and> (\<not> 0 \<le> sint (tick_count s + 1 - w) \<longrightarrow> asleep (schedule ?t) j w) \<and>
      (0 \<le> sint (tick_count s + 1 - w) \<longrightarrow> runnable (schedule ?t) j)"
  proof (cases rule: schedule_cases)
    case stay
    then show ?thesis using f j' wj by (simp add: asleep_def runnable_def wakes_def)
  next
    case (switch v n)
    have v: "task_count v = task_count s" "length (tasks v) = 8" "tasks v ! j = tasks ?w ! j" "current_task v = current_task s" "tick_count v = tick_count s + 1"
      using switch(1) f j'(2) l(2) by (simp_all add: yield_running_def)
    have "runnable ?w n" using next_task_other [of ?w "current_task s"] switch(4,6) by simp
    then have "\<not> 0 \<le> sint (tick_count s + 1 - w) \<Longrightarrow> n \<noteq> j" using wj j' by (auto simp: runnable_def wakes_def)
    then show ?thesis using v wj j' switch(5,7) l
      by (auto simp: asleep_def runnable_def tasks_switch_to Let_def nth_list_update wakes_def)
  qed
  then show "tick_count (pit_handler s) = tick_count s + 1" "\<not> 0 \<le> sint (tick_count s + 1 - w) \<Longrightarrow> asleep (pit_handler s) j w"
    "0 \<le> sint (tick_count s + 1 - w) \<Longrightarrow> runnable (pit_handler s) j" by (simp_all add: pit_handler_def)
qed

lemma asleep_runs:
  assumes "kruns s n s'" "sched_ok s" "asleep s j (tick_count s + of_nat t)" "n < t" "t < 2147483648"
  shows "sched_ok s' \<and> asleep s' j (tick_count s + of_nat t) \<and> tick_count s' = tick_count s + of_nat n"
  using assms
proof (induction rule: kruns.induct)
  case (tick s n u)
  have ih: "sched_ok u" "asleep u j (tick_count s + of_nat t)" "tick_count u = tick_count s + of_nat n" using tick by auto
  have "\<not> 0 \<le> sint (tick_count u + 1 - (tick_count s + of_nat t))"
    using wake_due [of "Suc n" t "tick_count s"] tick.prems(3,4) ih(3) by (simp add: ac_simps)
  then show ?case using asleep_tick [OF ih(1,2)] pit_handler_ok [OF ih(1)] ih(3) by simp
next
  case (other s n u u')
  then show ?case using asleep_step kstep_ok by metis
qed simp

text \<open>
  \<open>task_sleep\<close> and the tick counter. A task that sleeps for \<open>t\<close> ticks stays asleep, whatever
  else the kernel does, until the timer has ticked \<open>t\<close> times, and the \<open>t\<close>-th tick makes it runnable;
  also when the 32-bit counter wraps around in between.
\<close>

theorem sleep_wakes_on_time:
  assumes "sched_ok s" and "current_task s \<noteq> 0" and "t = unat (sleep_ticks s ms)" and "t < 2147483648"
    and "kruns (task_sleep s ms) n s'" and "n < t"
  shows "state (tasks s' ! current_task s) = TASK_SLEEPING \<and> current_task s' \<noteq> current_task s \<and>
    (Suc n = t \<longrightarrow> runnable (pit_handler s') (current_task s))"
proof -
  let ?f = "\<lambda>u. u\<lparr>wake_tick := tick_count s + sleep_ticks s ms, state := TASK_SLEEPING\<rparr>"
  have l: "current_task s < 8" "length (tasks s) = 8" "current_task s < task_count s" using assms(1) by (auto simp: sched_ok_def)
  have ok: "sched_ok (task_sleep s ms)" using leave_ok [of s ?f] assms(1,2) by (simp add: leave_forms)
  have n: "next_task_id (set_current s ?f) (current_task s) \<noteq> current_task s"
    using switch_next [of "set_current s ?f"] leave_switch_ok [of s ?f] assms(1,2) by simp
  have st: "sleep_ticks s ms = of_nat t" using assms(3) by simp
  have "asleep (task_sleep s ms) (current_task s) (tick_count (task_sleep s ms) + of_nat t)"
    using n l by (simp add: leave_forms leave_def Let_def asleep_def tasks_switch_to st)
  then have r: "sched_ok s'" "asleep s' (current_task s) (tick_count (task_sleep s ms) + of_nat t)" "tick_count s' = tick_count (task_sleep s ms) + of_nat n"
    using asleep_runs [OF assms(5) ok] assms(4,6) by auto
  have "runnable (pit_handler s') (current_task s)" if "Suc n = t"
    using asleep_tick(3) [OF r(1,2)] r(3) by (simp add: that [symmetric] ac_simps)
  then show ?thesis using r(2) by (simp add: asleep_def)
qed

section \<open>Examples\<close>

text \<open>Three tasks of a machine at its last tick before the counter wraps; task 1 is running.\<close>

definition task0 :: task where
  "task0 = \<lparr>esp = 0, stack_base = 0, state = TASK_UNUSED, task_id = 0, wake_tick = 0, page_directory = 0\<rparr>"

definition kernel0 :: kernel where
  "kernel0 = \<lparr>tasks = replicate 8 task0, current_task = 0, task_count = 0, heap = \<lparr>kheap.mem = (\<lambda>_. 0), heap_start = 0, heap_ready = False\<rparr>,
     pg = \<lparr>pm = \<lparr>frame_bitmap = replicate 32768 0, total_frames = 0, used_frames = 0\<rparr>, paging.mem = (\<lambda>_. 0), kdir = 0x100000, kpt = 0x101000, cr3 = 0x100000\<rparr>,
     fs = \<lparr>fs_disk = \<lparr>sectors = (\<lambda>_. []), rd_bad = (\<lambda>_. False), wr_bad = (\<lambda>_. False)\<rparr>,
       fs_lay = \<lparr>fat_start_lba = 0, root_dir_start_lba = 0, root_dir_sectors = 0, data_start_lba = 0, root_entry_count = 0, sectors_per_cluster = 0, num_fats = 0,
         fat_size_sectors = 0, fat_ready = False\<rparr>,
       fs_lfn = \<lparr>lfn_buffer = [], lfn_has_data = False, lfn_checksum = 0, lfn_checksum_valid = False\<rparr>, open_files = []\<rparr>,
     tss_esp0 = 0, cpu_esp = 0x9000, tick_count = 0xFFFFFFFF, configured_frequency = 100\<rparr>"

definition kernel3 :: kernel where
  "kernel3 = kernel0\<lparr>tasks := [task0\<lparr>state := TASK_READY\<rparr>, task0\<lparr>state := TASK_RUNNING\<rparr>, task0\<lparr>state := TASK_READY, esp := 0x5000\<rparr>] @ replicate 5 task0,
     current_task := 1, task_count := 3\<rparr>"

lemma less_8_cases: "i < 8 \<Longrightarrow> i = 0 \<or> i = 1 \<or> i = 2 \<or> i = 3 \<or> i = 4 \<or> i = 5 \<or> i = 6 \<or> i = (7 :: nat)"
  by arith

lemma kernel3_ok: "sched_ok kernel3"
proof -
  have st: "state (tasks kernel3 ! i) = (if i = 1 then TASK_RUNNING else if i = 0 \<or> i = 2 then TASK_READY else TASK_UNUSED)" if "i < 8" for i
    using less_8_cases [OF that] by (elim disjE) (simp_all add: kernel3_def kernel0_def task0_def)
  have "runnable kernel3 0" using st [of 0] by (simp add: runnable_def)
  then show ?thesis using st unfolding sched_ok_def by (simp add: Let_def) (simp add: kernel3_def kernel0_def task0_def)
qed

theorem one_task_runs_witness: "current_task (tasking_init kernel0) = 0 \<and> state (tasks (tasking_init kernel0) ! 0) = TASK_RUNNING"
proof -
  have "kreach (tasking_init kernel0)" by (rule kreach.boot) (simp_all add: kernel0_def)
  from one_task_runs [OF this] show ?thesis by (simp add: tasking_init_def kernel0_def Let_def)
qed

theorem context_survives_witness: "keeps_context kernel3 (task_exit kernel3) 2 \<and> saves_context kernel3 (task_exit kernel3)"
proof -
  have "kstep kernel3 (task_exit kernel3)" by (rule kstep.exit) (simp add: kernel3_def)
  then show ?thesis by (rule context_survives [OF kernel3_ok]) (simp_all add: kernel3_def task0_def)
qed

theorem every_ready_task_runs_witness: "\<exists>n. current_task ((pit_handler ^^ n) kernel3) = 2"
proof (rule every_ready_task_runs)
  show "sched_ok ((pit_handler ^^ 0) kernel3)" using kernel3_ok by simp
  show "\<forall>n. kstep ((pit_handler ^^ n) kernel3) ((pit_handler ^^ Suc n) kernel3)" by (simp add: kstep.tick)
  show "\<forall>n. \<exists>m \<ge> n. (pit_handler ^^ Suc m) kernel3 = pit_handler ((pit_handler ^^ m) kernel3)" by auto
qed (simp_all add: kernel3_def task0_def)

theorem sleep_wakes_on_time_witness:
  "unat (sleep_ticks kernel3 20) = 2 \<and> state (tasks (pit_handler (task_sleep kernel3 20)) ! 1) = TASK_SLEEPING \<and>
   runnable (pit_handler (pit_handler (task_sleep kernel3 20))) 1"
proof -
  have t: "unat (sleep_ticks kernel3 20) = 2" by (simp add: sleep_ticks_def pit_get_frequency_def kernel3_def kernel0_def)
  have k: "kruns (task_sleep kernel3 20) 1 (pit_handler (task_sleep kernel3 20))"
    using kruns.tick [OF kruns.refl, of "task_sleep kernel3 20"] by simp
  have c: "current_task kernel3 = 1" by (simp add: kernel3_def)
  show ?thesis using sleep_wakes_on_time [OF kernel3_ok _ _ _ k, of 2] t c by simp
qed

end
