(* ===== verification/Paging_Spec.thy ===== *)
theory Paging_Spec
  imports Paging
begin

unbundle bit_operations_syntax

text \<open>
  What the page tables mean: the pages that a program in ring 3 can reach through a directory, as
  a map from page numbers to frames, and the ledger of the frames that the address spaces own.
  Creating a table leaves every program's view as it is, mapping a page changes it at that page
  alone, no frame is in two views and no view holds a table, and tearing a directory down gives
  exactly its frames back.
\<close>

section \<open>Views\<close>

definition user_map :: "paging \<Rightarrow> u32 \<Rightarrow> nat \<Rightarrow> u32 option" where
  "user_map s dir p =
     (let e = mem s (slot dir (p div 1024)); t = mem s (slot (page_base e) (p mod 1024)) in
      if e AND PAGE_PRESENT \<noteq> 0 \<and> e AND PAGE_USER \<noteq> 0 \<and> t AND PAGE_PRESENT \<noteq> 0 \<and> t AND PAGE_USER \<noteq> 0
      then Some (page_base t) else None)"

definition kernel_map :: "paging \<Rightarrow> u32 \<Rightarrow> nat \<Rightarrow> u32 option" where
  "kernel_map s dir p =
     (let e = mem s (slot dir (p div 1024)); t = mem s (slot (page_base e) (p mod 1024)) in
      if e AND PAGE_PRESENT \<noteq> 0 \<and> t AND PAGE_PRESENT \<noteq> 0 then Some (page_base t) else None)"

text \<open>The frames a directory owns: its private tables and the pages in them that are not the kernel's.\<close>

definition private_table :: "paging \<Rightarrow> u32 \<Rightarrow> nat \<Rightarrow> bool" where
  "private_table s d i \<longleftrightarrow> mem s (slot d i) AND PAGE_PRESENT \<noteq> 0 \<and> page_base (mem s (slot d i)) \<noteq> kpt s"

definition table_at :: "paging \<Rightarrow> u32 \<Rightarrow> nat \<Rightarrow> u32" where
  "table_at s d i = page_base (mem s (slot d i))"

definition own_page :: "paging \<Rightarrow> u32 \<Rightarrow> nat \<Rightarrow> bool" where
  "own_page s t j \<longleftrightarrow> mem s (slot t j) AND PAGE_PRESENT \<noteq> 0 \<and> mem s (slot t j) \<noteq> mem s (slot (kpt s) j)"

definition pages_of :: "paging \<Rightarrow> u32 \<Rightarrow> u32 multiset" where
  "pages_of s t = (\<Sum>j<1024. if own_page s t j then {#page_base (mem s (slot t j))#} else {#})"

definition owned :: "paging \<Rightarrow> u32 \<Rightarrow> u32 multiset" where
  "owned s d = (\<Sum>i<1024. if private_table s d i then add_mset (table_at s d i) (pages_of s (table_at s d i)) else {#})"

definition ledger :: "paging \<Rightarrow> u32 set \<Rightarrow> u32 multiset" where
  "ledger s D = (\<Sum>d\<in>D. add_mset d (owned s d))"

definition uniq :: "'a multiset \<Rightarrow> bool" where
  "uniq M \<longleftrightarrow> (\<forall>x. count M x \<le> 1)"

text \<open>The kernel's own tables, as \<open>paging_init\<close> leaves them.\<close>

definition kernel_tables :: "paging \<Rightarrow> bool" where
  "kernel_tables s \<longleftrightarrow> aligned (kdir s) \<and> aligned (kpt s) \<and> kdir s \<noteq> kpt s \<and>
     (\<forall>i < 1024. mem s (slot (kpt s) i) = kernel_entry i) \<and>
     (\<forall>i < 1024. mem s (slot (kdir s) i) = (if i = 0 then user_entry (kpt s) else 0))"

definition entry_ok :: "paging \<Rightarrow> u32 \<Rightarrow> nat \<Rightarrow> bool" where
  "entry_ok s d i \<longleftrightarrow> mem s (slot d i) = 0 \<or> mem s (slot d i) = user_entry (kpt s) \<or>
     private_table s d i \<and> mem s (slot d i) = user_entry (table_at s d i) \<and>
     (\<forall>j < 1024. mem s (slot (table_at s d i) j) = kernel_entry j \<or>
        mem s (slot (table_at s d i) j) = user_entry (page_base (mem s (slot (table_at s d i) j))))"

definition dir_ok :: "paging \<Rightarrow> u32 \<Rightarrow> bool" where
  "dir_ok s d \<longleftrightarrow> (\<forall>i < 1024. entry_ok s d i)"

definition paging_wf :: "paging \<Rightarrow> u32 set \<Rightarrow> bool" where
  "paging_wf s D \<longleftrightarrow> pmm_wf (pm s) \<and> finite D \<and> kernel_tables s \<and> (\<forall>d \<in> D. dir_ok s d) \<and>
     kdir s \<notin> pmm_avail (pm s) \<and> kpt s \<notin> pmm_avail (pm s) \<and>
     uniq (ledger s D) \<and> size (ledger s D) \<le> unat (used_frames (pm s)) \<and>
     (\<forall>x \<in># ledger s D. frame_addr x \<and> x \<notin> pmm_avail (pm s) \<and> x \<noteq> kdir s \<and> x \<noteq> kpt s)"

section \<open>Ledgers\<close>

lemma sum_one_subset:
  assumes "finite I" "i \<in> I"
  shows "(f i :: 'a multiset) \<subseteq># sum f I"
  using assms by (simp add: sum.remove)

lemma sum_two_subset:
  assumes "finite I" "i \<in> I" "j \<in> I" "i \<noteq> j"
  shows "(f i + f j :: 'a multiset) \<subseteq># sum f I"
proof -
  have "sum f I = f i + (f j + sum f (I - {i} - {j}))" using assms by (simp add: sum.remove [of I i] sum.remove [of "I - {i}" j])
  then show ?thesis by (simp add: add.assoc)
qed

lemma sum_change:
  assumes "finite I" "i \<in> I" "\<And>j. j \<in> I \<Longrightarrow> j \<noteq> i \<Longrightarrow> g j = f j" "g i + b = f i + (a :: 'a multiset)"
  shows "sum g I + b = sum f I + a"
proof -
  have "sum g (I - {i}) = sum f (I - {i})" using assms(3) by (intro sum.cong) auto
  then show ?thesis using assms(1,2,4) by (simp add: sum.remove [of I i] ac_simps)
qed

lemma uniq_mono: "uniq B \<Longrightarrow> A \<subseteq># B \<Longrightarrow> uniq A"
  unfolding uniq_def by (meson le_trans mset_subset_eq_count)

lemma uniq_disjoint: "uniq (A + B) \<Longrightarrow> x \<in># A \<Longrightarrow> y \<in># B \<Longrightarrow> x \<noteq> y"
proof
  assume "uniq (A + B)" "x \<in># A" "y \<in># B" "x = y"
  then have "count A x + count B x \<le> 1" "1 \<le> count A x" "1 \<le> count B x" unfolding uniq_def by (auto simp: Suc_le_eq)
  then show False by linarith
qed

lemma uniq_add_mset: "uniq (add_mset x A) \<longleftrightarrow> uniq A \<and> x \<notin># A"
proof
  assume u: "uniq (add_mset x A)"
  then have "count A x = 0" unfolding uniq_def by (metis One_nat_def Suc_le_mono count_add_mset le_zero_eq)
  then show "uniq A \<and> x \<notin># A" using uniq_mono [OF u, of A] by (simp add: not_in_iff)
next
  assume "uniq A \<and> x \<notin># A"
  then show "uniq (add_mset x A)" unfolding uniq_def not_in_iff by simp
qed

lemma in_owned:
  "x \<in># owned s d \<longleftrightarrow> (\<exists>i < 1024. private_table s d i \<and> (x = table_at s d i \<or> x \<in># pages_of s (table_at s d i)))"
  unfolding owned_def by (auto simp: set_mset_sum split: if_splits)

lemma in_pages_of:
  "x \<in># pages_of s t \<longleftrightarrow> (\<exists>j < 1024. own_page s t j \<and> x = page_base (mem s (slot t j)))"
  unfolding pages_of_def by (auto simp: set_mset_sum split: if_splits)

lemma in_ledger: "finite D \<Longrightarrow> x \<in># ledger s D \<longleftrightarrow> (\<exists>d \<in> D. x = d \<or> x \<in># owned s d)"
  unfolding ledger_def by (auto simp: set_mset_sum)

section \<open>Changing one table\<close>

lemma aligned_cleared [simp]: "aligned (page_base a)"
  by (simp add: aligned_and page_base_def and.assoc)

lemma aligned_table_at [simp]: "aligned (table_at s d i)"
  by (simp add: table_at_def)

definition only_at :: "paging \<Rightarrow> paging \<Rightarrow> u32 \<Rightarrow> bool" where
  "only_at s s' z \<longleftrightarrow> kpt s' = kpt s \<and> kdir s' = kdir s \<and>
     (\<forall>a j. aligned a \<longrightarrow> a \<noteq> z \<longrightarrow> j < 1024 \<longrightarrow> mem s' (slot a j) = mem s (slot a j))"

lemma only_at_slot: "only_at s s' z \<Longrightarrow> aligned a \<Longrightarrow> a \<noteq> z \<Longrightarrow> j < 1024 \<Longrightarrow> mem s' (slot a j) = mem s (slot a j)"
  by (simp add: only_at_def)

lemma only_at_kpt: "only_at s s' z \<Longrightarrow> kpt s' = kpt s \<and> kdir s' = kdir s"
  by (simp add: only_at_def)

lemma only_at_upd: "aligned z \<Longrightarrow> i < 1024 \<Longrightarrow> only_at s (s\<lparr>mem := (mem s)(slot z i := v)\<rparr>) z"
  by (simp add: only_at_def)

lemma pages_of_only_at:
  assumes "only_at s s' z" "aligned (kpt s)" "kpt s \<noteq> z" "aligned t" "t \<noteq> z"
  shows "pages_of s' t = pages_of s t"
  unfolding pages_of_def using assms by (intro sum.cong) (simp_all add: own_page_def only_at_slot only_at_kpt)

lemma private_only_at:
  assumes "only_at s s' z" "aligned d" "d \<noteq> z" "i < 1024"
  shows "private_table s' d i = private_table s d i" and "table_at s' d i = table_at s d i"
  using assms by (simp_all add: private_table_def table_at_def only_at_slot only_at_kpt)

lemma owned_only_at:
  assumes o: "only_at s s' z" and k: "aligned (kpt s)" "kpt s \<noteq> z" and d: "aligned d" "d \<noteq> z" "z \<notin># owned s d"
  shows "owned s' d = owned s d"
  unfolding owned_def
proof (intro sum.cong refl)
  fix i :: nat assume i: "i \<in> {..<1024}"
  then have "private_table s d i \<Longrightarrow> pages_of s' (table_at s d i) = pages_of s (table_at s d i)"
    using d(3) by (intro pages_of_only_at [OF o k]) (auto simp: in_owned)
  then show "(if private_table s' d i then add_mset (table_at s' d i) (pages_of s' (table_at s' d i)) else {#}) =
      (if private_table s d i then add_mset (table_at s d i) (pages_of s (table_at s d i)) else {#})"
    using i private_only_at [OF o d(1,2)] by simp
qed

lemma entry_ok_cong:
  assumes "mem s' (slot d i) = mem s (slot d i)" "kpt s' = kpt s" "entry_ok s d i"
    "\<And>j. private_table s d i \<Longrightarrow> j < 1024 \<Longrightarrow> mem s' (slot (table_at s d i) j) = mem s (slot (table_at s d i) j)"
  shows "entry_ok s' d i"
proof -
  have "private_table s' d i = private_table s d i" "table_at s' d i = table_at s d i" using assms(1,2) by (simp_all add: private_table_def table_at_def)
  then show ?thesis using assms(3,4) unfolding entry_ok_def assms(1,2) by metis
qed

lemma dir_ok_only_at:
  assumes o: "only_at s s' z" and k: "aligned (kpt s)" "kpt s \<noteq> z" and d: "aligned d" "d \<noteq> z" "z \<notin># owned s d" and ok: "dir_ok s d"
  shows "dir_ok s' d"
  unfolding dir_ok_def
proof (intro allI impI)
  fix i :: nat assume i: "i < 1024"
  have "private_table s d i \<Longrightarrow> j < 1024 \<Longrightarrow> mem s' (slot (table_at s d i) j) = mem s (slot (table_at s d i) j)" for j
    using d(3) i by (intro only_at_slot [OF o]) (auto simp: in_owned)
  then show "entry_ok s' d i" using ok i only_at_slot [OF o d(1,2) i] only_at_kpt [OF o] by (intro entry_ok_cong [of s' d i s]) (simp_all add: dir_ok_def)
qed

lemma page_index: "p < 1048576 \<Longrightarrow> p div 1024 < 1024" "p mod 1024 < (1024 :: nat)"
  by (simp_all add: less_mult_imp_div_less)

lemma user_map_only_at:
  assumes o: "only_at s s' z" and k: "aligned (kpt s)" "kpt s \<noteq> z" and d: "aligned d" "d \<noteq> z" "z \<notin># owned s d" and p: "p < 1048576"
  shows "user_map s' d p = user_map s d p"
proof -
  let ?i = "p div 1024" and ?j = "p mod 1024"
  have m: "mem s' (slot d ?i) = mem s (slot d ?i)" using only_at_slot [OF o d(1,2) page_index(1) [OF p]] .
  have "table_at s d ?i \<noteq> z" if "mem s (slot d ?i) AND PAGE_PRESENT \<noteq> 0"
    using that k(2) d(3) page_index(1) [OF p] by (cases "table_at s d ?i = kpt s") (auto simp: in_owned private_table_def table_at_def)
  then have "mem s (slot d ?i) AND PAGE_PRESENT \<noteq> 0 \<Longrightarrow> mem s' (slot (table_at s d ?i) ?j) = mem s (slot (table_at s d ?i) ?j)"
    using only_at_slot [OF o aligned_table_at _ page_index(2)] by blast
  then show ?thesis unfolding user_map_def Let_def m by (auto simp: table_at_def)
qed

section \<open>Operations\<close>

lemma view_pm [simp]:
  "user_map (s\<lparr>pm := p\<rparr>) = user_map s" "owned (s\<lparr>pm := p\<rparr>) = owned s" "dir_ok (s\<lparr>pm := p\<rparr>) = dir_ok s"
  "ledger (s\<lparr>pm := p\<rparr>) = ledger s" "kernel_tables (s\<lparr>pm := p\<rparr>) = kernel_tables s"
proof -
  have t: "private_table (s\<lparr>pm := p\<rparr>) = private_table s" "table_at (s\<lparr>pm := p\<rparr>) = table_at s" "own_page (s\<lparr>pm := p\<rparr>) = own_page s"
    by (simp_all add: private_table_def table_at_def own_page_def fun_eq_iff)
  have g: "pages_of (s\<lparr>pm := p\<rparr>) = pages_of s" by (simp add: pages_of_def t fun_eq_iff cong: if_cong)
  show o: "owned (s\<lparr>pm := p\<rparr>) = owned s" by (simp add: owned_def t g fun_eq_iff cong: if_cong)
  show "user_map (s\<lparr>pm := p\<rparr>) = user_map s" by (simp add: user_map_def fun_eq_iff)
  show "dir_ok (s\<lparr>pm := p\<rparr>) = dir_ok s" by (simp add: dir_ok_def entry_ok_def t fun_eq_iff)
  show "ledger (s\<lparr>pm := p\<rparr>) = ledger s" by (simp add: ledger_def o fun_eq_iff)
  show "kernel_tables (s\<lparr>pm := p\<rparr>) = kernel_tables s" by (simp add: kernel_tables_def)
qed

lemma paging_wf_pm:
  "paging_wf s D \<Longrightarrow> pmm_wf p \<Longrightarrow> pmm_avail p = pmm_avail (pm s) \<Longrightarrow> used_frames p = used_frames (pm s) \<Longrightarrow> paging_wf (s\<lparr>pm := p\<rparr>) D"
  by (simp add: paging_wf_def)

lemma paging_wf_cr3: "paging_wf (s\<lparr>cr3 := c\<rparr>) D = paging_wf s D"
proof -
  have t: "private_table (s\<lparr>cr3 := c\<rparr>) = private_table s" "table_at (s\<lparr>cr3 := c\<rparr>) = table_at s" "own_page (s\<lparr>cr3 := c\<rparr>) = own_page s"
    by (simp_all add: private_table_def table_at_def own_page_def fun_eq_iff)
  have g: "pages_of (s\<lparr>cr3 := c\<rparr>) = pages_of s" by (simp add: pages_of_def t fun_eq_iff cong: if_cong)
  have o: "owned (s\<lparr>cr3 := c\<rparr>) = owned s" by (simp add: owned_def t g fun_eq_iff cong: if_cong)
  have "dir_ok (s\<lparr>cr3 := c\<rparr>) = dir_ok s" by (simp add: dir_ok_def entry_ok_def t fun_eq_iff)
  moreover have "ledger (s\<lparr>cr3 := c\<rparr>) = ledger s" by (simp add: ledger_def o fun_eq_iff)
  moreover have "kernel_tables (s\<lparr>cr3 := c\<rparr>) = kernel_tables s" by (simp add: kernel_tables_def)
  ultimately show ?thesis by (simp add: paging_wf_def)
qed

lemma paging_wf_dir: "paging_wf s D \<Longrightarrow> d \<in> D \<Longrightarrow> x = d \<or> x \<in># owned s d \<Longrightarrow> frame_addr x \<and> x \<notin> pmm_avail (pm s) \<and> x \<noteq> kdir s \<and> x \<noteq> kpt s"
  unfolding paging_wf_def using in_ledger [of D x s] by blast

lemma paging_wf_aligned:
  assumes "paging_wf s D"
  shows "aligned (kdir s)" "aligned (kpt s)" "kdir s \<noteq> kpt s" "d \<in> D \<Longrightarrow> aligned d" "d \<in> D \<Longrightarrow> d \<noteq> kpt s \<and> d \<noteq> kdir s"
  using assms paging_wf_dir [OF assms, of d d] by (auto simp: paging_wf_def kernel_tables_def intro: aligned_frame)

lemma ledger_disjoint:
  assumes "paging_wf s D" "d \<in> D" "d' \<in> D" "d \<noteq> d'" "x = d \<or> x \<in># owned s d"
  shows "x \<noteq> d'" "x \<notin># owned s d'"
proof -
  have "uniq (add_mset d (owned s d) + add_mset d' (owned s d'))"
    using assms(1-4) uniq_mono sum_two_subset [of D d d' "\<lambda>d. add_mset d (owned s d)"] unfolding paging_wf_def ledger_def by blast
  then show "x \<noteq> d'" "x \<notin># owned s d'" using uniq_disjoint [of "add_mset d (owned s d)" "add_mset d' (owned s d')" x] assms(5) by auto
qed

lemma ledger_not_own: "paging_wf s D \<Longrightarrow> d \<in> D \<Longrightarrow> d \<notin># owned s d"
proof -
  assume h: "paging_wf s D" "d \<in> D"
  then have "add_mset d (owned s d) \<subseteq># ledger s D"
    unfolding ledger_def by (intro sum_one_subset [of D d "\<lambda>d. add_mset d (owned s d)"]) (simp_all add: paging_wf_def)
  then show "d \<notin># owned s d" using h(1) uniq_mono unfolding paging_wf_def uniq_add_mset [symmetric] by (metis uniq_add_mset)
qed

lemma kernel_tables_only_at: "only_at s s' z \<Longrightarrow> kernel_tables s \<Longrightarrow> z \<noteq> kdir s \<Longrightarrow> z \<noteq> kpt s \<Longrightarrow> kernel_tables s'"
  using only_at_slot [of s s' z "kdir s"] only_at_slot [of s s' z "kpt s"] only_at_kpt [of s s' z]
  unfolding kernel_tables_def by auto

text \<open>A frame taken for a table: the kernel's entries copied to a place that nobody has in use.\<close>

lemma paging_copy_frame_cases:
  assumes wf: "paging_wf s D" and src: "src = kdir s \<or> src = kpt s"
  obtains (none) p where "paging_copy_frame s src = Some (0, s\<lparr>pm := p\<rparr>)" "paging_wf (s\<lparr>pm := p\<rparr>) D" "pmm_avail p = pmm_avail (pm s)"
    | (frame) a s' where "paging_copy_frame s src = Some (a, s')" "a \<noteq> 0" "a < 0x400000" "frame_addr a" "a \<in> pmm_avail (pm s)"
        "pmm_wf (pm s')" "pmm_avail (pm s') = pmm_avail (pm s) - {a}" "unat (used_frames (pm s')) = Suc (unat (used_frames (pm s)))"
        "only_at s s' a" "\<forall>i < 1024. mem s' (slot a i) = mem s (slot src i)"
proof -
  have pw: "pmm_wf (pm s)" using wf by (simp add: paging_wf_def)
  show ?thesis using pw
  proof (cases rule: pmm_pool.alloc_cases)
    case (frame a p)
    note f = this
    have fa: "frame_addr a" using pmm_pool.avail_valid [OF pw f(4)] by simp
    have ne: "a \<noteq> src" using src f(4) wf by (auto simp: paging_wf_def)
    show ?thesis
    proof (cases "a < 0x400000")
      case True
      let ?s = "s\<lparr>pm := p, mem := fill_table (mem s) a (\<lambda>m i. m (slot src i))\<rparr>"
      have al: "aligned a" "aligned src" using fa src paging_wf_aligned [OF wf] by (auto intro: aligned_frame)
      have m: "mem ?s = fill_table (mem s) a (\<lambda>_ i. mem s (slot src i))" using fill_table_copy [OF al ne] by simp
      have "only_at s ?s a" unfolding only_at_def m using al(1) by (auto intro!: fill_table_other)
      moreover have "\<forall>i < 1024. mem ?s (slot a i) = mem s (slot src i)" unfolding m using fill_table_at [OF al(1)] by simp
      moreover have "paging_copy_frame s src = Some (a, ?s)" using f True by (simp add: paging_copy_frame_def)
      ultimately show ?thesis using that(2) [of a ?s] f fa True by simp
    next
      case False
      have "paging_copy_frame s src = Some (0, s\<lparr>pm := pmm_free_frame p a\<rparr>)" using f False by (simp add: paging_copy_frame_def)
      moreover have "pmm_wf (pmm_free_frame p a)" "pmm_avail (pmm_free_frame p a) = pmm_avail (pm s)"
        "used_frames (pmm_free_frame p a) = used_frames (pm s)"
        using pmm_pool.release_alloc [OF pw f(1,2)] by (auto simp: word_unat_eq_iff)
      ultimately show ?thesis using that(1) paging_wf_pm [OF wf] by blast
    qed
  next
    case none
    then have "paging_copy_frame s src = Some (0, s\<lparr>pm := pm s\<rparr>)" by (simp add: paging_copy_frame_def)
    then show ?thesis by (rule that(1)) (use wf in simp_all)
  qed
qed

text \<open>Writing to a frame that nobody has in use changes no view and no ledger.\<close>

lemma fresh_frame_keeps:
  assumes wf: "paging_wf s D" and a: "a \<in> pmm_avail (pm s)" and o: "only_at s s' a" and d: "d \<in> D"
  shows "owned s' d = owned s d" "dir_ok s' d" "p < 1048576 \<Longrightarrow> user_map s' d p = user_map s d p"
proof -
  have l: "kpt s \<noteq> a" "dir_ok s d" using wf a d by (auto simp: paging_wf_def)
  have n: "d \<noteq> a" "a \<notin># owned s d" using paging_wf_dir [OF wf d] a by auto
  note c = o paging_wf_aligned(2) [OF wf] l(1) paging_wf_aligned(4) [OF wf d] n
  show "owned s' d = owned s d" "dir_ok s' d" "p < 1048576 \<Longrightarrow> user_map s' d p = user_map s d p"
    using owned_only_at [OF c] dir_ok_only_at [OF c l(2)] user_map_only_at [OF c] by auto
qed

text \<open>A frame that is allocated but not yet entered in the ledger.\<close>

definition unlisted :: "paging \<Rightarrow> u32 set \<Rightarrow> u32 \<Rightarrow> bool" where
  "unlisted s D f \<longleftrightarrow> frame_addr f \<and> f \<notin> pmm_avail (pm s) \<and> f \<notin># ledger s D \<and> f \<noteq> kdir s \<and> f \<noteq> kpt s \<and>
     size (ledger s D) < unat (used_frames (pm s))"

lemma fresh_wf:
  assumes wf: "paging_wf s D" and a: "a \<in> pmm_avail (pm s)" and o: "only_at s s' a"
    and p: "pmm_wf (pm s')" "pmm_avail (pm s') = pmm_avail (pm s) - {a}" "unat (used_frames (pm s')) = Suc (unat (used_frames (pm s)))"
  shows "paging_wf s' D" "unlisted s' D a" "ledger s' D = ledger s D"
proof -
  note k = fresh_frame_keeps [OF wf a o] and e = only_at_kpt [OF o]
  have na: "a \<noteq> kdir s" "a \<noteq> kpt s" "a \<notin># ledger s D" using wf a by (auto simp: paging_wf_def)
  show l: "ledger s' D = ledger s D" unfolding ledger_def by (intro sum.cong) (simp_all add: k(1))
  have kt: "kernel_tables s'" using kernel_tables_only_at [OF o _ na(1,2)] wf by (simp add: paging_wf_def)
  show "paging_wf s' D" using wf kt k(2) p unfolding paging_wf_def l by (simp add: e)
  have "frame_addr a" using pmm_pool.avail_valid [OF _ a] wf by (simp add: paging_wf_def)
  then show "unlisted s' D a" using wf p na unfolding unlisted_def l paging_wf_def by (simp add: e)
qed

lemma ledger_change:
  assumes "finite D" "d \<in> D" "\<And>d'. d' \<in> D \<Longrightarrow> d' \<noteq> d \<Longrightarrow> owned s' d' = owned s d'" "owned s' d + b = owned s d + c"
  shows "ledger s' D + b = ledger s D + c"
  unfolding ledger_def using assms by (intro sum_change [of D d]) simp_all

lemma wf_change:
  assumes wf: "paging_wf s D" and d: "d \<in> D" and z: "z = d \<or> z \<in># owned s d"
    and o: "only_at s s' z" and pm: "pm s' = pm s" and ok: "dir_ok s' d"
    and ow: "owned s' d + b = owned s d + {#f#}" and f: "unlisted s D f"
  shows "paging_wf s' D" "d' \<in> D \<Longrightarrow> d' \<noteq> d \<Longrightarrow> p < 1048576 \<Longrightarrow> user_map s' d' p = user_map s d' p"
proof -
  have zk: "z \<noteq> kdir s" "z \<noteq> kpt s" using paging_wf_dir [OF wf d z] by auto
  have c: "owned s' d' = owned s d'" "dir_ok s' d'" "p < 1048576 \<Longrightarrow> user_map s' d' p = user_map s d' p"
    if h: "d' \<in> D" "d' \<noteq> d" for d' p
  proof -
    have n: "d' \<noteq> z" "z \<notin># owned s d'" using ledger_disjoint [OF wf d h(1) _ z] h(2) by auto
    have okd: "dir_ok s d'" using wf h(1) by (simp add: paging_wf_def)
    note k = o paging_wf_aligned(2) [OF wf] zk(2) [symmetric] paging_wf_aligned(4) [OF wf h(1)] n
    show "owned s' d' = owned s d'" "dir_ok s' d'" "p < 1048576 \<Longrightarrow> user_map s' d' p = user_map s d' p"
      using owned_only_at [OF k] dir_ok_only_at [OF k okd] user_map_only_at [OF k] by auto
  qed
  then show "d' \<in> D \<Longrightarrow> d' \<noteq> d \<Longrightarrow> p < 1048576 \<Longrightarrow> user_map s' d' p = user_map s d' p" by blast
  have fin: "finite D" using wf by (simp add: paging_wf_def)
  have l: "ledger s' D + b = add_mset f (ledger s D)" using ledger_change [OF fin d c(1) ow] by simp
  then have sub: "ledger s' D \<subseteq># add_mset f (ledger s D)" by (metis mset_subset_eq_add_left)
  have "uniq (ledger s' D)" using uniq_mono [OF _ sub] f wf by (simp add: uniq_add_mset unlisted_def paging_wf_def)
  moreover have "size (ledger s' D) \<le> unat (used_frames (pm s))" using size_mset_mono [OF sub] f by (simp add: unlisted_def)
  moreover have "x \<in># ledger s' D \<Longrightarrow> x = f \<or> x \<in># ledger s D" for x using mset_subset_eqD [OF sub] by auto
  moreover have "kernel_tables s'" using kernel_tables_only_at [OF o _ zk] wf by (simp add: paging_wf_def)
  moreover have "\<forall>d' \<in> D. dir_ok s' d'" using c(2) ok by blast
  ultimately show "paging_wf s' D" using wf f only_at_kpt [OF o] unfolding paging_wf_def unlisted_def pm by auto
qed

lemma pages_of_kernel_copy: "kernel_tables s \<Longrightarrow> \<forall>j < 1024. mem s (slot t j) = kernel_entry j \<Longrightarrow> pages_of s t = {#}"
  unfolding pages_of_def by (intro sum.neutral) (simp add: own_page_def kernel_tables_def)

lemma user_map_kernel_copy: "p < 1048576 \<Longrightarrow> \<forall>j < 1024. mem s (slot (page_base (mem s (slot d (p div 1024)))) j) = kernel_entry j \<Longrightarrow> user_map s d p = None"
  using page_index(2) [of p] by (simp add: user_map_def Let_def)

lemma user_map_shared:
  assumes wf: "paging_wf s D" and d: "d \<in> D" and p: "p < 1048576" and np: "\<not> private_table s d (p div 1024)"
  shows "user_map s d p = None"
proof (cases "mem s (slot d (p div 1024)) AND PAGE_PRESENT = 0")
  case False
  then have "page_base (mem s (slot d (p div 1024))) = kpt s" using np by (simp add: private_table_def)
  then show ?thesis using wf by (intro user_map_kernel_copy [OF p]) (simp add: paging_wf_def kernel_tables_def)
qed (simp add: user_map_def)

text \<open>Entering a table: a copy of the kernel's table takes the place of the shared one.\<close>

lemma install_table:
  assumes wf: "paging_wf s D" and d: "d \<in> D" and i: "i < 1024" and np: "\<not> private_table s d i" and a: "unlisted s D a"
    and k: "\<forall>j < 1024. mem s (slot a j) = kernel_entry j"
  defines "s' \<equiv> s\<lparr>mem := (mem s)(slot d i := user_entry a)\<rparr>"
  shows "paging_wf s' D" and "private_table s' d i" "table_at s' d i = a"
    and "d' \<in> D \<Longrightarrow> p < 1048576 \<Longrightarrow> user_map s' d' p = user_map s d' p"
proof -
  have ad: "aligned d" "aligned a" "a \<noteq> d" "a \<noteq> kpt s" "kpt s' = kpt s" "d \<noteq> kpt s"
    using paging_wf_aligned [OF wf] d a wf by (auto simp: unlisted_def aligned_frame in_ledger paging_wf_def s'_def)
  have o: "only_at s s' d" unfolding s'_def using only_at_upd [OF ad(1) i] .
  have di: "mem s' (slot d j) = (if j = i then user_entry a else mem s (slot d j))" if "j < 1024" for j
    using that i ad by (simp add: s'_def)
  have ka: "mem s' (slot a j) = kernel_entry j" if "j < 1024" for j using only_at_slot [OF o ad(2,3) that] k that by simp
  have kt: "kernel_tables s'" using kernel_tables_only_at [OF o] wf paging_wf_aligned(5) [OF wf d] by (simp add: paging_wf_def)
  show p: "private_table s' d i" "table_at s' d i = a" using di [OF i] ad by (simp_all add: private_table_def table_at_def)
  have pj: "private_table s' d j = private_table s d j" "table_at s' d j = table_at s d j" if "j < 1024" "j \<noteq> i" for j
    using di [OF that(1)] that(2) ad(5) by (simp_all add: private_table_def table_at_def)
  have tn: "table_at s d j \<noteq> d" if "j < 1024" "private_table s d j" for j
    using ledger_not_own [OF wf d] that by (auto simp: in_owned)
  have "owned s' d + {#} = owned s d + {#a#}" unfolding owned_def
  proof (rule sum_change [of _ i])
    show "(if private_table s' d i then add_mset (table_at s' d i) (pages_of s' (table_at s' d i)) else {#}) + {#} =
        (if private_table s d i then add_mset (table_at s d i) (pages_of s (table_at s d i)) else {#}) + {#a#}"
      using p np pages_of_kernel_copy [OF kt, of a] ka by simp
    fix j assume j: "j \<in> {..<1024}" "j \<noteq> i"
    then show "(if private_table s' d j then add_mset (table_at s' d j) (pages_of s' (table_at s' d j)) else {#}) =
        (if private_table s d j then add_mset (table_at s d j) (pages_of s (table_at s d j)) else {#})"
      using pj tn pages_of_only_at [OF o paging_wf_aligned(2) [OF wf] ad(6) [symmetric] aligned_table_at] by simp
  qed (use i in simp_all)
  moreover have "dir_ok s' d" unfolding dir_ok_def
  proof (intro allI impI)
    fix j :: nat assume j: "j < 1024"
    show "entry_ok s' d j"
    proof (cases "j = i")
      case True
      then show ?thesis using p di [OF i] ka by (simp add: entry_ok_def)
    next
      case False
      have "\<And>l. private_table s d j \<Longrightarrow> l < 1024 \<Longrightarrow> mem s' (slot (table_at s d j) l) = mem s (slot (table_at s d j) l)"
        using tn [OF j] by (intro only_at_slot [OF o]) auto
      then show ?thesis using wf d j di [OF j] False ad(5) by (intro entry_ok_cong [of s' d j s]) (simp_all add: paging_wf_def dir_ok_def)
    qed
  qed
  ultimately show "paging_wf s' D" using wf_change(1) [OF wf d _ o _ _ _ a] by (simp add: s'_def)
  show "user_map s' d' p = user_map s d' p" if h: "d' \<in> D" "p < 1048576"
  proof (cases "d' = d")
    case False
    then show ?thesis using wf_change(2) [OF wf d _ o _ \<open>dir_ok s' d\<close> \<open>owned s' d + {#} = owned s d + {#a#}\<close> a h(1) _ h(2)] by (simp add: s'_def)
  next
    case True
    note b = page_index(1) [OF h(2)] page_index(2) [of p]
    show ?thesis
    proof (cases "p div 1024 = i")
      case i': True
      then show ?thesis using user_map_shared [OF wf d h(2)] np user_map_kernel_copy [OF h(2), of s' d] di [OF i] ka ad True by simp
    next
      case ne: False
      have "mem s' (slot d (p div 1024)) = mem s (slot d (p div 1024))" using di [OF b(1)] ne by simp
      moreover have "mem s (slot d (p div 1024)) AND PAGE_PRESENT \<noteq> 0 \<Longrightarrow> page_base (mem s (slot d (p div 1024))) \<noteq> d"
        using tn [OF b(1)] ad(6) by (auto simp: private_table_def table_at_def)
      ultimately show ?thesis using only_at_slot [OF o aligned_cleared _ b(2), of "mem s (slot d (p div 1024))"]
        unfolding user_map_def Let_def True by auto
    qed
  qed
qed

lemma private_entry:
  assumes "paging_wf s D" "d \<in> D" "i < 1024" "private_table s d i"
  shows "mem s (slot d i) = user_entry (table_at s d i)"
    and "j < 1024 \<Longrightarrow> mem s (slot (table_at s d i) j) = kernel_entry j \<or>
      mem s (slot (table_at s d i) j) = user_entry (page_base (mem s (slot (table_at s d i) j)))"
proof -
  have "entry_ok s d i" using assms by (simp add: paging_wf_def dir_ok_def)
  moreover have "mem s (slot d i) \<noteq> 0" "mem s (slot d i) \<noteq> user_entry (kpt s)"
    using assms(4) paging_wf_aligned(2) [OF assms(1)] by (auto simp: private_table_def)
  ultimately show "mem s (slot d i) = user_entry (table_at s d i)"
    "j < 1024 \<Longrightarrow> mem s (slot (table_at s d i) j) = kernel_entry j \<or>
      mem s (slot (table_at s d i) j) = user_entry (page_base (mem s (slot (table_at s d i) j)))"
    by (auto simp: entry_ok_def)
qed

lemma owned_uniq:
  assumes "paging_wf s D" "d \<in> D"
  shows "uniq (owned s d)"
proof -
  have "add_mset d (owned s d) \<subseteq># ledger s D"
    unfolding ledger_def using assms by (intro sum_one_subset [of D d "\<lambda>d. add_mset d (owned s d)"]) (simp_all add: paging_wf_def)
  then show ?thesis using assms(1) uniq_mono uniq_add_mset unfolding paging_wf_def by metis
qed

lemma owned_disjoint:
  assumes "paging_wf s D" "d \<in> D" "i < 1024" "l < 1024" "i \<noteq> l" "private_table s d i" "private_table s d l"
    "x = table_at s d i \<or> x \<in># pages_of s (table_at s d i)"
  shows "x \<noteq> table_at s d l" "x \<notin># pages_of s (table_at s d l)"
proof -
  let ?g = "\<lambda>i. if private_table s d i then add_mset (table_at s d i) (pages_of s (table_at s d i)) else {#}"
  have "uniq (?g i + ?g l)" using owned_uniq [OF assms(1,2)] uniq_mono sum_two_subset [of "{..<1024}" i l ?g] assms(3,4,5) unfolding owned_def by blast
  then show "x \<noteq> table_at s d l" "x \<notin># pages_of s (table_at s d l)" using uniq_disjoint [of "?g i" "?g l" x] assms(6-8) by auto
qed

lemma table_uniq:
  assumes "paging_wf s D" "d \<in> D" "i < 1024" "private_table s d i"
  shows "uniq (pages_of s (table_at s d i))" "table_at s d i \<notin># pages_of s (table_at s d i)"
proof -
  let ?g = "\<lambda>i. if private_table s d i then add_mset (table_at s d i) (pages_of s (table_at s d i)) else {#}"
  have "uniq (?g i)" using owned_uniq [OF assms(1,2)] uniq_mono sum_one_subset [of "{..<1024}" i ?g] assms(3) unfolding owned_def by blast
  then show "uniq (pages_of s (table_at s d i))" "table_at s d i \<notin># pages_of s (table_at s d i)" using assms(4) by (auto simp: uniq_add_mset)
qed

text \<open>Entering a page in a private table; the entry it replaces leaves the ledger.\<close>

lemma install_page:
  assumes wf: "paging_wf s D" and d: "d \<in> D" and i: "i < 1024" and pr: "private_table s d i" and j: "j < 1024" and f: "unlisted s D f"
  defines "s' \<equiv> s\<lparr>mem := (mem s)(slot (table_at s d i) j := user_entry f)\<rparr>"
  shows "paging_wf s' D"
    and "p < 1048576 \<Longrightarrow> user_map s' d p = (if p = i * 1024 + j then Some f else user_map s d p)"
    and "d' \<in> D \<Longrightarrow> d' \<noteq> d \<Longrightarrow> p < 1048576 \<Longrightarrow> user_map s' d' p = user_map s d' p"
proof -
  define t where "t = table_at s d i"
  have t: "aligned t" "t \<in># owned s d" "t \<noteq> d" using i pr ledger_not_own [OF wf d] by (auto simp: t_def in_owned)
  have tk: "t \<noteq> kpt s" using paging_wf_dir [OF wf d] t(2) by blast
  have o: "only_at s s' t" unfolding s'_def t_def [symmetric] using only_at_upd [OF t(1) j] .
  have tj: "mem s' (slot t l) = (if l = j then user_entry f else mem s (slot t l))" if "l < 1024" for l
    using that j t(1) by (simp add: s'_def t_def)
  have fa: "aligned f" using f by (auto simp: unlisted_def aligned_frame)
  have ad: "aligned d" using paging_wf_aligned(4) [OF wf d] .
  have ke: "mem s (slot (kpt s) l) = kernel_entry l" "mem s' (slot (kpt s) l) = kernel_entry l" if "l < 1024" for l
    using wf only_at_slot [OF o paging_wf_aligned(2) [OF wf] tk [symmetric] that] that by (simp_all add: paging_wf_def kernel_tables_def)
  have pd: "private_table s' d l = private_table s d l" "table_at s' d l = table_at s d l" "mem s' (slot d l) = mem s (slot d l)" if "l < 1024" for l
    using private_only_at [OF o ad t(3) [symmetric] that] only_at_slot [OF o ad t(3) [symmetric] that] by auto
  have tt: "table_at s d l \<noteq> t" if "l < 1024" "l \<noteq> i" "private_table s d l" for l
    using owned_disjoint(1) [OF wf d that(1) i that(2,3) pr] by (simp add: t_def)
  define b where "b = (if own_page s t j then {#page_base (mem s (slot t j))#} else {#})"
  have op: "own_page s' t l \<longleftrightarrow> l = j \<or> own_page s t l" if "l < 1024" for l
    using tj [OF that] ke [OF that] that user_not_kernel [OF fa that] user_entry_fields(2) [OF fa] only_at_kpt [OF o] by (auto simp add: own_page_def)
  have "pages_of s' t + b = pages_of s t + {#f#}" unfolding pages_of_def
    by (rule sum_change [of _ j]) (use j op tj fa in \<open>simp_all add: b_def\<close>)
  then have "owned s' d + b = owned s d + {#f#}" unfolding owned_def
    by (intro sum_change [of _ i]) (use i pd pr tt t(1) pages_of_only_at [OF o paging_wf_aligned(2) [OF wf] tk [symmetric] aligned_table_at] in \<open>simp_all add: t_def\<close>)
  moreover have "entry_ok s' d l" if l: "l < 1024" for l
  proof (cases "l = i")
    case True
    then show ?thesis using private_entry [OF wf d i pr] pd [OF i] pr tj fa unfolding entry_ok_def t_def by simp
  next
    case False
    then have "\<And>m. private_table s d l \<Longrightarrow> m < 1024 \<Longrightarrow> mem s' (slot (table_at s d l) m) = mem s (slot (table_at s d l) m)"
      using tt [OF l] by (intro only_at_slot [OF o]) auto
    then show ?thesis using wf d l pd [OF l] only_at_kpt [OF o] by (intro entry_ok_cong [of s' d l s]) (simp_all add: paging_wf_def dir_ok_def)
  qed
  ultimately show "paging_wf s' D" "d' \<in> D \<Longrightarrow> d' \<noteq> d \<Longrightarrow> p < 1048576 \<Longrightarrow> user_map s' d' p = user_map s d' p"
    using wf_change [OF wf d _ o _ _ _ f, of b] t(2) by (simp_all add: s'_def dir_ok_def)
  show "user_map s' d p = (if p = i * 1024 + j then Some f else user_map s d p)" if p: "p < 1048576"
  proof (cases "p div 1024 = i")
    case True
    have e: "mem s (slot d i) = user_entry t" using private_entry(1) [OF wf d i pr] by (simp add: t_def)
    have pe: "p = i * 1024 + j \<longleftrightarrow> p mod 1024 = j" using True j by (metis add_left_cancel div_mult_mod_eq)
    show ?thesis unfolding user_map_def Let_def True pd(3) [OF i] e pe user_entry_fields [OF t(1)] tj [OF page_index(2)] using fa by simp
  next
    case False
    note l = page_index(1) [OF p]
    have "private_table s d (p div 1024) \<or> mem s (slot d (p div 1024)) AND PAGE_PRESENT = 0 \<or> table_at s d (p div 1024) = kpt s"
      by (auto simp: private_table_def table_at_def)
    then have "mem s (slot d (p div 1024)) AND PAGE_PRESENT = 0 \<or> table_at s d (p div 1024) \<noteq> t" using tt [OF l False] tk by auto
    moreover have "p \<noteq> i * 1024 + j" using False j by auto
    ultimately show ?thesis using only_at_slot [OF o aligned_table_at _ page_index(2), of s d "p div 1024" p] pd(3) [OF l]
      unfolding user_map_def Let_def table_at_def by auto
  qed
qed

section \<open>Creating tables and mapping pages\<close>

definition view :: "paging \<Rightarrow> u32 \<Rightarrow> nat \<Rightarrow> u32 option" where
  "view s d p = (if p < 1048576 then user_map s d p else None)"

lemma view_alloc [simp]: "view (s\<lparr>pm := p\<rparr>) = view s"
  by (simp add: view_def fun_eq_iff)

lemma dir_index:
  "unat (vaddr div (PAGE_SIZE * of_nat ENTRIES)) = unat vaddr div 4096 div 1024" "unat vaddr div 4096 div 1024 < 1024" "unat vaddr div 4096 < 1048576"
  "unat ((vaddr div PAGE_SIZE) mod of_nat ENTRIES) = unat vaddr div 4096 mod 1024" for vaddr :: u32
proof -
  show "unat (vaddr div (PAGE_SIZE * of_nat ENTRIES)) = unat vaddr div 4096 div 1024"
    by (simp add: PAGE_SIZE_def ENTRIES_def unat_div flip: div_mult2_eq)
  show "unat ((vaddr div PAGE_SIZE) mod of_nat ENTRIES) = unat vaddr div 4096 mod 1024"
    by (simp add: PAGE_SIZE_def ENTRIES_def unat_div unat_mod)
  show "unat vaddr div 4096 < 1048576" using unat_less_u32 [of vaddr] by (simp add: less_mult_imp_div_less)
  then show "unat vaddr div 4096 div 1024 < 1024" by (simp add: less_mult_imp_div_less)
qed

lemma get_or_create_eq:
  "paging_get_or_create_user_table s d vaddr =
     (let i = unat vaddr div 4096 div 1024 in
      if private_table s d i then Some (table_at s d i, s)
      else case paging_copy_frame s (kpt s) of None \<Rightarrow> None
        | Some (table, s1) \<Rightarrow> if table = 0 then Some (0, s1) else Some (table, s1\<lparr>mem := (mem s1)(slot d i := user_entry table)\<rparr>))"
  using dir_index(2) [of vaddr]
  unfolding paging_get_or_create_user_table_def Let_def dir_index(1) paging_alloc_user_page_table_def user_entry_def private_table_def table_at_def
  by (simp add: ENTRIES_def)

lemma copy_frame_cr3: "paging_copy_frame s src = Some (a, s') \<Longrightarrow> cr3 s' = cr3 s"
  by (auto simp: paging_copy_frame_def split: option.splits if_splits)

lemma get_or_create_cases:
  assumes wf: "paging_wf s D" and d: "d \<in> D"
  obtains (none) p where "paging_get_or_create_user_table s d vaddr = Some (0, s\<lparr>pm := p\<rparr>)" "paging_wf (s\<lparr>pm := p\<rparr>) D" "pmm_avail p = pmm_avail (pm s)"
    | (table) t s1 where "paging_get_or_create_user_table s d vaddr = Some (t, s1)" "t \<noteq> 0" "paging_wf s1 D"
        "private_table s1 d (unat vaddr div 4096 div 1024)" "table_at s1 d (unat vaddr div 4096 div 1024) = t"
        "\<And>d'. d' \<in> D \<Longrightarrow> view s1 d' = view s d'" "pmm_avail (pm s1) \<subseteq> pmm_avail (pm s)" "cr3 s1 = cr3 s"
proof -
  let ?i = "unat vaddr div 4096 div 1024"
  note i = dir_index(1,2) [of vaddr]
  note gc = get_or_create_eq [of s d vaddr]
  show ?thesis
  proof (cases "private_table s d ?i")
    case True
    then have "frame_addr (table_at s d ?i)" using paging_wf_dir [OF wf d] i(2) in_owned by blast
    then show ?thesis using that(2) [of "table_at s d ?i" s] gc True wf by (simp add: frame_addr_def)
  next
    case np: False
    have "kpt s = kdir s \<or> kpt s = kpt s" by simp
    with wf show ?thesis
    proof (cases rule: paging_copy_frame_cases)
      case (none p)
      then show ?thesis using that(1) gc np by simp
    next
      case (frame a s1)
      note w = fresh_wf [OF wf frame(5,9,6,7,8)] and k = fresh_frame_keeps [OF wf frame(5,9)]
      have "a \<noteq> d" using paging_wf_dir [OF wf d] frame(5) by blast
      then have "mem s1 (slot d ?i) = mem s (slot d ?i)" using only_at_slot [OF frame(9) paging_wf_aligned(4) [OF wf d]] i(2) by blast
      then have np1: "\<not> private_table s1 d ?i" using np only_at_kpt [OF frame(9)] by (simp add: private_table_def)
      have kc: "\<forall>j < 1024. mem s1 (slot a j) = kernel_entry j" using frame(10) wf by (simp add: paging_wf_def kernel_tables_def)
      note it = install_table [OF w(1) d i(2) np1 w(2) kc]
      have "view (s1\<lparr>mem := (mem s1)(slot d ?i := user_entry a)\<rparr>) d' = view s d'" if "d' \<in> D" for d'
        using it(4) [OF that] k(3) [OF that] by (auto simp: view_def fun_eq_iff)
      moreover have "pmm_avail (pm s1) \<subseteq> pmm_avail (pm s)" "cr3 s1 = cr3 s"
        using frame(7) copy_frame_cr3 [OF frame(1)] by auto
      ultimately show ?thesis using that(2) [OF _ frame(2) it(1,2,3)] gc np frame(1,2) by simp
    qed
  qed
qed

lemma clone_cases:
  assumes wf: "paging_wf s D"
  obtains (none) p where "paging_clone_kernel_directory s = Some (0, s\<lparr>pm := p\<rparr>)" "paging_wf (s\<lparr>pm := p\<rparr>) D" "pmm_avail p = pmm_avail (pm s)"
    | (dir) d s1 where "paging_clone_kernel_directory s = Some (d, s1)" "d \<noteq> 0" "d \<in> pmm_avail (pm s)" "paging_wf s1 (insert d D)" "owned s1 d = {#}"
        "view s1 d = Map.empty" "\<And>d'. d' \<in> D \<Longrightarrow> view s1 d' = view s d'"
        "pmm_avail (pm s1) = pmm_avail (pm s) - {d}" "unat (used_frames (pm s1)) = Suc (unat (used_frames (pm s)))" "ledger s1 D = ledger s D"
proof -
  have "kdir s = kdir s \<or> kdir s = kpt s" by simp
  with wf show ?thesis
  proof (cases rule: paging_copy_frame_cases)
    case (none p)
    then show ?thesis using that(1) by (simp add: paging_clone_kernel_directory_def)
  next
    case (frame a s1)
    note w = fresh_wf [OF wf frame(5,9,6,7,8)] and k = fresh_frame_keeps [OF wf frame(5,9)]
    have e: "mem s1 (slot a i) = (if i = 0 then user_entry (kpt s1) else 0)" if "i < 1024" for i
      using frame(10) that wf only_at_kpt [OF frame(9)] by (simp add: paging_wf_def kernel_tables_def)
    have ak: "aligned (kpt s1)" using paging_wf_aligned(2) [OF w(1)] .
    have np: "\<not> private_table s1 a i" if "i < 1024" for i using e [OF that] ak by (simp add: private_table_def)
    have ow: "owned s1 a = {#}" unfolding owned_def using np by (intro sum.neutral) simp
    have un: "unlisted s1 D a" using w(2) .
    have nd: "a \<notin> D" using paging_wf_dir [OF wf] frame(5) by blast
    have l: "ledger s1 (insert a D) = add_mset a (ledger s1 D)" using nd w(1) ow by (simp add: ledger_def paging_wf_def)
    have ok: "dir_ok s1 a" using e by (auto simp: dir_ok_def entry_ok_def)
    have wf1: "paging_wf s1 (insert a D)" using w(1) un ok unfolding paging_wf_def l unlisted_def by (auto simp: uniq_add_mset)
    have v: "view s1 a = Map.empty" using user_map_shared [OF wf1, of a] np page_index(1) by (auto simp: view_def fun_eq_iff)
    have o: "\<And>d'. d' \<in> D \<Longrightarrow> view s1 d' = view s d'" using k(3) by (auto simp: view_def fun_eq_iff)
    show ?thesis using that(2) [OF _ frame(2,5) wf1 ow v o frame(7,8) w(3)] frame(1) by (simp add: paging_clone_kernel_directory_def)
  qed
qed

section \<open>Teardown\<close>

lemma foldl_guard: "foldl (\<lambda>p j. if P j then foldl g p (h j) else p) p xs = foldl g p (concat (map h (filter P xs)))"
  by (induction xs arbitrary: p) simp_all

lemma mset_concat_filter: "mset (concat (map h (filter P [0..<n]))) = (\<Sum>j<n. if P j then mset (h j) else {#})"
  by (induction n) simp_all

lemma free_entry_eq: "paging_free_entry s t = (\<lambda>p j. if own_page s t j then foldl pmm_free_frame p [page_base (mem s (slot t j))] else p)"
  by (auto simp: paging_free_entry_def own_page_def Let_def fun_eq_iff)

definition page_list :: "paging \<Rightarrow> u32 \<Rightarrow> u32 list" where
  "page_list s t = concat (map (\<lambda>j. [page_base (mem s (slot t j))]) (filter (own_page s t) [0..<1024]))"

definition owned_list :: "paging \<Rightarrow> u32 \<Rightarrow> u32 list" where
  "owned_list s d = concat (map (\<lambda>i. page_list s (table_at s d i) @ [table_at s d i]) (filter (private_table s d) [0..<1024]))"

lemma mset_owned_list: "mset (owned_list s d) = owned s d"
proof -
  have "mset (page_list s t) = pages_of s t" for t unfolding page_list_def mset_concat_filter pages_of_def by (intro sum.cong) auto
  then show ?thesis unfolding owned_list_def mset_concat_filter owned_def by (intro sum.cong) auto
qed

lemma free_user_directory_eq: "paging_free_user_directory s d = s\<lparr>pm := foldl pmm_free_frame (pm s) (owned_list s d)\<rparr>"
proof -
  have "paging_free_table s d p i =
      (if private_table s d i then foldl pmm_free_frame p (page_list s (table_at s d i) @ [table_at s d i]) else p)" for p i
    by (simp add: paging_free_table_def private_table_def table_at_def Let_def free_entry_eq foldl_guard page_list_def ENTRIES_def)
  then have "paging_free_table s d = (\<lambda>p i. if private_table s d i then foldl pmm_free_frame p (page_list s (table_at s d i) @ [table_at s d i]) else p)"
    by (simp add: fun_eq_iff)
  then show ?thesis unfolding paging_free_user_directory_def owned_list_def by (simp only: foldl_guard ENTRIES_def)
qed

lemma distinct_uniq: "distinct xs \<longleftrightarrow> uniq (mset xs)"
  by (induction xs) (simp add: uniq_def, auto simp: uniq_add_mset)

lemma teardown:
  assumes wf: "paging_wf s D" and d: "d \<in> D"
  defines "p' \<equiv> pmm_free_frame (pm (paging_free_user_directory s d)) d"
  shows "paging_wf (s\<lparr>pm := p'\<rparr>) (D - {d})"
    and "pmm_avail p' = pmm_avail (pm s) \<union> insert d (set_mset (owned s d))"
    and "unat (used_frames p') = unat (used_frames (pm s)) - Suc (size (owned s d))"
proof -
  let ?as = "owned_list s d @ [d]"
  have fin: "finite D" using wf by (simp add: paging_wf_def)
  have l: "ledger s D = add_mset d (owned s d) + ledger s (D - {d})" unfolding ledger_def using sum.remove [OF fin d] .
  have m: "mset ?as = add_mset d (owned s d)" by (simp add: mset_owned_list)
  have sa: "set ?as = insert d (set_mset (owned s d))" using arg_cong [OF m, of set_mset] by simp
  have len: "length ?as = Suc (size (owned s d))" using arg_cong [OF m, of size] by simp
  have "distinct ?as" unfolding distinct_uniq m using wf uniq_mono mset_subset_eq_add_left unfolding paging_wf_def l by blast
  moreover have "list_all frame_addr ?as" "set ?as \<inter> pmm_avail (pm s) = {}"
    using paging_wf_dir [OF wf d] unfolding list_all_iff sa by blast+
  moreover have sz: "length ?as + size (ledger s (D - {d})) \<le> unat (used_frames (pm s))" unfolding len using wf by (simp add: paging_wf_def l)
  ultimately have r: "pmm_wf p' \<and> pmm_avail p' = pmm_avail (pm s) \<union> set ?as \<and> unat (used_frames p') = unat (used_frames (pm s)) - length ?as"
    using pmm_pool.release_all [of "pm s" ?as] wf by (simp add: p'_def free_user_directory_eq paging_wf_def)
  show "pmm_avail p' = pmm_avail (pm s) \<union> insert d (set_mset (owned s d))" using r unfolding sa by blast
  show "unat (used_frames p') = unat (used_frames (pm s)) - Suc (size (owned s d))" using r unfolding len by blast
  have dj: "x \<notin> set ?as" if "x \<in># ledger s (D - {d})" for x
    using wf uniq_disjoint [of "add_mset d (owned s d)" "ledger s (D - {d})" x x] that unfolding paging_wf_def l sa by auto
  have k: "kdir s \<notin> set ?as" "kpt s \<notin> set ?as" using paging_wf_dir [OF wf d] unfolding sa by blast+
  have "uniq (ledger s (D - {d}))" using wf uniq_mono unfolding paging_wf_def l by (meson mset_subset_eq_add_right)
  then show "paging_wf (s\<lparr>pm := p'\<rparr>) (D - {d})" using wf r sz dj k unfolding paging_wf_def l by auto
qed

section \<open>Properties\<close>

lemma view_page:
  assumes wf: "paging_wf s D" and d: "d \<in> D" and v: "view s d p = Some f"
  defines "i \<equiv> p div 1024" and "j \<equiv> p mod 1024"
  shows "i < 1024" "j < 1024" "private_table s d i" "own_page s (table_at s d i) j" "f = page_base (mem s (slot (table_at s d i) j))"
    "f \<in># pages_of s (table_at s d i)"
proof -
  have p: "p < 1048576" "user_map s d p = Some f" using v by (auto simp: view_def split: if_splits)
  show i: "i < 1024" "j < 1024" using page_index p(1) by (auto simp: i_def j_def)
  show pr: "private_table s d i" using user_map_shared [OF wf d p(1)] p(2) by (auto simp: i_def)
  have u: "mem s (slot (table_at s d i) j) AND PAGE_PRESENT \<noteq> 0" "mem s (slot (table_at s d i) j) AND PAGE_USER \<noteq> 0"
    and f: "f = page_base (mem s (slot (table_at s d i) j))"
    using p(2) unfolding user_map_def table_at_def i_def j_def by (auto simp: Let_def split: if_splits)
  show "f = page_base (mem s (slot (table_at s d i) j))" by (fact f)
  have "mem s (slot (kpt s) j) = kernel_entry j" using wf i(2) by (simp add: paging_wf_def kernel_tables_def)
  then show o: "own_page s (table_at s d i) j" using u kernel_entry_fields(3) [OF i(2)] by (auto simp: own_page_def)
  then show "f \<in># pages_of s (table_at s d i)" using f i(2) by (auto simp: in_pages_of)
qed

lemma view_apart:
  assumes wf: "paging_wf s D" and d: "d \<in> D" "d' \<in> D" and v: "view s d p = Some f" "view s d' p' = Some f'" and ne: "(d, p) \<noteq> (d', p')"
  shows "f \<noteq> f' \<and> f \<notin> D \<and> f \<noteq> kdir s \<and> f \<noteq> kpt s \<and> f \<notin> pmm_avail (pm s) \<and>
    (\<forall>e \<in> D. \<forall>i < 1024. private_table s e i \<longrightarrow> f \<noteq> table_at s e i)"
proof -
  note a = view_page [OF wf d(1) v(1)] and b = view_page [OF wf d(2) v(2)]
  have fo: "f \<in># owned s d" "f' \<in># owned s d'" using a b by (auto simp: in_owned)
  have "f \<noteq> f'"
  proof (cases "d = d'")
    case False
    then show ?thesis using ledger_disjoint(2) [OF wf d False] fo by blast
  next
    case dd: True
    show ?thesis
    proof (cases "p div 1024 = p' div 1024")
      case False
      then show ?thesis using owned_disjoint(2) [OF wf d(1) a(1) _ False a(3)] b a(6) dd by blast
    next
      case True
      let ?t = "table_at s d (p div 1024)" and ?g = "\<lambda>j. if own_page s (table_at s d (p div 1024)) j
        then {#page_base (mem s (slot (table_at s d (p div 1024)) j))#} else {#}"
      have "p mod 1024 \<noteq> p' mod 1024" using ne dd True by (metis div_mult_mod_eq)
      then have "?g (p mod 1024) + ?g (p' mod 1024) \<subseteq># pages_of s ?t"
        unfolding pages_of_def using a(2) b(2) by (intro sum_two_subset) auto
      then have "uniq (?g (p mod 1024) + ?g (p' mod 1024))" using table_uniq(1) [OF wf d(1) a(1,3)] uniq_mono by blast
      then show ?thesis using uniq_disjoint [of "?g (p mod 1024)" "?g (p' mod 1024)" f f'] a(4,5) b(4,5) dd True by simp
    qed
  qed
  moreover have "f \<noteq> table_at s e i" if e: "e \<in> D" "i < 1024" "private_table s e i" for e i
  proof (cases "e = d")
    case False
    have "table_at s e i \<in># owned s e" using e by (auto simp: in_owned)
    then show ?thesis using ledger_disjoint(2) [OF wf d(1) e(1), of f] False fo(1) by blast
  next
    case True
    then show ?thesis using owned_disjoint(1) [OF wf d(1) a(1) e(2) _ a(3)] table_uniq(2) [OF wf d(1) a(1,3)] a(6) e(3) by metis
  qed
  moreover have "f \<notin> D" using ledger_disjoint(1) [OF wf d(1) _ _ disjI2 [OF fo(1)]] ledger_not_own [OF wf d(1)] fo(1) by metis
  ultimately show ?thesis using paging_wf_dir [OF wf d(1), of f] fo(1) by blast
qed


text \<open>
  what a program in ring 3 can reach. No frame is visible at two pages, in one address space
  or in two, and none of the frames that a program can write is a page directory, a page table,
  a table of the kernel or a frame the allocator could hand out again.
\<close>

theorem paging_isolation:
  assumes wf: "paging_wf s D" and d: "d \<in> D" "d' \<in> D" and v: "view s d p = Some f" "view s d' p' = Some f'" and ne: "(d, p) \<noteq> (d', p')"
  shows "f \<noteq> f' \<and> f \<notin> D \<and> f \<noteq> kdir s \<and> f \<noteq> kpt s \<and> f \<notin> pmm_avail (pm s) \<and>
    (\<forall>e \<in> D. \<forall>i < 1024. private_table s e i \<longrightarrow> f \<noteq> table_at s e i)"
  using view_apart [OF assms] .


text \<open>
  C24: tearing an address space down, as \<open>task_reap\<close> does: the private tables and pages, then the
  directory. Every frame the address space owned is available again, exactly once, no other frame
  is, the count of used frames drops by their number, and the other address spaces see what they saw.
\<close>

theorem paging_teardown:
  assumes wf: "paging_wf s D" and d: "d \<in> D"
  defines "s1 \<equiv> paging_free_user_directory s d"
  defines "s' \<equiv> s1\<lparr>pm := pmm_free_frame (pm s1) d\<rparr>"
  shows "paging_wf s' (D - {d}) \<and> pmm_avail (pm s') = pmm_avail (pm s) \<union> insert d (set_mset (owned s d)) \<and>
    unat (used_frames (pm s')) + Suc (size (owned s d)) = unat (used_frames (pm s)) \<and> (\<forall>e \<in> D. view s' e = view s e)"
proof -
  note t = teardown [OF wf d]
  have s': "s' = s\<lparr>pm := pmm_free_frame (pm (paging_free_user_directory s d)) d\<rparr>"
    unfolding s'_def s1_def by (simp add: free_user_directory_eq)
  have "Suc (size (owned s d)) \<le> size (ledger s D)"
    using size_mset_mono [OF sum_one_subset [of D d "\<lambda>d. add_mset d (owned s d)"]] wf d unfolding ledger_def paging_wf_def by simp
  then have "Suc (size (owned s d)) \<le> unat (used_frames (pm s))" using wf by (simp add: paging_wf_def)
  then show ?thesis using t unfolding s' by (simp add: view_def fun_eq_iff)
qed

section \<open>Start-up and an example\<close>

lemma paging_init_tables:
  assumes "aligned (kdir s)" "aligned (kpt s)" "kdir s \<noteq> kpt s"
  shows "kernel_tables (paging_init s)" "pm (paging_init s) = pm s" "kdir (paging_init s) = kdir s" "kpt (paging_init s) = kpt s" "cr3 (paging_init s) = kdir s"
proof -
  let ?m1 = "fill_table (mem s) (kpt s) (\<lambda>m. kernel_entry)" and ?z = "\<lambda>m :: u32 \<Rightarrow> u32. \<lambda>i :: nat. 0 :: u32"
  have e: "paging_init s = s\<lparr>mem := (fill_table ?m1 (kdir s) ?z)(slot (kdir s) 0 := user_entry (kpt s)), cr3 := kdir s\<rparr>"
    unfolding paging_init_def load_page_directory_def Let_def user_entry_def kernel_entry_def by simp
  have d: "fill_table ?m1 (kdir s) ?z (slot (kdir s) i) = 0" if "i < 1024" for i using fill_table_at [OF assms(1) that] .
  have k: "fill_table ?m1 (kdir s) ?z (slot (kpt s) i) = kernel_entry i" if "i < 1024" for i
    using fill_table_other [of "slot (kpt s) i" "kdir s" ?m1 "\<lambda>i. 0"] fill_table_at [OF assms(2) that, of "mem s"] assms that by simp
  show "kernel_tables (paging_init s)" using assms d k by (simp add: kernel_tables_def e)
qed (simp_all add: paging_init_def load_page_directory_def Let_def)

lemma paging_init_wf:
  assumes "aligned (kdir s)" "aligned (kpt s)" "kdir s \<noteq> kpt s" "pmm_wf (pm s)" "kdir s \<notin> pmm_avail (pm s)" "kpt s \<notin> pmm_avail (pm s)"
  shows "paging_wf (paging_init s) {}"
  using assms paging_init_tables [OF assms(1-3)] by (simp add: paging_wf_def ledger_def uniq_def)

text \<open>
  after \<open>paging_init\<close> the kernel sees the first 4 MB at their own addresses and nothing else,
  a program in ring 3 sees nothing at all, and the processor uses the kernel's directory.
\<close>

theorem paging_init_identity:
  assumes "aligned (kdir s)" "aligned (kpt s)" "kdir s \<noteq> kpt s"
  shows "(\<forall>p < 1024. kernel_map (paging_init s) (cr3 (paging_init s)) p = Some (of_nat p * 4096)) \<and>
    (\<forall>p. 1024 \<le> p \<and> p < 1048576 \<longrightarrow> kernel_map (paging_init s) (cr3 (paging_init s)) p = None) \<and>
    view (paging_init s) (cr3 (paging_init s)) = Map.empty"
proof -
  let ?s = "paging_init s"
  note t = paging_init_tables [OF assms]
  have k: "mem ?s (slot (kpt s) i) = kernel_entry i" "mem ?s (slot (kdir s) i) = (if i = 0 then user_entry (kpt s) else 0)" if "i < 1024" for i
    using t that by (simp_all add: kernel_tables_def)
  have "kernel_map ?s (kdir s) p = Some (of_nat p * 4096)" if "p < 1024" for p
    using that assms(2) by (simp add: kernel_map_def k)
  moreover have "kernel_map ?s (kdir s) p = None" if "1024 \<le> p" "p < 1048576" for p
  proof -
    have "p div 1024 \<noteq> 0" "p div 1024 < 1024" using that page_index(1) by (auto simp: div_eq_0_iff)
    then show ?thesis by (simp add: kernel_map_def k)
  qed
  moreover have "user_map ?s (kdir s) p = None" if "p < 1048576" for p
  proof (cases "p div 1024 = 0")
    case True
    then show ?thesis using assms(2) page_index(2) [of p] by (simp add: user_map_def k Let_def)
  next
    case False
    then show ?thesis using page_index(1) [OF that] by (simp add: user_map_def k)
  qed
  ultimately show ?thesis using t(5) by (auto simp: view_def fun_eq_iff)
qed

lemma alloc_unlisted:
  assumes wf: "paging_wf s D" and a: "pmm_alloc_frame (pm s) = Some (f, p)" "f \<noteq> 0"
  shows "paging_wf (s\<lparr>pm := p\<rparr>) D" "unlisted (s\<lparr>pm := p\<rparr>) D f"
proof -
  have pw: "pmm_wf (pm s)" using wf by (simp add: paging_wf_def)
  note f = pmm_pool.alloc_frame [OF pw a]
  have "only_at s (s\<lparr>pm := p\<rparr>) f" by (simp add: only_at_def)
  then show "paging_wf (s\<lparr>pm := p\<rparr>) D" "unlisted (s\<lparr>pm := p\<rparr>) D f" using fresh_wf [OF wf, of f "s\<lparr>pm := p\<rparr>"] f by auto
qed

text \<open>A machine with eight frames, the first of them reserved, and its address spaces.\<close>

definition roomy :: "pmm \<Rightarrow> nat \<Rightarrow> bool" where
  "roomy p k \<longleftrightarrow> pmm_wf p \<and> free_frames p \<subseteq> {..<8} \<and> total_frames p = 8 \<and> card (free_frames p) = k"

lemma roomy_alloc:
  assumes "roomy p (Suc k)"
  shows "\<exists>a p'. pmm_alloc_frame p = Some (a, p') \<and> a \<noteq> 0 \<and> a < 0x400000 \<and> roomy p' k"
proof -
  have wf: "pmm_wf p" and fr: "free_frames p \<subseteq> {..<8}" and c: "card (free_frames p) = Suc k" using assms by (auto simp: roomy_def)
  obtain g where g: "g \<in> free_frames p" "g < 8" using fr c by (metis card.empty equals0I lessThan_iff nat.distinct(1) subsetD)
  from wf show ?thesis
  proof (cases rule: pmm_alloc_cases)
    case (frame f)
    let ?t = "(bitmap_set p (of_nat f))\<lparr>used_frames := used_frames p + 1\<rparr>"
    note w = pmm_wf_alloc [OF wf frame(1) refl]
    have f: "0 < f" "f < 8" using frame(1) wf fr by (auto simp: pmm_wf_def intro: gr0I)
    have u: "unat (of_nat f * 4096 :: u32) = f * 4096" using f by (intro unat_frame_addr) simp
    have "roomy ?t k" using w fr c frame(1) assms by (auto simp: roomy_def card_Diff_singleton_if)
    moreover have "(of_nat f * 4096 :: u32) \<noteq> 0" "(of_nat f * 4096 :: u32) < 0x400000" using u f by (auto simp: word_less_nat_alt word_unat_eq_iff)
    ultimately show ?thesis using frame(4) by blast
  next
    case none
    then show ?thesis using g assms by (auto simp: roomy_def)
  qed
qed

lemma roomy_copy:
  assumes "roomy (pm s) (Suc k)"
  shows "\<exists>a s1. paging_copy_frame s src = Some (a, s1) \<and> a \<noteq> 0 \<and> roomy (pm s1) k"
  using roomy_alloc [OF assms] by (auto simp: paging_copy_frame_def)

lemma roomy_table:
  assumes "roomy (pm s) (Suc k)" "paging_wf s D" "d \<in> D"
  shows "\<exists>t s1. paging_get_or_create_user_table s d vaddr = Some (t, s1) \<and> t \<noteq> 0 \<and> (roomy (pm s1) (Suc k) \<or> roomy (pm s1) k)"
proof -
  let ?i = "unat vaddr div 4096 div 1024"
  have "\<exists>t s1. paging_get_or_create_user_table s d vaddr = Some (t, s1) \<and> (roomy (pm s1) (Suc k) \<or> roomy (pm s1) k) \<and>
      (t = 0 \<longrightarrow> private_table s d ?i \<and> table_at s d ?i = 0)"
    using roomy_copy [OF assms(1), of "kpt s"] assms(1) unfolding get_or_create_eq Let_def by auto
  moreover have "private_table s d (unat vaddr div 4096 div 1024) \<Longrightarrow> table_at s d (unat vaddr div 4096 div 1024) \<noteq> 0"
    using paging_wf_dir [OF assms(2,3), of "table_at s d (unat vaddr div 4096 div 1024)"] dir_index(2) [of vaddr]
    by (auto simp: in_owned frame_addr_def)
  ultimately show ?thesis by blast
qed

text \<open>One page mapped, starting from any roomy state.\<close>

lemma roomy_map:
  fixes vaddr :: u32
  assumes r: "roomy (pm s) (Suc (Suc k))" and wf: "paging_wf s D" and d: "d \<in> D"
  shows "\<exists>f s'. paging_wf s' D \<and> view s' d = (view s d)(unat vaddr div 4096 \<mapsto> f) \<and> (roomy (pm s') (Suc k) \<or> roomy (pm s') k)"
proof -
  obtain t s1 where t: "paging_get_or_create_user_table s d vaddr = Some (t, s1)" "t \<noteq> 0" "roomy (pm s1) (Suc (Suc k)) \<or> roomy (pm s1) (Suc k)"
    using roomy_table [OF r wf d] by blast
  from wf d show ?thesis
  proof (cases rule: get_or_create_cases [where vaddr = vaddr])
    case (none p)
    then show ?thesis using t by simp
  next
    case (table t' s1')
    then have e: "t' = t" "s1' = s1" using t(1) by auto
    obtain f p' where f: "pmm_alloc_frame (pm s1) = Some (f, p')" "f \<noteq> 0" "roomy p' (Suc k) \<or> roomy p' k"
      using t(3) roomy_alloc [of "pm s1"] by metis
    let ?s = "s1\<lparr>pm := p'\<rparr>" and ?p = "unat vaddr div 4096"
    note a = alloc_unlisted [OF table(3) [unfolded e] f(1,2)]
    have pr: "private_table ?s d (?p div 1024)" using table(4) [unfolded e] by (simp add: private_table_def)
    note ip = install_page [OF a(1) d dir_index(2) pr page_index(2) [of ?p] a(2)]
    let ?s' = "?s\<lparr>mem := (mem ?s)(slot (table_at ?s d (?p div 1024)) (?p mod 1024) := user_entry f)\<rparr>"
    have "view ?s' d = (view s1 d)(?p \<mapsto> f)"
      using ip(2) dir_index(3) [of vaddr] div_mult_mod_eq [of ?p 1024] by (auto simp: view_def fun_eq_iff)
    moreover have "view s1 d = view s d" using table(6) [OF d] unfolding e .
    moreover have "pm ?s' = p'" by simp
    ultimately show ?thesis using ip(1) f(3) by metis
  qed
qed

definition paging_ram :: paging where
  "paging_ram = \<lparr>pm = (foldl (\<lambda>p f. bitmap_clear p f) pmm_full [1, 2, 3, 4, 5, 6, 7])\<lparr>total_frames := 8, used_frames := 1\<rparr>,
     mem = (\<lambda>_. 0), kdir = 0x100000, kpt = 0x101000, cr3 = 0\<rparr>"

definition paging_example :: paging where
  "paging_example = paging_init paging_ram"

lemma paging_ram_ok:
  "aligned (kdir paging_ram)" "aligned (kpt paging_ram)" "kdir paging_ram \<noteq> kpt paging_ram" "pmm_wf (pm paging_ram)"
  "kdir paging_ram \<notin> pmm_avail (pm paging_ram)" "kpt paging_ram \<notin> pmm_avail (pm paging_ram)" "roomy (pm paging_ram) 7"
proof -
  let ?p = "(foldl (\<lambda>p f. bitmap_clear p f) pmm_full [1, 2, 3, 4, 5, 6, 7])\<lparr>total_frames := 8, used_frames := 1\<rparr>"
  have s: "pm paging_ram = ?p" "kdir paging_ram = 0x100000" "kpt paging_ram = 0x101000" by (simp_all add: paging_ram_def)
  have l: "length (frame_bitmap pmm_full) = 32768" by (simp add: pmm_full_def)
  have f: "free_frames ?p = {1, 2, 3, 4, 5, 6, 7}" by (auto simp: free_frames_clear l pmm_full_free)
  have w: "pmm_wf ?p" unfolding pmm_wf_def f by (simp add: l)
  have m: "(0x100000 :: u32) = of_nat 256 * 4096" "(0x101000 :: u32) = of_nat 257 * 4096" by simp_all
  have "of_nat 256 * 4096 \<notin> pmm_avail ?p" "of_nat 257 * 4096 \<notin> pmm_avail ?p" by (subst pmm_avail_iff, simp, simp only: f, simp)+
  then show "kdir paging_ram \<notin> pmm_avail (pm paging_ram)" "kpt paging_ram \<notin> pmm_avail (pm paging_ram)" unfolding s m by simp_all
  show "aligned (kdir paging_ram)" "aligned (kpt paging_ram)" "kdir paging_ram \<noteq> kpt paging_ram" unfolding s by (simp_all add: aligned_def)
  show "pmm_wf (pm paging_ram)" "roomy (pm paging_ram) 7" unfolding s using w f by (simp_all add: roomy_def)
qed

lemma paging_example_ok: "paging_wf paging_example {}" "roomy (pm paging_example) 7"
  unfolding paging_example_def using paging_init_wf [OF paging_ram_ok(1-6)] paging_init_tables(2) [OF paging_ram_ok(1-3)] paging_ram_ok(7) by simp_all

lemma paging_example_dir: "\<exists>d s. paging_wf s {d} \<and> roomy (pm s) 6 \<and> view s d = Map.empty"
proof -
  obtain a s1 where a: "paging_clone_kernel_directory paging_example = Some (a, s1)" "a \<noteq> 0" "roomy (pm s1) 6"
    using roomy_copy [of paging_example 6 "kdir paging_example"] paging_example_ok(2) unfolding paging_clone_kernel_directory_def by auto
  from paging_example_ok(1) show ?thesis
  proof (cases rule: clone_cases)
    case (none p)
    then show ?thesis using a by simp
  next
    case (dir d s1')
    then show ?thesis using a by auto
  qed
qed

lemma paging_example_pages: "\<exists>s d f g. paging_wf s {d} \<and> view s d = [5 \<mapsto> f, 6 \<mapsto> g]"
proof -
  obtain d s where s: "paging_wf s {d}" "roomy (pm s) 6" "view s d = Map.empty" using paging_example_dir by blast
  obtain f s1 where f: "paging_wf s1 {d}" "view s1 d = (view s d)(5 \<mapsto> f)" "roomy (pm s1) 5 \<or> roomy (pm s1) 4"
    using roomy_map [of s 4 "{d}" d "0x5000"] s by auto
  then obtain k where k: "roomy (pm s1) (Suc (Suc k))" by (metis numeral_eq_Suc pred_numeral_simps(3) pred_numeral_simps(2) numeral_2_eq_2)
  obtain g s2 where "paging_wf s2 {d}" "view s2 d = (view s1 d)(6 \<mapsto> g)"
    using roomy_map [OF k f(1), of d "0x6000"] by auto
  then show ?thesis using f(2) s(3) by metis
qed

theorem paging_isolation_witness: "\<exists>s d f g. view s d 5 = Some f \<and> view s d 6 = Some g \<and> f \<noteq> g \<and> f \<noteq> d \<and> f \<notin> pmm_avail (pm s)"
proof -
  obtain s d f g where h: "paging_wf s {d}" "view s d = [5 \<mapsto> f, 6 \<mapsto> g]" using paging_example_pages by blast
  have v: "view s d 5 = Some f" "view s d 6 = Some g" using h(2) by simp_all
  then show ?thesis using paging_isolation [OF h(1) _ _ v] by auto
qed


theorem paging_teardown_witness: "\<exists>s d. pmm_avail (pm s) \<subset> pmm_avail (pmm_free_frame (pm (paging_free_user_directory s d)) d)"
proof -
  obtain d s where s: "paging_wf s {d}" using paging_example_dir by blast
  have "d \<notin> pmm_avail (pm s)" using paging_wf_dir [OF s, of d d] by simp
  then show ?thesis using paging_teardown [OF s, of d] by (intro exI [of _ s] exI [of _ d]) auto
qed

theorem paging_init_identity_witness: "kernel_map paging_example (cr3 paging_example) 256 = Some 0x100000"
  unfolding paging_example_def using paging_init_identity [OF paging_ram_ok(1-3)] by simp

end
