(* ===== verification/Task_Life.thy ===== *)
theory Task_Life
  imports Task_Sched Kheap_Spec Paging_Spec
begin

text \<open>
  The life of a task across the components: \<open>task_create\<close> takes a stack from the kernel heap and a
  directory from the frame allocator, \<open>task_reap\<close> gives back what an exited task had. The
  invariant ties the task table to the live blocks of the heap and to the ledger of the address
  spaces; nothing is shared between two tasks, lost, or given back twice.
\<close>

section \<open>The invariant across the components\<close>

definition live_task :: "kernel \<Rightarrow> nat \<Rightarrow> bool" where
  "live_task s i \<longleftrightarrow> 1 \<le> i \<and> i < 8 \<and> stack_base (tasks s ! i) \<noteq> 0"

definition dirs :: "kernel \<Rightarrow> u32 set" where
  "dirs s = (\<lambda>i. page_directory (tasks s ! i)) ` {i. live_task s i}"

lemma in_dirs: "live_task s i \<Longrightarrow> page_directory (tasks s ! i) \<in> dirs s"
  unfolding dirs_def by (rule imageI) simp

text \<open>A slot has a stack exactly when it has a directory, and both when a task is in it.\<close>

definition slot_ok :: "kernel \<Rightarrow> nat \<Rightarrow> bool" where
  "slot_ok s i \<longleftrightarrow> (let t = tasks s ! i in (stack_base t = 0 \<longleftrightarrow> page_directory t = 0) \<and> (state t \<noteq> TASK_UNUSED \<longrightarrow> stack_base t \<noteq> 0) \<and>
     (task_count s \<le> i \<longrightarrow> stack_base t = 0))"

definition apart :: "kernel \<Rightarrow> bool" where
  "apart s \<longleftrightarrow> (\<forall>i j. live_task s i \<longrightarrow> live_task s j \<longrightarrow> i \<noteq> j \<longrightarrow>
     page_directory (tasks s ! i) \<noteq> page_directory (tasks s ! j) \<and> stack_base (tasks s ! i) \<noteq> stack_base (tasks s ! j))"

definition has_stack :: "kernel \<Rightarrow> blocks \<Rightarrow> nat \<Rightarrow> bool" where
  "has_stack s bs i \<longleftrightarrow> (\<exists>sz \<ge> 4096. (unat (stack_base (tasks s ! i)), sz) \<in> heap_live (heap s) bs)"

definition kernel_wf :: "kernel \<Rightarrow> blocks \<Rightarrow> bool" where
  "kernel_wf s bs \<longleftrightarrow> sched_ok s \<and> heap_inv (heap s) bs \<and> paging_wf (pg s) (dirs s) \<and>
     (\<forall>i < 8. 1 \<le> i \<longrightarrow> slot_ok s i) \<and> apart s \<and> (\<forall>i. live_task s i \<longrightarrow> has_stack s bs i)"

section \<open>Writing to a live block\<close>

lemma heap_live_mem [simp]: "heap_live (h\<lparr>kheap.mem := m\<rparr>) bs = heap_live h bs"
  by (simp add: heap_live_def)

lemma heap_inv_write:
  assumes "heap_inv h bs" "(p, sz) \<in> heap_live h bs" "p \<le> x" "x < p + sz"
  shows "heap_inv (h\<lparr>kheap.mem := (kheap.mem h)(adr x := v)\<rparr>) bs"
proof -
  let ?lo = "unat (heap_start h)"
  have x: "x \<in> payloads ?lo bs" using assms(2-4) unfolding payloads_live heap_live_def by (intro UN_I [of "(p, sz)"]) simp_all
  then have xb: "x < 4294967296" using payloads_bounds [OF x] assms(1) by (simp add: heap_inv_def heap_rel_def)
  have ne: "y \<noteq> x \<and> y < 4294967296" if "y \<in> hdrs ?lo bs" for y
    using that x hdrs_payloads [of ?lo bs] hdrs_bounds [OF that] assms(1) by (auto simp: heap_inv_def heap_rel_def)
  have "seg ((kheap.mem h)(adr x := v)) (?lo + tot bs) ?lo 0 bs = seg (kheap.mem h) (?lo + tot bs) ?lo 0 bs"
    using ne xb by (intro seg_frame) auto
  then show ?thesis using assms(1) by (simp add: heap_inv_def heap_rel_def)
qed

lemma live_block_bound: "heap_inv h bs \<Longrightarrow> (p, sz) \<in> heap_live h bs \<Longrightarrow> p + sz < 4294967296 \<and> 0 < p"
  unfolding heap_inv_def heap_rel_def heap_live_def using live_bounds by fastforce

lemma push_words_heap:
  assumes "heap_inv h bs" "(unat b, sz) \<in> heap_live h bs" "4096 \<le> sz" "push_words (kheap.mem h) (b + 4096) [e, l, 0, 0, 0, 0] = (m, sp)"
  shows "heap_inv (h\<lparr>kheap.mem := m\<rparr>) bs" "sp + 24 = b + 4096" "m (sp + 16) = l" "m (sp + 20) = e"
    "\<And>x. x < 4294967296 \<Longrightarrow> \<not> (unat b \<le> x \<and> x < unat b + sz) \<Longrightarrow> m (adr x) = kheap.mem h (adr x)"
proof -
  note bd = live_block_bound [OF assms(1,2)]
  have sp: "sp = b + 4072" and m: "m = (kheap.mem h)(b + 4092 := e, b + 4088 := l, b + 4084 := 0, b + 4080 := 0, b + 4076 := 0, b + 4072 := 0)"
    using assms(4) by (auto simp: push_words_def)
  have a: "b + numeral k = adr (unat b + numeral k)" for k using adr_add_numeral [of "unat b" k] by simp
  define g where "g = (\<lambda>m. h\<lparr>kheap.mem := m\<rparr>)"
  have w: "heap_inv (g (m(adr (unat b + k) := v))) bs" if "heap_inv (g m) bs" "k < 4096" for m k v
    using heap_inv_write [OF that(1), of "unat b" sz "unat b + k" v] that(2) assms(2,3) by (simp add: g_def)
  have "heap_inv (g (kheap.mem h)) bs" using assms(1) by (simp add: g_def)
  then have "heap_inv (g m) bs" unfolding m a by (intro w) simp_all
  then show "heap_inv (h\<lparr>kheap.mem := m\<rparr>) bs" by (simp add: g_def)
  show "sp + 24 = b + 4096" "m (sp + 16) = l" "m (sp + 20) = e" by (simp_all add: sp m)
  fix x assume x: "x < 4294967296" "\<not> (unat b \<le> x \<and> x < unat b + sz)"
  have "adr x \<noteq> adr (unat b + k)" if "k < 4096" for k using x that assms(3) bd by (subst adr_eq) auto
  then show "m (adr x) = kheap.mem h (adr x)" unfolding m a by simp
qed

section \<open>Creating a task\<close>

lemma kernel_wf_grow:
  assumes "kernel_wf s bs" "task_count s < 8"
  shows "kernel_wf (s\<lparr>task_count := Suc (task_count s)\<rparr>) bs"
proof -
  let ?s = "s\<lparr>task_count := Suc (task_count s)\<rparr>"
  have "live_task ?s = live_task s" by (simp add: live_task_def fun_eq_iff)
  moreover from this have "dirs ?s = dirs s" by (simp add: dirs_def)
  moreover have "sched_ok ?s" using assms unfolding kernel_wf_def sched_ok_def runnable_def Let_def by auto
  moreover have "slot_ok s i \<Longrightarrow> slot_ok ?s i" for i by (auto simp: slot_ok_def Let_def)
  moreover have "apart ?s = apart s" "has_stack ?s bs = has_stack s bs" by (simp_all add: apart_def has_stack_def live_task_def fun_eq_iff)
  ultimately show ?thesis using assms unfolding kernel_wf_def by simp
qed

text \<open>Exchanging the heap and the page tables below the task table.\<close>

lemma kernel_wf_resources:
  assumes "kernel_wf s bs" "heap_inv h bs'" "paging_wf p (dirs s)" "cr3 p = cr3 (pg s)" "heap_live (heap s) bs \<subseteq> heap_live h bs'"
  shows "kernel_wf (s\<lparr>heap := h, pg := p\<rparr>) bs'"
proof -
  let ?s = "s\<lparr>heap := h, pg := p\<rparr>"
  have l: "live_task ?s = live_task s" "slot_ok ?s = slot_ok s" by (simp_all add: live_task_def slot_ok_def fun_eq_iff)
  then have d: "dirs ?s = dirs s" "apart ?s = apart s" by (simp_all add: dirs_def apart_def)
  have "sched_ok ?s" using assms(1,4) unfolding kernel_wf_def by (auto intro: sched_ok_cong)
  moreover have "has_stack s bs i \<Longrightarrow> has_stack ?s bs' i" for i using assms(5) by (auto simp: has_stack_def)
  ultimately show ?thesis using assms(1-3) unfolding kernel_wf_def l d by simp
qed

text \<open>Filling an unused slot.\<close>

lemma kernel_wf_fill:
  assumes wf: "kernel_wf s bs" and i: "1 \<le> i" "i < task_count s" "state (tasks s ! i) = TASK_UNUSED" "stack_base (tasks s ! i) = 0"
    and t: "state t = TASK_READY" "stack_base t \<noteq> 0" "page_directory t \<noteq> 0"
    and h: "heap_inv h bs'" "heap_live h bs' = insert (unat (stack_base t), sz) (heap_live (heap s) bs)" "4096 \<le> sz" "(unat (stack_base t), sz) \<notin> heap_live (heap s) bs"
    and p: "paging_wf p (insert (page_directory t) (dirs s))" "page_directory t \<notin> dirs s" "cr3 p = cr3 (pg s)"
  shows "kernel_wf (set_task (s\<lparr>heap := h, pg := p\<rparr>) i t) bs'"
proof -
  let ?s = "set_task (s\<lparr>heap := h, pg := p\<rparr>) i t"
  have l8: "length (tasks s) = 8" "task_count s \<le> 8" using wf by (auto simp: kernel_wf_def sched_ok_def)
  have tj: "tasks ?s ! j = (if j = i then t else tasks s ! j)" if "j < 8" for j using that i l8 by simp
  have lv: "live_task ?s j \<longleftrightarrow> j = i \<or> live_task s j" for j using i t l8 by (auto simp: live_task_def nth_list_update)
  have ni: "\<not> live_task s i" using i(4) by (simp add: live_task_def)
  have ld: "j < 8" if "live_task s j" for j using that by (simp add: live_task_def)
  have ji: "j \<noteq> i" if "live_task s j" for j using that ni by metis
  have tn: "tasks ?s ! i = t" "live_task s j \<Longrightarrow> tasks ?s ! j = tasks s ! j" for j using i l8 ji [of j] by auto
  have "{j. live_task ?s j} = insert i {j. live_task s j}" using lv by auto
  then have d: "dirs ?s = insert (page_directory t) (dirs s)" unfolding dirs_def using tn by (simp cong: image_cong_simp)
  have ap: "apart ?s"
  proof -
    have "stack_base (tasks s ! j) \<noteq> stack_base t" if j: "live_task s j" for j
    proof
      assume e: "stack_base (tasks s ! j) = stack_base t"
      obtain sz' where b: "(unat (stack_base t), sz') \<in> heap_live (heap s) bs" "4096 \<le> sz'"
        using wf j e unfolding kernel_wf_def has_stack_def by metis
      then have "{unat (stack_base t)..<unat (stack_base t) + sz} \<inter> {unat (stack_base t)..<unat (stack_base t) + sz'} = {}"
        using kernel_heap.live_disj [OF h(1), of "unat (stack_base t)" sz "unat (stack_base t)" sz'] h(2,4) by auto
      then show False using h(3) b(2) by auto
    qed
    moreover have "page_directory (tasks s ! j) \<noteq> page_directory t" if "live_task s j" for j using in_dirs [OF that] p(2) by auto
    moreover have "apart s" using wf by (simp add: kernel_wf_def)
    ultimately show ?thesis unfolding apart_def lv using tn by metis
  qed
  have "has_stack ?s bs' j" if "live_task ?s j" for j
  proof (cases "j = i")
    case True
    then show ?thesis using tj [of j] i l8 h(2,3) unfolding has_stack_def by auto
  next
    case False
    then have j: "live_task s j" using that lv by simp
    then have "has_stack s bs j" using wf by (simp add: kernel_wf_def)
    then show ?thesis using tj [OF ld [OF j]] False h(2) by (auto simp: has_stack_def)
  qed
  moreover have "slot_ok ?s j" if "j < 8" "1 \<le> j" for j
  proof (cases "j = i")
    case True
    then show ?thesis using tj [OF that(1)] t i by (simp add: slot_ok_def)
  next
    case False
    moreover have "slot_ok s j" using wf that by (simp add: kernel_wf_def)
    ultimately show ?thesis using tj [OF that(1)] by (simp add: slot_ok_def)
  qed
  moreover have "sched_ok ?s"
  proof -
    have ok: "sched_ok s" using wf by (simp add: kernel_wf_def)
    have ne: "i \<noteq> current_task s" using sched_running [OF ok] i(3) by auto
    have "runnable ?s 0" using ok tj [of 0] i(1) by (auto simp: sched_ok_def runnable_def)
    then show ?thesis using ok ne t(1) i p(3) l8 unfolding sched_ok_def Let_def by (auto simp: nth_list_update)
  qed
  ultimately show ?thesis using h(1) p(1) ap unfolding kernel_wf_def d by simp
qed

text \<open>The words of the blocks that are allocated already.\<close>

definition same_data :: "kheap \<Rightarrow> blocks \<Rightarrow> kheap \<Rightarrow> bool" where
  "same_data h bs h' \<longleftrightarrow> (\<forall>p sz x. (p, sz) \<in> heap_live h bs \<and> p \<le> x \<and> x < p + sz \<longrightarrow> kheap.mem h' (adr x) = kheap.mem h (adr x))"

definition created :: "kernel \<Rightarrow> blocks \<Rightarrow> nat \<Rightarrow> u32 \<Rightarrow> u32 \<Rightarrow> kernel \<Rightarrow> blocks \<Rightarrow> bool" where
  "created s bs i e l s' bs' \<longleftrightarrow> (\<exists>t sz. 1 \<le> i \<and> i < 8 \<and> state (tasks s ! i) = TASK_UNUSED \<and> tasks s' = (tasks s)[i := t] \<and> state t = TASK_READY \<and>
     4096 \<le> sz \<and> (unat (stack_base t), sz) \<notin> heap_live (heap s) bs \<and> heap_live (heap s') bs' = insert (unat (stack_base t), sz) (heap_live (heap s) bs) \<and>
     esp t + 24 = stack_base t + TASK_STACK_SIZE \<and> kheap.mem (heap s') (esp t + 16) = l \<and> kheap.mem (heap s') (esp t + 20) = e \<and>
     page_directory t \<in> pmm_avail (pm (pg s)) \<and> pmm_avail (pm (pg s')) = pmm_avail (pm (pg s)) - {page_directory t} \<and>
     view (pg s') (page_directory t) = Map.empty \<and> (\<forall>d \<in> dirs s. view (pg s') d = view (pg s) d))"

definition refused :: "kernel \<Rightarrow> blocks \<Rightarrow> kernel \<Rightarrow> blocks \<Rightarrow> bool" where
  "refused s bs s' bs' \<longleftrightarrow> tasks s' = tasks s \<and> heap_live (heap s') bs' = heap_live (heap s) bs \<and> pmm_avail (pm (pg s')) = pmm_avail (pm (pg s)) \<and>
     (\<forall>d \<in> dirs s. view (pg s') d = view (pg s) d)"

lemma task_build_correct:
  assumes wf: "kernel_wf s bs" and i: "1 \<le> i" "i < task_count s" "state (tasks s ! i) = TASK_UNUSED" "stack_base (tasks s ! i) = 0"
  shows "\<exists>r s' bs'. task_build s i e l = Some (r, s') \<and> kernel_wf s' bs' \<and> same_data (heap s) bs (heap s') \<and>
    (r = -1 \<and> refused s bs s' bs' \<or> r = int i \<and> created s bs i e l s' bs')"
proof -
  have hi: "heap_inv (heap s) bs" and pw: "paging_wf (pg s) (dirs s)" and i8: "i < 8" using wf i by (auto simp: kernel_wf_def sched_ok_def)
  obtain b h b' where k: "kmalloc (heap s) 4096 = Some (b, h)" "heap_inv h b'"
      and kd: "\<forall>p sz x. (p, sz) \<in> heap_live (heap s) bs \<and> p \<le> x \<and> x < p + sz \<longrightarrow> kheap.mem h (adr x) = kheap.mem (heap s) (adr x)"
      and kl: "if b = 0 then heap_live h b' = heap_live (heap s) bs
        else \<exists>sz \<ge> unat (4096 :: u32). (unat b, sz) \<notin> heap_live (heap s) bs \<and> heap_live h b' = insert (unat b, sz) (heap_live (heap s) bs)"
    using kernel_heap.alloc_spec [OF hi, of 4096] by auto
  show ?thesis
  proof (cases "b = 0")
    case True
    have "kernel_wf (s\<lparr>heap := h, pg := pg s\<rparr>) b'" using kernel_wf_resources [OF wf k(2) pw] kl True by simp
    then show ?thesis using k True kd kl by (auto simp: task_build_def TASK_STACK_SIZE_def same_data_def refused_def)
  next
    case b: False
    then obtain sz where sz: "4096 \<le> sz" "(unat b, sz) \<notin> heap_live (heap s) bs" "heap_live h b' = insert (unat b, sz) (heap_live (heap s) bs)" using kl by auto
    from pw show ?thesis
    proof (cases rule: clone_cases)
      case (none p)
      have lb: "(unat b, sz) \<in> heap_live h b'" using sz by simp
      obtain c where c: "heap_inv (kfree h b) c" "heap_live (kfree h b) c = heap_live h b' - {(unat b, sz)}"
        "\<forall>q t x. (q, t) \<in> heap_live h b' - {(unat b, sz)} \<and> q \<le> x \<and> x < q + t \<longrightarrow> kheap.mem (kfree h b) (adr x) = kheap.mem h (adr x)"
        using kernel_heap.dealloc_spec [OF k(2) lb] by auto
      then have hl: "heap_live (kfree h b) c = heap_live (heap s) bs" using sz by auto
      let ?p = "(pg s)\<lparr>pm := p\<rparr>"
      have "kernel_wf (s\<lparr>heap := kfree h b, pg := ?p\<rparr>) c" using kernel_wf_resources [OF wf c(1) none(2)] hl by simp
      moreover have "task_build s i e l = Some (-1, s\<lparr>heap := kfree h b, pg := ?p\<rparr>)" using k b none(1) by (simp add: task_build_def TASK_STACK_SIZE_def)
      moreover have "same_data (heap s) bs (kfree h b)" unfolding same_data_def using c(3) kd sz(2,3) by (metis Diff_iff insertI2 singletonD)
      ultimately show ?thesis using hl none(3) by (intro exI [of _ "-1"] exI [of _ "s\<lparr>heap := kfree h b, pg := ?p\<rparr>"] exI [of _ c]) (simp add: refused_def)
    next
      case (dir d p)
      obtain m sp where m: "push_words (kheap.mem h) (b + 4096) [e, l, 0, 0, 0, 0] = (m, sp)" by fastforce
      have lb: "(unat b, sz) \<in> heap_live h b'" using sz by simp
      note w = push_words_heap [OF k(2) lb sz(1) m]
      let ?h = "h\<lparr>kheap.mem := m\<rparr>" and ?t = "(tasks s ! i)\<lparr>stack_base := b, page_directory := d, esp := sp, task_id := int i, state := TASK_READY\<rparr>"
      let ?s = "set_task (s\<lparr>heap := ?h, pg := p\<rparr>) i ?t"
      have tb: "task_build s i e l = Some (int i, ?s)" using k b dir(1,2) m by (simp add: task_build_def TASK_STACK_SIZE_def)
      have nd: "d \<notin> dirs s" using paging_wf_dir [OF pw, of d d] dir(3) by auto
      have "kernel_wf ?s b'"
        using i sz w(1) dir(2,4) nd b clone_cr3 [OF dir(1)] by (intro kernel_wf_fill [OF wf i, where sz = sz]) simp_all
      moreover have "same_data (heap s) bs ?h" unfolding same_data_def
      proof (intro allI impI)
        fix q t x assume q: "(q, t) \<in> heap_live (heap s) bs \<and> q \<le> x \<and> x < q + t"
        then have "{unat b..<unat b + sz} \<inter> {q..<q + t} = {}" using kernel_heap.live_disj [OF k(2) lb, of q t] sz(2,3) by auto
        then have "\<not> (unat b \<le> x \<and> x < unat b + sz)" using q by auto
        moreover have "x < 4294967296" using live_block_bound [OF hi, of q t] q by auto
        ultimately show "kheap.mem ?h (adr x) = kheap.mem (heap s) (adr x)" using w(5) kd q by simp
      qed
      moreover have "created s bs i e l ?s b'"
        unfolding created_def using i i8 sz w(2-4) dir by (intro exI [of _ ?t] exI [of _ sz]) (simp add: TASK_STACK_SIZE_def)
      ultimately show ?thesis using tb by (intro exI [of _ "int i"] exI [of _ ?s] exI [of _ b']) simp
    qed
  qed
qed

lemma task_create_spec:
  assumes "kernel_wf s bs"
  shows "\<exists>r s' bs'. task_create s e l = Some (r, s') \<and> kernel_wf s' bs' \<and> same_data (heap s) bs (heap s') \<and>
    (r = -1 \<and> refused s bs s' bs' \<or> (\<exists>i. r = int i \<and> created s bs i e l s' bs'))"
proof -
  have ok: "sched_ok s" "\<And>i. i < 8 \<Longrightarrow> 1 \<le> i \<Longrightarrow> slot_ok s i" using assms by (auto simp: kernel_wf_def)
  show ?thesis
  proof (cases "task_slot s")
    case (Some i)
    then have i: "1 \<le> i" "i < task_count s" "state (tasks s ! i) = TASK_UNUSED" "stack_base (tasks s ! i) = 0"
      by (auto simp: task_slot_def find_from_Some_iff)
    show ?thesis using task_build_correct [OF assms i, of e l] Some unfolding task_create_def by auto
  next
    case None
    show ?thesis
    proof (cases "8 \<le> task_count s")
      case True
      then show ?thesis using assms None by (auto simp: task_create_def MAX_TASKS_def refused_def same_data_def intro!: exI [of _ bs])
    next
      case False
      let ?s = "s\<lparr>task_count := Suc (task_count s)\<rparr>" and ?i = "task_count s"
      have g: "kernel_wf ?s bs" using kernel_wf_grow [OF assms] False by simp
      have i: "1 \<le> ?i" "?i < task_count ?s" "state (tasks ?s ! ?i) = TASK_UNUSED" "stack_base (tasks ?s ! ?i) = 0"
        using ok(1) ok(2) [of ?i] False by (auto simp: sched_ok_def slot_ok_def Let_def)
      have "dirs ?s = dirs s" by (simp add: dirs_def live_task_def)
      then have "created ?s bs ?i e l = created s bs ?i e l" "refused ?s bs = refused s bs" by (simp_all add: created_def refused_def fun_eq_iff)
      then show ?thesis using task_build_correct [OF g i, of e l] None False by (auto simp: task_create_def MAX_TASKS_def)
    qed
  qed
qed


section \<open>Reaping\<close>

definition zombie :: "kernel \<Rightarrow> nat \<Rightarrow> bool" where
  "zombie s i \<longleftrightarrow> live_task s i \<and> state (tasks s ! i) = TASK_UNUSED"

text \<open>The frames of the address space of slot \<open>i\<close>.\<close>

definition frames_of :: "kernel \<Rightarrow> nat \<Rightarrow> u32 set" where
  "frames_of s i = (let d = page_directory (tasks s ! i) in insert d (set_mset (owned (pg s) d)))"

lemma task_reap_one_eq:
  assumes "stack_base (tasks s ! i) \<noteq> 0" "state (tasks s ! i) = TASK_UNUSED" "page_directory (tasks s ! i) \<noteq> 0"
  defines "d \<equiv> page_directory (tasks s ! i)"
  shows "task_reap_one s i = set_task (s\<lparr>heap := kfree (heap s) (stack_base (tasks s ! i)), fs := fat_close_all_for_task (fs s) (int i),
      pg := (pg s)\<lparr>pm := pmm_free_frame (pm (paging_free_user_directory (pg s) d)) d\<rparr>\<rparr>) i ((tasks s ! i)\<lparr>stack_base := 0, page_directory := 0\<rparr>)"
  using assms by (simp add: task_reap_one_def Let_def set_task_def d_def free_user_directory_eq)

lemma reap_one_step:
  assumes wf: "kernel_wf s bs" and i: "1 \<le> i" "i < task_count s" and z: "zombie s i"
  shows "\<exists>bs' sz. kernel_wf (task_reap_one s i) bs' \<and> heap_live (heap (task_reap_one s i)) bs' = heap_live (heap s) bs - {(unat (stack_base (tasks s ! i)), sz)} \<and>
      (unat (stack_base (tasks s ! i)), sz) \<in> heap_live (heap s) bs \<and>
      pmm_avail (pm (pg (task_reap_one s i))) = pmm_avail (pm (pg s)) \<union> frames_of s i \<and>
      (\<forall>j < 8. zombie (task_reap_one s i) j \<longleftrightarrow> j \<noteq> i \<and> zombie s j) \<and>
      (\<forall>j < 8. j \<noteq> i \<longrightarrow> tasks (task_reap_one s i) ! j = tasks s ! j) \<and>
      (\<forall>d. owned (pg (task_reap_one s i)) d = owned (pg s) d) \<and> (\<forall>d. view (pg (task_reap_one s i)) d = view (pg s) d)"
proof -
  let ?d = "page_directory (tasks s ! i)" and ?b = "stack_base (tasks s ! i)" and ?s = "task_reap_one s i"
  have ok: "sched_ok s" "slot_ok s i" "apart s" "heap_inv (heap s) bs" "paging_wf (pg s) (dirs s)" and l8: "length (tasks s) = 8" "i < 8"
    using wf i by (auto simp: kernel_wf_def sched_ok_def)
  have zi: "live_task s i" "?b \<noteq> 0" "state (tasks s ! i) = TASK_UNUSED" "?d \<noteq> 0" using z ok(2) by (auto simp: zombie_def live_task_def slot_ok_def Let_def)
  obtain sz where sz: "4096 \<le> sz" "(unat ?b, sz) \<in> heap_live (heap s) bs" using wf zi(1) by (auto simp: kernel_wf_def has_stack_def)
  obtain c where c: "heap_inv (kfree (heap s) ?b) c" "heap_live (kfree (heap s) ?b) c = heap_live (heap s) bs - {(unat ?b, sz)}"
    using kernel_heap.dealloc_spec [OF ok(4) sz(2)] by auto
  note e = task_reap_one_eq [OF zi(2,3,4)]
  note td = teardown [OF ok(5) in_dirs [OF zi(1)]]
  have t: "tasks ?s ! j = (if j = i then (tasks s ! i)\<lparr>stack_base := 0, page_directory := 0\<rparr> else tasks s ! j)" if "j < 8" for j
    unfolding e using that l8 by simp
  have lv: "live_task ?s j \<longleftrightarrow> j \<noteq> i \<and> live_task s j" for j
    using t [of j] by (cases "j < 8") (auto simp: live_task_def)
  have ld: "j < 8" if "live_task s j" for j using that by (simp add: live_task_def)
  have dd: "dirs ?s = dirs s - {?d}"
  proof -
    have "{j. live_task ?s j} = {j. live_task s j} - {i}" using lv by auto
    then have "dirs ?s = (\<lambda>j. page_directory (tasks s ! j)) ` ({j. live_task s j} - {i})" unfolding dirs_def using t ld by (intro image_cong) auto
    also have "\<dots> = dirs s - {?d}" unfolding dirs_def using ok(3) zi(1) by (auto simp: apart_def)
    finally show ?thesis .
  qed
  have f: "heap ?s = kfree (heap s) ?b" "task_count ?s = task_count s" "pg ?s = (pg s)\<lparr>pm := pmm_free_frame (pm (paging_free_user_directory (pg s) ?d)) ?d\<rparr>"
    unfolding e by simp_all
  have nc: "i \<noteq> current_task s" using sched_running [OF ok(1)] zi(3) by auto
  have c8: "current_task s < 8" using ok(1) by (auto simp: sched_ok_def)
  have ln: "length (tasks ?s) = length (tasks s)" unfolding e by simp
  have "sched_ok ?s"
    by (rule sched_ok_states [OF ok(1) ln]) (use task_reap_one_shape(1-5) [of s i] t nc c8 zi(3) in auto)
  moreover have "paging_wf (pg ?s) (dirs ?s)" unfolding dd f(3) using td(1) by simp
  moreover have "slot_ok ?s j" if "j < 8" "1 \<le> j" for j
    using t [OF that(1)] wf that zi(3) by (auto simp: slot_ok_def kernel_wf_def f)
  moreover have "apart ?s" using ok(3) t ld unfolding apart_def lv by auto
  moreover have "has_stack ?s c j" if "live_task ?s j" for j
  proof -
    have j: "j \<noteq> i" "live_task s j" using that lv by auto
    then have "has_stack s bs j" "stack_base (tasks s ! j) \<noteq> ?b" using wf ok(3) zi(1) by (auto simp: kernel_wf_def apart_def)
    then show ?thesis using t [OF ld [OF j(2)]] j(1) c(2) f(1) by (auto simp: has_stack_def word_unat_eq_iff)
  qed
  ultimately have "kernel_wf ?s c" using c(1) f(1) by (simp add: kernel_wf_def)
  moreover have "zombie ?s j \<longleftrightarrow> j \<noteq> i \<and> zombie s j" if "j < 8" for j using lv t [OF that] by (auto simp: zombie_def)
  moreover have "pmm_avail (pm (pg ?s)) = pmm_avail (pm (pg s)) \<union> frames_of s i" unfolding f(3) frames_of_def Let_def using td(2) by simp
  ultimately show ?thesis using c(2) sz(2) f t by (intro exI [of _ c] exI [of _ sz]) simp
qed

lemma reap_one_other: "1 \<le> i \<Longrightarrow> i < 8 \<Longrightarrow> \<not> zombie s i \<Longrightarrow> task_reap_one s i = s"
  by (auto simp: task_reap_one_def zombie_def live_task_def Let_def)

text \<open>What the passes over the slots in \<open>J\<close> have done.\<close>

definition reaped :: "kernel \<Rightarrow> blocks \<Rightarrow> nat set \<Rightarrow> kernel \<Rightarrow> blocks \<Rightarrow> (nat \<Rightarrow> nat) \<Rightarrow> bool" where
  "reaped s bs J s' bs' sz \<longleftrightarrow> kernel_wf s' bs' \<and>
     heap_live (heap s') bs' = heap_live (heap s) bs - (\<lambda>i. (unat (stack_base (tasks s ! i)), sz i)) ` {i \<in> J. zombie s i} \<and>
     (\<forall>i \<in> J. zombie s i \<longrightarrow> (unat (stack_base (tasks s ! i)), sz i) \<in> heap_live (heap s) bs) \<and>
     pmm_avail (pm (pg s')) = pmm_avail (pm (pg s)) \<union> (\<Union>i \<in> {i \<in> J. zombie s i}. frames_of s i) \<and>
     (\<forall>j < 8. zombie s' j \<longleftrightarrow> j \<notin> J \<and> zombie s j) \<and> (\<forall>d. view (pg s') d = view (pg s) d)"

lemma reaped_other:
  assumes "reaped s bs J s' bs' sz" "\<not> zombie s i"
  shows "reaped s bs (insert i J) s' bs' sz"
proof -
  have "{j \<in> insert i J. zombie s j} = {j \<in> J. zombie s j}" using assms(2) by auto
  then show ?thesis using assms unfolding reaped_def by auto
qed

lemma reaped_one:
  assumes wf: "kernel_wf s bs" and i: "1 \<le> i" "i < task_count s" "i \<notin> J" "zombie s i" and J: "J \<subseteq> {..<8}"
  shows "\<exists>b1. kernel_wf (task_reap_one s i) b1 \<and>
    (\<forall>s' b2 sz. reaped (task_reap_one s i) b1 J s' b2 sz \<longrightarrow> (\<exists>f. reaped s bs (insert i J) s' b2 f))"
proof -
  let ?s = "task_reap_one s i"
  obtain b1 sz1 where st: "kernel_wf ?s b1" "heap_live (heap ?s) b1 = heap_live (heap s) bs - {(unat (stack_base (tasks s ! i)), sz1)}"
      "(unat (stack_base (tasks s ! i)), sz1) \<in> heap_live (heap s) bs" "pmm_avail (pm (pg ?s)) = pmm_avail (pm (pg s)) \<union> frames_of s i"
      "\<forall>j < 8. zombie ?s j \<longleftrightarrow> j \<noteq> i \<and> zombie s j" "\<forall>j < 8. j \<noteq> i \<longrightarrow> tasks ?s ! j = tasks s ! j"
      "\<forall>d. owned (pg ?s) d = owned (pg s) d" "\<forall>d. view (pg ?s) d = view (pg s) d"
    using reap_one_step [OF wf i(1,2,4)] by (elim exE conjE) (rule that)
  have tj: "tasks ?s ! j = tasks s ! j" "zombie ?s j = zombie s j" "frames_of ?s j = frames_of s j" if "j \<in> J" for j
  proof -
    have j: "j < 8" "j \<noteq> i" using that J i(3) by auto
    show t: "tasks ?s ! j = tasks s ! j" using st(6) j by simp
    show "zombie ?s j = zombie s j" using st(5) j by simp
    show "frames_of ?s j = frames_of s j" using st(7) by (simp add: frames_of_def t)
  qed
  have Z: "{j \<in> insert i J. zombie s j} = insert i {j \<in> J. zombie s j}" using i(4) by auto
  have Z': "{j \<in> J. zombie ?s j} = {j \<in> J. zombie s j}" using tj(2) by auto
  have "reaped s bs (insert i J) s' b2 (sz(i := sz1))" if ih: "reaped ?s b1 J s' b2 sz" for s' b2 sz
  proof -
    let ?f = "sz(i := sz1)"
    have im: "(\<lambda>j. (unat (stack_base (tasks ?s ! j)), sz j)) ` {j \<in> J. zombie s j} = (\<lambda>j. (unat (stack_base (tasks s ! j)), ?f j)) ` {j \<in> J. zombie s j}"
      using tj(1) i(3) by (intro image_cong) auto
    have fr: "(\<Union>j \<in> {j \<in> J. zombie s j}. frames_of ?s j) = (\<Union>j \<in> {j \<in> J. zombie s j}. frames_of s j)" using tj(3) by auto
    note r = ih [unfolded reaped_def Z' im fr st(2,4)]
    have "heap_live (heap s') b2 = heap_live (heap s) bs - (\<lambda>j. (unat (stack_base (tasks s ! j)), ?f j)) ` insert i {j \<in> J. zombie s j}"
      using r by auto
    moreover have "\<forall>j \<in> insert i J. zombie s j \<longrightarrow> (unat (stack_base (tasks s ! j)), ?f j) \<in> heap_live (heap s) bs"
      using r st(3) tj(1,2) i(3) by auto
    moreover have "\<forall>j < 8. zombie s' j \<longleftrightarrow> j \<notin> insert i J \<and> zombie s j" using r st(5) by auto
    moreover have "pmm_avail (pm (pg s')) = pmm_avail (pm (pg s)) \<union> (\<Union>j \<in> insert i {j \<in> J. zombie s j}. frames_of s j)" using r by auto
    ultimately show ?thesis using r st(8) unfolding reaped_def Z by simp
  qed
  then show ?thesis using st(1) by blast
qed

lemma reap_all:
  assumes "kernel_wf s bs" "distinct js" "set js \<subseteq> {1..<task_count s}"
  shows "\<exists>bs' sz. reaped s bs (set js) (foldl task_reap_one s js) bs' sz"
  using assms
proof (induction js arbitrary: s bs)
  case Nil
  then show ?case by (auto simp: reaped_def)
next
  case (Cons i js)
  have i: "1 \<le> i" "i < task_count s" "i < 8" "i \<notin> set js" and js: "set js \<subseteq> {..<8}" using Cons.prems by (auto simp: kernel_wf_def sched_ok_def)
  have d: "distinct js" "set js \<subseteq> {1..<task_count (task_reap_one s i)}" using Cons.prems task_reap_one_shape(2) [of s i] by auto
  show ?case
  proof (cases "zombie s i")
    case False
    then have e: "task_reap_one s i = s" using reap_one_other i by simp
    show ?thesis using Cons.IH [OF Cons.prems(1) d(1) d(2) [unfolded e]] reaped_other [OF _ False] unfolding foldl_Cons e list.set by blast
  next
    case True
    obtain b1 where b: "kernel_wf (task_reap_one s i) b1"
        "\<And>s' b2 sz. reaped (task_reap_one s i) b1 (set js) s' b2 sz \<Longrightarrow> \<exists>f. reaped s bs (insert i (set js)) s' b2 f"
      using reaped_one [OF Cons.prems(1) i(1,2,4) True js] by blast
    obtain b2 sz where "reaped (task_reap_one s i) b1 (set js) (foldl task_reap_one (task_reap_one s i) js) b2 sz" using Cons.IH [OF b(1) d] by blast
    then show ?thesis using b(2) unfolding foldl_Cons list.set by blast
  qed
qed

text \<open>
  C28: reaping, across the heap, the page tables and the task table. \<open>task_reap\<close> keeps the invariant;
  afterwards no exited task holds anything: its slot can be used again, its stack is no block of the
  heap any more, and the frames of its address space, its directory included, are available again.
  These blocks and frames are all that is given back, and the views of the tasks that live are unchanged.
\<close>

theorem task_reap_correct:
  assumes "kernel_wf s bs"
  shows "\<exists>bs' sz. kernel_wf (task_reap s) bs' \<and> (\<forall>i. \<not> zombie (task_reap s) i) \<and>
    heap_live (heap (task_reap s)) bs' = heap_live (heap s) bs - (\<lambda>i. (unat (stack_base (tasks s ! i)), sz i)) ` {i. zombie s i} \<and>
    (\<forall>i. zombie s i \<longrightarrow> (unat (stack_base (tasks s ! i)), sz i) \<in> heap_live (heap s) bs) \<and>
    pmm_avail (pm (pg (task_reap s))) = pmm_avail (pm (pg s)) \<union> (\<Union>i \<in> {i. zombie s i}. frames_of s i) \<and>
    (\<forall>d. view (pg (task_reap s)) d = view (pg s) d)"
proof -
  have z: "i \<in> set [1..<task_count s]" if "zombie s i" for i
    using that assms by (auto simp: zombie_def live_task_def kernel_wf_def slot_ok_def Let_def not_le)
  then have zs: "{i \<in> set [1..<task_count s]. zombie s i} = {i. zombie s i}" by blast
  have n8: "i < 8" if "zombie t i" for i t using that by (simp add: zombie_def live_task_def)
  have r: "distinct [1..<task_count s]" "set [1..<task_count s] \<subseteq> {1..<task_count s}" by auto
  from reap_all [OF assms r] obtain b2 sz where ih: "reaped s bs (set [1..<task_count s]) (task_reap s) b2 sz" unfolding task_reap_def by blast
  note u = ih [unfolded reaped_def zs]
  have "\<not> zombie (task_reap s) i" for i using u n8 z by metis
  moreover have "\<forall>i. zombie s i \<longrightarrow> (unat (stack_base (tasks s ! i)), sz i) \<in> heap_live (heap s) bs" using u z by metis
  ultimately show ?thesis using u by (intro exI [of _ b2] exI [of _ sz]) simp
qed

section \<open>An example\<close>

definition kernel_boot :: kernel where
  "kernel_boot = tasking_init (kernel0\<lparr>heap := kh0, pg := paging_example\<rparr>)"

lemma kernel_boot_wf: "kernel_wf kernel_boot [(1048560, True)]"
proof -
  have l: "length (tasks kernel_boot) = 8" by (simp add: kernel_boot_def tasking_init_def kernel0_def Let_def)
  have t: "stack_base (tasks kernel_boot ! i) = 0 \<and> (1 \<le> i \<longrightarrow> page_directory (tasks kernel_boot ! i) = 0 \<and> state (tasks kernel_boot ! i) = TASK_UNUSED)" if "i < 8" for i
    using that by (simp add: kernel_boot_def tasking_init_def kernel0_def task0_def Let_def nth_list_update MAX_TASKS_def)
  then have nl: "\<not> live_task kernel_boot i" for i by (auto simp: live_task_def)
  then have d: "dirs kernel_boot = {}" by (simp add: dirs_def)
  have f: "heap kernel_boot = kh0" "pg kernel_boot = paging_example" by (simp_all add: kernel_boot_def tasking_init_def Let_def)
  have "cr3 paging_example = kdir paging_example" unfolding paging_example_def by (simp add: paging_init_def load_page_directory_def Let_def)
  then have "sched_ok kernel_boot" unfolding kernel_boot_def by (intro tasking_init_ok) (simp_all add: kernel0_def)
  moreover have "slot_ok kernel_boot i" if "i < 8" "1 \<le> i" for i using t [OF that(1)] that(2) by (simp add: slot_ok_def)
  ultimately show ?thesis using kh0_inv paging_example_ok(1) nl by (simp add: kernel_wf_def f d apart_def)
qed


theorem task_reap_correct_witness: "\<exists>bs'. kernel_wf (task_reap kernel_boot) bs' \<and> \<not> zombie (task_reap kernel_boot) 1"
  using task_reap_correct [OF kernel_boot_wf] by (elim exE conjE) (intro exI conjI, assumption, simp)

end
