(* ===== verification/Loader.thy ===== *)
theory Loader
  imports Task_Life
begin

unbundle bit_operations_syntax

text \<open>
  Starting a program: the ELF loader (src/src/elf.c), the user stack with its arguments
  (src/src/usermode.c) and the launch of a program by another one (src/src/exec.c). \<open>ram\<close> holds the
  bytes of the data frames; the page tables are the words of \<open>pg\<close>, and that no data frame is a
  table is a theorem of the paging component. The kernel writes through virtual addresses, which
  the processor translates with the directory in \<open>cr3\<close>; \<open>None\<close> is a page fault in the kernel.
\<close>

section \<open>Memory as the kernel reaches it\<close>

record machine =
  kern :: kernel
  ram :: "u32 \<Rightarrow> u8"

abbreviation mpg :: "machine \<Rightarrow> paging" where
  "mpg m \<equiv> pg (kern m)"

definition with_pg :: "machine \<Rightarrow> paging \<Rightarrow> machine" where
  "with_pg m p = m\<lparr>kern := (kern m)\<lparr>pg := p\<rparr>\<rparr>"

definition phys_of :: "machine \<Rightarrow> u32 \<Rightarrow> u32 option" where
  "phys_of m v = map_option (\<lambda>f. f + v mod 4096) (kernel_map (mpg m) (cr3 (mpg m)) (unat v div 4096))"

fun vstores :: "machine \<Rightarrow> u32 \<Rightarrow> bytes \<Rightarrow> machine option" where
  "vstores m v [] = Some m"
| "vstores m v (x # xs) =
     (case phys_of m v of None \<Rightarrow> None | Some p \<Rightarrow> vstores (m\<lparr>ram := (ram m)(p := x)\<rparr>) (v + 1) xs)"

section \<open>The ELF file\<close>

record elf32_header =
  e_ident :: bytes
  e_type :: u16
  e_machine :: u16
  e_version :: u32
  e_entry :: u32
  e_phoff :: u32
  e_shoff :: u32
  e_flags :: u32
  e_ehsize :: u16
  e_phentsize :: u16
  e_phnum :: u16
  e_shentsize :: u16
  e_shnum :: u16
  e_shstrndx :: u16

record elf32_program_header =
  p_type :: u32
  p_offset :: u32
  p_vaddr :: u32
  p_paddr :: u32
  p_filesz :: u32
  p_memsz :: u32
  p_flags :: u32
  p_align :: u32

definition ELFCLASS32 :: u8 where "ELFCLASS32 = 1"
definition ELFDATA2LSB :: u8 where "ELFDATA2LSB = 1"
definition ET_EXEC :: u16 where "ET_EXEC = 2"
definition EM_386 :: u16 where "EM_386 = 3"
definition PT_LOAD :: u32 where "PT_LOAD = 1"
definition ELF_MAX_FILE_SIZE :: u32 where "ELF_MAX_FILE_SIZE = 65536"
definition USER_STACK_VADDR :: u32 where "USER_STACK_VADDR = 0x3FF000"
definition USER_STACK_SIZE :: u32 where "USER_STACK_SIZE = 4096"
definition MAX_ARGS :: nat where "MAX_ARGS = 16"

text \<open>Fields of the file buffer at a byte offset, little endian.\<close>

definition img16 :: "(u32 \<Rightarrow> u8) \<Rightarrow> u32 \<Rightarrow> u16" where
  "img16 img a = get_le16 [img a, img (a + 1)] 0"

definition img32 :: "(u32 \<Rightarrow> u8) \<Rightarrow> u32 \<Rightarrow> u32" where
  "img32 img a = get_le32 [img a, img (a + 1), img (a + 2), img (a + 3)] 0"

definition elf_header_at :: "(u32 \<Rightarrow> u8) \<Rightarrow> elf32_header" where
  "elf_header_at img = \<lparr>e_ident = map (\<lambda>i. img (of_nat i)) [0..<16], e_type = img16 img 16, e_machine = img16 img 18, e_version = img32 img 20,
     e_entry = img32 img 24, e_phoff = img32 img 28, e_shoff = img32 img 32, e_flags = img32 img 36, e_ehsize = img16 img 40, e_phentsize = img16 img 42,
     e_phnum = img16 img 44, e_shentsize = img16 img 46, e_shnum = img16 img 48, e_shstrndx = img16 img 50\<rparr>"

definition program_header_at :: "(u32 \<Rightarrow> u8) \<Rightarrow> u32 \<Rightarrow> elf32_program_header" where
  "program_header_at img a = \<lparr>p_type = img32 img a, p_offset = img32 img (a + 4), p_vaddr = img32 img (a + 8), p_paddr = img32 img (a + 12),
     p_filesz = img32 img (a + 16), p_memsz = img32 img (a + 20), p_flags = img32 img (a + 24), p_align = img32 img (a + 28)\<rparr>"

definition elf_valid :: "elf32_header \<Rightarrow> bool" where
  "elf_valid h \<longleftrightarrow> e_ident h ! 0 = 0x7F \<and> e_ident h ! 1 = 0x45 \<and> e_ident h ! 2 = 0x4C \<and> e_ident h ! 3 = 0x46 \<and>
     e_ident h ! 4 = ELFCLASS32 \<and> e_ident h ! 5 = ELFDATA2LSB \<and> e_type h = ET_EXEC \<and> e_machine h = EM_386"

section \<open>Loading a segment\<close>

text \<open>The addresses that the page loop visits; its bound is at most \<open>USER_STACK_VADDR\<close>, so that the counter does not wrap.\<close>

definition segment_pages :: "u32 \<Rightarrow> u32 \<Rightarrow> u32 list" where
  "segment_pages start_page end_page = map (\<lambda>i. start_page + 4096 * of_nat i) [0..<(unat end_page - unat start_page) div 4096]"

fun load_pages :: "machine \<Rightarrow> u32 \<Rightarrow> u32 list \<Rightarrow> (bool \<times> machine) option" where
  "load_pages m table [] = Some (True, m)"
| "load_pages m table (page_addr # pages) =
     (case pmm_alloc_frame (pm (mpg m)) of
        None \<Rightarrow> None
      | Some (frame, p) \<Rightarrow>
          let m1 = with_pg m ((mpg m)\<lparr>pm := p\<rparr>) in
          if frame = 0 then Some (False, m1)
          else case vstores m1 frame (replicate 4096 0) of
                 None \<Rightarrow> None
               | Some m2 \<Rightarrow> load_pages (with_pg m2 (paging_map_user_page (mpg m2) table page_addr frame)) table pages)"

definition file_bytes :: "(u32 \<Rightarrow> u8) \<Rightarrow> u32 \<Rightarrow> u32 \<Rightarrow> bytes" where
  "file_bytes img off n = map (\<lambda>b. img (off + of_nat b)) [0..<unat n]"

definition load_segment :: "machine \<Rightarrow> (u32 \<Rightarrow> u8) \<Rightarrow> elf32_program_header \<Rightarrow> (bool \<times> machine) option" where
  "load_segment m img ph =
     (let dir = task_get_current_page_directory (kern m) in
      case paging_get_or_create_user_table (mpg m) dir (p_vaddr ph) of
        None \<Rightarrow> None
      | Some (table, p) \<Rightarrow>
          let m1 = with_pg m p;
              start_page = p_vaddr ph AND NOT (PAGE_SIZE - 1);
              end_addr = p_vaddr ph + p_memsz ph;
              end_page = (end_addr + PAGE_SIZE - 1) AND NOT (PAGE_SIZE - 1) in
          if table = 0 then Some (False, m1)
          else if USER_STACK_VADDR < end_page then Some (False, m1)
          else case load_pages m1 table (segment_pages start_page end_page) of
                 None \<Rightarrow> None
               | Some (False, m2) \<Rightarrow> Some (False, m2)
               | Some (True, m2) \<Rightarrow>
                   let m3 = with_pg m2 (paging_switch_directory (mpg m2) dir) in
                   case vstores m3 (p_vaddr ph) (file_bytes img (p_offset ph) (p_filesz ph)) of
                     None \<Rightarrow> None
                   | Some m4 \<Rightarrow> map_option (Pair True) (vstores m4 (p_vaddr ph + p_filesz ph) (replicate (unat (p_memsz ph) - unat (p_filesz ph)) 0)))"

text \<open>The loop over the program headers, with the number of segments loaded so far.\<close>

fun load_segments :: "machine \<Rightarrow> (u32 \<Rightarrow> u8) \<Rightarrow> u32 \<Rightarrow> nat list \<Rightarrow> nat \<Rightarrow> (nat option \<times> machine) option" where
  "load_segments m img phdrs [] segments_loaded = Some (Some segments_loaded, m)"
| "load_segments m img phdrs (i # is) segments_loaded =
     (let ph = program_header_at img (phdrs + 32 * of_nat i) in
      if p_type ph \<noteq> PT_LOAD then load_segments m img phdrs is segments_loaded
      else case load_segment m img ph of
             None \<Rightarrow> None
           | Some (False, m1) \<Rightarrow> Some (None, m1)
           | Some (True, m1) \<Rightarrow> load_segments m1 img phdrs is (Suc segments_loaded))"

section \<open>The user stack\<close>

definition le_bytes :: "u32 \<Rightarrow> bytes" where
  "le_bytes w = put_le32 [0, 0, 0, 0] 0 w"

text \<open>Strings pushed from the last to the first, each with its NUL; the addresses of the copies in order.\<close>

fun push_strings :: "machine \<Rightarrow> u32 \<Rightarrow> bytes list \<Rightarrow> (machine \<times> u32 \<times> u32 list) option" where
  "push_strings m tp [] = Some (m, tp, [])"
| "push_strings m tp (s # ss) =
     (let tp1 = tp - of_nat (length s + 1) in
      case vstores m tp1 (s @ [0]) of
        None \<Rightarrow> None
      | Some m1 \<Rightarrow> map_option (\<lambda>(m2, tp2, copied). (m2, tp2, copied @ [tp1])) (push_strings m1 tp1 ss))"

definition args_needed :: "bytes list \<Rightarrow> u32" where
  "args_needed argv =
     (let needed = foldl (\<lambda>n s. n + (of_nat (length s) + 1)) 0 argv;
          needed = (needed + 3) AND NOT 3;
          needed = needed + of_nat (length argv + 1) * 4
      in needed + 3 * 4)"

text \<open>From the top of the mapped stack page to the stack pointer that ring 3 starts with.\<close>

definition user_stack :: "machine \<Rightarrow> bytes list \<Rightarrow> (machine \<times> u32) option" where
  "user_stack m argv =
     (case push_strings m (USER_STACK_VADDR + USER_STACK_SIZE) (rev argv) of
        None \<Rightarrow> None
      | Some (m1, tp, copied) \<Rightarrow>
          let argv_array = (tp AND NOT 3) - of_nat (length argv + 1) * 4;
              user_esp = argv_array - 12
          in case vstores m1 argv_array (concat (map le_bytes (copied @ [0]))) of
               None \<Rightarrow> None
             | Some m2 \<Rightarrow> map_option (\<lambda>m3. (m3, user_esp))
                 (vstores m2 user_esp (le_bytes 0 @ le_bytes (of_nat (length argv)) @ le_bytes argv_array)))"

text \<open>\<open>Some (Some esp, m)\<close> is the jump to ring 3, \<open>Some (None, m)\<close> an early return.\<close>

definition usermode_enter :: "machine \<Rightarrow> bytes list \<Rightarrow> (u32 option \<times> machine) option" where
  "usermode_enter m argv0 =
     (let argv = take MAX_ARGS argv0 in
      if USER_STACK_SIZE < args_needed argv then Some (None, m)
      else case pmm_alloc_frame (pm (mpg m)) of
        None \<Rightarrow> None
      | Some (stack_frame, p) \<Rightarrow>
          let m1 = with_pg m ((mpg m)\<lparr>pm := p\<rparr>); dir = task_get_current_page_directory (kern m1) in
          if stack_frame = 0 then Some (None, m1)
          else case vstores m1 stack_frame (replicate 4096 0) of
            None \<Rightarrow> None
          | Some m2 \<Rightarrow>
              case paging_get_or_create_user_table (mpg m2) dir USER_STACK_VADDR of
                None \<Rightarrow> None
              | Some (table, q) \<Rightarrow>
                  if table = 0 then Some (None, with_pg m2 (q\<lparr>pm := pmm_free_frame (pm q) stack_frame\<rparr>))
                  else let q1 = paging_map_user_page q table USER_STACK_VADDR stack_frame;
                           m3 = with_pg m2 (paging_switch_directory q1 dir)
                    in map_option (\<lambda>(m4, user_esp). (Some user_esp, m4)) (user_stack m3 argv))"

section \<open>Loading and running a program\<close>

datatype run_result = Returned int | Entered u32 u32

text \<open>
  The part of \<open>elf_load_and_run\<close> after the file has been read: \<open>img\<close> is the buffer, \<open>fsize\<close> the size
  that \<open>fat_read_file\<close> gave. \<open>Entered entry esp\<close> is the jump to ring 3.
\<close>

definition elf_quit :: "machine \<Rightarrow> u32 \<Rightarrow> run_result \<times> machine" where
  "elf_quit m file_buf = (Returned (-1), m\<lparr>kern := (kern m)\<lparr>heap := kfree (heap (kern m)) file_buf\<rparr>\<rparr>)"

definition elf_run_image :: "machine \<Rightarrow> u32 \<Rightarrow> int \<Rightarrow> (u32 \<Rightarrow> u8) \<Rightarrow> bytes list \<Rightarrow> (run_result \<times> machine) option" where
  "elf_run_image m file_buf fsize img argv =
     (let ehdr = elf_header_at img in
      if fsize < 0 then Some (elf_quit m file_buf)
      else if fsize < 52 then Some (elf_quit m file_buf)
      else if \<not> elf_valid ehdr then Some (elf_quit m file_buf)
      else case load_segments m img (e_phoff ehdr) [0..<unat (e_phnum ehdr)] 0 of
             None \<Rightarrow> None
           | Some (None, m1) \<Rightarrow> Some (elf_quit m1 file_buf)
           | Some (Some n, m1) \<Rightarrow>
               if n = 0 then Some (elf_quit m1 file_buf)
               else case usermode_enter (m1\<lparr>kern := (kern m1)\<lparr>heap := kfree (heap (kern m1)) file_buf\<rparr>\<rparr>) argv of
                      None \<Rightarrow> None
                    | Some (None, m2) \<Rightarrow> Some (Returned (-1), m2)
                    | Some (Some user_esp, m2) \<Rightarrow> Some (Entered (e_entry ehdr) user_esp, m2))"

text \<open>\<open>behind\<close> is the memory behind the file in the buffer and past it, which the offsets in the file can reach.\<close>

definition elf_load_and_run :: "machine \<Rightarrow> (u32 \<Rightarrow> u8) \<Rightarrow> bytes \<Rightarrow> bytes list \<Rightarrow> (run_result \<times> machine) option" where
  "elf_load_and_run m behind filename argv =
     (case kmalloc (heap (kern m)) ELF_MAX_FILE_SIZE of
        None \<Rightarrow> None
      | Some (file_buf, h) \<Rightarrow>
          let m1 = m\<lparr>kern := (kern m)\<lparr>heap := h\<rparr>\<rparr> in
          if file_buf = 0 then Some (Returned (-1), m1)
          else case fat_read_file (fs (kern m1)) filename ELF_MAX_FILE_SIZE of
            None \<Rightarrow> None
          | Some (fsize, out, f) \<Rightarrow>
              elf_run_image (m1\<lparr>kern := (kern m1)\<lparr>fs := f\<rparr>\<rparr>) file_buf fsize (\<lambda>i. if unat i < length out then out ! unat i else behind i) argv)"

section \<open>Launching a program from another one\<close>

definition EXEC_MAX_ARGS :: int where "EXEC_MAX_ARGS = 16"
definition EXEC_MAX_ARG_LEN :: nat where "EXEC_MAX_ARG_LEN = 64"

text \<open>
  The copies that \<open>exec_run\<close> keeps of the arguments, and the task that loads them. \<open>Exec_waits i\<close> is the
  call of \<open>task_wait (i)\<close>, whose rounds are \<open>task_wait_round\<close>; behind it the result is 0.
\<close>

datatype exec_result = Exec_returns int | Exec_waits nat

definition exec_args :: "int \<Rightarrow> bytes list \<Rightarrow> bytes list" where
  "exec_args argc argv = map (take (EXEC_MAX_ARG_LEN - 1)) (take (nat argc) argv)"

definition exec_run :: "kernel \<Rightarrow> u32 \<Rightarrow> u32 \<Rightarrow> int \<Rightarrow> bytes list \<Rightarrow> (exec_result \<times> bytes list option \<times> kernel) option" where
  "exec_run s exec_launch_trampoline task_launch argc argv =
     (if argc < 1 \<or> EXEC_MAX_ARGS < argc then Some (Exec_returns (-1), None, s)
      else case task_create s exec_launch_trampoline task_launch of
             None \<Rightarrow> None
           | Some (child_id, s1) \<Rightarrow>
               if child_id < 0 then Some (Exec_returns (-1), Some (exec_args argc argv), s1)
               else Some (Exec_waits (nat child_id), Some (exec_args argc argv), s1))"

end
