(* ===== verification/Loader_Spec.thy ===== *)
theory Loader_Spec
  imports Loader
begin

unbundle bit_operations_syntax

text \<open>
  What a started program finds: every byte of a loaded segment as the file has it and zeros
  everywhere else in its pages, no byte of an earlier owner of the frames, nothing changed for
  anybody else; and on its stack the argument count, the argument vector and the strings.
\<close>

section \<open>Stores through the page tables\<close>

lemma with_pg_simps [simp]: "mpg (with_pg m p) = p" "ram (with_pg m p) = ram m" "tasks (kern (with_pg m p)) = tasks (kern m)"
  "current_task (kern (with_pg m p)) = current_task (kern m)" "heap (kern (with_pg m p)) = heap (kern m)"
  by (simp_all add: with_pg_def)

lemma phys_of_ram [simp]: "phys_of (m\<lparr>ram := r\<rparr>) v = phys_of m v"
  by (simp add: phys_of_def)

lemma vstores_spec:
  assumes "\<And>k. k < length xs \<Longrightarrow> phys_of m (v + of_nat k) = Some (P k)" and "inj_on P {..<length xs}"
  shows "\<exists>R. vstores m v xs = Some (m\<lparr>ram := R\<rparr>) \<and> (\<forall>k < length xs. R (P k) = xs ! k) \<and> (\<forall>a. (\<forall>k < length xs. a \<noteq> P k) \<longrightarrow> R a = ram m a)"
  using assms
proof (induction xs arbitrary: m v P)
  case (Cons x xs)
  let ?m = "m\<lparr>ram := (ram m)(P 0 := x)\<rparr>"
  have p0: "phys_of m v = Some (P 0)" using Cons.prems(1) [of 0] by simp
  have ph: "\<And>k. k < length xs \<Longrightarrow> phys_of ?m (v + 1 + of_nat k) = Some (P (Suc k))" using Cons.prems(1) [of "Suc k" for k] by (simp add: ac_simps)
  have inj: "inj_on (\<lambda>k. P (Suc k)) {..<length xs}" using Cons.prems(2) by (auto simp: inj_on_def)
  obtain R where R: "vstores ?m (v + 1) xs = Some (?m\<lparr>ram := R\<rparr>)" "\<forall>k < length xs. R (P (Suc k)) = xs ! k"
      "\<forall>a. (\<forall>k < length xs. a \<noteq> P (Suc k)) \<longrightarrow> R a = ram ?m a" using Cons.IH [OF ph inj] by blast
  have "P 0 \<noteq> P (Suc k)" if "k < length xs" for k using inj_onD [OF Cons.prems(2), of 0 "Suc k"] that by auto
  then have "R (P 0) = x" using R(3) by simp
  then have "\<forall>k < length (x # xs). R (P k) = (x # xs) ! k" using R(2) by (auto simp: nth_Cons split: nat.splits)
  moreover have "R a = ram m a" if "\<forall>k < length (x # xs). a \<noteq> P k" for a using R(3) that by auto
  ultimately show ?case using R(1) p0 by (intro exI [of _ R]) simp
next
  case Nil
  show ?case by (intro exI [of _ "ram m"]) simp
qed

section \<open>The first four megabytes as a task's directory maps them\<close>

text \<open>
  A task's address space with a table of its own for the first 4 MB: the kernel sees the task's
  pages there, and the identity mapping at every page that is not the task's.
\<close>

definition low_space :: "paging \<Rightarrow> u32 set \<Rightarrow> u32 \<Rightarrow> bool" where
  "low_space s D d \<longleftrightarrow> paging_wf s D \<and> d \<in> D \<and> private_table s d 0 \<and> cr3 s = d"

lemma kernel_map_view:
  assumes "low_space s D d" "q < 1024"
  shows "kernel_map s d q = Some (case view s d q of Some f \<Rightarrow> f | None \<Rightarrow> of_nat q * 4096)"
proof -
  have l: "paging_wf s D" "d \<in> D" "private_table s d 0" using assms(1) by (auto simp: low_space_def)
  have e: "mem s (slot d 0) = user_entry (table_at s d 0)" using private_entry(1) [OF l(1,2) _ l(3)] by simp
  have v: "view s d q = user_map s d q" using assms(2) by (simp add: view_def)
  have "mem s (slot (table_at s d 0) q) = kernel_entry q \<or>
      mem s (slot (table_at s d 0) q) = user_entry (page_base (mem s (slot (table_at s d 0) q)))"
    using private_entry(2) [OF l(1,2) _ l(3) assms(2)] by simp
  then show ?thesis
  proof
    assume "mem s (slot (table_at s d 0) q) = kernel_entry q"
    then show ?thesis unfolding v using assms(2) e by (simp add: kernel_map_def user_map_def Let_def)
  next
    assume u: "mem s (slot (table_at s d 0) q) = user_entry (page_base (mem s (slot (table_at s d 0) q)))"
    have "kernel_map s d q = Some (page_base (mem s (slot (table_at s d 0) q)))" "user_map s d q = Some (page_base (mem s (slot (table_at s d 0) q)))"
      using assms(2) e by (simp_all add: kernel_map_def user_map_def Let_def) (subst u, simp)+
    then show ?thesis unfolding v by simp
  qed
qed

definition low_phys :: "paging \<Rightarrow> u32 \<Rightarrow> u32 \<Rightarrow> u32" where
  "low_phys s d v = (case view s d (unat v div 4096) of Some f \<Rightarrow> f | None \<Rightarrow> of_nat (unat v div 4096) * 4096) + v mod 4096"

lemma phys_of_low:
  assumes "low_space (mpg m) D d" "unat v < 0x400000"
  shows "phys_of m v = Some (low_phys (mpg m) d v)"
proof -
  have "cr3 (mpg m) = d" "unat v div 4096 < 1024" using assms by (auto simp: low_space_def less_mult_imp_div_less)
  then show ?thesis using kernel_map_view [OF assms(1)] by (simp add: phys_of_def low_phys_def)
qed

text \<open>Addresses inside one frame or page.\<close>

lemma in_page:
  assumes "aligned f" "k < 4096"
  shows "unat (f + of_nat k) = unat f + k" "unat (f + of_nat k) div 4096 = unat f div 4096" "(f + of_nat k) mod 4096 = of_nat k"
proof -
  obtain q where q: "unat f = 4096 * q" using assms(1) unfolding aligned_eq by (metis mod_0_imp_dvd dvdE)
  have "4096 * q < 4294967296" using q unat_less_u32 [of f] by simp
  then have "q < 1048576" by simp
  then have "4096 * q + k < 4294967296" using assms(2) by linarith
  then show u: "unat (f + of_nat k) = unat f + k" using q assms(2) by (subst unat_add_u32) (simp_all add: unat_of_nat_u32)
  show "unat (f + of_nat k) div 4096 = unat f div 4096" unfolding u q using assms(2) by simp
  have "unat ((f + of_nat k) mod 4096) = k" unfolding unat_mod u q using assms(2) by simp
  then show "(f + of_nat k) mod 4096 = of_nat k" using assms(2) by (simp add: word_unat_eq_iff unat_of_nat_u32)
qed

definition in_frame :: "u32 \<Rightarrow> u32 \<Rightarrow> bool" where
  "in_frame f a \<longleftrightarrow> (\<exists>k < 4096. a = f + of_nat k)"

lemma in_frame_unique:
  assumes "aligned f" "aligned g" "in_frame f a" "in_frame g a"
  shows "f = g"
proof -
  obtain j k where "j < 4096" "k < 4096" "a = f + of_nat j" "a = g + of_nat k" using assms(3,4) by (auto simp: in_frame_def)
  then have "unat a div 4096 = unat f div 4096" "unat a div 4096 = unat g div 4096" using in_page(2) assms(1,2) by metis+
  then have "unat f = unat g" using assms(1,2) unfolding aligned_eq by (metis div_mult_mod_eq)
  then show ?thesis by (simp add: word_unat_eq_iff)
qed

lemma of_nat_inj_4096: "j < 4096 \<Longrightarrow> k < 4096 \<Longrightarrow> (of_nat j :: u32) = of_nat k \<longleftrightarrow> j = k"
  by (simp add: of_nat_u32_inj)

lemma zero_frame:
  assumes l: "low_space (mpg m) D d" and f: "frame_addr f" "f < 0x400000" "view (mpg m) d (unat f div 4096) = None"
  shows "\<exists>R. vstores m f (replicate 4096 0) = Some (m\<lparr>ram := R\<rparr>) \<and> (\<forall>a. R a = (if in_frame f a then 0 else ram m a))"
proof -
  have al: "aligned f" using f(1) by (rule aligned_frame)
  have d: "unat f div 4096 * 4096 = unat f" using al unfolding aligned_eq by (metis add.right_neutral div_mult_mod_eq)
  have b: "of_nat (unat f div 4096) * 4096 = f" unfolding word_unat_eq_iff
    using d unat_less_u32 [of f] by (subst unat_frame_addr) (simp_all add: less_mult_imp_div_less)
  have lt: "unat f + 4096 \<le> 0x400000"
  proof -
    have "unat f div 4096 < 1024" using f(2) by (simp add: word_less_nat_alt less_mult_imp_div_less)
    then show ?thesis using d by linarith
  qed
  have P: "phys_of m (f + of_nat k) = Some (f + of_nat k)" if "k < 4096" for k
  proof -
    have "unat (f + of_nat k) < 0x400000" using in_page(1) [OF al that] lt that by simp
    then show ?thesis using phys_of_low [OF l] in_page [OF al that] f(3) b by (simp add: low_phys_def)
  qed
  have "inj_on (\<lambda>k. f + of_nat k) {..<4096}" by (auto simp: inj_on_def of_nat_inj_4096)
  then obtain R where R: "vstores m f (replicate 4096 0) = Some (m\<lparr>ram := R\<rparr>)" "\<forall>k < 4096. R (f + of_nat k) = 0" "\<forall>a. (\<forall>k < 4096. a \<noteq> f + of_nat k) \<longrightarrow> R a = ram m a"
    using vstores_spec [of "replicate 4096 0" m f "\<lambda>k. f + of_nat k"] P by auto
  have "R a = (if in_frame f a then 0 else ram m a)" for a using R(2,3) by (auto simp: in_frame_def)
  then show ?thesis using R(1) by blast
qed

section \<open>Mapping the pages of a segment\<close>

lemma map_page_low:
  assumes l: "low_space s D d" and a: "unat a < 0x400000" and f: "unlisted s D f"
  defines "s' \<equiv> paging_map_user_page s (table_at s d 0) a f"
  shows "low_space s' D d" "table_at s' d 0 = table_at s d 0" "view s' d = (view s d)(unat a div 4096 \<mapsto> f)"
    "d' \<in> D \<Longrightarrow> d' \<noteq> d \<Longrightarrow> view s' d' = view s d'" "pm s' = pm s"
proof -
  let ?p = "unat a div 4096" and ?t = "table_at s d 0"
  have w: "paging_wf s D" "d \<in> D" "private_table s d 0" "cr3 s = d" using l by (auto simp: low_space_def)
  have p: "?p < 1024" using a by (simp add: less_mult_imp_div_less)
  have e: "s' = s\<lparr>mem := (mem s)(slot ?t ?p := user_entry f)\<rparr>"
    unfolding s'_def paging_map_user_page_def Let_def dir_index(4) user_entry_def using p by simp
  note ip = install_page [OF w(1,2) _ w(3) p f]
  have "?t \<in># owned s d" using w(3) by (auto simp: in_owned intro: exI [of _ 0])
  then have td: "?t \<noteq> d" using ledger_not_own [OF w(1,2)] by auto
  have o: "only_at s s' ?t" unfolding e using only_at_upd [OF aligned_table_at p] .
  have pr: "private_table s' d 0 = private_table s d 0" "table_at s' d 0 = ?t"
    using private_only_at [OF o paging_wf_aligned(4) [OF w(1,2)] td [symmetric]] by simp_all
  show "table_at s' d 0 = ?t" "pm s' = pm s" using pr(2) e by simp_all
  show "low_space s' D d" using ip(1) pr(1) w e by (simp add: low_space_def)
  show "view s' d = (view s d)(?p \<mapsto> f)" unfolding e using ip(2) p by (auto simp: view_def fun_eq_iff)
  show "d' \<in> D \<Longrightarrow> d' \<noteq> d \<Longrightarrow> view s' d' = view s d'" unfolding e using ip(3) by (auto simp: view_def fun_eq_iff)
qed

text \<open>
  The free frames are within reach: below 4 MB, and at addresses that neither the program's pages
  nor the new ones cover.
\<close>

definition reachable_frames :: "paging \<Rightarrow> u32 \<Rightarrow> nat set \<Rightarrow> bool" where
  "reachable_frames s d P \<longleftrightarrow> (\<forall>f \<in> pmm_avail (pm s). f < 0x400000 \<and> view s d (unat f div 4096) = None \<and> unat f div 4096 \<notin> P)"

abbreviation pages_at :: "u32 list \<Rightarrow> nat list" where
  "pages_at as \<equiv> map (\<lambda>a. unat a div 4096) as"

text \<open>What mapping the pages \<open>as\<close> to the frames \<open>frs\<close> has done to a machine.\<close>

definition pages_loaded :: "machine \<Rightarrow> u32 set \<Rightarrow> u32 \<Rightarrow> u32 list \<Rightarrow> u32 list \<Rightarrow> machine \<Rightarrow> bool" where
  "pages_loaded m D d as frs m' \<longleftrightarrow> low_space (mpg m') D d \<and> table_at (mpg m') d 0 = table_at (mpg m) d 0 \<and>
     kern m' = (kern m)\<lparr>pg := mpg m'\<rparr> \<and> length frs \<le> length as \<and> distinct frs \<and> set frs \<subseteq> pmm_avail (pm (mpg m)) \<and>
     pmm_avail (pm (mpg m')) = pmm_avail (pm (mpg m)) - set frs \<and>
     view (mpg m') d = view (mpg m) d ++ map_of (zip (pages_at as) frs) \<and> (\<forall>d' \<in> D - {d}. view (mpg m') d' = view (mpg m) d') \<and>
     (\<forall>a. ram m' a = (if \<exists>f \<in> set frs. in_frame f a then 0 else ram m a))"

definition out_of_frames :: "machine \<Rightarrow> bool" where
  "out_of_frames m \<longleftrightarrow> pmm_alloc_frame (pm (mpg m)) = Some (0, pm (mpg m))"

lemma load_pages_spec:
  assumes "low_space (mpg m) D d" "t = table_at (mpg m) d 0" "\<forall>a \<in> set as. unat a < 0x400000" "distinct (pages_at as)" "reachable_frames (mpg m) d (set (pages_at as))"
  shows "\<exists>b m' frs. load_pages m t as = Some (b, m') \<and> pages_loaded m D d as frs m' \<and> (b \<longrightarrow> length frs = length as) \<and> (\<not> b \<longrightarrow> out_of_frames m')"
  using assms
proof (induction as arbitrary: m)
  case Nil
  then show ?case by (intro exI [of _ True] exI [of _ m] exI [of _ "[]"]) (simp add: pages_loaded_def)
next
  case (Cons a as)
  let ?s = "mpg m" and ?p = "unat a div 4096"
  have l: "low_space ?s D d" "paging_wf ?s D" "pmm_wf (pm ?s)" using Cons.prems by (auto simp: low_space_def paging_wf_def)
  from l(3) show ?case
  proof (cases rule: pmm_pool.alloc_cases)
    case none
    then have "load_pages m t (a # as) = Some (False, m)" by (simp add: with_pg_def)
    then show ?thesis using l(1) none by (intro exI [of _ False] exI [of _ m] exI [of _ "[]"]) (simp add: pages_loaded_def out_of_frames_def)
  next
    case (frame f p)
    let ?s1 = "?s\<lparr>pm := p\<rparr>"
    let ?m1 = "with_pg m ?s1"
    note u = alloc_unlisted [OF l(2) frame(1,2)]
    have fr: "f < 0x400000" "view ?s d (unat f div 4096) = None" using Cons.prems(5) frame(4) by (auto simp: reachable_frames_def)
    have fa: "frame_addr f" using u(2) by (simp add: unlisted_def)
    have l1: "low_space ?s1 D d" using l(1) u(1) by (simp add: low_space_def private_table_def)
    obtain R where R: "vstores ?m1 f (replicate 4096 0) = Some (?m1\<lparr>ram := R\<rparr>)" "\<forall>b. R b = (if in_frame f b then 0 else ram m b)"
      using zero_frame [of ?m1 D d f] l1 fa fr by auto
    let ?s2 = "paging_map_user_page ?s1 t a f"
    let ?m2 = "with_pg (?m1\<lparr>ram := R\<rparr>) ?s2"
    have t1: "table_at ?s1 d 0 = t" using Cons.prems(2) by (simp add: table_at_def)
    note mp = map_page_low [OF l1 _ u(2), of a, unfolded t1]
    have a4: "unat a < 0x400000" "?p \<notin> set (pages_at as)" using Cons.prems by auto
    have av: "pmm_avail (pm ?s2) = pmm_avail (pm ?s) - {f}" using mp(5) [OF a4(1)] frame(5) by simp
    have v2: "view ?s2 d = (view ?s d)(?p \<mapsto> f)" using mp(3) [OF a4(1)] by simp
    have re: "reachable_frames (mpg ?m2) d (set (pages_at as))"
      using Cons.prems(5) unfolding reachable_frames_def by (auto simp: av v2)
    have lp: "load_pages m t (a # as) = load_pages ?m2 t as" using frame(1,2) R(1) by simp
    obtain b m' frs where ih: "load_pages ?m2 t as = Some (b, m')" "pages_loaded ?m2 D d as frs m'" "b \<longrightarrow> length frs = length as" "\<not> b \<longrightarrow> out_of_frames m'"
      using Cons.IH [of ?m2] mp(1,2) [OF a4(1)] Cons.prems(3,4) re by auto
    note h = ih(2) [unfolded pages_loaded_def]
    have nf: "f \<notin> set frs" using h by (auto simp: av)
    have "pages_loaded m D d (a # as) (f # frs) m'"
      unfolding pages_loaded_def
    proof (intro conjI)
      show "table_at (mpg m') d 0 = table_at (mpg m) d 0" using h mp(2) [OF a4(1)] t1 Cons.prems(2) by simp
      show "kern m' = (kern m)\<lparr>pg := mpg m'\<rparr>" using h by (simp add: with_pg_def)
      show "distinct (f # frs)" "set (f # frs) \<subseteq> pmm_avail (pm ?s)" "pmm_avail (pm (mpg m')) = pmm_avail (pm ?s) - set (f # frs)"
        using h nf frame(4) by (auto simp: av)
      show "view (mpg m') d = view ?s d ++ map_of (zip (pages_at (a # as)) (f # frs))"
        using h a4(2) by (auto simp: v2 fun_eq_iff map_add_def dest!: map_of_SomeD set_zip_leftD split: option.splits)
      show "\<forall>d' \<in> D - {d}. view (mpg m') d' = view ?s d'" using h mp(4) [OF a4(1)] by simp
      show "\<forall>b. ram m' b = (if \<exists>g \<in> set (f # frs). in_frame g b then 0 else ram m b)" using h R(2) by auto
    qed (use h in auto)
    then show ?thesis unfolding lp using ih(1,3,4) by (intro exI [of _ b] exI [of _ m'] exI [of _ "f # frs"]) simp
  qed
qed

section \<open>Bytes as a program sees them\<close>

definition user_byte :: "machine \<Rightarrow> u32 \<Rightarrow> u32 \<Rightarrow> u8 option" where
  "user_byte m d v = map_option (\<lambda>f. ram m (f + v mod 4096)) (view (mpg m) d (unat v div 4096))"

lemma view_frame: "paging_wf s D \<Longrightarrow> d \<in> D \<Longrightarrow> view s d p = Some f \<Longrightarrow> frame_addr f \<and> f \<notin> pmm_avail (pm s)"
  using view_page [of s D d p f] paging_wf_dir [of s D d f] in_owned by blast

lemma view_inj: "paging_wf s D \<Longrightarrow> d \<in> D \<Longrightarrow> d' \<in> D \<Longrightarrow> view s d p = Some f \<Longrightarrow> view s d' p' = Some f \<Longrightarrow> d = d' \<and> p = p'"
  using view_apart [of s D d d' p f p' f] by blast

lemma word_split: "unat (v :: u32) div 4096 = unat w div 4096 \<Longrightarrow> v mod 4096 = w mod 4096 \<Longrightarrow> v = w"
proof -
  assume h: "unat v div 4096 = unat w div 4096" "v mod 4096 = w mod 4096"
  have "unat v mod 4096 = unat w mod 4096" using arg_cong [OF h(2), of unat] by (simp add: unat_mod)
  then have "unat v = unat w" using h(1) by (metis div_mult_mod_eq)
  then show ?thesis by (simp add: word_unat_eq_iff)
qed

lemma offset_less: "unat ((v :: u32) mod 4096) < 4096"
  by (simp add: unat_mod)

lemma in_frame_off: "in_frame f (f + v mod 4096)"
  unfolding in_frame_def using offset_less [of v] by (intro exI [of _ "unat (v mod 4096)"]) simp

lemma same_cell:
  assumes wf: "paging_wf s D" and d: "d \<in> D" "d' \<in> D" and v: "view s d (unat v div 4096) = Some f" "view s d' (unat w div 4096) = Some g"
    and e: "f + v mod 4096 = g + w mod 4096"
  shows "d = d' \<and> v = w"
proof -
  have al: "aligned f" "aligned g" using view_frame [OF wf d(1) v(1)] view_frame [OF wf d(2) v(2)] by (auto intro: aligned_frame)
  have "in_frame f (f + v mod 4096)" "in_frame g (f + v mod 4096)" using in_frame_off [of f v] in_frame_off [of g w] e by simp_all
  then have "f = g" using in_frame_unique al by blast
  then show ?thesis using view_inj [OF wf d v(1)] v(2) e word_split [of v w] by auto
qed

lemma store_low:
  assumes l: "low_space (mpg m) D d" and b: "unat v + length xs \<le> 0x400000"
    and mp: "\<And>k. k < length xs \<Longrightarrow> view (mpg m) d ((unat v + k) div 4096) \<noteq> None"
  shows "\<exists>R. vstores m v xs = Some (m\<lparr>ram := R\<rparr>) \<and>
    (\<forall>d' \<in> D. \<forall>w. user_byte (m\<lparr>ram := R\<rparr>) d' w =
       (if d' = d \<and> unat v \<le> unat w \<and> unat w < unat v + length xs then Some (xs ! (unat w - unat v)) else user_byte m d' w))"
proof -
  let ?s = "mpg m"
  have w: "paging_wf ?s D" "d \<in> D" using l by (auto simp: low_space_def)
  have u: "unat (v + of_nat k) = unat v + k" if "k < length xs" for k
    using that b by (subst unat_add_u32) (simp_all add: unat_of_nat_u32)
  have vf: "\<exists>f. view ?s d (unat (v + of_nat k) div 4096) = Some f" if "k < length xs" for k using mp [OF that] u [OF that] by simp
  have P: "phys_of m (v + of_nat k) = Some (low_phys ?s d (v + of_nat k))" if "k < length xs" for k
    using phys_of_low [OF l, of "v + of_nat k"] u [OF that] b that by simp
  have inj: "inj_on (\<lambda>k. low_phys ?s d (v + of_nat k)) {..<length xs}"
  proof (rule inj_onI)
    fix j k assume h: "j \<in> {..<length xs}" "k \<in> {..<length xs}" "low_phys ?s d (v + of_nat j) = low_phys ?s d (v + of_nat k)"
    obtain f g where fg: "view ?s d (unat (v + of_nat j) div 4096) = Some f" "view ?s d (unat (v + of_nat k) div 4096) = Some g" using vf h by blast
    then have "v + of_nat j = v + of_nat k" using same_cell [OF w(1,2,2) fg] h(3) by (simp add: low_phys_def)
    then show "j = k" using u h by (metis add_left_cancel lessThan_iff)
  qed
  obtain R where R: "vstores m v xs = Some (m\<lparr>ram := R\<rparr>)" "\<forall>k < length xs. R (low_phys ?s d (v + of_nat k)) = xs ! k"
      "\<forall>a. (\<forall>k < length xs. a \<noteq> low_phys ?s d (v + of_nat k)) \<longrightarrow> R a = ram m a" using vstores_spec [OF P inj] by blast
  have "user_byte (m\<lparr>ram := R\<rparr>) d' x = (if d' = d \<and> unat v \<le> unat x \<and> unat x < unat v + length xs then Some (xs ! (unat x - unat v)) else user_byte m d' x)"
    if d': "d' \<in> D" for d' x
  proof (cases "d' = d \<and> unat v \<le> unat x \<and> unat x < unat v + length xs")
    case True
    let ?k = "unat x - unat v"
    have k: "?k < length xs" "x = v + of_nat ?k" using True u [of ?k] by (auto simp: word_unat_eq_iff)
    obtain f where f: "view ?s d (unat x div 4096) = Some f" using vf [OF k(1)] k(2) by auto
    have "R (f + x mod 4096) = xs ! ?k" using R(2) k f by (metis low_phys_def option.simps(5))
    then show ?thesis using True f by (simp add: user_byte_def)
  next
    case False
    show ?thesis
    proof (cases "view ?s d' (unat x div 4096)")
      case (Some g)
      have "g + x mod 4096 \<noteq> low_phys ?s d (v + of_nat k)" if k: "k < length xs" for k
      proof
        assume e: "g + x mod 4096 = low_phys ?s d (v + of_nat k)"
        obtain f where f: "view ?s d (unat (v + of_nat k) div 4096) = Some f" using vf [OF k] by blast
        then have "d' = d \<and> x = v + of_nat k" using same_cell [OF w(1) d' w(2) Some f] e by (simp add: low_phys_def)
        then show False using False u [OF k] k by simp
      qed
      then show ?thesis unfolding if_not_P [OF False] using R(3) Some by (simp add: user_byte_def)
    qed (use False in \<open>simp add: user_byte_def\<close>)
  qed
  then show ?thesis using R(1) by blast
qed

section \<open>A segment\<close>

lemma unat_page_down: "unat ((v :: u32) AND NOT (PAGE_SIZE - 1)) = unat v div 4096 * 4096"
  using unat_and_not_mask [of v 12] by (simp add: PAGE_SIZE_def mask_eq_exp_minus_1)

definition seg_lo :: "elf32_program_header \<Rightarrow> nat" where
  "seg_lo ph = unat (p_vaddr ph) div 4096"

definition seg_hi :: "elf32_program_header \<Rightarrow> nat" where
  "seg_hi ph = (unat (p_vaddr ph) + unat (p_memsz ph) + 4095) div 4096"

definition seg_ok :: "elf32_program_header \<Rightarrow> bool" where
  "seg_ok ph \<longleftrightarrow> unat (p_vaddr ph) + unat (p_memsz ph) \<le> 0x3FF000 \<and> p_filesz ph \<le> p_memsz ph"

lemma seg_bounds:
  assumes "seg_ok ph"
  defines "start \<equiv> p_vaddr ph AND NOT (PAGE_SIZE - 1)" and "e \<equiv> (p_vaddr ph + p_memsz ph + PAGE_SIZE - 1) AND NOT (PAGE_SIZE - 1)"
  shows "unat start = seg_lo ph * 4096" "unat e = seg_hi ph * 4096" "seg_lo ph \<le> seg_hi ph" "seg_hi ph \<le> 1023" "\<not> USER_STACK_VADDR < e"
    "pages_at (segment_pages start e) = [seg_lo ph..<seg_hi ph]" "\<forall>a \<in> set (segment_pages start e). unat a < 0x400000"
proof -
  let ?v = "unat (p_vaddr ph)" and ?n = "unat (p_memsz ph)"
  have b: "?v + ?n \<le> 0x3FF000" using assms(1) by (simp add: seg_ok_def)
  have u: "unat (p_vaddr ph + p_memsz ph) = ?v + ?n" using b by (subst unat_add_u32) simp_all
  have "unat (p_vaddr ph + p_memsz ph + 4095) = ?v + ?n + 4095" using b u by (subst unat_add_u32) simp_all
  then have u4: "unat (p_vaddr ph + p_memsz ph + PAGE_SIZE - 1) = ?v + ?n + 4095" by (simp add: PAGE_SIZE_def ac_simps)
  show st: "unat start = seg_lo ph * 4096" unfolding start_def seg_lo_def by (rule unat_page_down)
  show en: "unat e = seg_hi ph * 4096" unfolding e_def seg_hi_def unat_page_down u4 ..
  show lh: "seg_lo ph \<le> seg_hi ph" unfolding seg_lo_def seg_hi_def by (intro div_le_mono) simp
  show hi: "seg_hi ph \<le> 1023" unfolding seg_hi_def using b div_le_mono [of "?v + ?n + 4095" "0x3FF000 + 4095" 4096] by simp
  show "\<not> USER_STACK_VADDR < e" using en hi by (simp add: word_less_nat_alt USER_STACK_VADDR_def)
  have n: "(unat e - unat start) div 4096 = seg_hi ph - seg_lo ph" unfolding st en by (simp flip: diff_mult_distrib)
  have a: "unat (start + 4096 * of_nat i) = (seg_lo ph + i) * 4096" if "i < seg_hi ph - seg_lo ph" for i
  proof -
    have i: "seg_lo ph + i < 1023" using that hi by simp
    then have "unat (4096 * of_nat i :: u32) = 4096 * i" by (subst unat_mult_u32) (simp_all add: unat_of_nat_u32)
    then show ?thesis using st i by (subst unat_add_u32) simp_all
  qed
  have "pages_at (segment_pages start e) = map (\<lambda>i. seg_lo ph + i) [0..<seg_hi ph - seg_lo ph]"
    unfolding segment_pages_def n using a by (simp add: comp_def)
  then show "pages_at (segment_pages start e) = [seg_lo ph..<seg_hi ph]" using lh by (simp add: map_add_upt add.commute [of "seg_lo ph"])
  show "\<forall>x \<in> set (segment_pages start e). unat x < 0x400000" unfolding segment_pages_def n using a hi by auto
qed

text \<open>The contents of the pages of a segment: the file's bytes at their addresses, zeros around them.\<close>

definition seg_byte :: "(u32 \<Rightarrow> u8) \<Rightarrow> elf32_program_header \<Rightarrow> u32 \<Rightarrow> u8" where
  "seg_byte img ph v = (if unat (p_vaddr ph) \<le> unat v \<and> unat v < unat (p_vaddr ph) + unat (p_filesz ph)
     then img (p_offset ph + of_nat (unat v - unat (p_vaddr ph))) else 0)"

definition seg_page :: "elf32_program_header \<Rightarrow> nat \<Rightarrow> bool" where
  "seg_page ph p \<longleftrightarrow> seg_lo ph \<le> p \<and> p < seg_hi ph"

text \<open>Between two machines only pages of \<open>P\<close> in directory \<open>d\<close> have changed.\<close>

definition only_pages :: "machine \<Rightarrow> u32 set \<Rightarrow> u32 \<Rightarrow> (nat \<Rightarrow> bool) \<Rightarrow> machine \<Rightarrow> bool" where
  "only_pages m D d P m' \<longleftrightarrow> paging_wf (mpg m') D \<and> cr3 (mpg m') = cr3 (mpg m) \<and> tasks (kern m') = tasks (kern m) \<and> current_task (kern m') = current_task (kern m) \<and>
     pmm_avail (pm (mpg m')) \<subseteq> pmm_avail (pm (mpg m)) \<and> (\<forall>p. \<not> P p \<longrightarrow> view (mpg m') d p = view (mpg m) d p) \<and>
     (\<forall>d' \<in> D. \<forall>v. \<not> (d' = d \<and> P (unat v div 4096)) \<longrightarrow> user_byte m' d' v = user_byte m d' v)"

lemma user_byte_fresh:
  assumes wf: "paging_wf (mpg m) D" and d: "d \<in> D" and frs: "set frs \<subseteq> pmm_avail (pm (mpg m))"
    and ram: "\<And>a. ram m' a = (if \<exists>f \<in> set frs. in_frame f a then 0 else ram m a)"
    and v: "view (mpg m') d' (unat v div 4096) = view (mpg m) d (unat v div 4096)"
  shows "user_byte m' d' v = user_byte m d v"
proof (cases "view (mpg m) d (unat v div 4096)")
  case (Some g)
  have g: "frame_addr g" "g \<notin> pmm_avail (pm (mpg m))" using view_frame [OF wf d Some] by auto
  have "\<not> in_frame f (g + v mod 4096)" if "f \<in> set frs" for f
  proof
    assume i: "in_frame f (g + v mod 4096)"
    have "f \<in> pmm_avail (pm (mpg m))" using that frs by auto
    then have "frame_addr f" using pmm_pool.avail_valid wf unfolding paging_wf_def by blast
    then have "f = g" using in_frame_unique [OF _ _ i in_frame_off] g(1) by (simp add: aligned_frame)
    then show False using g(2) that frs by auto
  qed
  then show ?thesis using Some v ram by (auto simp: user_byte_def)
qed (use v in \<open>simp add: user_byte_def\<close>)

lemma map_of_zip_None: "x \<notin> set xs \<Longrightarrow> map_of (zip xs ys) x = None"
  by (auto simp: map_of_eq_None_iff dest: set_zip_leftD)

lemma pages_loaded_only:
  assumes l: "low_space (mpg m) D d" and p: "pages_loaded m D d as frs m'" and P: "set (pages_at as) \<subseteq> Collect P"
  shows "only_pages m D d P m'"
proof -
  note h = p [unfolded pages_loaded_def]
  have w: "paging_wf (mpg m) D" "cr3 (mpg m) = d" using l by (auto simp: low_space_def)
  have vp: "view (mpg m') d q = view (mpg m) d q" if "\<not> P q" for q
  proof -
    have "q \<notin> set (pages_at as)" using that P by blast
    then show ?thesis using h map_of_zip_None [of q "pages_at as" frs] by (simp add: map_add_def)
  qed
  have vd: "view (mpg m') d' (unat v div 4096) = view (mpg m) d' (unat v div 4096)" if "d' \<in> D" "\<not> (d' = d \<and> P (unat v div 4096))" for d' v
    using vp h that by (cases "d' = d") auto
  have "user_byte m' d' v = user_byte m d' v" if "d' \<in> D" "\<not> (d' = d \<and> P (unat v div 4096))" for d' v
    using user_byte_fresh [OF w(1) that(1), of frs m' d' v] h vd [OF that] by auto
  moreover have "tasks (kern m') = tasks (kern m)" "current_task (kern m') = current_task (kern m)" using h by (metis kernel.select_convs(1,2) kernel.surjective kernel.update_convs(5))+
  ultimately show ?thesis using h w vp by (auto simp: only_pages_def low_space_def)
qed

lemma low_space_ram [simp]: "mpg (m\<lparr>ram := R\<rparr>) = mpg m" "tasks (kern (m\<lparr>ram := R\<rparr>)) = tasks (kern m)" "current_task (kern (m\<lparr>ram := R\<rparr>)) = current_task (kern m)"
  by simp_all

lemma only_pages_ram:
  assumes "only_pages m D d P m'" "\<And>d' v. d' \<in> D \<Longrightarrow> \<not> (d' = d \<and> P (unat v div 4096)) \<Longrightarrow> user_byte (m'\<lparr>ram := R\<rparr>) d' v = user_byte m' d' v"
  shows "only_pages m D d P (m'\<lparr>ram := R\<rparr>)"
  using assms unfolding only_pages_def by simp

lemma seg_page_of:
  assumes "unat (p_vaddr ph) \<le> x" "x < unat (p_vaddr ph) + unat (p_memsz ph)"
  shows "seg_page ph (x div 4096)"
proof -
  have "x + 4096 \<le> unat (p_vaddr ph) + unat (p_memsz ph) + 4095" using assms(2) by simp
  then have "(x + 4096) div 4096 \<le> seg_hi ph" unfolding seg_hi_def by (rule div_le_mono)
  then show ?thesis using div_le_mono [OF assms(1), of 4096] by (simp add: seg_page_def seg_lo_def)
qed

text \<open>The two copy loops, in pages that are mapped.\<close>

lemma copy_segment:
  assumes l: "low_space (mpg m) D d" and ok: "seg_ok ph" and mp: "\<And>p. seg_page ph p \<Longrightarrow> view (mpg m) d p \<noteq> None"
    and z: "\<And>v. seg_page ph (unat v div 4096) \<Longrightarrow> user_byte m d v = Some 0"
  shows "\<exists>m4 R. vstores m (p_vaddr ph) (file_bytes img (p_offset ph) (p_filesz ph)) = Some m4 \<and>
    vstores m4 (p_vaddr ph + p_filesz ph) (replicate (unat (p_memsz ph) - unat (p_filesz ph)) 0) = Some (m\<lparr>ram := R\<rparr>) \<and>
    (\<forall>v. seg_page ph (unat v div 4096) \<longrightarrow> user_byte (m\<lparr>ram := R\<rparr>) d v = Some (seg_byte img ph v)) \<and>
    (\<forall>d' \<in> D. \<forall>v. \<not> (d' = d \<and> seg_page ph (unat v div 4096)) \<longrightarrow> user_byte (m\<lparr>ram := R\<rparr>) d' v = user_byte m d' v)"
proof -
  let ?v = "unat (p_vaddr ph)" and ?n = "unat (p_memsz ph)" and ?f = "unat (p_filesz ph)" and ?xs = "file_bytes img (p_offset ph) (p_filesz ph)"
  let ?zs = "replicate (unat (p_memsz ph) - unat (p_filesz ph)) (0 :: u8)"
  have dD: "d \<in> D" using l by (simp add: low_space_def)
  have b: "?v + ?n \<le> 0x3FF000" "?f \<le> ?n" using ok by (auto simp: seg_ok_def word_le_nat_alt)
  have len: "length ?xs = ?f" by (simp add: file_bytes_def)
  have m1: "view (mpg m) d ((?v + k) div 4096) \<noteq> None" if "k < ?n" for k using mp seg_page_of [of ph "?v + k"] that by simp
  obtain R where R: "vstores m (p_vaddr ph) ?xs = Some (m\<lparr>ram := R\<rparr>)"
      "\<forall>d' \<in> D. \<forall>w. user_byte (m\<lparr>ram := R\<rparr>) d' w = (if d' = d \<and> ?v \<le> unat w \<and> unat w < ?v + length ?xs then Some (?xs ! (unat w - ?v)) else user_byte m d' w)"
    using store_low [OF l, of "p_vaddr ph" ?xs] b len m1 by auto
  let ?m4 = "m\<lparr>ram := R\<rparr>" and ?a = "p_vaddr ph + p_filesz ph"
  have a: "unat ?a = ?v + ?f" using b by (subst unat_add_u32) simp_all
  have m2: "view (mpg ?m4) d ((unat ?a + k) div 4096) \<noteq> None" if "k < length ?zs" for k using m1 [of "?f + k"] that a by (simp add: add.assoc)
  have l4: "low_space (mpg ?m4) D d" using l by simp
  have bl: "unat ?a + length ?zs \<le> 0x400000" using a b by simp
  obtain R' where R': "vstores ?m4 ?a ?zs = Some (?m4\<lparr>ram := R'\<rparr>)"
      "\<forall>d' \<in> D. \<forall>w. user_byte (?m4\<lparr>ram := R'\<rparr>) d' w = (if d' = d \<and> unat ?a \<le> unat w \<and> unat w < unat ?a + length ?zs then Some (?zs ! (unat w - unat ?a)) else user_byte ?m4 d' w)"
    using store_low [OF l4 bl m2] by blast
  have ub: "user_byte (m\<lparr>ram := R'\<rparr>) d' w = (if d' = d \<and> ?v + ?f \<le> unat w \<and> unat w < ?v + ?n then Some 0
      else if d' = d \<and> ?v \<le> unat w \<and> unat w < ?v + ?f then Some (img (p_offset ph + of_nat (unat w - ?v))) else user_byte m d' w)" if "d' \<in> D" for d' w
    using R(2) R'(2) that b(2) len unfolding a by (auto simp: file_bytes_def)
  have "user_byte (m\<lparr>ram := R'\<rparr>) d w = Some (seg_byte img ph w)" if "seg_page ph (unat w div 4096)" for w
    unfolding ub [OF dD] seg_byte_def using z [OF that] by auto
  moreover have "user_byte (m\<lparr>ram := R'\<rparr>) d' w = user_byte m d' w" if "d' \<in> D" "\<not> (d' = d \<and> seg_page ph (unat w div 4096))" for d' w
    using ub [OF that(1), of w] that(2) seg_page_of [of ph "unat w"] b(2) by auto
  ultimately show ?thesis using R(1) R'(1) by (intro exI [of _ ?m4] exI [of _ R']) simp
qed

text \<open>A directory in use: consistent tables, the current task's directory in the processor.\<close>

definition ready_space :: "machine \<Rightarrow> u32 set \<Rightarrow> u32 \<Rightarrow> bool" where
  "ready_space m D d \<longleftrightarrow> paging_wf (mpg m) D \<and> d \<in> D \<and> cr3 (mpg m) = d \<and> task_get_current_page_directory (kern m) = d"

lemma ready_only_pages: "only_pages m D d P m' \<Longrightarrow> ready_space m D d \<Longrightarrow> ready_space m' D d"
  by (auto simp: only_pages_def ready_space_def task_get_current_page_directory_def)

lemma get_or_create_none:
  assumes "paging_wf s D" "d \<in> D" "\<forall>f \<in> pmm_avail (pm s). f < 0x400000" "paging_get_or_create_user_table s d v = Some (0, s1)"
  shows "pmm_alloc_frame (pm s1) = Some (0, pm s1)"
proof -
  let ?i = "unat v div 4096 div 1024"
  have i: "?i < 1024" using dir_index(2) [of v] by simp
  have w: "pmm_wf (pm s)" using assms(1) by (simp add: paging_wf_def)
  have np: "\<not> private_table s d ?i"
  proof
    assume p: "private_table s d ?i"
    then have "table_at s d ?i \<in># owned s d" using i by (auto simp: in_owned)
    then have "frame_addr (table_at s d ?i)" using paging_wf_dir [OF assms(1,2)] by blast
    then show False using assms(4) get_or_create_eq [of s d v] p by (simp add: frame_addr_def Let_def)
  qed
  then have c: "paging_copy_frame s (kpt s) = Some (0, s1)" using assms(4) get_or_create_eq [of s d v] by (auto simp: Let_def split: option.splits if_splits)
  from w show ?thesis
  proof (cases rule: pmm_pool.alloc_cases)
    case (frame a p)
    then have "\<not> 0x400000 \<le> a" using assms(3) by (simp add: not_le)
    then show ?thesis using c frame(1,2) by (simp add: paging_copy_frame_def)
  next
    case none
    then show ?thesis using c by (auto simp: paging_copy_frame_def)
  qed
qed

lemma load_segment_correct:
  assumes rs: "ready_space m D d" and ok: "seg_ok ph" and re: "reachable_frames (mpg m) d (Collect (seg_page ph))"
  shows "\<exists>b m'. load_segment m img ph = Some (b, m') \<and> only_pages m D d (seg_page ph) m' \<and>
    (b \<longrightarrow> private_table (mpg m') d 0 \<and> (\<forall>v. seg_page ph (unat v div 4096) \<longrightarrow> user_byte m' d v = Some (seg_byte img ph v))) \<and> (\<not> b \<longrightarrow> out_of_frames m')"
proof -
  have w: "paging_wf (mpg m) D" "d \<in> D" "cr3 (mpg m) = d" "task_get_current_page_directory (kern m) = d" using rs by (auto simp: ready_space_def)
  note sb = seg_bounds [OF ok]
  let ?start = "p_vaddr ph AND NOT (PAGE_SIZE - 1)" and ?e = "(p_vaddr ph + p_memsz ph + PAGE_SIZE - 1) AND NOT (PAGE_SIZE - 1)"
  have i0: "unat (p_vaddr ph) div 4096 div 1024 = 0" using ok by (simp add: seg_ok_def div_eq_0_iff less_mult_imp_div_less)
  from w(1,2) show ?thesis
  proof (cases rule: get_or_create_cases [where vaddr = "p_vaddr ph"])
    case (none p)
    let ?m = "with_pg m ((mpg m)\<lparr>pm := p\<rparr>)"
    have "load_segment m img ph = Some (False, ?m)" using none(1) w(4) by (simp add: load_segment_def Let_def)
    moreover have "only_pages m D d (seg_page ph) ?m" using none(2,3) by (simp add: only_pages_def user_byte_def)
    moreover have "out_of_frames ?m" using get_or_create_none [OF w(1,2) _ none(1)] re by (auto simp: out_of_frames_def reachable_frames_def)
    ultimately show ?thesis by blast
  next
    case (table t s1)
    let ?m1 = "with_pg m s1" and ?as = "segment_pages ?start ?e"
    have l1: "low_space (mpg ?m1) D d" using table(3,4,8) w i0 by (simp add: low_space_def)
    have t1: "t = table_at (mpg ?m1) d 0" using table(5) i0 by simp
    have P: "set (pages_at ?as) = Collect (seg_page ph)" unfolding sb(6) by (auto simp: seg_page_def)
    have re1: "reachable_frames (mpg ?m1) d (set (pages_at ?as))" using re table(6) [OF w(2)] table(7) unfolding P reachable_frames_def by auto
    obtain b m2 frs where lp: "load_pages ?m1 t ?as = Some (b, m2)" "pages_loaded ?m1 D d ?as frs m2" "b \<longrightarrow> length frs = length ?as" "\<not> b \<longrightarrow> out_of_frames m2"
      using load_pages_spec [OF l1 t1 sb(7) _ re1] sb(6) by auto
    have o1: "only_pages m D d (seg_page ph) ?m1" using table(3,6,7,8) w(2) by (simp add: only_pages_def user_byte_def)
    have o2: "only_pages ?m1 D d (seg_page ph) m2" using pages_loaded_only [OF l1 lp(2)] P by simp
    have o: "only_pages m D d (seg_page ph) m2" using o1 o2 unfolding only_pages_def by auto
    note h = lp(2) [unfolded pages_loaded_def]
    show ?thesis
    proof (cases b)
      case False
      then have "load_segment m img ph = Some (False, m2)" using table(1,2) w(4) lp(1) sb(5) by (simp add: load_segment_def Let_def)
      then show ?thesis using o lp(4) False by blast
    next
      case True
      have l2: "low_space (mpg m2) D d" using h by blast
      have sw: "with_pg m2 (paging_switch_directory (mpg m2) d) = m2"
        using l2 by (simp add: with_pg_def paging_switch_directory_def load_page_directory_def low_space_def)
      have mp: "\<exists>f \<in> set frs. view (mpg m2) d p = Some f" if "seg_page ph p" for p
      proof -
        have "p \<in> set (pages_at ?as)" using that P by blast
        then obtain f where f: "map_of (zip (pages_at ?as) frs) p = Some f" using lp(3) True by (metis length_map map_of_zip_is_Some)
        then have "f \<in> set frs" by (meson map_of_SomeD set_zip_rightD)
        then show ?thesis using h f by auto
      qed
      have z: "user_byte m2 d v = Some 0" if sp: "seg_page ph (unat v div 4096)" for v
      proof -
        obtain f where f: "f \<in> set frs" "view (mpg m2) d (unat v div 4096) = Some f" using mp [OF sp] by blast
        have "\<forall>a. ram m2 a = (if \<exists>f \<in> set frs. in_frame f a then 0 else ram ?m1 a)" using h by blast
        then have "ram m2 (f + v mod 4096) = 0" using f(1) in_frame_off by auto
        then show ?thesis using f(2) by (simp add: user_byte_def)
      qed
      obtain m4 R where c: "vstores m2 (p_vaddr ph) (file_bytes img (p_offset ph) (p_filesz ph)) = Some m4"
          "vstores m4 (p_vaddr ph + p_filesz ph) (replicate (unat (p_memsz ph) - unat (p_filesz ph)) 0) = Some (m2\<lparr>ram := R\<rparr>)"
          "\<forall>v. seg_page ph (unat v div 4096) \<longrightarrow> user_byte (m2\<lparr>ram := R\<rparr>) d v = Some (seg_byte img ph v)"
          "\<forall>d' \<in> D. \<forall>v. \<not> (d' = d \<and> seg_page ph (unat v div 4096)) \<longrightarrow> user_byte (m2\<lparr>ram := R\<rparr>) d' v = user_byte m2 d' v"
        using copy_segment [OF l2 ok _ z] mp by (metis option.distinct(1))
      have "load_segment m img ph = Some (True, m2\<lparr>ram := R\<rparr>)" using True table(1,2) w(4) lp(1) sb(5) sw c(1,2) by (simp add: load_segment_def Let_def)
      moreover have "only_pages m D d (seg_page ph) (m2\<lparr>ram := R\<rparr>)" using only_pages_ram [OF o] c(4) by blast
      moreover have "private_table (mpg (m2\<lparr>ram := R\<rparr>)) d 0" using l2 by (simp add: low_space_def)
      ultimately show ?thesis using c(3) by blast
    qed
  qed
qed

section \<open>A program\<close>

text \<open>The headers that are loaded, and that they are well formed and do not share a page.\<close>

definition load_headers :: "(u32 \<Rightarrow> u8) \<Rightarrow> u32 \<Rightarrow> nat list \<Rightarrow> elf32_program_header list" where
  "load_headers img phdrs is = filter (\<lambda>ph. p_type ph = PT_LOAD) (map (\<lambda>i. program_header_at img (phdrs + 32 * of_nat i)) is)"

fun segs_ok :: "elf32_program_header list \<Rightarrow> bool" where
  "segs_ok [] \<longleftrightarrow> True"
| "segs_ok (ph # phs) \<longleftrightarrow> seg_ok ph \<and> (\<forall>q \<in> set phs. \<forall>p. \<not> (seg_page ph p \<and> seg_page q p)) \<and> segs_ok phs"

definition prog_page :: "elf32_program_header list \<Rightarrow> nat \<Rightarrow> bool" where
  "prog_page phs p \<longleftrightarrow> (\<exists>ph \<in> set phs. seg_page ph p)"

lemma only_pages_trans:
  assumes "only_pages m D d P m1" "only_pages m1 D d Q m2" "\<And>p. P p \<or> Q p \<Longrightarrow> T p"
  shows "only_pages m D d T m2"
proof -
  note h = assms(1,2) [unfolded only_pages_def]
  have "view (mpg m2) d p = view (mpg m) d p" if "\<not> T p" for p using h assms(3) that by metis
  moreover have "user_byte m2 d' v = user_byte m d' v" if "d' \<in> D" "\<not> (d' = d \<and> T (unat v div 4096))" for d' v using h assms(3) that by metis
  ultimately show ?thesis using h by (auto simp: only_pages_def)
qed

lemma only_pages_mono: "only_pages m D d P m' \<Longrightarrow> (\<And>p. P p \<Longrightarrow> Q p) \<Longrightarrow> only_pages m D d Q m'"
  unfolding only_pages_def by blast

lemma load_segments_correct:
  assumes "ready_space m D d" "segs_ok (load_headers img phdrs is)" "reachable_frames (mpg m) d (Collect (prog_page (load_headers img phdrs is)))"
  shows "\<exists>n m'. load_segments m img phdrs is k = Some (n, m') \<and> only_pages m D d (prog_page (load_headers img phdrs is)) m' \<and>
    (n \<noteq> None \<longrightarrow> n = Some (k + length (load_headers img phdrs is)) \<and>
       (load_headers img phdrs is \<noteq> [] \<or> private_table (mpg m) d 0 \<longrightarrow> private_table (mpg m') d 0) \<and>
       (\<forall>ph \<in> set (load_headers img phdrs is). \<forall>v. seg_page ph (unat v div 4096) \<longrightarrow> user_byte m' d v = Some (seg_byte img ph v))) \<and> (n = None \<longrightarrow> out_of_frames m')"
  using assms
proof (induction "is" arbitrary: m k)
  case Nil
  then show ?case by (auto simp: load_headers_def only_pages_def ready_space_def)
next
  case (Cons i "is")
  let ?ph = "program_header_at img (phdrs + 32 * of_nat i)" and ?phs = "load_headers img phdrs is"
  show ?case
  proof (cases "p_type ?ph = PT_LOAD")
    case False
    then show ?thesis using Cons.IH [OF Cons.prems(1)] Cons.prems(2,3) by (simp add: load_headers_def)
  next
    case True
    then have hd: "load_headers img phdrs (i # is) = ?ph # ?phs" by (simp add: load_headers_def)
    have ok: "seg_ok ?ph" "segs_ok ?phs" "\<And>q p. q \<in> set ?phs \<Longrightarrow> \<not> (seg_page ?ph p \<and> seg_page q p)" using Cons.prems(2) unfolding hd by auto
    have pp: "prog_page (?ph # ?phs) p \<longleftrightarrow> seg_page ?ph p \<or> prog_page ?phs p" for p by (auto simp: prog_page_def)
    have re: "reachable_frames (mpg m) d (Collect (seg_page ?ph))" "reachable_frames (mpg m) d (Collect (prog_page ?phs))"
      using Cons.prems(3) unfolding hd reachable_frames_def pp by auto
    obtain b m1 where l: "load_segment m img ?ph = Some (b, m1)" "only_pages m D d (seg_page ?ph) m1"
        "b \<longrightarrow> private_table (mpg m1) d 0 \<and> (\<forall>v. seg_page ?ph (unat v div 4096) \<longrightarrow> user_byte m1 d v = Some (seg_byte img ?ph v))" "\<not> b \<longrightarrow> out_of_frames m1"
      using load_segment_correct [OF Cons.prems(1) ok(1) re(1)] by blast
    show ?thesis
    proof (cases b)
      case False
      then have "load_segments m img phdrs (i # is) k = Some (None, m1)" using True l(1) by simp
      then show ?thesis unfolding hd using only_pages_mono [OF l(2)] pp l(4) False by blast
    next
      case bT: True
      have re1: "reachable_frames (mpg m1) d (Collect (prog_page ?phs))"
        unfolding reachable_frames_def
      proof (intro ballI conjI)
        fix f assume "f \<in> pmm_avail (pm (mpg m1))"
        then have f: "f \<in> pmm_avail (pm (mpg m))" using l(2) unfolding only_pages_def by blast
        then have s: "\<not> seg_page ?ph (unat f div 4096)" "view (mpg m) d (unat f div 4096) = None" using re(1) by (auto simp: reachable_frames_def)
        show "f < 0x400000" "unat f div 4096 \<notin> Collect (prog_page ?phs)" using re(2) f by (auto simp: reachable_frames_def)
        show "view (mpg m1) d (unat f div 4096) = None" using l(2) s unfolding only_pages_def by auto
      qed
      obtain n m2 where ih: "load_segments m1 img phdrs is (Suc k) = Some (n, m2)" "only_pages m1 D d (prog_page ?phs) m2"
          "n \<noteq> None \<longrightarrow> n = Some (Suc k + length ?phs) \<and> (?phs \<noteq> [] \<or> private_table (mpg m1) d 0 \<longrightarrow> private_table (mpg m2) d 0) \<and>
             (\<forall>ph \<in> set ?phs. \<forall>v. seg_page ph (unat v div 4096) \<longrightarrow> user_byte m2 d v = Some (seg_byte img ph v))" "n = None \<longrightarrow> out_of_frames m2"
        using Cons.IH [OF ready_only_pages [OF l(2) Cons.prems(1)] ok(2) re1, of "Suc k"] by blast
      have e: "load_segments m img phdrs (i # is) k = Some (n, m2)" using True bT l(1) ih(1) by simp
      have "user_byte m2 d v = Some (seg_byte img ?ph v)" if "seg_page ?ph (unat v div 4096)" for v
      proof -
        have "\<not> prog_page ?phs (unat v div 4096)" using ok(3) that by (auto simp: prog_page_def)
        then have "user_byte m2 d v = user_byte m1 d v" using ih(2) Cons.prems(1) unfolding only_pages_def ready_space_def by blast
        then show ?thesis using l(3) bT that by simp
      qed
      moreover have "only_pages m D d (prog_page (?ph # ?phs)) m2" using only_pages_trans [OF l(2) ih(2)] pp by blast
      ultimately show ?thesis unfolding hd e using ih(3,4) l(3) bT by auto
    qed
  qed
qed

end
