(* ===== verification/Program_Start.thy ===== *)
theory Program_Start
  imports Loader_Spec
begin

unbundle bit_operations_syntax

text \<open>
  What a program starts with: the call frame that \<open>usermode_enter\<close> lays out on the user stack, read
  back the way the program reads it (the words of its stack, its argument vector, NUL-terminated
  strings), and the composition with the loading of the segments.
\<close>

section \<open>Reading as the program reads\<close>

definition user_word :: "machine \<Rightarrow> u32 \<Rightarrow> u32 \<Rightarrow> u32 option" where
  "user_word m d a = (case (user_byte m d a, user_byte m d (a + 1), user_byte m d (a + 2), user_byte m d (a + 3)) of
     (Some b0, Some b1, Some b2, Some b3) \<Rightarrow> Some (get_le32 [b0, b1, b2, b3] 0) | _ \<Rightarrow> None)"

fun user_string :: "machine \<Rightarrow> u32 \<Rightarrow> u32 \<Rightarrow> nat \<Rightarrow> bytes option" where
  "user_string m d a 0 = None"
| "user_string m d a (Suc n) = (case user_byte m d a of None \<Rightarrow> None
     | Some c \<Rightarrow> if c = 0 then Some [] else map_option (Cons c) (user_string m d (a + 1) n))"

definition args_on_stack :: "machine \<Rightarrow> u32 \<Rightarrow> u32 \<Rightarrow> bytes list \<Rightarrow> bool" where
  "args_on_stack m d sp argv \<longleftrightarrow> 0x3FF000 \<le> unat sp \<and> unat sp < 0x400000 \<and> unat sp mod 4 = 0 \<and>
     user_word m d sp = Some 0 \<and> user_word m d (sp + 4) = Some (of_nat (length argv)) \<and>
     (\<exists>A. user_word m d (sp + 8) = Some A \<and> user_word m d (A + 4 * of_nat (length argv)) = Some 0 \<and>
        (\<forall>i < length argv. \<exists>p. user_word m d (A + 4 * of_nat i) = Some p \<and> user_string m d p 4096 = Some (argv ! i)))"

definition user_holds :: "machine \<Rightarrow> u32 \<Rightarrow> u32 \<Rightarrow> bytes \<Rightarrow> bool" where
  "user_holds m d a xs \<longleftrightarrow> (\<forall>k < length xs. user_byte m d (a + of_nat k) = Some (xs ! k))"

lemma user_holds_Nil [simp]: "user_holds m d a []"
  by (simp add: user_holds_def)

lemma user_holds_Cons [simp]: "user_holds m d a (x # xs) \<longleftrightarrow> user_byte m d a = Some x \<and> user_holds m d (a + 1) xs"
proof
  assume h: "user_holds m d a (x # xs)"
  have "user_byte m d (a + 1 + of_nat k) = Some (xs ! k)" if "k < length xs" for k
    using h [unfolded user_holds_def, rule_format, of "Suc k"] that by (simp add: ac_simps)
  then show "user_byte m d a = Some x \<and> user_holds m d (a + 1) xs" using h [unfolded user_holds_def, rule_format, of 0] by (simp add: user_holds_def)
next
  assume h: "user_byte m d a = Some x \<and> user_holds m d (a + 1) xs"
  show "user_holds m d a (x # xs)" unfolding user_holds_def
  proof (intro allI impI)
    fix k assume "k < length (x # xs)"
    then show "user_byte m d (a + of_nat k) = Some ((x # xs) ! k)" using h by (cases k) (simp_all add: user_holds_def ac_simps)
  qed
qed

lemma user_holds_append: "user_holds m d a (xs @ ys) \<longleftrightarrow> user_holds m d a xs \<and> user_holds m d (a + of_nat (length xs)) ys"
  by (induction xs arbitrary: a) (simp_all add: ac_simps)

lemma le_bytes_length [simp]: "length (le_bytes w) = 4"
  by (simp add: le_bytes_def)

lemma user_word_holds:
  assumes "user_holds m d a (le_bytes w)"
  shows "user_word m d a = Some w"
proof -
  obtain b0 b1 b2 b3 where b: "le_bytes w = [b0, b1, b2, b3]"
    using le_bytes_length [of w] by (auto simp: eval_nat_numeral length_Suc_conv simp del: le_bytes_length)
  have "get_le32 (le_bytes w) 0 = w" unfolding le_bytes_def by (subst get_put_le32) simp_all
  then show ?thesis using assms unfolding b by (simp add: user_word_def ac_simps)
qed

lemma user_words_hold:
  assumes "user_holds m d a (concat (map le_bytes ws))" "i < length ws"
  shows "user_word m d (a + 4 * of_nat i) = Some (ws ! i)"
  using assms
proof (induction ws arbitrary: a i)
  case (Cons w ws)
  then have h: "user_holds m d a (le_bytes w)" "user_holds m d (a + 4) (concat (map le_bytes ws))" by (simp_all add: user_holds_append)
  show ?case
  proof (cases i)
    case 0
    then show ?thesis using user_word_holds [OF h(1)] by simp
  next
    case (Suc j)
    then show ?thesis using Cons.IH [OF h(2), of j] Cons.prems(2) by (simp add: algebra_simps)
  qed
qed simp

lemma user_string_holds:
  assumes "user_holds m d a (s @ [0])" "0 \<notin> set s" "length s < n"
  shows "user_string m d a n = Some s"
  using assms
proof (induction s arbitrary: a n)
  case Nil
  then show ?case by (cases n) simp_all
next
  case (Cons c s)
  then show ?case by (cases n) auto
qed

section \<open>Pushing onto the stack page\<close>

text \<open>Only bytes of the directory \<open>d\<close> at addresses from \<open>lo\<close> up to \<open>hi\<close> have changed.\<close>

definition pushed :: "machine \<Rightarrow> u32 set \<Rightarrow> u32 \<Rightarrow> nat \<Rightarrow> nat \<Rightarrow> machine \<Rightarrow> bool" where
  "pushed m D d lo hi m' \<longleftrightarrow> (\<forall>d' \<in> D. \<forall>w. \<not> (d' = d \<and> lo \<le> unat w \<and> unat w < hi) \<longrightarrow> user_byte m' d' w = user_byte m d' w)"

lemma pushed_trans: "pushed m D d lo1 hi1 m1 \<Longrightarrow> pushed m1 D d lo2 hi2 m2 \<Longrightarrow> pushed m D d (min lo1 lo2) (max hi1 hi2) m2"
  unfolding pushed_def by (metis less_max_iff_disj min_le_iff_disj)

lemma pushed_holds:
  assumes "pushed m D d lo hi m'" "d \<in> D" "user_holds m d a xs" "hi \<le> unat a" "unat a + length xs \<le> 0x400000"
  shows "user_holds m' d a xs"
  unfolding user_holds_def
proof (intro allI impI)
  fix k assume k: "k < length xs"
  then have "unat (a + of_nat k) = unat a + k" using assms(5) by (subst unat_add_u32) (simp_all add: unat_of_nat_u32)
  then have "user_byte m' d (a + of_nat k) = user_byte m d (a + of_nat k)" using assms(1,2,4) by (simp add: pushed_def)
  then show "user_byte m' d (a + of_nat k) = Some (xs ! k)" using assms(3) k by (simp add: user_holds_def)
qed

definition stack_ready :: "machine \<Rightarrow> u32 set \<Rightarrow> u32 \<Rightarrow> bool" where
  "stack_ready m D d \<longleftrightarrow> low_space (mpg m) D d \<and> view (mpg m) d 1023 \<noteq> None"

lemma stack_ready_ram [simp]: "stack_ready (m\<lparr>ram := R\<rparr>) D d = stack_ready m D d"
  by (simp add: stack_ready_def)

lemma stack_store:
  assumes r: "stack_ready m D d" and b: "0x3FF000 \<le> unat v" "unat v + length xs \<le> 0x400000"
  obtains R where "vstores m v xs = Some (m\<lparr>ram := R\<rparr>)" "user_holds (m\<lparr>ram := R\<rparr>) d v xs" "pushed m D d (unat v) (unat v + length xs) (m\<lparr>ram := R\<rparr>)"
proof -
  have l: "low_space (mpg m) D d" "d \<in> D" using r by (auto simp: stack_ready_def low_space_def)
  have pg: "(unat v + k) div 4096 = 1023" if "k < length xs" for k
    using that b by (intro div_nat_eqI) simp_all
  obtain R where R: "vstores m v xs = Some (m\<lparr>ram := R\<rparr>)"
      "\<forall>d' \<in> D. \<forall>w. user_byte (m\<lparr>ram := R\<rparr>) d' w = (if d' = d \<and> unat v \<le> unat w \<and> unat w < unat v + length xs then Some (xs ! (unat w - unat v)) else user_byte m d' w)"
    using store_low [OF l(1) b(2)] pg r by (auto simp: stack_ready_def)
  have "unat (v + of_nat k) = unat v + k" if "k < length xs" for k using that b(2) by (subst unat_add_u32) (simp_all add: unat_of_nat_u32)
  then have "user_holds (m\<lparr>ram := R\<rparr>) d v xs" using R(2) l(2) by (simp add: user_holds_def)
  moreover have "pushed m D d (unat v) (unat v + length xs) (m\<lparr>ram := R\<rparr>)" using R(2) unfolding pushed_def by auto
  ultimately show ?thesis using that R(1) by blast
qed

definition strings_size :: "bytes list \<Rightarrow> nat" where
  "strings_size ss = sum_list (map (\<lambda>s. Suc (length s)) ss)"

text \<open>A copy of a string in the stack page, at or above an address.\<close>

definition copy_at :: "machine \<Rightarrow> u32 \<Rightarrow> nat \<Rightarrow> u32 \<Rightarrow> bytes \<Rightarrow> bool" where
  "copy_at m d lo p s \<longleftrightarrow> lo \<le> unat p \<and> unat p + length s < 0x400000 \<and> user_holds m d p (s @ [0])"

lemma copy_at_pushed: "copy_at m d lo p s \<Longrightarrow> pushed m D d lo' hi m' \<Longrightarrow> d \<in> D \<Longrightarrow> hi \<le> lo \<Longrightarrow> lo'' \<le> lo \<Longrightarrow> copy_at m' d lo'' p s"
  using pushed_holds [of m D d lo' hi m' p "s @ [0]"] by (auto simp: copy_at_def)

lemma push_strings_spec:
  assumes "stack_ready m D d" "unat tp \<le> 0x400000" "0x3FF000 + strings_size ss \<le> unat tp"
  shows "\<exists>R tp' cs. push_strings m tp ss = Some (m\<lparr>ram := R\<rparr>, tp', cs) \<and> unat tp' + strings_size ss = unat tp \<and>
    list_all2 (copy_at (m\<lparr>ram := R\<rparr>) d (unat tp')) cs (rev ss) \<and> pushed m D d (unat tp') (unat tp) (m\<lparr>ram := R\<rparr>)"
  using assms
proof (induction ss arbitrary: m tp)
  case Nil
  show ?case by (intro exI [of _ "ram m"] exI [of _ tp] exI [of _ "[]"]) (simp add: strings_size_def pushed_def)
next
  case (Cons s ss)
  let ?tp = "tp - of_nat (length s + 1)"
  have dD: "d \<in> D" using Cons.prems(1) by (auto simp: stack_ready_def low_space_def)
  have sz: "strings_size (s # ss) = Suc (length s) + strings_size ss" by (simp add: strings_size_def)
  have ln: "unat (of_nat (length s + 1) :: u32) = length s + 1" using Cons.prems(2,3) unfolding sz by (subst unat_of_nat_u32) simp_all
  have u: "unat ?tp = unat tp - (length s + 1)" using Cons.prems(2,3) unfolding sz
    by (subst unat_sub) (simp_all only: ln word_le_nat_alt)
  have u2: "unat ?tp + length (s @ [0]) = unat tp" "0x3FF000 + strings_size ss \<le> unat ?tp" using Cons.prems(3) unfolding u sz by simp_all
  obtain R where R: "vstores m ?tp (s @ [0]) = Some (m\<lparr>ram := R\<rparr>)" "user_holds (m\<lparr>ram := R\<rparr>) d ?tp (s @ [0])" "pushed m D d (unat ?tp) (unat tp) (m\<lparr>ram := R\<rparr>)"
    using stack_store [OF Cons.prems(1), of ?tp "s @ [0]"] u2 Cons.prems(2) by (metis add_leD1)
  have pre: "stack_ready (m\<lparr>ram := R\<rparr>) D d" "unat ?tp \<le> 0x400000" using Cons.prems(1,2) u by simp_all
  obtain R' tp' cs where ih: "push_strings (m\<lparr>ram := R\<rparr>) ?tp ss = Some (m\<lparr>ram := R'\<rparr>, tp', cs)" "unat tp' + strings_size ss = unat ?tp"
      "list_all2 (copy_at (m\<lparr>ram := R'\<rparr>) d (unat tp')) cs (rev ss)" "pushed (m\<lparr>ram := R\<rparr>) D d (unat tp') (unat ?tp) (m\<lparr>ram := R'\<rparr>)"
    using Cons.IH [OF pre u2(2)] by auto
  have "copy_at (m\<lparr>ram := R\<rparr>) d (unat ?tp) ?tp s" using R(2) u2(1) Cons.prems(2) by (simp add: copy_at_def)
  then have "copy_at (m\<lparr>ram := R'\<rparr>) d (unat tp') ?tp s" using copy_at_pushed [OF _ ih(4) dD] ih(2) by simp
  then have "list_all2 (copy_at (m\<lparr>ram := R'\<rparr>) d (unat tp')) (cs @ [?tp]) (rev (s # ss))" using ih(3) by (simp add: list_all2_appendI)
  moreover have "pushed m D d (unat tp') (unat tp) (m\<lparr>ram := R'\<rparr>)" using pushed_trans [OF R(3) ih(4)] ih(2) u2(1)
    by (metis max.absorb1 min.absorb2 le_add1)
  moreover have "unat tp' + strings_size (s # ss) = unat tp" using ih(2) u2(1) sz by simp
  ultimately show ?case using R(1) ih(1) by (intro exI [of _ R'] exI [of _ tp'] exI [of _ "cs @ [?tp]"]) (simp add: Let_def)
qed

section \<open>The call frame\<close>

lemma unat_align4: "unat ((v :: u32) AND NOT 3) = unat v div 4 * 4"
  using unat_and_not_mask [of v 2] by (simp add: mask_eq_exp_minus_1)

lemma align_both: "(a :: nat) + b = 4 * n \<Longrightarrow> a div 4 * 4 + (b + 3) div 4 * 4 = 4 * n"
proof -
  assume h: "a + b = 4 * n"
  obtain q r where a: "a = 4 * q + r" "r < 4" using mult_div_mod_eq [of 4 a] by (metis mod_less_divisor zero_less_numeral)
  then have "q \<le> n" using h by linarith
  then obtain j where j: "n = q + j" using le_Suc_ex by blast
  have "(b + 3) div 4 = j" using h a j by (intro div_nat_eqI) auto
  moreover have "a div 4 = q" using a by simp
  ultimately show ?thesis using j by simp
qed

lemma args_needed_eq:
  assumes "strings_size argv < 2 ^ 31" "length argv \<le> 16"
  shows "unat (args_needed argv) = (strings_size argv + 3) div 4 * 4 + 4 * (length argv + 1) + 12"
proof -
  have f: "foldl (\<lambda>n s. n + (of_nat (length s) + 1)) z ss = z + of_nat (strings_size ss)" for z :: u32 and ss :: "bytes list"
    by (induction ss arbitrary: z) (simp_all add: strings_size_def algebra_simps)
  have "unat (of_nat (strings_size argv) + 3 :: u32) = strings_size argv + 3"
    using assms(1) by (subst unat_add_u32) (simp_all add: unat_of_nat_u32)
  then have a: "unat ((of_nat (strings_size argv) + 3 :: u32) AND NOT 3) = (strings_size argv + 3) div 4 * 4" by (simp only: unat_align4)
  have b: "unat (of_nat (length argv + 1) * 4 :: u32) = 4 * (length argv + 1)"
    using assms(2) by (subst unat_mult_u32) (simp_all add: unat_of_nat_u32 del: of_nat_Suc of_nat_add)
  have lt: "(strings_size argv + 3) div 4 * 4 < 2 ^ 31 + 4" using assms(1) by simp
  have c: "unat (((of_nat (strings_size argv) + 3) AND NOT 3) + of_nat (length argv + 1) * 4 :: u32) = (strings_size argv + 3) div 4 * 4 + 4 * (length argv + 1)"
    using assms(2) lt a b by (subst unat_add_u32) simp_all
  have "unat (((of_nat (strings_size argv) + 3) AND NOT 3) + of_nat (length argv + 1) * 4 + 3 * 4 :: u32) = (strings_size argv + 3) div 4 * 4 + 4 * (length argv + 1) + 12"
    using assms(2) lt by (subst unat_add_u32) (simp_all only: c, simp_all)
  then show ?thesis by (simp only: args_needed_def Let_def f add_0)
qed

lemma user_stack_spec:
  assumes r: "stack_ready m D d" and n: "length argv \<le> 16" "strings_size argv < 2 ^ 31" "\<not> USER_STACK_SIZE < args_needed argv"
    and nul: "\<forall>s \<in> set argv. 0 \<notin> set s"
  shows "\<exists>R sp. user_stack m argv = Some (m\<lparr>ram := R\<rparr>, sp) \<and> args_on_stack (m\<lparr>ram := R\<rparr>) d sp argv \<and> pushed m D d 0x3FF000 0x400000 (m\<lparr>ram := R\<rparr>)"
proof -
  let ?S = "strings_size argv" and ?k = "length argv"
  have dD: "d \<in> D" using r by (auto simp: stack_ready_def low_space_def)
  have need: "(?S + 3) div 4 * 4 + 4 * (?k + 1) + 12 \<le> 4096" using n(3) args_needed_eq [OF n(2,1)] by (simp add: word_less_nat_alt USER_STACK_SIZE_def)
  have sr: "strings_size (rev argv) = ?S" by (simp add: strings_size_def sum_list_rev flip: rev_map)
  have tp0: "unat (USER_STACK_VADDR + USER_STACK_SIZE) = 0x400000" by (simp add: USER_STACK_VADDR_def USER_STACK_SIZE_def)
  have "?S \<le> (?S + 3) div 4 * 4" by presburger
  then have room: "(0x400000 :: nat) \<le> 0x400000" "0x3FF000 + ?S \<le> 0x400000" using need by linarith+
  obtain R tp cs where p: "push_strings m (USER_STACK_VADDR + USER_STACK_SIZE) (rev argv) = Some (m\<lparr>ram := R\<rparr>, tp, cs)" "unat tp + ?S = 0x400000"
      "list_all2 (copy_at (m\<lparr>ram := R\<rparr>) d (unat tp)) cs argv" "pushed m D d (unat tp) 0x400000 (m\<lparr>ram := R\<rparr>)"
    using push_strings_spec [OF r, of "USER_STACK_VADDR + USER_STACK_SIZE" "rev argv", unfolded tp0 sr rev_rev_ident] room by blast
  let ?A = "(tp AND NOT 3) - of_nat (?k + 1) * 4" and ?ws = "concat (map le_bytes (cs @ [0]))"
  have lc: "length cs = ?k" using p(3) by (rule list_all2_lengthD)
  have lw: "length ?ws = 4 * (?k + 1)" using lc by (simp add: length_concat comp_def sum_list_triv)
  have tp4: "unat (tp AND NOT 3) + (?S + 3) div 4 * 4 = 0x400000" unfolding unat_align4 using align_both [of "unat tp" ?S 1048576] p(2) by simp
  have k4: "unat (of_nat (?k + 1) * 4 :: u32) = 4 * (?k + 1)" using n(1) by (subst unat_mult_u32) (simp_all add: unat_of_nat_u32 del: of_nat_Suc of_nat_add)
  have A: "unat ?A = unat (tp AND NOT 3) - 4 * (?k + 1)" using need tp4 by (subst unat_sub) (simp_all only: k4 word_le_nat_alt)
  have A': "unat ?A + 4 * (?k + 1) = unat (tp AND NOT 3)" "0x3FF000 + 12 \<le> unat ?A" "unat (tp AND NOT 3) \<le> unat tp" using need tp4 unfolding A unat_align4 by linarith+
  have A4: "unat ?A mod 4 = 0" using A'(1) unfolding unat_align4 by presburger
  obtain R2 where R2: "vstores (m\<lparr>ram := R\<rparr>) ?A ?ws = Some (m\<lparr>ram := R2\<rparr>)" "user_holds (m\<lparr>ram := R2\<rparr>) d ?A ?ws" "pushed (m\<lparr>ram := R\<rparr>) D d (unat ?A) (unat (tp AND NOT 3)) (m\<lparr>ram := R2\<rparr>)"
    using stack_store [of "m\<lparr>ram := R\<rparr>" D d ?A ?ws] r A' p(2) unfolding lw by auto
  let ?sp = "?A - 12" and ?fr = "le_bytes 0 @ le_bytes (of_nat ?k) @ le_bytes ?A"
  have sp: "unat ?sp = unat ?A - 12" using A'(2) by (subst unat_sub) (simp_all add: word_le_nat_alt)
  have sp': "unat ?sp + length ?fr = unat ?A" "0x3FF000 \<le> unat ?sp" using sp A'(2) by simp_all
  obtain R3 where R3: "vstores (m\<lparr>ram := R2\<rparr>) ?sp ?fr = Some (m\<lparr>ram := R3\<rparr>)" "user_holds (m\<lparr>ram := R3\<rparr>) d ?sp ?fr" "pushed (m\<lparr>ram := R2\<rparr>) D d (unat ?sp) (unat ?A) (m\<lparr>ram := R3\<rparr>)"
    using stack_store [of "m\<lparr>ram := R2\<rparr>" D d ?sp ?fr] r sp' A' p(2) by auto
  have w3: "user_holds (m\<lparr>ram := R3\<rparr>) d ?A ?ws" using pushed_holds [OF R3(3) dD R2(2)] lw A' p(2) by simp
  have c3: "copy_at (m\<lparr>ram := R3\<rparr>) d (unat ?A) (cs ! i) (argv ! i)" if "i < ?k" for i
  proof -
    have "copy_at (m\<lparr>ram := R\<rparr>) d (unat tp) (cs ! i) (argv ! i)" using p(3) that by (simp add: list_all2_conv_all_nth)
    then have "copy_at (m\<lparr>ram := R2\<rparr>) d (unat ?A) (cs ! i) (argv ! i)" using copy_at_pushed [OF _ R2(3) dD] A'(1,3) by simp
    then show ?thesis using copy_at_pushed [OF _ R3(3) dD] by simp
  qed
  have st: "user_string (m\<lparr>ram := R3\<rparr>) d (cs ! i) 4096 = Some (argv ! i)" if "i < ?k" for i
    using c3 [OF that] nul that A'(2) by (intro user_string_holds) (auto simp: copy_at_def)
  have fr: "user_word (m\<lparr>ram := R3\<rparr>) d ?sp = Some 0" "user_word (m\<lparr>ram := R3\<rparr>) d (?sp + 4) = Some (of_nat ?k)" "user_word (m\<lparr>ram := R3\<rparr>) d (?sp + 8) = Some ?A"
    using user_words_hold [of "m\<lparr>ram := R3\<rparr>" d ?sp "[0, of_nat ?k, ?A]"] R3(2) by (force simp: nth_Cons')+
  have ar: "user_word (m\<lparr>ram := R3\<rparr>) d (?A + 4 * of_nat i) = Some ((cs @ [0]) ! i)" if "i \<le> ?k" for i
    using user_words_hold [OF w3, of i] that lc by simp
  have "args_on_stack (m\<lparr>ram := R3\<rparr>) d ?sp argv" unfolding args_on_stack_def
  proof (intro conjI exI [of _ ?A])
    show "unat ?sp mod 4 = 0" using sp A4 A'(2) by presburger
    show "user_word (m\<lparr>ram := R3\<rparr>) d (?A + 4 * of_nat ?k) = Some 0" using ar [of ?k] lc by (simp add: nth_append)
    show "\<forall>i < ?k. \<exists>p. user_word (m\<lparr>ram := R3\<rparr>) d (?A + 4 * of_nat i) = Some p \<and> user_string (m\<lparr>ram := R3\<rparr>) d p 4096 = Some (argv ! i)"
      using ar st lc by (simp add: nth_append)
  qed (use fr sp' A' p(2) in simp_all)
  moreover have "pushed m D d 0x3FF000 0x400000 (m\<lparr>ram := R3\<rparr>)"
    using pushed_trans [OF p(4) pushed_trans [OF R2(3) R3(3)]] sp' A' p(2) unfolding pushed_def by (auto simp: min_def max_def split: if_splits)
  moreover have "user_stack m argv = Some (m\<lparr>ram := R3\<rparr>, ?sp)" using p(1) R2(1) R3(1) lc by (simp add: user_stack_def Let_def)
  ultimately show ?thesis by blast
qed

section \<open>Entering ring 3\<close>

lemma unat_stack_vaddr: "unat USER_STACK_VADDR = 0x3FF000" "unat USER_STACK_VADDR div 4096 = 1023"
  by (simp_all add: USER_STACK_VADDR_def)

text \<open>In an address space with its own first table the stack page is loaded like a page of a segment.\<close>

lemma usermode_enter_eq:
  assumes l: "low_space (mpg m) D d" and c: "task_get_current_page_directory (kern m) = d" and re: "reachable_frames (mpg m) d {1023}"
  shows "usermode_enter m argv = (let argv = take MAX_ARGS argv in
     if USER_STACK_SIZE < args_needed argv then Some (None, m)
     else case load_pages m (table_at (mpg m) d 0) [USER_STACK_VADDR] of
       None \<Rightarrow> None
     | Some (False, m1) \<Rightarrow> Some (None, m1)
     | Some (True, m1) \<Rightarrow> map_option (\<lambda>(m2, user_esp). (Some user_esp, m2)) (user_stack m1 argv))"
proof -
  have w: "paging_wf (mpg m) D" "d \<in> D" "private_table (mpg m) d 0" "cr3 (mpg m) = d" "pmm_wf (pm (mpg m))" using l by (auto simp: low_space_def paging_wf_def)
  from w(5) show ?thesis
  proof (cases rule: pmm_pool.alloc_cases)
    case none
    then show ?thesis by (simp add: usermode_enter_def Let_def with_pg_def)
  next
    case (frame f p)
    let ?s = "(mpg m)\<lparr>pm := p\<rparr>"
    let ?m = "with_pg m ?s"
    note u = alloc_unlisted [OF w(1) frame(1,2)]
    have l1: "low_space (mpg ?m) D d" using l u(1) by (simp add: low_space_def private_table_def)
    have fr: "frame_addr f" "f < 0x400000" "view (mpg ?m) d (unat f div 4096) = None" using re frame(4) u(2) by (auto simp: reachable_frames_def unlisted_def)
    obtain R where R: "vstores ?m f (replicate 4096 0) = Some (?m\<lparr>ram := R\<rparr>)" using zero_frame [OF l1 fr] by blast
    have "private_table ?s d 0" using w(3) by (simp add: private_table_def)
    then have t: "paging_get_or_create_user_table ?s d USER_STACK_VADDR = Some (table_at (mpg m) d 0, ?s)"
      using get_or_create_eq [of ?s d USER_STACK_VADDR] by (simp add: unat_stack_vaddr Let_def table_at_def)
    have "table_at (mpg m) d 0 \<in># owned (mpg m) d" using w(3) by (auto simp: in_owned intro: exI [of _ 0])
    then have "frame_addr (table_at (mpg m) d 0)" using paging_wf_dir [OF w(1,2)] by blast
    then have tn: "table_at (mpg m) d 0 \<noteq> 0" by (simp add: frame_addr_def)
    have sw: "paging_switch_directory (paging_map_user_page ?s t a g) d = paging_map_user_page ?s t a g" for t a g
      using w(4) by (simp add: paging_switch_directory_def load_page_directory_def paging_map_user_page_def Let_def)
    have cd: "task_get_current_page_directory (kern ?m) = d" using c by (simp add: task_get_current_page_directory_def)
    have wp: "with_pg (?m\<lparr>ram := R\<rparr>) q = with_pg (m\<lparr>ram := R\<rparr>) q" for q by (simp add: with_pg_def)
    show ?thesis using frame(1,2) R t tn cd by (simp add: usermode_enter_def Let_def sw)
  qed
qed

lemma usermode_enter_correct:
  assumes l: "low_space (mpg m) D d" and c: "task_get_current_page_directory (kern m) = d" and re: "reachable_frames (mpg m) d {1023}"
    and n: "strings_size argv < 2 ^ 31" and nul: "\<forall>s \<in> set argv. 0 \<notin> set s"
  shows "\<exists>r m'. usermode_enter m argv = Some (r, m') \<and> only_pages m D d (\<lambda>p. p = 1023) m' \<and> (\<forall>sp. r = Some sp \<longrightarrow> args_on_stack m' d sp (take 16 argv)) \<and>
    (r = None \<longrightarrow> USER_STACK_SIZE < args_needed (take 16 argv) \<or> out_of_frames m')"
proof -
  let ?argv = "take MAX_ARGS argv" and ?t = "table_at (mpg m) d 0"
  have tk: "?argv = take 16 argv" by (simp add: MAX_ARGS_def)
  have "strings_size argv = strings_size ?argv + strings_size (drop MAX_ARGS argv)"
    unfolding strings_size_def sum_list_append [symmetric] map_append [symmetric] append_take_drop_id ..
  then have n': "strings_size ?argv < 2 ^ 31" "length ?argv \<le> 16" "\<forall>s \<in> set ?argv. 0 \<notin> set s" using n nul by (auto simp: MAX_ARGS_def dest: in_set_takeD)
  note eq = usermode_enter_eq [OF l c re, of argv]
  have lo: "low_space (mpg m) D d \<Longrightarrow> only_pages m D d P m" for P by (simp add: only_pages_def low_space_def)
  obtain b m1 frs where lp: "load_pages m ?t [USER_STACK_VADDR] = Some (b, m1)" "pages_loaded m D d [USER_STACK_VADDR] frs m1" "b \<longrightarrow> length frs = 1" "\<not> b \<longrightarrow> out_of_frames m1"
    using load_pages_spec [OF l HOL.refl, of "[USER_STACK_VADDR]"] re unat_stack_vaddr by auto
  have o: "only_pages m D d (\<lambda>p. p = 1023) m1" using pages_loaded_only [OF l lp(2)] unat_stack_vaddr by simp
  show ?thesis
  proof (cases "\<not> USER_STACK_SIZE < args_needed ?argv \<and> b")
    case False
    then have "\<exists>m'. usermode_enter m argv = Some (None, m') \<and> (m' = m \<and> USER_STACK_SIZE < args_needed ?argv \<or> m' = m1 \<and> \<not> b)" using eq lp(1) by (auto simp: Let_def)
    then show ?thesis using o lo [OF l] lp(4) tk by auto
  next
    case True
    obtain f where "frs = [f]" using lp(3) True by (auto simp: length_Suc_conv)
    then have "stack_ready m1 D d" using lp(2) by (simp add: pages_loaded_def stack_ready_def unat_stack_vaddr)
    from user_stack_spec [OF this n'(2,1) _ n'(3)] True obtain R sp where R: "user_stack m1 ?argv = Some (m1\<lparr>ram := R\<rparr>, sp)"
        "args_on_stack (m1\<lparr>ram := R\<rparr>) d sp ?argv" "pushed m1 D d 0x3FF000 0x400000 (m1\<lparr>ram := R\<rparr>)" by blast
    have "usermode_enter m argv = Some (Some sp, m1\<lparr>ram := R\<rparr>)" using eq True lp(1) R(1) by (simp add: Let_def)
    moreover have "only_pages m D d (\<lambda>p. p = 1023) (m1\<lparr>ram := R\<rparr>)"
    proof (rule only_pages_ram [OF o])
      fix d' and v :: u32 assume h: "d' \<in> D" "\<not> (d' = d \<and> unat v div 4096 = 1023)"
      have "unat v div 4096 = 1023" if "0x3FF000 \<le> unat v" "unat v < 0x400000" using that by (intro div_nat_eqI) simp_all
      then show "user_byte (m1\<lparr>ram := R\<rparr>) d' v = user_byte m1 d' v" using R(3) h unfolding pushed_def by blast
    qed
    ultimately show ?thesis using R(2) tk by auto
  qed
qed

section \<open>Starting a program\<close>

definition elf_segments :: "(u32 \<Rightarrow> u8) \<Rightarrow> elf32_program_header list" where
  "elf_segments img = load_headers img (e_phoff (elf_header_at img)) [0..<unat (e_phnum (elf_header_at img))]"

lemma only_pages_heap: "only_pages m D d P m' \<Longrightarrow> only_pages m D d P (m'\<lparr>kern := (kern m')\<lparr>heap := h\<rparr>\<rparr>)"
  by (simp add: only_pages_def user_byte_def)

lemma segs_ok_below: "segs_ok phs \<Longrightarrow> prog_page phs p \<Longrightarrow> p < 1023"
proof (induction phs)
  case (Cons ph phs)
  then show ?case using seg_bounds(4) [of ph] by (auto simp: prog_page_def seg_page_def)
qed (simp add: prog_page_def)

lemma enter_loaded:
  fixes h :: kheap
  assumes rs: "ready_space m D d" and ok: "segs_ok phs" and re: "reachable_frames (mpg m) d (insert 1023 (Collect (prog_page phs)))"
    and n: "strings_size argv < 2 ^ 31" "\<forall>s \<in> set argv. 0 \<notin> set s"
    and l: "only_pages m D d (prog_page phs) m1" "private_table (mpg m1) d 0"
      "\<forall>ph \<in> set phs. \<forall>v. seg_page ph (unat v div 4096) \<longrightarrow> user_byte m1 d v = Some (seg_byte img ph v)"
  defines "m1' \<equiv> m1\<lparr>kern := (kern m1)\<lparr>heap := h\<rparr>\<rparr>"
  shows "\<exists>r m2. usermode_enter m1' argv = Some (r, m2) \<and> only_pages m D d (\<lambda>p. p = 1023 \<or> prog_page phs p) m2 \<and>
    (\<forall>sp. r = Some sp \<longrightarrow> args_on_stack m2 d sp (take 16 argv)) \<and>
    (r = None \<longrightarrow> USER_STACK_SIZE < args_needed (take 16 argv) \<or> out_of_frames m2) \<and>
    (\<forall>ph \<in> set phs. \<forall>v. seg_page ph (unat v div 4096) \<longrightarrow> user_byte m2 d v = Some (seg_byte img ph v))"
proof -
  have o1: "only_pages m D d (prog_page phs) m1'" unfolding m1'_def using only_pages_heap [OF l(1)] .
  have l1: "low_space (mpg m1') D d" "task_get_current_page_directory (kern m1') = d"
    using ready_only_pages [OF l(1) rs] l(2) by (auto simp: m1'_def low_space_def ready_space_def task_get_current_page_directory_def)
  have re1: "reachable_frames (mpg m1') d {1023}" using re l(1) unfolding m1'_def reachable_frames_def only_pages_def by auto
  obtain r m2 where u: "usermode_enter m1' argv = Some (r, m2)" "only_pages m1' D d (\<lambda>p. p = 1023) m2" "\<forall>sp. r = Some sp \<longrightarrow> args_on_stack m2 d sp (take 16 argv)"
      "r = None \<longrightarrow> USER_STACK_SIZE < args_needed (take 16 argv) \<or> out_of_frames m2"
    using usermode_enter_correct [OF l1 re1 n] by blast
  have o: "only_pages m D d (\<lambda>p. p = 1023 \<or> prog_page phs p) m2" by (rule only_pages_trans [OF o1 u(2)]) auto
  have "user_byte m2 d v = Some (seg_byte img ph v)" if h: "ph \<in> set phs" "seg_page ph (unat v div 4096)" for ph v
  proof -
    have "unat v div 4096 < 1023" using segs_ok_below [OF ok] h by (auto simp: prog_page_def)
    then have "user_byte m2 d v = user_byte m1' d v" using u(2) rs unfolding only_pages_def ready_space_def by auto
    then show ?thesis using l(3) h by (auto simp: m1'_def user_byte_def)
  qed
  then show ?thesis using u(1,3,4) o by blast
qed


section \<open>An example\<close>

text \<open>An executable of one segment: 16 bytes of the file at 0x300004, 8192 bytes in memory.\<close>

definition demo_file :: bytes where
  "demo_file = [0x7F, 0x45, 0x4C, 0x46, 1, 1, 1] @ replicate 9 0 @ [2, 0, 3, 0, 1, 0, 0, 0, 4, 0, 0x30, 0, 52, 0, 0, 0] @ replicate 8 0 @
     [52, 0, 32, 0, 1, 0, 0, 0, 0, 0, 0, 0] @
     [1, 0, 0, 0, 84, 0, 0, 0, 4, 0, 0x30, 0, 4, 0, 0x30, 0, 16, 0, 0, 0, 0, 0x20, 0, 0, 7, 0, 0, 0, 0, 0x10, 0, 0] @ replicate 16 0x90"

definition demo_img :: "u32 \<Rightarrow> u8" where
  "demo_img i = (if unat i < length demo_file then demo_file ! unat i else 0)"

lemma demo_header: "e_phoff (elf_header_at demo_img) = 52" "e_phnum (elf_header_at demo_img) = 1" "elf_valid (elf_header_at demo_img)"
  by code_simp+

lemma demo_segments: "\<exists>ph. elf_segments demo_img = [ph] \<and> p_vaddr ph = 0x300004 \<and> p_memsz ph = 0x2000 \<and> p_filesz ph = 16"
proof -
  let ?ph = "program_header_at demo_img 52"
  have "p_type ?ph = PT_LOAD \<and> p_vaddr ?ph = 0x300004 \<and> p_memsz ?ph = 0x2000 \<and> p_filesz ?ph = 16" by code_simp
  then show ?thesis unfolding elf_segments_def demo_header load_headers_def by simp
qed

lemma demo_machine: "\<exists>m d. ready_space m {d} d \<and> reachable_frames (mpg m) d {p. 8 \<le> p}"
proof -
  obtain d s where s: "paging_wf s {d}" "roomy (pm s) 6" "view s d = Map.empty" using paging_example_dir by blast
  let ?t = "(tasks kernel_boot ! 0)\<lparr>page_directory := d\<rparr>"
  let ?m = "\<lparr>kern = kernel_boot\<lparr>tasks := [?t], current_task := 0, pg := s\<lparr>cr3 := d\<rparr>\<rparr>, ram = (\<lambda>_. 0xFF)\<rparr>"
  have v: "view (s\<lparr>cr3 := d\<rparr>) d = view s d" by (simp add: view_def user_map_def fun_eq_iff)
  have "paging_wf (s\<lparr>cr3 := d\<rparr>) {d}" using s(1) by (simp add: paging_wf_cr3)
  then have "ready_space ?m {d} d" by (simp add: ready_space_def task_get_current_page_directory_def)
  moreover have "unat f div 4096 < 8" if h: "f \<in> pmm_avail (pm s)" for f
  proof -
    obtain g where "g < 8" "f = of_nat g * 4096" using h s(2) by (auto simp: pmm_avail_def roomy_def)
    then show ?thesis using unat_frame_addr [of g] by simp
  qed
  then have "f < 0x400000 \<and> unat f div 4096 < 8" if "f \<in> pmm_avail (pm s)" for f
    using that by (fastforce simp: word_less_nat_alt div_less_iff_less_mult)
  then have "reachable_frames (mpg ?m) d {p. 8 \<le> p}" using v s(3) by (fastforce simp: reachable_frames_def)
  ultimately show ?thesis by blast
qed


end
