(* ===== verification/Libc_Str.thy ===== *)
theory Libc_Str
  imports Harold_Base
begin

unbundle bit_operations_syntax

text \<open>
  Strings and numbers: \<open>strlen\<close>, \<open>memset\<close>, \<open>memcpy\<close>, \<open>strcmp\<close>, \<open>itoa\<close> and \<open>atoi\<close> of src/userspace/libc.c.
  A C string in memory is a NUL-terminated run of bytes; as a value it is the list of its bytes
  without the NUL, and \<open>char_at\<close> reads it with the NUL behind its end. A C \<open>int\<close> is a 32-bit word
  read by \<open>sint\<close>; its arithmetic wraps.
\<close>

section \<open>The functions\<close>

definition char_at :: "bytes \<Rightarrow> nat \<Rightarrow> u8" where
  "char_at s i = (if i < length s then s ! i else 0)"

text \<open>In memory: the loop over \<open>len\<close> ends at the first NUL at or behind the address.\<close>

partial_function (option) strlen_loop :: "(u32 \<Rightarrow> u8) \<Rightarrow> u32 \<Rightarrow> u32 \<Rightarrow> u32 option" where
  "strlen_loop m s len = (if m (s + len) \<noteq> 0 then strlen_loop m s (len + 1) else Some len)"

definition strlen :: "(u32 \<Rightarrow> u8) \<Rightarrow> u32 \<Rightarrow> u32 option" where
  "strlen m s = strlen_loop m s 0"

fun memset_loop :: "(u32 \<Rightarrow> u8) \<Rightarrow> u32 \<Rightarrow> u8 \<Rightarrow> nat \<Rightarrow> u32 \<Rightarrow> (u32 \<Rightarrow> u8)" where
  "memset_loop m d x 0 i = m"
| "memset_loop m d x (Suc n) i = memset_loop (m(d + i := x)) d x n (i + 1)"

definition memset :: "(u32 \<Rightarrow> u8) \<Rightarrow> u32 \<Rightarrow> u32 \<Rightarrow> u32 \<Rightarrow> (u32 \<Rightarrow> u8)" where
  "memset m dest v len = memset_loop m dest (ucast v) (unat len) 0"

fun memcpy_loop :: "(u32 \<Rightarrow> u8) \<Rightarrow> u32 \<Rightarrow> u32 \<Rightarrow> nat \<Rightarrow> u32 \<Rightarrow> (u32 \<Rightarrow> u8)" where
  "memcpy_loop m d s 0 i = m"
| "memcpy_loop m d s (Suc n) i = memcpy_loop (m(d + i := m (s + i))) d s n (i + 1)"

definition memcpy :: "(u32 \<Rightarrow> u8) \<Rightarrow> u32 \<Rightarrow> u32 \<Rightarrow> u32 \<Rightarrow> (u32 \<Rightarrow> u8)" where
  "memcpy m dest src len = memcpy_loop m dest src (unat len) 0"

text \<open>\<open>a\<close> and \<open>b\<close> step together, so the loop reads the same positions of both.\<close>

fun strcmp :: "bytes \<Rightarrow> bytes \<Rightarrow> int" where
  "strcmp (x # a) (y # b) = (if x \<noteq> 0 \<and> x = y then strcmp a b else uint x - uint y)"
| "strcmp a b = uint (char_at a 0) - uint (char_at b 0)"

text \<open>The digits of a number, least significant first: the loop of \<open>itoa\<close> and of \<open>terminal_print_dec\<close>.\<close>

function dec_loop :: "u32 \<Rightarrow> bytes" where
  "dec_loop v = (if 0 < v then (0x30 + ucast (v mod 10)) # dec_loop (v div 10) else [])"
  by auto
termination
proof (relation "measure unat")
  fix v :: u32 assume "0 < v"
  then show "(v div 10, v) \<in> measure unat" by (simp add: unat_div word_less_nat_alt)
qed simp

declare dec_loop.simps [simp del]

definition itoa :: "u32 \<Rightarrow> bytes" where
  "itoa v =
     (if v = 0 then [0x30]
      else let negative = sint v < 0;
               uvalue = (if negative then - v else v)
           in (if negative then [0x2D] else []) @ rev (dec_loop uvalue))"

fun atoi_loop :: "bytes \<Rightarrow> u32 \<Rightarrow> u32" where
  "atoi_loop [] v = v"
| "atoi_loop (c # s) v = (if 0x30 \<le> c \<and> c \<le> 0x39 then atoi_loop s (v * 10 + ucast (c - 0x30)) else v)"

definition atoi :: "bytes \<Rightarrow> u32" where
  "atoi s = (if char_at s 0 = 0x2D then - atoi_loop (tl s) 0 else atoi_loop s 0)"

section \<open>Strings in memory\<close>

definition string_in :: "(u32 \<Rightarrow> u8) \<Rightarrow> u32 \<Rightarrow> bytes \<Rightarrow> bool" where
  "string_in m a s \<longleftrightarrow> (\<forall>i < length s. m (a + of_nat i) = s ! i) \<and> m (a + of_nat (length s)) = 0 \<and> 0 \<notin> set s"

lemma strlen_loop_string:
  assumes "string_in m a s" "i \<le> length s"
  shows "strlen_loop m a (of_nat i) = Some (of_nat (length s))"
  using assms(2)
proof (induction "length s - i" arbitrary: i)
  case 0
  then show ?case using assms(1) by (subst strlen_loop.simps) (simp add: string_in_def)
next
  case (Suc n)
  then have i: "i < length s" by simp
  then have "m (a + of_nat i) \<noteq> 0" using assms(1) nth_mem [of i s] unfolding string_in_def by metis
  moreover have "strlen_loop m a (of_nat (Suc i)) = Some (of_nat (length s))" using Suc.hyps(1) [of "Suc i"] Suc.hyps(2) i by simp
  ultimately show ?case by (subst strlen_loop.simps) (simp add: ac_simps)
qed

lemma strlen_string: "string_in m a s \<Longrightarrow> strlen m a = Some (of_nat (length s))"
  using strlen_loop_string [of m a s 0] by (simp add: strlen_def)

text \<open>An address inside a block of \<open>n\<close> bytes, and its offset there.\<close>

definition in_block :: "u32 \<Rightarrow> nat \<Rightarrow> u32 \<Rightarrow> bool" where
  "in_block a n x \<longleftrightarrow> unat (x - a) < n"

lemma in_block_iff: "n \<le> 2 ^ 32 \<Longrightarrow> in_block a n x \<longleftrightarrow> (\<exists>i < n. x = a + of_nat i)"
proof
  assume "in_block a n x"
  then show "\<exists>i < n. x = a + of_nat i" by (intro exI [of _ "unat (x - a)"]) (simp add: in_block_def)
next
  assume "n \<le> 2 ^ 32" "\<exists>i < n. x = a + of_nat i"
  then obtain i where "i < n" "i < 2 ^ 32" "x = a + of_nat i" by auto
  then show "in_block a n x" by (simp add: in_block_def unat_of_nat_u32)
qed

lemma offset_eq: "(a :: u32) = d + i \<longleftrightarrow> unat (a - d) = unat i"
  by (auto simp: word_unat_eq_iff [symmetric] algebra_simps)

lemma memset_loop_spec:
  assumes "unat i + n \<le> 2 ^ 32"
  shows "memset_loop m d x n i a = (if unat i \<le> unat (a - d) \<and> unat (a - d) < unat i + n then x else m a)"
  using assms
proof (induction n arbitrary: m i)
  case (Suc n)
  have e: "a = d + i \<longleftrightarrow> unat (a - d) = unat i" by (rule offset_eq)
  show ?case
  proof (cases n)
    case 0
    then show ?thesis using e by auto
  next
    case (Suc k)
    then have i: "unat (i + 1) = unat i + 1" using Suc.prems by (subst unat_add_u32) simp_all
    have "unat (i + 1) + n \<le> 2 ^ 32" using Suc.prems i by simp
    from Suc.IH [OF this] show ?thesis unfolding memset_loop.simps i using e by auto
  qed
qed auto

text \<open>
  \<open>memset\<close> sets exactly the bytes of the block to the low byte of the value.
\<close>

theorem memset_correct: "memset m dest v len a = (if in_block dest (unat len) a then ucast v else m a)"
  unfolding memset_def by (subst memset_loop_spec) (auto simp: in_block_def intro: less_imp_le unat_less_u32)

text \<open>The bytes still to be read are not overwritten when the copy goes downwards or elsewhere.\<close>

lemma memcpy_loop_spec:
  assumes "unat i + n \<le> 2 ^ 32" "\<And>j k. unat i \<le> j \<Longrightarrow> j < k \<Longrightarrow> k < unat i + n \<Longrightarrow> d + of_nat j \<noteq> s + of_nat k"
  shows "memcpy_loop m d s n i a = (if unat i \<le> unat (a - d) \<and> unat (a - d) < unat i + n then m (s + (a - d)) else m a)"
  using assms
proof (induction n arbitrary: m i)
  case (Suc n)
  have e: "a = d + i \<longleftrightarrow> unat (a - d) = unat i" by (rule offset_eq)
  show ?case
  proof (cases n)
    case 0
    then show ?thesis using e by auto
  next
    case (Suc k)
    then have i: "unat (i + 1) = unat i + 1" using Suc.prems(1) by (subst unat_add_u32) simp_all
    have p: "unat (i + 1) + n \<le> 2 ^ 32" "\<And>j k. unat (i + 1) \<le> j \<Longrightarrow> j < k \<Longrightarrow> k < unat (i + 1) + n \<Longrightarrow> d + of_nat j \<noteq> s + of_nat k"
      using Suc.prems i by simp_all
    have "s + (a - d) \<noteq> d + i" if "unat i + 1 \<le> unat (a - d)" "unat (a - d) < unat i + 1 + n"
      using Suc.prems(2) [of "unat i" "unat (a - d)"] that by auto
    with Suc.IH [OF p] show ?thesis unfolding memcpy_loop.simps i using e by auto
  qed
qed auto

text \<open>
  \<open>memcpy\<close> copies the block when the destination does not start inside the source: also when
  the blocks overlap with the destination below.
\<close>

theorem memcpy_correct:
  assumes "\<not> in_block src (unat len) dest \<or> dest = src"
  shows "memcpy m dest src len a = (if in_block dest (unat len) a then m (src + (a - dest)) else m a)"
proof (cases "dest = src")
  case True
  have "memcpy_loop m src src n i = m" for n i by (induction n arbitrary: i) (simp_all add: fun_upd_idem)
  then show ?thesis using True by (simp add: memcpy_def)
next
  case False
  have "dest + of_nat j \<noteq> src + of_nat k" if h: "j < k" "k < unat len" for j k
  proof
    assume "dest + of_nat j = src + of_nat k"
    then have "dest - src = of_nat k - of_nat j" by (metis add_diff_cancel_left' add_diff_eq diff_diff_eq2)
    then have e: "dest - src = of_nat (k - j)" using h(1) by (simp add: of_nat_diff)
    have "unat (dest - src) = k - j" unfolding e using h unat_less_u32 [of len] by (intro unat_of_nat_u32) simp
    then show False using assms False h by (simp add: in_block_def)
  qed
  then show ?thesis unfolding memcpy_def by (subst memcpy_loop_spec) (auto simp: in_block_def intro: less_imp_le unat_less_u32)
qed

section \<open>Comparison\<close>

text \<open>The first position where two strings differ decides, with the NUL below every other byte.\<close>

fun str_less :: "bytes \<Rightarrow> bytes \<Rightarrow> bool" where
  "str_less a [] \<longleftrightarrow> False"
| "str_less [] (y # b) \<longleftrightarrow> True"
| "str_less (x # a) (y # b) \<longleftrightarrow> x < y \<or> x = y \<and> str_less a b"

lemma uint_pos: "x \<noteq> 0 \<Longrightarrow> 0 < uint (x :: u8)"
  by (simp add: word_neq_0_conv word_less_def)

lemma strcmp_less: "0 \<notin> set a \<Longrightarrow> 0 \<notin> set b \<Longrightarrow> strcmp a b < 0 \<longleftrightarrow> str_less a b"
proof (induction a arbitrary: b)
  case Nil
  then show ?case by (cases b) (auto simp: char_at_def uint_pos)
next
  case (Cons x a)
  then show ?case by (cases b) (auto simp: char_at_def word_less_def)
qed

lemma strcmp_swap: "strcmp b a = - strcmp a b"
  by (induction a b rule: strcmp.induct) auto

lemma str_less_trichotomy: "str_less a b \<or> a = b \<or> str_less b a"
proof (induction a b rule: str_less.induct)
  case (1 a)
  then show ?case by (cases a) auto
qed auto

lemma str_less_irrefl: "\<not> str_less a a"
  by (induction a) auto

text \<open>
  \<open>strcmp\<close> compares as C prescribes: 0 exactly for equal strings, negative exactly when the first
  one comes first in the order of unsigned bytes, and exchanging the arguments exchanges the sign.
\<close>

theorem strcmp_correct:
  assumes "0 \<notin> set a" "0 \<notin> set b"
  shows "(strcmp a b = 0 \<longleftrightarrow> a = b) \<and> (strcmp a b < 0 \<longleftrightarrow> str_less a b) \<and> strcmp b a = - strcmp a b"
proof -
  have l: "strcmp a b < 0 \<longleftrightarrow> str_less a b" "strcmp b a < 0 \<longleftrightarrow> str_less b a" using strcmp_less assms by auto
  have "strcmp a a = - strcmp a a" by (rule strcmp_swap)
  then have "strcmp a a = 0" by simp
  then have "strcmp a b = 0 \<longleftrightarrow> a = b" using l str_less_trichotomy [of a b] strcmp_swap [of b a] by force
  then show ?thesis using l strcmp_swap by blast
qed

theorem strcmp_correct_witness: "strcmp (cstr ''edit'') (cstr ''exec'') < 0"
  using strcmp_correct [of "cstr ''edit''" "cstr ''exec''"] by (auto simp: cstr_def)

section \<open>Numbers\<close>

text \<open>The number that a string of decimal digits means.\<close>

definition digit :: "u8 \<Rightarrow> bool" where
  "digit c \<longleftrightarrow> 0x30 \<le> c \<and> c \<le> 0x39"

fun dec_value :: "bytes \<Rightarrow> nat" where
  "dec_value [] = 0"
| "dec_value (c # s) = unat (c - 0x30) * 10 ^ length s + dec_value s"

lemma dec_value_append: "dec_value (s @ t) = dec_value s * 10 ^ length t + dec_value t"
  by (induction s) (simp_all add: power_add algebra_simps)

lemma digit_of_mod: "digit (0x30 + ucast (v mod 10 :: u32))" "unat ((0x30 + ucast (v mod 10 :: u32) :: u8) - 0x30) = unat v mod 10"
proof -
  have d: "unat (v mod 10) < 10" by (simp add: unat_mod)
  then have u: "unat (ucast (v mod 10) :: u8) = unat v mod 10" by (simp add: unsigned_ucast_eq take_bit_eq_mod unat_mod)
  then show "unat ((0x30 + ucast (v mod 10 :: u32) :: u8) - 0x30) = unat v mod 10" by simp
  have "unat (0x30 + ucast (v mod 10) :: u8) = 0x30 + unat v mod 10" using u by (simp add: unat_word_ariths)
  then show "digit (0x30 + ucast (v mod 10 :: u32))" using mod_less_divisor [of 10 "unat v"] by (simp add: digit_def word_le_nat_alt)
qed

lemma dec_loop_spec: "dec_value (rev (dec_loop v)) = unat v \<and> list_all digit (dec_loop v) \<and> (v \<noteq> 0 \<longrightarrow> dec_loop v \<noteq> [] \<and> last (dec_loop v) \<noteq> 0x30)"
proof (induction v rule: dec_loop.induct)
  case (1 v)
  show ?case
  proof (cases "0 < v")
    case True
    note ih = 1 [OF True]
    note d = digit_of_mod [of v]
    have e: "dec_loop v = (0x30 + ucast (v mod 10)) # dec_loop (v div 10)" using True by (subst dec_loop.simps) simp
    have "dec_value (rev (dec_loop v)) = unat (v div 10) * 10 + unat v mod 10" unfolding e using ih d(2) by (simp add: dec_value_append)
    then have val: "dec_value (rev (dec_loop v)) = unat v" by (simp add: unat_div)
    have "last (dec_loop v) \<noteq> 0x30"
    proof (cases "v div 10 = 0")
      case z: True
      have "unat (v div 10) = 0" using z by simp
      then have "unat v div 10 = 0" by (simp only: unat_div unat_numeral) simp
      then have "unat v mod 10 = unat v" by simp
      then have "unat (last (dec_loop v) - 0x30) \<noteq> 0" unfolding e using z d(2) True by (simp add: dec_loop.simps [of 0] word_less_nat_alt)
      then show ?thesis by auto
    next
      case False
      then show ?thesis unfolding e using ih by simp
    qed
    then show ?thesis using val ih d(1) e by simp
  next
    case False
    then have "v = 0" by (simp add: word_gt_0)
    then show ?thesis by (simp add: dec_loop.simps [of 0])
  qed
qed

lemma dec_loop_length: "unat v < 10 ^ k \<Longrightarrow> length (dec_loop v) \<le> k"
proof (induction k arbitrary: v)
  case 0
  then show ?case by (simp add: dec_loop.simps [of v] word_less_nat_alt)
next
  case (Suc k)
  then have "unat (v div 10) < 10 ^ k" by (simp add: unat_div div_less_iff_less_mult mult.commute)
  then show ?case using Suc.IH by (subst dec_loop.simps) simp
qed

lemma dec_loop_fits: "length (dec_loop v) \<le> 10"
  using unat_less_u32 [of v] by (intro dec_loop_length) simp

lemma atoi_loop_digits: "list_all digit s \<Longrightarrow> atoi_loop s v = v * 10 ^ length s + of_nat (dec_value s)"
proof (induction s arbitrary: v)
  case (Cons c s)
  have "ucast (c - 0x30) = (of_nat (unat (c - 0x30)) :: u32)" by (simp add: unsigned_ucast_eq)
  then show ?case using Cons by (simp add: digit_def algebra_simps)
qed simp

text \<open>
  \<open>itoa\<close> writes at most eleven characters and \<open>atoi\<close> reads them back, for every 32-bit value, the
  most negative one included; the digits have no leading zero.
\<close>

theorem itoa_atoi: "atoi (itoa v) = v \<and> length (itoa v) \<le> 11 \<and> (sint v < 0 \<longleftrightarrow> hd (itoa v) = 0x2D)"
proof (cases "v = 0")
  case True
  then show ?thesis by (simp add: itoa_def atoi_def char_at_def)
next
  case False
  let ?u = "if sint v < 0 then - v else v"
  have u: "?u \<noteq> 0" using False by simp
  note d = dec_loop_spec [of ?u]
  have "atoi_loop (rev (dec_loop ?u)) 0 = ?u" using atoi_loop_digits [of "rev (dec_loop ?u)" 0] d by simp
  moreover have "rev (dec_loop ?u) \<noteq> []" "digit (hd (rev (dec_loop ?u)))" using d u by (auto simp: list_all_iff hd_rev)
  moreover from this have "hd (rev (dec_loop ?u)) \<noteq> 0x2D" "char_at (rev (dec_loop ?u)) 0 = hd (rev (dec_loop ?u))" by (auto simp: digit_def char_at_def hd_conv_nth)
  ultimately show ?thesis using False dec_loop_fits [of ?u] by (auto simp: itoa_def atoi_def Let_def char_at_def)
qed

end
