(* ===== verification/Terminal.thy ===== *)
theory Terminal
  imports Libc_Str
begin

unbundle bit_operations_syntax

text \<open>
  The text screen (src/src/terminal.c) with its mirror on the serial line (\<open>serial_putchar\<close> of
  src/src/serial.c). The video memory is the memory from 0xB8000 on, two bytes a cell, without an
  end: that no operation touches a cell behind the 2000 visible ones is proved. The specification
  is a sheet of paper without a lower edge, of which the screen shows 25 rows.
\<close>

section \<open>The driver\<close>

record terminal =
  video_memory :: "nat \<Rightarrow> u16"
  cursor_row :: nat
  cursor_col :: nat
  com1 :: bytes

definition VGA_WIDTH :: nat where "VGA_WIDTH = 80"
definition VGA_HEIGHT :: nat where "VGA_HEIGHT = 25"
definition VGA_COLOR :: u16 where "VGA_COLOR = 0x0F00"

text \<open>\<open>com1\<close> holds the bytes that the transmitter has been given; \<open>char\<close> is signed, so the cast to 16 bits extends its sign.\<close>

definition serial_putchar :: "terminal \<Rightarrow> u8 \<Rightarrow> terminal" where
  "serial_putchar t c = t\<lparr>com1 := com1 t @ (if c = 0x0A then [0x0D] else []) @ [c]\<rparr>"

definition terminal_put_entry_at :: "terminal \<Rightarrow> u8 \<Rightarrow> nat \<Rightarrow> nat \<Rightarrow> terminal" where
  "terminal_put_entry_at t c col row = t\<lparr>video_memory := (video_memory t)(row * VGA_WIDTH + col := scast c OR VGA_COLOR)\<rparr>"

definition scroll_up :: "(nat \<Rightarrow> u16) \<Rightarrow> (nat \<Rightarrow> u16)" where
  "scroll_up vm = fold (\<lambda>row vm. fold (\<lambda>col vm. vm((row - 1) * VGA_WIDTH + col := vm (row * VGA_WIDTH + col))) [0..<VGA_WIDTH] vm) [1..<VGA_HEIGHT] vm"

definition terminal_scroll :: "terminal \<Rightarrow> terminal" where
  "terminal_scroll t =
     (let t = t\<lparr>video_memory := scroll_up (video_memory t)\<rparr>;
          t = fold (\<lambda>col t. terminal_put_entry_at t 0x20 col (VGA_HEIGHT - 1)) [0..<VGA_WIDTH] t
      in t\<lparr>cursor_row := VGA_HEIGHT - 1\<rparr>)"

definition terminal_initialize :: "terminal \<Rightarrow> terminal" where
  "terminal_initialize t =
     (fold (\<lambda>row t. fold (\<lambda>col t. terminal_put_entry_at t 0x20 col row) [0..<VGA_WIDTH] t) [0..<VGA_HEIGHT] t)\<lparr>cursor_row := 0, cursor_col := 0\<rparr>"

definition terminal_putchar :: "terminal \<Rightarrow> u8 \<Rightarrow> terminal" where
  "terminal_putchar t c =
     (let t = serial_putchar t c;
          t = (if c = 0x0A then t\<lparr>cursor_col := 0, cursor_row := cursor_row t + 1\<rparr>
               else if c = 0x08 then
                 let t = (if 0 < cursor_col t then t\<lparr>cursor_col := cursor_col t - 1\<rparr>
                          else if 0 < cursor_row t then t\<lparr>cursor_row := cursor_row t - 1, cursor_col := VGA_WIDTH - 1\<rparr>
                          else t)
                 in terminal_put_entry_at t 0x20 (cursor_col t) (cursor_row t)
               else (terminal_put_entry_at t c (cursor_col t) (cursor_row t))\<lparr>cursor_col := cursor_col t + 1\<rparr>);
          t = (if VGA_WIDTH \<le> cursor_col t then t\<lparr>cursor_col := 0, cursor_row := cursor_row t + 1\<rparr> else t)
      in if VGA_HEIGHT \<le> cursor_row t then terminal_scroll t else t)"

definition terminal_writestring :: "terminal \<Rightarrow> bytes \<Rightarrow> terminal" where
  "terminal_writestring t str = foldl terminal_putchar t str"

definition hex_chars :: bytes where
  "hex_chars = cstr ''0123456789ABCDEF''"

definition hex_digits :: "u32 \<Rightarrow> bytes" where
  "hex_digits v = map (\<lambda>i. hex_chars ! unat (drop_bit i v AND 0xF)) [28, 24, 20, 16, 12, 8, 4, 0]"

definition terminal_print_hex :: "terminal \<Rightarrow> u32 \<Rightarrow> terminal" where
  "terminal_print_hex t v = foldl terminal_putchar (terminal_writestring t (cstr ''0x'')) (hex_digits v)"

definition terminal_print_dec :: "terminal \<Rightarrow> u32 \<Rightarrow> terminal" where
  "terminal_print_dec t v = (if v = 0 then terminal_putchar t 0x30 else foldl terminal_putchar t (rev (dec_loop v)))"

text \<open>The characters of the text from \<open>i\<close> on; a column outside the screen is skipped.\<close>

fun draw_cells :: "(nat \<Rightarrow> u16) \<Rightarrow> nat \<Rightarrow> int \<Rightarrow> bytes \<Rightarrow> u8 \<Rightarrow> (nat \<Rightarrow> u16)" where
  "draw_cells vm row c [] attr = vm"
| "draw_cells vm row c (x # str) attr =
     draw_cells (if c < 0 \<or> int VGA_WIDTH \<le> c then vm else vm(row * VGA_WIDTH + nat c := ucast x OR push_bit 8 (ucast attr))) row (c + 1) str attr"

definition terminal_draw_text :: "terminal \<Rightarrow> int \<Rightarrow> int \<Rightarrow> bytes \<Rightarrow> u8 \<Rightarrow> terminal" where
  "terminal_draw_text t row col str attr =
     (if row < 0 \<or> int VGA_HEIGHT \<le> row then t
      else t\<lparr>video_memory := draw_cells (video_memory t) (nat row) col str attr\<rparr>)"

section \<open>Scrolling and clearing in closed form\<close>

lemma fold_cells: "fold (\<lambda>col vm. vm(b + col := f (b + col))) [0..<n] vm = (\<lambda>i. if b \<le> i \<and> i < b + n then f i else vm i)"
  by (induction n) (auto simp: fun_eq_iff)

lemma scroll_row:
  "fold (\<lambda>col vm. vm(b + col := vm (b + w + col))) [0..<n] vm = (\<lambda>i. if b \<le> i \<and> i < b + n then vm (i + w) else vm i)" if "n \<le> w"
  using that by (induction n) (auto simp: fun_eq_iff ac_simps)

lemma scroll_rows: "fold (\<lambda>row vm. fold (\<lambda>col vm. vm((row - 1) * w + col := vm (row * w + col))) [0..<w] vm) [1..<Suc n] vm =
    (\<lambda>i. if i < n * w then vm (i + w) else vm i)"
proof (induction n)
  case (Suc n)
  let ?f = "fold (\<lambda>row vm. fold (\<lambda>col vm. vm((row - 1) * w + col := vm (row * w + col))) [0..<w] vm)"
  have "fold (\<lambda>col vm. vm((Suc n - 1) * w + col := vm (Suc n * w + col))) [0..<w] v = (\<lambda>i. if n * w \<le> i \<and> i < n * w + w then v (i + w) else v i)" for v :: "nat \<Rightarrow> 'a"
    using scroll_row [of w w "n * w" v] by (simp add: ac_simps)
  moreover have "[1..<Suc (Suc n)] = [1..<Suc n] @ [Suc n]" by simp
  ultimately have "?f [1..<Suc (Suc n)] vm = (\<lambda>i. if n * w \<le> i \<and> i < n * w + w then ?f [1..<Suc n] vm (i + w) else ?f [1..<Suc n] vm i)"
    by (simp only: fold_append comp_apply fold.simps id_apply)
  then show ?case unfolding Suc by (simp only:) (auto simp: fun_eq_iff)
qed simp

lemma scroll_up_eq: "scroll_up vm = (\<lambda>i. if i < 1920 then vm (i + 80) else vm i)"
  using scroll_rows [of 80 24 vm] by (simp add: scroll_up_def VGA_WIDTH_def VGA_HEIGHT_def)

abbreviation blank :: u16 where
  "blank \<equiv> 0x0F20"

lemma put_row: "fold (\<lambda>col t. terminal_put_entry_at t 0x20 col row) [0..<n] t =
    t\<lparr>video_memory := (\<lambda>i. if row * 80 \<le> i \<and> i < row * 80 + n then blank else video_memory t i)\<rparr>"
proof (induction n)
  case (Suc n)
  show ?case unfolding upt_Suc fold_append using Suc
    by (auto simp: terminal_put_entry_at_def VGA_WIDTH_def VGA_COLOR_def fun_eq_iff)
qed (cases t, auto simp: fun_eq_iff)

lemma terminal_scroll_eq:
  "terminal_scroll t = t\<lparr>cursor_row := 24, video_memory := (\<lambda>i. if i < 1920 then video_memory t (i + 80) else if i < 2000 then blank else video_memory t i)\<rparr>"
  unfolding terminal_scroll_def Let_def VGA_WIDTH_def VGA_HEIGHT_def scroll_up_eq put_row by (auto simp: fun_eq_iff)

lemma clear_rows: "fold (\<lambda>row t. fold (\<lambda>col t. terminal_put_entry_at t 0x20 col row) [0..<80] t) [0..<n] t =
    t\<lparr>video_memory := (\<lambda>i. if i < n * 80 then blank else video_memory t i)\<rparr>"
  by (induction n) (auto simp: put_row fun_eq_iff)

lemma terminal_initialize_eq:
  "terminal_initialize t = t\<lparr>cursor_row := 0, cursor_col := 0, video_memory := (\<lambda>i. if i < 2000 then blank else video_memory t i)\<rparr>"
  unfolding terminal_initialize_def VGA_WIDTH_def VGA_HEIGHT_def clear_rows by simp

section \<open>Paper\<close>

text \<open>
  An unbounded sheet: the rows from \<open>base\<close> on are on the screen, the pen is at \<open>pen_row\<close> and \<open>pen_col\<close>.
  A row that is written never moves.
\<close>

record paper =
  ink :: "nat \<Rightarrow> nat \<Rightarrow> u16"
  base :: nat
  pen_row :: nat
  pen_col :: nat

definition write_at :: "paper \<Rightarrow> nat \<Rightarrow> nat \<Rightarrow> u8 \<Rightarrow> paper" where
  "write_at p r c x = p\<lparr>ink := (ink p)(r := (ink p r)(c := scast x OR 0x0F00))\<rparr>"

definition pen_to :: "paper \<Rightarrow> nat \<Rightarrow> nat \<Rightarrow> paper" where
  "pen_to p r c = p\<lparr>pen_row := r, pen_col := c, base := max (base p) (r - 24)\<rparr>"

definition paper_putchar :: "paper \<Rightarrow> u8 \<Rightarrow> paper" where
  "paper_putchar p x =
     (let r = pen_row p; c = pen_col p in
      if x = 0x0A then pen_to p (r + 1) 0
      else if x = 0x08 then
        if 0 < c then write_at (pen_to p r (c - 1)) r (c - 1) 0x20
        else if base p < r then write_at (pen_to p (r - 1) 79) (r - 1) 79 0x20
        else write_at p r c 0x20
      else if c = 79 then pen_to (write_at p r c x) (r + 1) 0
      else pen_to (write_at p r c x) r (c + 1))"

text \<open>The screen shows the window of the paper from \<open>base\<close> on, and nothing is written below it.\<close>

definition cells :: "terminal \<Rightarrow> paper \<Rightarrow> bool" where
  "cells t p \<longleftrightarrow> (\<forall>r < 25. \<forall>c < 80. video_memory t (r * 80 + c) = ink p (base p + r) c) \<and> (\<forall>r \<ge> base p + 25. \<forall>c < 80. ink p r c = blank)"

definition shows_paper :: "terminal \<Rightarrow> paper \<Rightarrow> bool" where
  "shows_paper t p \<longleftrightarrow> base p \<le> pen_row p \<and> pen_row p < base p + 25 \<and> pen_col p < 80 \<and>
     cursor_row t = pen_row p - base p \<and> cursor_col t = pen_col p \<and> cells t p"

lemma cell_inj: "c < 80 \<Longrightarrow> c' < 80 \<Longrightarrow> (r :: nat) * 80 + c = r' * 80 + c' \<longleftrightarrow> r = r' \<and> c = c'"
proof
  assume h: "c < 80" "c' < 80" "r * 80 + c = r' * 80 + c'"
  then have "(r * 80 + c) div 80 = (r' * 80 + c') div 80" by (simp only:)
  then have e: "r = r'" using h(1,2) by simp
  then have "c = c'" using h(3) by (simp only: add_left_cancel)
  then show "r = r' \<and> c = c'" using e by blast
qed (simp only:)

lemma cells_write:
  assumes "cells t p" "row < 25" "col < 80"
  shows "cells (terminal_put_entry_at t x col row) (write_at p (base p + row) col x)"
  using assms cell_inj unfolding cells_def terminal_put_entry_at_def write_at_def VGA_WIDTH_def VGA_COLOR_def by auto

lemma cells_cong: "video_memory t' = video_memory t \<Longrightarrow> cells t' p = cells t p"
  by (simp add: cells_def)

lemma move_shows:
  assumes c: "cells t p" and r: "base p \<le> r" "r \<le> base p + 25" "cursor_row t = r - base p" and col: "cursor_col t < 80"
  shows "shows_paper (if VGA_HEIGHT \<le> cursor_row t then terminal_scroll t else t) (pen_to p r (cursor_col t))"
proof (cases "r = base p + 25")
  case True
  have vm: "video_memory (terminal_scroll t) (k * 80 + j) = ink p (base p + 1 + k) j" if h: "k < 25" "j < 80" for k j
  proof (cases "k = 24")
    case True
    then show ?thesis using c h unfolding terminal_scroll_eq cells_def by simp
  next
    case False
    then have k: "k + 1 < 25" "k * 80 + j < 1920" "k * 80 + j + 80 = (k + 1) * 80 + j" using h by auto
    have "video_memory t ((k + 1) * 80 + j) = ink p (base p + (k + 1)) j" using c k(1) h(2) unfolding cells_def by blast
    then show ?thesis unfolding terminal_scroll_eq using k by (simp add: ac_simps)
  qed
  have "cells (terminal_scroll t) (pen_to p r (cursor_col t))"
    using vm c True unfolding cells_def by (auto simp: pen_to_def max_def)
  then show ?thesis using True r(3) col by (auto simp: shows_paper_def VGA_HEIGHT_def pen_to_def terminal_scroll_eq max_def)
next
  case False
  then have "max (base p) (r - 24) = base p" using r by simp
  then have "cells t (pen_to p r (cursor_col t))" using c unfolding cells_def pen_to_def by simp
  then show ?thesis using False r col by (auto simp: shows_paper_def VGA_HEIGHT_def pen_to_def max_def)
qed

lemma step_shows:
  assumes "cells u q" "t = (if VGA_HEIGHT \<le> cursor_row u then terminal_scroll u else u)" "p = pen_to q r c"
    and "base q \<le> r" "r \<le> base q + 25" "cursor_row u = r - base q" "cursor_col u = c" "c < 80"
  shows "shows_paper t p"
  using move_shows [OF assms(1,4,5,6)] assms(2,3,7,8) by simp

lemma base_write_at [simp]: "base (write_at p r c x) = base p" "pen_row (write_at p r c x) = pen_row p" "pen_col (write_at p r c x) = pen_col p"
  by (simp_all add: write_at_def)

lemma put_entry_fields [simp]: "cursor_row (terminal_put_entry_at t x c r) = cursor_row t" "cursor_col (terminal_put_entry_at t x c r) = cursor_col t"
  "com1 (terminal_put_entry_at t x c r) = com1 t"
  by (simp_all add: terminal_put_entry_at_def)

lemma serial_fields [simp]: "video_memory (serial_putchar t x) = video_memory t" "cursor_row (serial_putchar t x) = cursor_row t" "cursor_col (serial_putchar t x) = cursor_col t"
  by (simp_all add: serial_putchar_def)

lemma putchar_shows:
  assumes s: "shows_paper t p"
  shows "shows_paper (terminal_putchar t x) (paper_putchar p x)"
proof -
  let ?t = "serial_putchar t x" and ?r = "pen_row p" and ?c = "pen_col p"
  let ?fin = "\<lambda>u. if VGA_HEIGHT \<le> cursor_row u then terminal_scroll u else u"
  have h: "base p \<le> ?r" "?r < base p + 25" "?c < 80" "cursor_row t = ?r - base p" "cursor_col t = ?c" "cells ?t p"
    using s cells_cong [of ?t t p] by (auto simp: shows_paper_def)
  consider (nl) "x = 0x0A" | (left) "x = 0x08" "0 < ?c" | (up) "x = 0x08" "?c = 0" "base p < ?r" | (stay) "x = 0x08" "?c = 0" "?r = base p"
    | (edge) "x \<noteq> 0x0A" "x \<noteq> 0x08" "?c = 79" | (char) "x \<noteq> 0x0A" "x \<noteq> 0x08" "?c < 79" using h(1,3) by linarith
  then show ?thesis
  proof cases
    case nl
    let ?u = "?t\<lparr>cursor_col := 0, cursor_row := cursor_row t + 1\<rparr>"
    have "cells ?u p" using h(6) by (simp add: cells_def)
    moreover have "terminal_putchar t x = ?fin ?u" "paper_putchar p x = pen_to p (?r + 1) 0"
      using nl by (simp_all add: terminal_putchar_def paper_putchar_def VGA_WIDTH_def Let_def)
    ultimately show ?thesis by (rule step_shows) (use h in simp_all)
  next
    case left
    let ?v = "?t\<lparr>cursor_col := ?c - 1\<rparr>"
    let ?u = "terminal_put_entry_at ?v 0x20 (?c - 1) (?r - base p)"
    have "cells ?v p" using h(6) by (simp add: cells_def)
    then have "cells ?u (write_at p ?r (?c - 1) 0x20)" using cells_write [of ?v p "?r - base p" "?c - 1"] h by simp
    moreover have "terminal_putchar t x = ?fin ?u" "paper_putchar p x = pen_to (write_at p ?r (?c - 1) 0x20) ?r (?c - 1)"
      using left h by (simp_all add: terminal_putchar_def paper_putchar_def VGA_WIDTH_def Let_def pen_to_def write_at_def)
    ultimately show ?thesis by (rule step_shows) (use h in simp_all)
  next
    case up
    let ?v = "?t\<lparr>cursor_row := cursor_row t - 1, cursor_col := 79\<rparr>"
    let ?u = "terminal_put_entry_at ?v 0x20 79 (?r - 1 - base p)"
    have r: "cursor_row t - 1 = ?r - 1 - base p" using h(4) by simp
    have "cells ?v p" using h(6) by (simp add: cells_def)
    then have "cells ?u (write_at p (?r - 1) 79 0x20)" using cells_write [of ?v p "?r - 1 - base p" 79] h up by simp
    moreover have "terminal_putchar t x = ?fin ?u" "paper_putchar p x = pen_to (write_at p (?r - 1) 79 0x20) (?r - 1) 79"
      using up h by (simp_all add: terminal_putchar_def paper_putchar_def VGA_WIDTH_def Let_def pen_to_def write_at_def)
    ultimately show ?thesis by (rule step_shows) (use h up in simp_all)
  next
    case stay
    let ?u = "terminal_put_entry_at ?t 0x20 ?c (?r - base p)"
    have "cells ?u (write_at p ?r ?c 0x20)" using cells_write [OF h(6), of "?r - base p" ?c] h by simp
    moreover have "terminal_putchar t x = ?fin ?u" "paper_putchar p x = pen_to (write_at p ?r ?c 0x20) ?r ?c"
      using stay h by (simp_all add: terminal_putchar_def paper_putchar_def VGA_WIDTH_def VGA_HEIGHT_def Let_def pen_to_def write_at_def)
    ultimately show ?thesis by (rule step_shows) (use h in simp_all)
  next
    case edge
    let ?v = "terminal_put_entry_at ?t x ?c (?r - base p)"
    let ?u = "?v\<lparr>cursor_col := 0, cursor_row := cursor_row t + 1\<rparr>"
    have "cells ?v (write_at p ?r ?c x)" using cells_write [OF h(6), of "?r - base p" ?c] h by simp
    then have "cells ?u (write_at p ?r ?c x)" by (simp add: cells_def)
    moreover have "terminal_putchar t x = ?fin ?u" "paper_putchar p x = pen_to (write_at p ?r ?c x) (?r + 1) 0"
      using edge h by (simp_all add: terminal_putchar_def paper_putchar_def VGA_WIDTH_def Let_def)
    ultimately show ?thesis by (rule step_shows) (use h in simp_all)
  next
    case char
    let ?v = "terminal_put_entry_at ?t x ?c (?r - base p)"
    let ?u = "?v\<lparr>cursor_col := ?c + 1\<rparr>"
    have "cells ?v (write_at p ?r ?c x)" using cells_write [OF h(6), of "?r - base p" ?c] h by simp
    then have "cells ?u (write_at p ?r ?c x)" by (simp add: cells_def)
    moreover have "terminal_putchar t x = ?fin ?u" "paper_putchar p x = pen_to (write_at p ?r ?c x) ?r (?c + 1)"
      using char h by (simp_all add: terminal_putchar_def paper_putchar_def VGA_WIDTH_def Let_def)
    ultimately show ?thesis by (rule step_shows) (use h char in simp_all)
  qed
qed

lemma cursor_cell: "r < 25 \<Longrightarrow> c < 80 \<Longrightarrow> (r :: nat) * 80 + c < 2000"
  by linarith

lemma putchar_outside:
  assumes "cursor_row t < 25" "cursor_col t < 80" "2000 \<le> i"
  shows "video_memory (terminal_putchar t x) i = video_memory t i"
proof -
  have e: "video_memory (if VGA_HEIGHT \<le> cursor_row u then terminal_scroll u else u) i = video_memory u i" for u
    using assms(3) by (simp add: terminal_scroll_eq)
  have w: "video_memory (terminal_put_entry_at u y c r) i = video_memory u i" if "r < 25" "c < 80" for u y c r
    using cursor_cell [OF that] assms(3) by (simp add: terminal_put_entry_at_def VGA_WIDTH_def)
  show ?thesis unfolding terminal_putchar_def Let_def e using assms(1,2) by (auto simp: w VGA_WIDTH_def)
qed

definition crlf :: "u8 \<Rightarrow> bytes" where
  "crlf c = (if c = 0x0A then [0x0D, 0x0A] else [c])"

lemma putchar_com1: "com1 (terminal_putchar t x) = com1 t @ crlf x"
  by (auto simp: terminal_putchar_def Let_def terminal_scroll_eq serial_putchar_def crlf_def)

text \<open>
  C29: the screen is a window on an unbounded sheet of paper. Whatever is written, the 25 rows on
  the screen are the rows of the paper that the pen has reached last, unmoved and in order, the
  cursor is the pen, no memory behind the screen is written, and the serial line gets every
  character in order with CR before LF.
\<close>

theorem terminal_shows_paper:
  assumes "shows_paper t p"
  shows "shows_paper (terminal_writestring t s) (foldl paper_putchar p s) \<and>
    (\<forall>i \<ge> 2000. video_memory (terminal_writestring t s) i = video_memory t i) \<and>
    com1 (terminal_writestring t s) = com1 t @ concat (map crlf s)"
  using assms
proof (induction s arbitrary: t p)
  case (Cons x s)
  have "cursor_row t < 25" "cursor_col t < 80" using Cons.prems by (auto simp: shows_paper_def)
  then have "\<forall>i \<ge> 2000. video_memory (terminal_putchar t x) i = video_memory t i" using putchar_outside by blast
  then show ?case using Cons.IH [OF putchar_shows [OF Cons.prems]] by (simp add: terminal_writestring_def putchar_com1)
qed (simp add: terminal_writestring_def)

definition blank_paper :: paper where
  "blank_paper = \<lparr>ink = (\<lambda>_ _. blank), base = 0, pen_row = 0, pen_col = 0\<rparr>"

lemma shows_cell: "shows_paper t p \<Longrightarrow> r < 25 \<Longrightarrow> c < 80 \<Longrightarrow> video_memory t (r * 80 + c) = ink p (base p + r) c"
  by (simp add: shows_paper_def cells_def)

lemma initialize_shows: "shows_paper (terminal_initialize t) blank_paper"
  using cursor_cell by (simp add: shows_paper_def cells_def blank_paper_def terminal_initialize_eq)

theorem terminal_shows_paper_witness:
  "\<exists>t. shows_paper (terminal_writestring t (cstr ''ab'')) (foldl paper_putchar blank_paper (cstr ''ab'')) \<and> video_memory (terminal_writestring t (cstr ''ab'')) 1 = 0x0F62"
proof -
  let ?t = "terminal_initialize \<lparr>video_memory = (\<lambda>_. 0), cursor_row = 7, cursor_col = 7, com1 = []\<rparr>"
  have s: "shows_paper (terminal_writestring ?t (cstr ''ab'')) (foldl paper_putchar blank_paper (cstr ''ab''))"
    using terminal_shows_paper [OF initialize_shows] by blast
  have "foldl paper_putchar blank_paper (cstr ''ab'') = write_at (write_at blank_paper 0 0 0x61) 0 1 0x62\<lparr>pen_col := 2\<rparr>"
    by (simp add: cstr_def paper_putchar_def blank_paper_def pen_to_def write_at_def Let_def)
  then have "ink (foldl paper_putchar blank_paper (cstr ''ab'')) 0 1 = 0x0F62" "base (foldl paper_putchar blank_paper (cstr ''ab'')) = 0"
    by (simp_all add: write_at_def blank_paper_def)
  moreover note shows_cell [OF s, of 0 1]
  ultimately show ?thesis using s by (intro exI [of _ ?t]) simp
qed

section \<open>Numbers on the screen\<close>

definition hex_digit :: "u8 \<Rightarrow> nat" where
  "hex_digit c = (if c \<le> 0x39 then unat (c - 0x30) else unat (c - 0x37))"

definition hex_value :: "bytes \<Rightarrow> nat" where
  "hex_value s = foldl (\<lambda>n c. 16 * n + hex_digit c) 0 s"

lemma hex_chars_digit: "k < 16 \<Longrightarrow> hex_digit (hex_chars ! k) = k"
proof -
  have "\<forall>k \<in> set [0..<16]. hex_digit (hex_chars ! k) = k" by code_simp
  then show "k < 16 \<Longrightarrow> hex_digit (hex_chars ! k) = k" by simp
qed

lemma nibble: "unat (drop_bit i (v :: u32) AND 0xF) = unat v div 2 ^ i mod 16"
proof -
  have m: "(0xF :: u32) = mask 4" by (simp add: mask_eq_exp_minus_1)
  have "unat (take_bit 4 (drop_bit i v)) = take_bit 4 (unat (drop_bit i v))" by (rule unsigned_take_bit_eq)
  also have "\<dots> = unat v div 2 ^ i mod 16" unfolding unat_drop_bit_eq by (simp add: take_bit_eq_mod drop_bit_eq_div)
  finally show ?thesis by (simp only: m take_bit_eq_mask)
qed

lemma hex_digits_value: "hex_value (hex_digits v) = unat v"
proof -
  have d: "hex_digit (hex_chars ! unat (drop_bit i v AND 0xF)) = unat v div 2 ^ i mod 16" for i
    unfolding nibble by (rule hex_chars_digit) simp
  have s: "unat v div 2 ^ i = 16 * (unat v div 2 ^ (i + 4)) + unat v div 2 ^ i mod 16" for i
    by (simp add: power_add div_mult2_eq)
  have t: "unat v div 2 ^ 28 mod 16 = unat v div 2 ^ 28" using unat_less_u32 [of v] by (intro mod_less) (simp add: div_less_iff_less_mult)
  show ?thesis unfolding hex_value_def hex_digits_def using s [of 24] s [of 20] s [of 16] s [of 12] s [of 8] s [of 4] s [of 0] t d [of 0]
    by (simp only: list.map foldl.simps d) simp
qed

text \<open>
  the number printers print the number: \<open>terminal_print_dec\<close> at most ten decimal digits without
  a leading zero, \<open>terminal_print_hex\<close> \<open>0x\<close> and eight hexadecimal digits, whose value is the argument.
\<close>

theorem terminal_prints_number:
  "(\<exists>ds. terminal_print_dec t v = terminal_writestring t ds \<and> dec_value ds = unat v \<and> list_all digit ds \<and> 1 \<le> length ds \<and> length ds \<le> 10 \<and> (hd ds = 0x30 \<longleftrightarrow> v = 0)) \<and>
   (\<exists>hs. terminal_print_hex t v = terminal_writestring t (cstr ''0x'' @ hs) \<and> hex_value hs = unat v \<and> length hs = 8)"
proof (rule conjI)
  show "\<exists>ds. terminal_print_dec t v = terminal_writestring t ds \<and> dec_value ds = unat v \<and> list_all digit ds \<and> 1 \<le> length ds \<and> length ds \<le> 10 \<and> (hd ds = 0x30 \<longleftrightarrow> v = 0)"
  proof (cases "v = 0")
    case True
    then show ?thesis by (intro exI [of _ "[0x30]"]) (simp add: terminal_print_dec_def terminal_writestring_def digit_def)
  next
    case False
    then show ?thesis using dec_loop_spec [of v] dec_loop_fits [of v]
      by (intro exI [of _ "rev (dec_loop v)"]) (auto simp: terminal_print_dec_def terminal_writestring_def hd_rev Suc_le_eq)
  qed
  show "\<exists>hs. terminal_print_hex t v = terminal_writestring t (cstr ''0x'' @ hs) \<and> hex_value hs = unat v \<and> length hs = 8"
    using hex_digits_value by (intro exI [of _ "hex_digits v"] conjI) (simp_all add: terminal_print_hex_def terminal_writestring_def hex_digits_def)
qed

section \<open>Text at a position\<close>

lemma draw_cells_eq:
  "draw_cells vm row c str attr i =
     (if row * 80 \<le> i \<and> i < row * 80 + 80 \<and> c \<le> int (i - row * 80) \<and> int (i - row * 80) < c + int (length str)
      then ucast (str ! nat (int (i - row * 80) - c)) OR push_bit 8 (ucast attr) else vm i)"
proof -
  define j where "j = int (i - row * 80)"
  have u: "i = row * 80 + nat c \<longleftrightarrow> row * 80 \<le> i \<and> j = c" if "0 \<le> c" for c using that by (auto simp: j_def)
  have "draw_cells vm row c str attr i =
     (if row * 80 \<le> i \<and> i < row * 80 + 80 \<and> c \<le> j \<and> j < c + int (length str) then ucast (str ! nat (j - c)) OR push_bit 8 (ucast attr) else vm i)"
  proof (induction str arbitrary: vm c)
    case (Cons x str)
    have n: "nat (j - c) = Suc (nat (j - (c + 1)))" if "c < j" using that by simp
    have b: "0 \<le> j" "row * 80 \<le> i \<and> i < row * 80 + 80 \<Longrightarrow> j < 80" by (auto simp: j_def)
    show ?case
    proof (cases "j = c")
      case True
      then show ?thesis unfolding draw_cells.simps Cons VGA_WIDTH_def using b u [of c] by auto
    next
      case False
      then show ?thesis unfolding draw_cells.simps Cons VGA_WIDTH_def using u [of c] n by auto
    qed
  qed auto
  then show ?thesis by (simp only: j_def)
qed

text \<open>
  \<open>terminal_draw_text\<close> changes exactly the cells of the text that are on the screen, whatever row,
  column and length it is given, and moves neither the cursor nor any other text.
\<close>

theorem draw_text_clips:
  "terminal_draw_text t row col str attr = t\<lparr>video_memory := (\<lambda>i.
     if 0 \<le> row \<and> row < 25 \<and> i div 80 = nat row \<and> col \<le> int (i mod 80) \<and> int (i mod 80) < col + int (length str)
     then ucast (str ! nat (int (i mod 80) - col)) OR push_bit 8 (ucast attr) else video_memory t i)\<rparr>"
proof -
  have d: "i div 80 = nat row \<longleftrightarrow> nat row * 80 \<le> i \<and> i < nat row * 80 + 80" for i by (auto simp: div_nat_eqI)
  have m: "i mod 80 = i - nat row * 80" if "i div 80 = nat row" for i using that by (metis minus_div_mult_eq_mod)
  show ?thesis
  proof (cases "row < 0 \<or> 25 \<le> row")
    case False
    have "draw_cells (video_memory t) (nat row) col str attr = (\<lambda>i.
        if i div 80 = nat row \<and> col \<le> int (i mod 80) \<and> int (i mod 80) < col + int (length str)
        then ucast (str ! nat (int (i mod 80) - col)) OR push_bit 8 (ucast attr) else video_memory t i)"
    proof (rule ext)
      fix i
      show "draw_cells (video_memory t) (nat row) col str attr i =
        (if i div 80 = nat row \<and> col \<le> int (i mod 80) \<and> int (i mod 80) < col + int (length str)
         then ucast (str ! nat (int (i mod 80) - col)) OR push_bit 8 (ucast attr) else video_memory t i)"
        unfolding draw_cells_eq using d [of i] m [of i] by (cases "i div 80 = nat row") (simp_all only: simp_thms, auto)
    qed
    then show ?thesis using False by (simp add: terminal_draw_text_def VGA_HEIGHT_def)
  qed (cases t, auto simp: terminal_draw_text_def VGA_HEIGHT_def fun_eq_iff)
qed

end
