(* ===== verification/Console.thy ===== *)
theory Console
  imports Terminal Ring_Buffer
begin

unbundle bit_operations_syntax

text \<open>
  Input: the keyboard (src/src/keyboard.c), the receiving half of the serial line
  (src/src/serial.c), the mouse (src/src/mouse.c) and the console that merges the first two
  (src/src/console.c). An interrupt handler gets the byte that it reads from the port. A blocking
  read is \<open>None\<close> while its buffer is empty: the task halts until the next interrupt.
\<close>

section \<open>State\<close>

record mouse_packet =
  dx :: int
  dy :: int
  left_button :: int
  right_button :: int
  middle_button :: int

record console =
  screen :: terminal
  shift_held :: bool
  kb_buffer :: bytes
  kb_head :: nat
  kb_tail :: nat
  serial_rx_buffer :: bytes
  serial_rx_head :: nat
  serial_rx_tail :: nat
  mouse_buffer :: "mouse_packet list"
  mouse_head :: nat
  mouse_tail :: nat
  packet_bytes :: bytes
  packet_index :: nat

definition KB_BUFFER_SIZE :: nat where "KB_BUFFER_SIZE = 256"
definition SERIAL_RX_BUFFER_SIZE :: nat where "SERIAL_RX_BUFFER_SIZE = 256"
definition MOUSE_BUFFER_SIZE :: nat where "MOUSE_BUFFER_SIZE = 64"
definition SCANCODE_LSHIFT :: u8 where "SCANCODE_LSHIFT = 0x2A"
definition SCANCODE_RSHIFT :: u8 where "SCANCODE_RSHIFT = 0x36"

definition scancode_ascii :: bytes where
  "scancode_ascii = [0, 27] @ cstr ''1234567890-='' @ [8, 9] @ cstr ''qwertyuiop[]'' @ [10, 0] @ cstr ''asdfghjkl;'' @ [0x27] @ cstr ''`'' @ [0, 0x5C] @
     cstr ''zxcvbnm,./'' @ [0] @ cstr ''*'' @ [0] @ cstr '' '' @ replicate 70 0"

definition scancode_ascii_shift :: bytes where
  "scancode_ascii_shift = [0, 27] @ cstr ''!@#$%^&*()_+'' @ [8, 9] @ cstr ''QWERTYUIOP{}'' @ [10, 0] @ cstr ''ASDFGHJKL:'' @ [0x22] @ cstr ''~'' @ [0] @ cstr ''|'' @
     cstr ''ZXCVBNM<>?'' @ [0] @ cstr ''*'' @ [0] @ cstr '' '' @ replicate 70 0"

section \<open>Keyboard\<close>

definition kb_buffer_push :: "u8 \<Rightarrow> console \<Rightarrow> console" where
  "kb_buffer_push c s =
     (let next = (kb_head s + 1) mod KB_BUFFER_SIZE in
      if next \<noteq> kb_tail s then s\<lparr>kb_buffer := (kb_buffer s)[kb_head s := c], kb_head := next\<rparr> else s)"

definition keyboard_handler :: "console \<Rightarrow> u8 \<Rightarrow> console" where
  "keyboard_handler s scancode =
     (let is_release = scancode AND 0x80 \<noteq> 0;
          code = scancode AND 0x7F in
      if code = SCANCODE_LSHIFT \<or> code = SCANCODE_RSHIFT then s\<lparr>shift_held := \<not> is_release\<rparr>
      else if is_release then s
      else let c = (if shift_held s then scancode_ascii_shift ! unat code else scancode_ascii ! unat code) in
        if c \<noteq> 0 then kb_buffer_push c (s\<lparr>screen := terminal_putchar (screen s) c\<rparr>) else s)"

definition keyboard_has_char :: "console \<Rightarrow> bool" where
  "keyboard_has_char s \<longleftrightarrow> kb_head s \<noteq> kb_tail s"

definition kb_pop :: "console \<Rightarrow> u8 \<times> console" where
  "kb_pop s = (kb_buffer s ! kb_tail s, s\<lparr>kb_tail := (kb_tail s + 1) mod KB_BUFFER_SIZE\<rparr>)"

definition keyboard_read_char :: "console \<Rightarrow> (u8 \<times> console) option" where
  "keyboard_read_char s = (if kb_head s = kb_tail s then None else Some (kb_pop s))"

section \<open>Serial line\<close>

definition serial_rx_push :: "u8 \<Rightarrow> console \<Rightarrow> console" where
  "serial_rx_push c s =
     (let next = (serial_rx_head s + 1) mod SERIAL_RX_BUFFER_SIZE in
      if next \<noteq> serial_rx_tail s then s\<lparr>serial_rx_buffer := (serial_rx_buffer s)[serial_rx_head s := c], serial_rx_head := next\<rparr> else s)"

text \<open>The handler drains the receive FIFO; \<open>fifo\<close> holds the bytes in it.\<close>

fun serial_handler :: "console \<Rightarrow> bytes \<Rightarrow> console" where
  "serial_handler s [] = s"
| "serial_handler s (c # fifo) = serial_handler (serial_rx_push c (s\<lparr>screen := terminal_putchar (screen s) c\<rparr>)) fifo"

definition serial_has_char :: "console \<Rightarrow> bool" where
  "serial_has_char s \<longleftrightarrow> serial_rx_head s \<noteq> serial_rx_tail s"

definition serial_pop :: "console \<Rightarrow> u8 \<times> console" where
  "serial_pop s = (serial_rx_buffer s ! serial_rx_tail s, s\<lparr>serial_rx_tail := (serial_rx_tail s + 1) mod SERIAL_RX_BUFFER_SIZE\<rparr>)"

definition serial_read_char :: "console \<Rightarrow> (u8 \<times> console) option" where
  "serial_read_char s = (if serial_rx_head s = serial_rx_tail s then None else Some (serial_pop s))"

definition console_read_char :: "console \<Rightarrow> (u8 \<times> console) option" where
  "console_read_char s =
     (if \<not> keyboard_has_char s \<and> \<not> serial_has_char s then None
      else if keyboard_has_char s then keyboard_read_char s else serial_read_char s)"

section \<open>Mouse\<close>

definition mouse_buffer_push :: "mouse_packet \<Rightarrow> console \<Rightarrow> console" where
  "mouse_buffer_push p s =
     (let next = (mouse_head s + 1) mod MOUSE_BUFFER_SIZE in
      if next \<noteq> mouse_tail s then s\<lparr>mouse_buffer := (mouse_buffer s)[mouse_head s := p], mouse_head := next\<rparr> else s)"

definition decode_packet :: "bytes \<Rightarrow> mouse_packet" where
  "decode_packet b =
     (let flags = b ! 0 in
      \<lparr>dx = (if flags AND 0x40 \<noteq> 0 then 0 else if flags AND 0x10 \<noteq> 0 then uint (b ! 1) - 256 else uint (b ! 1)),
       dy = (if flags AND 0x80 \<noteq> 0 then 0 else if flags AND 0x20 \<noteq> 0 then uint (b ! 2) - 256 else uint (b ! 2)),
       left_button = uint (flags AND 0x01),
       right_button = of_bool (flags AND 0x02 \<noteq> 0),
       middle_button = of_bool (flags AND 0x04 \<noteq> 0)\<rparr>)"

definition mouse_handler :: "console \<Rightarrow> u8 \<Rightarrow> console" where
  "mouse_handler s data =
     (if packet_index s = 0 \<and> data AND 0x08 = 0 then s
      else let s = s\<lparr>packet_bytes := (packet_bytes s)[packet_index s := data], packet_index := packet_index s + 1\<rparr> in
        if packet_index s < 3 then s
        else mouse_buffer_push (decode_packet (packet_bytes s)) (s\<lparr>packet_index := 0\<rparr>))"

definition mouse_has_packet :: "console \<Rightarrow> bool" where
  "mouse_has_packet s \<longleftrightarrow> mouse_head s \<noteq> mouse_tail s"

definition mouse_pop :: "console \<Rightarrow> mouse_packet \<times> console" where
  "mouse_pop s = (mouse_buffer s ! mouse_tail s, s\<lparr>mouse_tail := (mouse_tail s + 1) mod MOUSE_BUFFER_SIZE\<rparr>)"

definition mouse_read_packet :: "console \<Rightarrow> (mouse_packet \<times> console) option" where
  "mouse_read_packet s = (if mouse_head s = mouse_tail s then None else Some (mouse_pop s))"

section \<open>The three buffers are queues\<close>

definition console_inv :: "console \<Rightarrow> bool" where
  "console_inv s \<longleftrightarrow> length (kb_buffer s) = 256 \<and> kb_head s < 256 \<and> kb_tail s < 256 \<and>
     length (serial_rx_buffer s) = 256 \<and> serial_rx_head s < 256 \<and> serial_rx_tail s < 256 \<and>
     length (mouse_buffer s) = 64 \<and> mouse_head s < 64 \<and> mouse_tail s < 64 \<and> length (packet_bytes s) = 3 \<and> packet_index s < 3"

named_theorems console_defs

lemmas [console_defs] = console_inv_def KB_BUFFER_SIZE_def SERIAL_RX_BUFFER_SIZE_def MOUSE_BUFFER_SIZE_def Let_def

interpretation kbq: ring_buffer 256 console_inv kb_head kb_tail kb_buffer kb_buffer_push kb_pop
  by unfold_locales (auto simp: kb_buffer_push_def kb_pop_def console_defs)

interpretation serq: ring_buffer 256 console_inv serial_rx_head serial_rx_tail serial_rx_buffer serial_rx_push serial_pop
  by unfold_locales (auto simp: serial_rx_push_def serial_pop_def console_defs)

interpretation mouseq: ring_buffer 64 console_inv mouse_head mouse_tail mouse_buffer mouse_buffer_push mouse_pop
  by unfold_locales (auto simp: mouse_buffer_push_def mouse_pop_def console_defs)

section \<open>The specification: three bounded queues\<close>

datatype event = Key u8 | Serial bytes | Mouse u8 | Read_char | Read_packet

datatype item = Char u8 | Packet mouse_packet

fun console_step :: "console \<Rightarrow> event \<Rightarrow> item option \<times> console" where
  "console_step s (Key scancode) = (None, keyboard_handler s scancode)"
| "console_step s (Serial fifo) = (None, serial_handler s fifo)"
| "console_step s (Mouse data) = (None, mouse_handler s data)"
| "console_step s Read_char = (case console_read_char s of None \<Rightarrow> (None, s) | Some (c, s') \<Rightarrow> (Some (Char c), s'))"
| "console_step s Read_packet = (case mouse_read_packet s of None \<Rightarrow> (None, s) | Some (p, s') \<Rightarrow> (Some (Packet p), s'))"

record queues =
  shown :: terminal
  shift :: bool
  keys :: bytes
  line :: bytes
  clicks :: "mouse_packet list"
  partial :: bytes

definition bounded :: "nat \<Rightarrow> 'a list \<Rightarrow> 'a \<Rightarrow> 'a list" where
  "bounded n q x = (if length q < n then q @ [x] else q)"

text \<open>The character of a key, if it has one.\<close>

definition key_char :: "bool \<Rightarrow> u8 \<Rightarrow> u8 option" where
  "key_char sh scancode =
     (if scancode \<ge> 0x80 \<or> scancode \<in> {0x2A, 0x36} then None
      else let c = (if sh then scancode_ascii_shift else scancode_ascii) ! unat scancode in if c = 0 then None else Some c)"

definition key_shift :: "bool \<Rightarrow> u8 \<Rightarrow> bool" where
  "key_shift sh scancode = (if scancode \<in> {0x2A, 0x36} then True else if scancode \<in> {0xAA, 0xB6} then False else sh)"

fun queue_step :: "queues \<Rightarrow> event \<Rightarrow> item option \<times> queues" where
  "queue_step q (Key sc) = (None, case key_char (shift q) sc of
     None \<Rightarrow> q\<lparr>shift := key_shift (shift q) sc\<rparr>
   | Some c \<Rightarrow> q\<lparr>shown := terminal_putchar (shown q) c, keys := bounded 255 (keys q) c\<rparr>)"
| "queue_step q (Serial fifo) = (None, q\<lparr>shown := foldl terminal_putchar (shown q) fifo, line := line q @ take (255 - length (line q)) fifo\<rparr>)"
| "queue_step q (Mouse d) = (None,
     if partial q = [] \<and> d AND 0x08 = 0 then q
     else if length (partial q) < 2 then q\<lparr>partial := partial q @ [d]\<rparr>
     else q\<lparr>partial := [], clicks := bounded 63 (clicks q) (decode_packet (partial q @ [d]))\<rparr>)"
| "queue_step q Read_char = (case keys q of c # cs \<Rightarrow> (Some (Char c), q\<lparr>keys := cs\<rparr>)
     | [] \<Rightarrow> case line q of c # cs \<Rightarrow> (Some (Char c), q\<lparr>line := cs\<rparr>) | [] \<Rightarrow> (None, q))"
| "queue_step q Read_packet = (case clicks q of p # ps \<Rightarrow> (Some (Packet p), q\<lparr>clicks := ps\<rparr>) | [] \<Rightarrow> (None, q))"

definition queues_of :: "console \<Rightarrow> queues" where
  "queues_of s = \<lparr>shown = screen s, shift = shift_held s, keys = ring_contents 256 (kb_head s) (kb_tail s) (kb_buffer s),
     line = ring_contents 256 (serial_rx_head s) (serial_rx_tail s) (serial_rx_buffer s),
     clicks = ring_contents 64 (mouse_head s) (mouse_tail s) (mouse_buffer s), partial = take (packet_index s) (packet_bytes s)\<rparr>"

lemma kb_push_queues:
  assumes "console_inv s"
  shows "console_inv (kb_buffer_push c s)" "queues_of (kb_buffer_push c s) = (queues_of s)\<lparr>keys := bounded 255 (keys (queues_of s)) c\<rparr>"
proof -
  have "queues_of (kb_buffer_push c s) = (queues_of s)\<lparr>keys := keys (queues_of (kb_buffer_push c s))\<rparr>" by (simp add: kb_buffer_push_def queues_of_def Let_def)
  then show "queues_of (kb_buffer_push c s) = (queues_of s)\<lparr>keys := bounded 255 (keys (queues_of s)) c\<rparr>"
    using kbq.push_contents [OF assms, of c] by (simp add: bounded_def queues_of_def)
qed (rule kbq.push_inv [OF assms])

lemma mouse_push_queues:
  assumes "console_inv s"
  shows "console_inv (mouse_buffer_push p s)" "queues_of (mouse_buffer_push p s) = (queues_of s)\<lparr>clicks := bounded 63 (clicks (queues_of s)) p\<rparr>"
proof -
  have "queues_of (mouse_buffer_push p s) = (queues_of s)\<lparr>clicks := clicks (queues_of (mouse_buffer_push p s))\<rparr>" by (simp add: mouse_buffer_push_def queues_of_def Let_def)
  then show "queues_of (mouse_buffer_push p s) = (queues_of s)\<lparr>clicks := bounded 63 (clicks (queues_of s)) p\<rparr>"
    using mouseq.push_contents [OF assms, of p] by (simp add: bounded_def queues_of_def)
qed (rule mouseq.push_inv [OF assms])

lemma serial_push_queues:
  assumes "console_inv s"
  shows "console_inv (serial_rx_push c s)" "queues_of (serial_rx_push c s) = (queues_of s)\<lparr>line := bounded 255 (line (queues_of s)) c\<rparr>"
proof -
  have "queues_of (serial_rx_push c s) = (queues_of s)\<lparr>line := line (queues_of (serial_rx_push c s))\<rparr>" by (simp add: serial_rx_push_def queues_of_def Let_def)
  then show "queues_of (serial_rx_push c s) = (queues_of s)\<lparr>line := bounded 255 (line (queues_of s)) c\<rparr>"
    using serq.push_contents [OF assms, of c] by (simp add: bounded_def queues_of_def)
qed (rule serq.push_inv [OF assms])

lemma screen_queues [simp]: "console_inv (s\<lparr>screen := t\<rparr>) = console_inv s" "queues_of (s\<lparr>screen := t\<rparr>) = (queues_of s)\<lparr>shown := t\<rparr>"
  by (simp_all add: console_inv_def queues_of_def)

text \<open>Interrupts.\<close>

lemma scancode_bits:
  "(sc :: u8) AND 0x80 \<noteq> 0 \<longleftrightarrow> 0x80 \<le> sc" "sc AND 0x7F = 0x2A \<longleftrightarrow> sc = 0x2A \<or> sc = 0xAA" "sc AND 0x7F = 0x36 \<longleftrightarrow> sc = 0x36 \<or> sc = 0xB6"
  "\<not> 0x80 \<le> sc \<Longrightarrow> sc AND 0x7F = sc"
proof -
  have d: "unat sc div 128 = (if 128 \<le> unat sc then 1 else 0)" "unat sc mod 128 = (if 128 \<le> unat sc then unat sc - 128 else unat sc)"
    using unat_less_u8 [of sc] by (auto simp: le_mod_geq intro: div_nat_eqI)
  have "sc AND 0x7F = take_bit 7 sc" by (simp add: take_bit_eq_mask mask_eq_exp_minus_1)
  then have m: "unat (sc AND 0x7F) = unat sc mod 128" by (simp add: take_bit_eq_mod unat_mod)
  have "sc AND 0x80 \<noteq> 0 \<longleftrightarrow> bit sc 7" using bit_iff_and_push_bit_not_eq_0 [of sc 7] by (simp add: push_bit_eq_mult)
  also have "\<dots> \<longleftrightarrow> bit (unat sc) 7" by (simp add: bit_unsigned_iff)
  also have "\<dots> \<longleftrightarrow> odd (unat sc div 128)" unfolding bit_iff_odd by simp
  also have "\<dots> \<longleftrightarrow> 128 \<le> unat sc" using d by simp
  finally show "sc AND 0x80 \<noteq> 0 \<longleftrightarrow> 0x80 \<le> sc" by (simp add: word_le_nat_alt)
  show "sc AND 0x7F = 0x2A \<longleftrightarrow> sc = 0x2A \<or> sc = 0xAA" "sc AND 0x7F = 0x36 \<longleftrightarrow> sc = 0x36 \<or> sc = 0xB6"
    unfolding word_unat_eq_iff m d(2) by auto
  show "\<not> 0x80 \<le> sc \<Longrightarrow> sc AND 0x7F = sc" unfolding word_unat_eq_iff m by (simp add: word_le_nat_alt)
qed

lemma keyboard_queues:
  assumes "console_inv s"
  shows "console_inv (keyboard_handler s sc)" "queues_of (keyboard_handler s sc) = snd (queue_step (queues_of s) (Key sc))"
proof -
  have sh: "console_inv (s\<lparr>shift_held := b\<rparr>)" "queues_of (s\<lparr>shift_held := b\<rparr>) = (queues_of s)\<lparr>shift := b\<rparr>" for b
    using assms by (simp_all add: console_inv_def queues_of_def)
  have q: "shift (queues_of s) = shift_held s" "shown (queues_of s) = screen s" "(queues_of s)\<lparr>shift := shift_held s\<rparr> = queues_of s" by (simp_all add: queues_of_def)
  note k = kb_push_queues [of "s\<lparr>screen := t\<rparr>" for t, simplified screen_queues(1), OF assms]
  have two: "(sc = 0x2A \<or> sc = 0xAA) \<or> (sc = 0x36 \<or> sc = 0xB6) \<or> \<not> (sc = 0x2A \<or> sc = 0xAA \<or> sc = 0x36 \<or> sc = 0xB6)" by blast
  show "console_inv (keyboard_handler s sc)"
    using assms sh(1) k(1) by (simp add: keyboard_handler_def Let_def)
  show "queues_of (keyboard_handler s sc) = snd (queue_step (queues_of s) (Key sc))"
  proof (cases "sc = 0x2A \<or> sc = 0xAA \<or> sc = 0x36 \<or> sc = 0xB6")
    case True
    then show ?thesis using sh(2) by (auto simp: keyboard_handler_def key_char_def key_shift_def q SCANCODE_LSHIFT_def SCANCODE_RSHIFT_def)
  next
    case False
    then have c: "\<not> (sc AND 0x7F = SCANCODE_LSHIFT \<or> sc AND 0x7F = SCANCODE_RSHIFT)"
      unfolding SCANCODE_LSHIFT_def SCANCODE_RSHIFT_def scancode_bits by blast
    show ?thesis
    proof (cases "0x80 \<le> sc")
      case True
      then show ?thesis using False c unfolding keyboard_handler_def Let_def scancode_bits(1) by (simp add: key_char_def key_shift_def q)
    next
      case low: False
      show ?thesis using False c low k(2) unfolding keyboard_handler_def Let_def scancode_bits(1) scancode_bits(4) [OF low]
        by (simp add: key_char_def key_shift_def q)
    qed
  qed
qed

lemma serial_queues:
  assumes "console_inv s"
  shows "console_inv (serial_handler s fifo) \<and> queues_of (serial_handler s fifo) = snd (queue_step (queues_of s) (Serial fifo))"
  using assms
proof (induction fifo arbitrary: s)
  case (Cons c fifo)
  let ?s = "serial_rx_push c (s\<lparr>screen := terminal_putchar (screen s) c\<rparr>)"
  have q: "shown (queues_of s) = screen s" by (simp add: queues_of_def)
  have i: "console_inv ?s" "queues_of ?s = (queues_of s)\<lparr>shown := terminal_putchar (screen s) c, line := bounded 255 (line (queues_of s)) c\<rparr>"
    using serial_push_queues [of "s\<lparr>screen := terminal_putchar (screen s) c\<rparr>" c] Cons.prems by simp_all
  have l: "bounded 255 xs c @ take (255 - length (bounded 255 xs c)) fifo = xs @ take (255 - length xs) (c # fifo)" for xs
    by (simp add: bounded_def take_Cons' )
  show ?case using Cons.IH [OF i(1)] i(2) l by (simp add: q)
qed (simp add: queues_of_def)

lemma mouse_queues:
  assumes "console_inv s"
  shows "console_inv (mouse_handler s d)" "queues_of (mouse_handler s d) = snd (queue_step (queues_of s) (Mouse d))"
proof -
  let ?i = "packet_index s"
  let ?s = "s\<lparr>packet_bytes := (packet_bytes s)[?i := d], packet_index := ?i + 1\<rparr>"
  have b: "length (packet_bytes s) = 3" "?i < 3" using assms by (simp_all add: console_inv_def)
  have t: "take (?i + 1) ((packet_bytes s)[?i := d]) = partial (queues_of s) @ [d]" using b by (simp add: queues_of_def take_Suc_conv_app_nth)
  have p: "partial (queues_of s) = [] \<longleftrightarrow> ?i = 0" "length (partial (queues_of s)) = ?i" using b by (auto simp: queues_of_def)
  consider (drop) "?i = 0 \<and> d AND 0x08 = 0" | (more) "\<not> (?i = 0 \<and> d AND 0x08 = 0)" "?i < 2" | (whole) "?i = 2" using b by linarith
  then have "console_inv (mouse_handler s d) \<and> queues_of (mouse_handler s d) = snd (queue_step (queues_of s) (Mouse d))"
  proof cases
    case drop
    then show ?thesis using assms p by (simp add: mouse_handler_def)
  next
    case more
    then have "mouse_handler s d = ?s" by (auto simp: mouse_handler_def Let_def)
    then show ?thesis using more assms t p by (simp add: console_inv_def queues_of_def)
  next
    case whole
    let ?u = "?s\<lparr>packet_index := 0\<rparr>"
    have e: "mouse_handler s d = mouse_buffer_push (decode_packet (packet_bytes ?s)) ?u" using whole by (simp add: mouse_handler_def Let_def)
    have u: "console_inv ?u" "queues_of ?u = (queues_of s)\<lparr>partial := []\<rparr>" using assms by (simp_all add: console_inv_def queues_of_def)
    have "packet_bytes ?s = partial (queues_of s) @ [d]" using t whole b by simp
    then show ?thesis using mouse_push_queues [OF u(1), of "decode_packet (packet_bytes ?s)"] u(2) whole p unfolding e by simp
  qed
  then show "console_inv (mouse_handler s d)" "queues_of (mouse_handler s d) = snd (queue_step (queues_of s) (Mouse d))" by blast+
qed

text \<open>Reads.\<close>

lemma read_char_queues:
  assumes "console_inv s"
  shows "console_inv (snd (console_step s Read_char))" "fst (console_step s Read_char) = fst (queue_step (queues_of s) Read_char)"
    "queues_of (snd (console_step s Read_char)) = snd (queue_step (queues_of s) Read_char)"
proof -
  have e: "kb_head s = kb_tail s \<longleftrightarrow> keys (queues_of s) = []" "serial_rx_head s = serial_rx_tail s \<longleftrightarrow> line (queues_of s) = []"
    using kbq.empty_iff [OF assms] serq.empty_iff [OF assms] by (simp_all add: queues_of_def)
  have k: "keys (queues_of s) = fst (kb_pop s) # keys (queues_of (snd (kb_pop s)))" "console_inv (snd (kb_pop s))" if "keys (queues_of s) \<noteq> []"
    using kbq.pop_contents [OF assms] that by (simp_all add: queues_of_def)
  have l: "line (queues_of s) = fst (serial_pop s) # line (queues_of (snd (serial_pop s)))" "console_inv (snd (serial_pop s))" if "line (queues_of s) \<noteq> []"
    using serq.pop_contents [OF assms] that by (simp_all add: queues_of_def)
  have o: "queues_of (snd (kb_pop s)) = (queues_of s)\<lparr>keys := keys (queues_of (snd (kb_pop s)))\<rparr>"
    "queues_of (snd (serial_pop s)) = (queues_of s)\<lparr>line := line (queues_of (snd (serial_pop s)))\<rparr>"
    by (simp_all add: kb_pop_def serial_pop_def queues_of_def)
  note d = console_read_char_def keyboard_has_char_def serial_has_char_def keyboard_read_char_def serial_read_char_def e
  consider (key) "keys (queues_of s) \<noteq> []" | (ser) "keys (queues_of s) = []" "line (queues_of s) \<noteq> []" | (n) "keys (queues_of s) = []" "line (queues_of s) = []" by blast
  then have "console_inv (snd (console_step s Read_char)) \<and> fst (console_step s Read_char) = fst (queue_step (queues_of s) Read_char) \<and>
    queues_of (snd (console_step s Read_char)) = snd (queue_step (queues_of s) Read_char)"
  proof cases
    case key
    obtain c s' where p: "kb_pop s = (c, s')" by fastforce
    then have "console_step s Read_char = (Some (Char c), s')" using key by (simp add: d)
    then show ?thesis using k [OF key] o(1) p by (simp split: list.splits)
  next
    case ser
    obtain c s' where p: "serial_pop s = (c, s')" by fastforce
    then have "console_step s Read_char = (Some (Char c), s')" using ser by (simp add: d)
    then show ?thesis using l [OF ser(2)] o(2) p ser(1) by (simp split: list.splits)
  next
    case n
    then show ?thesis using assms by (simp add: d)
  qed
  then show "console_inv (snd (console_step s Read_char))" "fst (console_step s Read_char) = fst (queue_step (queues_of s) Read_char)"
    "queues_of (snd (console_step s Read_char)) = snd (queue_step (queues_of s) Read_char)" by blast+
qed

lemma read_packet_queues:
  assumes "console_inv s"
  shows "console_inv (snd (console_step s Read_packet)) \<and> fst (console_step s Read_packet) = fst (queue_step (queues_of s) Read_packet) \<and>
    queues_of (snd (console_step s Read_packet)) = snd (queue_step (queues_of s) Read_packet)"
proof (cases "clicks (queues_of s) = []")
  case True
  then have "mouse_head s = mouse_tail s" using mouseq.empty_iff [OF assms] by (simp add: queues_of_def)
  then show ?thesis using True assms by (simp add: mouse_read_packet_def)
next
  case False
  then have ne: "mouse_head s \<noteq> mouse_tail s" using mouseq.empty_iff [OF assms] by (simp add: queues_of_def)
  obtain c s' where p: "mouse_pop s = (c, s')" by fastforce
  have "clicks (queues_of s) = c # clicks (queues_of s')" "console_inv s'" using mouseq.pop_contents [OF assms] False p by (simp_all add: queues_of_def)
  moreover have "queues_of s' = (queues_of s)\<lparr>clicks := clicks (queues_of s')\<rparr>" using p by (auto simp: mouse_pop_def queues_of_def)
  moreover have "console_step s Read_packet = (Some (Packet c), s')" using ne p by (simp add: mouse_read_packet_def)
  ultimately show ?thesis by (simp split: list.splits)
qed

lemma step_queues:
  assumes "console_inv s"
  shows "console_inv (snd (console_step s e)) \<and> fst (console_step s e) = fst (queue_step (queues_of s) e) \<and>
    queues_of (snd (console_step s e)) = snd (queue_step (queues_of s) e)"
proof (cases e)
  case Read_char
  then show ?thesis using read_char_queues [OF assms] by blast
next
  case Read_packet
  then show ?thesis using read_packet_queues [OF assms] by blast
qed (use keyboard_queues [OF assms] serial_queues [OF assms] mouse_queues [OF assms] in auto)

text \<open>Any interleaving of interrupts and reads, with what the reads return.\<close>

fun run_events :: "('s \<Rightarrow> event \<Rightarrow> item option \<times> 's) \<Rightarrow> 's \<Rightarrow> event list \<Rightarrow> item list \<times> 's" where
  "run_events step s [] = ([], s)"
| "run_events step s (e # es) = (let (out, s1) = step s e; (outs, s2) = run_events step s1 es in (case out of None \<Rightarrow> outs | Some x \<Rightarrow> x # outs, s2))"

text \<open>
  C30: under every interleaving of key, serial and mouse interrupts with reads, the drivers behave
  as bounded first-in-first-out queues: every typed or received character is echoed, queued when
  there is room and read exactly once in order, the keyboard before the serial line; every
  complete mouse packet is read once in order, and a byte that cannot start a packet is dropped.
\<close>

theorem console_refines_queues:
  assumes "console_inv s"
  shows "console_inv (snd (run_events console_step s es)) \<and> fst (run_events console_step s es) = fst (run_events queue_step (queues_of s) es) \<and>
    queues_of (snd (run_events console_step s es)) = snd (run_events queue_step (queues_of s) es)"
  using assms
proof (induction es arbitrary: s)
  case (Cons e es)
  note st = step_queues [OF Cons.prems, of e]
  obtain out s1 where s1: "console_step s e = (out, s1)" by fastforce
  have q: "queue_step (queues_of s) e = (out, queues_of s1)" using st s1 by (metis fst_conv snd_conv prod.collapse)
  show ?case using Cons.IH [of s1] st s1 q by (auto simp: Let_def split: prod.splits)
qed simp

definition console0 :: console where
  "console0 = \<lparr>screen = terminal_initialize \<lparr>video_memory = (\<lambda>_. 0), cursor_row = 0, cursor_col = 0, com1 = []\<rparr>, shift_held = False,
     kb_buffer = replicate 256 0, kb_head = 0, kb_tail = 0, serial_rx_buffer = replicate 256 0, serial_rx_head = 0, serial_rx_tail = 0,
     mouse_buffer = replicate 64 \<lparr>dx = 0, dy = 0, left_button = 0, right_button = 0, middle_button = 0\<rparr>, mouse_head = 0, mouse_tail = 0,
     packet_bytes = [0, 0, 0], packet_index = 0\<rparr>"

lemma console0_inv: "console_inv console0"
  by (simp add: console_inv_def console0_def)

theorem console_refines_queues_witness:
  "fst (run_events console_step console0 [Key 0x2A, Key 0x23, Key 0xAA, Serial [0x78], Key 0x17, Read_char, Read_char, Read_char, Read_char]) = [Char 0x48, Char 0x69, Char 0x78]"
proof -
  have t: "scancode_ascii_shift ! 35 = 0x48" "scancode_ascii ! 23 = 0x69" by code_simp+
  have "queues_of console0 = \<lparr>shown = screen console0, shift = False, keys = [], line = [], clicks = [], partial = []\<rparr>"
    by (simp add: queues_of_def console0_def ring_contents_def)
  then show ?thesis unfolding conjunct1 [OF conjunct2 [OF console_refines_queues [OF console0_inv]]]
    by (simp add: key_char_def key_shift_def bounded_def t)
qed

section \<open>Mouse movements\<close>

text \<open>The packet that a mouse sends for a movement of at most 255 steps a direction.\<close>

definition encode_packet :: "int \<Rightarrow> int \<Rightarrow> bool \<Rightarrow> bool \<Rightarrow> bool \<Rightarrow> bytes" where
  "encode_packet x y l r m =
     [0x08 OR of_bool l OR (if r then 0x02 else 0) OR (if m then 0x04 else 0) OR (if x < 0 then 0x10 else 0) OR (if y < 0 then 0x20 else 0), of_int x, of_int y]"

text \<open>
  a movement of up to 255 steps and the state of the three buttons, sent by the mouse as its
  three bytes, are decoded back exactly; an axis whose overflow bit is set is read as no movement.
\<close>

theorem mouse_packet_roundtrip:
  assumes "- 256 \<le> x" "x \<le> 255" "- 256 \<le> y" "y \<le> 255"
  shows "decode_packet (encode_packet x y l r m) = \<lparr>dx = x, dy = y, left_button = of_bool l, right_button = of_bool r, middle_button = of_bool m\<rparr>"
proof -
  have u: "uint (of_int z :: u8) = (if z < 0 then z + 256 else z)" if "- 256 \<le> z" "z \<le> 255" for z
  proof (cases "z < 0")
    case True
    have "z mod 256 = (z + 256) mod 256" by simp
    also have "\<dots> = z + 256" using True that by (intro mod_pos_pos_trivial) simp_all
    finally show ?thesis using True by (simp add: uint_word_of_int)
  qed (use that in \<open>simp add: uint_word_of_int\<close>)
  show ?thesis unfolding decode_packet_def encode_packet_def
    by (cases l; cases r; cases m; cases "x < 0"; cases "y < 0") (simp_all add: u assms)
qed

theorem mouse_packet_roundtrip_witness: "dx (decode_packet (encode_packet (-7) 12 True False False)) = -7"
  using mouse_packet_roundtrip [of "-7" 12 True False False] by simp

end
