(* ===== verification/Shell.thy ===== *)
theory Shell
  imports Console
begin

unbundle bit_operations_syntax

text \<open>
  The command line of the shell (src/src/shell.c): reading a line with backspace, and splitting
  it in place into arguments. The line buffer is an array; the arguments are offsets into it, and
  the strings that they denote are read back from the array that \<open>tokenize\<close> leaves behind.
\<close>

section \<open>Reading a line\<close>

text \<open>
  The characters that \<open>console_read_char\<close> returns in turn; \<open>None\<close> while the line is not finished.
  The result is the line and the input behind it.
\<close>

fun shell_read_line :: "nat \<Rightarrow> bytes \<Rightarrow> bytes \<Rightarrow> (bytes \<times> bytes) option" where
  "shell_read_line max_len buf [] = (if length buf < max_len - 1 then None else Some (buf, []))"
| "shell_read_line max_len buf (c # cs) =
     (if length buf < max_len - 1 then
        if c = 0x0A then Some (buf, cs)
        else if c = 0x08 then shell_read_line max_len (butlast buf) cs
        else shell_read_line max_len (buf @ [c]) cs
      else Some (buf, c # cs))"

section \<open>Splitting it\<close>

text \<open>The pointer loops: the first position from \<open>p\<close> on whose character does not satisfy \<open>P\<close>.\<close>

function skip :: "(u8 \<Rightarrow> bool) \<Rightarrow> bytes \<Rightarrow> nat \<Rightarrow> nat" where
  "skip P b p = (if p < length b \<and> P (b ! p) then skip P b (p + 1) else p)"
  by auto
termination
  by (relation "measure (\<lambda>(P, b, p). length b - p)") auto

declare skip.simps [simp del]

lemma skip_ge: "p \<le> skip P b p"
  by (induction P b p rule: skip.induct) (subst skip.simps, auto)

lemma skip_step: "p < length b \<Longrightarrow> P (b ! p) \<Longrightarrow> p < skip P b p"
  using skip_ge [of "p + 1" P b] by (subst skip.simps) simp

lemma skip_stop: "skip P b p < length b \<Longrightarrow> \<not> P (b ! skip P b p)"
proof (induction P b p rule: skip.induct)
  case (1 P b p)
  then show ?case by (cases "p < length b \<and> P (b ! p)") (simp_all add: skip.simps [of P b p])
qed

text \<open>One token: where it starts, the line with its end marked, and where the search goes on.\<close>

definition token :: "bytes \<Rightarrow> nat \<Rightarrow> nat \<times> bytes \<times> nat" where
  "token b p =
     (if char_at b p = 0x22 then
        let q = skip (\<lambda>c. c \<noteq> 0 \<and> c \<noteq> 0x22) b (p + 1);
            (b1, q1) = (if char_at b q = 0x22 then (b[q := 0], q + 1) else (b, q));
            q2 = (if char_at b1 q1 = 0x20 then q1 + 1 else q1)
        in (p + 1, b1, q2)
      else
        let q = skip (\<lambda>c. c \<noteq> 0 \<and> c \<noteq> 0x20) b p in
        if char_at b q = 0x20 then (p, b[q := 0], q + 1) else (p, b, q))"

lemma token_progress:
  assumes "token b p = (a, b1, q)" "char_at b p \<noteq> 0" "char_at b p \<noteq> 0x20"
  shows "length b1 = length b" "p < q"
proof -
  have p: "p < length b" using assms(2) by (auto simp: char_at_def split: if_splits)
  show "length b1 = length b" using assms(1) by (auto simp: token_def Let_def split: if_splits)
  show "p < q"
  proof (cases "char_at b p = 0x22")
    case True
    then show ?thesis using assms(1) skip_ge [of "p + 1" "\<lambda>c. c \<noteq> 0 \<and> c \<noteq> 0x22" b] by (auto simp: token_def Let_def split: if_splits)
  next
    case False
    then show ?thesis using assms p skip_step [of p b "\<lambda>c. c \<noteq> 0 \<and> c \<noteq> 0x20"] by (auto simp: token_def char_at_def Let_def split: if_splits)
  qed
qed

text \<open>The loop; \<open>None\<close> is the result -1, one argument more than there is room for.\<close>

function tokenize_loop :: "bytes \<Rightarrow> nat \<Rightarrow> nat list \<Rightarrow> nat \<Rightarrow> nat list option \<times> bytes" where
  "tokenize_loop b p argv max_args =
     (if char_at b p = 0 then (Some argv, b)
      else let p1 = skip (\<lambda>c. c = 0x20) b p in
        if char_at b p1 = 0 then (Some argv, b)
        else if max_args \<le> length argv then (None, b)
        else let (a, b1, q) = token b p1 in tokenize_loop b1 q (argv @ [a]) max_args)"
  by auto
termination
proof (relation "measure (\<lambda>(b, p, argv, n). length b - p)")
  fix b :: bytes and p n :: nat and argv p1 x a y b1 q
  assume h: "char_at b p \<noteq> 0" "p1 = skip (\<lambda>c. c = 0x20) b p" "char_at b p1 \<noteq> 0" "x = token b p1" "(a, y) = x" "(b1, q) = y"
  have s: "char_at b p1 \<noteq> 0x20"
    using skip_stop [of "\<lambda>c. c = 0x20" b p] unfolding h(2) by (auto simp: char_at_def)
  have t: "token b p1 = (a, b1, q)" using h(4,5,6) by simp
  have "p \<le> p1" unfolding h(2) by (rule skip_ge)
  moreover have "p < length b" using h(1) by (auto simp: char_at_def split: if_splits)
  ultimately show "((b1, q, argv @ [a], n), (b, p, argv, n)) \<in> measure (\<lambda>(b, p, argv, n). length b - p)"
    using token_progress [OF t h(3) s] by simp
qed simp

declare tokenize_loop.simps [simp del]

definition tokenize :: "bytes \<Rightarrow> nat \<Rightarrow> nat list option \<times> bytes" where
  "tokenize line_buf max_args = tokenize_loop line_buf 0 [] max_args"

text \<open>The strings that pointers into the line denote.\<close>

definition reads :: "nat list \<Rightarrow> bytes \<Rightarrow> bytes list" where
  "reads offs b = map (\<lambda>off. c_string_of (drop off b)) offs"

text \<open>
  One round of \<open>shell_task\<close>, from the prompt to the launch of a task: what it does with a line, and
  what it writes. \<open>junk\<close> is what earlier lines left in the rest of the buffer.
\<close>

datatype shell_action = Reprompt | Launch "bytes list"

definition shell_round :: "terminal \<Rightarrow> bytes \<Rightarrow> bytes \<Rightarrow> shell_action \<times> terminal" where
  "shell_round t line_read junk =
     (let t = terminal_writestring t (cstr ''> '') in
      if line_read = [] then (Reprompt, t)
      else case tokenize (line_read @ 0 # junk) 16 of
             (None, _) \<Rightarrow> (Reprompt, terminal_writestring (terminal_print_dec (terminal_writestring t (cstr ''shell: too many arguments (max '')) 16) (cstr '')'' @ [0x0A]))
           | (Some argv, b) \<Rightarrow> if argv = [] then (Reprompt, t) else (Launch (reads argv b), t))"

section \<open>The arguments of a line\<close>

text \<open>The specification: split at spaces, a quoted argument reaches to the next quote.\<close>

function split_args :: "bytes \<Rightarrow> bytes list" where
  "split_args s = (case dropWhile (\<lambda>c. c = 0x20) s of
     [] \<Rightarrow> []
   | c # t \<Rightarrow>
       if c = 0x22 then takeWhile (\<lambda>x. x \<noteq> 0x22) t # split_args (case dropWhile (\<lambda>x. x \<noteq> 0x22) t of _ # x # u \<Rightarrow> if x = 0x20 then u else x # u | _ \<Rightarrow> [])
       else takeWhile (\<lambda>x. x \<noteq> 0x20) (c # t) # split_args (tl (dropWhile (\<lambda>x. x \<noteq> 0x20) (c # t))))"
  by pat_completeness auto
termination
proof (relation "measure length")
  fix s :: bytes and c t assume h: "dropWhile (\<lambda>c. c = 0x20) s = c # t"
  have l: "length (c # t) \<le> length s" using length_dropWhile_le [of "\<lambda>c. c = 0x20" s] h by simp
  have "length (case dropWhile (\<lambda>x. x \<noteq> 0x22) t of _ # x # u \<Rightarrow> if x = 0x20 then u else x # u | _ \<Rightarrow> []) \<le> length t"
    using length_dropWhile_le [of "\<lambda>x. x \<noteq> 0x22" t] by (auto split: list.splits)
  then show "(case dropWhile (\<lambda>x. x \<noteq> 0x22) t of _ # x # u \<Rightarrow> if x = 0x20 then u else x # u | _ \<Rightarrow> [], s) \<in> measure length" using l by simp
  have "length (dropWhile (\<lambda>x. x \<noteq> 0x20) t) \<le> length t" by (rule length_dropWhile_le)
  then show "(tl (dropWhile (\<lambda>x. x \<noteq> 0x20) (c # t)), s) \<in> measure length" if "c \<noteq> 0x22" using l by (auto split: if_splits)
qed simp

declare split_args.simps [simp del]

lemma char_at_append [simp]: "char_at (xs @ c # ys) (length xs) = c"
  by (simp add: char_at_def)

lemma char_at_next [simp]: "char_at (xs @ c # ys) (Suc (length xs)) = char_at ys 0" "char_at (xs @ ys) (length xs) = char_at ys 0" "char_at (x # xs) 0 = x"
  by (auto simp: char_at_def nth_append)

lemma skip_run: "list_all P w \<Longrightarrow> \<not> P x \<Longrightarrow> skip P (pre @ w @ x # rest) (length pre) = length pre + length w"
proof (induction w arbitrary: pre)
  case Nil
  then show ?case by (subst skip.simps) simp
next
  case (Cons c w)
  then show ?case using Cons.IH [of "pre @ [c]"] by (subst skip.simps) simp
qed

lemma run_update: "(pre @ w @ x # rest)[length pre + length w := y] = pre @ w @ y # rest"
  using list_update_length [of "pre @ w" x rest y] by simp

lemma run_at: "char_at (pre @ w @ x # rest) (length pre + length w) = x"
  using char_at_append [of "pre @ w" x rest] by simp

text \<open>A line begins with a space, or with an argument that a delimiter or its end follows.\<close>

definition plain :: "bytes \<Rightarrow> bool" where
  "plain w \<longleftrightarrow> w \<noteq> [] \<and> hd w \<noteq> 0x22 \<and> 0x20 \<notin> set w"

lemma line_cases:
  obtains (none) "s = []" | (space) t where "s = 0x20 # t"
    | (open_quote) w where "s = 0x22 # w" "0x22 \<notin> set w" | (quote) w u where "s = 0x22 # w @ 0x22 # u" "0x22 \<notin> set w"
    | (word) w where "s = w" "plain w" | (word_space) w u where "s = w @ 0x20 # u" "plain w"
proof (cases s)
  case (Cons c t)
  show ?thesis
  proof (cases "c = 0x22")
    case True
    then show ?thesis using that(3,4) Cons by (cases "0x22 \<in> set t") (auto dest: split_list_first)
  next
    case c: False
    show ?thesis
    proof (cases "c = 0x20")
      case False
      then show ?thesis using that(5,6) c Cons
      proof (cases "0x20 \<in> set t")
        case True
        then obtain w u where "t = w @ 0x20 # u" "0x20 \<notin> set w" by (auto dest: split_list_first)
        then show ?thesis using that(6) [of "c # w" u] Cons c False by (simp add: plain_def)
      qed (auto simp: plain_def)
    qed (use that(2) Cons in blast)
  qed
qed (use that(1) in blast)

definition after_quote :: "bytes \<Rightarrow> bytes" where
  "after_quote u = (if char_at u 0 = 0x20 then tl u else u)"

lemma takeWhile_run: "list_all P w \<Longrightarrow> takeWhile P w = w" "list_all P w \<Longrightarrow> dropWhile P w = []"
  "list_all P w \<Longrightarrow> \<not> P x \<Longrightarrow> takeWhile P (w @ x # u) = w" "list_all P w \<Longrightarrow> \<not> P x \<Longrightarrow> dropWhile P (w @ x # u) = x # u"
  by (induction w) auto

lemma all_not: "x \<notin> set w \<Longrightarrow> list_all (\<lambda>c. c \<noteq> x) w"
  by (auto simp: list_all_iff)

lemma split_args_eqs:
  "split_args [] = []" "split_args (0x20 # s) = split_args s"
  "0x22 \<notin> set w \<Longrightarrow> split_args (0x22 # w) = [w]" "0x22 \<notin> set w \<Longrightarrow> split_args (0x22 # w @ 0x22 # u) = w # split_args (after_quote u)"
  "plain w \<Longrightarrow> split_args w = [w]" "plain w \<Longrightarrow> split_args (w @ 0x20 # u) = w # split_args u"
proof -
  show nil: "split_args [] = []" by (subst split_args.simps) simp
  show "split_args (0x20 # s) = split_args s" by (subst (1 2) split_args.simps) simp
  show "0x22 \<notin> set w \<Longrightarrow> split_args (0x22 # w) = [w]" by (subst split_args.simps) (simp add: takeWhile_run all_not nil)
  show "0x22 \<notin> set w \<Longrightarrow> split_args (0x22 # w @ 0x22 # u) = w # split_args (after_quote u)"
    by (subst split_args.simps) (simp add: takeWhile_run all_not after_quote_def char_at_def split: list.splits)
  show "split_args w = [w]" if h: "plain w"
  proof -
    obtain c t where w: "w = c # t" using h by (cases w) (auto simp: plain_def)
    have "list_all (\<lambda>c. c \<noteq> 0x20) (c # t)" "c \<noteq> 0x22" using h w by (auto simp: plain_def list_all_iff)
    then show ?thesis unfolding w by (subst split_args.simps) (simp add: takeWhile_run nil)
  qed
  show "split_args (w @ 0x20 # u) = w # split_args u" if h: "plain w"
  proof -
    obtain c t where w: "w = c # t" using h by (cases w) (auto simp: plain_def)
    have "list_all (\<lambda>c. c \<noteq> 0x20) (c # t)" "c \<noteq> 0x22" using h w by (auto simp: plain_def list_all_iff)
    then show ?thesis unfolding w append_Cons by (subst split_args.simps) (simp add: takeWhile_run)
  qed
qed

text \<open>What \<open>token\<close> does in the four cases.\<close>

lemma list_all_ne: "0 \<notin> set w \<Longrightarrow> x \<notin> set w \<Longrightarrow> list_all (\<lambda>c. c \<noteq> 0 \<and> c \<noteq> x) w"
  by (auto simp: list_all_iff)

lemma token_eqs:
  assumes "0 \<notin> set w"
  shows "0x22 \<notin> set w \<Longrightarrow> token (pre @ 0x22 # w @ 0 # junk) (length pre) = (length pre + 1, pre @ 0x22 # w @ 0 # junk, length pre + 1 + length w)"
    "0x22 \<notin> set w \<Longrightarrow> token (pre @ 0x22 # w @ 0x22 # v) (length pre) =
       (length pre + 1, pre @ 0x22 # w @ 0 # v, length pre + 2 + length w + of_bool (char_at v 0 = 0x20))"
    "plain w \<Longrightarrow> token (pre @ w @ 0 # junk) (length pre) = (length pre, pre @ w @ 0 # junk, length pre + length w)"
    "plain w \<Longrightarrow> token (pre @ w @ 0x20 # v) (length pre) = (length pre, pre @ w @ 0 # v, length pre + length w + 1)"
proof -
  let ?Q = "\<lambda>c :: u8. c \<noteq> 0 \<and> c \<noteq> 0x22" and ?P = "\<lambda>c :: u8. c \<noteq> 0 \<and> c \<noteq> 0x20"
  have q: "skip ?Q (pre @ 0x22 # w @ x # v) (length pre + 1) = length pre + 1 + length w" if "0x22 \<notin> set w" "\<not> ?Q x" for x v
    using skip_run [OF list_all_ne [OF assms that(1)] that(2), of "pre @ [0x22]" v] by simp
  have qa: "char_at (pre @ 0x22 # w @ x # v) (length pre + 1 + length w) = x" "(pre @ 0x22 # w @ x # v)[length pre + 1 + length w := y] = pre @ 0x22 # w @ y # v"
    "char_at (pre @ 0x22 # w @ x # v) (length pre + 1 + length w + 1) = char_at v 0" for x y v
    using run_at [of "pre @ [0x22]" w x v] run_update [of "pre @ [0x22]" w x v y] char_at_next(1) [of "pre @ 0x22 # w" x v] by simp_all
  show "token (pre @ 0x22 # w @ 0 # junk) (length pre) = (length pre + 1, pre @ 0x22 # w @ 0 # junk, length pre + 1 + length w)" if "0x22 \<notin> set w"
    using q [OF that, of 0 junk] qa(1) [of 0 junk] by (simp only: token_def char_at_append Let_def if_True prod.case) simp
  show "token (pre @ 0x22 # w @ 0x22 # v) (length pre) = (length pre + 1, pre @ 0x22 # w @ 0 # v, length pre + 2 + length w + of_bool (char_at v 0 = 0x20))" if "0x22 \<notin> set w"
    using q [OF that, of "0x22" v] qa(1,2) [of "0x22" v] qa(3) [of 0 v] by (simp only: token_def char_at_append Let_def if_True prod.case) simp
  have p: "skip ?P (pre @ w @ x # v) (length pre) = length pre + length w" "char_at (pre @ w @ x # v) (length pre) \<noteq> 0x22" if "plain w" "\<not> ?P x" for x v
    using that assms skip_run [of ?P w x pre v] list_all_ne [of w "0x20"] by (auto simp: plain_def neq_Nil_conv)
  show "token (pre @ w @ 0 # junk) (length pre) = (length pre, pre @ w @ 0 # junk, length pre + length w)" if "plain w"
    using p [OF that, of 0 junk] run_at [of pre w 0 junk] by (simp only: token_def Let_def if_False) simp
  show "token (pre @ w @ 0x20 # v) (length pre) = (length pre, pre @ w @ 0 # v, length pre + length w + 1)" if "plain w"
    using p [OF that, of "0x20" v] run_at [of pre w "0x20" v] run_update [of pre w "0x20" v 0] by (simp only: token_def Let_def if_False) simp
qed

text \<open>The part of the line that a token uses up, and its string there whatever follows is changed to.\<close>

definition token_str :: "bytes \<Rightarrow> nat \<Rightarrow> bytes \<Rightarrow> bytes \<Rightarrow> bool" where
  "token_str used off w rest \<longleftrightarrow> 0 \<notin> set w \<and> off \<le> length used \<and> (rest = [] \<and> drop off used = w \<or> (\<exists>z. drop off used = w @ 0 # z))"

lemma token_str_read: "token_str used off w rest \<Longrightarrow> length rest' = length rest \<Longrightarrow> c_string_of (drop off (used @ rest' @ 0 # junk)) = w"
  by (auto simp: token_str_def c_string_of_def takeWhile_append)

lemma token_split:
  assumes "0 \<notin> set s" "s \<noteq> []" "hd s \<noteq> 0x20"
  shows "\<exists>off used rest w. token (pre @ s @ 0 # junk) (length pre) = (length pre + off, pre @ used @ rest @ 0 # junk, length pre + length used) \<and>
    length used + length rest = length s \<and> 0 < length used \<and> 0 \<notin> set rest \<and> split_args s = w # split_args rest \<and> token_str used off w rest"
proof (cases rule: line_cases [of s])
  case (open_quote w)
  then show ?thesis using token_eqs(1) [of w pre junk] assms(1) split_args_eqs(1,3)
    by (intro exI [of _ 1] exI [of _ s] exI [of _ "[]"] exI [of _ w]) (simp add: token_str_def)
next
  case (quote w u)
  let ?sp = "if char_at u 0 = 0x20 then [0x20] else []"
  have u: "u = ?sp @ after_quote u" by (cases u) (auto simp: after_quote_def char_at_def)
  have "char_at (u @ 0 # junk) 0 = 0x20 \<longleftrightarrow> char_at u 0 = 0x20" by (cases u) (auto simp: char_at_def)
  then have t: "token (pre @ s @ 0 # junk) (length pre) = (length pre + 1, pre @ (0x22 # w @ 0 # ?sp) @ after_quote u @ 0 # junk, length pre + length (0x22 # w @ 0 # ?sp))"
    using token_eqs(2) [of w pre "u @ 0 # junk"] quote assms(1) u by simp
  have "length (0x22 # w @ 0 # ?sp) + length (after_quote u) = length s" using quote(1) arg_cong [OF u, of length] by simp
  moreover have "0 \<notin> set (after_quote u)" using assms(1) quote(1) u by (metis UnCI set_append list.set_intros(2) append_Cons)
  ultimately show ?thesis using t quote split_args_eqs(4) assms(1)
    by (intro exI [of _ 1] exI [of _ "0x22 # w @ 0 # ?sp"] exI [of _ "after_quote u"] exI [of _ w]) (simp add: token_str_def)
next
  case (word w)
  then show ?thesis using token_eqs(3) [of w pre junk] assms(1) split_args_eqs(1,5)
    by (intro exI [of _ 0] exI [of _ s] exI [of _ "[]"] exI [of _ w]) (simp add: token_str_def plain_def)
next
  case (word_space w u)
  then show ?thesis using token_eqs(4) [of w pre "u @ 0 # junk"] assms(1) split_args_eqs(6) [of w u]
    by (intro exI [of _ 0] exI [of _ "w @ [0]"] exI [of _ u] exI [of _ w]) (simp add: token_str_def)
qed (use assms in auto)

lemma strip_spaces:
  obtains k s1 where "s = replicate k 0x20 @ s1" "s1 = [] \<or> hd s1 \<noteq> 0x20" "split_args s = split_args s1"
proof (induction s arbitrary: thesis)
  case Nil
  then show ?case using Nil [of 0 "[]"] by simp
next
  case (Cons c s)
  show ?case
  proof (cases "c = 0x20")
    case True
    obtain k s1 where "s = replicate k 0x20 @ s1" "s1 = [] \<or> hd s1 \<noteq> 0x20" "split_args s = split_args s1" using Cons.IH by blast
    then show ?thesis using Cons.prems [of "Suc k" s1] True split_args_eqs(2) by simp
  qed (use Cons.prems [of 0 "c # s"] in simp)
qed

lemma skip_spaces: "s1 = [] \<or> hd s1 \<noteq> 0x20 \<Longrightarrow> skip (\<lambda>c. c = 0x20) (pre @ (replicate k 0x20 @ s1) @ 0 # junk) (length pre) = length pre + k"
  using skip_run [of "\<lambda>c. c = 0x20" "replicate k 0x20" 0 pre junk] skip_run [of "\<lambda>c. c = 0x20" "replicate k 0x20" "hd s1" pre "tl s1 @ 0 # junk"]
  by (cases s1) (auto simp: list_all_iff)

lemma tokenize_loop_split:
  assumes "0 \<notin> set s" "length argv \<le> n"
  shows "\<exists>offs s'. length s' = length s \<and>
    tokenize_loop (pre @ s @ 0 # junk) (length pre) argv n =
      (if length argv + length (split_args s) \<le> n then Some (argv @ map ((+) (length pre)) offs) else None, pre @ s' @ 0 # junk) \<and>
    (length argv + length (split_args s) \<le> n \<longrightarrow> reads offs (s' @ 0 # junk) = split_args s)"
  using assms
proof (induction "length s" arbitrary: s pre argv rule: less_induct)
  case less
  let ?b = "pre @ s @ 0 # junk"
  obtain k s1 where s1: "s = replicate k 0x20 @ s1" "s1 = [] \<or> hd s1 \<noteq> 0x20" "split_args s = split_args s1" by (rule strip_spaces)
  have p1: "skip (\<lambda>c. c = 0x20) ?b (length pre) = length pre + k" unfolding s1(1) by (rule skip_spaces [OF s1(2)])
  let ?pre = "pre @ replicate k 0x20"
  have b: "?b = ?pre @ s1 @ 0 # junk" "length pre + k = length ?pre" using s1(1) by simp_all
  have c1: "char_at ?b (length pre + k) = 0 \<longleftrightarrow> s1 = []" using less.prems(1) s1(1)
    run_at [of pre "replicate k 0x20" 0 junk] run_at [of pre "replicate k 0x20" "hd s1" "tl s1 @ 0 # junk"] by (cases s1) auto
  have c0: "char_at ?b (length pre) = 0 \<longleftrightarrow> s = []" using less.prems(1) by (cases s) auto
  show ?case
  proof (cases "s1 = []")
    case True
    then have sp: "split_args s = []" using s1(3) split_args_eqs(1) by simp
    have "tokenize_loop ?b (length pre) argv n = (Some argv, ?b)"
      unfolding tokenize_loop.simps [of ?b] p1 Let_def using c1 True by simp
    then show ?thesis using sp less.prems(2) by (intro exI [of _ "[]"] exI [of _ s]) (simp add: reads_def)
  next
    case ne: False
    have n1: "0 \<notin> set s1" "hd s1 \<noteq> 0x20" "s \<noteq> []" using less.prems(1) s1 ne by auto
    obtain off used rest w where t: "token (?pre @ s1 @ 0 # junk) (length ?pre) = (length ?pre + off, ?pre @ used @ rest @ 0 # junk, length ?pre + length used)"
        "length used + length rest = length s1" "0 < length used" "0 \<notin> set rest" "split_args s1 = w # split_args rest" "token_str used off w rest"
      using token_split [OF n1(1) ne n1(2)] by blast
    show ?thesis
    proof (cases "n \<le> length argv")
      case True
      then have "tokenize_loop ?b (length pre) argv n = (None, ?b)" unfolding tokenize_loop.simps [of ?b] p1 Let_def using c1 c0 ne n1(3) by simp
      then show ?thesis using True s1(3) t(5) by (intro exI [of _ "[]"] exI [of _ s]) simp
    next
      case False
      let ?pre2 = "?pre @ used" and ?argv = "argv @ [length ?pre + off]"
      have lp: "tokenize_loop ?b (length pre) argv n = tokenize_loop (?pre2 @ rest @ 0 # junk) (length ?pre2) ?argv n"
        unfolding tokenize_loop.simps [of ?b] p1 Let_def using c1 c0 ne n1(3) False t(1) unfolding b by (simp add: add.assoc)
      have ls: "length s = k + length s1" using s1(1) by simp
      have sm: "length rest < length s" "length ?argv \<le> n" using t(2,3) False unfolding ls by (linarith, simp)
      obtain offs r' where ih: "length r' = length rest"
          "tokenize_loop (?pre2 @ rest @ 0 # junk) (length ?pre2) ?argv n =
            (if length ?argv + length (split_args rest) \<le> n then Some (?argv @ map ((+) (length ?pre2)) offs) else None, ?pre2 @ r' @ 0 # junk)"
          "length ?argv + length (split_args rest) \<le> n \<longrightarrow> reads offs (r' @ 0 # junk) = split_args rest"
        using less.hyps [OF sm(1) t(4) sm(2), of ?pre2] by blast
      let ?offs = "(k + off) # map ((+) (k + length used)) offs" and ?s' = "replicate k 0x20 @ used @ r'"
      have l: "length argv + length (split_args s) = length ?argv + length (split_args rest)" using s1(3) t(5) by simp
      have "reads ?offs (?s' @ 0 # junk) = split_args s" if "length argv + length (split_args s) \<le> n"
        using ih(3) that unfolding l s1(3) t(5) using token_str_read [OF t(6) ih(1)] by (simp add: reads_def comp_def)
      moreover have "?argv @ map ((+) (length ?pre2)) offs = argv @ map ((+) (length pre)) ?offs" by (simp add: comp_def ac_simps)
      moreover have "length ?s' = length s" using ih(1) t(2) s1(1) by simp
      ultimately show ?thesis unfolding lp ih(2) l by (intro exI [of _ ?offs] exI [of _ ?s']) simp
    qed
  qed
qed

lemma tokenize_split:
  assumes "0 \<notin> set s"
  obtains offs s' where "length s' = length s" "tokenize (s @ 0 # junk) n = (if length (split_args s) \<le> n then Some offs else None, s' @ 0 # junk)"
    "length (split_args s) \<le> n \<longrightarrow> reads offs (s' @ 0 # junk) = split_args s"
proof -
  have z: "map ((+) 0) xs = xs" for xs :: "nat list" by (simp add: map_idI)
  show ?thesis using tokenize_loop_split [OF assms, of "[]" n "[]" junk] that
    unfolding tokenize_def append_Nil list.size add_0 z by blast
qed

text \<open>
  C31: \<open>tokenize\<close> ends on every line and splits it as specified: the offsets that it returns denote,
  in the line as it leaves it, exactly the arguments of the line, quoted ones without their
  quotes; it answers -1 exactly when there are more arguments than \<open>max_args\<close>, and it never
  writes behind the end of the line.
\<close>

theorem tokenize_correct:
  assumes "0 \<notin> set s"
  shows "\<exists>s'. length s' = length s \<and> snd (tokenize (s @ 0 # junk) n) = s' @ 0 # junk \<and>
    (case fst (tokenize (s @ 0 # junk) n) of
       None \<Rightarrow> n < length (split_args s)
     | Some argv \<Rightarrow> length argv \<le> n \<and> reads argv (s' @ 0 # junk) = split_args s)"
proof -
  obtain offs s' where h: "length s' = length s" "tokenize (s @ 0 # junk) n = (if length (split_args s) \<le> n then Some offs else None, s' @ 0 # junk)"
      "length (split_args s) \<le> n \<longrightarrow> reads offs (s' @ 0 # junk) = split_args s" by (rule tokenize_split [OF assms])
  have "length offs = length (split_args s)" if "length (split_args s) \<le> n" using h(3) that by (metis length_map reads_def)
  then show ?thesis using h by (intro exI [of _ s']) auto
qed

theorem tokenize_correct_witness:
  "\<exists>s' offs. fst (tokenize (cstr ''cat \"a b\" c'' @ 0 # []) 16) = Some offs \<and> reads offs (s' @ 0 # []) = [cstr ''cat'', cstr ''a b'', cstr ''c'']"
proof -
  let ?s = "cstr ''cat \"a b\" c''"
  have "0 \<notin> set ?s" by code_simp
  from tokenize_correct [OF this, of "[]" 16]
  obtain s' where h: "case fst (tokenize (?s @ 0 # []) 16) of None \<Rightarrow> 16 < length (split_args ?s)
     | Some argv \<Rightarrow> length argv \<le> 16 \<and> reads argv (s' @ 0 # []) = split_args ?s" by blast
  have e: "?s = cstr ''cat'' @ 0x20 # 0x22 # cstr ''a b'' @ 0x22 # 0x20 # cstr ''c''" by code_simp
  have p: "plain (cstr ''cat'')" "plain (cstr ''c'')" "0x22 \<notin> set (cstr ''a b'')" by code_simp+
  have "split_args ?s = [cstr ''cat'', cstr ''a b'', cstr ''c'']"
    unfolding e split_args_eqs(6) [OF p(1)] split_args_eqs(4) [OF p(3)] by (simp add: after_quote_def split_args_eqs(5) [OF p(2)])
  then show ?thesis using h by (cases "fst (tokenize (?s @ 0 # []) 16)") auto
qed

text \<open>A command line for given arguments, each of them quoted.\<close>

definition quoted :: "bytes \<Rightarrow> bytes" where
  "quoted w = 0x22 # w @ [0x22]"

fun command_line :: "bytes list \<Rightarrow> bytes" where
  "command_line [] = []"
| "command_line [w] = quoted w"
| "command_line (w # ws) = quoted w @ 0x20 # command_line ws"

text \<open>
  a round of the shell launches a program exactly for a line of one to sixteen arguments, and
  hands over exactly these arguments.
\<close>

theorem shell_launches:
  assumes "0 \<notin> set s"
  shows "fst (shell_round t s junk) = (if 1 \<le> length (split_args s) \<and> length (split_args s) \<le> 16 then Launch (split_args s) else Reprompt)"
proof (cases "s = []")
  case True
  then show ?thesis by (simp add: shell_round_def split_args_eqs(1))
next
  case False
  obtain offs s' where h: "tokenize (s @ 0 # junk) 16 = (if length (split_args s) \<le> 16 then Some offs else None, s' @ 0 # junk)"
      "length (split_args s) \<le> 16 \<longrightarrow> reads offs (s' @ 0 # junk) = split_args s" by (rule tokenize_split [OF assms])
  have "offs = [] \<longleftrightarrow> split_args s = []" if "length (split_args s) \<le> 16" using h(2) that by (metis Nil_is_map_conv reads_def)
  then show ?thesis using h False by (auto simp: shell_round_def Let_def Suc_le_eq)
qed

theorem shell_launches_witness: "fst (shell_round t (cstr ''date'') []) = Launch [cstr ''date'']"
proof -
  have p: "plain (cstr ''date'')" "0 \<notin> set (cstr ''date'')" by code_simp+
  show ?thesis using shell_launches [OF p(2), of t "[]"] split_args_eqs(5) [OF p(1)] by simp
qed

text \<open>
  every list of arguments without quotes, empty ones and ones with spaces included, has a
  command line that \<open>tokenize\<close> splits into exactly these arguments.
\<close>

theorem command_line_roundtrip:
  assumes "\<forall>w \<in> set ws. 0x22 \<notin> set w \<and> 0 \<notin> set w" "length ws \<le> n"
  shows "\<exists>argv b. tokenize (command_line ws @ 0 # junk) n = (Some argv, b) \<and> reads argv b = ws"
proof -
  have sp: "split_args (command_line ws) = ws" if "\<forall>w \<in> set ws. 0x22 \<notin> set w" for ws
    using that
  proof (induction ws rule: command_line.induct)
    case (2 w)
    then show ?case using split_args_eqs(4) [of w "[]"] by (simp add: quoted_def after_quote_def char_at_def split_args_eqs(1))
  next
    case (3 w v ws)
    then show ?case using split_args_eqs(4) [of w "0x20 # command_line (v # ws)"] by (simp add: quoted_def after_quote_def char_at_def)
  qed (rule split_args_eqs(1) [folded command_line.simps(1)])
  have n0: "0 \<notin> set (command_line ws)" using assms(1) by (induction ws rule: command_line.induct) (auto simp: quoted_def)
  obtain offs s' where h: "tokenize (command_line ws @ 0 # junk) n = (if length (split_args (command_line ws)) \<le> n then Some offs else None, s' @ 0 # junk)"
      "length (split_args (command_line ws)) \<le> n \<longrightarrow> reads offs (s' @ 0 # junk) = split_args (command_line ws)" by (rule tokenize_split [OF n0])
  then show ?thesis using sp [of ws] assms by auto
qed

theorem command_line_roundtrip_witness: "\<exists>argv b. tokenize (command_line [[0x61], [], [0x20]] @ 0 # []) 16 = (Some argv, b) \<and> reads argv b = [[0x61], [], [0x20]]"
  by (rule command_line_roundtrip) auto

section \<open>Editing a line\<close>

text \<open>What is left of the characters when every backspace takes back the one before it.\<close>

definition rub :: "bytes \<Rightarrow> u8 \<Rightarrow> bytes" where
  "rub buf c = (if c = 0x08 then butlast buf else buf @ [c])"

text \<open>
  \<open>shell_read_line\<close> returns at the newline with the characters that the backspaces have left,
  as long as they fit, and keeps the input behind the newline for the next line; the line never
  exceeds the buffer.
\<close>

theorem read_line_correct:
  assumes "0x0A \<notin> set cs" "\<forall>k \<le> length cs. length (foldl rub buf (take k cs)) < max_len - 1"
  shows "shell_read_line max_len buf (cs @ 0x0A # rest) = Some (foldl rub buf cs, rest)"
  using assms
proof (induction cs arbitrary: buf)
  case Nil
  then show ?case by simp
next
  case (Cons c cs)
  have l: "length buf < max_len - 1" using Cons.prems(2) by (metis foldl_Nil le0 take0)
  have "\<forall>k \<le> length cs. length (foldl rub (rub buf c) (take k cs)) < max_len - 1" using Cons.prems(2) by (metis Suc_le_mono foldl_Cons length_Cons take_Suc_Cons)
  then have "shell_read_line max_len (rub buf c) (cs @ 0x0A # rest) = Some (foldl rub (rub buf c) cs, rest)" using Cons.IH [of "rub buf c"] Cons.prems(1) by simp
  moreover have "shell_read_line max_len buf ((c # cs) @ 0x0A # rest) = shell_read_line max_len (rub buf c) (cs @ 0x0A # rest)"
    using l Cons.prems(1) by (simp add: rub_def)
  ultimately show ?case by simp
qed

theorem read_line_correct_witness: "shell_read_line 256 [] ([0x6C, 0x73, 0x78, 0x08] @ 0x0A # [0x61]) = Some ([0x6C, 0x73], [0x61])"
proof -
  have f: "\<forall>k \<le> length [0x6C, 0x73, 0x78, 0x08 :: u8]. length (foldl rub [] (take k [0x6C, 0x73, 0x78, 0x08])) < 256 - 1"
    by (auto simp: le_Suc_eq rub_def eval_nat_numeral)
  show ?thesis using read_line_correct [of "[0x6C, 0x73, 0x78, 0x08]" "[]" 256 "[0x61]"] f by (simp add: rub_def)
qed

lemma read_line_bound: "length buf \<le> max_len - 1 \<Longrightarrow> shell_read_line max_len buf cs = Some (l, rest) \<Longrightarrow> length l \<le> max_len - 1"
  by (induction max_len buf cs rule: shell_read_line.induct) (auto split: if_splits)

end
