(* ===== verification/Editor.thy ===== *)
theory Editor
  imports Libc_Str Kheap_Spec
begin

unbundle bit_operations_syntax

text \<open>
  The line editor (src/userspace/edit.c). Its lines are strings on the heap of the libc: \<open>lines\<close> is
  the array of pointers, \<open>bytes_at\<close> the bytes of the allocated blocks, \<open>uheap\<close> the allocator of
  theory Kheap. \<open>stdin\<close> is the input still to come, \<open>stdout\<close> what was written. The specification is a
  list of strings.
\<close>

section \<open>The program\<close>

record editor =
  heap_of :: uheap
  bytes_at :: "u32 \<Rightarrow> u8"
  lines :: "u32 list"
  line_count :: nat
  modified :: bool
  stdin :: bytes
  stdout :: bytes

definition MAX_LINES :: nat where "MAX_LINES = 512"
definition MAX_LINE_LEN :: nat where "MAX_LINE_LEN = 512"
definition MAX_LOAD_SIZE :: nat where "MAX_LOAD_SIZE = 8192"

definition ed_write :: "editor \<Rightarrow> bytes \<Rightarrow> editor" where
  "ed_write e s = e\<lparr>stdout := stdout e @ s\<rparr>"

definition ed_say :: "editor \<Rightarrow> string \<Rightarrow> editor" where
  "ed_say e msg = ed_write e (cstr msg @ [0x0A])"

definition print_int :: "editor \<Rightarrow> u32 \<Rightarrow> editor" where
  "print_int e v = ed_write e (itoa v)"

fun read_line_loop :: "nat \<Rightarrow> bytes \<Rightarrow> bytes \<Rightarrow> (bytes \<times> bytes) option" where
  "read_line_loop max_len buf [] = (if length buf < max_len - 1 then None else Some (buf, []))"
| "read_line_loop max_len buf (c # cs) =
     (if length buf < max_len - 1 then
        if c = 0x0A then Some (buf, cs)
        else if c = 0x08 then read_line_loop max_len (butlast buf) cs
        else read_line_loop max_len (buf @ [c]) cs
      else Some (buf, c # cs))"

definition read_line :: "editor \<Rightarrow> (bytes \<times> editor) option" where
  "read_line e = map_option (\<lambda>(l, rest). (c_string_of l, e\<lparr>stdin := rest\<rparr>)) (read_line_loop MAX_LINE_LEN [] (stdin e))"

text \<open>\<open>memcpy\<close> of a local buffer to the heap.\<close>

fun store_bytes :: "(u32 \<Rightarrow> u8) \<Rightarrow> u32 \<Rightarrow> bytes \<Rightarrow> (u32 \<Rightarrow> u8)" where
  "store_bytes m p [] = m"
| "store_bytes m p (x # xs) = store_bytes (m(p := x)) (p + 1) xs"

definition copy_string :: "u32 \<Rightarrow> editor \<Rightarrow> bytes \<Rightarrow> (u32 \<times> editor) option" where
  "copy_string user_heap e s =
     (case malloc user_heap (heap_of e) (of_nat (length s) + 1) of
        None \<Rightarrow> None
      | Some (copy, h) \<Rightarrow>
          Some (copy, e\<lparr>heap_of := h, bytes_at := (if copy \<noteq> 0 then store_bytes (bytes_at e) copy (s @ [0]) else bytes_at e)\<rparr>))"

text \<open>The string at a pointer, as \<open>write (p, strlen (p))\<close> sends it.\<close>

definition string_at :: "editor \<Rightarrow> u32 \<Rightarrow> bytes option" where
  "string_at e p = map_option (\<lambda>len. map (\<lambda>i. bytes_at e (p + of_nat i)) [0..<unat len]) (strlen (bytes_at e) p)"

definition print_line :: "editor \<Rightarrow> nat \<Rightarrow> editor option" where
  "print_line e n =
     (let e = ed_write (print_int e (of_nat n)) (cstr '': '') in
      map_option (\<lambda>s. ed_write (ed_write e s) [0x0A]) (string_at e (lines e ! (n - 1))))"

fun cmd_list_from :: "editor \<Rightarrow> nat list \<Rightarrow> editor option" where
  "cmd_list_from e [] = Some e"
| "cmd_list_from e (i # is) = (case print_line e (i + 1) of None \<Rightarrow> None | Some e \<Rightarrow> cmd_list_from e is)"

definition cmd_list :: "editor \<Rightarrow> editor option" where
  "cmd_list e = cmd_list_from e [0..<line_count e]"

definition cmd_print :: "editor \<Rightarrow> int \<Rightarrow> editor option" where
  "cmd_print e n =
     (if n < 1 \<or> int (line_count e) < n then Some (ed_say e ''edit: invalid line number'') else print_line e (nat n))"

definition shift_up :: "'a list \<Rightarrow> nat \<Rightarrow> nat \<Rightarrow> 'a list" where
  "shift_up xs at_line count = fold (\<lambda>i xs. xs[i := xs ! (i - 1)]) (rev [at_line..<Suc count]) xs"

definition shift_down :: "'a list \<Rightarrow> nat \<Rightarrow> nat \<Rightarrow> 'a list" where
  "shift_down xs n count = fold (\<lambda>i xs. xs[i := xs ! (i + 1)]) [n - 1..<count - 1] xs"

definition cmd_insert :: "u32 \<Rightarrow> editor \<Rightarrow> int \<Rightarrow> editor option" where
  "cmd_insert user_heap e at_line =
     (if at_line < 1 \<or> int (line_count e) + 1 < at_line then Some (ed_say e ''edit: invalid line number'')
      else if MAX_LINES \<le> line_count e then Some (ed_say e ''edit: too many lines'')
      else case read_line e of
        None \<Rightarrow> None
      | Some (buf, e1) \<Rightarrow>
          (case copy_string user_heap e1 buf of
             None \<Rightarrow> None
           | Some (copy, e2) \<Rightarrow>
               if copy = 0 then Some (ed_say e2 ''edit: out of memory'')
               else Some (e2\<lparr>lines := (shift_up (lines e2) (nat at_line) (line_count e2))[nat at_line - 1 := copy],
                             line_count := line_count e2 + 1, modified := True\<rparr>)))"

definition cmd_delete :: "editor \<Rightarrow> int \<Rightarrow> editor" where
  "cmd_delete e n =
     (if n < 1 \<or> int (line_count e) < n then ed_say e ''edit: invalid line number''
      else e\<lparr>heap_of := free (heap_of e) (lines e ! (nat n - 1)), lines := shift_down (lines e) (nat n) (line_count e),
             line_count := line_count e - 1, modified := True\<rparr>)"

text \<open>The bytes that \<open>cmd_save\<close> passes to \<open>fwrite\<close>, one call after the other.\<close>

fun save_chunks :: "editor \<Rightarrow> u32 list \<Rightarrow> bytes list option" where
  "save_chunks e [] = Some []"
| "save_chunks e (p # ps) = (case string_at e p of None \<Rightarrow> None | Some s \<Rightarrow> map_option (\<lambda>cs. s # [0x0A] # cs) (save_chunks e ps))"

text \<open>
  The loop of \<open>load_file\<close> over the \<open>total\<close> bytes that were read into \<open>load_buf\<close>.
\<close>

function load_lines :: "u32 \<Rightarrow> editor \<Rightarrow> bytes \<Rightarrow> editor option" where
  "load_lines user_heap e buf =
     (if buf \<noteq> [] \<and> line_count e < MAX_LINES then
        let l = takeWhile (\<lambda>c. c \<noteq> 0x0A) buf;
            copied = take (MAX_LINE_LEN - 1) l in
        case malloc user_heap (heap_of e) (of_nat (length copied) + 1) of
          None \<Rightarrow> None
        | Some (copy, h) \<Rightarrow>
            if copy = 0 then Some (ed_say (e\<lparr>heap_of := h\<rparr>) ''edit: out of memory loading file, stopped early'')
            else load_lines user_heap
              (e\<lparr>heap_of := h, bytes_at := store_bytes (bytes_at e) copy (copied @ [0]), lines := (lines e)[line_count e := copy],
                 line_count := line_count e + 1\<rparr>)
              (drop (length l + 1) buf)
      else Some e)"
  by auto
termination
  by (relation "measure (\<lambda>(u, e, buf). length buf)") auto

declare load_lines.simps [simp del]

text \<open>
  \<open>load_file\<close>: \<open>content\<close> is what the file holds, \<open>None\<close> if it cannot be opened; the read loop stops when
  the buffer is full but for one byte.
\<close>

definition load_file :: "u32 \<Rightarrow> editor \<Rightarrow> bytes option \<Rightarrow> editor option" where
  "load_file user_heap e content =
     (case content of
        None \<Rightarrow> Some (ed_say e ''edit: (new file)'')
      | Some bs \<Rightarrow> load_lines user_heap e (take (MAX_LOAD_SIZE - 1) bs))"

text \<open>
  One round of the command loop. \<open>open_ok\<close> says whether \<open>open_write\<close> succeeds when the file is saved;
  the result says whether the loop goes on, with the chunks written to the file if it was saved.
\<close>

datatype ed_next = Again | Saved "bytes list" | Quit

definition cmd_save :: "editor \<Rightarrow> bool \<Rightarrow> (ed_next \<times> editor) option" where
  "cmd_save e open_ok =
     (if \<not> open_ok then Some (Again, ed_say e ''edit: could not open file for writing'')
      else map_option (\<lambda>cs. (Saved cs, ed_say (e\<lparr>modified := False\<rparr>) ''edit: saved'')) (save_chunks e (take (line_count e) (lines e))))"

definition print_help :: "editor \<Rightarrow> editor" where
  "print_help e = ed_say (ed_say e ''Commands: l (list all)  p N (print line N)  i N (insert before N)'')
     ''          a (append at end)  d N (delete line N)  w (save)  q (quit)  h (help)''"

definition ed_dispatch :: "u32 \<Rightarrow> editor \<Rightarrow> bool \<Rightarrow> u8 \<Rightarrow> int \<Rightarrow> (ed_next \<times> editor) option" where
  "ed_dispatch user_heap e open_ok op arg =
     (if op = 0x6C then map_option (Pair Again) (cmd_list e)
      else if op = 0x68 then Some (Again, print_help e)
      else if op = 0x71 then
        if modified e then Some (Again, (ed_say e ''edit: unsaved changes -- 'w' to save, or 'q' again to discard'')\<lparr>modified := False\<rparr>) else Some (Quit, e)
      else if op = 0x77 then cmd_save e open_ok
      else if op = 0x61 then map_option (Pair Again) (cmd_insert user_heap e (int (line_count e) + 1))
      else if op = 0x69 then map_option (Pair Again) (cmd_insert user_heap e arg)
      else if op = 0x64 then Some (Again, cmd_delete e arg)
      else if op = 0x70 then map_option (Pair Again) (cmd_print e arg)
      else Some (Again, ed_say e ''edit: unknown command (h for help)''))"

definition ed_round :: "u32 \<Rightarrow> editor \<Rightarrow> bool \<Rightarrow> (ed_next \<times> editor) option" where
  "ed_round user_heap e open_ok =
     (case read_line (ed_write e (cstr ''* '')) of
        None \<Rightarrow> None
      | Some (cmd, e1) \<Rightarrow>
          if cmd = [] then Some (Again, e1)
          else ed_dispatch user_heap e1 open_ok (hd cmd) (sint (atoi (dropWhile (\<lambda>c. c = 0x20) (tl cmd)))))"

section \<open>Arrays\<close>

lemma nth_shift_up: "1 \<le> a \<Longrightarrow> count < length xs \<Longrightarrow> i < length xs \<Longrightarrow>
    shift_up xs a count ! i = (if a \<le> i \<and> i \<le> count then xs ! (i - 1) else xs ! i)"
proof (induction count arbitrary: xs)
  case 0
  then show ?case by (simp add: shift_up_def)
next
  case (Suc c)
  show ?case
  proof (cases "a \<le> Suc c")
    case True
    let ?xs = "xs[Suc c := xs ! c]"
    have e: "shift_up xs a (Suc c) = shift_up ?xs a c" using True by (simp add: shift_up_def)
    show ?thesis unfolding e using Suc.IH [of ?xs] Suc.prems True by (auto simp: nth_list_update)
  next
    case False
    then show ?thesis by (auto simp: shift_up_def)
  qed
qed

lemma length_shifts [simp]: "length (shift_up xs a c) = length xs" "length (shift_down xs n c) = length xs"
proof -
  have "length (fold (\<lambda>i xs. xs[i := xs ! (i - 1)]) is xs) = length xs" "length (fold (\<lambda>i xs. xs[i := xs ! (i + 1)]) is xs) = length xs" for "is" and xs :: "'a list"
    by (induction "is" arbitrary: xs) auto
  then show "length (shift_up xs a c) = length xs" "length (shift_down xs n c) = length xs" by (simp_all add: shift_up_def shift_down_def)
qed

lemma insert_array:
  assumes "1 \<le> a" "a \<le> Suc c" "c < length xs"
  shows "take (Suc c) ((shift_up xs a c)[a - 1 := x]) = take (a - 1) (take c xs) @ x # drop (a - 1) (take c xs)"
proof (rule nth_equalityI)
  fix i assume "i < length (take (Suc c) ((shift_up xs a c)[a - 1 := x]))"
  then have i: "i < Suc c" "i < length xs" using assms by auto
  consider "i < a - 1" | "i = a - 1" | "a \<le> i" using assms(1) by linarith
  then show "take (Suc c) ((shift_up xs a c)[a - 1 := x]) ! i = (take (a - 1) (take c xs) @ x # drop (a - 1) (take c xs)) ! i"
  proof cases
    case 3
    then have "i - (a - 1) = Suc (i - a)" using assms(1) by simp
    moreover have "\<not> i < a - 1" using 3 by simp
    ultimately show ?thesis using 3 i assms nth_shift_up [OF assms(1,3) i(2)] by (simp add: nth_append nth_list_update)
  qed (use i assms nth_shift_up [OF assms(1,3) i(2)] in \<open>auto simp: nth_append nth_list_update\<close>)
qed (use assms in auto)

lemma nth_shift_fold: "b + k < length xs \<Longrightarrow> i < length xs \<Longrightarrow>
    fold (\<lambda>i xs. xs[i := xs ! (i + 1)]) [b..<b + k] xs ! i = (if b \<le> i \<and> i < b + k then xs ! (i + 1) else xs ! i)"
proof (induction k arbitrary: i)
  case (Suc k)
  let ?f = "fold (\<lambda>i xs. xs[i := xs ! (i + 1)]) [b..<b + k] xs"
  have l: "length ?f = length xs" using length_shifts(2) [of xs "Suc b" "Suc (b + k)"] by (simp add: shift_down_def)
  have e: "fold (\<lambda>i xs. xs[i := xs ! (i + 1)]) [b..<b + Suc k] xs = ?f[b + k := ?f ! (b + k + 1)]" by simp
  have "?f ! (b + k + 1) = xs ! (b + k + 1)" using Suc.IH [of "b + k + 1"] Suc.prems by simp
  then show ?case unfolding e using Suc.IH [of i] Suc.prems l by (auto simp: nth_list_update)
qed auto

lemma delete_array:
  assumes "1 \<le> n" "n \<le> c" "c \<le> length xs"
  shows "take (c - 1) (shift_down xs n c) = take (n - 1) (take c xs) @ drop n (take c xs)"
proof (rule nth_equalityI)
  fix i assume "i < length (take (c - 1) (shift_down xs n c))"
  then have i: "i < c - 1" "i < length xs" using assms by auto
  have "shift_down xs n c ! i = (if n - 1 \<le> i then xs ! (i + 1) else xs ! i)"
    using nth_shift_fold [of "n - 1" "c - n" xs i] i assms by (simp add: shift_down_def)
  then show "take (c - 1) (shift_down xs n c) ! i = (take (n - 1) (take c xs) @ drop n (take c xs)) ! i"
    using i assms by (auto simp: nth_append)
qed (use assms in auto)

section \<open>Strings on the heap\<close>

lemma store_bytes_eq: "length xs \<le> 2 ^ 32 \<Longrightarrow> store_bytes m p xs a = (if unat (a - p) < length xs then xs ! unat (a - p) else m a)"
proof (induction xs arbitrary: m p)
  case (Cons x xs)
  have ih: "store_bytes (m(p := x)) (p + 1) xs a = (if unat (a - (p + 1)) < length xs then xs ! unat (a - (p + 1)) else (m(p := x)) a)"
    using Cons.prems by (intro Cons.IH) simp
  show ?case
  proof (cases "a = p")
    case True
    have "p - (p + 1) = -1" by simp
    then have "unat (p - (p + 1)) = 2 ^ 32 - 1" by (simp only:) (simp add: unsigned_minus_1_eq_mask mask_eq_exp_minus_1)
    then show ?thesis unfolding store_bytes.simps ih using True Cons.prems by auto
  next
    case False
    then have n: "a - p \<noteq> 0" by simp
    have "a - (p + 1) = a - p - 1" by simp
    then have "unat (a - (p + 1)) = unat (a - p) - 1" using unat_minus_one [OF n] by (simp only:)
    moreover have "0 < unat (a - p)" using n by (simp add: unat_gt_0)
    ultimately have e: "unat (a - p) = Suc (unat (a - (p + 1)))" by simp
    show ?thesis unfolding store_bytes.simps ih e using False by simp
  qed
qed simp

lemma string_stored: "0 \<notin> set s \<Longrightarrow> length s < 2 ^ 32 - 1 \<Longrightarrow> string_in (store_bytes m p (s @ [0])) p s"
  by (simp add: string_in_def store_bytes_eq unat_of_nat_u32 nth_append)

text \<open>A block of the heap holds a string.\<close>

definition holds :: "u32 \<Rightarrow> editor \<Rightarrow> blocks \<Rightarrow> u32 \<Rightarrow> bytes \<Rightarrow> bool" where
  "holds u e bs p s \<longleftrightarrow> (\<exists>sz. (unat p, sz) \<in> uheap_live u (heap_of e) bs \<and> length s < sz) \<and> string_in (bytes_at e) p s"

lemma live_fits: "uheap_inv u h bs \<Longrightarrow> (p, sz) \<in> uheap_live u h bs \<Longrightarrow> p + sz < 4294967296"
  using live_bounds [of p sz "unat u" bs] by (force simp: uheap_inv_def uheap_live_def heap_rel_def)

lemma string_in_cong:
  assumes "string_in m p s" "unat p + length s < 4294967296" "\<And>a. unat p \<le> unat a \<Longrightarrow> unat a \<le> unat p + length s \<Longrightarrow> m' a = m a"
  shows "string_in m' p s"
proof -
  have "unat (p + of_nat i) = unat p + i" if "i \<le> length s" for i using that assms(2) by (subst unat_add_u32) (simp_all add: unat_of_nat_u32)
  then have "m' (p + of_nat i) = m (p + of_nat i)" if "i \<le> length s" for i using assms(3) that by simp
  then show ?thesis using assms(1) by (simp add: string_in_def)
qed

definition ed_ok :: "u32 \<Rightarrow> editor \<Rightarrow> blocks \<Rightarrow> bytes list \<Rightarrow> bool" where
  "ed_ok u e bs ls \<longleftrightarrow> uheap_inv u (heap_of e) bs \<and> length (lines e) = 512 \<and> line_count e \<le> 512 \<and>
     distinct (take (line_count e) (lines e)) \<and> list_all2 (holds u e bs) (take (line_count e) (lines e)) ls"

text \<open>A fresh copy leaves every other string as it is.\<close>

lemma copy_spec:
  assumes inv: "uheap_inv u (heap_of e) bs" and s: "0 \<notin> set s" "length s \<le> 511"
  obtains (none) h bs' where "malloc u (heap_of e) (of_nat (length s) + 1) = Some (0, h)" "uheap_inv u h bs'"
      "\<And>q t e'. holds u e bs q t \<Longrightarrow> heap_of e' = h \<Longrightarrow> bytes_at e' = bytes_at e \<Longrightarrow> holds u e' bs' q t"
    | (copied) p h bs' where "malloc u (heap_of e) (of_nat (length s) + 1) = Some (p, h)" "p \<noteq> 0" "uheap_inv u h bs'"
      "\<And>e'. heap_of e' = h \<Longrightarrow> bytes_at e' = store_bytes (bytes_at e) p (s @ [0]) \<Longrightarrow> holds u e' bs' p s"
      "\<And>q t e'. holds u e bs q t \<Longrightarrow> heap_of e' = h \<Longrightarrow> bytes_at e' = store_bytes (bytes_at e) p (s @ [0]) \<Longrightarrow> holds u e' bs' q t \<and> q \<noteq> p"
proof -
  have n: "unat (of_nat (length s) + 1 :: u32) = length s + 1" using s(2) by (subst unat_add_u32) (simp_all add: unat_of_nat_u32)
  then have ne: "of_nat (length s) + 1 \<noteq> (0 :: u32)" by (metis add_is_0 one_neq_zero unat_0)
  have le: "unat (of_nat (length s) + 1 :: u32) \<le> 4294967288" unfolding n using s(2) by simp
  obtain p h bs' where m: "malloc u (heap_of e) (of_nat (length s) + 1) = Some (p, h)" "uheap_inv u h bs'"
      "if p = 0 then uheap_live u h bs' = uheap_live u (heap_of e) bs
       else \<exists>sz \<ge> length s + 1. (unat p, sz) \<notin> uheap_live u (heap_of e) bs \<and> uheap_live u h bs' = insert (unat p, sz) (uheap_live u (heap_of e) bs)"
    using libc_heap.alloc_spec [OF inv ne le, unfolded n] by blast
  show ?thesis
  proof (cases "p = 0")
    case True
    then show ?thesis using that(1) [of h bs'] m by (simp add: holds_def)
  next
    case False
    then obtain sz where sz: "length s + 1 \<le> sz" "(unat p, sz) \<notin> uheap_live u (heap_of e) bs" "uheap_live u h bs' = insert (unat p, sz) (uheap_live u (heap_of e) bs)"
      using m(3) by auto
    have "holds u e' bs' p s" if "heap_of e' = h" "bytes_at e' = store_bytes (bytes_at e) p (s @ [0])" for e'
      using that sz(1,3) string_stored [OF s(1), of "bytes_at e" p] s(2) by (auto simp: holds_def)
    moreover have "holds u e' bs' q t \<and> q \<noteq> p" if h: "holds u e bs q t" "heap_of e' = h" "bytes_at e' = store_bytes (bytes_at e) p (s @ [0])" for q t e'
    proof -
      obtain sq where q: "(unat q, sq) \<in> uheap_live u (heap_of e) bs" "length t < sq" "string_in (bytes_at e) q t" using h(1) by (auto simp: holds_def)
      have d: "{unat q..<unat q + sq} \<inter> {unat p..<unat p + sz} = {}" using libc_heap.live_disj [OF m(2), of "unat q" sq "unat p" sz] q(1) sz(2,3) by (metis insertI1 insertI2)
      have f: "unat q + sq < 4294967296" "unat p + sz < 4294967296" using live_fits [OF m(2)] q(1) sz(3) by auto
      have "store_bytes (bytes_at e) p (s @ [0]) a = bytes_at e a" if a: "unat q \<le> unat a" "unat a \<le> unat q + length t" for a
      proof -
        have "unat a \<notin> {unat p..<unat p + sz}" using d a q(2) by (metis IntI atLeastLessThan_iff empty_iff le_less_trans nat_add_left_cancel_less)
        then have "\<not> unat (a - p) < length s + 1" using sz(1) f(2) by (auto simp: unat_sub_if_size word_size not_le split: if_splits)
        then show ?thesis using s(2) by (simp add: store_bytes_eq)
      qed
      then have "string_in (bytes_at e') q t" using string_in_cong [OF q(3)] q(2) f(1) h(3) by simp
      moreover have "q \<noteq> p" using d sz(1) q(2) by auto
      ultimately show ?thesis using q h(2) sz(3) by (auto simp: holds_def)
    qed
    ultimately show ?thesis using that(2) [OF m(1) False m(2)] by blast
  qed
qed

section \<open>Editing refines editing a list\<close>

lemma ed_say_fields [simp]: "heap_of (ed_say e m) = heap_of e" "bytes_at (ed_say e m) = bytes_at e" "lines (ed_say e m) = lines e" "line_count (ed_say e m) = line_count e"
  "heap_of (ed_write e s) = heap_of e" "bytes_at (ed_write e s) = bytes_at e" "lines (ed_write e s) = lines e" "line_count (ed_write e s) = line_count e"
  "modified (ed_say e m) = modified e" "stdin (ed_say e m) = stdin e" "stdin (ed_write e s) = stdin e" "modified (ed_write e s) = modified e"
  by (simp_all add: ed_say_def ed_write_def)

lemma holds_cong: "heap_of e' = heap_of e \<Longrightarrow> bytes_at e' = bytes_at e \<Longrightarrow> holds u e' = holds u e"
  by (intro ext) (simp add: holds_def)

lemma ed_ok_cong: "heap_of e' = heap_of e \<Longrightarrow> bytes_at e' = bytes_at e \<Longrightarrow> lines e' = lines e \<Longrightarrow> line_count e' = line_count e \<Longrightarrow> ed_ok u e' bs ls = ed_ok u e bs ls"
  using holds_cong [of e' e u] by (simp add: ed_ok_def)

lemma read_line_string:
  assumes "read_line e = Some (s, e1)"
  shows "0 \<notin> set s" "length s \<le> 511" "heap_of e1 = heap_of e" "bytes_at e1 = bytes_at e" "lines e1 = lines e" "line_count e1 = line_count e" "stdout e1 = stdout e" "modified e1 = modified e"
proof -
  have b: "length buf \<le> m - 1 \<Longrightarrow> read_line_loop m buf cs = Some (l, rest) \<Longrightarrow> length l \<le> m - 1" for m buf cs l rest
    by (induction m buf cs rule: read_line_loop.induct) (auto split: if_splits)
  obtain l rest where l: "read_line_loop MAX_LINE_LEN [] (stdin e) = Some (l, rest)" "s = c_string_of l" "e1 = e\<lparr>stdin := rest\<rparr>" using assms by (auto simp: read_line_def)
  have "length l \<le> 511" using b [OF _ l(1)] by (simp add: MAX_LINE_LEN_def)
  then show "length s \<le> 511" unfolding l(2) c_string_of_def using length_takeWhile_le [of "\<lambda>c. c \<noteq> 0" l] by linarith
  show "0 \<notin> set s" unfolding l(2) c_string_of_def using set_takeWhileD by fastforce
qed (use assms in \<open>auto simp: read_line_def\<close>)

text \<open>A command that was refused says so.\<close>

definition complains :: "editor \<Rightarrow> editor \<Rightarrow> bool" where
  "complains e e' \<longleftrightarrow> (\<exists>msg \<in> {''edit: invalid line number'', ''edit: too many lines'', ''edit: out of memory''}. stdout e' = stdout e @ cstr msg @ [0x0A])"

lemma insert_refines:
  assumes ok: "ed_ok u e bs ls" and r: "cmd_insert u e n = Some e'"
  shows "\<exists>bs'. ed_ok u e' bs' ls \<and> complains e e' \<or>
    (\<exists>s e1. read_line e = Some (s, e1) \<and> 1 \<le> n \<and> n \<le> int (length ls) + 1 \<and> modified e' \<and> ed_ok u e' bs' (take (nat n - 1) ls @ s # drop (nat n - 1) ls))"
proof -
  let ?c = "line_count e" and ?ps = "take (line_count e) (lines e)"
  have h: "uheap_inv u (heap_of e) bs" "length (lines e) = 512" "?c \<le> 512" "distinct ?ps" "list_all2 (holds u e bs) ?ps ls" using ok by (auto simp: ed_ok_def)
  have ll: "length ls = ?c" using h by (metis length_take list_all2_lengthD min.absorb2)
  show ?thesis
  proof (cases "n < 1 \<or> int ?c + 1 < n \<or> MAX_LINES \<le> ?c")
    case True
    then have "e' = ed_say e ''edit: invalid line number'' \<or> e' = ed_say e ''edit: too many lines''" using r by (auto simp: cmd_insert_def split: if_splits)
    then show ?thesis using ok ed_ok_cong [of e' e u bs ls] by (auto simp: complains_def ed_say_def ed_write_def)
  next
    case False
    then have n: "1 \<le> n" "n \<le> int ?c + 1" "?c < 512" by (auto simp: MAX_LINES_def)
    obtain s e1 where rl: "read_line e = Some (s, e1)" using r False by (auto simp: cmd_insert_def split: option.splits)
    note s = read_line_string [OF rl]
    have i1: "uheap_inv u (heap_of e1) bs" using h(1) s(3) by simp
    have hc: "holds u e1 = holds u e" using holds_cong s(3,4) by blast
    from i1 s(1,2) show ?thesis
    proof (cases rule: copy_spec)
      case (none hp bs')
      let ?e2 = "e1\<lparr>heap_of := hp, bytes_at := bytes_at e1\<rparr>"
      have "e' = ed_say ?e2 ''edit: out of memory''" using r False rl none(1) by (simp add: cmd_insert_def copy_string_def)
      then have "list_all2 (holds u e' bs') ?ps ls" using h(5) none(3) [of _ _ e'] hc by (auto elim!: list_all2_mono)
      then have "ed_ok u e' bs' ls" using h none(2) s \<open>e' = _\<close> by (simp add: ed_ok_def)
      moreover have "complains e e'" using \<open>e' = _\<close> s(7) by (simp add: complains_def ed_say_def ed_write_def)
      ultimately show ?thesis by blast
    next
      case (copied p hp bs')
      have e': "e' = e1\<lparr>heap_of := hp, bytes_at := store_bytes (bytes_at e1) p (s @ [0]), lines := (shift_up (lines e1) (nat n) (line_count e1))[nat n - 1 := p],
          line_count := line_count e1 + 1, modified := True\<rparr>"
        using r False rl copied(1,2) by (simp add: cmd_insert_def copy_string_def)
      have tk: "take (line_count e') (lines e') = take (nat n - 1) ?ps @ p # drop (nat n - 1) ?ps"
        using insert_array [of "nat n" ?c "lines e" p] n h(2) s e' by simp
      have old: "list_all2 (\<lambda>q t. holds u e' bs' q t \<and> q \<noteq> p) ?ps ls" using h(5) copied(5) [of _ _ e'] hc e' by (auto elim!: list_all2_mono)
      have la: "list_all2 (holds u e' bs') ?ps ls" using old by (auto elim!: list_all2_mono)
      have "holds u e' bs' p s" using copied(4) e' by simp
      then have "list_all2 (holds u e' bs') (take (nat n - 1) ?ps @ p # drop (nat n - 1) ?ps) (take (nat n - 1) ls @ s # drop (nat n - 1) ls)"
        using la by (intro list_all2_appendI list.rel_intros(2) list_all2_takeI list_all2_dropI)
      moreover have "p \<notin> set ?ps" using old by (induction rule: list_all2_induct) auto
      then have "distinct (take (nat n - 1) ?ps @ p # drop (nat n - 1) ?ps)"
        using h(4) by (metis append_take_drop_id distinct_insert distinct.simps(2) distinct_append in_set_takeD in_set_dropD disjoint_insert(2) list.simps(15))
      moreover have "uheap_inv u (heap_of e') bs'" "length (lines e') = 512" "line_count e' \<le> 512" using copied(3) h(2) n(3) s by (simp_all add: e')
      ultimately have "ed_ok u e' bs' (take (nat n - 1) ls @ s # drop (nat n - 1) ls)" unfolding ed_ok_def tk by blast
      then show ?thesis using rl n ll e' by auto
    qed
  qed
qed

lemma list_all2_mono_set: "list_all2 P xs ys \<Longrightarrow> (\<And>x y. x \<in> set xs \<Longrightarrow> P x y \<Longrightarrow> Q x y) \<Longrightarrow> list_all2 Q xs ys"
  by (induction rule: list_all2_induct) auto

lemma delete_refines:
  assumes ok: "ed_ok u e bs ls"
  shows "\<exists>bs'. ed_ok u (cmd_delete e n) bs' (if 1 \<le> n \<and> n \<le> int (length ls) then take (nat n - 1) ls @ drop (nat n) ls else ls)"
proof -
  let ?c = "line_count e" and ?ps = "take (line_count e) (lines e)" and ?e = "cmd_delete e n"
  have h: "uheap_inv u (heap_of e) bs" "length (lines e) = 512" "?c \<le> 512" "distinct ?ps" "list_all2 (holds u e bs) ?ps ls" using ok by (auto simp: ed_ok_def)
  have ll: "length ls = ?c" using h by (metis length_take list_all2_lengthD min.absorb2)
  show ?thesis
  proof (cases "1 \<le> n \<and> n \<le> int ?c")
    case False
    then have "?e = ed_say e ''edit: invalid line number''" by (auto simp: cmd_delete_def)
    then show ?thesis using ok ed_ok_cong [of ?e e u bs ls] False ll by auto
  next
    case True
    let ?k = "nat n - 1"
    let ?p = "lines e ! ?k"
    have k: "?k < ?c" "nat n = Suc ?k" "?p = ?ps ! ?k" using True h by auto
    have e': "?e = e\<lparr>heap_of := free (heap_of e) ?p, lines := shift_down (lines e) (nat n) ?c, line_count := ?c - 1, modified := True\<rparr>" using True by (auto simp: cmd_delete_def)
    have fl: "line_count ?e = ?c - 1" "lines ?e = shift_down (lines e) (nat n) ?c" using e' by simp_all
    have tk: "take (line_count ?e) (lines ?e) = take ?k ?ps @ drop (nat n) ?ps" unfolding fl by (rule delete_array) (use True h in auto)
    have "holds u e bs ?p (ls ! ?k)" using h(5) k ll by (metis list_all2_nthD2)
    then obtain sz where sz: "(unat ?p, sz) \<in> uheap_live u (heap_of e) bs" "length (ls ! ?k) < sz" by (auto simp: holds_def)
    obtain bs' where f: "uheap_inv u (free (heap_of e) ?p) bs'" "uheap_live u (free (heap_of e) ?p) bs' = uheap_live u (heap_of e) bs - {(unat ?p, sz)}"
      using libc_heap.dealloc_spec [OF h(1) sz(1)] by auto
    have keep: "holds u ?e bs' q t" if "holds u e bs q t" "q \<noteq> ?p" for q t
      using that f(2) e' by (auto simp: holds_def word_unat_eq_iff)
    have ps: "?ps = take ?k ?ps @ ?p # drop (nat n) ?ps" using k h by (metis Cons_nth_drop_Suc append_take_drop_id length_take min.absorb2)
    then have np: "?p \<notin> set (take ?k ?ps)" "?p \<notin> set (drop (nat n) ?ps)" "distinct (take ?k ?ps @ drop (nat n) ?ps)" using h(4) by (metis distinct.simps(2) distinct_append disjoint_insert(1) list.simps(15) Un_iff not_distinct_conv_prefix set_append)+
    have "list_all2 (holds u ?e bs') (take ?k ?ps) (take ?k ls)"
      by (rule list_all2_mono_set [OF list_all2_takeI [OF h(5)]]) (use keep np(1) in blast)
    moreover have "list_all2 (holds u ?e bs') (drop (nat n) ?ps) (drop (nat n) ls)"
      by (rule list_all2_mono_set [OF list_all2_dropI [OF h(5)]]) (use keep np(2) in blast)
    ultimately have "list_all2 (holds u ?e bs') (take ?k ?ps @ drop (nat n) ?ps) (take ?k ls @ drop (nat n) ls)" by (rule list_all2_appendI)
    moreover have "uheap_inv u (heap_of ?e) bs'" "length (lines ?e) = 512" "line_count ?e \<le> 512" using f(1) h(2,3) by (simp_all add: e')
    ultimately have "ed_ok u ?e bs' (take ?k ls @ drop (nat n) ls)" unfolding ed_ok_def tk using np(3) by blast
    then show ?thesis using True ll by auto
  qed
qed

section \<open>Reading the lines back\<close>

lemma holds_string:
  assumes "uheap_inv u (heap_of e) bs" "holds u e bs p s"
  shows "string_at e p = Some s"
proof -
  obtain sz where sz: "(unat p, sz) \<in> uheap_live u (heap_of e) bs" "length s < sz" "string_in (bytes_at e) p s" using assms(2) by (auto simp: holds_def)
  have "length s < 4294967296" using live_fits [OF assms(1) sz(1)] sz(2) by simp
  then have "unat (of_nat (length s) :: u32) = length s" by (simp add: unat_of_nat_u32)
  moreover have "map (\<lambda>i. bytes_at e (p + of_nat i)) [0..<length s] = s" using sz(3) by (intro nth_equalityI) (simp_all add: string_in_def)
  ultimately show ?thesis using strlen_string [OF sz(3)] by (simp add: string_at_def)
qed

lemma ed_ok_string: "ed_ok u e bs ls \<Longrightarrow> i < length ls \<Longrightarrow> string_at e (lines e ! i) = Some (ls ! i)"
proof -
  assume ok: "ed_ok u e bs ls" and i: "i < length ls"
  have l: "list_all2 (holds u e bs) (take (line_count e) (lines e)) ls" "uheap_inv u (heap_of e) bs" using ok by (auto simp: ed_ok_def)
  have "holds u e bs (take (line_count e) (lines e) ! i) (ls ! i)" "i < line_count e" using list_all2_nthD2 [OF l(1) i] list_all2_lengthD [OF l(1)] i by auto
  then show ?thesis using holds_string [OF l(2)] by simp
qed

lemma string_at_cong: "bytes_at e' = bytes_at e \<Longrightarrow> string_at e' p = string_at e p"
  by (simp add: string_at_def)

definition numbered :: "nat \<Rightarrow> bytes \<Rightarrow> bytes" where
  "numbered n s = itoa (of_nat n) @ cstr '': '' @ s @ [0x0A]"

lemma print_line_eq: "ed_ok u e bs ls \<Longrightarrow> 1 \<le> n \<Longrightarrow> n \<le> length ls \<Longrightarrow> print_line e n = Some (ed_write e (numbered n (ls ! (n - 1))))"
  using ed_ok_string [of u e bs ls "n - 1"] string_at_cong [of "ed_write (print_int e (of_nat n)) (cstr '': '')" e]
  by (simp add: print_line_def Let_def print_int_def ed_write_def numbered_def)

lemma cmd_list_eq:
  assumes "ed_ok u e bs ls"
  shows "cmd_list e = Some (ed_write e (concat (map (\<lambda>i. numbered (i + 1) (ls ! i)) [0..<length ls])))"
proof -
  have c: "line_count e = length ls" using assms list_all2_lengthD by (fastforce simp: ed_ok_def)
  have "cmd_list_from e' is = Some (ed_write e' (concat (map (\<lambda>i. numbered (i + 1) (ls ! i)) is)))" if "ed_ok u e' bs ls" "\<forall>i \<in> set is. i < length ls" for e' "is"
    using that
  proof (induction "is" arbitrary: e')
    case (Cons i "is")
    let ?e = "ed_write e' (numbered (i + 1) (ls ! i))"
    have "print_line e' (i + 1) = Some ?e" using print_line_eq [OF Cons.prems(1), of "i + 1"] Cons.prems(2) by simp
    moreover have "ed_ok u ?e bs ls" using Cons.prems(1) ed_ok_cong [of ?e e'] by simp
    ultimately show ?case using Cons by (simp add: ed_write_def)
  qed (simp add: ed_write_def)
  then show ?thesis using assms by (simp add: cmd_list_def c)
qed

definition file_of :: "bytes list \<Rightarrow> bytes" where
  "file_of ls = concat (map (\<lambda>l. l @ [0x0A]) ls)"

lemma save_chunks_eq:
  assumes "uheap_inv u (heap_of e) bs" "list_all2 (holds u e bs) ps ls"
  shows "\<exists>cs. save_chunks e ps = Some cs \<and> concat cs = file_of ls"
  using assms(2)
proof (induction rule: list_all2_induct)
  case (Cons p ps s ls)
  then show ?case using holds_string [OF assms(1) Cons(1)] by (auto simp: file_of_def)
qed (simp add: file_of_def)


section \<open>Saving and loading\<close>

lemma load_lines_step:
  assumes ok: "ed_ok u e bs ls" and l: "0 \<notin> set l" "0x0A \<notin> set l" "length l \<le> 511" and c: "length ls < 512"
  shows "\<exists>bs' e1. (load_lines u e (l @ 0x0A # rest) = Some e1 \<and> ed_ok u e1 bs' ls \<and> stdout e1 = stdout e @ cstr ''edit: out of memory loading file, stopped early'' @ [0x0A]) \<or>
    (load_lines u e (l @ 0x0A # rest) = load_lines u e1 rest \<and> ed_ok u e1 bs' (ls @ [l]) \<and> stdout e1 = stdout e)"
proof -
  let ?c = "line_count e" and ?ps = "take (line_count e) (lines e)"
  have h: "uheap_inv u (heap_of e) bs" "length (lines e) = 512" "distinct ?ps" "list_all2 (holds u e bs) ?ps ls" "?c = length ls"
    using ok list_all2_lengthD by (fastforce simp: ed_ok_def)+
  have t: "takeWhile (\<lambda>c. c \<noteq> 0x0A) (l @ 0x0A # rest) = l" using l(2) by (induction l) auto
  have d: "drop (length l + 1) (l @ 0x0A # rest) = rest" "take (MAX_LINE_LEN - 1) l = l" "?c < MAX_LINES" using l(3) c h(5) by (simp_all add: MAX_LINE_LEN_def MAX_LINES_def)
  from h(1) l(1,3) show ?thesis
  proof (cases rule: copy_spec)
    case (none hp bs')
    let ?e = "ed_say (e\<lparr>heap_of := hp\<rparr>) ''edit: out of memory loading file, stopped early''"
    have "load_lines u e (l @ 0x0A # rest) = Some ?e" using t d none(1) by (subst load_lines.simps) (simp add: Let_def)
    moreover have "list_all2 (holds u ?e bs') ?ps ls" using h(4) none(3) [of _ _ ?e] by (auto elim!: list_all2_mono)
    then have "ed_ok u ?e bs' ls" using ok none(2) by (simp add: ed_ok_def)
    moreover have "stdout ?e = stdout e @ cstr ''edit: out of memory loading file, stopped early'' @ [0x0A]" by (simp add: ed_say_def ed_write_def)
    ultimately show ?thesis by blast
  next
    case (copied p hp bs')
    let ?e = "e\<lparr>heap_of := hp, bytes_at := store_bytes (bytes_at e) p (l @ [0]), lines := (lines e)[?c := p], line_count := ?c + 1\<rparr>"
    have ll: "load_lines u e (l @ 0x0A # rest) = load_lines u ?e rest"
      using t d copied(1,2) by (subst load_lines.simps) (simp add: Let_def)
    have tk: "take (line_count ?e) (lines ?e) = ?ps @ [p]" using c h(2,5) by (simp add: take_Suc_conv_app_nth)
    have old: "list_all2 (\<lambda>q t. holds u ?e bs' q t \<and> q \<noteq> p) ?ps ls" using h(4) copied(5) [of _ _ ?e] by (auto elim!: list_all2_mono)
    then have "p \<notin> set ?ps" by (induction rule: list_all2_induct) auto
    moreover have "list_all2 (holds u ?e bs') (?ps @ [p]) (ls @ [l])" using old copied(4) [of ?e] by (intro list_all2_appendI) (auto elim!: list_all2_mono)
    moreover have "uheap_inv u (heap_of ?e) bs'" "length (lines ?e) = 512" "line_count ?e \<le> 512" using copied(3) h(2,5) c by simp_all
    ultimately have "ed_ok u ?e bs' (ls @ [l])" unfolding ed_ok_def tk using h(3) by simp
    then show ?thesis using ll by (intro exI [of _ bs'] exI [of _ ?e]) simp
  qed
qed

lemma load_lines_spec:
  assumes "ed_ok u e bs ls" "\<forall>l \<in> set ts. 0 \<notin> set l \<and> 0x0A \<notin> set l \<and> length l \<le> 511" "length ls + length ts \<le> 512"
  shows "\<exists>bs' e' k. load_lines u e (file_of ts) = Some e' \<and> ed_ok u e' bs' (ls @ take k ts) \<and>
    (k = length ts \<and> stdout e' = stdout e \<or> stdout e' = stdout e @ cstr ''edit: out of memory loading file, stopped early'' @ [0x0A])"
  using assms
proof (induction ts arbitrary: e bs ls)
  case Nil
  then show ?case by (intro exI [of _ bs] exI [of _ e] exI [of _ 0]) (simp add: file_of_def load_lines.simps [of u e])
next
  case (Cons l ts)
  have f: "file_of (l # ts) = l @ 0x0A # file_of ts" by (simp add: file_of_def)
  obtain bs1 e1 where st: "(load_lines u e (l @ 0x0A # file_of ts) = Some e1 \<and> ed_ok u e1 bs1 ls \<and> stdout e1 = stdout e @ cstr ''edit: out of memory loading file, stopped early'' @ [0x0A]) \<or>
      (load_lines u e (l @ 0x0A # file_of ts) = load_lines u e1 (file_of ts) \<and> ed_ok u e1 bs1 (ls @ [l]) \<and> stdout e1 = stdout e)"
    using load_lines_step [OF Cons.prems(1), of l "file_of ts"] Cons.prems(2,3) by auto
  then show ?case
  proof
    assume h: "load_lines u e (l @ 0x0A # file_of ts) = Some e1 \<and> ed_ok u e1 bs1 ls \<and> stdout e1 = stdout e @ cstr ''edit: out of memory loading file, stopped early'' @ [0x0A]"
    then show ?thesis unfolding f by (intro exI [of _ bs1] exI [of _ e1] exI [of _ 0]) simp
  next
    assume h: "load_lines u e (l @ 0x0A # file_of ts) = load_lines u e1 (file_of ts) \<and> ed_ok u e1 bs1 (ls @ [l]) \<and> stdout e1 = stdout e"
    obtain bs' e' k where "load_lines u e1 (file_of ts) = Some e'" "ed_ok u e' bs' ((ls @ [l]) @ take k ts)"
        "k = length ts \<and> stdout e' = stdout e1 \<or> stdout e' = stdout e1 @ cstr ''edit: out of memory loading file, stopped early'' @ [0x0A]"
      using Cons.IH [of e1 bs1 "ls @ [l]"] h Cons.prems(2,3) by auto
    then show ?thesis unfolding f using h by (intro exI [of _ bs'] exI [of _ e'] exI [of _ "Suc k"]) auto
  qed
qed

definition editor0 :: editor where
  "editor0 = \<lparr>heap_of = uh0, bytes_at = (\<lambda>_. 0), lines = replicate 512 0, line_count = 0, modified = False, stdin = [], stdout = []\<rparr>"

lemma editor0_ok: "ed_ok 0x400000 (editor0\<lparr>stdin := i\<rparr>) [(65520, True)] []"
  using uh0_inv by (simp add: ed_ok_def editor0_def)

text \<open>
  a text that the editor has saved is loaded again line by line, as long as it has less than
  8192 bytes in all and its lines at most 511 characters; when memory runs out the lines
  before that point are there, and the editor says so.
\<close>

theorem editor_save_load:
  assumes ok: "ed_ok u e bs ls" and s: "cmd_save e True = Some (Saved cs, e')"
    and ls: "\<forall>l \<in> set ls. 0x0A \<notin> set l \<and> length l \<le> 511" "length (concat cs) < 8192" and n: "ed_ok u e0 bs0 []"
  shows "\<exists>bs1 e1 k. load_file u e0 (Some (concat cs)) = Some e1 \<and> ed_ok u e1 bs1 (take k ls) \<and>
    (k = length ls \<or> stdout e1 = stdout e0 @ cstr ''edit: out of memory loading file, stopped early'' @ [0x0A])"
proof -
  have l: "list_all2 (holds u e bs) (take (line_count e) (lines e)) ls" "uheap_inv u (heap_of e) bs" "length ls \<le> 512" using ok list_all2_lengthD by (fastforce simp: ed_ok_def)+
  have "concat cs = file_of ls" using save_chunks_eq [OF l(2,1)] s by (auto simp: cmd_save_def)
  moreover have "0 \<notin> set x" if "x \<in> set ls" for x using l(1) that by (induction rule: list_all2_induct) (auto simp: holds_def string_in_def)
  then have "\<forall>l \<in> set ls. 0 \<notin> set l \<and> 0x0A \<notin> set l \<and> length l \<le> 511" using ls(1) by blast
  moreover have "load_file u e0 (Some (concat cs)) = load_lines u e0 (concat cs)" using ls(2) by (simp add: load_file_def MAX_LOAD_SIZE_def)
  ultimately show ?thesis using load_lines_spec [OF n, of ls] l(3) by auto
qed

text \<open>Typing one line into an empty editor.\<close>

definition editor1 :: editor where
  "editor1 = editor0\<lparr>stdin := [0x68, 0x69, 0x0A]\<rparr>"

lemma editor1_insert: "\<exists>nx e'. ed_dispatch 0x400000 editor1 True 0x61 0 = Some (nx, e')" "\<exists>e1. read_line editor1 = Some ([0x68, 0x69], e1)"
proof -
  show r: "\<exists>e1. read_line editor1 = Some ([0x68, 0x69], e1)" by (simp add: editor1_def read_line_def MAX_LINE_LEN_def c_string_of_def)
  then obtain e1 where e1: "read_line editor1 = Some ([0x68, 0x69], e1)" by blast
  have i: "uheap_inv 0x400000 (heap_of e1) [(65520, True)]" using uh0_inv read_line_string(3) [OF e1] by (simp add: editor1_def editor0_def)
  have "\<exists>p e2. copy_string 0x400000 e1 [0x68, 0x69] = Some (p, e2)"
    by (rule copy_spec [OF i, of "[0x68, 0x69]"]) (auto simp: copy_string_def)
  then obtain p e2 where "copy_string 0x400000 e1 [0x68, 0x69] = Some (p, e2)" by blast
  then show "\<exists>nx e'. ed_dispatch 0x400000 editor1 True 0x61 0 = Some (nx, e')"
    using e1 by (simp add: ed_dispatch_def cmd_insert_def MAX_LINES_def editor1_def editor0_def)
qed


theorem editor_save_load_witness:
  "\<exists>e1 bs1 k. load_file 0x400000 editor0 (Some (concat [])) = Some e1 \<and> ed_ok 0x400000 e1 bs1 (take k [])"
proof -
  have n: "ed_ok 0x400000 editor0 [(65520, True)] []" using editor0_ok [of "[]"] by (simp add: editor0_def)
  have "cmd_save editor0 True = Some (Saved [], ed_say (editor0\<lparr>modified := False\<rparr>) ''edit: saved'')" by (simp add: cmd_save_def editor0_def)
  from editor_save_load [OF n this _ _ n] show ?thesis by auto
qed

end
