(* ===== verification/Cpu_Tables.thy ===== *)
theory Cpu_Tables
  imports Harold_Base
begin

unbundle bit_operations_syntax

text \<open>
  The tables of the processor and the interrupt controllers: src/src/gdt.c, idt.c, tss.c, pic.c, the
  installation of the exception, interrupt and system call gates (isr.c, irq.c, syscall.c) and the
  dispatch of a hardware interrupt (irq.c). The addresses of the assembly stubs and of the task state
  segment are parameters. How the processor reads the tables, and how the two 8259 controllers
  take commands, is written out from their documentation; the theorems are about what the processor
  does with the tables that the kernel builds.
\<close>

section \<open>The global descriptor table\<close>

record gdt_entry =
  limit_low :: u16
  base_low :: u16
  base_middle :: u8
  access :: u8
  granularity :: u8
  base_high :: u8

definition GDT_ENTRY_COUNT :: nat where "GDT_ENTRY_COUNT = 6"
definition GDT_KERNEL_DATA :: u16 where "GDT_KERNEL_DATA = 0x10"
definition TSS_SIZE :: nat where "TSS_SIZE = 104"

definition gdt_set_gate :: "gdt_entry list \<Rightarrow> nat \<Rightarrow> u32 \<Rightarrow> u32 \<Rightarrow> u8 \<Rightarrow> u8 \<Rightarrow> gdt_entry list" where
  "gdt_set_gate gdt num base limit acc gran = gdt[num :=
     \<lparr>limit_low = ucast (limit AND 0xFFFF), base_low = ucast (base AND 0xFFFF), base_middle = ucast (drop_bit 16 base AND 0xFF), access = acc,
      granularity = ucast (drop_bit 16 limit AND 0x0F) OR (gran AND 0xF0), base_high = ucast (drop_bit 24 base AND 0xFF)\<rparr>]"

text \<open>The table, and the limit that is loaded with its address.\<close>

definition gdt_install :: "u32 \<Rightarrow> gdt_entry list \<Rightarrow> gdt_entry list \<times> u16" where
  "gdt_install tss gdt =
     (let gdt = gdt_set_gate gdt 0 0 0 0 0;
          gdt = gdt_set_gate gdt 1 0 0xFFFFFFFF 0x9A 0xCF;
          gdt = gdt_set_gate gdt 2 0 0xFFFFFFFF 0x92 0xCF;
          gdt = gdt_set_gate gdt 3 0 0xFFFFFFFF 0xFA 0xCF;
          gdt = gdt_set_gate gdt 4 0 0xFFFFFFFF 0xF2 0xCF;
          gdt = gdt_set_gate gdt 5 tss (of_nat TSS_SIZE - 1) 0x89 0
      in (gdt, of_nat (8 * GDT_ENTRY_COUNT) - 1))"

text \<open>
  \<open>tss_install\<close> on the bytes of the segment: \<open>esp0\<close> is at offset 4, \<open>ss0\<close> at 8, \<open>iomap_base\<close> at 102.
\<close>

definition tss_install :: "u32 \<Rightarrow> bytes \<Rightarrow> bytes" where
  "tss_install stack_end tss =
     (let tss = map (\<lambda>_. 0) tss;
          tss = put_le32 tss 8 (ucast GDT_KERNEL_DATA);
          tss = put_le32 tss 4 stack_end
      in put_le16 tss 102 (of_nat TSS_SIZE))"

section \<open>The interrupt descriptor table\<close>

record idt_entry =
  gate_base_low :: u16
  sel :: u16
  always0 :: u8
  flags :: u8
  gate_base_high :: u16

definition idt_gate :: "u32 \<Rightarrow> u16 \<Rightarrow> u8 \<Rightarrow> idt_entry" where
  "idt_gate base s fl = \<lparr>gate_base_low = ucast (base AND 0xFFFF), sel = s, always0 = 0, flags = fl, gate_base_high = ucast (drop_bit 16 base AND 0xFFFF)\<rparr>"

definition idt_set_gate :: "nat \<Rightarrow> u32 \<Rightarrow> u16 \<Rightarrow> u8 \<Rightarrow> idt_entry list \<Rightarrow> idt_entry list" where
  "idt_set_gate num base s fl idt = idt[num := idt_gate base s fl]"

definition idt_install :: "idt_entry list \<Rightarrow> idt_entry list \<times> u16" where
  "idt_install idt = (fold (\<lambda>i. idt_set_gate i 0 0 0) [0..<256] idt, 8 * 256 - 1)"

definition isr_install :: "(nat \<Rightarrow> u32) \<Rightarrow> idt_entry list \<Rightarrow> idt_entry list" where
  "isr_install isr idt = fold (\<lambda>i. idt_set_gate i (isr i) 0x08 0x8E) [0..<32] idt"

definition irq_install :: "(nat \<Rightarrow> u32) \<Rightarrow> idt_entry list \<Rightarrow> idt_entry list" where
  "irq_install irq idt = fold (\<lambda>i. idt_set_gate (32 + i) (irq i) 0x08 0x8E) [0..<16] idt"

definition syscall_install :: "u32 \<Rightarrow> idt_entry list \<Rightarrow> idt_entry list" where
  "syscall_install syscall_stub idt = idt_set_gate 0x80 syscall_stub 0x08 0xEE idt"

text \<open>The order of \<open>kernel_main\<close>.\<close>

definition boot_idt :: "(nat \<Rightarrow> u32) \<Rightarrow> (nat \<Rightarrow> u32) \<Rightarrow> u32 \<Rightarrow> idt_entry list \<Rightarrow> idt_entry list" where
  "boot_idt isr irq syscall_stub idt = irq_install irq (syscall_install syscall_stub (isr_install isr (fst (idt_install idt))))"

section \<open>The interrupt controllers\<close>

record pic8259 =
  icw :: nat
  icw4_follows :: bool
  vector_base :: u8
  cascade :: u8
  mode_8086 :: bool
  imr :: u8
  in_service :: u8

definition pic_command :: "u8 \<Rightarrow> pic8259 \<Rightarrow> pic8259" where
  "pic_command v p =
     (if v AND 0x10 \<noteq> 0 then p\<lparr>icw := 2, icw4_follows := v AND 1 \<noteq> 0, imr := 0\<rparr>
      else if v = 0x20 then p\<lparr>in_service := in_service p AND (in_service p - 1)\<rparr>
      else p)"

definition pic_data :: "u8 \<Rightarrow> pic8259 \<Rightarrow> pic8259" where
  "pic_data v p =
     (if icw p = 2 then p\<lparr>vector_base := v AND 0xF8, icw := 3\<rparr>
      else if icw p = 3 then p\<lparr>cascade := v, icw := (if icw4_follows p then 4 else 0)\<rparr>
      else if icw p = 4 then p\<lparr>mode_8086 := (v AND 1 \<noteq> 0), icw := 0\<rparr>
      else p\<lparr>imr := v\<rparr>)"

text \<open>The pair of controllers behind the ports.\<close>

type_synonym pics = "pic8259 \<times> pic8259"

definition PIC1_COMMAND :: u16 where "PIC1_COMMAND = 0x20"
definition PIC1_DATA :: u16 where "PIC1_DATA = 0x21"
definition PIC2_COMMAND :: u16 where "PIC2_COMMAND = 0xA0"
definition PIC2_DATA :: u16 where "PIC2_DATA = 0xA1"
definition ICW1_INIT :: u8 where "ICW1_INIT = 0x10"
definition ICW1_ICW4 :: u8 where "ICW1_ICW4 = 0x01"
definition ICW4_8086 :: u8 where "ICW4_8086 = 0x01"

lemmas PIC_defs = PIC1_COMMAND_def PIC1_DATA_def PIC2_COMMAND_def PIC2_DATA_def ICW1_INIT_def ICW1_ICW4_def ICW4_8086_def

definition outb :: "u16 \<Rightarrow> u8 \<Rightarrow> pics \<Rightarrow> pics" where
  "outb port v p =
     (if port = PIC1_COMMAND then (pic_command v (fst p), snd p)
      else if port = PIC1_DATA then (pic_data v (fst p), snd p)
      else if port = PIC2_COMMAND then (fst p, pic_command v (snd p))
      else if port = PIC2_DATA then (fst p, pic_data v (snd p))
      else p)"

definition inb :: "u16 \<Rightarrow> pics \<Rightarrow> u8" where
  "inb port p = (if port = PIC1_DATA then imr (fst p) else if port = PIC2_DATA then imr (snd p) else 0)"

definition pic_remap :: "pics \<Rightarrow> pics" where
  "pic_remap p =
     (let mask1 = inb PIC1_DATA p; mask2 = inb PIC2_DATA p;
          p = outb PIC1_COMMAND (ICW1_INIT OR ICW1_ICW4) p;
          p = outb PIC2_COMMAND (ICW1_INIT OR ICW1_ICW4) p;
          p = outb PIC1_DATA 0x20 p;
          p = outb PIC2_DATA 0x28 p;
          p = outb PIC1_DATA 0x04 p;
          p = outb PIC2_DATA 0x02 p;
          p = outb PIC1_DATA ICW4_8086 p;
          p = outb PIC2_DATA ICW4_8086 p;
          p = outb PIC1_DATA mask1 p
      in outb PIC2_DATA mask2 p)"

definition pic_unmask_irq :: "nat \<Rightarrow> pics \<Rightarrow> pics" where
  "pic_unmask_irq irq p =
     (let port = (if irq < 8 then PIC1_DATA else PIC2_DATA);
          line = (if irq < 8 then irq else irq - 8)
      in outb port (inb port p AND NOT (push_bit line 1)) p)"

text \<open>
  \<open>irq_routines\<close> has one slot for each line; a handler is a value of any type. \<open>irq_handler\<close> gives the
  state of the controllers when the handler starts, and the handler.
\<close>

definition irq_set_handler :: "nat \<Rightarrow> 'h \<Rightarrow> 'h option list \<Rightarrow> 'h option list" where
  "irq_set_handler irq handler routines = routines[irq := Some handler]"

definition irq_handler :: "'h option list \<Rightarrow> u32 \<Rightarrow> pics \<Rightarrow> 'h option \<times> pics" where
  "irq_handler routines int_no p =
     (let irq = unat (int_no - 32);
          p = (if 8 \<le> irq then outb 0xA0 0x20 p else p);
          p = outb 0x20 0x20 p
      in (routines ! irq, p))"

section \<open>How the processor reads the tables\<close>

definition seg_base :: "gdt_entry \<Rightarrow> u32" where
  "seg_base e = ucast (base_low e) OR push_bit 16 (ucast (base_middle e)) OR push_bit 24 (ucast (base_high e))"

definition seg_limit :: "gdt_entry \<Rightarrow> u32" where
  "seg_limit e =
     (let l = ucast (limit_low e) OR push_bit 16 (ucast (granularity e AND 0x0F))
      in if granularity e AND 0x80 = 0 then l else push_bit 12 l OR 0xFFF)"

definition seg_present :: "gdt_entry \<Rightarrow> bool" where "seg_present e \<longleftrightarrow> access e AND 0x80 \<noteq> 0"
definition seg_dpl :: "gdt_entry \<Rightarrow> nat" where "seg_dpl e = unat (drop_bit 5 (access e) AND 3)"
definition seg_code :: "gdt_entry \<Rightarrow> bool" where "seg_code e \<longleftrightarrow> access e AND 0x18 = 0x18"

definition gate_target :: "idt_entry \<Rightarrow> u32" where
  "gate_target g = push_bit 16 (ucast (gate_base_high g)) OR ucast (gate_base_low g)"

definition gate_dpl :: "idt_entry \<Rightarrow> nat" where "gate_dpl g = unat (drop_bit 5 (flags g) AND 3)"

text \<open>
  An interrupt at privilege level \<open>cpl\<close>, by an \<open>int\<close> instruction or from outside: the entry point, its
  privilege level and whether further interrupts are masked, or a fault.
\<close>

datatype delivery = Enter u32 nat bool | Fault

definition deliver :: "gdt_entry list \<Rightarrow> idt_entry list \<Rightarrow> nat \<Rightarrow> bool \<Rightarrow> nat \<Rightarrow> delivery" where
  "deliver gdt idt cpl software n =
     (let g = idt ! n; e = gdt ! (unat (sel g) div 8) in
      if flags g AND 0x80 = 0 \<or> flags g AND 0x1E \<noteq> 0x0E \<or> software \<and> gate_dpl g < cpl then Fault
      else if length gdt \<le> unat (sel g) div 8 \<or> \<not> seg_present e \<or> \<not> seg_code e \<or> cpl < seg_dpl e then Fault
      else Enter (gate_target g) (seg_dpl e) (flags g AND 1 = 0))"

section \<open>Segments\<close>

text \<open>Splitting base and limit over the fields of a descriptor loses nothing.\<close>

lemma seg_base_split: "ucast (ucast (b AND 0xFFFF) :: u16) OR push_bit 16 (ucast (ucast (drop_bit 16 b AND 0xFF) :: u8)) OR
    push_bit 24 (ucast (ucast (drop_bit 24 b AND 0xFF) :: u8)) = (b :: u32)"
proof -
  have m: "(0xFFFF :: u32) = mask 16" "(0xFF :: u32) = mask 8" by (simp_all add: mask_numeral)
  have "n - 16 < 8 \<longleftrightarrow> n < 24" "n - 24 < 8" if "16 \<le> n" "n < 32" for n :: nat using that by auto
  then show ?thesis unfolding m by (intro bit_word_eqI) (auto simp: bit_simps not_less, (metis le_add_diff_inverse not_le)+)
qed

lemma gate_target_split: "push_bit 16 (ucast (ucast (drop_bit 16 b AND 0xFFFF) :: u16)) OR ucast (ucast (b AND 0xFFFF) :: u16) = (b :: u32)"
proof -
  have m: "(0xFFFF :: u32) = mask 16" by (simp add: mask_numeral)
  show ?thesis unfolding m by (intro bit_word_eqI) (auto simp: bit_simps not_less)
qed

definition segment_is :: "gdt_entry \<Rightarrow> u32 \<Rightarrow> u32 \<Rightarrow> nat \<Rightarrow> bool \<Rightarrow> bool" where
  "segment_is e b l dpl code \<longleftrightarrow> seg_base e = b \<and> seg_limit e = l \<and> seg_dpl e = dpl \<and> seg_code e = code \<and> seg_present e"

lemma gdt_install_nth:
  assumes "length gdt = 6"
  shows "length (fst (gdt_install tss gdt)) = 6" "\<not> seg_present (fst (gdt_install tss gdt) ! 0)"
    "segment_is (fst (gdt_install tss gdt) ! 1) 0 0xFFFFFFFF 0 True" "segment_is (fst (gdt_install tss gdt) ! 2) 0 0xFFFFFFFF 0 False"
    "segment_is (fst (gdt_install tss gdt) ! 3) 0 0xFFFFFFFF 3 True" "segment_is (fst (gdt_install tss gdt) ! 4) 0 0xFFFFFFFF 3 False"
    "segment_is (fst (gdt_install tss gdt) ! 5) tss 103 0 False"
  using assms seg_base_split [of tss]
  by (simp_all add: gdt_install_def gdt_set_gate_def segment_is_def seg_base_def seg_limit_def seg_dpl_def seg_code_def seg_present_def TSS_SIZE_def)

section \<open>Gates\<close>

lemma fold_gates_length [simp]: "length (fold (\<lambda>i. idt_set_gate (f i) (b i) s fl) is idt) = length idt"
  by (induction "is" arbitrary: idt) (simp_all add: idt_set_gate_def)

lemma idt_set_gate_nth: "n < length idt \<Longrightarrow> idt_set_gate m b s f idt ! n = (if n = m then idt_gate b s f else idt ! n)"
  by (simp add: idt_set_gate_def)

lemma fold_gates_nth:
  assumes "n < length idt"
  shows "fold (\<lambda>i. idt_set_gate (k + i) (b i) s fl) [0..<m] idt ! n = (if k \<le> n \<and> n < k + m then idt_gate (b (n - k)) s fl else idt ! n)"
proof (induction m)
  case (Suc m)
  let ?xs = "fold (\<lambda>i. idt_set_gate (k + i) (b i) s fl) [0..<m] idt"
  have "length ?xs = length idt" by simp
  then show ?case using assms Suc unfolding upt_Suc_append [OF le0] fold_append comp_def fold_simps
    by (simp add: idt_set_gate_nth)
qed auto

lemma boot_idt_nth:
  assumes "length idt = 256" "n < 256"
  shows "boot_idt isr irq stub idt ! n =
    (if n < 32 then idt_gate (isr n) 0x08 0x8E else if n < 48 then idt_gate (irq (n - 32)) 0x08 0x8E
     else if n = 0x80 then idt_gate stub 0x08 0xEE else idt_gate 0 0 0)"
proof -
  define a where "a = fst (idt_install idt)"
  define b where "b = isr_install isr a"
  define c where "c = syscall_install stub b"
  have l: "length a = 256" "length b = 256" "length c = 256"
    using assms(1) fold_gates_length [of "\<lambda>i. i" "\<lambda>_. 0" 0 0 "[0..<256]" idt] fold_gates_length [of "\<lambda>i. i" isr "0x08" "0x8E" "[0..<32]" a]
    unfolding a_def b_def c_def by (simp_all add: idt_install_def isr_install_def syscall_install_def idt_set_gate_def)
  have a: "a ! n = idt_gate 0 0 0" using fold_gates_nth [of n idt 0 "\<lambda>_. 0" 0 0 256] assms unfolding a_def idt_install_def by simp
  have b: "b ! n = (if n < 32 then idt_gate (isr n) 0x08 0x8E else a ! n)"
    using fold_gates_nth [of n a 0 isr "0x08" "0x8E" 32] assms l unfolding b_def isr_install_def by simp
  have c: "c ! n = (if n = 0x80 then idt_gate stub 0x08 0xEE else b ! n)"
    using l unfolding c_def by (simp add: syscall_install_def idt_set_gate_def)
  have "irq_install irq c ! n = (if 32 \<le> n \<and> n < 48 then idt_gate (irq (n - 32)) 0x08 0x8E else c ! n)"
    using fold_gates_nth [of n c 32 irq "0x08" "0x8E" 16] assms l unfolding irq_install_def by simp
  then show ?thesis using a b c unfolding boot_idt_def a_def [symmetric] b_def [symmetric] c_def [symmetric] by simp
qed

text \<open>
  C33: with the tables of \<open>kernel_main\<close> an \<open>int\<close> instruction of a ring 3 program enters the kernel through
  the system call gate and through no other of the 256 vectors; exceptions and hardware interrupts
  enter their own stub from every privilege level; all of them run in ring 0 with interrupts masked,
  and every other vector is a fault.
\<close>

theorem interrupt_gates:
  assumes "length gdt = 6" "length idt = 256" "cpl \<le> 3" "n < 256"
  shows "deliver (fst (gdt_install tss gdt)) (boot_idt isr irq stub idt) cpl software n =
    (if n = 0x80 then Enter stub 0 True
     else if 48 \<le> n \<or> software \<and> 0 < cpl then Fault
     else if n < 32 then Enter (isr n) 0 True else Enter (irq (n - 32)) 0 True)"
proof -
  let ?g = "fst (gdt_install tss gdt)"
  have e: "length ?g = 6" "seg_present (?g ! 1)" "seg_code (?g ! 1)" "seg_dpl (?g ! 1) = 0"
    using gdt_install_nth [OF assms(1), of tss] by (simp_all only: segment_is_def)
  have t: "gate_target (idt_gate b s f) = b" "flags (idt_gate b s f) = f" "sel (idt_gate b s f) = s" for b s f
    using gate_target_split [of b] by (simp_all add: idt_gate_def gate_target_def)
  show ?thesis using assms(3) by (simp add: deliver_def Let_def boot_idt_nth [OF assms(2,4)] t gate_dpl_def e [simplified])
qed

theorem interrupt_gates_witness:
  "deliver (fst (gdt_install 0x1000 (replicate 6 undefined))) (boot_idt (\<lambda>i. of_nat i) (\<lambda>i. 0x100 + of_nat i) 0x200 (replicate 256 undefined)) 3 True 0x80 = Enter 0x200 0 True"
  using interrupt_gates [of "replicate 6 undefined" "replicate 256 undefined" 3 "0x80"] by simp

section \<open>The interrupt controllers\<close>

lemma outb_eqs:
  "outb PIC1_COMMAND v (m, s) = (pic_command v m, s)" "outb PIC1_DATA v (m, s) = (pic_data v m, s)"
  "outb PIC2_COMMAND v (m, s) = (m, pic_command v s)" "outb PIC2_DATA v (m, s) = (m, pic_data v s)"
  by (simp_all add: outb_def PIC_defs)

text \<open>
  After \<open>pic_remap\<close> both controllers are ready, in cascade, with vectors 32 to 39 and 40 to 47 and the
  masks they had before.
\<close>

theorem pic_remap_correct:
  "pic_remap (m, s) =
     (m\<lparr>icw := 0, icw4_follows := True, vector_base := 32, cascade := 4, mode_8086 := True, imr := imr m\<rparr>,
      s\<lparr>icw := 0, icw4_follows := True, vector_base := 40, cascade := 2, mode_8086 := True, imr := imr s\<rparr>)"
proof -
  have i: "inb PIC1_DATA (m, s) = imr m" "inb PIC2_DATA (m, s) = imr s" by (simp_all add: inb_def PIC_defs)
  have c: "pic_command (ICW1_INIT OR ICW1_ICW4) p = p\<lparr>icw := 2, icw4_follows := True, imr := 0\<rparr>" for p
    by (simp add: pic_command_def PIC_defs)
  show ?thesis unfolding pic_remap_def Let_def outb_eqs i c by (simp add: pic_data_def ICW4_8086_def)
qed

text \<open>A line that the controllers deliver: the bits in service are marked, and the processor gets the vector.\<close>

definition idle_below :: "nat \<Rightarrow> u8 \<Rightarrow> bool" where
  "idle_below i x \<longleftrightarrow> x AND mask (Suc i) = 0"

definition raise_irq :: "nat \<Rightarrow> pics \<Rightarrow> pics" where
  "raise_irq irq p =
     (if irq < 8 then ((fst p)\<lparr>in_service := in_service (fst p) OR push_bit irq 1\<rparr>, snd p)
      else ((fst p)\<lparr>in_service := in_service (fst p) OR push_bit 2 1\<rparr>, (snd p)\<lparr>in_service := in_service (snd p) OR push_bit (irq - 8) 1\<rparr>))"

definition irq_vector :: "nat \<Rightarrow> pics \<Rightarrow> u8" where
  "irq_vector irq p = (if irq < 8 then vector_base (fst p) + of_nat irq else vector_base (snd p) + of_nat (irq - 8))"

definition can_raise :: "nat \<Rightarrow> pics \<Rightarrow> bool" where
  "can_raise irq p \<longleftrightarrow> (if irq < 8 then idle_below irq (in_service (fst p)) else idle_below 2 (in_service (fst p)) \<and> idle_below (irq - 8) (in_service (snd p)))"

text \<open>The end-of-interrupt command clears the bit of the line that was delivered last.\<close>

lemma end_of_interrupt:
  assumes "i < 8" "idle_below i x"
  shows "(x OR push_bit i 1) AND (x OR push_bit i 1) - 1 = x"
proof -
  have x: "\<not> bit x n" if "n \<le> i" for n
  proof -
    have "\<not> bit (x AND mask (Suc i)) n" using assms(2) by (simp add: idle_below_def)
    then show ?thesis using assms(1) that by (simp add: bit_and_iff bit_mask_iff)
  qed
  have "x OR push_bit i 1 = x + 2 ^ i" using x by (subst disjunctive_add) (auto simp: bit_simps)
  then have "(x OR push_bit i 1) - 1 = x + mask i" by (simp add: mask_eq_exp_minus_1)
  also have "\<dots> = x OR mask i" using x by (subst disjunctive_add) (auto simp: bit_simps)
  finally have "(x OR push_bit i 1) AND (x OR push_bit i 1) - 1 = (x OR push_bit i 1) AND (x OR mask i)" by simp
  also have "\<dots> = x" by (rule bit_word_eqI) (auto simp: bit_simps)
  finally show ?thesis .
qed

text \<open>
  a hardware interrupt whose line the controllers may deliver reaches the processor on the vector of
  its own stub, and \<open>irq_handler\<close> has acknowledged it at both controllers, where it is theirs, before
  the handler of its line starts: the controllers are back in the state before the interrupt, so that
  a handler that switches tasks and does not return blocks no further interrupt.
\<close>

theorem irq_acknowledged:
  assumes "irq < 16" "can_raise irq (m, s)"
  shows "unat (irq_vector irq (pic_remap (m, s))) = 32 + irq \<and>
    irq_handler routines (of_nat (32 + irq)) (raise_irq irq (m, s)) = (routines ! irq, (m, s))"
proof -
  have v: "unat (irq_vector irq (pic_remap (m, s))) = 32 + irq"
    using assms(1) by (simp add: pic_remap_correct irq_vector_def unat_word_ariths unat_of_nat)
  have e: "outb 0x20 v (p, q) = (pic_command v p, q)" "outb 0xA0 v (p, q) = (p, pic_command v q)" for v p q
    using outb_eqs by (simp_all add: PIC_defs)
  have c: "pic_command 0x20 (p\<lparr>in_service := in_service p OR push_bit i 1\<rparr>) = p" if "i < 8" "idle_below i (in_service p)" for p i
    using end_of_interrupt [OF that] by (cases p) (simp add: pic_command_def)
  have "unat (of_nat (32 + irq) - 32 :: u32) = irq" using assms(1) by (simp add: unat_of_nat)
  then show ?thesis using assms v by (auto simp: irq_handler_def raise_irq_def can_raise_def e c [simplified] c [of 2, simplified] Let_def)
qed

definition fresh_pic :: pic8259 where
  "fresh_pic = \<lparr>icw = 0, icw4_follows = False, vector_base = 8, cascade = 0, mode_8086 = False, imr = 0xFB, in_service = 0\<rparr>"

theorem irq_acknowledged_witness:
  "irq_handler (replicate 16 (Some ''mouse'')) (of_nat (32 + 12)) (raise_irq 12 (fresh_pic, fresh_pic)) = (Some ''mouse'', (fresh_pic, fresh_pic))"
  using irq_acknowledged [of 12 fresh_pic fresh_pic "replicate 16 (Some ''mouse'')"] by (simp add: can_raise_def idle_below_def fresh_pic_def)

text \<open>\<open>pic_unmask_irq\<close> lets exactly one more line through.\<close>

definition masked :: "nat \<Rightarrow> pics \<Rightarrow> bool" where
  "masked irq p \<longleftrightarrow> (if irq < 8 then bit (imr (fst p)) irq else bit (imr (snd p)) (irq - 8))"

theorem pic_unmask_correct:
  assumes "irq < 16" "line < 16" "icw m = 0" "icw s = 0"
  shows "masked line (pic_unmask_irq irq (m, s)) \<longleftrightarrow> masked line (m, s) \<and> line \<noteq> irq"
proof -
  have i: "inb PIC1_DATA (m, s) = imr m" "inb PIC2_DATA (m, s) = imr s" by (simp_all add: inb_def PIC_defs)
  show ?thesis using assms by (auto simp: masked_def pic_unmask_irq_def Let_def i outb_eqs pic_data_def bit_simps)
qed

section \<open>The task state segment\<close>

text \<open>The processor finds the stack of ring 0 in the segment, and no port is open to ring 3.\<close>

theorem tss_install_correct:
  assumes "length tss = TSS_SIZE"
  shows "length (tss_install e tss) = TSS_SIZE \<and> get_le32 (tss_install e tss) 4 = e \<and> get_le32 (tss_install e tss) 8 = 0x10 \<and>
    TSS_SIZE \<le> unat (get_le16 (tss_install e tss) 102)"
proof -
  have "get_le32 (put_le16 b 102 v) 4 = get_le32 b 4" "get_le32 (put_le16 b 102 v) 8 = get_le32 b 8"
    "get_le32 (put_le32 b 4 x) 8 = get_le32 b 8" for b v x
    by (simp_all add: get_le32_def nth_put_le16 nth_put_le32)
  then show ?thesis using assms by (simp add: tss_install_def TSS_SIZE_def GDT_KERNEL_DATA_def Let_def buf_simps)
qed

end
