(* ===== verification/Faults.thy ===== *)
theory Faults
  imports Task_Sched Terminal
begin

unbundle bit_operations_syntax

text \<open>
  Processor exceptions: \<open>fault_handler\<close> of src/src/isr.c, which logs the fault, draws a banner into the
  video memory and either terminates the task that caused it or halts the machine. The address in
  the register \<open>cr2\<close> is a parameter.
\<close>

section \<open>The handler\<close>

definition exception_messages :: "bytes list" where
  "exception_messages = map cstr
     [''Division By Zero'', ''Debug'', ''Non Maskable Interrupt'', ''Breakpoint'',
      ''Into Detected Overflow'', ''Out of Bounds'', ''Invalid Opcode'', ''No Coprocessor'',
      ''Double Fault'', ''Coprocessor Segment Overrun'', ''Bad TSS'', ''Segment Not Present'',
      ''Stack Fault'', ''General Protection Fault'', ''Page Fault'', ''Unknown Interrupt'',
      ''Coprocessor Fault'', ''Alignment Check'', ''Machine Check'', ''Reserved'',
      ''Reserved'', ''Reserved'', ''Reserved'', ''Reserved'',
      ''Reserved'', ''Reserved'', ''Reserved'', ''Reserved'',
      ''Reserved'', ''Reserved'', ''Reserved'', ''Reserved'']"

definition VGA_COLS :: nat where "VGA_COLS = 80"

definition clear_row :: "nat \<Rightarrow> (nat \<Rightarrow> u16) \<Rightarrow> (nat \<Rightarrow> u16)" where
  "clear_row row vm = (let offset = row * VGA_COLS in fold (\<lambda>i vm. vm(offset + i := 0x20 OR 0x4F00)) [0..<VGA_COLS] vm)"

definition print_at :: "bytes \<Rightarrow> nat \<Rightarrow> (nat \<Rightarrow> u16) \<Rightarrow> (nat \<Rightarrow> u16)" where
  "print_at str row vm =
     (let offset = row * VGA_COLS; vm = clear_row row vm
      in fold (\<lambda>i vm. vm(offset + i := scast (str ! i) OR 0x4F00)) [0..<length str] vm)"

definition print_hex_at :: "u32 \<Rightarrow> nat \<Rightarrow> (nat \<Rightarrow> u16) \<Rightarrow> (nat \<Rightarrow> u16)" where
  "print_hex_at v row vm =
     (let offset = row * VGA_COLS; vm = clear_row row vm;
          vm = vm(offset := 0x30 OR 0x4F00);
          vm = vm(offset + 1 := 0x78 OR 0x4F00)
      in fold (\<lambda>i vm. vm(offset + 2 + i := scast (hex_chars ! unat (drop_bit (28 - i * 4) v AND 0xF)) OR 0x4F00)) [0..<8] vm)"

definition fault_log :: "kernel \<Rightarrow> u32 \<Rightarrow> terminal \<Rightarrow> terminal" where
  "fault_log s int_no t =
     (let t = terminal_writestring t (0x0A # cstr ''[FAULT] tick='');
          t = terminal_print_dec t (pit_get_ticks s);
          t = terminal_writestring t (cstr '' task='');
          t = terminal_print_dec t (of_nat (task_current_id s));
          t = terminal_writestring t (cstr '' '');
          t = terminal_writestring t (exception_messages ! unat int_no)
      in terminal_writestring t [0x0A])"

definition fault_banner :: "u32 \<Rightarrow> u32 \<Rightarrow> (nat \<Rightarrow> u16) \<Rightarrow> (nat \<Rightarrow> u16)" where
  "fault_banner int_no addr vm =
     (let vm = print_at (cstr ''EXCEPTION:'') 2 vm;
          vm = print_at (exception_messages ! unat int_no) 3 vm
      in if int_no = 14 then print_hex_at addr 5 (print_at (cstr ''Faulting address:'') 4 vm) else vm)"

text \<open>\<open>Some s\<close> is the state in which another task goes on, \<open>None\<close> the halted machine.\<close>

definition fault_handler :: "kernel \<Rightarrow> terminal \<Rightarrow> u32 \<Rightarrow> u32 \<Rightarrow> u32 \<Rightarrow> kernel option \<times> terminal" where
  "fault_handler s t addr int_no cs =
     (let t = fault_log s int_no t;
          vm = fault_banner int_no addr (video_memory t)
      in if cs AND 0x3 = 3 then
           (Some (task_exit s), t\<lparr>video_memory := print_hex_at (of_nat (task_current_id s)) 7 (print_at (cstr ''Ring 3 fault - terminating task:'') 6 vm)\<rparr>)
         else (None, t\<lparr>video_memory := print_at (cstr ''Kernel-mode fault - halting'') 6 vm\<rparr>))"

section \<open>The banner\<close>

lemma fold_upd_nth: "fold (\<lambda>i vm. vm(k + i := f i)) [0..<n] vm j = (if k \<le> j \<and> j < k + n then f (j - k) else vm j)"
  by (induction n) (auto simp: less_Suc_eq_le)

text \<open>A row of the banner: white on red, the text at its left, blanks behind it.\<close>

definition banner_row :: "bytes \<Rightarrow> nat \<Rightarrow> u16" where
  "banner_row str c = (if c < length str then scast (str ! c) else 0x20) OR 0x4F00"

definition set_row :: "nat \<Rightarrow> bytes \<Rightarrow> (nat \<Rightarrow> u16) \<Rightarrow> (nat \<Rightarrow> u16)" where
  "set_row row str vm j = (if row * 80 \<le> j \<and> j < row * 80 + 80 then banner_row str (j - row * 80) else vm j)"

lemma print_at_row: "length str \<le> 80 \<Longrightarrow> print_at str row vm = set_row row str vm"
  by (rule ext) (auto simp: print_at_def clear_row_def fold_upd_nth VGA_COLS_def set_row_def banner_row_def)

lemma clear_row_eq: "clear_row row vm j = (if row * 80 \<le> j \<and> j < row * 80 + 80 then 0x4F20 else vm j)"
  by (simp add: clear_row_def fold_upd_nth VGA_COLS_def)

lemma print_hex_row: "print_hex_at v row vm = set_row row (cstr ''0x'' @ hex_digits v) vm"
proof (rule ext)
  fix j
  have h: "hex_digits v = map (\<lambda>i. hex_chars ! unat (drop_bit (28 - i * 4) v AND 0xF)) [0..<8]"
    by (simp add: hex_digits_def upt_rec numeral_2_eq_2 [symmetric])
  have "print_hex_at v row vm j =
      (if row * 80 + 2 \<le> j \<and> j < row * 80 + 2 + 8 then scast (hex_digits v ! (j - (row * 80 + 2))) OR 0x4F00
       else if j = row * 80 + 1 then 0x4F78 else if j = row * 80 then 0x4F30 else clear_row row vm j)"
    unfolding print_hex_at_def Let_def VGA_COLS_def fold_upd_nth h by auto
  moreover have "j = row * 80 \<or> j = row * 80 + 1 \<or> row * 80 + 2 \<le> j \<and> j < row * 80 + 10 \<or> row * 80 + 10 \<le> j \<or> j < row * 80" by linarith
  ultimately show "print_hex_at v row vm j = set_row row (cstr ''0x'' @ hex_digits v) vm j"
    by (elim disjE) (auto simp: clear_row_eq set_row_def banner_row_def cstr_def h nth_append)
qed

lemma exception_message_fits: "n < 32 \<Longrightarrow> length (exception_messages ! n) \<le> 27"
proof -
  assume n: "n < 32"
  have "list_all (\<lambda>m. length m \<le> 27) exception_messages \<and> length exception_messages = 32" by code_simp
  then show ?thesis using n by (simp add: list_all_length)
qed

lemma set_row_other: "j div 80 \<noteq> row \<Longrightarrow> set_row row str vm j = vm j"
  by (auto simp: set_row_def div_nat_eqI mult.commute)

lemma set_row_same: "c < 80 \<Longrightarrow> set_row row str vm (row * 80 + c) = banner_row str c"
  by (simp add: set_row_def)

lemma fault_banner_rows:
  assumes "unat int_no < 32"
  shows "fault_banner int_no addr vm =
    (let vm = set_row 3 (exception_messages ! unat int_no) (set_row 2 (cstr ''EXCEPTION:'') vm)
     in if int_no = 14 then set_row 5 (cstr ''0x'' @ hex_digits addr) (set_row 4 (cstr ''Faulting address:'') vm) else vm)"
  using exception_message_fits [OF assms] by (simp add: fault_banner_def print_at_row print_hex_row cstr_def Let_def)

text \<open>
  C34: a fault of a ring 3 program terminates its task and nothing else: another task runs on a
  consistent task table, every other task keeps its stack, its saved registers and its address
  space, and the heap, the page tables and the file system are as before. A fault of the kernel
  itself halts the machine. In both cases the third row of the screen names the exception, and the
  banner stays within its six rows.
\<close>

theorem fault_isolated:
  assumes "sched_ok s" "current_task s \<noteq> 0" "unat int_no < 32"
  shows "(case fst (fault_handler s t addr int_no cs) of
      None \<Rightarrow> cs AND 3 \<noteq> 3
    | Some s' \<Rightarrow> cs AND 3 = 3 \<and> sched_ok s' \<and> current_task s' \<noteq> current_task s \<and> state (tasks s' ! current_task s) = TASK_UNUSED \<and>
        (\<forall>j < 8. j \<noteq> current_task s \<longrightarrow> state (tasks s ! j) \<noteq> TASK_UNUSED \<longrightarrow> keeps_context s s' j) \<and>
        heap s' = heap s \<and> fs s' = fs s \<and> pm (pg s') = pm (pg s) \<and> paging.mem (pg s') = paging.mem (pg s)) \<and>
    (\<forall>c < 80. video_memory (snd (fault_handler s t addr int_no cs)) (3 * 80 + c) = banner_row (exception_messages ! unat int_no) c) \<and>
    (\<forall>j. j div 80 < 2 \<or> 7 < j div 80 \<longrightarrow> video_memory (snd (fault_handler s t addr int_no cs)) j = video_memory (fault_log s int_no t) j)"
proof -
  let ?r = "fault_handler s t addr int_no cs" and ?dead = "\<lambda>t. t\<lparr>state := TASK_UNUSED\<rparr>"
  have f: "state (?dead (tasks s ! current_task s)) \<noteq> TASK_RUNNING" by simp
  have w: "switch_ok (set_current s ?dead)" using leave_switch_ok [of s ?dead] assms f by simp
  note n = switch_next [OF w]
  have exit: "sched_ok (task_exit s)" "\<And>j. j < 8 \<Longrightarrow> j \<noteq> current_task s \<Longrightarrow> state (tasks s ! j) \<noteq> TASK_UNUSED \<Longrightarrow> keeps_context s (task_exit s) j"
    using leave_ok [of s ?dead] leave_context(1) [of s ?dead] assms f by (simp_all add: leave_forms)
  have dead: "current_task (task_exit s) \<noteq> current_task s" "state (tasks (task_exit s) ! current_task s) = TASK_UNUSED"
    using n assms w by (auto simp: task_exit_def Let_def tasks_switch_to switch_ok_def nth_list_update)
  have rest: "heap (task_exit s) = heap s" "fs (task_exit s) = fs s" "pm (pg (task_exit s)) = pm (pg s)" "paging.mem (pg (task_exit s)) = paging.mem (pg s)"
    by (simp_all add: task_exit_def Let_def task_switch_to_def switch_task_def tss_set_kernel_stack_def paging_switch_directory_def load_page_directory_def)
  have vm: "video_memory (snd ?r) j = fault_banner int_no addr (video_memory (fault_log s int_no t)) j" if "j div 80 \<noteq> 6" "j div 80 \<noteq> 7" for j
    using that by (simp add: fault_handler_def Let_def print_at_row print_hex_row set_row_other cstr_def)
  have "video_memory (snd ?r) (3 * 80 + c) = banner_row (exception_messages ! unat int_no) c" if "c < 80" for c
  proof -
    have "(3 * 80 + c) div 80 = 3" using that by simp
    then show ?thesis using vm [of "3 * 80 + c"] set_row_same [OF that, of 3] by (simp add: fault_banner_rows [OF assms(3)] Let_def set_row_other del: mult_numeral_left)
  qed
  moreover have "video_memory (snd ?r) j = video_memory (fault_log s int_no t) j" if "j div 80 < 2 \<or> 7 < j div 80" for j
    using that vm [of j] by (auto simp: fault_banner_rows [OF assms(3)] Let_def set_row_other)
  moreover have "fst ?r = (if cs AND 3 = 3 then Some (task_exit s) else None)" by (simp add: fault_handler_def Let_def)
  ultimately show ?thesis using exit dead rest by simp
qed

theorem fault_isolated_witness:
  "\<exists>s'. fst (fault_handler kernel3 \<lparr>video_memory = (\<lambda>_. 0), cursor_row = 0, cursor_col = 0, com1 = []\<rparr> 0xDEAD 14 0x1B) = Some s' \<and> current_task s' \<noteq> 1"
proof -
  have "unat (14 :: u32) < 32" "current_task kernel3 = 1" by (simp_all add: kernel3_def)
  then show ?thesis
    using kernel3_ok fault_isolated [where s = kernel3 and int_no = 14 and t = "\<lparr>video_memory = (\<lambda>_. 0), cursor_row = 0, cursor_col = 0, com1 = []\<rparr>" and addr = "0xDEAD" and cs = "0x1B"]
    by (auto split: option.splits)
qed

end
