(* ===== verification/Pci.thy ===== *)
theory Pci
  imports Terminal
begin

unbundle bit_operations_syntax

text \<open>
  Finding devices on the PCI bus: src/src/pci.c. What the bus answers to a configuration address is the
  parameter \<open>cfg\<close>. The array of devices and its counter are the list of the devices found so far.
\<close>

section \<open>The driver\<close>

record pci_device =
  bus :: u8
  slot :: u8
  func :: u8
  vendor_id :: u16
  device_id :: u16

record pci =
  devices :: "pci_device list"
  pci_term :: terminal

definition PCI_MAX_BUS :: nat where "PCI_MAX_BUS = 256"
definition PCI_MAX_SLOT :: nat where "PCI_MAX_SLOT = 32"
definition PCI_MAX_FUNC :: nat where "PCI_MAX_FUNC = 8"
definition MAX_PCI_DEVICES :: nat where "MAX_PCI_DEVICES = 32"

type_synonym config = "u32 \<Rightarrow> u32"

definition pci_address :: "u8 \<Rightarrow> u8 \<Rightarrow> u8 \<Rightarrow> u8 \<Rightarrow> u32" where
  "pci_address b s f offset = 0x80000000 OR push_bit 16 (ucast b) OR push_bit 11 (ucast s) OR push_bit 8 (ucast f) OR (ucast offset AND 0xFC)"

definition pci_config_read_dword :: "config \<Rightarrow> u8 \<Rightarrow> u8 \<Rightarrow> u8 \<Rightarrow> u8 \<Rightarrow> u32" where
  "pci_config_read_dword cfg b s f offset = cfg (pci_address b s f offset)"

text \<open>The two port writes, address port first.\<close>

definition pci_config_write_dword :: "u8 \<Rightarrow> u8 \<Rightarrow> u8 \<Rightarrow> u8 \<Rightarrow> u32 \<Rightarrow> (u16 \<times> u32) list" where
  "pci_config_write_dword b s f offset v = [(0xCF8, pci_address b s f offset), (0xCFC, v)]"

definition print_hex16 :: "u16 \<Rightarrow> pci \<Rightarrow> pci" where
  "print_hex16 v p = p\<lparr>pci_term := terminal_writestring (pci_term p)
     [hex_chars ! unat (drop_bit 12 v AND 0xF), hex_chars ! unat (drop_bit 8 v AND 0xF), hex_chars ! unat (drop_bit 4 v AND 0xF), hex_chars ! unat (v AND 0xF)]\<rparr>"

definition print_hex8 :: "u8 \<Rightarrow> pci \<Rightarrow> pci" where
  "print_hex8 v p = p\<lparr>pci_term := terminal_writestring (pci_term p) [hex_chars ! unat (drop_bit 4 v AND 0xF), hex_chars ! unat (v AND 0xF)]\<rparr>"

definition pci_say :: "bytes \<Rightarrow> pci \<Rightarrow> pci" where
  "pci_say str p = p\<lparr>pci_term := terminal_writestring (pci_term p) str\<rparr>"

definition pci_check_function :: "config \<Rightarrow> u8 \<Rightarrow> u8 \<Rightarrow> u8 \<Rightarrow> pci \<Rightarrow> pci" where
  "pci_check_function cfg b s f p =
     (let id_word = pci_config_read_dword cfg b s f 0x00;
          vendor = ucast (id_word AND 0xFFFF) :: u16 in
      if vendor = 0xFFFF then p
      else
        let device = ucast (drop_bit 16 id_word AND 0xFFFF);
            class_word = pci_config_read_dword cfg b s f 0x08;
            class_code = ucast (drop_bit 24 class_word AND 0xFF);
            subclass = ucast (drop_bit 16 class_word AND 0xFF);
            p = (if length (devices p) < MAX_PCI_DEVICES
                 then p\<lparr>devices := devices p @ [\<lparr>bus = b, slot = s, func = f, vendor_id = vendor, device_id = device\<rparr>]\<rparr> else p);
            p = print_hex8 f (pci_say (cstr ''.'') (print_hex8 s (pci_say (cstr '':'') (print_hex8 b (pci_say (cstr ''PCI: '') p)))));
            p = print_hex16 device (pci_say (cstr '' device='') (print_hex16 vendor (pci_say (cstr '' vendor='') p)));
            p = print_hex8 subclass (pci_say (cstr '' subclass='') (print_hex8 class_code (pci_say (cstr '' class='') p)))
        in pci_say [0x0A] p)"

definition pci_is_multifunction :: "config \<Rightarrow> u8 \<Rightarrow> u8 \<Rightarrow> bool" where
  "pci_is_multifunction cfg b s =
     (let header_word = pci_config_read_dword cfg b s 0 0x0C;
          header_type = ucast (drop_bit 16 header_word AND 0xFF) :: u8
      in header_type AND 0x80 \<noteq> 0)"

definition pci_scan_slot :: "config \<Rightarrow> nat \<Rightarrow> nat \<Rightarrow> pci \<Rightarrow> pci" where
  "pci_scan_slot cfg b s p =
     (let id_word = pci_config_read_dword cfg (of_nat b) (of_nat s) 0 0x00 in
      if id_word AND 0xFFFF = 0xFFFF then p
      else
        let p = pci_check_function cfg (of_nat b) (of_nat s) 0 p in
        if pci_is_multifunction cfg (of_nat b) (of_nat s)
        then fold (\<lambda>f. pci_check_function cfg (of_nat b) (of_nat s) (of_nat f)) [1..<PCI_MAX_FUNC] p else p)"

definition pci_scan :: "config \<Rightarrow> pci \<Rightarrow> pci" where
  "pci_scan cfg p =
     (let p = pci_say (cstr ''PCI: scanning for devices'' @ [0x0A]) p
      in fold (\<lambda>b. fold (pci_scan_slot cfg b) [0..<PCI_MAX_SLOT]) [0..<PCI_MAX_BUS] p)"

definition pci_find_device :: "pci \<Rightarrow> u16 \<Rightarrow> u16 \<Rightarrow> (u8 \<times> u8 \<times> u8) option" where
  "pci_find_device p vendor device =
     map_option (\<lambda>d. (bus d, slot d, func d)) (find (\<lambda>d. vendor_id d = vendor \<and> device_id d = device) (devices p))"

section \<open>What the scan finds\<close>

definition responds :: "config \<Rightarrow> u8 \<Rightarrow> u8 \<Rightarrow> u8 \<Rightarrow> bool" where
  "responds cfg b s f \<longleftrightarrow> pci_config_read_dword cfg b s f 0 AND 0xFFFF \<noteq> 0xFFFF"

definition function_at :: "config \<Rightarrow> u8 \<Rightarrow> u8 \<Rightarrow> u8 \<Rightarrow> pci_device" where
  "function_at cfg b s f = \<lparr>bus = b, slot = s, func = f, vendor_id = ucast (pci_config_read_dword cfg b s f 0 AND 0xFFFF),
     device_id = ucast (drop_bit 16 (pci_config_read_dword cfg b s f 0) AND 0xFFFF)\<rparr>"

definition functions_of_slot :: "config \<Rightarrow> nat \<Rightarrow> nat \<Rightarrow> pci_device list" where
  "functions_of_slot cfg b s =
     map (\<lambda>f. function_at cfg (of_nat b) (of_nat s) (of_nat f))
       (filter (\<lambda>f. responds cfg (of_nat b) (of_nat s) (of_nat f) \<and> responds cfg (of_nat b) (of_nat s) 0 \<and>
                    (f = 0 \<or> pci_is_multifunction cfg (of_nat b) (of_nat s))) [0..<8])"

text \<open>All functions on the bus, by bus, slot and function number.\<close>

definition functions_on :: "config \<Rightarrow> pci_device list" where
  "functions_on cfg = concat (map (\<lambda>b. concat (map (functions_of_slot cfg b) [0..<32])) [0..<256])"

lemma vendor_none: "(ucast (w AND 0xFFFF :: u32) :: u16) = 0xFFFF \<longleftrightarrow> w AND 0xFFFF = 0xFFFF"
proof -
  have "(0xFFFF :: u32) = mask 16" by (simp add: mask_numeral)
  then have "unat (w AND 0xFFFF) = unat w mod 65536" using unat_and_mask [of w 16] by simp
  then have u: "unat (ucast (w AND 0xFFFF) :: u16) = unat (w AND 0xFFFF)" by (simp add: unsigned_ucast_eq take_bit_eq_mod)
  show ?thesis unfolding word_unat_eq_iff u by simp
qed

lemma say_devices [simp]: "devices (pci_say str p) = devices p" "devices (print_hex8 v p) = devices p" "devices (print_hex16 w p) = devices p"
  by (simp_all add: pci_say_def print_hex8_def print_hex16_def)

lemma check_devices:
  "devices (pci_check_function cfg b s f p) =
    (if responds cfg b s f \<and> length (devices p) < 32 then devices p @ [function_at cfg b s f] else devices p)"
  by (simp add: pci_check_function_def Let_def vendor_none responds_def function_at_def MAX_PCI_DEVICES_def)

text \<open>A step that finds the functions \<open>ds\<close>: they go into the array as long as there is room.\<close>

definition finds :: "pci_device list \<Rightarrow> (pci \<Rightarrow> pci) \<Rightarrow> bool" where
  "finds ds step \<longleftrightarrow> (\<forall>p. length (devices p) \<le> 32 \<longrightarrow> devices (step p) = take 32 (devices p @ ds))"

lemma finds_seq: "finds ds f \<Longrightarrow> finds es g \<Longrightarrow> finds (ds @ es) (\<lambda>p. g (f p))"
proof -
  assume h: "finds ds f" "finds es g"
  have "devices (g (f p)) = take 32 (devices p @ ds @ es)" if "length (devices p) \<le> 32" for p
  proof -
    have "devices (f p) = take 32 (devices p @ ds)" using h(1) that unfolding finds_def by blast
    moreover from this have "devices (g (f p)) = take 32 (devices (f p) @ es)" using h(2) unfolding finds_def by (metis length_take min.cobounded2)
    ultimately show ?thesis using that by (simp add: min_def)
  qed
  then show ?thesis unfolding finds_def by simp
qed

lemma finds_none: "finds [] (\<lambda>p. p)"
  by (simp add: finds_def)

lemma finds_fold: "(\<And>x. x \<in> set xs \<Longrightarrow> finds (ds x) (f x)) \<Longrightarrow> finds (concat (map ds xs)) (fold f xs)"
proof (induction xs)
  case (Cons x xs)
  then show ?case using finds_seq [of "ds x" "f x" "concat (map ds xs)" "fold f xs"] by (simp add: comp_def)
qed (simp add: finds_none id_def)

lemma finds_check: "finds (if responds cfg b s f then [function_at cfg b s f] else []) (pci_check_function cfg b s f)"
  by (auto simp: finds_def check_devices)

lemma finds_slot: "finds (functions_of_slot cfg b s) (pci_scan_slot cfg b s)"
proof -
  let ?b = "of_nat b :: u8" and ?s = "of_nat s :: u8"
  let ?one = "\<lambda>f. if responds cfg ?b ?s (of_nat f) then [function_at cfg ?b ?s (of_nat f)] else []"
  have u: "[0..<8] = 0 # [1..<8]" by (simp add: upt_rec)
  have c: "concat (map ?one xs) = map (\<lambda>f. function_at cfg ?b ?s (of_nat f)) (filter (\<lambda>f. responds cfg ?b ?s (of_nat f)) xs)" for xs
    by (induction xs) simp_all
  show ?thesis
  proof (cases "responds cfg ?b ?s 0")
    case False
    then show ?thesis by (simp add: finds_def pci_scan_slot_def functions_of_slot_def responds_def)
  next
    case True
    have zero: "finds [function_at cfg ?b ?s 0] (pci_check_function cfg ?b ?s 0)" using finds_check [of cfg ?b ?s 0] True by simp
    show ?thesis
    proof (cases "pci_is_multifunction cfg ?b ?s")
      case False
      have "filter (\<lambda>f. f = 0) [1..<8] = ([] :: nat list)" by (simp add: filter_empty_conv)
      then have "functions_of_slot cfg b s = [function_at cfg ?b ?s 0]" using True False unfolding functions_of_slot_def u by (simp add: filter_empty_conv)
      moreover have "pci_scan_slot cfg b s = pci_check_function cfg ?b ?s 0" using True False by (auto simp: pci_scan_slot_def Let_def responds_def)
      ultimately show ?thesis using zero by simp
    next
      case multi: True
      have "finds (concat (map ?one [1..<8])) (fold (\<lambda>f. pci_check_function cfg ?b ?s (of_nat f)) [1..<8])"
        by (rule finds_fold) (rule finds_check)
      from finds_seq [OF zero this]
      have "finds (functions_of_slot cfg b s) (\<lambda>p. fold (\<lambda>f. pci_check_function cfg ?b ?s (of_nat f)) [1..<8] (pci_check_function cfg ?b ?s 0 p))"
        using True multi unfolding c functions_of_slot_def u by simp
      moreover have "pci_scan_slot cfg b s p = fold (\<lambda>f. pci_check_function cfg ?b ?s (of_nat f)) [1..<8] (pci_check_function cfg ?b ?s 0 p)" for p
        using True multi by (simp add: pci_scan_slot_def Let_def responds_def PCI_MAX_FUNC_def)
      ultimately show ?thesis by (simp add: finds_def)
    qed
  qed
qed

lemma scan_devices:
  assumes "devices p = []"
  shows "devices (pci_scan cfg p) = take 32 (functions_on cfg)"
proof -
  have "finds (functions_on cfg) (fold (\<lambda>b. fold (pci_scan_slot cfg b) [0..<32]) [0..<256])"
    unfolding functions_on_def by (intro finds_fold finds_slot)
  then show ?thesis using assms by (simp add: pci_scan_def finds_def PCI_MAX_BUS_def PCI_MAX_SLOT_def)
qed

text \<open>
  the scan records every function that answers on the bus, in the order of bus, slot and function
  number, up to the 32 that the table holds, and \<open>pci_find_device\<close> answers with the first of them that
  has the given identifiers: with at most 32 functions it finds a device exactly when there is one.
\<close>

theorem pci_find_correct:
  assumes "devices p = []" "length (functions_on cfg) \<le> 32"
  shows "devices (pci_scan cfg p) = functions_on cfg \<and>
    (case pci_find_device (pci_scan cfg p) v d of
       None \<Rightarrow> \<forall>x \<in> set (functions_on cfg). \<not> (vendor_id x = v \<and> device_id x = d)
     | Some (b, s, f) \<Rightarrow> \<exists>i < length (functions_on cfg). functions_on cfg ! i = function_at cfg b s f \<and> responds cfg b s f \<and>
         ucast (pci_config_read_dword cfg b s f 0 AND 0xFFFF) = v \<and> ucast (drop_bit 16 (pci_config_read_dword cfg b s f 0) AND 0xFFFF) = d \<and>
         (\<forall>j < i. \<not> (vendor_id (functions_on cfg ! j) = v \<and> device_id (functions_on cfg ! j) = d)))"
proof -
  have ds: "devices (pci_scan cfg p) = functions_on cfg" using scan_devices [OF assms(1)] assms(2) by simp
  have at: "x = function_at cfg (bus x) (slot x) (func x) \<and> responds cfg (bus x) (slot x) (func x)" if "x \<in> set (functions_on cfg)" for x
    using that by (auto simp: functions_on_def functions_of_slot_def function_at_def)
  show ?thesis
  proof (cases "find (\<lambda>x. vendor_id x = v \<and> device_id x = d) (functions_on cfg)")
    case None
    then have "pci_find_device (pci_scan cfg p) v d = None" using ds by (simp add: pci_find_device_def)
    moreover have "\<forall>x \<in> set (functions_on cfg). \<not> (vendor_id x = v \<and> device_id x = d)" using None by (auto simp: find_None_iff)
    ultimately show ?thesis using ds by simp
  next
    case (Some x)
    then obtain i where i: "i < length (functions_on cfg)" "vendor_id x = v" "device_id x = d" "x = functions_on cfg ! i"
        "\<forall>j < i. \<not> (vendor_id (functions_on cfg ! j) = v \<and> device_id (functions_on cfg ! j) = d)"
      by (auto simp: find_Some_iff)
    then have x: "x = function_at cfg (bus x) (slot x) (func x)" "responds cfg (bus x) (slot x) (func x)" using at [of x] by (auto simp: in_set_conv_nth)
    then have "vendor_id (function_at cfg (bus x) (slot x) (func x)) = v" "device_id (function_at cfg (bus x) (slot x) (func x)) = d" using i by simp_all
    moreover have "pci_find_device (pci_scan cfg p) v d = Some (bus x, slot x, func x)" using Some ds by (simp add: pci_find_device_def)
    ultimately show ?thesis using ds x i by (auto simp: function_at_def intro!: exI [of _ i])
  qed
qed

text \<open>The fields of a configuration address do not overlap.\<close>

lemma pci_address_fields:
  assumes "s < 32" "f < 8"
  shows "drop_bit 16 (pci_address b s f off) AND 0xFF = ucast b" "drop_bit 11 (pci_address b s f off) AND 0x1F = ucast s"
    "drop_bit 8 (pci_address b s f off) AND 0x7 = ucast f"
proof -
  have m: "(0xFF :: u32) = mask 8" "(0x1F :: u32) = mask 5" "(0x7 :: u32) = mask 3" by (simp_all add: mask_numeral)
  have fc: "(0xFC :: u32) = push_bit 2 (mask 6)" by (simp add: mask_numeral push_bit_eq_mult)
  have z: "\<not> bit x n" if "unat x < 2 ^ k" "k \<le> n" for x :: u8 and k n
  proof -
    have "unat (take_bit k x) = unat x" using that(1) by (simp only: unsigned_take_bit_eq) (simp add: take_bit_eq_mod)
    then have "take_bit k x = x" by (rule word_unat_eq_iff [THEN iffD2])
    then show ?thesis using that(2) by (metis bit_take_bit_iff not_less)
  qed
  have s: "\<not> bit s n" if "5 \<le> n" for n using z [of s 5 n] assms(1) that by (simp add: word_less_nat_alt)
  have f: "\<not> bit f n" if "3 \<le> n" for n using z [of f 3 n] assms(2) that by (simp add: word_less_nat_alt)
  have e: "bit (2147483648 :: u32) n \<longleftrightarrow> n = 31" for n
  proof -
    have "(2147483648 :: u32) = 2 ^ 31" by simp
    then show ?thesis by (simp only: bit_exp_iff possible_bit_word) auto
  qed
  have sf: "bit s n \<Longrightarrow> n < 5" "bit f n \<Longrightarrow> n < 3" for n using s f not_less by blast+
  have l: "n < 8" if "bit x n" for x :: u8 and n using bit_imp_le_length [OF that] by simp
  show "drop_bit 16 (pci_address b s f off) AND 0xFF = ucast b"
    unfolding pci_address_def m fc by (rule bit_word_eqI) (simp only: bit_and_iff bit_or_iff bit_drop_bit_eq comp_def e, auto simp: bit_simps s f dest: l sf)
  show "drop_bit 11 (pci_address b s f off) AND 0x1F = ucast s"
    unfolding pci_address_def m fc by (rule bit_word_eqI) (simp only: bit_and_iff bit_or_iff bit_drop_bit_eq comp_def e, auto simp: bit_simps s f dest: l sf)
  show "drop_bit 8 (pci_address b s f off) AND 0x7 = ucast f"
    unfolding pci_address_def m fc by (rule bit_word_eqI) (simp only: bit_and_iff bit_or_iff bit_drop_bit_eq comp_def e, auto simp: bit_simps s f dest: l sf)
qed

text \<open>A bus with one card, the network card, at slot 3.\<close>

definition one_card :: config where
  "one_card a = (if a = pci_address 0 3 0 0 then 0x813910EC else 0xFFFFFFFF)"

lemma one_card_responds:
  assumes "s < 32" "f < 8"
  shows "responds one_card b s f \<longleftrightarrow> b = 0 \<and> s = 3 \<and> f = 0"
proof -
  have "pci_address b s f 0 = pci_address 0 3 0 0 \<Longrightarrow> b = 0 \<and> s = 3 \<and> f = 0"
  proof -
    assume e: "pci_address b s f 0 = pci_address 0 3 0 0"
    have "ucast b = (0 :: u32)" "ucast s = (3 :: u32)" "ucast f = (0 :: u32)"
      using pci_address_fields [OF assms, of b 0] pci_address_fields [of 3 0 0 0] e by simp_all
    then show ?thesis by (auto simp: word_unat_eq_iff unat_ucast_u8_u32)
  qed
  then show ?thesis by (auto simp: responds_def pci_config_read_dword_def one_card_def)
qed

lemma one_card_functions: "functions_on one_card = [function_at one_card 0 3 0]"
proof -
  have slot: "functions_of_slot one_card b s = (if b = 0 \<and> s = 3 then [function_at one_card 0 3 0] else [])" if "b < 256" "s < 32" for b s
  proof -
    have w: "(of_nat s :: u8) < 32" "(of_nat f :: u8) < 8 \<longleftrightarrow> f < 8" "(of_nat b :: u8) = 0 \<longleftrightarrow> b = 0" "(of_nat s :: u8) = 3 \<longleftrightarrow> s = 3" if "f < 8" for f
      using \<open>b < 256\<close> \<open>s < 32\<close> that by (simp_all add: word_less_nat_alt word_unat_eq_iff unat_of_nat)
    have "filter (\<lambda>f. responds one_card (of_nat b) (of_nat s) (of_nat f) \<and> responds one_card (of_nat b) (of_nat s) 0 \<and>
        (f = 0 \<or> pci_is_multifunction one_card (of_nat b) (of_nat s))) [0..<8] = filter (\<lambda>f. f = 0 \<and> b = 0 \<and> s = 3) [0..<8]"
    proof (rule filter_cong)
      fix f :: nat assume "f \<in> set [0..<8]"
      then have f: "f < 8" by simp
      have "(of_nat f :: u8) = 0 \<longleftrightarrow> f = 0" using f by (simp add: word_unat_eq_iff unat_of_nat)
      then show "(responds one_card (of_nat b) (of_nat s) (of_nat f) \<and> responds one_card (of_nat b) (of_nat s) 0 \<and>
          (f = 0 \<or> pci_is_multifunction one_card (of_nat b) (of_nat s))) = (f = 0 \<and> b = 0 \<and> s = 3)"
        using one_card_responds [of "of_nat s" "of_nat f" "of_nat b"] one_card_responds [of "of_nat s" 0 "of_nat b"] w [OF f] f by auto
    qed simp
    then show ?thesis by (auto simp: functions_of_slot_def upt_rec)
  qed
  have row: "concat (map (functions_of_slot one_card b) [0..<32]) = (if b = 0 then [function_at one_card 0 3 0] else [])" if b: "b < 256" for b
  proof -
    have "map (functions_of_slot one_card b) [0..<32] = map (\<lambda>s. if b = 0 \<and> s = 3 then [function_at one_card 0 3 0] else []) [0..<32]" using slot [OF b] by simp
    then show ?thesis by (simp add: upt_rec)
  qed
  have "concat (map (\<lambda>b. concat (map (functions_of_slot one_card b) [0..<32])) [0..<256]) = concat (map (\<lambda>b. if b = 0 then [function_at one_card 0 3 0] else []) [0..<256])"
    using row by (intro arg_cong [of _ _ concat] map_cong) simp_all
  also have "\<dots> = [function_at one_card 0 3 0]" by (simp add: upt_conv_Cons)
  finally show ?thesis by (simp add: functions_on_def)
qed

theorem pci_find_correct_witness:
  "\<exists>p. pci_find_device (pci_scan one_card p) 0x10EC 0x8139 = Some (0, 3, 0)"
proof -
  let ?p = "\<lparr>devices = [], pci_term = \<lparr>video_memory = (\<lambda>_. 0), cursor_row = 0, cursor_col = 0, com1 = []\<rparr>\<rparr>"
  have "vendor_id (function_at one_card 0 3 0) = 0x10EC" "device_id (function_at one_card 0 3 0) = 0x8139"
    by (simp_all add: function_at_def pci_config_read_dword_def one_card_def)
  moreover have "devices (pci_scan one_card ?p) = [function_at one_card 0 3 0]"
    using pci_find_correct [of ?p one_card "0x10EC" "0x8139"] by (simp add: one_card_functions)
  ultimately have "pci_find_device (pci_scan one_card ?p) 0x10EC 0x8139 = Some (0, 3, 0)" by (simp add: pci_find_device_def) (simp add: function_at_def)
  then show ?thesis by blast
qed

end
