(* ===== verification/Rtc.thy ===== *)
theory Rtc
  imports Libc_Str
begin

unbundle bit_operations_syntax

text \<open>
  The wall clock: src/src/rtc.c and the program src/userspace/date.c that prints it. The clock chip is
  a parameter: \<open>cmos k r\<close> is what it answers when the \<open>k\<close>-th read asks for register \<open>r\<close>, so that it
  may tick between any two reads of the driver. The state of the driver is the number of reads so far.
\<close>

section \<open>The driver\<close>

definition CMOS_REG_SECONDS :: u8 where "CMOS_REG_SECONDS = 0x00"
definition CMOS_REG_MINUTES :: u8 where "CMOS_REG_MINUTES = 0x02"
definition CMOS_REG_HOURS :: u8 where "CMOS_REG_HOURS = 0x04"
definition CMOS_REG_DAY :: u8 where "CMOS_REG_DAY = 0x07"
definition CMOS_REG_MONTH :: u8 where "CMOS_REG_MONTH = 0x08"
definition CMOS_REG_YEAR :: u8 where "CMOS_REG_YEAR = 0x09"
definition CMOS_REG_STATUS_A :: u8 where "CMOS_REG_STATUS_A = 0x0A"
definition CMOS_REG_STATUS_B :: u8 where "CMOS_REG_STATUS_B = 0x0B"

lemmas CMOS_defs = CMOS_REG_SECONDS_def CMOS_REG_MINUTES_def CMOS_REG_HOURS_def CMOS_REG_DAY_def CMOS_REG_MONTH_def
  CMOS_REG_YEAR_def CMOS_REG_STATUS_A_def CMOS_REG_STATUS_B_def

type_synonym cmos = "nat \<Rightarrow> u8 \<Rightarrow> u8"

record rtc_time =
  year :: u16
  month :: u8
  day :: u8
  hour :: u8
  minute :: u8
  second :: u8

record cmos_snapshot =
  s_second :: u8
  s_minute :: u8
  s_hour :: u8
  s_day :: u8
  s_month :: u8
  s_year :: u8

definition cmos_read :: "cmos \<Rightarrow> u8 \<Rightarrow> nat \<Rightarrow> u8 \<times> nat" where
  "cmos_read cmos r n = (cmos n r, n + 1)"

definition cmos_update_in_progress :: "cmos \<Rightarrow> nat \<Rightarrow> bool \<times> nat" where
  "cmos_update_in_progress cmos n = (let (a, n) = cmos_read cmos CMOS_REG_STATUS_A n in (a AND 0x80 \<noteq> 0, n))"

definition bcd_to_bin :: "u8 \<Rightarrow> u8" where
  "bcd_to_bin bcd = (bcd AND 0x0F) + drop_bit 4 bcd * 10"

definition cmos_read_snapshot :: "cmos \<Rightarrow> nat \<Rightarrow> cmos_snapshot \<times> nat" where
  "cmos_read_snapshot cmos n =
     (let (sec, n) = cmos_read cmos CMOS_REG_SECONDS n;
          (mn, n) = cmos_read cmos CMOS_REG_MINUTES n;
          (h, n) = cmos_read cmos CMOS_REG_HOURS n;
          (d, n) = cmos_read cmos CMOS_REG_DAY n;
          (mo, n) = cmos_read cmos CMOS_REG_MONTH n;
          (y, n) = cmos_read cmos CMOS_REG_YEAR n
      in (\<lparr>s_second = sec, s_minute = mn, s_hour = h, s_day = d, s_month = mo, s_year = y\<rparr>, n))"

definition snapshots_equal :: "cmos_snapshot \<Rightarrow> cmos_snapshot \<Rightarrow> bool" where
  "snapshots_equal a b \<longleftrightarrow> s_second a = s_second b \<and> s_minute a = s_minute b \<and> s_hour a = s_hour b \<and>
     s_day a = s_day b \<and> s_month a = s_month b \<and> s_year a = s_year b"

partial_function (option) cmos_wait :: "cmos \<Rightarrow> nat \<Rightarrow> nat option" where
  "cmos_wait cmos n = (let (busy, n) = cmos_update_in_progress cmos n in if busy then cmos_wait cmos n else Some n)"

partial_function (option) snapshot_loop :: "cmos \<Rightarrow> cmos_snapshot \<Rightarrow> nat \<Rightarrow> (cmos_snapshot \<times> nat) option" where
  "snapshot_loop cmos current n =
     (case cmos_wait cmos n of
        None \<Rightarrow> None
      | Some n \<Rightarrow>
          let (nxt, n) = cmos_read_snapshot cmos n in
          if snapshots_equal current nxt then Some (current, n) else snapshot_loop cmos nxt n)"

text \<open>The conversion of the raw registers: BCD, then the 12-hour clock, then the century.\<close>

definition rtc_binary :: "u8 \<Rightarrow> cmos_snapshot \<Rightarrow> cmos_snapshot" where
  "rtc_binary status_b c =
     (if status_b AND 0x04 = 0 then
        \<lparr>s_second = bcd_to_bin (s_second c), s_minute = bcd_to_bin (s_minute c),
         s_hour = bcd_to_bin (s_hour c AND 0x7F) OR (s_hour c AND 0x80),
         s_day = bcd_to_bin (s_day c), s_month = bcd_to_bin (s_month c), s_year = bcd_to_bin (s_year c)\<rparr>
      else c)"

definition rtc_hour :: "u8 \<Rightarrow> u8 \<Rightarrow> u8" where
  "rtc_hour status_b h = (if status_b AND 0x02 = 0 \<and> h AND 0x80 \<noteq> 0 then ((h AND 0x7F) + 12) mod 24 else h AND 0x7F)"

definition rtc_convert :: "u8 \<Rightarrow> cmos_snapshot \<Rightarrow> rtc_time" where
  "rtc_convert status_b raw =
     (let c = rtc_binary status_b raw
      in \<lparr>year = 2000 + ucast (s_year c), month = s_month c, day = s_day c, hour = rtc_hour status_b (s_hour c),
          minute = s_minute c, second = s_second c\<rparr>)"

definition rtc_read :: "cmos \<Rightarrow> nat \<Rightarrow> (rtc_time \<times> nat) option" where
  "rtc_read cmos n =
     (case cmos_wait cmos n of
        None \<Rightarrow> None
      | Some n \<Rightarrow>
          let (current, n) = cmos_read_snapshot cmos n in
          case snapshot_loop cmos current n of
            None \<Rightarrow> None
          | Some (current, n) \<Rightarrow>
              let (status_b, n) = cmos_read cmos CMOS_REG_STATUS_B n in Some (rtc_convert status_b current, n))"

text \<open>The program date: everything it writes.\<close>

definition write_padded :: "u32 \<Rightarrow> nat \<Rightarrow> bytes" where
  "write_padded v width = (let num = itoa v in replicate (width - length num) 0x30 @ num)"

definition date_start :: "rtc_time \<Rightarrow> bytes" where
  "date_start t =
     write_padded (ucast (year t)) 4 @ cstr ''-'' @ write_padded (ucast (month t)) 2 @ cstr ''-'' @ write_padded (ucast (day t)) 2 @ cstr '' '' @
     write_padded (ucast (hour t)) 2 @ cstr '':'' @ write_padded (ucast (minute t)) 2 @ cstr '':'' @ write_padded (ucast (second t)) 2 @ [0x0A]"

section \<open>What the registers hold\<close>

definition reg_of :: "u8 \<Rightarrow> u8 \<Rightarrow> u8" where
  "reg_of b x = (if b AND 0x04 = 0 then 16 * (x div 10) + x mod 10 else x)"

definition hour_reg :: "u8 \<Rightarrow> u8 \<Rightarrow> u8" where
  "hour_reg b h =
     (if b AND 0x02 = 0 then reg_of b (if h mod 12 = 0 then 12 else h mod 12) OR (if 12 \<le> h then 0x80 else 0) else reg_of b h)"

definition valid_time :: "rtc_time \<Rightarrow> bool" where
  "valid_time t \<longleftrightarrow> 2000 \<le> year t \<and> year t < 2100 \<and> 1 \<le> month t \<and> month t \<le> 12 \<and> 1 \<le> day t \<and> day t \<le> 31 \<and>
     hour t < 24 \<and> minute t < 60 \<and> second t < 60"

definition regs_of :: "u8 \<Rightarrow> rtc_time \<Rightarrow> cmos_snapshot" where
  "regs_of b t = \<lparr>s_second = reg_of b (second t), s_minute = reg_of b (minute t), s_hour = hour_reg b (hour t),
     s_day = reg_of b (day t), s_month = reg_of b (month t), s_year = reg_of b (ucast (year t - 2000))\<rparr>"

text \<open>What the driver makes of an hour: noon and midnight of a 12-hour clock change places.\<close>

definition told_hour :: "u8 \<Rightarrow> u8 \<Rightarrow> u8" where
  "told_hour b h = (if b AND 0x02 = 0 \<and> h = 0 then 12 else if b AND 0x02 = 0 \<and> h = 12 then 0 else h)"

definition clock_hour :: "u8 \<Rightarrow> u8 \<Rightarrow> u8" where
  "clock_hour b h = (if b AND 0x02 = 0 then (if h mod 12 = 0 then 12 else h mod 12) OR (if 12 \<le> h then 0x80 else 0) else h)"

lemma small_byte:
  assumes "x < of_nat k" "k < 256" "list_all (\<lambda>n. P (of_nat n)) [0..<k]"
  shows "P (x :: u8)"
proof -
  have "unat x < k" using assms by (simp add: word_less_nat_alt unat_of_nat)
  then show ?thesis using assms(3) by (auto simp: list_all_iff dest!: bspec [of _ _ "unat x"])
qed

lemma bcd_to_bin_reg: "x < 100 \<Longrightarrow> b AND 0x04 = 0 \<Longrightarrow> bcd_to_bin (reg_of b x) = x"
proof -
  assume x: "x < 100" and b: "b AND 0x04 = 0"
  have "list_all (\<lambda>n. bcd_to_bin (16 * (of_nat n div 10) + of_nat n mod 10) = of_nat n) [0..<100]" by code_simp
  then have "bcd_to_bin (16 * (x div 10) + x mod 10) = x" using small_byte [of x 100 "\<lambda>x. bcd_to_bin (16 * (x div 10) + x mod 10) = x"] x by simp
  then show ?thesis using b by (simp add: reg_of_def)
qed

lemma hour_reg_bcd:
  assumes "h < 24" "b AND 0x04 = 0"
  shows "bcd_to_bin (hour_reg b h AND 0x7F) OR (hour_reg b h AND 0x80) = clock_hour b h"
proof -
  let ?B = "\<lambda>x :: u8. 16 * (x div 10) + x mod 10"
  let ?P = "\<lambda>h. bcd_to_bin ((?B (if h mod 12 = 0 then 12 else h mod 12) OR (if 12 \<le> h then 0x80 else 0)) AND 0x7F) OR
    ((?B (if h mod 12 = 0 then 12 else h mod 12) OR (if 12 \<le> h then 0x80 else 0)) AND 0x80) =
    (if h mod 12 = 0 then 12 else h mod 12) OR (if 12 \<le> h then 0x80 else 0)"
  let ?Q = "\<lambda>h. bcd_to_bin (?B h AND 0x7F) OR (?B h AND 0x80) = h"
  have "list_all (\<lambda>n. ?P (of_nat n)) [0..<24]" "list_all (\<lambda>n. ?Q (of_nat n)) [0..<24]" by code_simp+
  then have "?P h" "?Q h" using small_byte [of h 24 ?P] small_byte [of h 24 ?Q] assms(1) by simp_all
  then show ?thesis using assms(2) by (auto simp: hour_reg_def reg_of_def clock_hour_def)
qed

lemma hour_told:
  assumes "h < 24"
  shows "rtc_hour b (clock_hour b h) = told_hour b h"
proof -
  let ?P = "\<lambda>b h. rtc_hour b (clock_hour b h) = told_hour b h"
  have "list_all (\<lambda>n. ?P 0 (of_nat n)) [0..<24]" "list_all (\<lambda>n. ?P 2 (of_nat n)) [0..<24]" by code_simp+
  then have "?P 0 h" "?P 2 h" using small_byte [of h 24 "?P 0"] small_byte [of h 24 "?P 2"] assms by simp_all
  moreover let ?b = "if b AND 0x02 = 0 then 0 else 2 :: u8"
  have "clock_hour b h = clock_hour ?b h" "told_hour b h = told_hour ?b h" "rtc_hour b x = rtc_hour ?b x" for x
    by (simp_all add: clock_hour_def told_hour_def rtc_hour_def)
  ultimately show ?thesis by (cases "b AND 0x02 = 0") simp_all
qed

lemma year_reg: "2000 \<le> y \<Longrightarrow> y < 2100 \<Longrightarrow> (ucast (y - 2000 :: u16) :: u8) < 100 \<and> 2000 + ucast (ucast (y - 2000) :: u8) = (y :: u16)"
  by (auto simp: word_le_nat_alt word_less_nat_alt unat_sub word_unat_eq_iff unsigned_ucast_eq take_bit_eq_mod unat_word_ariths)

lemma rtc_convert_regs:
  assumes v: "valid_time t"
  shows "rtc_convert b (regs_of b t) = t\<lparr>hour := told_hour b (hour t)\<rparr>"
proof -
  have h: "hour t < 24" "second t < 100" "minute t < 100" "day t < 100" "month t < 100" "ucast (year t - 2000) < (100 :: u8)"
    "2000 + ucast (ucast (year t - 2000) :: u8) = year t"
    using v year_reg [of "year t"] by (auto simp: valid_time_def word_less_nat_alt word_le_nat_alt)
  have b: "b AND 0x04 \<noteq> 0 \<Longrightarrow> hour_reg b (hour t) = clock_hour b (hour t)" "b AND 0x04 \<noteq> 0 \<Longrightarrow> reg_of b x = x" for x
    by (simp_all add: hour_reg_def reg_of_def clock_hour_def)
  have "rtc_binary b (regs_of b t) = \<lparr>s_second = second t, s_minute = minute t, s_hour = clock_hour b (hour t), s_day = day t, s_month = month t, s_year = ucast (year t - 2000)\<rparr>"
    by (simp add: rtc_binary_def regs_of_def b bcd_to_bin_reg hour_reg_bcd h)
  then show ?thesis using h(7) hour_told [OF h(1), of b] by (cases t) (simp add: rtc_convert_def)
qed

section \<open>A clock that ticks while it is read\<close>

text \<open>
  The chip shows the time \<open>shown k\<close> at the \<open>k\<close>-th read, in the format of its status register B. Its
  registers change all at once, the update flag never stays set for \<open>w\<close> reads in a row, and between
  two updates there is time for \<open>4 * w + 24\<close> reads.
\<close>

definition clock_chip :: "cmos \<Rightarrow> u8 \<Rightarrow> (nat \<Rightarrow> rtc_time) \<Rightarrow> nat \<Rightarrow> bool" where
  "clock_chip cmos b shown w \<longleftrightarrow>
     (\<forall>k. valid_time (shown k)) \<and>
     (\<forall>k. cmos k CMOS_REG_SECONDS = s_second (regs_of b (shown k)) \<and> cmos k CMOS_REG_MINUTES = s_minute (regs_of b (shown k)) \<and>
          cmos k CMOS_REG_HOURS = s_hour (regs_of b (shown k)) \<and> cmos k CMOS_REG_DAY = s_day (regs_of b (shown k)) \<and>
          cmos k CMOS_REG_MONTH = s_month (regs_of b (shown k)) \<and> cmos k CMOS_REG_YEAR = s_year (regs_of b (shown k)) \<and>
          cmos k CMOS_REG_STATUS_B = b) \<and>
     (\<forall>k. \<exists>j < w. cmos (k + j) CMOS_REG_STATUS_A AND 0x80 = 0) \<and>
     (\<forall>i j. i < j \<longrightarrow> shown (Suc i) \<noteq> shown i \<longrightarrow> shown (Suc j) \<noteq> shown j \<longrightarrow> i + 4 * w + 24 \<le> j)"

lemma cmos_wait_ends: "cmos (n + j) CMOS_REG_STATUS_A AND 0x80 = 0 \<Longrightarrow> \<exists>m. cmos_wait cmos n = Some m \<and> n < m \<and> m \<le> n + j + 1"
proof (induction j arbitrary: n)
  case 0
  then show ?case by (subst cmos_wait.simps) (simp add: cmos_update_in_progress_def cmos_read_def)
next
  case (Suc j)
  show ?case
  proof (cases "cmos n CMOS_REG_STATUS_A AND 0x80 = 0")
    case True
    then show ?thesis by (subst cmos_wait.simps) (simp add: cmos_update_in_progress_def cmos_read_def)
  next
    case False
    then have "cmos_wait cmos n = cmos_wait cmos (n + 1)" by (subst cmos_wait.simps) (simp add: cmos_update_in_progress_def cmos_read_def)
    then show ?thesis using Suc.IH [of "n + 1"] Suc.prems by auto
  qed
qed

lemma clock_chip_wait: "clock_chip cmos b shown w \<Longrightarrow> \<exists>m. cmos_wait cmos n = Some m \<and> n < m \<and> m \<le> n + w"
proof -
  assume "clock_chip cmos b shown w"
  then obtain j where "j < w" "cmos (n + j) CMOS_REG_STATUS_A AND 0x80 = 0" unfolding clock_chip_def by blast
  then show ?thesis using cmos_wait_ends [of cmos n j] by fastforce
qed

definition snap :: "u8 \<Rightarrow> (nat \<Rightarrow> rtc_time) \<Rightarrow> nat \<Rightarrow> cmos_snapshot" where
  "snap b shown m = \<lparr>s_second = s_second (regs_of b (shown m)), s_minute = s_minute (regs_of b (shown (m + 1))),
     s_hour = s_hour (regs_of b (shown (m + 2))), s_day = s_day (regs_of b (shown (m + 3))),
     s_month = s_month (regs_of b (shown (m + 4))), s_year = s_year (regs_of b (shown (m + 5)))\<rparr>"

lemma clock_chip_snapshot: "clock_chip cmos b shown w \<Longrightarrow> cmos_read_snapshot cmos m = (snap b shown m, m + 6)"
  by (simp add: clock_chip_def cmos_read_snapshot_def cmos_read_def snap_def eval_nat_numeral)

lemma snapshots_equal_iff: "snapshots_equal a b \<longleftrightarrow> a = b"
  by (cases a; cases b) (auto simp: snapshots_equal_def)

lemma snap_steady: "(\<And>k. m \<le> k \<Longrightarrow> k \<le> m + 5 \<Longrightarrow> shown k = t) \<Longrightarrow> snap b shown m = regs_of b t"
  by (simp add: snap_def regs_of_def)

text \<open>In a stretch of reads that is shorter than the gap between two updates the time changes at most once.\<close>

lemma steady_between:
  assumes "\<And>k. i \<le> k \<Longrightarrow> k < j \<Longrightarrow> f (Suc k) = f k" "i \<le> k" "k \<le> j"
  shows "f k = f i"
  using assms(2,3)
proof (induction rule: dec_induct)
  case (step k)
  then show ?case using assms(1) [of k] by simp
qed simp

definition ticks_at :: "nat \<Rightarrow> (nat \<Rightarrow> rtc_time) \<Rightarrow> nat \<Rightarrow> nat \<Rightarrow> bool" where
  "ticks_at u shown n N \<longleftrightarrow> (\<forall>k. n \<le> k \<longrightarrow> k \<le> u \<longrightarrow> k \<le> N \<longrightarrow> shown k = shown n) \<and> (\<forall>k. u < k \<longrightarrow> n \<le> k \<longrightarrow> k \<le> N \<longrightarrow> shown k = shown N)"

lemma one_tick:
  assumes c: "clock_chip cmos b shown w" and N: "N \<le> n + 4 * w + 24"
  obtains u where "ticks_at u shown n N"
proof (cases "\<exists>u. n \<le> u \<and> u < N \<and> shown (Suc u) \<noteq> shown u")
  case True
  then obtain u where u: "n \<le> u" "u < N" "shown (Suc u) \<noteq> shown u" by blast
  have gap: "i + 4 * w + 24 \<le> j" if "i < j" "shown (Suc i) \<noteq> shown i" "shown (Suc j) \<noteq> shown j" for i j
    using c that unfolding clock_chip_def by blast
  have other: "shown (Suc k) = shown k" if "n \<le> k" "k < N" "k \<noteq> u" for k
  proof (rule ccontr)
    assume "shown (Suc k) \<noteq> shown k"
    then have "k + 4 * w + 24 \<le> u \<or> u + 4 * w + 24 \<le> k" using gap [of k u] gap [of u k] u(3) that(3) by linarith
    then show False using that u N by linarith
  qed
  have "shown k = shown n" if "n \<le> k" "k \<le> u" for k
    by (rule steady_between [of n u]) (use other that u in auto)
  moreover have "shown k = shown (Suc u)" if "u < k" "k \<le> N" for k
    by (rule steady_between [of "Suc u" N]) (use other that u in auto)
  ultimately have "ticks_at u shown n N" unfolding ticks_at_def using u by (metis Suc_leI order_refl)
  then show ?thesis by (rule that)
next
  case False
  have "shown k = shown n" if "n \<le> k" "k \<le> N" for k
    by (rule steady_between [of n N]) (use False that in auto)
  then have "ticks_at N shown n N" unfolding ticks_at_def by (metis leD)
  then show ?thesis by (rule that)
qed

lemma snap_before: "ticks_at u shown n N \<Longrightarrow> n \<le> m \<Longrightarrow> m + 5 \<le> u \<Longrightarrow> m + 5 \<le> N \<Longrightarrow> snap b shown m = regs_of b (shown n)"
  unfolding ticks_at_def by (rule snap_steady) (meson le_trans)

lemma snap_after: "ticks_at u shown n N \<Longrightarrow> u < m \<Longrightarrow> n \<le> m \<Longrightarrow> m + 5 \<le> N \<Longrightarrow> snap b shown m = regs_of b (shown N)"
  unfolding ticks_at_def by (rule snap_steady) (meson le_trans less_le_trans)

text \<open>Two snapshots in a row that agree are not torn.\<close>

lemma agreeing_snapshots:
  assumes u: "ticks_at u shown n N" and m: "n \<le> m" "m + 6 \<le> m'" "m' + 5 \<le> N" and eq: "snap b shown m = snap b shown m'"
  shows "\<exists>k. n \<le> k \<and> k \<le> N \<and> snap b shown m = regs_of b (shown k)"
proof -
  consider "u < m" | "m \<le> u" "u < m + 5" | "m + 5 \<le> u" by linarith
  then show ?thesis
  proof cases
    case 1
    then show ?thesis using snap_after [OF u, of m b] m by (intro exI [of _ N]) simp
  next
    case 2
    then show ?thesis using snap_after [OF u, of m' b] m eq by (intro exI [of _ N]) simp
  next
    case 3
    then show ?thesis using snap_before [OF u, of m b] m by (intro exI [of _ n]) simp
  qed
qed

lemma snapshot_loop_step:
  "clock_chip cmos b shown w \<Longrightarrow> cmos_wait cmos n = Some m \<Longrightarrow>
   snapshot_loop cmos c n = (if c = snap b shown m then Some (c, m + 6) else snapshot_loop cmos (snap b shown m) (m + 6))"
  by (subst snapshot_loop.simps) (simp add: clock_chip_snapshot snapshots_equal_iff)

lemma snapshots_agree:
  assumes c: "clock_chip cmos b shown w"
  obtains m m' where "n < m" "m + 6 \<le> m'" "m' + 6 \<le> n + 4 * w + 24" "snap b shown m = snap b shown m'"
    "(case cmos_wait cmos n of None \<Rightarrow> None | Some n \<Rightarrow> let (current, n) = cmos_read_snapshot cmos n in snapshot_loop cmos current n) = Some (snap b shown m, m' + 6)"
proof -
  let ?s = "snap b shown"
  obtain m1 where m1: "cmos_wait cmos n = Some m1" "n < m1" "m1 \<le> n + w" using clock_chip_wait [OF c] by blast
  obtain m2 where m2: "cmos_wait cmos (m1 + 6) = Some m2" "m1 + 6 < m2" "m2 \<le> m1 + 6 + w" using clock_chip_wait [OF c] by blast
  obtain m3 where m3: "cmos_wait cmos (m2 + 6) = Some m3" "m2 + 6 < m3" "m3 \<le> m2 + 6 + w" using clock_chip_wait [OF c] by blast
  obtain m4 where m4: "cmos_wait cmos (m3 + 6) = Some m4" "m3 + 6 < m4" "m4 \<le> m3 + 6 + w" using clock_chip_wait [OF c] by blast
  let ?run = "case cmos_wait cmos n of None \<Rightarrow> None | Some n \<Rightarrow> let (current, n) = cmos_read_snapshot cmos n in snapshot_loop cmos current n"
  have run: "?run = (if ?s m1 = ?s m2 then Some (?s m1, m2 + 6) else if ?s m2 = ?s m3 then Some (?s m2, m3 + 6) else
      if ?s m3 = ?s m4 then Some (?s m3, m4 + 6) else snapshot_loop cmos (?s m4) (m4 + 6))"
    using m1(1) by (simp add: clock_chip_snapshot [OF c] snapshot_loop_step [OF c m2(1)] snapshot_loop_step [OF c m3(1)] snapshot_loop_step [OF c m4(1)])
  obtain u where u: "ticks_at u shown n (m4 + 5)" using one_tick [OF c, of "m4 + 5" n] m1 m2 m3 m4 by fastforce
  have late: "?s m3 = ?s m4" if "?s m1 \<noteq> ?s m2" "?s m2 \<noteq> ?s m3"
  proof -
    have "u < m3"
    proof (rule ccontr)
      assume "\<not> u < m3"
      then have "?s m1 = regs_of b (shown n)" "?s m2 = regs_of b (shown n)" using snap_before [OF u] m1 m2 m3 m4 by simp_all
      then show False using that by simp
    qed
    then have "?s m3 = regs_of b (shown (m4 + 5))" "?s m4 = regs_of b (shown (m4 + 5))" using snap_after [OF u] m1 m2 m3 m4 by simp_all
    then show ?thesis by simp
  qed
  consider "?s m1 = ?s m2" | "?s m1 \<noteq> ?s m2" "?s m2 = ?s m3" | "?s m1 \<noteq> ?s m2" "?s m2 \<noteq> ?s m3" by blast
  then show ?thesis
  proof cases
    case 1
    then show ?thesis using run m1 m2 by (intro that [of m1 m2]) simp_all
  next
    case 2
    then show ?thesis using run m1 m2 m3 by (intro that [of m2 m3]) simp_all
  next
    case 3
    then show ?thesis using run late m1 m2 m3 m4 by (intro that [of m3 m4]) simp_all
  qed
qed


definition one_oclock :: rtc_time where
  "one_oclock = \<lparr>year = 2026, month = 1, day = 31, hour = 13, minute = 0, second = 0\<rparr>"

text \<open>A BCD 12-hour clock on which the hour begins while the driver reads its minutes.\<close>

definition chime :: "nat \<Rightarrow> rtc_time" where
  "chime k = (if k < 2 then one_oclock\<lparr>hour := 12, minute := 59, second := 59\<rparr> else one_oclock)"

definition chip :: cmos where
  "chip k r =
     (let s = regs_of 0 (chime k) in
      if r = CMOS_REG_SECONDS then s_second s else if r = CMOS_REG_MINUTES then s_minute s else if r = CMOS_REG_HOURS then s_hour s
      else if r = CMOS_REG_DAY then s_day s else if r = CMOS_REG_MONTH then s_month s else if r = CMOS_REG_YEAR then s_year s else 0)"


section \<open>The date on the screen\<close>

lemma write_padded_digits:
  assumes "unat v < 10 ^ k" "0 < k" "k \<le> 9"
  shows "length (write_padded v k) = k \<and> dec_value (write_padded v k) = unat v \<and> list_all digit (write_padded v k)"
proof -
  have zeros: "dec_value (replicate n 0x30 @ s) = dec_value s" for n s by (induction n) simp_all
  have "(10 :: nat) ^ k \<le> 10 ^ 9" using assms(3) by (intro power_increasing) simp_all
  then have "\<not> sint v < 0" using assms(1) by (simp add: sint_of_nat_u32 [of "unat v", simplified])
  moreover have "dec_loop v \<noteq> [] \<or> v = 0" using dec_loop_spec [of v] by blast
  ultimately have "length (itoa v) \<le> k" "dec_value (itoa v) = unat v" "list_all digit (itoa v)"
    using dec_loop_spec [of v] dec_loop_length [OF assms(1)] assms(2) by (auto simp: itoa_def Let_def digit_def)
  then show ?thesis using zeros [of "k - length (itoa v)" "itoa v"] by (auto simp: write_padded_def Let_def digit_def list_all_iff)
qed

text \<open>
  date writes one line of 20 characters, in which year, month, day, hour, minute and second stand at
  the places of an ISO 8601 date and read back as the fields of the time.
\<close>

theorem date_prints_time:
  assumes "valid_time t"
  shows "length (date_start t) = 20 \<and> map (\<lambda>(i, n). dec_value (take n (drop i (date_start t)))) [(0, 4), (5, 2), (8, 2), (11, 2), (14, 2), (17, 2)] =
    [unat (year t), unat (month t), unat (day t), unat (hour t), unat (minute t), unat (second t)]"
proof -
  have y: "length (write_padded (ucast (year t)) 4) = 4 \<and> dec_value (write_padded (ucast (year t)) 4) = unat (year t)"
    using assms write_padded_digits [of "ucast (year t)" 4] by (simp add: valid_time_def word_less_nat_alt word_nat)
  have f: "length (write_padded (ucast x) 2) = 2 \<and> dec_value (write_padded (ucast x) 2) = unat x" if "x < 100" for x :: u8
    using that write_padded_digits [of "ucast x" 2] by (simp add: word_less_nat_alt word_nat)
  have "month t < 100" "day t < 100" "hour t < 100" "minute t < 100" "second t < 100"
    using assms by (auto simp: valid_time_def word_less_nat_alt word_le_nat_alt)
  from this [THEN f] y show ?thesis by (simp add: date_start_def cstr_def)
qed

end
