(* ===== verification/Gui.thy ===== *)
theory Gui
  imports Console Rtc
begin

unbundle bit_operations_syntax

text \<open>
  The desktop: src/userspace/gui.c. The lines that the program builds in its char arrays are byte lists;
  that each of them fits its array is a theorem. The directory listing, the clock and the mouse packets
  come from system calls and are parameters: \<open>ls dir i\<close> is the \<open>i\<close>-th entry of a directory, \<open>None\<close> behind
  the last one. What the program asks the kernel to run is part of the result of a round; what the program
  that is run leaves on the screen is any screen \<open>d\<close> at the start of the next round of \<open>gui_runs\<close>.
\<close>

section \<open>State\<close>

record entry =
  name :: bytes
  is_dir :: bool

record gui =
  entries :: "entry list"
  current_dir :: bytes
  row_at :: int
  col_at :: int
  prev_left :: int
  home_start :: int
  home_end :: int
  terminal_start :: int
  terminal_end :: int
  refresh_start :: int
  refresh_end :: int
  desk :: terminal

definition ATTR_NORMAL :: u8 where "ATTR_NORMAL = 0x0F"
definition ATTR_INVERT :: u8 where "ATTR_INVERT = 0xF0"
definition CH_TL :: u8 where "CH_TL = 0xDA"
definition CH_TR :: u8 where "CH_TR = 0xBF"
definition CH_BL :: u8 where "CH_BL = 0xC0"
definition CH_BR :: u8 where "CH_BR = 0xD9"
definition CH_H :: u8 where "CH_H = 0xC4"
definition CH_V :: u8 where "CH_V = 0xB3"
definition CH_ML :: u8 where "CH_ML = 0xC3"
definition CH_MR :: u8 where "CH_MR = 0xB4"
definition TITLE_ROW :: nat where "TITLE_ROW = 1"
definition CONTENT_TOP :: nat where "CONTENT_TOP = 3"
definition CONTENT_BOTTOM :: nat where "CONTENT_BOTTOM = 20"
definition DIVIDER2_ROW :: nat where "DIVIDER2_ROW = 21"
definition TASKBAR_ROW :: nat where "TASKBAR_ROW = 22"
definition HINT_ROW :: nat where "HINT_ROW = 23"
definition MAX_ENTRIES :: nat where "MAX_ENTRIES = CONTENT_BOTTOM - CONTENT_TOP + 1"
definition HOME_LABEL :: bytes where "HOME_LABEL = cstr '' [Home]''"
definition TERMINAL_LABEL :: bytes where "TERMINAL_LABEL = cstr ''Terminal''"
definition REFRESH_LABEL :: bytes where "REFRESH_LABEL = cstr ''Refresh''"

lemmas row_defs = TITLE_ROW_def CONTENT_TOP_def CONTENT_BOTTOM_def DIVIDER2_ROW_def TASKBAR_ROW_def HINT_ROW_def MAX_ENTRIES_def

section \<open>Drawing\<close>

definition to_lower_char :: "u8 \<Rightarrow> u8" where
  "to_lower_char c = (if 0x41 \<le> c \<and> c \<le> 0x5A then c - 0x41 + 0x61 else c)"

definition is_elf_name :: "bytes \<Rightarrow> bool" where
  "is_elf_name s =
     (let len = length s in
      if len < 4 then False
      else to_lower_char (s ! (len - 4)) = 0x2E \<and> to_lower_char (s ! (len - 3)) = 0x65 \<and>
           to_lower_char (s ! (len - 2)) = 0x6C \<and> to_lower_char (s ! (len - 1)) = 0x66)"

definition draw_text :: "int \<Rightarrow> int \<Rightarrow> bytes \<Rightarrow> u8 \<Rightarrow> gui \<Rightarrow> gui" where
  "draw_text row col str attr g = g\<lparr>desk := terminal_draw_text (desk g) row col str attr\<rparr>"

definition border_line :: "u8 \<Rightarrow> u8 \<Rightarrow> u8 \<Rightarrow> bytes" where
  "border_line left fill right = left # replicate (VGA_WIDTH - 2) fill @ [right]"

definition draw_border_row :: "nat \<Rightarrow> u8 \<Rightarrow> u8 \<Rightarrow> u8 \<Rightarrow> gui \<Rightarrow> gui" where
  "draw_border_row row left fill right = draw_text (int row) 0 (border_line left fill right) ATTR_NORMAL"

definition content_line :: "bytes \<Rightarrow> bytes" where
  "content_line str = (let s = take (VGA_WIDTH - 2) str in CH_V # s @ replicate (VGA_WIDTH - 2 - length s) 0x20 @ [CH_V])"

definition draw_content_row :: "nat \<Rightarrow> bytes \<Rightarrow> u8 \<Rightarrow> gui \<Rightarrow> gui" where
  "draw_content_row row str attr = draw_text (int row) 0 (content_line str) attr"

text \<open>The listing: at most \<open>MAX_ENTRIES\<close> entries, names cut to 63 characters.\<close>

fun refresh_loop :: "(nat \<Rightarrow> (bytes \<times> bool) option) \<Rightarrow> nat \<Rightarrow> nat \<Rightarrow> entry list" where
  "refresh_loop l index 0 = []"
| "refresh_loop l index (Suc n) =
     (case l index of
        None \<Rightarrow> []
      | Some (s, d) \<Rightarrow> \<lparr>name = take 63 s, is_dir = d\<rparr> # refresh_loop l (index + 1) n)"

definition refresh_entries :: "(bytes \<Rightarrow> nat \<Rightarrow> (bytes \<times> bool) option) \<Rightarrow> gui \<Rightarrow> gui" where
  "refresh_entries ls g = g\<lparr>entries := refresh_loop (ls (current_dir g)) 0 MAX_ENTRIES\<rparr>"

definition entry_line :: "entry \<Rightarrow> bytes" where
  "entry_line e = (if is_dir e then cstr ''[DIR] '' else cstr ''      '') @ name e"

definition two_digits :: "u32 \<Rightarrow> bytes" where
  "two_digits v = (let num = itoa v in (if length num < 2 then [0x30] else []) @ num)"

definition clock_str :: "rtc_time \<Rightarrow> bytes" where
  "clock_str t = two_digits (ucast (hour t)) @ [0x3A] @ two_digits (ucast (minute t))"

definition title_line :: "rtc_time \<Rightarrow> bytes" where
  "title_line t =
     (let line = cstr '' HAROLD'';
          pad_target = VGA_WIDTH - 2 - length (clock_str t) - 1
      in line @ replicate (pad_target - length line) 0x20 @ clock_str t)"

definition draw_title_bar :: "rtc_time \<Rightarrow> gui \<Rightarrow> gui" where
  "draw_title_bar t = draw_content_row TITLE_ROW (title_line t) ATTR_NORMAL"

definition draw_taskbar :: "gui \<Rightarrow> gui" where
  "draw_taskbar g =
     (let line = [];
          g = g\<lparr>home_start := 1 + int (length line)\<rparr>;
          line = line @ HOME_LABEL;
          g = g\<lparr>home_end := home_start g + int (length HOME_LABEL) - 1\<rparr>;
          line = line @ cstr ''   '';
          g = g\<lparr>terminal_start := 1 + int (length line)\<rparr>;
          line = line @ TERMINAL_LABEL;
          g = g\<lparr>terminal_end := terminal_start g + int (length TERMINAL_LABEL) - 1\<rparr>;
          line = line @ cstr ''   '';
          g = g\<lparr>refresh_start := 1 + int (length line)\<rparr>;
          line = line @ REFRESH_LABEL;
          g = g\<lparr>refresh_end := refresh_start g + int (length REFRESH_LABEL) - 1\<rparr>
      in draw_content_row TASKBAR_ROW line ATTR_NORMAL g)"

definition hint_text :: "gui \<Rightarrow> bytes" where
  "hint_text g = (if current_dir g = [] then cstr '' Click a folder to open it, a .elf to run it, or a file to edit it.''
                  else cstr '' Inside a folder -- click Home to go back to the root.'')"

definition draw_entry :: "nat \<Rightarrow> gui \<Rightarrow> gui" where
  "draw_entry row g = (let idx = row - CONTENT_TOP in
     if idx < length (entries g) then draw_content_row row (entry_line (entries g ! idx)) ATTR_NORMAL g else draw_content_row row [] ATTR_NORMAL g)"

definition redraw_desktop :: "rtc_time \<Rightarrow> gui \<Rightarrow> gui" where
  "redraw_desktop t g =
     (let g = draw_border_row 0 CH_TL CH_H CH_TR g;
          g = draw_title_bar t g;
          g = draw_border_row 2 CH_ML CH_H CH_MR g;
          g = fold draw_entry [CONTENT_TOP..<Suc CONTENT_BOTTOM] g;
          g = draw_border_row DIVIDER2_ROW CH_ML CH_H CH_MR g;
          g = draw_taskbar g;
          g = draw_content_row HINT_ROW (hint_text g) ATTR_NORMAL g
      in draw_border_row 24 CH_BL CH_H CH_BR g)"

definition hit_test_content_row :: "gui \<Rightarrow> int \<Rightarrow> int" where
  "hit_test_content_row g row =
     (if row < int CONTENT_TOP \<or> int CONTENT_BOTTOM < row then -1
      else let idx = row - int CONTENT_TOP in if int (length (entries g)) \<le> idx then -1 else idx)"

definition apply_hover_and_cursor :: "gui \<Rightarrow> gui" where
  "apply_hover_and_cursor g =
     (let hovered = hit_test_content_row g (row_at g);
          g = (if 0 \<le> hovered then draw_content_row (nat (row_at g)) (entry_line (entries g ! nat hovered)) ATTR_INVERT g
               else if row_at g = int TASKBAR_ROW then
                 if home_start g \<le> col_at g \<and> col_at g \<le> home_end g then draw_text (int TASKBAR_ROW) (home_start g) HOME_LABEL ATTR_INVERT g
                 else if terminal_start g \<le> col_at g \<and> col_at g \<le> terminal_end g then draw_text (int TASKBAR_ROW) (terminal_start g) TERMINAL_LABEL ATTR_INVERT g
                 else if refresh_start g \<le> col_at g \<and> col_at g \<le> refresh_end g then draw_text (int TASKBAR_ROW) (refresh_start g) REFRESH_LABEL ATTR_INVERT g
                 else g
               else g)
      in draw_text (row_at g) (col_at g) [0x2A] ATTR_INVERT g)"

section \<open>Clicks\<close>

datatype gui_action = Stay | Run "bytes list" | Exit

definition full_path :: "gui \<Rightarrow> entry \<Rightarrow> bytes" where
  "full_path g e = (if current_dir g \<noteq> [] then current_dir g @ [0x2F] else []) @ name e"

definition clean_exit :: "gui \<Rightarrow> gui" where
  "clean_exit g = g\<lparr>desk := terminal_writestring (desk g) (replicate VGA_HEIGHT 0x0A)\<rparr>"

text \<open>\<open>ls\<close> is the listing when the entries are read again, after the program that was run.\<close>

definition handle_click :: "(bytes \<Rightarrow> nat \<Rightarrow> (bytes \<times> bool) option) \<Rightarrow> gui \<Rightarrow> gui_action \<times> gui" where
  "handle_click ls g =
     (let hovered = hit_test_content_row g (row_at g) in
      if 0 \<le> hovered then
        let e = entries g ! nat hovered; path = full_path g e in
        if is_dir e then (Stay, refresh_entries ls (g\<lparr>current_dir := take 63 path\<rparr>))
        else if is_elf_name (name e) then (Run [path], refresh_entries ls g)
        else (Run [cstr ''edit.elf'', path], refresh_entries ls g)
      else if row_at g = int TASKBAR_ROW then
        if home_start g \<le> col_at g \<and> col_at g \<le> home_end g then (Stay, refresh_entries ls (g\<lparr>current_dir := []\<rparr>))
        else if terminal_start g \<le> col_at g \<and> col_at g \<le> terminal_end g then (Exit, clean_exit g)
        else if refresh_start g \<le> col_at g \<and> col_at g \<le> refresh_end g then (Stay, refresh_entries ls g)
        else (Stay, g)
      else (Stay, g))"

definition gui_move :: "mouse_packet \<Rightarrow> gui \<Rightarrow> gui" where
  "gui_move p g =
     (let c = col_at g + dx p; r = row_at g - dy p;
          c = (if c < 0 then 0 else c); c = (if int VGA_WIDTH \<le> c then int VGA_WIDTH - 1 else c);
          r = (if r < 0 then 0 else r); r = (if int VGA_HEIGHT \<le> r then int VGA_HEIGHT - 1 else r)
      in g\<lparr>col_at := c, row_at := r\<rparr>)"

text \<open>The start of the program and one round of its loop.\<close>

definition gui_start :: "(bytes \<Rightarrow> nat \<Rightarrow> (bytes \<times> bool) option) \<Rightarrow> rtc_time \<Rightarrow> gui \<Rightarrow> gui" where
  "gui_start ls t g = apply_hover_and_cursor (redraw_desktop t (refresh_entries ls g))"

definition gui_round :: "(bytes \<Rightarrow> nat \<Rightarrow> (bytes \<times> bool) option) \<Rightarrow> rtc_time \<Rightarrow> mouse_packet \<Rightarrow> gui \<Rightarrow> gui_action \<times> gui" where
  "gui_round ls t p g =
     (let g = gui_move p g;
          clicked = left_button p \<noteq> 0 \<and> prev_left g = 0;
          g = g\<lparr>prev_left := left_button p\<rparr>;
          (act, g) = (if clicked then handle_click ls g else (Stay, g))
      in if act = Exit then (Exit, g) else (act, apply_hover_and_cursor (redraw_desktop t g)))"

section \<open>What the screen shows\<close>

definition cell :: "u8 \<Rightarrow> u8 \<Rightarrow> u16" where
  "cell x attr = ucast x OR push_bit 8 (ucast attr)"

definition taskbar_text :: bytes where
  "taskbar_text = HOME_LABEL @ cstr ''   '' @ TERMINAL_LABEL @ cstr ''   '' @ REFRESH_LABEL"

text \<open>The line in each of the 25 rows.\<close>

definition line_of :: "rtc_time \<Rightarrow> gui \<Rightarrow> nat \<Rightarrow> bytes" where
  "line_of t g r =
     (if r = 0 then border_line CH_TL CH_H CH_TR
      else if r = 1 then content_line (title_line t)
      else if r = 2 \<or> r = 21 then border_line CH_ML CH_H CH_MR
      else if r < 21 then content_line (if r - 3 < length (entries g) then entry_line (entries g ! (r - 3)) else [])
      else if r = 22 then content_line taskbar_text
      else if r = 23 then content_line (hint_text g)
      else border_line CH_BL CH_H CH_BR)"

definition paint :: "nat \<Rightarrow> bytes \<Rightarrow> u8 \<Rightarrow> (nat \<Rightarrow> u16) \<Rightarrow> (nat \<Rightarrow> u16)" where
  "paint row str attr vm = (\<lambda>i. if i div 80 = row then cell (str ! (i mod 80)) attr else vm i)"

definition painted :: "(nat \<Rightarrow> u16) \<Rightarrow> gui \<Rightarrow> gui" where
  "painted vm g = g\<lparr>desk := (desk g)\<lparr>video_memory := vm\<rparr>\<rparr>"

lemma painted_simps [simp]:
  "video_memory (desk (painted vm g)) = vm" "painted vm (painted vm' g) = painted vm g" "entries (painted vm g) = entries g"
  "current_dir (painted vm g) = current_dir g" "row_at (painted vm g) = row_at g" "col_at (painted vm g) = col_at g"
  "home_start (painted vm g) = home_start g" "home_end (painted vm g) = home_end g" "terminal_start (painted vm g) = terminal_start g"
  "terminal_end (painted vm g) = terminal_end g" "refresh_start (painted vm g) = refresh_start g" "refresh_end (painted vm g) = refresh_end g"
  "prev_left (painted vm g) = prev_left g"
  by (simp_all add: painted_def)

lemma line_lengths [simp]: "length (border_line a b c) = 80" "length (content_line str) = 80"
  by (simp_all add: border_line_def content_line_def Let_def VGA_WIDTH_def)

lemma draw_line:
  assumes "row < 25" "length str = 80"
  shows "draw_text (int row) 0 str attr g = painted (paint row str attr (video_memory (desk g))) g"
proof -
  have "(if 0 \<le> int row \<and> int row < 25 \<and> i div 80 = nat (int row) \<and> (0 :: int) \<le> int (i mod 80) \<and> int (i mod 80) < 0 + int (length str)
      then ucast (str ! nat (int (i mod 80) - 0)) OR push_bit 8 (ucast attr) else vm i) = paint row str attr vm i" for i and vm :: "nat \<Rightarrow> u16"
    using assms by (simp add: paint_def cell_def)
  then show ?thesis by (simp add: draw_text_def draw_text_clips painted_def)
qed

lemma draw_rows:
  "row < 25 \<Longrightarrow> draw_content_row row str attr g = painted (paint row (content_line str) attr (video_memory (desk g))) g"
  "row < 25 \<Longrightarrow> draw_border_row row a b c g = painted (paint row (border_line a b c) ATTR_NORMAL (video_memory (desk g))) g"
  by (simp_all add: draw_content_row_def draw_border_row_def draw_line)

lemma paint_entry:
  assumes "3 \<le> n"
  shows "paint n (ln n) a (\<lambda>i. if 3 \<le> i div 80 \<and> i div 80 < n then cell (ln (i div 80) ! (i mod 80)) a else vm i) =
    (\<lambda>i. if 3 \<le> i div 80 \<and> i div 80 < Suc n then cell (ln (i div 80) ! (i mod 80)) a else vm i)"
proof (rule ext)
  fix i :: nat
  obtain r c where rc: "i div 80 = r" "i mod 80 = c" by blast
  show "paint n (ln n) a (\<lambda>i. if 3 \<le> i div 80 \<and> i div 80 < n then cell (ln (i div 80) ! (i mod 80)) a else vm i) i =
    (if 3 \<le> i div 80 \<and> i div 80 < Suc n then cell (ln (i div 80) ! (i mod 80)) a else vm i)"
    unfolding paint_def rc using assms by auto
qed

definition list_line :: "gui \<Rightarrow> nat \<Rightarrow> bytes" where
  "list_line g r = content_line (if r - 3 < length (entries g) then entry_line (entries g ! (r - 3)) else [])"

lemma list_line_painted: "list_line (painted vm g) = list_line g"
  by (simp add: list_line_def fun_eq_iff)

lemma draw_entry_eq: "row < 25 \<Longrightarrow> draw_entry row g = painted (paint row (list_line g row) ATTR_NORMAL (video_memory (desk g))) g"
  by (simp add: draw_entry_def Let_def draw_rows CONTENT_TOP_def list_line_def)

lemma draw_entries:
  "n \<le> 21 \<Longrightarrow> fold draw_entry [3..<n] g =
     painted (\<lambda>i. if 3 \<le> i div 80 \<and> i div 80 < n then cell (list_line g (i div 80) ! (i mod 80)) ATTR_NORMAL else video_memory (desk g) i) g"
proof (induction n)
  case (Suc n)
  show ?case
  proof (cases "n < 3")
    case True
    have none: "(3 \<le> i div 80 \<and> i div 80 < Suc n) = False" for i :: nat using True by auto
    show ?thesis unfolding none using True by (simp add: painted_def)
  next
    case False
    have "fold draw_entry [3..<Suc n] g = draw_entry n (fold draw_entry [3..<n] g)" using False by simp
    then show ?thesis using Suc False paint_entry [of n "list_line g"] by (simp add: draw_entry_eq list_line_painted split del: if_split)
  qed
qed (simp add: painted_def)

definition with_buttons :: "gui \<Rightarrow> gui" where
  "with_buttons g = g\<lparr>home_start := 1, home_end := 7, terminal_start := 11, terminal_end := 18, refresh_start := 22, refresh_end := 28\<rparr>"

lemma with_buttons_simps [simp]:
  "video_memory (desk (with_buttons g)) = video_memory (desk g)" "entries (with_buttons g) = entries g"
  "current_dir (with_buttons g) = current_dir g" "row_at (with_buttons g) = row_at g" "col_at (with_buttons g) = col_at g" "prev_left (with_buttons g) = prev_left g"
  by (simp_all add: with_buttons_def)

lemma draw_taskbar_eq:
  "draw_taskbar g = painted (paint 22 (content_line taskbar_text) ATTR_NORMAL (video_memory (desk g))) (with_buttons g)"
proof -
  have "draw_taskbar g = draw_content_row 22 taskbar_text ATTR_NORMAL (with_buttons g)"
    by (simp add: draw_taskbar_def Let_def with_buttons_def taskbar_text_def HOME_LABEL_def TERMINAL_LABEL_def REFRESH_LABEL_def cstr_def TASKBAR_ROW_def)
  then show ?thesis by (simp add: draw_rows)
qed

lemma rows_cases:
  obtains "r = 0" | "r = 1" | "r = 2" | "3 \<le> r" "r < 21" | "r = 21" | "r = 22" | "r = 23" | "r = 24" | "25 \<le> (r :: nat)"
  by linarith

lemma redraw_eq:
  "redraw_desktop t g = painted (\<lambda>i. if i div 80 < 25 then cell (line_of t g (i div 80) ! (i mod 80)) ATTR_NORMAL else video_memory (desk g) i) (with_buttons g)"
proof -
  have b: "with_buttons (painted vm g) = painted vm (with_buttons g)" for vm by (simp add: with_buttons_def painted_def)
  have h: "hint_text (painted vm (with_buttons g)) = hint_text g" for vm by (simp add: hint_text_def)
  have u: "[CONTENT_TOP..<Suc CONTENT_BOTTOM] = [3..<21]" by (simp add: row_defs)
  have "redraw_desktop t g = painted (paint 24 (border_line CH_BL CH_H CH_BR) ATTR_NORMAL (paint 23 (content_line (hint_text g)) ATTR_NORMAL
      (paint 22 (content_line taskbar_text) ATTR_NORMAL (paint 21 (border_line CH_ML CH_H CH_MR) ATTR_NORMAL
      (\<lambda>i. if 3 \<le> i div 80 \<and> i div 80 < 21
       then cell (list_line g (i div 80) ! (i mod 80)) ATTR_NORMAL
       else paint 2 (border_line CH_ML CH_H CH_MR) ATTR_NORMAL (paint 1 (content_line (title_line t)) ATTR_NORMAL
            (paint 0 (border_line CH_TL CH_H CH_TR) ATTR_NORMAL (video_memory (desk g)))) i))))) (with_buttons g)"
    unfolding redraw_desktop_def Let_def u draw_title_bar_def TITLE_ROW_def DIVIDER2_ROW_def HINT_ROW_def draw_entries [OF order_refl]
    by (simp add: draw_rows list_line_painted draw_taskbar_eq b h cong: if_cong split del: if_split)
  also have "\<dots> = painted (\<lambda>i. if i div 80 < 25 then cell (line_of t g (i div 80) ! (i mod 80)) ATTR_NORMAL else video_memory (desk g) i) (with_buttons g)"
  proof -
    show ?thesis
    proof (intro arg_cong [of _ _ "\<lambda>v. painted v (with_buttons g)"] ext)
      fix i :: nat
      obtain r c where rc: "i div 80 = r" "i mod 80 = c" by blast
      show "paint 24 (border_line CH_BL CH_H CH_BR) ATTR_NORMAL (paint 23 (content_line (hint_text g)) ATTR_NORMAL
        (paint 22 (content_line taskbar_text) ATTR_NORMAL (paint 21 (border_line CH_ML CH_H CH_MR) ATTR_NORMAL
        (\<lambda>i. if 3 \<le> i div 80 \<and> i div 80 < 21
         then cell (list_line g (i div 80) ! (i mod 80)) ATTR_NORMAL
         else paint 2 (border_line CH_ML CH_H CH_MR) ATTR_NORMAL (paint 1 (content_line (title_line t)) ATTR_NORMAL
              (paint 0 (border_line CH_TL CH_H CH_TR) ATTR_NORMAL (video_memory (desk g)))) i)))) i =
        (if i div 80 < 25 then cell (line_of t g (i div 80) ! (i mod 80)) ATTR_NORMAL else video_memory (desk g) i)"
        unfolding paint_def rc by (rule rows_cases [of r]) (simp_all add: line_of_def list_line_def)
    qed
  qed
  finally show ?thesis .
qed

section \<open>Pointing and clicking\<close>

text \<open>Names and paths fit the arrays of the program, and the cursor is on the screen.\<close>

definition gui_ok :: "gui \<Rightarrow> bool" where
  "gui_ok g \<longleftrightarrow> 0 \<le> row_at g \<and> row_at g < 25 \<and> 0 \<le> col_at g \<and> col_at g < 80 \<and> length (entries g) \<le> 18 \<and>
     (\<forall>e \<in> set (entries g). length (name e) \<le> 63) \<and> length (current_dir g) \<le> 63"

definition button :: "gui \<Rightarrow> nat" where
  "button g = (if row_at g \<noteq> 22 then 0 else if 1 \<le> col_at g \<and> col_at g \<le> 7 then 1
     else if 11 \<le> col_at g \<and> col_at g \<le> 18 then 2 else if 22 \<le> col_at g \<and> col_at g \<le> 28 then 3 else 0)"

definition entry_under :: "gui \<Rightarrow> nat option" where
  "entry_under g = (if 3 \<le> row_at g \<and> row_at g < 3 + int (length (entries g)) \<and> row_at g \<le> 20 then Some (nat (row_at g) - 3) else None)"

text \<open>The cells that are shown inverted: the entry under the cursor, or the button.\<close>

definition hot :: "gui \<Rightarrow> nat \<Rightarrow> nat \<Rightarrow> bool" where
  "hot g r c \<longleftrightarrow> int r = row_at g \<and>
     (entry_under g \<noteq> None \<or> button g = 1 \<and> 1 \<le> c \<and> c \<le> 7 \<or> button g = 2 \<and> 11 \<le> c \<and> c \<le> 18 \<or> button g = 3 \<and> 22 \<le> c \<and> c \<le> 28)"

lemma button_cases: "button g = 0 \<or> button g = 1 \<or> button g = 2 \<or> button g = 3"
  by (simp add: button_def)

lemma button_ranges:
  "button g = 1 \<Longrightarrow> 1 \<le> col_at g \<and> col_at g \<le> 7" "button g = 2 \<Longrightarrow> 11 \<le> col_at g \<and> col_at g \<le> 18"
  "button g = 3 \<Longrightarrow> 22 \<le> col_at g \<and> col_at g \<le> 28"
  "button g = 0 \<Longrightarrow> row_at g = 22 \<Longrightarrow> \<not> (1 \<le> col_at g \<and> col_at g \<le> 7) \<and> \<not> (11 \<le> col_at g \<and> col_at g \<le> 18) \<and> \<not> (22 \<le> col_at g \<and> col_at g \<le> 28)"
  by (auto simp: button_def split: if_splits)

lemma hit_test_entry: "hit_test_content_row g (row_at g) = (case entry_under g of None \<Rightarrow> -1 | Some i \<Rightarrow> int i)"
  by (auto simp: hit_test_content_row_def entry_under_def row_defs Let_def)

text \<open>A label drawn over its own place in the task bar.\<close>

definition relabel :: "nat \<Rightarrow> nat \<Rightarrow> (nat \<Rightarrow> u16) \<Rightarrow> (nat \<Rightarrow> u16)" where
  "relabel a b vm = (\<lambda>i. if i div 80 = 22 \<and> a \<le> i mod 80 \<and> i mod 80 \<le> b then cell (content_line taskbar_text ! (i mod 80)) ATTR_INVERT else vm i)"

lemma draw_label:
  assumes "length str = Suc b - a" "a \<le> b" "b < 80" "\<And>c. a \<le> c \<Longrightarrow> c \<le> b \<Longrightarrow> str ! (c - a) = content_line taskbar_text ! c"
  shows "draw_text 22 (int a) str ATTR_INVERT g = painted (relabel a b (video_memory (desk g))) g"
proof -
  have "(if 0 \<le> (22 :: int) \<and> (22 :: int) < 25 \<and> i div 80 = nat 22 \<and> int a \<le> int (i mod 80) \<and> int (i mod 80) < int a + int (length str)
      then ucast (str ! nat (int (i mod 80) - int a)) OR push_bit 8 (ucast ATTR_INVERT) else vm i) = relabel a b vm i" for i and vm :: "nat \<Rightarrow> u16"
  proof -
    obtain r c where rc: "i div 80 = r" "i mod 80 = c" by blast
    have "int c < int a + int (length str) \<longleftrightarrow> c \<le> b" using assms(1,2) by auto
    moreover have "nat (int c - int a) = c - a" by simp
    ultimately show ?thesis unfolding relabel_def rc cell_def using assms(4) [of c] by auto
  qed
  then show ?thesis by (simp add: draw_text_def draw_text_clips painted_def)
qed

lemma taskbar_labels:
  "1 \<le> c \<Longrightarrow> c \<le> 7 \<Longrightarrow> HOME_LABEL ! (c - 1) = content_line taskbar_text ! c"
  "11 \<le> c \<Longrightarrow> c \<le> 18 \<Longrightarrow> TERMINAL_LABEL ! (c - 11) = content_line taskbar_text ! c"
  "22 \<le> c \<Longrightarrow> c \<le> 28 \<Longrightarrow> REFRESH_LABEL ! (c - 22) = content_line taskbar_text ! c"
proof -
  have t: "length taskbar_text = 28" "length HOME_LABEL = 7" "length TERMINAL_LABEL = 8" "length REFRESH_LABEL = 7"
    by (simp_all add: taskbar_text_def HOME_LABEL_def TERMINAL_LABEL_def REFRESH_LABEL_def cstr_def)
  have c: "content_line taskbar_text ! c = taskbar_text ! (c - 1)" if "1 \<le> c" "c \<le> 28" for c
    using that t by (auto simp: content_line_def VGA_WIDTH_def Let_def nth_Cons' nth_append)
  show "1 \<le> c \<Longrightarrow> c \<le> 7 \<Longrightarrow> HOME_LABEL ! (c - 1) = content_line taskbar_text ! c"
    using c [of c] t by (auto simp: taskbar_text_def nth_append)
  show "11 \<le> c \<Longrightarrow> c \<le> 18 \<Longrightarrow> TERMINAL_LABEL ! (c - 11) = content_line taskbar_text ! c"
    using c [of c] t by (auto simp: taskbar_text_def nth_append cstr_def)
  show "22 \<le> c \<Longrightarrow> c \<le> 28 \<Longrightarrow> REFRESH_LABEL ! (c - 22) = content_line taskbar_text ! c"
    using c [of c] t by (auto simp: taskbar_text_def nth_append cstr_def)
qed

lemma draw_cursor:
  assumes "gui_ok g"
  shows "draw_text (row_at g) (col_at g) [x] a g' = painted (\<lambda>i. if int (i div 80) = row_at g \<and> int (i mod 80) = col_at g then cell x a else video_memory (desk g') i) g'"
proof -
  have rc: "0 \<le> row_at g" "row_at g < 25" using assms by (simp_all add: gui_ok_def)
  have "(if 0 \<le> row_at g \<and> row_at g < 25 \<and> i div 80 = nat (row_at g) \<and> col_at g \<le> int (i mod 80) \<and> int (i mod 80) < col_at g + int (length [x])
      then ucast ([x] ! nat (int (i mod 80) - col_at g)) OR push_bit 8 (ucast a) else vm i) =
      (if int (i div 80) = row_at g \<and> int (i mod 80) = col_at g then cell x a else vm i)" for i and vm :: "nat \<Rightarrow> u16"
  proof -
    obtain r c where "i div 80 = r" "i mod 80 = c" by blast
    then show ?thesis using rc by (auto simp: cell_def)
  qed
  then show ?thesis by (simp add: draw_text_def draw_text_clips painted_def)
qed

text \<open>The video memory after the highlight and before the cursor.\<close>

definition highlit :: "rtc_time \<Rightarrow> gui \<Rightarrow> nat \<Rightarrow> u16" where
  "highlit t g i = (if i div 80 < 25 then cell (line_of t g (i div 80) ! (i mod 80)) (if hot g (i div 80) (i mod 80) then ATTR_INVERT else ATTR_NORMAL)
     else video_memory (desk g) i)"

lemma no_highlit:
  assumes "entry_under g = None" "button g = 0"
  shows "(\<lambda>i. if i div 80 < 25 then cell (line_of t g (i div 80) ! (i mod 80)) ATTR_NORMAL else video_memory (desk g) i) = highlit t g"
  using assms by (auto simp: highlit_def hot_def fun_eq_iff)

lemma paint_row_highlit:
  assumes "row_at g = int i + 3" "entry_under g = Some j" "i < 18"
  shows "paint (i + 3) (line_of t g (i + 3)) ATTR_INVERT
    (\<lambda>k. if k div 80 < 25 then cell (line_of t g (k div 80) ! (k mod 80)) ATTR_NORMAL else video_memory (desk g) k) = highlit t g"
proof (rule ext)
  fix k :: nat
  obtain r c where rc: "k div 80 = r" "k mod 80 = c" by blast
  have "hot g r c \<longleftrightarrow> r = i + 3" using assms by (auto simp: hot_def button_def)
  then show "paint (i + 3) (line_of t g (i + 3)) ATTR_INVERT
    (\<lambda>k. if k div 80 < 25 then cell (line_of t g (k div 80) ! (k mod 80)) ATTR_NORMAL else video_memory (desk g) k) k = highlit t g k"
    unfolding paint_def highlit_def rc using assms(3) by simp
qed

lemma relabel_highlit:
  assumes "entry_under g = None" "row_at g = 22" "button g = n" "(n, a, b) \<in> {(1, 1, 7), (2, 11, 18), (3, 22, 28)}"
  shows "relabel a b (\<lambda>k. if k div 80 < 25 then cell (line_of t g (k div 80) ! (k mod 80)) ATTR_NORMAL else video_memory (desk g) k) = highlit t g"
proof (rule ext)
  fix k :: nat
  obtain r c where rc: "k div 80 = r" "k mod 80 = c" by blast
  have "hot g r c \<longleftrightarrow> r = 22 \<and> a \<le> c \<and> c \<le> b" using assms by (auto simp: hot_def)
  then show "relabel a b (\<lambda>k. if k div 80 < 25 then cell (line_of t g (k div 80) ! (k mod 80)) ATTR_NORMAL else video_memory (desk g) k) k = highlit t g k"
    unfolding relabel_def highlit_def rc by (simp add: line_of_def)
qed

lemma hover_eq:
  assumes ok: "gui_ok g"
  shows "apply_hover_and_cursor (redraw_desktop t g) =
    painted (\<lambda>i. if int (i div 80) = row_at g \<and> int (i mod 80) = col_at g then cell 0x2A ATTR_INVERT else highlit t g i) (with_buttons g)"
proof -
  let ?D = "redraw_desktop t g" and ?vm = "\<lambda>i. if i div 80 < 25 then cell (line_of t g (i div 80) ! (i mod 80)) ATTR_NORMAL else video_memory (desk g) i"
  have D: "?D = painted ?vm (with_buttons g)" by (rule redraw_eq)
  have same: "entry_under ?D = entry_under g" "row_at ?D = row_at g" "col_at ?D = col_at g" "entries ?D = entries g"
    unfolding D by (simp_all add: entry_under_def)
  have b: "home_start ?D = 1" "home_end ?D = 7" "terminal_start ?D = 11" "terminal_end ?D = 18" "refresh_start ?D = 22" "refresh_end ?D = 28"
    unfolding D by (simp_all add: with_buttons_def)
  have hl: "painted (f ?vm) (with_buttons g) = painted (highlit t g) (with_buttons g)" if "f ?vm = highlit t g" for f using that by simp
  have mid: "(if 0 \<le> hit_test_content_row ?D (row_at ?D) then draw_content_row (nat (row_at ?D)) (entry_line (entries ?D ! nat (hit_test_content_row ?D (row_at ?D)))) ATTR_INVERT ?D
       else if row_at ?D = int TASKBAR_ROW then
         if home_start ?D \<le> col_at ?D \<and> col_at ?D \<le> home_end ?D then draw_text (int TASKBAR_ROW) (home_start ?D) HOME_LABEL ATTR_INVERT ?D
         else if terminal_start ?D \<le> col_at ?D \<and> col_at ?D \<le> terminal_end ?D then draw_text (int TASKBAR_ROW) (terminal_start ?D) TERMINAL_LABEL ATTR_INVERT ?D
         else if refresh_start ?D \<le> col_at ?D \<and> col_at ?D \<le> refresh_end ?D then draw_text (int TASKBAR_ROW) (refresh_start ?D) REFRESH_LABEL ATTR_INVERT ?D
         else ?D
       else ?D) = painted (highlit t g) (with_buttons g)" (is "?M = _")
  proof (cases "entry_under g")
    case (Some i)
    then have i: "row_at g = int i + 3" "i < length (entries g)" "i < 18" by (auto simp: entry_under_def split: if_splits)
    have "line_of t g (i + 3) = content_line (entry_line (entries g ! i))" using i by (simp add: line_of_def)
    then have "paint (i + 3) (content_line (entry_line (entries g ! i))) ATTR_INVERT ?vm = highlit t g"
      using paint_row_highlit [OF i(1) Some i(3), of t] by simp
    moreover have "hit_test_content_row ?D (int i + 3) = int i" using hit_test_entry [of ?D] by (simp add: same Some i(1))
    moreover have "draw_content_row (i + 3) str ATTR_INVERT ?D = painted (paint (i + 3) (content_line str) ATTR_INVERT ?vm) (with_buttons g)" for str
      using i(3) by (simp add: draw_rows D)
    moreover have "nat (int i + 3) = i + 3" by simp
    ultimately show ?thesis by (simp only: same i(1) nat_int of_nat_0_le_iff if_True)
  next
    case None
    have l: "length HOME_LABEL = 7" "length TERMINAL_LABEL = 8" "length REFRESH_LABEL = 7"
      by (simp_all add: HOME_LABEL_def TERMINAL_LABEL_def REFRESH_LABEL_def cstr_def)
    have lab: "draw_text 22 1 HOME_LABEL ATTR_INVERT ?D = painted (relabel 1 7 ?vm) (with_buttons g)"
      "draw_text 22 11 TERMINAL_LABEL ATTR_INVERT ?D = painted (relabel 11 18 ?vm) (with_buttons g)"
      "draw_text 22 22 REFRESH_LABEL ATTR_INVERT ?D = painted (relabel 22 28 ?vm) (with_buttons g)"
      using draw_label [of HOME_LABEL 7 1 ?D] draw_label [of TERMINAL_LABEL 18 11 ?D] draw_label [of REFRESH_LABEL 28 22 ?D] taskbar_labels l
      by (simp_all add: D)
    have ht: "hit_test_content_row ?D (row_at g) = -1" using hit_test_entry [of ?D] by (simp add: same None)
    consider "row_at g \<noteq> 22" | "row_at g = 22" "button g = 1" | "row_at g = 22" "button g = 2" | "row_at g = 22" "button g = 3" | "row_at g = 22" "button g = 0"
      using button_cases [of g] by metis
    then show ?thesis
    proof cases
      case 1
      then have "?vm = highlit t g" using no_highlit [of g t] None by (simp add: button_def)
      then show ?thesis using 1 ht by (simp add: same TASKBAR_ROW_def) (simp add: D)
    next
      case 2
      then have "relabel 1 7 ?vm = highlit t g" using relabel_highlit [of g 1 1 7 t] None by simp
      then show ?thesis using 2 lab ht button_ranges(1) [OF 2(2)] by (simp add: same TASKBAR_ROW_def b)
    next
      case 3
      then have "relabel 11 18 ?vm = highlit t g" using relabel_highlit [of g 2 11 18 t] None by simp
      then show ?thesis using 3 lab ht button_ranges(2) [OF 3(2)] by (simp add: same TASKBAR_ROW_def b)
    next
      case 4
      then have "relabel 22 28 ?vm = highlit t g" using relabel_highlit [of g 3 22 28 t] None by simp
      then show ?thesis using 4 lab ht button_ranges(3) [OF 4(2)] by (simp add: same TASKBAR_ROW_def b)
    next
      case 5
      then have "?vm = highlit t g" using no_highlit [of g t] None by simp
      then show ?thesis using 5 ht button_ranges(4) [OF 5(2,1)] by (simp add: same TASKBAR_ROW_def b) (auto simp: D)
    qed
  qed
  have "apply_hover_and_cursor ?D = draw_text (row_at ?M) (col_at ?M) [0x2A] ATTR_INVERT ?M" by (simp add: apply_hover_and_cursor_def Let_def)
  then show ?thesis unfolding mid painted_simps with_buttons_simps draw_cursor [OF ok] .
qed

lemma refresh_loop_ok: "length (refresh_loop l k n) \<le> n \<and> (\<forall>e \<in> set (refresh_loop l k n). length (name e) \<le> 63)"
  by (induction l k n rule: refresh_loop.induct) (auto split: option.splits)

lemma refresh_ok: "0 \<le> row_at g \<Longrightarrow> row_at g < 25 \<Longrightarrow> 0 \<le> col_at g \<Longrightarrow> col_at g < 80 \<Longrightarrow> length (current_dir g) \<le> 63 \<Longrightarrow> gui_ok (refresh_entries ls g)"
  using refresh_loop_ok [of "ls (current_dir g)" 0 18] by (simp add: gui_ok_def refresh_entries_def row_defs)

lemma move_ok: "gui_ok g \<Longrightarrow> gui_ok (gui_move p g)"
  by (simp add: gui_ok_def gui_move_def Let_def VGA_WIDTH_def VGA_HEIGHT_def)

lemma click_ok: "gui_ok g \<Longrightarrow> gui_ok (snd (handle_click ls g))"
proof -
  assume ok: "gui_ok g"
  then have b: "0 \<le> row_at g" "row_at g < 25" "0 \<le> col_at g" "col_at g < 80" "length (current_dir g) \<le> 63" by (simp_all add: gui_ok_def)
  have "gui_ok (refresh_entries ls (g\<lparr>current_dir := take 63 path\<rparr>))" "gui_ok (refresh_entries ls (g\<lparr>current_dir := []\<rparr>))"
    "gui_ok (refresh_entries ls g)" for path
    using b by (simp_all add: refresh_ok)
  moreover have "gui_ok (clean_exit g)" using ok by (simp add: gui_ok_def clean_exit_def)
  ultimately show ?thesis using ok by (simp add: handle_click_def Let_def)
qed

lemma painted_ok: "gui_ok (painted vm (with_buttons g)) = gui_ok g"
  by (simp add: gui_ok_def)

text \<open>The lines of text fit the arrays in which the program builds them.\<close>

lemma line_bounds:
  assumes "gui_ok g" "e \<in> set (entries g)"
  shows "length (entry_line e) < 80" "length (full_path g e) < 128"
  using assms by (auto simp: gui_ok_def entry_line_def full_path_def cstr_def)

lemma clock_length: "length (clock_str t) \<le> 7"
proof -
  have "length (itoa (ucast x)) \<le> 3" for x :: u8
  proof -
    have "unat (ucast x :: u32) < 10 ^ 3" using unat_less_u8 [of x] by (simp add: unat_ucast_u8_u32)
    then have "length (dec_loop (ucast x)) \<le> 3" by (rule dec_loop_length)
    moreover have "\<not> sint (ucast x :: u32) < 0"
      using sint_of_nat_u32 [of "unat (ucast x :: u32)", simplified] unat_less_u8 [of x] by (simp add: unat_ucast_u8_u32)
    ultimately show ?thesis by (simp add: itoa_def Let_def)
  qed
  from this [of "hour t"] this [of "minute t"] show ?thesis by (auto simp: clock_str_def two_digits_def Let_def)
qed

lemma title_length: "length (title_line t) < 80"
  using clock_length [of t] by (simp add: title_line_def Let_def VGA_WIDTH_def cstr_def)

lemma round_form:
  assumes "gui_ok g" "gui_round ls t p g = (act, g')" "act \<noteq> Exit"
  obtains h where "gui_ok h" "g' = apply_hover_and_cursor (redraw_desktop t h)" "video_memory (desk h) = video_memory (desk g)"
proof -
  let ?m = "(gui_move p g)\<lparr>prev_left := left_button p\<rparr>"
  let ?c = "if left_button p \<noteq> 0 \<and> prev_left (gui_move p g) = 0 then handle_click ls ?m else (Stay, ?m)"
  have m: "gui_ok ?m" "video_memory (desk ?m) = video_memory (desk g)" using move_ok [OF assms(1), of p] by (simp_all add: gui_ok_def gui_move_def Let_def)
  have "act = fst ?c" "g' = apply_hover_and_cursor (redraw_desktop t (snd ?c))" using assms(2,3)
    by (auto simp: gui_round_def Let_def split: prod.splits if_splits)
  moreover have "gui_ok (snd ?c)" using click_ok [OF m(1)] m(1) by simp
  moreover have "video_memory (desk (snd (handle_click ls ?m))) = video_memory (desk ?m)" if "fst (handle_click ls ?m) \<noteq> Exit"
    using that by (auto simp: handle_click_def Let_def refresh_entries_def split: if_splits)
  ultimately show ?thesis using assms(3) m(2) by (intro that [of "snd ?c"]) auto
qed

text \<open>
  C37: after every round of the desktop the screen is a picture of its state: each of its 25 rows shows its
  line, the entry or the button under the mouse is inverted, an asterisk marks the mouse, and nothing
  outside the 2000 cells of the screen has changed. The mouse never leaves the screen, whatever the
  packets say, and every line, name and path that the program puts together fits its array.
\<close>

theorem gui_shows_state:
  assumes "gui_ok g" "gui_round ls t p g = (act, g')" "act \<noteq> Exit"
  shows "gui_ok g' \<and>
    (\<forall>r < 25. \<forall>c < 80. video_memory (desk g') (r * 80 + c) =
       (if int r = row_at g' \<and> int c = col_at g' then cell 0x2A ATTR_INVERT else cell (line_of t g' r ! c) (if hot g' r c then ATTR_INVERT else ATTR_NORMAL))) \<and>
    (\<forall>i \<ge> 2000. video_memory (desk g') i = video_memory (desk g) i) \<and>
    (\<forall>e \<in> set (entries g'). length (entry_line e) < 80 \<and> length (full_path g' e) < 128) \<and> length (title_line t) < 80"
proof -
  obtain h where h: "gui_ok h" "g' = apply_hover_and_cursor (redraw_desktop t h)" "video_memory (desk h) = video_memory (desk g)"
    by (rule round_form [OF assms])
  have g': "g' = painted (\<lambda>i. if int (i div 80) = row_at h \<and> int (i mod 80) = col_at h then cell 0x2A ATTR_INVERT else highlit t h i) (with_buttons h)"
    unfolding h(2) by (rule hover_eq [OF h(1)])
  have ok: "gui_ok g'" unfolding g' painted_ok by (rule h(1))
  have same: "row_at g' = row_at h" "col_at g' = col_at h" "line_of t g' = line_of t h" "hot g' = hot h"
    unfolding g' by (simp_all add: fun_eq_iff line_of_def hot_def hint_text_def entry_under_def button_def)
  have cells: "video_memory (desk g') (r * 80 + c) =
      (if int r = row_at h \<and> int c = col_at h then cell 0x2A ATTR_INVERT else cell (line_of t h r ! c) (if hot h r c then ATTR_INVERT else ATTR_NORMAL))"
    if "r < 25" "c < 80" for r c
  proof -
    have "(r * 80 + c) div 80 = r" "(r * 80 + c) mod 80 = c" using that by simp_all
    then show ?thesis unfolding g' painted_simps highlit_def using that by simp
  qed
  have "video_memory (desk g') i = video_memory (desk g) i" if "2000 \<le> i" for i
  proof -
    have "25 \<le> i div 80" using that by (simp add: less_eq_div_iff_mult_less_eq)
    then show ?thesis unfolding g' painted_simps highlit_def using h(1,3) by (simp add: gui_ok_def)
  qed
  then show ?thesis using ok cells line_bounds [OF ok] title_length [of t] unfolding same by simp
qed

text \<open>
  a click acts on what is displayed under the mouse. Over an entry, whose line is the one that the
  row shows, it opens the directory, runs the program or edits the file with that name, under its
  full path; over a button it does what the button says; a button that is held down does nothing more.
\<close>

theorem gui_click_acts_on_display:
  assumes "gui_ok g" "left_button p \<noteq> 0" "h = gui_move p g"
    "home_start g = 1" "home_end g = 7" "terminal_start g = 11" "terminal_end g = 18" "refresh_start g = 22" "refresh_end g = 28"
  shows "(case entry_under h of
      Some i \<Rightarrow> line_of t h (nat (row_at h)) = content_line (entry_line (entries g ! i)) \<and>
        (if prev_left g \<noteq> 0 then fst (gui_round ls t p g) = Stay
         else if is_dir (entries g ! i) then fst (gui_round ls t p g) = Stay \<and>
           current_dir (snd (gui_round ls t p g)) = take 63 (full_path g (entries g ! i)) \<and>
           entries (snd (gui_round ls t p g)) = refresh_loop (ls (take 63 (full_path g (entries g ! i)))) 0 18
         else if is_elf_name (name (entries g ! i)) then fst (gui_round ls t p g) = Run [full_path g (entries g ! i)]
         else fst (gui_round ls t p g) = Run [cstr ''edit.elf'', full_path g (entries g ! i)])
    | None \<Rightarrow> fst (gui_round ls t p g) = (if prev_left g = 0 \<and> button h = 2 then Exit else Stay) \<and>
        (prev_left g = 0 \<and> button h = 1 \<longrightarrow> current_dir (snd (gui_round ls t p g)) = [] \<and> entries (snd (gui_round ls t p g)) = refresh_loop (ls []) 0 18))"
proof -
  let ?m = "h\<lparr>prev_left := left_button p\<rparr>"
  have f: "entries h = entries g" "current_dir h = current_dir g" "prev_left h = prev_left g" "home_start h = 1" "home_end h = 7"
      "terminal_start h = 11" "terminal_end h = 18" "refresh_start h = 22" "refresh_end h = 28"
    using assms by (simp_all add: gui_move_def Let_def)
  have path: "full_path ?m e = full_path g e" for e by (simp add: full_path_def f)
  have ok: "gui_ok ?m" using move_ok [OF assms(1), of p] assms(3) by (simp add: gui_ok_def)
  have ht: "hit_test_content_row ?m (row_at h) = (case entry_under h of None \<Rightarrow> -1 | Some i \<Rightarrow> int i)"
    using hit_test_entry [of ?m] by (simp add: entry_under_def)
  let ?c = "if prev_left g = 0 then handle_click ls ?m else (Stay, ?m)"
  have round: "gui_round ls t p g = (if fst ?c = Exit then (Exit, snd ?c) else (fst ?c, apply_hover_and_cursor (redraw_desktop t (snd ?c))))"
    using assms(2,3) f(3) by (simp add: gui_round_def Let_def split: prod.splits)
  have "gui_ok (snd ?c)" using click_ok [OF ok] ok by simp
  note shown = hover_eq [OF this, of t]
  have kept: "fst ?c \<noteq> Exit \<Longrightarrow> current_dir (snd (gui_round ls t p g)) = current_dir (snd ?c) \<and> entries (snd (gui_round ls t p g)) = entries (snd ?c)"
    unfolding round by (simp add: shown)
  have act: "fst (gui_round ls t p g) = fst ?c" unfolding round by simp
  show ?thesis
  proof (cases "entry_under h")
    case (Some i)
    then have i: "row_at h = int i + 3" "i < length (entries g)" "i < 18" by (auto simp: entry_under_def f split: if_splits)
    then have "line_of t h (nat (row_at h)) = content_line (entry_line (entries g ! i))" by (simp add: line_of_def f nat_add_distrib)
    moreover have "?c = (if prev_left g \<noteq> 0 then (Stay, ?m) else if is_dir (entries g ! i) then (Stay, refresh_entries ls (?m\<lparr>current_dir := take 63 (full_path g (entries g ! i))\<rparr>))
       else if is_elf_name (name (entries g ! i)) then (Run [full_path g (entries g ! i)], refresh_entries ls ?m)
       else (Run [cstr ''edit.elf'', full_path g (entries g ! i)], refresh_entries ls ?m))"
      using Some by (simp add: handle_click_def Let_def ht path f)
    ultimately show ?thesis using Some act kept by (auto simp: refresh_entries_def row_defs)
  next
    case None
    have click: "handle_click ls ?m = (if button h = 1 then (Stay, refresh_entries ls (?m\<lparr>current_dir := []\<rparr>)) else if button h = 2 then (Exit, clean_exit ?m)
        else if button h = 3 then (Stay, refresh_entries ls ?m) else (Stay, ?m))"
      using None by (simp add: handle_click_def Let_def ht f TASKBAR_ROW_def button_def)
    show ?thesis using None act kept by (auto simp: click refresh_entries_def row_defs)
  qed
qed

text \<open>A desktop with a folder and a program on it, and the mouse one row below the folder.\<close>

definition two_files :: "bytes \<Rightarrow> nat \<Rightarrow> (bytes \<times> bool) option" where
  "two_files d i = (if d = [] \<and> i = 0 then Some (cstr ''DOCS'', True) else if d = [] \<and> i = 1 then Some (cstr ''ls.elf'', False) else None)"

definition gui0 :: gui where
  "gui0 = \<lparr>entries = [\<lparr>name = cstr ''DOCS'', is_dir = True\<rparr>, \<lparr>name = cstr ''ls.elf'', is_dir = False\<rparr>], current_dir = [], row_at = 6, col_at = 9, prev_left = 0,
     home_start = 1, home_end = 7, terminal_start = 11, terminal_end = 18, refresh_start = 22, refresh_end = 28,
     desk = \<lparr>video_memory = (\<lambda>_. 0), cursor_row = 0, cursor_col = 0, com1 = []\<rparr>\<rparr>"

definition packet :: mouse_packet where
  "packet = \<lparr>dx = -3, dy = 2, left_button = 1, right_button = 0, middle_button = 0\<rparr>"

lemma gui0_ok: "gui_ok gui0"
  by (simp add: gui_ok_def gui0_def cstr_def)

theorem gui_click_acts_on_display_witness:
  "fst (gui_round two_files one_oclock packet gui0) = Run [cstr ''ls.elf'']"
proof -
  let ?h = "gui_move packet gui0"
  have h: "entry_under ?h = Some 1" by (simp add: entry_under_def gui_move_def gui0_def packet_def VGA_WIDTH_def VGA_HEIGHT_def)
  have e: "entries gui0 ! 1 = \<lparr>name = cstr ''ls.elf'', is_dir = False\<rparr>" "is_elf_name (cstr ''ls.elf'')" "full_path gui0 \<lparr>name = cstr ''ls.elf'', is_dir = False\<rparr> = cstr ''ls.elf''" "prev_left gui0 = 0"
    by (simp_all add: gui0_def is_elf_name_def to_lower_char_def cstr_def full_path_def)
  show ?thesis using gui_click_acts_on_display [OF gui0_ok, where p = packet and h = ?h and t = one_oclock and ls = two_files] h e by (simp add: packet_def gui0_def)
qed

theorem gui_shows_state_witness:
  "video_memory (desk (snd (gui_round two_files one_oclock (packet\<lparr>left_button := 0\<rparr>) gui0))) (4 * 80 + 6) = cell 0x2A ATTR_INVERT"
proof -
  let ?p = "packet\<lparr>left_button := 0\<rparr>"
  obtain act g' where r: "gui_round two_files one_oclock ?p gui0 = (act, g')" by (cases "gui_round two_files one_oclock ?p gui0")
  then have f: "act = Stay" "g' = apply_hover_and_cursor (redraw_desktop one_oclock ((gui_move ?p gui0)\<lparr>prev_left := 0\<rparr>))"
    by (auto simp: gui_round_def Let_def packet_def)
  have ok: "gui_ok ((gui_move ?p gui0)\<lparr>prev_left := 0\<rparr>)" using move_ok [OF gui0_ok, of ?p] by (simp add: gui_ok_def)
  have "row_at g' = 4" "col_at g' = 6" unfolding f(2) hover_eq [OF ok]
    by (simp_all add: gui_move_def gui0_def packet_def VGA_WIDTH_def VGA_HEIGHT_def)
  moreover have "video_memory (desk g') (4 * 80 + 6) = (if int 4 = row_at g' \<and> int 6 = col_at g' then cell 0x2A ATTR_INVERT
      else cell (line_of one_oclock g' 4 ! 6) (if hot g' 4 6 then ATTR_INVERT else ATTR_NORMAL))"
    using gui_shows_state [OF gui0_ok r, THEN conjunct2, THEN conjunct1, rule_format, of 4 6] f(1) by (simp only: gui_action.distinct not_False_eq_True simp_thms)
  ultimately show ?thesis using r by simp
qed

section \<open>The states of the program\<close>

text \<open>The states in which the program waits for the mouse; \<open>d\<close> is what other programs have made of the screen.\<close>

inductive gui_runs :: "gui \<Rightarrow> bool" where
  start: "current_dir g = [] \<Longrightarrow> row_at g = 12 \<Longrightarrow> col_at g = 40 \<Longrightarrow> gui_runs (gui_start ls t g)"
| round: "gui_runs g \<Longrightarrow> gui_round ls t p (g\<lparr>desk := d\<rparr>) = (act, g') \<Longrightarrow> act \<noteq> Exit \<Longrightarrow> gui_runs g'"

lemma gui_drawn:
  assumes "gui_ok h" "g = apply_hover_and_cursor (redraw_desktop t h)"
  shows "gui_ok g" "home_start g = 1" "home_end g = 7" "terminal_start g = 11" "terminal_end g = 18" "refresh_start g = 22" "refresh_end g = 28"
proof -
  have g: "g = painted (\<lambda>i. if int (i div 80) = row_at h \<and> int (i mod 80) = col_at h then cell 0x2A ATTR_INVERT else highlit t h i) (with_buttons h)"
    unfolding assms(2) by (rule hover_eq [OF assms(1)])
  show "gui_ok g" unfolding g painted_ok by (rule assms(1))
  show "home_start g = 1" "home_end g = 7" "terminal_start g = 11" "terminal_end g = 18" "refresh_start g = 22" "refresh_end g = 28"
    unfolding g by (simp_all add: painted_def with_buttons_def)
qed

text \<open>
  C38: in every state that the desktop reaches from its start, whatever the directories hold, the mouse does
  and other programs draw, its variables are within their types: the mouse is on the screen, at most
  18 entries are kept, every name and the current directory fit their 64 bytes, the path of every entry
  fits its 128 bytes, and the columns of the buttons are where the buttons are drawn.
\<close>

theorem gui_state_typed:
  assumes "gui_runs g"
  shows "gui_ok g \<and> (\<forall>e \<in> set (entries g). length (full_path g e) < 128) \<and>
    home_start g = 1 \<and> home_end g = 7 \<and> terminal_start g = 11 \<and> terminal_end g = 18 \<and> refresh_start g = 22 \<and> refresh_end g = 28"
proof -
  have "\<exists>h t. gui_ok h \<and> g = apply_hover_and_cursor (redraw_desktop t h)"
    using assms
  proof induction
    case (start g ls t)
    then have "gui_ok (refresh_entries ls g)" by (intro refresh_ok) simp_all
    then show ?case unfolding gui_start_def by blast
  next
    case (round g ls t p d act g')
    then obtain h u where "gui_ok h" "g = apply_hover_and_cursor (redraw_desktop u h)" by blast
    then have "gui_ok g" by (rule gui_drawn(1))
    then have "gui_ok (g\<lparr>desk := d\<rparr>)" by (simp add: gui_ok_def)
    then show ?case using round_form [OF _ round.hyps(2,3)] by blast
  qed
  then obtain h t where h: "gui_ok h" "g = apply_hover_and_cursor (redraw_desktop t h)" by blast
  note d = gui_drawn [OF this]
  show ?thesis using d line_bounds(2) [OF d(1)] by simp
qed

theorem gui_state_typed_witness:
  "gui_ok (gui_start two_files one_oclock (gui0\<lparr>current_dir := [], row_at := 12, col_at := 40\<rparr>))"
proof -
  have "gui_runs (gui_start two_files one_oclock (gui0\<lparr>current_dir := [], row_at := 12, col_at := 40\<rparr>))" by (rule start) simp_all
  then show ?thesis using gui_state_typed by blast
qed

end
