(* ===== verification/Syscall.thy ===== *)
theory Syscall
  imports Net_Stack Net_Ip_Spec Loader Console Rtc
begin

unbundle bit_operations_syntax

text \<open>
  System calls: the dispatcher of src/src/syscall.c, the waiting loops of console.c and mouse.c as it uses
  them, and the wrappers of src/userspace/libc.c. The dispatcher works on the state of all components and
  reaches the buffers of the program through the page tables of the running task; \<open>None\<close> is a page fault
  in the kernel or a wait that never ends. What interrupts and other tasks do to the input queues and to
  the network while a call waits, and the clock chip, are the environment \<open>env\<close>. A buffer or string that
  a call uses is read as a whole before the call acts on it, so that one of which the call would use
  only a part has to be mapped completely.
\<close>

section \<open>State and environment\<close>

record registers =
  eax :: u32
  ebx :: u32
  ecx :: u32
  edx :: u32
  esi :: u32
  edi :: u32

record system =
  mach :: machine
  con :: console
  lan :: net
  rtc_reads :: nat
  exec_argv :: "bytes list"

record env =
  idle_con :: "console \<Rightarrow> console"
  idle_net :: "net \<Rightarrow> net"
  chip_of :: cmos
  exec_launch_trampoline :: u32
  task_launch :: u32

datatype sys_end = Returns u32 | Exits | Waits nat

definition SYSCALL_WRITE :: u32 where "SYSCALL_WRITE = 0"
definition SYSCALL_EXIT :: u32 where "SYSCALL_EXIT = 1"
definition SYSCALL_READ :: u32 where "SYSCALL_READ = 2"
definition SYSCALL_OPEN :: u32 where "SYSCALL_OPEN = 3"
definition SYSCALL_CLOSE :: u32 where "SYSCALL_CLOSE = 4"
definition SYSCALL_LIST :: u32 where "SYSCALL_LIST = 5"
definition SYSCALL_SOCKET_ACCEPT :: u32 where "SYSCALL_SOCKET_ACCEPT = 6"
definition SYSCALL_SOCKET_RECV :: u32 where "SYSCALL_SOCKET_RECV = 7"
definition SYSCALL_SOCKET_SEND :: u32 where "SYSCALL_SOCKET_SEND = 8"
definition SYSCALL_SOCKET_CLOSE :: u32 where "SYSCALL_SOCKET_CLOSE = 9"
definition SYSCALL_OPEN_WRITE :: u32 where "SYSCALL_OPEN_WRITE = 10"
definition SYSCALL_FWRITE :: u32 where "SYSCALL_FWRITE = 11"
definition SYSCALL_MKDIR :: u32 where "SYSCALL_MKDIR = 12"
definition SYSCALL_SEEK :: u32 where "SYSCALL_SEEK = 13"
definition SYSCALL_DNS_RESOLVE :: u32 where "SYSCALL_DNS_RESOLVE = 14"
definition SYSCALL_RTC_READ :: u32 where "SYSCALL_RTC_READ = 15"
definition SYSCALL_MOUSE_READ :: u32 where "SYSCALL_MOUSE_READ = 16"
definition SYSCALL_RUN :: u32 where "SYSCALL_RUN = 17"
definition SYSCALL_DRAW_TEXT :: u32 where "SYSCALL_DRAW_TEXT = 18"

lemmas SYSCALL_defs = SYSCALL_WRITE_def SYSCALL_EXIT_def SYSCALL_READ_def SYSCALL_OPEN_def SYSCALL_CLOSE_def SYSCALL_LIST_def
  SYSCALL_SOCKET_ACCEPT_def SYSCALL_SOCKET_RECV_def SYSCALL_SOCKET_SEND_def SYSCALL_SOCKET_CLOSE_def SYSCALL_OPEN_WRITE_def
  SYSCALL_FWRITE_def SYSCALL_MKDIR_def SYSCALL_SEEK_def SYSCALL_DNS_RESOLVE_def SYSCALL_RTC_READ_def SYSCALL_MOUSE_READ_def
  SYSCALL_RUN_def SYSCALL_DRAW_TEXT_def

section \<open>The memory of the program\<close>

definition vload :: "machine \<Rightarrow> u32 \<Rightarrow> u8 option" where
  "vload m v = map_option (ram m) (phys_of m v)"

fun vloads :: "machine \<Rightarrow> u32 \<Rightarrow> nat \<Rightarrow> bytes option" where
  "vloads m v 0 = Some []"
| "vloads m v (Suc n) = (case vload m v of None \<Rightarrow> None | Some x \<Rightarrow> map_option ((#) x) (vloads m (v + 1) n))"

text \<open>A C string; without a NUL the kernel reads on until a page is not mapped.\<close>

partial_function (option) vstring :: "machine \<Rightarrow> u32 \<Rightarrow> bytes option" where
  "vstring m v =
     (case vload m v of
        None \<Rightarrow> None
      | Some x \<Rightarrow> if x = 0 then Some [] else Option.bind (vstring m (v + 1)) (\<lambda>s. Some (x # s)))"

fun vstrings :: "machine \<Rightarrow> u32 \<Rightarrow> nat \<Rightarrow> bytes list option" where
  "vstrings m v 0 = Some []"
| "vstrings m v (Suc n) =
     (case vloads m v 4 of
        None \<Rightarrow> None
      | Some p \<Rightarrow> (case vstring m (get_le32 p 0) of None \<Rightarrow> None | Some s \<Rightarrow> map_option ((#) s) (vstrings m (v + 4) n)))"

definition store :: "u32 \<Rightarrow> bytes \<Rightarrow> system \<Rightarrow> system option" where
  "store v bs s = map_option (\<lambda>m. s\<lparr>mach := m\<rparr>) (vstores (mach s) v bs)"

definition set_kern :: "kernel \<Rightarrow> system \<Rightarrow> system" where
  "set_kern k s = s\<lparr>mach := (mach s)\<lparr>kern := k\<rparr>\<rparr>"

definition set_fs :: "fat_fs \<Rightarrow> system \<Rightarrow> system" where
  "set_fs f s = set_kern ((kern (mach s))\<lparr>fs := f\<rparr>) s"

definition set_term :: "terminal \<Rightarrow> system \<Rightarrow> system" where
  "set_term t s = s\<lparr>con := (con s)\<lparr>screen := t\<rparr>\<rparr>"

abbreviation fs_of :: "system \<Rightarrow> fat_fs" where
  "fs_of s \<equiv> fs (kern (mach s))"

abbreviation task_of :: "system \<Rightarrow> int" where
  "task_of s \<equiv> int (task_current_id (kern (mach s)))"

definition returns :: "int \<Rightarrow> system \<Rightarrow> (sys_end \<times> system) option" where
  "returns n s = Some (Returns (of_int n), s)"

section \<open>The calls\<close>

definition sys_write :: "system \<Rightarrow> u32 \<Rightarrow> u32 \<Rightarrow> (sys_end \<times> system) option" where
  "sys_write s buf len =
     (case vloads (mach s) buf (unat len) of
        None \<Rightarrow> None
      | Some bs \<Rightarrow> Some (Returns len, set_term (foldl terminal_putchar (screen (con s)) bs) s))"

partial_function (option) console_wait :: "env \<Rightarrow> console \<Rightarrow> (u8 \<times> console) option" where
  "console_wait e c = (case console_read_char c of Some r \<Rightarrow> Some r | None \<Rightarrow> console_wait e (idle_con e c))"

fun stdin_loop :: "env \<Rightarrow> console \<Rightarrow> nat \<Rightarrow> (bytes \<times> console) option" where
  "stdin_loop e c 0 = Some ([], c)"
| "stdin_loop e c (Suc n) =
     (case console_wait e c of
        None \<Rightarrow> None
      | Some (x, c) \<Rightarrow> if x = 0x0A then Some ([x], c) else map_option (\<lambda>(bs, c). (x # bs, c)) (stdin_loop e c n))"

definition sys_read :: "env \<Rightarrow> system \<Rightarrow> u32 \<Rightarrow> u32 \<Rightarrow> u32 \<Rightarrow> (sys_end \<times> system) option" where
  "sys_read e s fd buf max_len =
     (if fd = 0 then
        (case stdin_loop e (con s) (unat max_len) of
           None \<Rightarrow> None
         | Some (bs, c) \<Rightarrow> (case store buf bs (s\<lparr>con := c\<rparr>) of None \<Rightarrow> None | Some s \<Rightarrow> returns (int (length bs)) s))
      else
        (case fat_read (fs_of s) (sint fd) max_len of
           (n, bs, f) \<Rightarrow> (case store buf bs (set_fs f s) of None \<Rightarrow> None | Some s \<Rightarrow> returns n s)))"

text \<open>A path is read only when the volume is mounted; otherwise the call fails without looking at it.\<close>

definition fat_string :: "system \<Rightarrow> u32 \<Rightarrow> bytes option" where
  "fat_string s v = (if fat_ready (fs_lay (fs_of s)) then vstring (mach s) v else Some [])"

definition sys_open :: "system \<Rightarrow> u32 \<Rightarrow> (sys_end \<times> system) option" where
  "sys_open s filename =
     (case fat_string s filename of
        None \<Rightarrow> None
      | Some str \<Rightarrow> (case fat_open (fs_of s) (task_of s) str of None \<Rightarrow> None | Some (n, f) \<Rightarrow> returns n (set_fs f s)))"

definition sys_close :: "system \<Rightarrow> u32 \<Rightarrow> (sys_end \<times> system) option" where
  "sys_close s fd = (case fat_close (fs_of s) (sint fd) of (n, f) \<Rightarrow> returns n (set_fs f s))"

definition sys_list :: "system \<Rightarrow> u32 \<Rightarrow> u32 \<Rightarrow> u32 \<Rightarrow> u32 \<Rightarrow> u32 \<Rightarrow> (sys_end \<times> system) option" where
  "sys_list s dir_path index name_buf buf_size is_dir_out =
     (case fat_string s dir_path of
        None \<Rightarrow> None
      | Some str \<Rightarrow>
          (case fat_list_entry (fs_lay (fs_of s)) (fs_disk (fs_of s)) (fs_lfn (fs_of s)) str (sint index) buf_size of
             None \<Rightarrow> None
           | Some (None, lfn) \<Rightarrow> returns (-1) (set_fs ((fs_of s)\<lparr>fs_lfn := lfn\<rparr>) s)
           | Some (Some (nm, fsize, dir), lfn) \<Rightarrow>
               (case store name_buf (nm @ [0]) (set_fs ((fs_of s)\<lparr>fs_lfn := lfn\<rparr>) s) of
                  None \<Rightarrow> None
                | Some s \<Rightarrow>
                    if is_dir_out \<noteq> 0
                    then map_option (\<lambda>s. (Returns fsize, s)) (store is_dir_out (le_bytes (of_bool dir)) s)
                    else Some (Returns fsize, s))))"

definition sys_accept :: "env \<Rightarrow> system \<Rightarrow> (sys_end \<times> system) option" where
  "sys_accept e s = (case tcp_socket_accept (idle_net e) (lan s) of None \<Rightarrow> None | Some (i, l) \<Rightarrow> returns (int i) (s\<lparr>lan := l\<rparr>))"

definition sys_recv :: "env \<Rightarrow> system \<Rightarrow> u32 \<Rightarrow> u32 \<Rightarrow> u32 \<Rightarrow> (sys_end \<times> system) option" where
  "sys_recv e s sockfd buf max_len =
     (case tcp_socket_recv (idle_net e) (lan s) (sint sockfd) max_len of
        None \<Rightarrow> None
      | Some (n, bs, l) \<Rightarrow> (case store buf bs (s\<lparr>lan := l\<rparr>) of None \<Rightarrow> None | Some s \<Rightarrow> returns n s))"

definition sendable :: "net \<Rightarrow> nat \<Rightarrow> bool" where
  "sendable l i \<longleftrightarrow> tcp_connection.state (connections l ! i) = TCP_ESTABLISHED \<or> tcp_connection.state (connections l ! i) = TCP_CLOSE_WAIT"

definition sys_send :: "system \<Rightarrow> u32 \<Rightarrow> u32 \<Rightarrow> u32 \<Rightarrow> (sys_end \<times> system) option" where
  "sys_send s sockfd buf len =
     (case (if sockfd_ok (sint sockfd) \<and> sendable (lan s) (nat (sint sockfd)) then vloads (mach s) buf (unat (if 1460 < len then 1460 else len)) else Some []) of
        None \<Rightarrow> None
      | Some bs \<Rightarrow> (case tcp_socket_send (lan s) (sint sockfd) bs len of (n, l) \<Rightarrow> returns n (s\<lparr>lan := l\<rparr>)))"

definition sys_socket_close :: "system \<Rightarrow> u32 \<Rightarrow> (sys_end \<times> system) option" where
  "sys_socket_close s sockfd = (case tcp_socket_close (lan s) (sint sockfd) of (n, l) \<Rightarrow> returns n (s\<lparr>lan := l\<rparr>))"

definition sys_open_write :: "system \<Rightarrow> u32 \<Rightarrow> u32 \<Rightarrow> (sys_end \<times> system) option" where
  "sys_open_write s filename mode =
     (case fat_string s filename of
        None \<Rightarrow> None
      | Some str \<Rightarrow> (case fat_open_write (fs_of s) (task_of s) str (sint mode) of None \<Rightarrow> None | Some (n, f) \<Rightarrow> returns n (set_fs f s)))"

definition sys_fwrite :: "system \<Rightarrow> u32 \<Rightarrow> u32 \<Rightarrow> u32 \<Rightarrow> (sys_end \<times> system) option" where
  "sys_fwrite s fd buf len =
     (case (case fd_index (open_files (fs_of s)) (sint fd) of
              None \<Rightarrow> Some []
            | Some i \<Rightarrow> if writable (open_files (fs_of s) ! i) then vloads (mach s) buf (unat len) else Some []) of
        None \<Rightarrow> None
      | Some bs \<Rightarrow> (case fat_write (fs_of s) (sint fd) bs len of (n, f) \<Rightarrow> returns n (set_fs f s)))"

definition sys_mkdir :: "system \<Rightarrow> u32 \<Rightarrow> (sys_end \<times> system) option" where
  "sys_mkdir s path =
     (case fat_string s path of
        None \<Rightarrow> None
      | Some str \<Rightarrow>
          (case fat_mkdir (fs_lay (fs_of s)) (fs_disk (fs_of s)) (fs_lfn (fs_of s)) str of
             None \<Rightarrow> None
           | Some (n, d, lfn) \<Rightarrow> returns n (set_fs ((fs_of s)\<lparr>fs_disk := d, fs_lfn := lfn\<rparr>) s)))"

definition sys_seek :: "system \<Rightarrow> u32 \<Rightarrow> u32 \<Rightarrow> (sys_end \<times> system) option" where
  "sys_seek s fd offset = (case fat_seek (fs_of s) (sint fd) offset of None \<Rightarrow> None | Some (n, f) \<Rightarrow> returns n (set_fs f s))"

definition sys_dns :: "env \<Rightarrow> system \<Rightarrow> u32 \<Rightarrow> u32 \<Rightarrow> (sys_end \<times> system) option" where
  "sys_dns e s hostname out_ip =
     (case (if dns_server_configured (lan s) then vstring (mach s) hostname else Some []) of
        None \<Rightarrow> None
      | Some str \<Rightarrow>
          (case dns_resolve (idle_net e) (lan s) str of
             None \<Rightarrow> None
           | Some (Inl err, l) \<Rightarrow> returns (-1) (s\<lparr>lan := l\<rparr>)
           | Some (Inr ip, l) \<Rightarrow> (case store out_ip ip (s\<lparr>lan := l\<rparr>) of None \<Rightarrow> None | Some s \<Rightarrow> returns 0 s)))"

text \<open>The structs as they lie in memory; the padding byte of \<open>rtc_time\<close> is not written.\<close>

definition rtc_bytes :: "rtc_time \<Rightarrow> bytes" where
  "rtc_bytes t = [ucast (year t), ucast (drop_bit 8 (year t)), month t, day t, hour t, minute t, second t]"

definition packet_bytes_of :: "mouse_packet \<Rightarrow> bytes" where
  "packet_bytes_of p = concat (map (\<lambda>i. le_bytes (of_int i)) [dx p, dy p, left_button p, right_button p, middle_button p])"

definition sys_rtc :: "env \<Rightarrow> system \<Rightarrow> u32 \<Rightarrow> (sys_end \<times> system) option" where
  "sys_rtc e s out =
     (case rtc_read (chip_of e) (rtc_reads s) of
        None \<Rightarrow> None
      | Some (t, n) \<Rightarrow> (case store out (rtc_bytes t) (s\<lparr>rtc_reads := n\<rparr>) of None \<Rightarrow> None | Some s \<Rightarrow> returns 0 s))"

partial_function (option) mouse_wait :: "env \<Rightarrow> console \<Rightarrow> (mouse_packet \<times> console) option" where
  "mouse_wait e c = (case mouse_read_packet c of Some r \<Rightarrow> Some r | None \<Rightarrow> mouse_wait e (idle_con e c))"

definition sys_mouse :: "env \<Rightarrow> system \<Rightarrow> u32 \<Rightarrow> (sys_end \<times> system) option" where
  "sys_mouse e s out =
     (case mouse_wait e (con s) of
        None \<Rightarrow> None
      | Some (p, c) \<Rightarrow> (case store out (packet_bytes_of p) (s\<lparr>con := c\<rparr>) of None \<Rightarrow> None | Some s \<Rightarrow> returns 0 s))"

text \<open>\<open>Waits i\<close> is the call of \<open>task_wait\<close> on the new task, behind which the result is 0.\<close>

definition sys_run :: "env \<Rightarrow> system \<Rightarrow> u32 \<Rightarrow> u32 \<Rightarrow> (sys_end \<times> system) option" where
  "sys_run e s argc argv =
     (case (if 1 \<le> sint argc \<and> sint argc \<le> EXEC_MAX_ARGS then vstrings (mach s) argv (unat argc) else Some []) of
        None \<Rightarrow> None
      | Some args \<Rightarrow>
          (case exec_run (kern (mach s)) (exec_launch_trampoline e) (task_launch e) (sint argc) args of
             None \<Rightarrow> None
           | Some (r, st, k) \<Rightarrow>
               let s = (set_kern k s)\<lparr>exec_argv := (case st of None \<Rightarrow> exec_argv s | Some a \<Rightarrow> a)\<rparr>
               in case r of Exec_returns n \<Rightarrow> returns n s | Exec_waits i \<Rightarrow> Some (Waits i, s)))"

definition sys_draw :: "system \<Rightarrow> u32 \<Rightarrow> u32 \<Rightarrow> u32 \<Rightarrow> u32 \<Rightarrow> u32 \<Rightarrow> (sys_end \<times> system) option" where
  "sys_draw s row col str len attr =
     (if sint row < 0 \<or> 25 \<le> sint row then returns 0 s
      else case vloads (mach s) str (nat (sint len)) of
        None \<Rightarrow> None
      | Some bs \<Rightarrow> returns 0 (set_term (terminal_draw_text (screen (con s)) (sint row) (sint col) bs (ucast attr)) s))"

definition syscall_handler :: "env \<Rightarrow> system \<Rightarrow> registers \<Rightarrow> (sys_end \<times> system) option" where
  "syscall_handler e s r =
     (if eax r = SYSCALL_WRITE then sys_write s (ebx r) (ecx r)
      else if eax r = SYSCALL_READ then sys_read e s (ebx r) (ecx r) (edx r)
      else if eax r = SYSCALL_OPEN then sys_open s (ebx r)
      else if eax r = SYSCALL_CLOSE then sys_close s (ebx r)
      else if eax r = SYSCALL_LIST then sys_list s (esi r) (ebx r) (ecx r) (edx r) (edi r)
      else if eax r = SYSCALL_SOCKET_ACCEPT then sys_accept e s
      else if eax r = SYSCALL_SOCKET_RECV then sys_recv e s (ebx r) (ecx r) (edx r)
      else if eax r = SYSCALL_SOCKET_SEND then sys_send s (ebx r) (ecx r) (edx r)
      else if eax r = SYSCALL_SOCKET_CLOSE then sys_socket_close s (ebx r)
      else if eax r = SYSCALL_OPEN_WRITE then sys_open_write s (ebx r) (ecx r)
      else if eax r = SYSCALL_FWRITE then sys_fwrite s (ebx r) (ecx r) (edx r)
      else if eax r = SYSCALL_MKDIR then sys_mkdir s (ebx r)
      else if eax r = SYSCALL_SEEK then sys_seek s (ebx r) (ecx r)
      else if eax r = SYSCALL_DNS_RESOLVE then sys_dns e s (ebx r) (ecx r)
      else if eax r = SYSCALL_RTC_READ then sys_rtc e s (ebx r)
      else if eax r = SYSCALL_MOUSE_READ then sys_mouse e s (ebx r)
      else if eax r = SYSCALL_RUN then sys_run e s (ebx r) (ecx r)
      else if eax r = SYSCALL_DRAW_TEXT then sys_draw s (ebx r) (ecx r) (edx r) (esi r) (edi r)
      else if eax r = SYSCALL_EXIT then Some (Exits, set_kern (task_exit (kern (mach s))) s)
      else Some (Returns (eax r), set_term (terminal_writestring (screen (con s)) (cstr ''syscall: unknown call number'' @ [0x0A])) s))"

section \<open>The wrappers of the C library\<close>

text \<open>The registers at the \<open>int\<close> instruction; the others keep what the program had in them.\<close>

definition libc_write :: "u32 \<Rightarrow> u32 \<Rightarrow> registers \<Rightarrow> registers" where
  "libc_write buf len r = r\<lparr>eax := 0, ebx := buf, ecx := len\<rparr>"

definition libc_read :: "u32 \<Rightarrow> u32 \<Rightarrow> u32 \<Rightarrow> registers \<Rightarrow> registers" where
  "libc_read fd buf len r = r\<lparr>eax := 2, ebx := fd, ecx := buf, edx := len\<rparr>"

definition libc_open :: "u32 \<Rightarrow> registers \<Rightarrow> registers" where
  "libc_open filename r = r\<lparr>eax := 3, ebx := filename\<rparr>"

definition libc_close :: "u32 \<Rightarrow> registers \<Rightarrow> registers" where
  "libc_close fd r = r\<lparr>eax := 4, ebx := fd\<rparr>"

definition libc_listdir :: "u32 \<Rightarrow> u32 \<Rightarrow> u32 \<Rightarrow> u32 \<Rightarrow> u32 \<Rightarrow> registers \<Rightarrow> registers" where
  "libc_listdir dir_path index name_buf buf_size is_dir_out r = r\<lparr>eax := 5, ebx := index, ecx := name_buf, edx := buf_size, esi := dir_path, edi := is_dir_out\<rparr>"

definition libc_socket_accept :: "registers \<Rightarrow> registers" where
  "libc_socket_accept r = r\<lparr>eax := 6\<rparr>"

definition libc_socket_recv :: "u32 \<Rightarrow> u32 \<Rightarrow> u32 \<Rightarrow> registers \<Rightarrow> registers" where
  "libc_socket_recv sockfd buf max_len r = r\<lparr>eax := 7, ebx := sockfd, ecx := buf, edx := max_len\<rparr>"

definition libc_socket_send :: "u32 \<Rightarrow> u32 \<Rightarrow> u32 \<Rightarrow> registers \<Rightarrow> registers" where
  "libc_socket_send sockfd buf len r = r\<lparr>eax := 8, ebx := sockfd, ecx := buf, edx := len\<rparr>"

definition libc_socket_close :: "u32 \<Rightarrow> registers \<Rightarrow> registers" where
  "libc_socket_close sockfd r = r\<lparr>eax := 9, ebx := sockfd\<rparr>"

definition libc_open_write :: "u32 \<Rightarrow> u32 \<Rightarrow> registers \<Rightarrow> registers" where
  "libc_open_write filename mode r = r\<lparr>eax := 10, ebx := filename, ecx := mode\<rparr>"

definition libc_fwrite :: "u32 \<Rightarrow> u32 \<Rightarrow> u32 \<Rightarrow> registers \<Rightarrow> registers" where
  "libc_fwrite fd buf len r = r\<lparr>eax := 11, ebx := fd, ecx := buf, edx := len\<rparr>"

definition libc_mkdir :: "u32 \<Rightarrow> registers \<Rightarrow> registers" where
  "libc_mkdir path r = r\<lparr>eax := 12, ebx := path\<rparr>"

definition libc_seek :: "u32 \<Rightarrow> u32 \<Rightarrow> registers \<Rightarrow> registers" where
  "libc_seek fd offset r = r\<lparr>eax := 13, ebx := fd, ecx := offset\<rparr>"

definition libc_dns_resolve :: "u32 \<Rightarrow> u32 \<Rightarrow> registers \<Rightarrow> registers" where
  "libc_dns_resolve hostname out_ip r = r\<lparr>eax := 14, ebx := hostname, ecx := out_ip\<rparr>"

definition libc_rtc_read :: "u32 \<Rightarrow> registers \<Rightarrow> registers" where
  "libc_rtc_read out r = r\<lparr>eax := 15, ebx := out\<rparr>"

definition libc_mouse_read :: "u32 \<Rightarrow> registers \<Rightarrow> registers" where
  "libc_mouse_read out r = r\<lparr>eax := 16, ebx := out\<rparr>"

definition libc_run :: "u32 \<Rightarrow> u32 \<Rightarrow> registers \<Rightarrow> registers" where
  "libc_run argc argv r = r\<lparr>eax := 17, ebx := argc, ecx := argv\<rparr>"

definition libc_draw_text :: "u32 \<Rightarrow> u32 \<Rightarrow> u32 \<Rightarrow> u32 \<Rightarrow> u8 \<Rightarrow> registers \<Rightarrow> registers" where
  "libc_draw_text row col str len attr r = r\<lparr>eax := 18, ebx := row, ecx := col, edx := str, esi := len, edi := ucast attr\<rparr>"

definition libc_exit :: "registers \<Rightarrow> registers" where
  "libc_exit r = r\<lparr>eax := 1\<rparr>"

lemmas libc_defs = libc_write_def libc_read_def libc_open_def libc_close_def libc_listdir_def libc_socket_accept_def libc_socket_recv_def
  libc_socket_send_def libc_socket_close_def libc_open_write_def libc_fwrite_def libc_mkdir_def libc_seek_def libc_dns_resolve_def
  libc_rtc_read_def libc_mouse_read_def libc_run_def libc_draw_text_def libc_exit_def


section \<open>What a call can do to the kernel\<close>

lemma vstores_kern: "vstores m v bs = Some m' \<Longrightarrow> kern m' = kern m"
  by (induction m v bs rule: vstores.induct) (auto split: option.splits)

lemma store_kern: "store v bs s = Some s' \<Longrightarrow> kern (mach s') = kern (mach s)"
  by (auto simp: store_def dest: vstores_kern)

definition only_fs :: "system \<Rightarrow> (sys_end \<times> system) option \<Rightarrow> bool" where
  "only_fs s r \<longleftrightarrow> (\<forall>x s'. r = Some (x, s') \<longrightarrow> (\<exists>n. x = Returns n) \<and> (\<exists>f. kern (mach s') = (kern (mach s))\<lparr>fs := f\<rparr>))"

lemma ex_fs [simp]: "\<exists>f. (k :: kernel) = k\<lparr>fs := f\<rparr>" "\<exists>f. (k :: kernel)\<lparr>fs := g\<rparr> = k\<lparr>fs := f\<rparr>"
  by (rule exI [of _ "fs k"], simp) blast

lemmas only_fs_simps = only_fs_def returns_def set_fs_def set_kern_def set_term_def

lemma only_fs_terminal: "only_fs s (sys_write s b l)" "only_fs s (sys_draw s a b c d t)"
  by (auto simp: sys_write_def sys_draw_def only_fs_simps split: option.splits if_splits)

lemma only_fs_files:
  "only_fs s (sys_open s p)" "only_fs s (sys_close s fd)" "only_fs s (sys_open_write s p m)" "only_fs s (sys_fwrite s fd b l)"
  "only_fs s (sys_mkdir s p)" "only_fs s (sys_seek s fd off)"
  by (auto simp: sys_open_def sys_close_def sys_open_write_def sys_fwrite_def sys_mkdir_def sys_seek_def only_fs_simps split: option.splits prod.splits)

lemma only_fs_list: "only_fs s (sys_list s p i b l out)"
  by (auto simp: sys_list_def only_fs_simps split: option.splits prod.splits if_splits dest!: store_kern)

lemma only_fs_read: "only_fs s (sys_read e s fd b l)"
  by (auto simp: sys_read_def only_fs_simps split: option.splits prod.splits if_splits dest!: store_kern)

lemma only_fs_net:
  "only_fs s (sys_accept e s)" "only_fs s (sys_recv e s fd b l)" "only_fs s (sys_send s fd b l)" "only_fs s (sys_socket_close s fd)" "only_fs s (sys_dns e s p out)"
  by (auto simp: sys_accept_def sys_recv_def sys_send_def sys_socket_close_def sys_dns_def only_fs_simps
      split: option.splits prod.splits sum.splits dest!: store_kern)

lemma only_fs_devices: "only_fs s (sys_rtc e s out)" "only_fs s (sys_mouse e s out)"
  by (auto simp: sys_rtc_def sys_mouse_def only_fs_simps split: option.splits prod.splits dest!: store_kern)

lemmas only_fs_calls = only_fs_terminal only_fs_files only_fs_list only_fs_read only_fs_net only_fs_devices

lemma only_fs_handler:
  assumes "eax r \<noteq> SYSCALL_RUN" "eax r \<noteq> SYSCALL_EXIT"
  shows "only_fs s (syscall_handler e s r)"
  using assms by (simp add: syscall_handler_def only_fs_calls) (simp add: only_fs_simps)

lemma sys_run_ok:
  assumes "sys_run e s argc argv = Some (x, s')" "sched_ok (kern (mach s))"
  shows "sched_ok (kern (mach s'))" "x \<noteq> Exits"
proof -
  show "x \<noteq> Exits" using assms(1) by (auto simp: sys_run_def returns_def Let_def split: option.splits prod.splits exec_result.splits)
  show "sched_ok (kern (mach s'))" using assms task_create_ok [OF assms(2)]
    by (auto simp: sys_run_def exec_run_def returns_def set_kern_def Let_def split: option.splits prod.splits exec_result.splits if_splits)
qed


definition system3 :: system where
  "system3 = \<lparr>mach = \<lparr>kern = kernel3, ram = (\<lambda>_. 0)\<rparr>, con = console0, lan = host 1, rtc_reads = 0, exec_argv = []\<rparr>"

definition env0 :: env where
  "env0 = \<lparr>idle_con = id, idle_net = id, chip_of = chip, exec_launch_trampoline = 0, task_launch = 0\<rparr>"

definition regs0 :: registers where
  "regs0 = \<lparr>eax = 0, ebx = 0, ecx = 0, edx = 0, esi = 0, edi = 0\<rparr>"


end
