(* ===== verification/Cat.thy ===== *)
theory Cat
  imports Syscall Fat_Read Loader_Spec
begin

text \<open>
  A program on the system call interface: src/userspace/cat.c, which copies a file to the terminal
  through a buffer of 16 bytes. This is where the file system, the system calls, the page tables and
  the terminal meet. The addresses at which the compiler puts the buffer and the string literals are
  parameters.
\<close>

section \<open>The program\<close>

definition call :: "env \<Rightarrow> system \<Rightarrow> registers \<Rightarrow> (u32 \<times> system) option" where
  "call e s r = (case syscall_handler e s r of Some (Returns n, s') \<Rightarrow> Some (n, s') | _ \<Rightarrow> None)"

partial_function (option) cat_loop :: "env \<Rightarrow> registers \<Rightarrow> u32 \<Rightarrow> u32 \<Rightarrow> system \<Rightarrow> system option" where
  "cat_loop e r fd buf s =
     (case call e s (libc_read fd buf 16 r) of
        None \<Rightarrow> None
      | Some (n, s) \<Rightarrow>
          if 0 < sint n then
            (case call e s (libc_write buf n r) of None \<Rightarrow> None | Some (_, s) \<Rightarrow> cat_loop e r fd buf s)
          else Some s)"

definition cat_file :: "env \<Rightarrow> registers \<Rightarrow> u32 \<Rightarrow> u32 \<Rightarrow> system \<Rightarrow> (sys_end \<times> system) option" where
  "cat_file e r fd buf s =
     (case cat_loop e r fd buf s of
        None \<Rightarrow> None
      | Some s \<Rightarrow> (case call e s (libc_close fd r) of None \<Rightarrow> None | Some (_, s) \<Rightarrow> syscall_handler e s (libc_exit r)))"

text \<open>\<open>write(p, strlen(p))\<close>.\<close>

definition write_string :: "env \<Rightarrow> registers \<Rightarrow> u32 \<Rightarrow> system \<Rightarrow> system option" where
  "write_string e r p s =
     (case vstring (mach s) p of None \<Rightarrow> None | Some str \<Rightarrow> map_option snd (call e s (libc_write p (of_nat (length str)) r)))"

definition cat_fails :: "env \<Rightarrow> registers \<Rightarrow> u32 \<Rightarrow> u32 \<Rightarrow> u32 \<Rightarrow> system \<Rightarrow> (sys_end \<times> system) option" where
  "cat_fails e r err filename nl s =
     Option.bind (write_string e r err s) (\<lambda>s.
     Option.bind (write_string e r filename s) (\<lambda>s.
     Option.bind (call e s (libc_write nl 1 r)) (\<lambda>(_, s). syscall_handler e s (libc_exit r))))"

definition cat_start :: "env \<Rightarrow> registers \<Rightarrow> u32 \<Rightarrow> u32 \<Rightarrow> u32 \<Rightarrow> u32 \<Rightarrow> u32 \<Rightarrow> u32 \<Rightarrow> system \<Rightarrow> (sys_end \<times> system) option" where
  "cat_start e r argc argv bigfile err nl buf s =
     (case (if 2 \<le> sint argc then map_option (\<lambda>b. get_le32 b 0) (vloads (mach s) (argv + 4) 4) else Some bigfile) of
        None \<Rightarrow> None
      | Some filename \<Rightarrow>
          (case call e s (libc_open filename r) of
             None \<Rightarrow> None
           | Some (fd, s) \<Rightarrow> if sint fd < 0 then cat_fails e r err filename nl s else cat_file e r fd buf s))"

section \<open>The buffer\<close>

text \<open>The buffer is mapped, each of its bytes at an address of its own.\<close>

definition buffer_at :: "machine \<Rightarrow> u32 \<Rightarrow> nat \<Rightarrow> (nat \<Rightarrow> u32) \<Rightarrow> bool" where
  "buffer_at m v n P \<longleftrightarrow> (\<forall>k < n. phys_of m (v + of_nat k) = Some (P k)) \<and> inj_on P {..<n}"

lemma phys_of_fs [simp]: "phys_of (m\<lparr>kern := (kern m)\<lparr>fs := g\<rparr>\<rparr>) v = phys_of m v"
  by (simp add: phys_of_def)

lemma buffer_at_cong: "mpg m' = mpg m \<Longrightarrow> buffer_at m' v n P = buffer_at m v n P"
  by (simp add: buffer_at_def phys_of_def)

lemma buffer_at_le: "buffer_at m v n P \<Longrightarrow> k \<le> n \<Longrightarrow> buffer_at m v k P"
  by (auto simp: buffer_at_def inj_on_def)

lemma vloads_spec:
  assumes "\<And>k. k < length bs \<Longrightarrow> phys_of m (v + of_nat k) = Some (P k)" "\<And>k. k < length bs \<Longrightarrow> ram m (P k) = bs ! k"
  shows "vloads m v (length bs) = Some bs"
  using assms
proof (induction bs arbitrary: v P)
  case (Cons x bs)
  have "phys_of m v = Some (P 0)" "ram m (P 0) = x" using Cons.prems [of 0] by simp_all
  moreover have "vloads m (v + 1) (length bs) = Some bs"
  proof (rule Cons.IH [of _ "\<lambda>k. P (Suc k)"])
    show "phys_of m (v + 1 + of_nat k) = Some (P (Suc k))" if "k < length bs" for k
      using Cons.prems(1) [of "Suc k"] that by (simp add: ac_simps)
    show "ram m (P (Suc k)) = bs ! k" if "k < length bs" for k using Cons.prems(2) [of "Suc k"] that by simp
  qed
  ultimately show ?case by (simp add: vload_def)
qed simp

section \<open>One round\<close>

text \<open>The state after some rounds: the descriptor has moved, the buffer has changed, \<open>bs\<close> is on the terminal.\<close>

definition cat_state :: "system \<Rightarrow> nat \<Rightarrow> (u32 \<Rightarrow> u8) \<Rightarrow> open_file \<Rightarrow> bytes \<Rightarrow> system" where
  "cat_state s i R f bs =
     s\<lparr>mach := (mach s)\<lparr>ram := R, kern := (kern (mach s))\<lparr>fs := (fs_of s)\<lparr>open_files := (open_files (fs_of s))[i := f]\<rparr>\<rparr>\<rparr>,
       con := (con s)\<lparr>screen := foldl terminal_putchar (screen (con s)) bs\<rparr>\<rparr>"

lemma cat_state_state [simp]: "cat_state (cat_state s i R f bs) i R' f' bs' = cat_state s i R' f' (bs @ bs')"
  by (simp add: cat_state_def)

lemma cat_state_fields [simp]:
  "ram (mach (cat_state s i R f bs)) = R" "fs_lay (fs_of (cat_state s i R f bs)) = fs_lay (fs_of s)" "fs_disk (fs_of (cat_state s i R f bs)) = fs_disk (fs_of s)"
  "open_files (fs_of (cat_state s i R f bs)) = (open_files (fs_of s))[i := f]"
  by (simp_all add: cat_state_def)

lemma cat_state_buffer [simp]: "buffer_at (mach (cat_state s i R f bs)) v n P = buffer_at (mach s) v n P"
  by (rule buffer_at_cong) (simp add: cat_state_def)

lemma call_read:
  assumes "fat_read (fs_of s) (sint fd) 16 = (int (length bs), bs, (fs_of s)\<lparr>open_files := (open_files (fs_of s))[i := f]\<rparr>)"
    and "fd \<noteq> 0" "buffer_at (mach s) buf (length bs) P"
  obtains R where "call e s (libc_read fd buf 16 r) = Some (of_nat (length bs), cat_state s i R f [])"
    "\<And>k. k < length bs \<Longrightarrow> R (P k) = bs ! k" "\<And>a. (\<forall>k < length bs. a \<noteq> P k) \<Longrightarrow> R a = ram (mach s) a"
proof -
  let ?s = "set_fs ((fs_of s)\<lparr>open_files := (open_files (fs_of s))[i := f]\<rparr>) s"
  have "phys_of (mach ?s) (buf + of_nat k) = Some (P k)" if "k < length bs" for k
    using assms(3) that by (simp add: set_fs_def set_kern_def buffer_at_def)
  then obtain R where R: "vstores (mach ?s) buf bs = Some ((mach ?s)\<lparr>ram := R\<rparr>)" "\<forall>k < length bs. R (P k) = bs ! k"
      "\<forall>a. (\<forall>k < length bs. a \<noteq> P k) \<longrightarrow> R a = ram (mach ?s) a"
    using vstores_spec [of bs "mach ?s" buf P] assms(3) by (auto simp: buffer_at_def)
  have "syscall_handler e s (libc_read fd buf 16 r) = Some (Returns (of_nat (length bs)), cat_state s i R f [])"
    using R(1) assms(1,2) by (simp add: syscall_handler_def libc_read_def SYSCALL_defs sys_read_def store_def returns_def)
      (simp add: set_fs_def set_kern_def cat_state_def)
  then show ?thesis using R by (intro that [of R]) (simp_all add: call_def set_fs_def set_kern_def)
qed

lemma call_write:
  assumes "buffer_at (mach s) buf (length bs) P" "\<And>k. k < length bs \<Longrightarrow> ram (mach s) (P k) = bs ! k" "length bs < 4294967296"
  shows "call e s (libc_write buf (of_nat (length bs)) r) = Some (of_nat (length bs), set_term (foldl terminal_putchar (screen (con s)) bs) s)"
proof -
  have "vloads (mach s) buf (length bs) = Some bs" by (rule vloads_spec [OF _ assms(2)]) (use assms(1) in \<open>simp_all add: buffer_at_def\<close>)
  then show ?thesis
    using assms(3) by (simp add: call_def syscall_handler_def libc_write_def SYSCALL_defs sys_write_def unat_of_nat_u32)
qed

text \<open>What a round finds: an open descriptor at a position in a sound file, and a buffer.\<close>

definition cat_ready :: "system \<Rightarrow> u32 \<Rightarrow> u32 \<Rightarrow> (nat \<Rightarrow> u32) \<Rightarrow> nat \<Rightarrow> u16 \<Rightarrow> u16 list \<Rightarrow> bool" where
  "cat_ready s fd buf P i c cs \<longleftrightarrow>
     fd_index (open_files (fs_of s)) (sint fd) = Some i \<and> i < length (open_files (fs_of s)) \<and>
     file_ok (fs_lay (fs_of s)) (fs_disk (fs_of s)) c cs (unat (file_size (open_files (fs_of s) ! i))) \<and>
     fpos_ok (fs_lay (fs_of s)) cs (open_files (fs_of s) ! i) \<and> buffer_at (mach s) buf 16 P"

text \<open>The bytes of the file behind the position.\<close>

definition bytes_left :: "system \<Rightarrow> nat \<Rightarrow> u16 list \<Rightarrow> bytes" where
  "bytes_left s i cs =
     (let f = open_files (fs_of s) ! i
      in drop (unat (file_offset f)) (file_contents (fs_lay (fs_of s)) (fs_disk (fs_of s)) cs (unat (file_size f))))"

lemma length_bytes_left:
  assumes "cat_ready s fd buf P i c cs"
  shows "length (bytes_left s i cs) = unat (file_size (open_files (fs_of s) ! i)) - unat (file_offset (open_files (fs_of s) ! i))"
  using assms by (simp add: bytes_left_def Let_def cat_ready_def file_ok_def file_contents_def length_chain_data)

lemma cat_round:
  assumes "cat_ready s fd buf P i c cs" "bs = take 16 (bytes_left s i cs)"
  obtains R f where "call e s (libc_read fd buf 16 r) = Some (of_nat (length bs), cat_state s i R f [])"
    "call e (cat_state s i R f []) (libc_write buf (of_nat (length bs)) r) = Some (of_nat (length bs), cat_state s i R f bs)"
    "cat_ready (cat_state s i R f bs) fd buf P i c cs" "bytes_left (cat_state s i R f bs) i cs = drop 16 (bytes_left s i cs)"
    "\<And>a. (\<forall>k < 16. a \<noteq> P k) \<Longrightarrow> R a = ram (mach s) a" "unat (file_offset f) = unat (file_offset (open_files (fs_of s) ! i)) + length bs"
    "file_size f = file_size (open_files (fs_of s) ! i)"
proof -
  let ?f = "open_files (fs_of s) ! i"
  let ?n = "min 16 (unat (file_size ?f) - unat (file_offset ?f))"
  note a = assms(1) [unfolded cat_ready_def]
  have len: "length bs = ?n" using assms(2) length_bytes_left [OF assms(1)] by simp
  obtain f where f: "fat_read (fs_of s) (sint fd) 16 = (int ?n, take ?n (bytes_left s i cs), (fs_of s)\<lparr>open_files := (open_files (fs_of s))[i := f]\<rparr>)"
      "fpos_ok (fs_lay (fs_of s)) cs f" "unat (file_offset f) = unat (file_offset ?f) + ?n"
      "\<exists>fo cc co. f = ?f\<lparr>file_offset := fo, current_cluster := cc, cluster_offset := co\<rparr>"
    using fat_read_spec [of "fs_of s" "sint fd" i ?f c cs 16 ?n] a by (auto simp: bytes_left_def Let_def)
  have bs: "take ?n (bytes_left s i cs) = bs" using assms(2) length_bytes_left [OF assms(1)] by (simp add: min_def)
  have nz: "fd \<noteq> 0" using a by (auto simp: fd_index_def FAT_FD_BASE_def Let_def)
  have buf: "buffer_at (mach s) buf (length bs) P" using a buffer_at_le [of "mach s" buf 16 P "length bs"] len by simp
  obtain R where R: "call e s (libc_read fd buf 16 r) = Some (of_nat (length bs), cat_state s i R f [])"
      "\<And>k. k < length bs \<Longrightarrow> R (P k) = bs ! k" "\<And>a. (\<forall>k < length bs. a \<noteq> P k) \<Longrightarrow> R a = ram (mach s) a"
    using call_read [of s fd bs i f buf P e r, OF f(1) [unfolded bs, folded len] nz buf] by blast
  have fields: "in_use f = in_use ?f" "file_size f = file_size ?f" using f(4) by auto
  have "call e (cat_state s i R f []) (libc_write buf (of_nat (length bs)) r) = Some (of_nat (length bs), cat_state s i R f bs)"
    using call_write [of "cat_state s i R f []" buf bs P e r] R(2) buf len by (simp add: set_term_def) (simp add: cat_state_def)
  moreover have "cat_ready (cat_state s i R f bs) fd buf P i c cs"
    using a f(2) fields by (simp add: cat_ready_def fd_index_def Let_def split: if_splits)
  moreover have "bytes_left (cat_state s i R f bs) i cs = drop 16 (bytes_left s i cs)"
    using a f(3) fields length_bytes_left [OF assms(1)] by (auto simp: bytes_left_def Let_def min_def add.commute)
  moreover have "R a = ram (mach s) a" if "\<forall>k < 16. a \<noteq> P k" for a using R(3) [of a] that len by auto
  ultimately show ?thesis using R(1) f(3) len fields(2) by (intro that [of R f]) simp_all
qed

section \<open>The loop\<close>

lemma cat_loop_spec:
  assumes "cat_ready s fd buf P i c cs"
  shows "\<exists>R f. cat_loop e r fd buf s = Some (cat_state s i R f (bytes_left s i cs)) \<and> (\<forall>a. (\<forall>k < 16. a \<noteq> P k) \<longrightarrow> R a = ram (mach s) a) \<and>
    file_offset f = file_size f \<and> in_use f"
  using assms
proof (induction "length (bytes_left s i cs)" arbitrary: s rule: less_induct)
  case less
  obtain bs where bs: "bs = take 16 (bytes_left s i cs)" by simp
  obtain R f where c: "call e s (libc_read fd buf 16 r) = Some (of_nat (length bs), cat_state s i R f [])"
    "call e (cat_state s i R f []) (libc_write buf (of_nat (length bs)) r) = Some (of_nat (length bs), cat_state s i R f bs)"
    "cat_ready (cat_state s i R f bs) fd buf P i c cs" "bytes_left (cat_state s i R f bs) i cs = drop 16 (bytes_left s i cs)"
    "\<And>a. (\<forall>k < 16. a \<noteq> P k) \<Longrightarrow> R a = ram (mach s) a" "unat (file_offset f) = unat (file_offset (open_files (fs_of s) ! i)) + length bs"
    "file_size f = file_size (open_files (fs_of s) ! i)"
    using cat_round [OF less.prems bs, of e r] by blast
  have n: "sint (of_nat (length bs) :: u32) = int (length bs)" using bs by (simp add: sint_of_nat_u32)
  show ?case
  proof (cases "bs = []")
    case True
    then have z: "bytes_left s i cs = []" using bs by (cases "bytes_left s i cs") simp_all
    have "file_offset f = file_size f" using c(3,6,7) True length_bytes_left [OF less.prems] z
      by (auto simp: cat_ready_def fpos_ok_def word_le_nat_alt word_unat_eq_iff)
    moreover have "in_use f" using c(3) less.prems by (auto simp: cat_ready_def fd_index_def Let_def split: if_splits)
    moreover have "cat_loop e r fd buf s = Some (cat_state s i R f [])" using c(1) n True by (simp add: cat_loop.simps [of e r fd buf s])
    ultimately show ?thesis using c(5) z by auto
  next
    case False
    then have l: "length (drop 16 (bytes_left s i cs)) < length (bytes_left s i cs)" using bs by auto
    have "cat_loop e r fd buf s = cat_loop e r fd buf (cat_state s i R f bs)"
      using c(1,2) n False by (simp add: cat_loop.simps [of e r fd buf s])
    moreover have "bs @ drop 16 (bytes_left s i cs) = bytes_left s i cs" using bs by simp
    ultimately show ?thesis using less.hyps [OF _ c(3)] l c(4,5) by (auto simp: less.prems)
  qed
qed

section \<open>The whole program\<close>

text \<open>What is left of the program's state when it exits: its descriptor closed, the terminal and the buffer changed.\<close>

lemma cat_file_spec:
  assumes "cat_ready s fd buf P i c cs"
  shows "\<exists>R f. cat_file e r fd buf s = Some (Exits, set_kern (task_exit (kern (mach (cat_state s i R f (bytes_left s i cs))))) (cat_state s i R f (bytes_left s i cs))) \<and>
    (\<forall>a. (\<forall>k < 16. a \<noteq> P k) \<longrightarrow> R a = ram (mach s) a) \<and> \<not> in_use f"
proof -
  let ?bs = "bytes_left s i cs"
  obtain R f where l: "cat_loop e r fd buf s = Some (cat_state s i R f ?bs)" "\<forall>a. (\<forall>k < 16. a \<noteq> P k) \<longrightarrow> R a = ram (mach s) a" "in_use f"
    using cat_loop_spec [OF assms, of e r] by blast
  have "fd_index ((open_files (fs_of s))[i := f]) (sint fd) = Some i" "i < length (open_files (fs_of s))"
    using assms l(3) by (auto simp: cat_ready_def fd_index_def Let_def split: if_splits)
  then have "fat_close (fs_of (cat_state s i R f ?bs)) (sint fd) = (0, (fs_of (cat_state s i R f ?bs))\<lparr>open_files := (open_files (fs_of s))[i := f\<lparr>in_use := False\<rparr>]\<rparr>)"
    by (simp add: fat_close_def)
  then have "call e (cat_state s i R f ?bs) (libc_close fd r) = Some (0, cat_state s i R (f\<lparr>in_use := False\<rparr>) ?bs)"
    by (simp add: call_def syscall_handler_def libc_close_def SYSCALL_defs sys_close_def returns_def) (simp add: set_fs_def set_kern_def cat_state_def)
  then show ?thesis using l(1,2)
    by (intro exI [of _ R] exI [of _ "f\<lparr>in_use := False\<rparr>"]) (simp add: cat_file_def syscall_handler_def libc_exit_def SYSCALL_defs)
qed

lemma free_slot_less: "free_slot ofs = Some i \<Longrightarrow> i < MAX_OPEN_FILES"
  by (auto simp: free_slot_def find_Some_iff)

lemma call_open:
  assumes "fat_ready (fs_lay (fs_of s))" "vstring (mach s) p = Some path"
    and "fat_find_entry (fs_lay (fs_of s)) (fs_disk (fs_of s)) (fs_lfn (fs_of s)) path = Some (Some d, lfn)" "de_attr d AND FAT_ATTR_DIRECTORY = 0"
    and "free_slot (open_files (fs_of s)) = Some i" "length (open_files (fs_of s)) = MAX_OPEN_FILES"
    and "file_ok (fs_lay (fs_of s)) (fs_disk (fs_of s)) (de_first_cluster_low d) cs (unat (de_file_size d))" "buffer_at (mach s) buf 16 P"
  obtains fd f where "call e s (libc_open p r) = Some (fd, set_fs ((fs_of s)\<lparr>fs_lfn := lfn, open_files := (open_files (fs_of s))[i := f]\<rparr>) s)" "0 \<le> sint fd"
    "cat_ready (set_fs ((fs_of s)\<lparr>fs_lfn := lfn, open_files := (open_files (fs_of s))[i := f]\<rparr>) s) fd buf P i (de_first_cluster_low d) cs"
    "file_offset f = 0" "file_size f = de_file_size d"
proof -
  have i: "i < 8" using free_slot_less [OF assms(5)] by (simp add: MAX_OPEN_FILES_def)
  let ?f = "(open_files (fs_of s) ! i)\<lparr>in_use := True, file_size := de_file_size d, current_cluster := de_first_cluster_low d,
     of_first_cluster := de_first_cluster_low d, cluster_offset := 0, file_offset := 0, writable := False, owner_task_id := task_of s\<rparr>"
  let ?fs = "(fs_of s)\<lparr>fs_lfn := lfn, open_files := (open_files (fs_of s))[i := ?f]\<rparr>"
  let ?fd = "of_int (int i + FAT_FD_BASE) :: u32"
  have fd: "sint ?fd = int i + FAT_FD_BASE" using i sint_of_nat_u32 [of "i + 3"] by (simp add: FAT_FD_BASE_def)
  have "fat_open (fs_of s) (task_of s) path = Some (int i + FAT_FD_BASE, ?fs)" using assms(1,3-5) by (simp add: fat_open_def)
  then have "call e s (libc_open p r) = Some (?fd, set_fs ?fs s)"
    using assms(1,2) by (simp add: call_def syscall_handler_def libc_open_def SYSCALL_defs sys_open_def fat_string_def returns_def)
  moreover have "cat_ready (set_fs ?fs s) ?fd buf P i (de_first_cluster_low d) cs"
  proof -
    have "fpos_ok (fs_lay (fs_of s)) cs ?f" using assms(7) by (cases cs) (auto simp: fpos_ok_def file_ok_def word_less_nat_alt)
    moreover have "buffer_at (mach (set_fs ?fs s)) buf 16 P" using assms(8) buffer_at_cong [of "mach (set_fs ?fs s)" "mach s"] by (simp add: set_fs_def set_kern_def)
    ultimately show ?thesis using assms(6,7) i fd by (simp add: cat_ready_def) (simp add: set_fs_def set_kern_def fd_index_def MAX_OPEN_FILES_def)
  qed
  ultimately show ?thesis using fd by (intro that [of ?fd ?f]) (simp_all add: FAT_FD_BASE_def)
qed

text \<open>
  C1: \<open>cat\<close> with the name of a file prints the whole of that file, byte for byte and in order, and
  exits, whatever the length of the file and wherever its clusters are. It leaves its descriptor closed,
  the network, the disk and the other descriptors as they were, and writes no memory but its own
  buffer of 16 bytes.
\<close>

theorem cat_prints_file:
  assumes "2 \<le> sint argc" "vloads (mach s) (argv + 4) 4 = Some b" "vstring (mach s) (get_le32 b 0) = Some path"
    and "fat_ready (fs_lay (fs_of s))"
    and "fat_find_entry (fs_lay (fs_of s)) (fs_disk (fs_of s)) (fs_lfn (fs_of s)) path = Some (Some d, lfn)" "de_attr d AND FAT_ATTR_DIRECTORY = 0"
    and "free_slot (open_files (fs_of s)) = Some i" "length (open_files (fs_of s)) = MAX_OPEN_FILES"
    and "file_ok (fs_lay (fs_of s)) (fs_disk (fs_of s)) (de_first_cluster_low d) cs (unat (de_file_size d))" "buffer_at (mach s) buf 16 P"
  shows "\<exists>s' f. cat_start e r argc argv bigfile err nl buf s = Some (Exits, s') \<and>
    con s' = (con s)\<lparr>screen := foldl terminal_putchar (screen (con s)) (file_contents (fs_lay (fs_of s)) (fs_disk (fs_of s)) cs (unat (de_file_size d)))\<rparr> \<and>
    kern (mach s') = task_exit ((kern (mach s))\<lparr>fs := (fs_of s)\<lparr>fs_lfn := lfn, open_files := (open_files (fs_of s))[i := f]\<rparr>\<rparr>) \<and> \<not> in_use f \<and>
    lan s' = lan s \<and> (\<forall>a. (\<forall>k < 16. a \<noteq> P k) \<longrightarrow> ram (mach s') a = ram (mach s) a)"
proof -
  obtain fd f1 where o: "call e s (libc_open (get_le32 b 0) r) = Some (fd, set_fs ((fs_of s)\<lparr>fs_lfn := lfn, open_files := (open_files (fs_of s))[i := f1]\<rparr>) s)" "0 \<le> sint fd"
    "cat_ready (set_fs ((fs_of s)\<lparr>fs_lfn := lfn, open_files := (open_files (fs_of s))[i := f1]\<rparr>) s) fd buf P i (de_first_cluster_low d) cs"
    "file_offset f1 = 0" "file_size f1 = de_file_size d"
    using call_open [OF assms(4,3,5-10), of e r] by blast
  let ?s = "set_fs ((fs_of s)\<lparr>fs_lfn := lfn, open_files := (open_files (fs_of s))[i := f1]\<rparr>) s"
  let ?bs = "bytes_left ?s i cs"
  obtain R f where c: "cat_file e r fd buf ?s = Some (Exits, set_kern (task_exit (kern (mach (cat_state ?s i R f ?bs)))) (cat_state ?s i R f ?bs))"
    "\<forall>a. (\<forall>k < 16. a \<noteq> P k) \<longrightarrow> R a = ram (mach ?s) a" "\<not> in_use f"
    using cat_file_spec [OF o(3), of e r] by blast
  have i: "i < length (open_files (fs_of s))" using free_slot_less [OF assms(7)] assms(8) by simp
  have bs: "?bs = file_contents (fs_lay (fs_of s)) (fs_disk (fs_of s)) cs (unat (de_file_size d))"
    using i o(4,5) by (simp add: bytes_left_def set_fs_def set_kern_def)
  have "cat_start e r argc argv bigfile err nl buf s = cat_file e r fd buf ?s" using assms(1,2) o(1,2) by (simp add: cat_start_def)
  then show ?thesis using c bs i by (auto simp: set_kern_def cat_state_def set_fs_def)
qed

text \<open>A task whose page 5 holds its argument vector at 0x5100, the string \<open>a.txt\<close> at 0x5200 and the buffer at 0x5300.\<close>

definition cat_system :: system where
  "cat_system = \<lparr>mach = \<lparr>kern = kernel3\<lparr>fs := fs_a,
       pg := (pg kernel0)\<lparr>paging.mem := (\<lambda>_. 0)(slot 0x100000 0 := 0x102003, slot 0x102000 5 := 0x5003)\<rparr>\<rparr>,
     ram = (\<lambda>a. if a = 0x5105 then 0x52 else if 0x5200 \<le> a \<and> a < 0x5205 then name_a ! unat (a - 0x5200) else 0)\<rparr>,
     con = console0, lan = host 1, rtc_reads = 0, exec_argv = []\<rparr>"

lemma cat_phys: "unat v div 4096 = 5 \<Longrightarrow> phys_of (mach cat_system) v = Some v"
proof -
  assume v: "unat v div 4096 = 5"
  then have "unat (0x5000 + v mod 4096) = unat v" using div_mult_mod_eq [of "unat v" 4096] by (simp add: unat_add_u32 unat_mod)
  then have "0x5000 + v mod 4096 = v" by (simp add: word_unat_eq_iff)
  then show ?thesis using v by (simp add: phys_of_def cat_system_def kernel_map_def slot_def page_base_def kernel0_def PAGE_PRESENT_def)
qed

lemma cat_ram:
  "vloads (mach cat_system) 0x5104 4 = Some [0, 0x52, 0, 0]" "vstring (mach cat_system) 0x5200 = Some name_a"
proof -
  have r: "ram (mach cat_system) a = (if a = 0x5105 then 0x52 else if 0x5200 \<le> a \<and> a < 0x5205 then name_a ! unat (a - 0x5200) else 0)" for a
    by (simp add: cat_system_def)
  have "vloads (mach cat_system) 0x5104 (Suc (Suc (Suc (Suc 0)))) = Some [0, 0x52, 0, 0]" by (simp add: vload_def cat_phys r)
  moreover have "Suc (Suc (Suc (Suc 0))) = 4" by simp
  ultimately show "vloads (mach cat_system) 0x5104 4 = Some [0, 0x52, 0, 0]" by (simp only:)
  show "vstring (mach cat_system) 0x5200 = Some name_a"
    by (simp add: vstring.simps [of _ "0x5200"] vstring.simps [of _ "0x5201"] vstring.simps [of _ "0x5202"] vstring.simps [of _ "0x5203"]
        vstring.simps [of _ "0x5204"] vstring.simps [of _ "0x5205"] vload_def cat_phys r) (simp add: name_a_def cstr_def)
qed

lemma cat_buffer: "buffer_at (mach cat_system) 0x5300 16 (\<lambda>k. 0x5300 + of_nat k)"
proof -
  have u: "unat (0x5300 + of_nat k :: u32) = 0x5300 + k" if "k < 16" for k using that by (simp add: unat_add_u32 unat_of_nat_u32)
  have "inj_on (\<lambda>k. 0x5300 + of_nat k :: u32) {..<16}" by (rule inj_onI) (metis u add_left_cancel lessThan_iff)
  moreover have "phys_of (mach cat_system) (0x5300 + of_nat k) = Some (0x5300 + of_nat k)" if "k < 16" for k using cat_phys u [OF that] that by simp
  ultimately show ?thesis by (simp add: buffer_at_def)
qed

theorem cat_prints_file_witness:
  "\<exists>s'. cat_start env0 regs0 2 0x5100 0 0 0 0x5300 cat_system = Some (Exits, s') \<and>
     screen (con s') = foldl terminal_putchar (screen console0) (replicate 512 0x41 @ replicate 512 0x42 @ replicate 276 0x43)"
proof -
  have f: "fs_of cat_system = fs_a" by (simp add: cat_system_def)
  obtain d lfn where d: "fat_find_entry (fs_lay fs_a) (fs_disk fs_a) (fs_lfn fs_a) name_a = Some (Some d, lfn)"
    "de_attr d = 0" "de_file_size d = 1300" "de_first_cluster_low d = 2"
    using find_a by (auto simp: fs_a_def fs0_def)
  have fr: "fat_ready (fs_lay fs_a)" "free_slot (open_files fs_a) = Some 1" "length (open_files fs_a) = MAX_OPEN_FILES"
    by (simp_all add: fs_a_def fs0_def vol0_def free_slot_def MAX_OPEN_FILES_def upt_rec file_a_def)
  have a: "sint (2 :: u32) = 2" "get_le32 [0, 0x52, 0, 0] 0 = 0x5200" by (simp_all add: get_le32_def)
  show ?thesis
    using cat_prints_file [of 2 cat_system "0x5100" "[0, 0x52, 0, 0]" name_a d lfn 1 "[2, 5, 3]" "0x5300" "\<lambda>k. 0x5300 + of_nat k" env0 regs0 0 0 0]
      cat_ram cat_buffer d fr file_a_ok a
    by (auto simp: f fd_a contents_a cat_system_def [THEN arg_cong [where f = con]])
qed

section \<open>A file that cannot be opened\<close>

lemma vstring_loads: "vstring m v = Some str \<Longrightarrow> vloads m v (length str) = Some str"
proof (induction str arbitrary: v)
  case (Cons x str)
  then have "vload m v = Some x" "vstring m (v + 1) = Some str"
    by (auto simp: vstring.simps [of m v] split: option.splits if_splits bind_splits)
  then show ?case using Cons.IH by simp
qed simp

lemma call_write_loads:
  "vloads (mach s) p (unat n) = Some bs \<Longrightarrow> call e s (libc_write p n r) = Some (n, set_term (foldl terminal_putchar (screen (con s)) bs) s)"
  by (simp add: call_def syscall_handler_def libc_write_def SYSCALL_defs sys_write_def)

lemma write_string_spec:
  assumes "vstring (mach s) p = Some str" "length str < 4294967296"
  shows "write_string e r p s = Some (set_term (foldl terminal_putchar (screen (con s)) str) s)"
  using assms call_write_loads [of s p "of_nat (length str)" str] vstring_loads [of "mach s" p str] by (simp add: write_string_def unat_of_nat_u32)

lemma set_term_simps [simp]: "mach (set_term t s) = mach s" "screen (con (set_term t s)) = t" "set_term t (set_term t' s) = set_term t s"
  by (simp_all add: set_term_def)

lemma vstring_suff: "vstring m v = Some str \<Longrightarrow> vload m' = vload m \<Longrightarrow> vstring m' v = Some str"
proof (induction str arbitrary: v)
  case Nil
  then show ?case by (auto simp: vstring.simps [of m v] vstring.simps [of m' v] split: option.splits if_splits bind_splits)
next
  case (Cons x str)
  then have "vload m v = Some x" "x \<noteq> 0" "vstring m (v + 1) = Some str"
    by (auto simp: vstring.simps [of m v] split: option.splits if_splits bind_splits)
  then show ?case using Cons.IH Cons.prems(2) by (simp add: vstring.simps [of m' v])
qed

lemma vstring_cong: "vload m' = vload m \<Longrightarrow> vstring m' v = vstring m v"
  by (metis not_Some_eq vstring_suff)

lemma vloads_cong: "vload m' = vload m \<Longrightarrow> vloads m' v n = vloads m v n"
  by (induction n arbitrary: v) (simp_all split: option.splits)

lemma set_fs_string [simp]: "vstring (mach (set_fs f s)) p = vstring (mach s) p" "vloads (mach (set_fs f s)) p n = vloads (mach s) p n"
proof -
  have l: "vload (mach (set_fs f s)) = vload (mach s)" by (rule ext) (simp add: vload_def set_fs_def set_kern_def)
  show "vloads (mach (set_fs f s)) p n = vloads (mach s) p n" by (rule vloads_cong [OF l])
  show "vstring (mach (set_fs f s)) p = vstring (mach s) p" by (rule vstring_cong [OF l])
qed

text \<open>A name that resolves to nothing is reported with its message, and the program exits.\<close>

lemma cat_reports_missing:
  assumes "2 \<le> sint argc" "vloads (mach s) (argv + 4) 4 = Some b" "vstring (mach s) (get_le32 b 0) = Some path" "length path < 4294967296"
    and "fat_ready (fs_lay (fs_of s))" "fat_find_entry (fs_lay (fs_of s)) (fs_disk (fs_of s)) (fs_lfn (fs_of s)) path = Some (None, lfn)"
    and "vstring (mach s) err = Some (cstr ''cat: could not open '')" "vloads (mach s) nl 1 = Some [0x0A]"
  shows "\<exists>s'. cat_start e r argc argv bigfile err nl buf s = Some (Exits, s') \<and>
    screen (con s') = foldl terminal_putchar (screen (con s)) (cstr ''cat: could not open '' @ path @ [0x0A])"
proof -
  let ?s = "set_fs ((fs_of s)\<lparr>fs_lfn := lfn\<rparr>) s"
  have o: "call e s (libc_open (get_le32 b 0) r) = Some (- 1, ?s)"
    using assms(3,5,6) by (simp add: call_def syscall_handler_def libc_open_def SYSCALL_defs sys_open_def fat_string_def fat_open_def returns_def)
  have nl: "vloads (mach ?s) nl (unat (1 :: u32)) = Some [0x0A]" using assms(8) by (simp only: set_fs_string unat_1)
  have c: "con ?s = con s" by (simp add: set_fs_def set_kern_def)
  have st: "cat_start e r argc argv bigfile err nl buf s = cat_fails e r err (get_le32 b 0) nl ?s" using assms(1,2) o by (simp add: cat_start_def)
  let ?t = "\<lambda>bs. set_term (foldl terminal_putchar (screen (con s)) bs) ?s"
  have "write_string e r err ?s = Some (?t (cstr ''cat: could not open ''))"
    by (subst write_string_spec) (use assms(7) in \<open>simp_all add: c, simp add: cstr_def\<close>)
  moreover have "write_string e r (get_le32 b 0) (?t (cstr ''cat: could not open '')) = Some (?t (cstr ''cat: could not open '' @ path))"
    by (subst write_string_spec) (use assms(3,4) in simp_all)
  moreover have "call e (?t (cstr ''cat: could not open '' @ path)) (libc_write nl 1 r) = Some (1, ?t (cstr ''cat: could not open '' @ path @ [0x0A]))"
    using call_write_loads [of "?t (cstr ''cat: could not open '' @ path)" nl 1 "[0x0A]" e r] nl by simp
  ultimately have "cat_fails e r err (get_le32 b 0) nl ?s =
      Some (Exits, let s' = set_term (foldl terminal_putchar (screen (con s)) (cstr ''cat: could not open '' @ path @ [0x0A])) ?s in set_kern (task_exit (kern (mach s'))) s')"
    by (simp add: cat_fails_def syscall_handler_def libc_exit_def SYSCALL_defs Let_def)
  then show ?thesis using st by (simp add: Let_def) (simp add: set_kern_def)
qed

end
