(* ===== verification/Netecho.thy ===== *)
theory Netecho
  imports Cat
begin

text \<open>
  The echo server src/userspace/netecho.c on the system call interface: what it does to the network is
  what a pipe from \<open>tcp_socket_recv\<close> to \<open>tcp_socket_send\<close> inside the kernel would do, although every byte
  goes through the buffer of the program.
\<close>

section \<open>The program\<close>

partial_function (option) netecho_loop :: "env \<Rightarrow> registers \<Rightarrow> u32 \<Rightarrow> u32 \<Rightarrow> system \<Rightarrow> system option" where
  "netecho_loop e r sockfd buf s =
     (case call e s (libc_socket_recv sockfd buf 512 r) of
        None \<Rightarrow> None
      | Some (n, s) \<Rightarrow>
          if 0 < sint n then
            (case call e s (libc_socket_send sockfd buf n r) of None \<Rightarrow> None | Some (_, s) \<Rightarrow> netecho_loop e r sockfd buf s)
          else Some s)"

definition netecho_start :: "env \<Rightarrow> registers \<Rightarrow> u32 \<Rightarrow> u32 \<Rightarrow> u32 \<Rightarrow> u32 \<Rightarrow> system \<Rightarrow> (sys_end \<times> system) option" where
  "netecho_start e r waiting_msg connected_msg done_msg buf s =
     Option.bind (write_string e r waiting_msg s) (\<lambda>s.
     Option.bind (call e s (libc_socket_accept r)) (\<lambda>(sockfd, s).
     Option.bind (write_string e r connected_msg s) (\<lambda>s.
     Option.bind (netecho_loop e r sockfd buf s) (\<lambda>s.
     Option.bind (call e s (libc_socket_close sockfd r)) (\<lambda>(_, s).
     Option.bind (write_string e r done_msg s) (\<lambda>s. syscall_handler e s (libc_exit r)))))))"

section \<open>The pipe\<close>

partial_function (option) echo_pipe :: "(net \<Rightarrow> net) \<Rightarrow> int \<Rightarrow> net \<Rightarrow> net option" where
  "echo_pipe hlt i l =
     (case tcp_socket_recv hlt l i 512 of
        None \<Rightarrow> None
      | Some (n, bs, l) \<Rightarrow> if 0 < n then echo_pipe hlt i (snd (tcp_socket_send l i bs (of_nat (length bs)))) else Some l)"

section \<open>One round\<close>

lemma tcp_drain_le: "k \<le> m \<Longrightarrow> length (fst (tcp_drain c k m)) \<le> unat m - unat k"
proof (induction c k m rule: tcp_drain.induct)
  case (1 c k m)
  show ?case
  proof (cases "rx_head c \<noteq> rx_tail c \<and> k < m")
    case True
    then have "k + 1 \<le> m" "unat (k + 1) = unat k + 1" using unat_inc_u32 [of k m] by (simp_all add: inc_le)
    then show ?thesis using 1(1) [OF True] True by (subst tcp_drain.simps) (auto simp: word_less_nat_alt split: prod.splits)
  next
    case False
    then show ?thesis by (subst tcp_drain.simps) (auto simp del: not_less)
  qed
qed

lemma recv_length:
  assumes "tcp_socket_recv hlt l i m = Some (n, bs, l')"
  shows "(n = -1 \<and> bs = [] \<or> n = int (length bs)) \<and> length bs \<le> unat m"
proof -
  have "length bs \<le> unat m" if "tcp_drain c 0 m = (bs, c')" for c c' using tcp_drain_le [of 0 m c] that by simp
  then show ?thesis using assms by (auto simp: tcp_socket_recv_def split: if_splits option.splits prod.splits)
qed

definition echo_state :: "system \<Rightarrow> (u32 \<Rightarrow> u8) \<Rightarrow> net \<Rightarrow> system" where
  "echo_state s R l = s\<lparr>mach := (mach s)\<lparr>ram := R\<rparr>, lan := l\<rparr>"

lemma echo_state_simps [simp]:
  "lan (echo_state s R l) = l" "ram (mach (echo_state s R l)) = R" "kern (mach (echo_state s R l)) = kern (mach s)" "con (echo_state s R l) = con s"
  "echo_state (echo_state s R l) R' l' = echo_state s R' l'" "buffer_at (mach (echo_state s R l)) v n P = buffer_at (mach s) v n P"
  by (simp_all add: echo_state_def buffer_at_def)

lemma call_recv_None: "tcp_socket_recv (idle_net e) (lan s) (sint fd) 512 = None \<Longrightarrow> call e s (libc_socket_recv fd buf 512 r) = None"
  by (simp add: call_def syscall_handler_def libc_socket_recv_def SYSCALL_defs sys_recv_def)

lemma call_recv:
  assumes "tcp_socket_recv (idle_net e) (lan s) (sint fd) 512 = Some (n, bs, l)" "buffer_at (mach s) buf (length bs) P"
  obtains R where "call e s (libc_socket_recv fd buf 512 r) = Some (of_int n, echo_state s R l)"
    "\<And>k. k < length bs \<Longrightarrow> R (P k) = bs ! k" "\<And>a. (\<forall>k < length bs. a \<noteq> P k) \<Longrightarrow> R a = ram (mach s) a"
proof -
  obtain R where R: "vstores (mach s) buf bs = Some ((mach s)\<lparr>ram := R\<rparr>)" "\<forall>k < length bs. R (P k) = bs ! k"
      "\<forall>a. (\<forall>k < length bs. a \<noteq> P k) \<longrightarrow> R a = ram (mach s) a"
    using vstores_spec [of bs "mach s" buf P] assms(2) by (auto simp: buffer_at_def)
  have "call e s (libc_socket_recv fd buf 512 r) = Some (of_int n, echo_state s R l)"
    using R(1) assms(1) by (simp add: call_def syscall_handler_def libc_socket_recv_def SYSCALL_defs sys_recv_def store_def returns_def echo_state_def)
  then show ?thesis using R by (intro that [of R]) simp_all
qed

lemma call_send:
  assumes "buffer_at (mach s) buf (length bs) P" "\<And>k. k < length bs \<Longrightarrow> ram (mach s) (P k) = bs ! k" "length bs \<le> 1460"
  shows "\<exists>n. call e s (libc_socket_send fd buf (of_nat (length bs)) r) = Some (n, s\<lparr>lan := snd (tcp_socket_send (lan s) (sint fd) bs (of_nat (length bs)))\<rparr>)"
proof -
  have v: "vloads (mach s) buf (length bs) = Some bs" by (rule vloads_spec [OF _ assms(2)]) (use assms(1) in \<open>simp_all add: buffer_at_def\<close>)
  have l: "\<not> (1460 :: u32) < of_nat (length bs)" "unat (of_nat (length bs) :: u32) = length bs" using assms(3) by (simp_all add: word_less_nat_alt unat_of_nat_u32)
  have n: "\<not> (sockfd_ok (sint fd) \<and> sendable (lan s) (nat (sint fd))) \<Longrightarrow> tcp_socket_send (lan s) (sint fd) b m = (- 1, lan s)" for b m
    by (auto simp: tcp_socket_send_def sendable_def Let_def)
  show ?thesis
  proof (cases "sockfd_ok (sint fd) \<and> sendable (lan s) (nat (sint fd))")
    case True
    obtain k l' where t: "tcp_socket_send (lan s) (sint fd) bs (of_nat (length bs)) = (k, l')" by fastforce
    have "sys_send s fd buf (of_nat (length bs)) = Some (Returns (of_int k), s\<lparr>lan := l'\<rparr>)"
      unfolding sys_send_def if_P [OF True] if_not_P [OF l(1)] l(2) v by (simp add: t returns_def)
    then show ?thesis by (simp add: t call_def syscall_handler_def libc_socket_send_def SYSCALL_defs)
  next
    case False
    note t = n [OF False]
    have "sys_send s fd buf (of_nat (length bs)) = Some (Returns (- 1), s)" unfolding sys_send_def if_not_P [OF False] by (simp add: t returns_def)
    then show ?thesis by (simp add: t call_def syscall_handler_def libc_socket_send_def SYSCALL_defs)
  qed
qed

lemma echo_round:
  assumes "tcp_socket_recv (idle_net e) (lan s) (sint fd) 512 = Some (n, bs, l)" "buffer_at (mach s) buf 512 P"
  obtains R where "call e s (libc_socket_recv fd buf 512 r) = Some (of_int n, echo_state s R l)" "0 < sint (of_int n :: u32) \<longleftrightarrow> 0 < n"
    "\<And>a. (\<forall>k < 512. a \<noteq> P k) \<Longrightarrow> R a = ram (mach s) a"
    "0 < n \<Longrightarrow> \<exists>k. call e (echo_state s R l) (libc_socket_send fd buf (of_int n) r) =
       Some (k, echo_state s R (snd (tcp_socket_send l (sint fd) bs (of_nat (length bs)))))"
proof -
  have n: "n = -1 \<and> bs = [] \<or> n = int (length bs)" "length bs \<le> 512" using recv_length [OF assms(1)] by simp_all
  have b: "buffer_at (mach s) buf (length bs) P" using buffer_at_le [OF assms(2)] n(2) by simp
  obtain R where R: "call e s (libc_socket_recv fd buf 512 r) = Some (of_int n, echo_state s R l)"
    "\<And>k. k < length bs \<Longrightarrow> R (P k) = bs ! k" "\<And>a. (\<forall>k < length bs. a \<noteq> P k) \<Longrightarrow> R a = ram (mach s) a"
    by (rule call_recv [OF assms(1) b]) blast
  have sg: "0 < sint (of_int n :: u32) \<longleftrightarrow> 0 < n" using n sint_of_nat_u32 [of "length bs"] by auto
  have snd: "\<exists>k. call e (echo_state s R l) (libc_socket_send fd buf (of_int n) r) =
       Some (k, echo_state s R (snd (tcp_socket_send l (sint fd) bs (of_nat (length bs)))))" if "0 < n"
    using call_send [of "echo_state s R l" buf bs P e fd r] b R(2) n that by (auto simp: echo_state_def buffer_at_def)
  have out: "R a = ram (mach s) a" if "\<forall>k < 512. a \<noteq> P k" for a using R(3) [of a] that n(2) by auto
  show ?thesis by (rule that [OF R(1) sg out snd])
qed

section \<open>The loop\<close>

lemma netecho_sound:
  assumes "netecho_loop e r fd buf s = Some s'" "buffer_at (mach s) buf 512 P"
  shows "echo_pipe (idle_net e) (sint fd) (lan s) = Some (lan s') \<and>
    (\<exists>R. s' = echo_state s R (lan s') \<and> (\<forall>a. (\<forall>k < 512. a \<noteq> P k) \<longrightarrow> R a = ram (mach s) a))"
proof -
  let ?Q = "\<lambda>e fd buf s s'. echo_pipe (idle_net e) (sint fd) (lan s) = Some (lan s') \<and>
    (\<exists>R. s' = echo_state s R (lan s') \<and> (\<forall>a. (\<forall>k < 512. a \<noteq> P k) \<longrightarrow> R a = ram (mach s) a))"
  have "buffer_at (mach s) buf 512 P \<longrightarrow> ?Q e fd buf s s'"
  proof (rule netecho_loop.raw_induct [where P = "\<lambda>e r fd buf s s'. buffer_at (mach s) buf 512 P \<longrightarrow> ?Q e fd buf s s'", OF _ assms(1)], intro impI)
    fix f e r fd buf s and s' :: system
    assume IH: "\<And>e r fd buf s s'. f e r fd buf s = Some s' \<Longrightarrow> buffer_at (mach s) buf 512 P \<longrightarrow> ?Q e fd buf s s'"
      and body: "(case call e s (libc_socket_recv fd buf 512 r) of None \<Rightarrow> None | Some (n, s) \<Rightarrow> if 0 < sint n
        then case call e s (libc_socket_send fd buf n r) of None \<Rightarrow> None | Some (uu, s) \<Rightarrow> f e r fd buf s else Some s) = Some s'"
      and buf: "buffer_at (mach s) buf 512 P"
    from body obtain n bs l where rc: "tcp_socket_recv (idle_net e) (lan s) (sint fd) 512 = Some (n, bs, l)"
      using call_recv_None [of e s fd buf r] by (cases "tcp_socket_recv (idle_net e) (lan s) (sint fd) 512") auto
    obtain R where R: "call e s (libc_socket_recv fd buf 512 r) = Some (of_int n, echo_state s R l)" "0 < sint (of_int n :: u32) \<longleftrightarrow> 0 < n"
      "\<And>a. (\<forall>k < 512. a \<noteq> P k) \<Longrightarrow> R a = ram (mach s) a"
      "0 < n \<Longrightarrow> \<exists>k. call e (echo_state s R l) (libc_socket_send fd buf (of_int n) r) =
         Some (k, echo_state s R (snd (tcp_socket_send l (sint fd) bs (of_nat (length bs)))))"
      using echo_round [OF rc buf, of r] by blast
    show "?Q e fd buf s s'"
    proof (cases "0 < n")
      case True
      let ?s = "echo_state s R (snd (tcp_socket_send l (sint fd) bs (of_nat (length bs))))"
      have "f e r fd buf ?s = Some s'" using body R(1,2) R(4) [OF True] True by auto
      from IH [OF this] obtain R' where p: "echo_pipe (idle_net e) (sint fd) (lan ?s) = Some (lan s')" and s': "s' = echo_state ?s R' (lan s')"
          and R': "\<forall>a. (\<forall>k < 512. a \<noteq> P k) \<longrightarrow> R' a = ram (mach ?s) a" using buf by auto
      have "echo_pipe (idle_net e) (sint fd) (lan s) = Some (lan s')" using p rc True by (simp add: echo_pipe.simps [of "idle_net e" "sint fd" "lan s"])
      moreover have "s' = echo_state s R' (lan s')" using s' by simp
      ultimately show ?thesis using R(3) R' by (metis echo_state_simps(2))
    next
      case False
      then have "s' = echo_state s R l" using body R(1,2) by simp
      moreover have "echo_pipe (idle_net e) (sint fd) (lan s) = Some l" using rc False by (simp add: echo_pipe.simps [of "idle_net e" "sint fd" "lan s"])
      ultimately show ?thesis using R(3) by (metis echo_state_simps(1))
    qed
  qed
  then show ?thesis using assms(2) by blast
qed

lemma netecho_complete:
  assumes "echo_pipe (idle_net e) (sint fd) (lan s) = Some l'" "buffer_at (mach s) buf 512 P"
  shows "\<exists>s'. netecho_loop e r fd buf s = Some s'"
proof -
  let ?Q = "\<lambda>hlt i l. \<forall>s :: system. hlt = idle_net e \<and> i = sint fd \<and> l = lan s \<and> buffer_at (mach s) buf 512 P \<longrightarrow> (\<exists>s'. netecho_loop e r fd buf s = Some s')"
  have "?Q (idle_net e) (sint fd) (lan s)"
  proof (rule echo_pipe.raw_induct [where P = "\<lambda>hlt i l l'. ?Q hlt i l", OF _ assms(1)], intro allI impI, elim conjE)
    fix f hlt i l l' and s :: system
    assume IH: "\<And>hlt i l l'. f hlt i l = Some l' \<Longrightarrow> ?Q hlt i l"
      and body: "(case tcp_socket_recv hlt l i 512 of None \<Rightarrow> None | Some (n, bs, l) \<Rightarrow>
        if 0 < n then f hlt i (snd (tcp_socket_send l i bs (of_nat (length bs)))) else Some l) = Some l'"
      and e: "hlt = idle_net e" "i = sint fd" "l = lan s" and buf: "buffer_at (mach s) buf 512 P"
    from body obtain n bs l1 where rc: "tcp_socket_recv (idle_net e) (lan s) (sint fd) 512 = Some (n, bs, l1)"
      unfolding e by (cases "tcp_socket_recv (idle_net e) (lan s) (sint fd) 512") auto
    obtain R where R: "call e s (libc_socket_recv fd buf 512 r) = Some (of_int n, echo_state s R l1)" "0 < sint (of_int n :: u32) \<longleftrightarrow> 0 < n"
      "0 < n \<Longrightarrow> \<exists>k. call e (echo_state s R l1) (libc_socket_send fd buf (of_int n) r) =
         Some (k, echo_state s R (snd (tcp_socket_send l1 (sint fd) bs (of_nat (length bs)))))"
      using echo_round [OF rc buf, of r] by metis
    show "\<exists>s'. netecho_loop e r fd buf s = Some s'"
    proof (cases "0 < n")
      case True
      let ?s = "echo_state s R (snd (tcp_socket_send l1 (sint fd) bs (of_nat (length bs))))"
      have "f (idle_net e) (sint fd) (lan ?s) = Some l'" using body rc True by (simp add: e)
      from IH [OF this] have "\<exists>s'. netecho_loop e r fd buf ?s = Some s'" using buf by simp
      moreover obtain k where "call e (echo_state s R l1) (libc_socket_send fd buf (of_int n) r) = Some (k, ?s)" using R(3) [OF True] by blast
      ultimately show ?thesis using R(1,2) True by (simp add: netecho_loop.simps [of e r fd buf s])
    next
      case False
      then show ?thesis using R(1,2) by (simp add: netecho_loop.simps [of e r fd buf s])
    qed
  qed
  then show ?thesis using assms(2) by blast
qed

text \<open>
  C39: the echo server sends back exactly what it receives, in order and unchanged: its loop does to the
  network what a direct pipe from \<open>tcp_socket_recv\<close> to \<open>tcp_socket_send\<close> does, whatever arrives and for as
  long as it takes, and it ends exactly when the pipe ends. Nothing else of the kernel changes and no
  memory but the buffer of 512 bytes is written.
\<close>

theorem netecho_refines_pipe:
  assumes "buffer_at (mach s) buf 512 P"
  shows "map_option lan (netecho_loop e r sockfd buf s) = echo_pipe (idle_net e) (sint sockfd) (lan s) \<and>
    (case netecho_loop e r sockfd buf s of
       None \<Rightarrow> True
     | Some s' \<Rightarrow> kern (mach s') = kern (mach s) \<and> con s' = con s \<and> (\<forall>a. (\<forall>k < 512. a \<noteq> P k) \<longrightarrow> ram (mach s') a = ram (mach s) a))"
proof (cases "netecho_loop e r sockfd buf s")
  case None
  then show ?thesis using netecho_complete [of e sockfd s _ buf P r] assms by (cases "echo_pipe (idle_net e) (sint sockfd) (lan s)") auto
next
  case (Some s')
  obtain R where "echo_pipe (idle_net e) (sint sockfd) (lan s) = Some (lan s')" and s': "s' = echo_state s R (lan s')"
      and R: "\<forall>a. (\<forall>k < 512. a \<noteq> P k) \<longrightarrow> R a = ram (mach s) a"
    using netecho_sound [OF Some assms] by blast
  moreover have "kern (mach s') = kern (mach s)" "con s' = con s" "ram (mach s') = R" by (subst s', simp)+
  ultimately show ?thesis using Some R by simp
qed

lemma cat_buffer_512: "buffer_at (mach cat_system) 0x5300 512 (\<lambda>k. 0x5300 + of_nat k)"
proof -
  have u: "unat (0x5300 + of_nat k :: u32) = 0x5300 + k" if "k < 512" for k using that by (simp add: unat_add_u32 unat_of_nat_u32)
  have "inj_on (\<lambda>k. 0x5300 + of_nat k :: u32) {..<512}" by (rule inj_onI) (metis u add_left_cancel lessThan_iff)
  moreover have "phys_of (mach cat_system) (0x5300 + of_nat k) = Some (0x5300 + of_nat k)" if "k < 512" for k using cat_phys u [OF that] that by simp
  ultimately show ?thesis by (simp add: buffer_at_def)
qed

text \<open>A client that sent two bytes and went away: they are taken from the queue, and the server ends.\<close>

definition echo_system :: system where
  "echo_system = cat_system\<lparr>lan := conn_set (host 1) 0 (conn0\<lparr>rx_buffer := (rx_buffer conn0)[0 := 72, 1 := 105], rx_head := 2\<rparr>)\<rparr>"

lemma echo_pipe_once:
  assumes "tcp_socket_recv hlt l i 512 = Some (2, bs, l')" "tcp_socket_recv hlt l' i 512 = Some (0, [], l')"
    and "snd (tcp_socket_send l' i bs (of_nat (length bs))) = l'"
  shows "echo_pipe hlt i l = Some l'"
  using assms by (simp add: echo_pipe.simps [of hlt i l] echo_pipe.simps [of hlt i l'])

theorem netecho_refines_pipe_witness:
  "\<exists>s'. netecho_loop env0 regs0 0 0x5300 echo_system = Some s' \<and> lan s' = conn_set (lan echo_system) 0 (conn0\<lparr>rx_buffer := (rx_buffer conn0)[0 := 72, 1 := 105], rx_head := 2, rx_tail := 2\<rparr>)"
proof -
  let ?c = "conn0\<lparr>rx_buffer := (rx_buffer conn0)[0 := 72, 1 := 105], rx_head := 2\<rparr>"
  let ?l = "conn_set (host 1) 0 ?c" and ?l' = "conn_set (host 1) 0 (?c\<lparr>rx_tail := 2\<rparr>)"
  have d: "tcp_drain ?c 0 512 = ([72, 105], ?c\<lparr>rx_tail := 2\<rparr>)" "tcp_drain (?c\<lparr>rx_tail := 2\<rparr>) 0 512 = ([], ?c\<lparr>rx_tail := 2\<rparr>)"
    by (simp_all add: tcp_drain.simps conn0_def)
  have r: "tcp_socket_recv id ?l 0 512 = Some (2, [72, 105], ?l')" "tcp_socket_recv id ?l' 0 512 = Some (0, [], ?l')"
    using d by (simp_all add: tcp_socket_recv_def sockfd_ok_def MAX_TCP_CONNECTIONS_def tcp_recv_wait.simps host_def conn0_def conn_set_def)
  have "snd (tcp_socket_send ?l' 0 [72, 105] 2) = ?l'"
    by (simp add: tcp_socket_send_def sockfd_ok_def MAX_TCP_CONNECTIONS_def host_def conn0_def conn_set_def)
  then have p: "echo_pipe id 0 ?l = Some ?l'" using echo_pipe_once [OF r] by simp
  have "buffer_at (mach echo_system) 0x5300 512 (\<lambda>k. 0x5300 + of_nat k)" using cat_buffer_512 by (simp add: echo_system_def)
  from netecho_refines_pipe [OF this, of env0 regs0 0] p have "map_option lan (netecho_loop env0 regs0 0 0x5300 echo_system) = Some ?l'"
    by (simp add: env0_def echo_system_def)
  then show ?thesis by (auto simp: echo_system_def conn_set_def)
qed

end
