(* ===== verification/Ls.thy ===== *)
theory Ls
  imports Libc_Str
begin

text \<open>
  Two programs as functions of what the kernel answers them: src/userspace/ls.c, which lists a directory
  with an optional filter, and src/userspace/nslookup.c. The directory is \<open>l i\<close>, the answer of \<open>listdir\<close>
  for index \<open>i\<close>: name, size and directory flag, or \<open>None\<close> when the result is negative. The result of a
  program is the text that it writes.
\<close>

section \<open>ls\<close>

definition to_lower :: "u8 \<Rightarrow> u8" where
  "to_lower c = (if 0x41 \<le> c \<and> c \<le> 0x5A then c - 0x41 + 0x61 else c)"

text \<open>The inner loop of \<open>contains\<close>: how far the needle matches at \<open>i\<close>.\<close>

function match_len :: "bytes \<Rightarrow> bytes \<Rightarrow> nat \<Rightarrow> nat \<Rightarrow> nat" where
  "match_len haystack needle i j =
     (if char_at needle j \<noteq> 0 \<and> to_lower (char_at haystack (i + j)) = to_lower (char_at needle j)
      then match_len haystack needle i (j + 1) else j)"
  by pat_completeness auto
termination
  by (relation "measure (\<lambda>(h, n, i, j). length n - j)") (auto simp: char_at_def split: if_splits)

declare match_len.simps [simp del]

function contains_from :: "bytes \<Rightarrow> bytes \<Rightarrow> nat \<Rightarrow> bool" where
  "contains_from haystack needle i =
     (if char_at haystack i \<noteq> 0
      then char_at needle (match_len haystack needle i 0) = 0 \<or> contains_from haystack needle (i + 1)
      else False)"
  by pat_completeness auto
termination
  by (relation "measure (\<lambda>(h, n, i). length h - i)") (auto simp: char_at_def split: if_splits)

declare contains_from.simps [simp del]

definition contains :: "bytes \<Rightarrow> bytes \<Rightarrow> bool" where
  "contains haystack needle = contains_from haystack needle 0"

definition ls_line :: "bytes \<Rightarrow> u32 \<Rightarrow> bool \<Rightarrow> bytes" where
  "ls_line name fsize is_dir =
     cstr ''  '' @ name @ (if is_dir then cstr ''  (dir)'' @ [0x0A] else cstr ''  ('' @ itoa fsize @ cstr '' bytes)'' @ [0x0A])"

partial_function (option) ls_loop :: "(nat \<Rightarrow> (bytes \<times> u32 \<times> bool) option) \<Rightarrow> bytes option \<Rightarrow> nat \<Rightarrow> bytes option" where
  "ls_loop l pat index =
     (case l index of
        None \<Rightarrow> Some []
      | Some (name, fsize, is_dir) \<Rightarrow>
          Option.bind (ls_loop l pat (index + 1)) (\<lambda>out.
            Some ((case pat of
                     Some p \<Rightarrow> if \<not> contains name p then [] else ls_line name fsize is_dir
                   | None \<Rightarrow> ls_line name fsize is_dir) @ out)))"

definition ls_start :: "(bytes \<Rightarrow> nat \<Rightarrow> (bytes \<times> u32 \<times> bool) option) \<Rightarrow> bytes list \<Rightarrow> bytes option" where
  "ls_start ls argv =
     (let dir_path = (if 2 \<le> length argv then argv ! 1 else []);
          pat = (if 3 \<le> length argv then Some (argv ! 2) else None)
      in map_option (\<lambda>out. cstr ''Files on disk:'' @ [0x0A] @ out) (ls_loop (ls dir_path) pat 0))"

section \<open>nslookup\<close>

definition print_ip :: "bytes \<Rightarrow> bytes" where
  "print_ip ip = concat (map (\<lambda>i. itoa (ucast (ip ! i)) @ (if i < 3 then [0x2E] else [])) [0..<4])"

definition nslookup_start :: "(bytes \<Rightarrow> bytes option) \<Rightarrow> bytes list \<Rightarrow> bytes" where
  "nslookup_start resolve argv =
     (if length argv < 2 then cstr ''nslookup: usage: nslookup.elf <hostname>'' @ [0x0A]
      else case resolve (argv ! 1) of
        Some ip \<Rightarrow> (argv ! 1) @ cstr '' -> '' @ print_ip ip @ [0x0A]
      | None \<Rightarrow> cstr ''nslookup: could not resolve '' @ (argv ! 1) @ [0x0A])"

section \<open>The search\<close>

definition c_string :: "bytes \<Rightarrow> bool" where
  "c_string s \<longleftrightarrow> 0 \<notin> set s"

lemma char_at_zero: "c_string s \<Longrightarrow> char_at s i = 0 \<longleftrightarrow> length s \<le> i"
  by (auto simp: char_at_def c_string_def in_set_conv_nth)

lemma to_lower_zero: "to_lower c = 0 \<longleftrightarrow> c = 0"
proof
  assume h: "to_lower c = 0"
  show "c = 0"
  proof (cases "0x41 \<le> c \<and> c \<le> 0x5A")
    case True
    then have "unat (c - 0x41 + 0x61) = unat c - 0x41 + 0x61" by (simp add: word_le_nat_alt unat_word_ariths)
    then show ?thesis using h True by (simp add: to_lower_def)
  qed (use h in \<open>auto simp: to_lower_def\<close>)
qed (simp add: to_lower_def)

lemma match_len_spec:
  assumes "c_string n"
  shows "char_at n (match_len h n i j) = 0 \<longleftrightarrow> (\<forall>k. j \<le> k \<and> k < length n \<longrightarrow> to_lower (char_at h (i + k)) = to_lower (n ! k))"
  using assms
proof (induction h n i j rule: match_len.induct)
  case (1 h n i j)
  show ?case
  proof (cases "j < length n \<and> to_lower (char_at h (i + j)) = to_lower (n ! j)")
    case True
    then have t: "char_at n j \<noteq> 0 \<and> to_lower (char_at h (i + j)) = to_lower (char_at n j)" using char_at_zero [OF 1(2), of j] by (simp add: char_at_def)
    have "(\<forall>k. j \<le> k \<and> k < length n \<longrightarrow> P k) \<longleftrightarrow> (\<forall>k. j + 1 \<le> k \<and> k < length n \<longrightarrow> P k)" if "P j" for P
      using that by (metis Suc_eq_plus1 Suc_leD Suc_leI le_neq_implies_less)
    from this [of "\<lambda>k. to_lower (char_at h (i + k)) = to_lower (n ! k)"] True show ?thesis
      using 1(1) [OF t 1(2)] t by (subst match_len.simps) simp
  next
    case False
    then have "\<not> (char_at n j \<noteq> 0 \<and> to_lower (char_at h (i + j)) = to_lower (char_at n j))" using char_at_zero [OF 1(2), of j] by (auto simp: char_at_def)
    then have "match_len h n i j = j" by (subst match_len.simps) (simp only: if_False)
    then show ?thesis using False char_at_zero [OF 1(2), of j] by (metis leI le_refl le_trans not_less)
  qed
qed

lemma contains_from_spec:
  assumes "c_string h" "c_string n"
  shows "contains_from h n i \<longleftrightarrow> (\<exists>k. i \<le> k \<and> k < length h \<and> char_at n (match_len h n k 0) = 0)"
  using assms
proof (induction h n i rule: contains_from.induct)
  case (1 h n i)
  show ?case
  proof (cases "i < length h")
    case True
    then have t: "char_at h i \<noteq> 0" using char_at_zero [OF 1(2)] by simp
    show ?thesis using 1(1) [OF t 1(2,3)] t True by (subst contains_from.simps) (metis Suc_eq_plus1 Suc_leD not_less_eq_eq order_antisym_conv order_refl)
  next
    case False
    then show ?thesis using char_at_zero [OF 1(2)] by (subst contains_from.simps) auto
  qed
qed

text \<open>The needle occurs in the haystack, whatever the case of the letters.\<close>

definition occurs :: "bytes \<Rightarrow> bytes \<Rightarrow> bool" where
  "occurs n h \<longleftrightarrow> (\<exists>a b c. h = a @ b @ c \<and> map to_lower b = map to_lower n)"

lemma matches_at:
  assumes "c_string n" "i \<le> length h"
  shows "(\<forall>k < length n. to_lower (char_at h (i + k)) = to_lower (n ! k)) \<longleftrightarrow> map to_lower (take (length n) (drop i h)) = map to_lower n"
    (is "?L \<longleftrightarrow> ?R")
proof
  assume L: ?L
  have "i + k < length h" if "k < length n" for k
    using L that assms(1) by (auto simp: char_at_def c_string_def in_set_conv_nth to_lower_zero split: if_splits) (metis to_lower_zero)
  then have le: "length n \<le> length h - i" using assms(2) by (metis Nat.le_diff_conv2 add.commute diff_is_0_eq' less_diff_conv linorder_not_less order_refl)
  show ?R
  proof (rule nth_equalityI)
    fix k assume "k < length (map to_lower (take (length n) (drop i h)))"
    then have k: "k < length n" "i + k < length h" by auto
    then have "to_lower (char_at h (i + k)) = to_lower (n ! k)" using L by blast
    then show "map to_lower (take (length n) (drop i h)) ! k = map to_lower n ! k" using k by (simp add: char_at_def)
  qed (use le in simp)
next
  assume R: ?R
  then have le: "length n \<le> length h - i" by (metis length_map length_take length_drop min.cobounded1 min_def)
  show ?L
  proof (intro allI impI)
    fix k assume k: "k < length n"
    have "map to_lower (take (length n) (drop i h)) ! k = map to_lower n ! k" using R by simp
    then show "to_lower (char_at h (i + k)) = to_lower (n ! k)" using k le by (auto simp: char_at_def)
  qed
qed

lemma contains_spec:
  assumes "c_string h" "c_string n"
  shows "contains h n \<longleftrightarrow> h \<noteq> [] \<and> occurs n h"
proof -
  have "contains h n \<longleftrightarrow> (\<exists>i < length h. map to_lower (take (length n) (drop i h)) = map to_lower n)"
    using matches_at [OF assms(2), of _ h] by (simp add: contains_def contains_from_spec [OF assms] match_len_spec [OF assms(2)] cong: conj_cong)
  also have "\<dots> \<longleftrightarrow> h \<noteq> [] \<and> occurs n h"
  proof
    assume "\<exists>i < length h. map to_lower (take (length n) (drop i h)) = map to_lower n"
    then obtain i where i: "i < length h" "map to_lower (take (length n) (drop i h)) = map to_lower n" by blast
    have "h = take i h @ take (length n) (drop i h) @ drop (length n) (drop i h)" by (simp only: append_take_drop_id)
    then show "h \<noteq> [] \<and> occurs n h" using i unfolding occurs_def by fastforce
  next
    assume "h \<noteq> [] \<and> occurs n h"
    then obtain a b c where h: "h \<noteq> []" "h = a @ b @ c" "map to_lower b = map to_lower n" by (auto simp: occurs_def)
    have l: "length b = length n" using h(3) by (metis length_map)
    show "\<exists>i < length h. map to_lower (take (length n) (drop i h)) = map to_lower n"
    proof (cases "n = []")
      case True
      then show ?thesis using h(1) by auto
    next
      case False
      then show ?thesis using h l by (intro exI [of _ "length a"]) auto
    qed
  qed
  finally show ?thesis .
qed

section \<open>The listing\<close>

lemma itoa_length: "length (itoa v) \<le> 11"
proof -
  have "unat u < 10 ^ 10" for u :: u32 using unat_less_u32 [of u] by simp
  from this [THEN dec_loop_length] have "length (dec_loop u) \<le> 10" for u .
  from this [of v] this [of "- v"] show ?thesis by (simp add: itoa_def Let_def)
qed

lemma ls_line_fits: "length name \<le> 63 \<Longrightarrow> length (ls_line name fsize is_dir) < 96"
  using itoa_length [of fsize] by (simp add: ls_line_def cstr_def)

definition shown :: "bytes option \<Rightarrow> bytes \<Rightarrow> bool" where
  "shown pat name \<longleftrightarrow> (case pat of None \<Rightarrow> True | Some p \<Rightarrow> name \<noteq> [] \<and> occurs p name)"

lemma ls_loop_spec:
  assumes "\<And>i. i < n \<Longrightarrow> l i = Some (es ! i)" "l n = None" "length es = n" "\<forall>(nm, sz, d) \<in> set es. c_string nm"
    and "case pat of Some p \<Rightarrow> c_string p | None \<Rightarrow> True" "i \<le> n"
  shows "ls_loop l pat i = Some (concat (map (\<lambda>(nm, sz, d). ls_line nm sz d) (filter (\<lambda>(nm, sz, d). shown pat nm) (drop i es))))"
  using assms(6)
proof (induction i rule: inc_induct)
  case base
  show ?case using assms(2,3) by (simp add: ls_loop.simps [of l pat n])
next
  case (step i)
  obtain nm sz d where e: "es ! i = (nm, sz, d)" by (cases "es ! i")
  have "c_string nm" using assms(3,4) step.hyps e nth_mem [of i es] by fastforce
  then have "(case pat of Some p \<Rightarrow> if \<not> contains nm p then [] else ls_line nm sz d | None \<Rightarrow> ls_line nm sz d) = (if shown pat nm then ls_line nm sz d else [])"
    using assms(5) contains_spec [of nm] by (auto simp: shown_def split: option.splits)
  moreover have "drop i es = es ! i # drop (Suc i) es" using step.hyps assms(3) by (simp add: Cons_nth_drop_Suc)
  ultimately show ?case using step e assms(1) by (simp add: ls_loop.simps [of l pat i])
qed

text \<open>
  ls lists exactly the entries of the directory, each once and in order, with its size or marked as a
  directory; with a filter those whose name contains it in upper or lower case. It ends, and every
  line fits the array of 96 characters in which it is put together.
\<close>

theorem ls_lists_directory:
  assumes "\<And>i. i < length es \<Longrightarrow> ls (if 2 \<le> length argv then argv ! 1 else []) i = Some (es ! i)"
    and "ls (if 2 \<le> length argv then argv ! 1 else []) (length es) = None"
    and "\<forall>(nm, sz, d) \<in> set es. c_string nm \<and> length nm \<le> 63" "\<forall>a \<in> set argv. c_string a"
  shows "ls_start ls argv = Some (cstr ''Files on disk:'' @ [0x0A] @ concat (map (\<lambda>(nm, sz, d). ls_line nm sz d)
      (filter (\<lambda>(nm, sz, d). 3 \<le> length argv \<longrightarrow> nm \<noteq> [] \<and> occurs (argv ! 2) nm) es))) \<and>
    (\<forall>(nm, sz, d) \<in> set es. length (ls_line nm sz d) < 96)"
proof -
  let ?pat = "if 3 \<le> length argv then Some (argv ! 2) else None"
  have p: "case ?pat of Some p \<Rightarrow> c_string p | None \<Rightarrow> True" using assms(4) by simp
  have c: "\<forall>(nm, sz, d) \<in> set es. c_string nm" using assms(3) by auto
  from ls_loop_spec [of "length es", OF assms(1,2) refl c p, of 0] have
    "ls_loop (ls (if 2 \<le> length argv then argv ! 1 else [])) ?pat 0 = Some (concat (map (\<lambda>(nm, sz, d). ls_line nm sz d) (filter (\<lambda>(nm, sz, d). shown ?pat nm) es)))"
    by (simp only: drop_0 le0 simp_thms)
  then show ?thesis using assms(3) ls_line_fits by (auto simp: ls_start_def shown_def Let_def split_def cong: filter_cong)
qed

definition two_entries :: "bytes \<Rightarrow> nat \<Rightarrow> (bytes \<times> u32 \<times> bool) option" where
  "two_entries dir i = (if i = 0 then Some (cstr ''A.TXT'', 5, False) else if i = 1 then Some (cstr ''docs'', 0, True) else None)"

lemma occurs_example: "occurs (cstr ''txt'') (cstr ''A.TXT'')" "\<not> occurs (cstr ''txt'') (cstr ''docs'')"
proof -
  have "contains (cstr ''A.TXT'') (cstr ''txt'')" "\<not> contains (cstr ''docs'') (cstr ''txt'')"
    by (simp_all add: contains_def contains_from.simps match_len.simps char_at_def cstr_def to_lower_def)
  then show "occurs (cstr ''txt'') (cstr ''A.TXT'')" "\<not> occurs (cstr ''txt'') (cstr ''docs'')"
    by (simp_all add: contains_spec c_string_def cstr_def)
qed

theorem ls_lists_directory_witness:
  "ls_start two_entries [cstr ''ls.elf'', [], cstr ''txt''] = Some (cstr ''Files on disk:'' @ [0x0A] @ cstr ''  A.TXT  (5 bytes)'' @ [0x0A])"
proof -
  let ?es = "[(cstr ''A.TXT'', 5, False), (cstr ''docs'', 0, True)]"
  have e: "two_entries d i = Some (?es ! i)" if "i < length ?es" for d i using that by (auto simp: two_entries_def less_Suc_eq)
  have n: "two_entries d (length ?es) = None" for d by (simp add: two_entries_def)
  have c: "\<forall>(nm, sz :: u32, d :: bool) \<in> set ?es. c_string nm \<and> length nm \<le> 63" "\<forall>a \<in> set [cstr ''ls.elf'', [], cstr ''txt'']. c_string a"
    by (simp_all add: c_string_def cstr_def)
  have "cstr ''A.TXT'' \<noteq> []" "itoa 5 = [0x35]" by (simp_all add: cstr_def itoa_def dec_loop.simps)
  then show ?thesis using ls_lists_directory [of ?es two_entries "[cstr ''ls.elf'', [], cstr ''txt'']", OF e n c] occurs_example
    by (simp add: ls_line_def) (simp add: cstr_def)
qed

section \<open>The address\<close>

lemma itoa_byte: "dec_value (itoa (ucast (x :: u8))) = unat x \<and> list_all digit (itoa (ucast x))"
proof -
  have "\<not> sint (ucast x :: u32) < 0"
    using sint_of_nat_u32 [of "unat (ucast x :: u32)", simplified] unat_less_u8 [of x] by (simp add: unat_ucast_u8_u32)
  then show ?thesis using dec_loop_spec [of "ucast x"] by (auto simp: itoa_def Let_def unat_ucast_u8_u32 digit_def dec_loop.simps [of 0])
qed

text \<open>nslookup prints the four bytes of the address in decimal with dots between them.\<close>

lemma print_ip_quad:
  "\<exists>a b c d. print_ip [w, x, y, z] = a @ [0x2E] @ b @ [0x2E] @ c @ [0x2E] @ d \<and> map dec_value [a, b, c, d] = map unat [w, x, y, z] \<and>
     list_all (list_all digit) [a, b, c, d]"
  by (intro exI [of _ "itoa (ucast w)"] exI [of _ "itoa (ucast x)"] exI [of _ "itoa (ucast y)"] exI [of _ "itoa (ucast z)"])
     (simp add: print_ip_def upt_rec itoa_byte)

end
