(* ===== verification/Inference.thy ===== *)
theory Inference
  imports Libc_Str Model_Data
begin

text \<open>
  The neural network demo: src/userspace/inference.c, a 64-16-10 network in Q16.16 fixed point. The C
  code computes with 64-bit products and sums and cuts the shifted sum to 32 bits; both widths are
  written out here (\<open>s64\<close>, \<open>s32\<close>). The reference is the integer forward pass of src/training/export.py,
  which never cuts, and the theorem is that on every image the two agree.
\<close>

section \<open>The program\<close>

definition s32 :: "int \<Rightarrow> int" where "s32 x = signed_take_bit 31 x"
definition s64 :: "int \<Rightarrow> int" where "s64 x = signed_take_bit 63 x"

text \<open>The inner loop: products of 32-bit values, summed in 64 bits.\<close>

definition mac_loop :: "(nat \<Rightarrow> int) \<Rightarrow> (nat \<Rightarrow> int) \<Rightarrow> nat \<Rightarrow> int" where
  "mac_loop a w n = foldl (\<lambda>acc i. s64 (acc + s64 (a i * w i))) 0 [0..<n]"

definition hidden_unit :: "int list \<Rightarrow> nat \<Rightarrow> int" where
  "hidden_unit img h =
     (let acc = mac_loop (\<lambda>i. img ! i) (\<lambda>i. weights1 ! (i * HIDDEN_SIZE + h)) INPUT_SIZE;
          val = s32 (s32 (acc div 2 ^ FIXED_SHIFT) + bias1 ! h)
      in if 0 < val then val else 0)"

definition output_score :: "int list \<Rightarrow> nat \<Rightarrow> int" where
  "output_score hidden k =
     (let acc = mac_loop (\<lambda>h. hidden ! h) (\<lambda>h. weights2 ! (h * OUTPUT_SIZE + k)) HIDDEN_SIZE
      in s32 (s32 (acc div 2 ^ FIXED_SHIFT) + bias2 ! k))"

definition pick :: "(nat \<Rightarrow> int) \<Rightarrow> nat \<times> int \<Rightarrow> nat \<Rightarrow> nat \<times> int" where
  "pick score = (\<lambda>(best_digit, best_score) k.
     if k = 0 \<or> best_score < score k then (k, score k) else (best_digit, best_score))"

definition forward_and_classify :: "int list \<Rightarrow> nat" where
  "forward_and_classify img =
     (let hidden = map (hidden_unit img) [0..<HIDDEN_SIZE]
      in fst (foldl (pick (output_score hidden)) (0, 0) [0..<OUTPUT_SIZE]))"

definition test_image :: "nat \<Rightarrow> int list" where
  "test_image n = take INPUT_SIZE (drop (n * INPUT_SIZE) test_images)"

definition append_int :: "int \<Rightarrow> bytes" where
  "append_int value = itoa (of_int value)"

definition image_line :: "nat \<Rightarrow> bytes" where
  "image_line n =
     (let predicted = int (forward_and_classify (test_image n)); actual = test_labels ! n
      in cstr ''Image '' @ append_int (int n) @ cstr '': predicted '' @ append_int predicted @ cstr '', actual '' @ append_int actual @
         (if predicted = actual then cstr ''  correct'' else cstr ''  WRONG'') @ [0x0A])"

definition inference_start :: bytes where
  "inference_start =
     (let correct = length (filter (\<lambda>n. int (forward_and_classify (test_image n)) = test_labels ! n) [0..<NUM_TEST_IMAGES])
      in cstr ''HAROLD neural net inference demo (64-16-10, fixed-point)'' @ [0x0A] @
         concat (map image_line [0..<NUM_TEST_IMAGES]) @
         [0x0A] @ cstr ''Result: '' @ append_int (int correct) @ cstr '' / '' @ append_int (int NUM_TEST_IMAGES) @ cstr '' correct'' @ [0x0A])"

section \<open>The reference\<close>

text \<open>\<open>fixed_forward\<close> of export.py, over the integers.\<close>

definition fx_hidden :: "int list \<Rightarrow> nat \<Rightarrow> int" where
  "fx_hidden x h = max 0 ((\<Sum>i < 64. x ! i * weights1 ! (i * 16 + h)) div 65536 + bias1 ! h)"

definition fx_out :: "int list \<Rightarrow> nat \<Rightarrow> int" where
  "fx_out x k = (\<Sum>h < 16. fx_hidden x h * weights2 ! (h * 10 + k)) div 65536 + bias2 ! k"

section \<open>Nothing overflows\<close>

lemma s32_id: "\<bar>x\<bar> < 2147483648 \<Longrightarrow> s32 x = x"
  by (simp add: s32_def signed_take_bit_int_eq_self_iff abs_less_iff)

lemma s64_id: "\<bar>x\<bar> < 9223372036854775808 \<Longrightarrow> s64 x = x"
  by (simp add: s64_def signed_take_bit_int_eq_self_iff abs_less_iff)

lemma mac_exact:
  assumes "\<And>i. i < n \<Longrightarrow> \<bar>a i * w i\<bar> \<le> B" "int n * B < 9223372036854775808" "0 \<le> B"
  shows "mac_loop a w n = (\<Sum>i < n. a i * w i)" "\<bar>\<Sum>i < n. a i * w i\<bar> \<le> int n * B"
proof -
  have "mac_loop a w m = (\<Sum>i < m. a i * w i) \<and> \<bar>\<Sum>i < m. a i * w i\<bar> \<le> int m * B" if "m \<le> n" for m
    using that
  proof (induction m)
    case (Suc m)
    have p: "\<bar>a m * w m\<bar> \<le> B" using assms(1) Suc.prems by simp
    have le: "int (Suc m) * B \<le> int n * B" using Suc.prems assms(3) by (intro mult_right_mono) simp_all
    have "int (Suc m) * B = int m * B + B" by (simp add: algebra_simps)
    moreover have "\<bar>\<Sum>i < m. a i * w i\<bar> \<le> int m * B" using Suc by simp
    ultimately have "\<bar>(\<Sum>i < m. a i * w i) + a m * w m\<bar> \<le> int (Suc m) * B" using p by linarith
    moreover have "B \<le> int (Suc m) * B" using assms(3) by (simp add: algebra_simps)
    ultimately show ?case using Suc p le assms(2) s64_id [of "a m * w m"] s64_id [of "(\<Sum>i < m. a i * w i) + a m * w m"]
      by (simp add: mac_loop_def del: of_nat_Suc)
  qed (simp add: mac_loop_def)
  then show "mac_loop a w n = (\<Sum>i < n. a i * w i)" "\<bar>\<Sum>i < n. a i * w i\<bar> \<le> int n * B" by blast+
qed

lemma table_bounds:
  "k < 1024 \<Longrightarrow> \<bar>weights1 ! k\<bar> \<le> 79144" "k < 16 \<Longrightarrow> \<bar>bias1 ! k\<bar> \<le> 27143"
  "k < 160 \<Longrightarrow> \<bar>weights2 ! k\<bar> \<le> 131349" "k < 10 \<Longrightarrow> \<bar>bias2 ! k\<bar> \<le> 33460"
  using model_bounds model_lengths by (simp_all add: list_all_length)

definition image_ok :: "int list \<Rightarrow> bool" where
  "image_ok x \<longleftrightarrow> length x = 64 \<and> (\<forall>v \<in> set x. 0 \<le> v \<and> v \<le> 65536)"

lemma abs_mult_le: "\<bar>a\<bar> \<le> A \<Longrightarrow> \<bar>b\<bar> \<le> B \<Longrightarrow> \<bar>a * b\<bar> \<le> A * (B :: int)"
  by (simp add: abs_mult mult_mono)

lemma hidden_exact:
  assumes "image_ok x" "h < 16"
  shows "hidden_unit x h = fx_hidden x h" "0 \<le> fx_hidden x h" "fx_hidden x h \<le> 5092359"
proof -
  let ?S = "\<Sum>i < 64. x ! i * weights1 ! (i * 16 + h)"
  have "\<bar>x ! i * weights1 ! (i * 16 + h)\<bar> \<le> 65536 * 79144" if "i < 64" for i
    using assms that table_bounds(1) [of "i * 16 + h"] by (intro abs_mult_le) (auto simp: image_ok_def)
  note m = mac_exact [of 64 "\<lambda>i. x ! i" "\<lambda>i. weights1 ! (i * 16 + h)" "65536 * 79144", OF this, simplified]
  have b: "\<bar>?S div 65536\<bar> \<le> 5065216" using m(2) by linarith
  then have "\<bar>?S div 65536 + bias1 ! h\<bar> \<le> 5092359" using table_bounds(2) [OF assms(2)] by linarith
  then show "hidden_unit x h = fx_hidden x h" "0 \<le> fx_hidden x h" "fx_hidden x h \<le> 5092359"
    using b m(1) by (auto simp: hidden_unit_def fx_hidden_def model_sizes s32_id max_def Let_def abs_le_iff)
qed

lemma score_exact:
  assumes "image_ok x" "k < 10"
  shows "output_score (map (hidden_unit x) [0..<16]) k = fx_out x k"
proof -
  let ?S = "\<Sum>h < 16. fx_hidden x h * weights2 ! (h * 10 + k)"
  have "\<bar>fx_hidden x h * weights2 ! (h * 10 + k)\<bar> \<le> 5092359 * 131349" if "h < 16" for h
    using assms that table_bounds(3) [of "h * 10 + k"] hidden_exact(2,3) [OF assms(1) that] by (intro abs_mult_le) simp_all
  note m = mac_exact [of 16 "fx_hidden x" "\<lambda>h. weights2 ! (h * 10 + k)" "5092359 * 131349", OF this, simplified]
  have b: "\<bar>?S div 65536\<bar> \<le> 163299869" using m(2) by linarith
  then have c: "\<bar>?S div 65536 + bias2 ! k\<bar> < 2147483648" using table_bounds(4) [OF assms(2)] by linarith
  have "mac_loop (\<lambda>h. map (hidden_unit x) [0..<16] ! h) (\<lambda>h. weights2 ! (h * 10 + k)) 16 = mac_loop (fx_hidden x) (\<lambda>h. weights2 ! (h * 10 + k)) 16"
    unfolding mac_loop_def by (rule foldl_cong) (use hidden_exact(1) [OF assms(1)] in simp_all)
  then show ?thesis using m(1) b c by (simp add: output_score_def fx_out_def model_sizes s32_id)
qed

section \<open>The best score\<close>

lemma pick_first_max:
  "0 < n \<Longrightarrow> (case foldl (pick f) (0, 0) [0..<n] of (d, s) \<Rightarrow> d < n \<and> s = f d \<and> (\<forall>k < n. f k \<le> f d) \<and> (\<forall>k < d. f k < f d))"
proof (induction n)
  case (Suc n)
  show ?case
  proof (cases "n = 0")
    case False
    then show ?thesis using Suc.IH by (auto simp: pick_def less_Suc_eq split: prod.splits)
  qed (simp add: pick_def)
qed simp

lemma classify_less: "forward_and_classify x < 10"
  using pick_first_max [of 10 "output_score (map (hidden_unit x) [0..<16])"] by (auto simp: forward_and_classify_def model_sizes split: prod.splits)

text \<open>
  C40: on every image whose 64 pixels lie between 0 and 1 in Q16.16 no product, sum or cut of the C code
  overflows, and the digit that it returns is the one that the integer forward pass of the training
  scripts gives: the first digit with the highest score.
\<close>

theorem inference_matches_reference:
  assumes "image_ok x"
  shows "forward_and_classify x < 10 \<and> (\<forall>k < 10. fx_out x k \<le> fx_out x (forward_and_classify x)) \<and>
    (\<forall>k < forward_and_classify x. fx_out x k < fx_out x (forward_and_classify x))"
proof -
  have "foldl (pick (output_score (map (hidden_unit x) [0..<16]))) (0, 0) [0..<10] = foldl (pick (fx_out x)) (0, 0) [0..<10]"
    by (rule foldl_cong) (use score_exact [OF assms] in \<open>auto simp: pick_def\<close>)
  then show ?thesis using pick_first_max [of 10 "fx_out x"]
    by (auto simp: forward_and_classify_def model_sizes split: prod.splits)
qed

lemma test_image_ok: "n < 10 \<Longrightarrow> image_ok (test_image n)"
  using test_data_bounds(1) model_lengths(5)
  by (auto simp: image_ok_def test_image_def model_sizes list_all_iff dest!: in_set_takeD in_set_dropD)

theorem inference_matches_reference_witness:
  "forward_and_classify (test_image 3) < 10 \<and> fx_out (test_image 3) 0 \<le> fx_out (test_image 3) (forward_and_classify (test_image 3)) \<and>
   fx_out (test_image 3) 9 \<le> fx_out (test_image 3) (forward_and_classify (test_image 3))"
  using inference_matches_reference [OF test_image_ok [of 3]] by simp

section \<open>The lines that it prints\<close>

lemma digit_length: "0 \<le> v \<Longrightarrow> v < 10 \<Longrightarrow> length (append_int v) = 1"
proof -
  assume v: "0 \<le> v" "v < 10"
  obtain d where d: "v = int d" "d < 10" using v by (metis nonneg_int_cases of_nat_less_numeral_iff)
  then have "d \<in> {0, 1, 2, 3, 4, 5, 6, 7, 8, 9}" by auto
  then show ?thesis unfolding d(1) append_int_def by (auto simp: itoa_def dec_loop.simps Let_def)
qed

text \<open>Every line of the program fits the array of 64 characters in which it is put together.\<close>

lemma image_line_fits: "n < 10 \<Longrightarrow> length (image_line n) \<le> 40"
proof -
  assume n: "n < 10"
  then show ?thesis using classify_less [of "test_image n"] test_data_bounds(2,3) digit_length
    by (simp add: image_line_def Let_def cstr_def list_all_length)
qed

end
