(* ===== verification/Ata.thy ===== *)
theory Ata
  imports Fat_Disk Terminal
begin

unbundle bit_operations_syntax

text \<open>
  The disk driver src/src/ata.c at its ports. The file system is built on sectors that are read and
  written as a whole (\<open>ata_disk\<close> of \<open>Fat_Disk\<close>); here the driver programs the registers of a drive, waits
  for it and moves the words of a sector through the data port, and the theorem is that this
  implements those operations. The drive follows the ATA rules: a command makes it busy for as many
  reads of the status register as it likes, then it asks for data or reports an error.
\<close>

section \<open>The drive\<close>

datatype transfer = Idle | Send "u16 list" | Receive u32 "u16 list"

record drive =
  media :: ata_disk
  latency :: "nat \<Rightarrow> nat"
  identity :: "u16 list"
  packet_drive :: bool
  commands :: nat
  busy :: nat
  failed :: bool
  xfer :: transfer
  seccount :: u8
  lba_low :: u8
  lba_mid :: u8
  lba_high :: u8
  drive_head :: u8

text \<open>Both channels, what is read from one without a drive, and the variables of the driver.\<close>

record ata =
  primary :: "drive option"
  secondary :: "drive option"
  floating :: u8
  ata_io_base :: u16
  ata_control_base :: u16
  ata_term :: terminal

definition ATA_REG_DATA :: u16 where "ATA_REG_DATA = 0x00"
definition ATA_REG_SECCOUNT :: u16 where "ATA_REG_SECCOUNT = 0x02"
definition ATA_REG_LBA_LOW :: u16 where "ATA_REG_LBA_LOW = 0x03"
definition ATA_REG_LBA_MID :: u16 where "ATA_REG_LBA_MID = 0x04"
definition ATA_REG_LBA_HIGH :: u16 where "ATA_REG_LBA_HIGH = 0x05"
definition ATA_REG_DRIVE_HEAD :: u16 where "ATA_REG_DRIVE_HEAD = 0x06"
definition ATA_REG_STATUS :: u16 where "ATA_REG_STATUS = 0x07"
definition ATA_REG_COMMAND :: u16 where "ATA_REG_COMMAND = 0x07"
definition ATA_PRIMARY_IO :: u16 where "ATA_PRIMARY_IO = 0x1F0"
definition ATA_PRIMARY_CONTROL :: u16 where "ATA_PRIMARY_CONTROL = 0x3F6"
definition ATA_SECONDARY_IO :: u16 where "ATA_SECONDARY_IO = 0x170"
definition ATA_SECONDARY_CONTROL :: u16 where "ATA_SECONDARY_CONTROL = 0x376"
definition ATA_CMD_READ_SECTORS :: u8 where "ATA_CMD_READ_SECTORS = 0x20"
definition ATA_CMD_WRITE_SECTORS :: u8 where "ATA_CMD_WRITE_SECTORS = 0x30"
definition ATA_CMD_CACHE_FLUSH :: u8 where "ATA_CMD_CACHE_FLUSH = 0xE7"
definition ATA_CMD_IDENTIFY :: u8 where "ATA_CMD_IDENTIFY = 0xEC"
definition ATA_SR_ERR :: u8 where "ATA_SR_ERR = 0x01"
definition ATA_SR_DRQ :: u8 where "ATA_SR_DRQ = 0x08"
definition ATA_SR_BSY :: u8 where "ATA_SR_BSY = 0x80"

lemmas ata_regs = ATA_REG_DATA_def ATA_REG_SECCOUNT_def ATA_REG_LBA_LOW_def ATA_REG_LBA_MID_def ATA_REG_LBA_HIGH_def ATA_REG_DRIVE_HEAD_def
  ATA_REG_STATUS_def ATA_REG_COMMAND_def
lemmas ata_bases = ATA_PRIMARY_IO_def ATA_PRIMARY_CONTROL_def ATA_SECONDARY_IO_def ATA_SECONDARY_CONTROL_def
lemmas ata_cmds = ATA_CMD_READ_SECTORS_def ATA_CMD_WRITE_SECTORS_def ATA_CMD_CACHE_FLUSH_def ATA_CMD_IDENTIFY_def
lemmas ata_bits = ATA_SR_ERR_def ATA_SR_DRQ_def ATA_SR_BSY_def

text \<open>Words on the data port and bytes of a sector; the low byte comes first.\<close>

fun words_of :: "bytes \<Rightarrow> u16 list" where
  "words_of (x # y # bs) = (ucast x OR push_bit 8 (ucast y)) # words_of bs"
| "words_of _ = []"

fun bytes_of :: "u16 list \<Rightarrow> bytes" where
  "bytes_of [] = []"
| "bytes_of (w # ws) = ucast w # ucast (drop_bit 8 w) # bytes_of ws"

definition lba_of :: "drive \<Rightarrow> u32" where
  "lba_of d = push_bit 24 (ucast (drive_head d) AND 0x0F) OR push_bit 16 (ucast (lba_high d)) OR push_bit 8 (ucast (lba_mid d)) OR ucast (lba_low d)"

definition command :: "u8 \<Rightarrow> drive \<Rightarrow> drive" where
  "command c d =
     (let d = d\<lparr>commands := commands d + 1, busy := latency d (commands d), failed := False, xfer := Idle\<rparr> in
      if packet_drive d then d\<lparr>failed := True, lba_mid := 0x14, lba_high := 0xEB\<rparr>
      else if c = 0x20 then (if rd_bad (media d) (lba_of d) then d\<lparr>failed := True\<rparr> else d\<lparr>xfer := Send (words_of (sectors (media d) (lba_of d)))\<rparr>)
      else if c = 0x30 then (if wr_bad (media d) (lba_of d) then d\<lparr>failed := True\<rparr> else d\<lparr>xfer := Receive (lba_of d) []\<rparr>)
      else if c = 0xEC then d\<lparr>xfer := Send (identity d)\<rparr>
      else if c = 0xE7 then d else d\<lparr>failed := True\<rparr>)"

definition status_of :: "drive \<Rightarrow> u8" where
  "status_of d = (if 0 < busy d then 0x80 else 0x40 OR (if failed d then 0x01 else 0) OR (if xfer d \<noteq> Idle then 0x08 else 0))"

definition write_reg :: "u16 \<Rightarrow> u8 \<Rightarrow> drive \<Rightarrow> drive" where
  "write_reg r v d =
     (if r = 2 then d\<lparr>seccount := v\<rparr> else if r = 3 then d\<lparr>lba_low := v\<rparr> else if r = 4 then d\<lparr>lba_mid := v\<rparr>
      else if r = 5 then d\<lparr>lba_high := v\<rparr> else if r = 6 then d\<lparr>drive_head := v\<rparr> else if r = 7 then command v d else d)"

definition read_reg :: "u16 \<Rightarrow> drive \<Rightarrow> u8 \<times> drive" where
  "read_reg r d =
     (if r = 4 then (lba_mid d, d) else if r = 5 then (lba_high d, d)
      else if r = 7 then (status_of d, d\<lparr>busy := busy d - 1\<rparr>) else (0, d))"

definition read_data :: "drive \<Rightarrow> u16 \<times> drive" where
  "read_data d =
     (case xfer d of
        Send (w # ws) \<Rightarrow> (w, d\<lparr>xfer := (if ws = [] then Idle else Send ws)\<rparr>)
      | _ \<Rightarrow> (0, d))"

definition write_data :: "u16 \<Rightarrow> drive \<Rightarrow> drive" where
  "write_data w d =
     (case xfer d of
        Receive l ws \<Rightarrow>
          if length ws = 255
          then d\<lparr>media := (media d)\<lparr>sectors := (sectors (media d))(l := bytes_of (ws @ [w]))\<rparr>, xfer := Idle, busy := latency d (commands d)\<rparr>
          else d\<lparr>xfer := Receive l (ws @ [w])\<rparr>
      | _ \<Rightarrow> d)"

section \<open>The ports\<close>

definition outb :: "u16 \<Rightarrow> u8 \<Rightarrow> ata \<Rightarrow> ata" where
  "outb port v a =
     (if port AND 0xFFF8 = 0x1F0 then a\<lparr>primary := map_option (write_reg (port AND 7) v) (primary a)\<rparr>
      else if port AND 0xFFF8 = 0x170 then a\<lparr>secondary := map_option (write_reg (port AND 7) v) (secondary a)\<rparr>
      else a)"

definition inb :: "u16 \<Rightarrow> ata \<Rightarrow> u8 \<times> ata" where
  "inb port a =
     (if port AND 0xFFF8 = 0x1F0 then
        (case primary a of None \<Rightarrow> (floating a, a) | Some d \<Rightarrow> (case read_reg (port AND 7) d of (v, d) \<Rightarrow> (v, a\<lparr>primary := Some d\<rparr>)))
      else if port AND 0xFFF8 = 0x170 then
        (case secondary a of None \<Rightarrow> (floating a, a) | Some d \<Rightarrow> (case read_reg (port AND 7) d of (v, d) \<Rightarrow> (v, a\<lparr>secondary := Some d\<rparr>)))
      else if port = 0x3F6 then (case primary a of None \<Rightarrow> (floating a, a) | Some d \<Rightarrow> (status_of d, a))
      else if port = 0x376 then (case secondary a of None \<Rightarrow> (floating a, a) | Some d \<Rightarrow> (status_of d, a))
      else (0xFF, a))"

definition inw :: "u16 \<Rightarrow> ata \<Rightarrow> u16 \<times> ata" where
  "inw port a =
     (if port = 0x1F0 then (case primary a of None \<Rightarrow> (0, a) | Some d \<Rightarrow> (case read_data d of (w, d) \<Rightarrow> (w, a\<lparr>primary := Some d\<rparr>)))
      else if port = 0x170 then (case secondary a of None \<Rightarrow> (0, a) | Some d \<Rightarrow> (case read_data d of (w, d) \<Rightarrow> (w, a\<lparr>secondary := Some d\<rparr>)))
      else (0, a))"

definition outw :: "u16 \<Rightarrow> u16 \<Rightarrow> ata \<Rightarrow> ata" where
  "outw port w a =
     (if port = 0x1F0 then a\<lparr>primary := map_option (write_data w) (primary a)\<rparr>
      else if port = 0x170 then a\<lparr>secondary := map_option (write_data w) (secondary a)\<rparr> else a)"

section \<open>The driver\<close>

definition ata_say :: "bytes \<Rightarrow> ata \<Rightarrow> ata" where
  "ata_say str a = a\<lparr>ata_term := terminal_writestring (ata_term a) str\<rparr>"

definition ata_dec :: "u32 \<Rightarrow> ata \<Rightarrow> ata" where
  "ata_dec v a = a\<lparr>ata_term := terminal_print_dec (ata_term a) v\<rparr>"

definition ata_delay_400ns :: "ata \<Rightarrow> ata" where
  "ata_delay_400ns a = ((\<lambda>a. snd (inb (ata_control_base a) a)) ^^ 4) a"

partial_function (option) ata_wait_bsy :: "ata \<Rightarrow> ata option" where
  "ata_wait_bsy a =
     (case inb (ata_io_base a + ATA_REG_STATUS) a of (st, a) \<Rightarrow> if st AND ATA_SR_BSY \<noteq> 0 then ata_wait_bsy a else Some a)"

partial_function (option) ata_wait_drq :: "ata \<Rightarrow> (int \<times> ata) option" where
  "ata_wait_drq a =
     (case inb (ata_io_base a + ATA_REG_STATUS) a of
        (st, a) \<Rightarrow> if st AND ATA_SR_ERR \<noteq> 0 then Some (- 1, a) else if st AND ATA_SR_DRQ = 0 then ata_wait_drq a else Some (0, a))"

fun in_words :: "nat \<Rightarrow> ata \<Rightarrow> u16 list \<times> ata" where
  "in_words 0 a = ([], a)"
| "in_words (Suc n) a =
     (case inw (ata_io_base a + ATA_REG_DATA) a of (w, a) \<Rightarrow> (case in_words n a of (ws, a) \<Rightarrow> (w # ws, a)))"

fun out_words :: "u16 list \<Rightarrow> ata \<Rightarrow> ata" where
  "out_words [] a = a"
| "out_words (w # ws) a = out_words ws (outw (ata_io_base a + ATA_REG_DATA) w a)"

text \<open>The registers up to the first look at the status.\<close>

definition ata_identify :: "ata \<Rightarrow> ata" where
  "ata_identify a =
     (let a = outb (ata_io_base a + ATA_REG_DRIVE_HEAD) 0xA0 a;
          a = ata_delay_400ns a;
          a = outb (ata_io_base a + ATA_REG_SECCOUNT) 0 a;
          a = outb (ata_io_base a + ATA_REG_LBA_LOW) 0 a;
          a = outb (ata_io_base a + ATA_REG_LBA_MID) 0 a;
          a = outb (ata_io_base a + ATA_REG_LBA_HIGH) 0 a
      in outb (ata_io_base a + ATA_REG_COMMAND) ATA_CMD_IDENTIFY a)"

definition selected :: "u16 \<Rightarrow> u16 \<Rightarrow> ata \<Rightarrow> ata" where
  "selected io ctl a = a\<lparr>ata_io_base := io, ata_control_base := ctl\<rparr>"

definition ata_try_channel :: "u16 \<Rightarrow> u16 \<Rightarrow> bytes \<Rightarrow> ata \<Rightarrow> (int \<times> ata) option" where
  "ata_try_channel io_base control_base label a =
     (let a = selected io_base control_base a;
          a = ata_identify a;
          (status, a) = inb (ata_io_base a + ATA_REG_STATUS) a
      in if status = 0 then Some (- 1, ata_say (cstr ''ATA: no drive present on '' @ label @ cstr '' master'' @ [0x0A]) a)
         else case ata_wait_bsy a of
           None \<Rightarrow> None
         | Some a \<Rightarrow>
             (case inb (ata_io_base a + ATA_REG_LBA_MID) a of (mid, a) \<Rightarrow>
              case (if mid \<noteq> 0 then (1, a) else inb (ata_io_base a + ATA_REG_LBA_HIGH) a) of (high, a) \<Rightarrow>
                if mid \<noteq> 0 \<or> high \<noteq> 0
                then Some (- 1, ata_say (cstr ''ATA: '' @ label @ cstr '' master is not a standard ATA drive'' @ [0x0A]) a)
                else case ata_wait_drq a of
                  None \<Rightarrow> None
                | Some (r, a) \<Rightarrow>
                    if r \<noteq> 0 then Some (- 1, ata_say (cstr ''ATA: IDENTIFY command failed on '' @ label @ [0x0A]) a)
                    else case in_words 256 a of (identify_data, a) \<Rightarrow>
                      let total_sectors = push_bit 16 (ucast (identify_data ! 61)) OR ucast (identify_data ! 60) :: u32;
                          a = ata_say (cstr ''ATA: '' @ label @ cstr '' master detected, '') a;
                          a = ata_say (cstr '' sectors ('') (ata_dec total_sectors a);
                          a = ata_say (cstr '' MB)'' @ [0x0A]) (ata_dec ((total_sectors * 512) div (1024 * 1024)) a)
                      in Some (0, a)))"

definition ata_init :: "ata \<Rightarrow> ata option" where
  "ata_init a =
     (case ata_try_channel ATA_PRIMARY_IO ATA_PRIMARY_CONTROL (cstr ''primary'') a of
        None \<Rightarrow> None
      | Some (r, a) \<Rightarrow>
          if r = 0 then Some a else map_option snd (ata_try_channel ATA_SECONDARY_IO ATA_SECONDARY_CONTROL (cstr ''secondary'') a))"

text \<open>The registers of a transfer, common to the next two functions.\<close>

definition ata_issue :: "u32 \<Rightarrow> u8 \<Rightarrow> ata \<Rightarrow> ata" where
  "ata_issue lba cmd a =
     (let a = outb (ata_io_base a + ATA_REG_DRIVE_HEAD) (ucast (0xE0 OR (drop_bit 24 lba AND 0x0F))) a;
          a = ata_delay_400ns a;
          a = outb (ata_io_base a + ATA_REG_SECCOUNT) 1 a;
          a = outb (ata_io_base a + ATA_REG_LBA_LOW) (ucast (lba AND 0xFF)) a;
          a = outb (ata_io_base a + ATA_REG_LBA_MID) (ucast (drop_bit 8 lba AND 0xFF)) a;
          a = outb (ata_io_base a + ATA_REG_LBA_HIGH) (ucast (drop_bit 16 lba AND 0xFF)) a
      in outb (ata_io_base a + ATA_REG_COMMAND) cmd a)"

definition pio_read_sector :: "ata \<Rightarrow> u32 \<Rightarrow> (int \<times> bytes \<times> ata) option" where
  "pio_read_sector a lba =
     (case ata_wait_bsy a of
        None \<Rightarrow> None
      | Some a \<Rightarrow>
          (case ata_wait_bsy (ata_issue lba ATA_CMD_READ_SECTORS a) of
             None \<Rightarrow> None
           | Some a \<Rightarrow>
               (case ata_wait_drq a of
                  None \<Rightarrow> None
                | Some (r, a) \<Rightarrow>
                    if r \<noteq> 0 then Some (- 1, [], ata_say [0x0A] (ata_dec lba (ata_say (cstr ''ATA: read error at LBA '') a)))
                    else case in_words 256 a of (ws, a) \<Rightarrow> Some (0, bytes_of ws, a))))"

definition pio_write_sector :: "ata \<Rightarrow> u32 \<Rightarrow> bytes \<Rightarrow> (int \<times> ata) option" where
  "pio_write_sector a lba buf =
     (case ata_wait_bsy a of
        None \<Rightarrow> None
      | Some a \<Rightarrow>
          (case ata_wait_bsy (ata_issue lba ATA_CMD_WRITE_SECTORS a) of
             None \<Rightarrow> None
           | Some a \<Rightarrow>
               (case ata_wait_drq a of
                  None \<Rightarrow> None
                | Some (r, a) \<Rightarrow>
                    if r \<noteq> 0 then Some (- 1, ata_say [0x0A] (ata_dec lba (ata_say (cstr ''ATA: write error at LBA '') a)))
                    else
                      let a = out_words (words_of buf) a;
                          a = outb (ata_io_base a + ATA_REG_COMMAND) ATA_CMD_CACHE_FLUSH a
                      in map_option (\<lambda>a. (0, a)) (ata_wait_bsy a))))"

section \<open>The selected drive\<close>

definition at_base :: "ata \<Rightarrow> drive option" where
  "at_base a = (if ata_io_base a = ATA_PRIMARY_IO then primary a else secondary a)"

definition put_drive :: "drive \<Rightarrow> ata \<Rightarrow> ata" where
  "put_drive d a = (if ata_io_base a = ATA_PRIMARY_IO then a\<lparr>primary := Some d\<rparr> else a\<lparr>secondary := Some d\<rparr>)"

text \<open>The driver has selected a channel, with a drive on it.\<close>

definition on_drive :: "ata \<Rightarrow> drive \<Rightarrow> bool" where
  "on_drive a d \<longleftrightarrow> at_base a = Some d \<and>
     (ata_io_base a = ATA_PRIMARY_IO \<and> ata_control_base a = ATA_PRIMARY_CONTROL \<or> ata_io_base a = ATA_SECONDARY_IO \<and> ata_control_base a = ATA_SECONDARY_CONTROL)"

lemma put_drive_simps [simp]:
  "ata_io_base (put_drive d a) = ata_io_base a" "ata_control_base (put_drive d a) = ata_control_base a" "floating (put_drive d a) = floating a"
  "put_drive d' (put_drive d a) = put_drive d' a" "at_base (put_drive d a) = Some d" "ata_term (put_drive d a) = ata_term a"
  by (simp_all add: put_drive_def at_base_def)

lemma put_drive_same: "at_base a = Some d \<Longrightarrow> put_drive d a = a"
  by (simp add: put_drive_def at_base_def split: if_splits)

lemma on_put [simp]: "on_drive a d \<Longrightarrow> on_drive (put_drive d' a) d'"
  by (simp add: on_drive_def)

lemma port_io:
  assumes "on_drive a d" "r < 8"
  shows "outb (ata_io_base a + r) v a = put_drive (write_reg r v d) a"
    "inb (ata_io_base a + r) a = (fst (read_reg r d), put_drive (snd (read_reg r d)) a)"
proof -
  have "r \<in> {0, 1, 2, 3, 4, 5, 6, 7}" using assms(2) by (simp add: word_less_nat_alt) (unat_arith)
  then show "outb (ata_io_base a + r) v a = put_drive (write_reg r v d) a"
    "inb (ata_io_base a + r) a = (fst (read_reg r d), put_drive (snd (read_reg r d)) a)"
    using assms(1) by (auto simp: on_drive_def at_base_def put_drive_def outb_def inb_def ata_bases split: if_splits prod.splits)
qed

lemma port_data:
  assumes "on_drive a d"
  shows "inw (ata_io_base a + ATA_REG_DATA) a = (fst (read_data d), put_drive (snd (read_data d)) a)"
    "outw (ata_io_base a + ATA_REG_DATA) w a = put_drive (write_data w d) a"
  using assms by (auto simp: on_drive_def at_base_def put_drive_def inw_def outw_def ata_bases ATA_REG_DATA_def split: if_splits prod.splits)

lemma delay_id [simp]: "on_drive a d \<Longrightarrow> ata_delay_400ns a = a"
proof -
  assume "on_drive a d"
  then have "snd (inb (ata_control_base a) a) = a" by (auto simp: on_drive_def at_base_def inb_def ata_bases split: if_splits)
  then show ?thesis by (simp add: ata_delay_400ns_def eval_nat_numeral)
qed

lemma on_drive_say [simp]: "on_drive (a\<lparr>ata_term := t\<rparr>) d = on_drive a d" "on_drive (ata_say str a) d = on_drive a d" "on_drive (ata_dec v a) d = on_drive a d"
  by (simp_all add: on_drive_def at_base_def ata_say_def ata_dec_def)

section \<open>Waiting\<close>

lemma wait_bsy:
  "on_drive a d \<Longrightarrow> ata_wait_bsy a = Some (put_drive (d\<lparr>busy := 0\<rparr>) a)"
proof (induction "busy d" arbitrary: a d)
  case 0
  then have "d\<lparr>busy := 0\<rparr> = d" by simp
  then show ?case using port_io(2) [OF 0(2), of 7] 0(1) put_drive_same [of a d] 0(2)
    by (simp add: ata_wait_bsy.simps [of a] read_reg_def status_of_def ata_regs ata_bits)
next
  case (Suc n)
  have "on_drive (put_drive (d\<lparr>busy := n\<rparr>) a) (d\<lparr>busy := n\<rparr>)" using Suc.prems by simp
  from Suc.hyps(1) [OF _ this] show ?case using port_io(2) [OF Suc.prems, of 7]
    by (simp add: Suc.hyps(2) [symmetric] ata_wait_bsy.simps [of a] read_reg_def status_of_def ata_regs ata_bits)
qed

lemma busy_same: "busy d = 0 \<Longrightarrow> (d :: drive)\<lparr>busy := 0\<rparr> = d"
  by simp

lemma wait_drq:
  assumes "on_drive a d" "busy d = 0" "failed d \<or> xfer d \<noteq> Idle"
  shows "ata_wait_drq a = Some (if failed d then - 1 else 0, a)"
proof -
  have "put_drive (d\<lparr>busy := 0\<rparr>) a = a" unfolding busy_same [OF assms(2)] by (rule put_drive_same) (use assms(1) in \<open>simp add: on_drive_def\<close>)
  then show ?thesis using port_io(2) [OF assms(1), of 7] assms(2,3)
    by (subst ata_wait_drq.simps) (auto simp: read_reg_def status_of_def ata_regs ata_bits)
qed

section \<open>Words\<close>

lemma bytes_of_words: "even (length bs) \<Longrightarrow> bytes_of (words_of bs) = bs"
proof (induction bs rule: words_of.induct)
  case (1 x y bs)
  have "ucast (ucast x OR push_bit 8 (ucast y) :: u16) = x" "ucast (drop_bit 8 (ucast x OR push_bit 8 (ucast y) :: u16)) = y"
    by (rule bit_word_eqI; auto simp: bit_simps dest: bit_imp_le_length)+
  then show ?case using 1 by simp
qed simp_all

lemma length_words_of: "length (words_of bs) = length bs div 2"
  by (induction bs rule: words_of.induct) simp_all

lemma in_words_spec:
  "on_drive a d \<Longrightarrow> ws \<noteq> [] \<Longrightarrow> xfer d = Send ws \<Longrightarrow> in_words (length ws) a = (ws, put_drive (d\<lparr>xfer := Idle\<rparr>) a)"
proof (induction ws arbitrary: a d)
  case (Cons w ws)
  have rd: "inw (ata_io_base a + ATA_REG_DATA) a = (w, put_drive (d\<lparr>xfer := (if ws = [] then Idle else Send ws)\<rparr>) a)"
    using port_data(1) [OF Cons.prems(1)] Cons.prems(3) by (simp add: read_data_def)
  show ?case
  proof (cases "ws = []")
    case False
    have "on_drive (put_drive (d\<lparr>xfer := Send ws\<rparr>) a) (d\<lparr>xfer := Send ws\<rparr>)" using Cons.prems(1) by simp
    from Cons.IH [OF this False] show ?thesis using rd False by simp
  qed (use rd in simp)
qed simp

lemma out_words_spec:
  "on_drive a d \<Longrightarrow> ws \<noteq> [] \<Longrightarrow> xfer d = Receive l us \<Longrightarrow> length us + length ws = 256 \<Longrightarrow>
   out_words ws a = put_drive (d\<lparr>media := (media d)\<lparr>sectors := (sectors (media d))(l := bytes_of (us @ ws))\<rparr>, xfer := Idle, busy := latency d (commands d)\<rparr>) a"
proof (induction ws arbitrary: a d us)
  case (Cons w ws)
  have o: "outw (ata_io_base a + ATA_REG_DATA) w a = put_drive (write_data w d) a" by (rule port_data(2) [OF Cons.prems(1)])
  show ?case
  proof (cases "ws = []")
    case True
    then show ?thesis using o Cons.prems by (simp add: write_data_def fun_upd_def)
  next
    case False
    then have w: "write_data w d = d\<lparr>xfer := Receive l (us @ [w])\<rparr>" using Cons.prems by (cases ws) (simp_all add: write_data_def)
    have "on_drive (put_drive (d\<lparr>xfer := Receive l (us @ [w])\<rparr>) a) (d\<lparr>xfer := Receive l (us @ [w])\<rparr>)" using Cons.prems(1) by simp
    from Cons.IH [OF this False, of "us @ [w]"] show ?thesis using o w Cons.prems(4) by simp
  qed
qed simp

section \<open>Commands\<close>

definition addressed :: "u32 \<Rightarrow> drive \<Rightarrow> drive" where
  "addressed lba d = d\<lparr>drive_head := ucast (0xE0 OR (drop_bit 24 lba AND 0x0F)), seccount := 1, lba_low := ucast (lba AND 0xFF),
     lba_mid := ucast (drop_bit 8 lba AND 0xFF), lba_high := ucast (drop_bit 16 lba AND 0xFF)\<rparr>"

lemma port_put:
  assumes "on_drive a d" "r < 8"
  shows "outb (ata_io_base a + r) v (put_drive d' a) = put_drive (write_reg r v d') a"
    "inb (ata_io_base a + r) (put_drive d' a) = (fst (read_reg r d'), put_drive (snd (read_reg r d')) a)"
  using port_io [OF on_put [OF assms(1)] assms(2), of d'] by simp_all

lemma issue_spec: "on_drive a d \<Longrightarrow> ata_issue lba c a = put_drive (command c (addressed lba d)) a"
  by (simp add: ata_issue_def Let_def ata_regs port_io port_put delay_id [OF on_put] write_reg_def addressed_def)

lemma lba_addressed: "lba_of (addressed lba d) = ata_lba28 lba"
proof -
  have m: "(ucast (ucast z :: u8) :: u32) = z AND 0xFF" for z
  proof -
    have "(0xFF :: u32) = mask 8" by (simp add: mask_eq_exp_minus_1)
    moreover have "(ucast (ucast z :: u8) :: u32) = z AND mask 8" by (rule bit_word_eqI) (auto simp: bit_simps)
    ultimately show ?thesis by simp
  qed
  have "((0xE0 OR (y AND 0x0F)) AND 0xFF) AND 0x0F = (0xE0 OR (y AND 0x0F)) AND (0x0F :: u32)" for y by (simp add: and.assoc)
  then show ?thesis unfolding lba_of_def addressed_def ata_lba28_def Let_def by (simp add: m and.assoc)
qed

lemma command_simps [simp]:
  "latency (command c d) = latency d" "packet_drive (command c d) = packet_drive d" "media (command c d) = media d" "identity (command c d) = identity d"
  by (simp_all add: command_def Let_def)

lemma addressed_simps [simp]:
  "latency (addressed l d) = latency d" "packet_drive (addressed l d) = packet_drive d" "media (addressed l d) = media d" "identity (addressed l d) = identity d"
  by (simp_all add: addressed_def)

lemma command_result:
  assumes "\<not> packet_drive d"
  shows "rd_bad (media d) (ata_lba28 lba) \<Longrightarrow> failed (command 0x20 (addressed lba d))"
    "\<not> rd_bad (media d) (ata_lba28 lba) \<Longrightarrow> \<not> failed (command 0x20 (addressed lba d)) \<and>
      xfer (command 0x20 (addressed lba d)) = Send (words_of (sectors (media d) (ata_lba28 lba)))"
    "wr_bad (media d) (ata_lba28 lba) \<Longrightarrow> failed (command 0x30 (addressed lba d))"
    "\<not> wr_bad (media d) (ata_lba28 lba) \<Longrightarrow> \<not> failed (command 0x30 (addressed lba d)) \<and>
      xfer (command 0x30 (addressed lba d)) = Receive (ata_lba28 lba) []"
  using assms lba_addressed [of lba d] by (simp_all add: command_def Let_def lba_of_def)

text \<open>Up to the end of the second wait both transfers do the same.\<close>

lemma transfer_start:
  assumes "on_drive a d"
  shows "ata_wait_bsy a = Some (put_drive (d\<lparr>busy := 0\<rparr>) a)"
    "ata_wait_bsy (ata_issue lba c (put_drive (d\<lparr>busy := 0\<rparr>) a)) = Some (put_drive ((command c (addressed lba (d\<lparr>busy := 0\<rparr>)))\<lparr>busy := 0\<rparr>) a)"
proof -
  show "ata_wait_bsy a = Some (put_drive (d\<lparr>busy := 0\<rparr>) a)" by (rule wait_bsy [OF assms])
  let ?d = "d\<lparr>busy := 0\<rparr>"
  have "ata_issue lba c (put_drive ?d a) = put_drive (command c (addressed lba ?d)) a" using issue_spec [OF on_put [OF assms], of lba c ?d] by simp
  then show "ata_wait_bsy (ata_issue lba c (put_drive ?d a)) = Some (put_drive ((command c (addressed lba ?d))\<lparr>busy := 0\<rparr>) a)"
    using wait_bsy [OF on_put [OF assms], of "command c (addressed lba ?d)"] by simp
qed

definition ata_ok :: "ata \<Rightarrow> ata_disk \<Rightarrow> bool" where
  "ata_ok a D \<longleftrightarrow> (\<exists>d. on_drive a d \<and> \<not> packet_drive d \<and> media d = D \<and> disk_wf D)"

lemma ata_okI: "on_drive a d \<Longrightarrow> \<not> packet_drive d' \<Longrightarrow> media d' = D \<Longrightarrow> disk_wf D \<Longrightarrow> ata_ok (put_drive d' a) D"
  unfolding ata_ok_def using on_put by blast

lemma ata_ok_say [simp]: "ata_ok (ata_say str a) D = ata_ok a D" "ata_ok (ata_dec v a) D = ata_ok a D"
  by (simp_all add: ata_ok_def)

lemma pio_read:
  assumes "ata_ok a D"
  shows "\<exists>a'. pio_read_sector a lba = Some (case ata_read_sector D lba of None \<Rightarrow> (- 1, [], a') | Some bs \<Rightarrow> (0, bs, a')) \<and> ata_ok a' D"
proof -
  obtain d where d: "on_drive a d" "\<not> packet_drive d" "media d = D" "disk_wf D" using assms by (auto simp: ata_ok_def)
  let ?c = "(command 0x20 (addressed lba (d\<lparr>busy := 0\<rparr>)))\<lparr>busy := 0\<rparr>"
  note st = transfer_start(1) [OF d(1)] transfer_start(2) [OF d(1), where lba = lba and c = "0x20"]
  note r = command_result [of "d\<lparr>busy := 0\<rparr>" lba, simplified, OF d(2)]
  have on: "on_drive (put_drive ?c a) ?c" using d(1) by simp
  have ok: "ata_ok (put_drive ?c a) D" by (rule ata_okI [OF d(1)]) (use d in simp_all)
  show ?thesis
  proof (cases "rd_bad D (ata_lba28 lba)")
    case True
    then have "ata_wait_drq (put_drive ?c a) = Some (- 1, put_drive ?c a)" using wait_drq [OF on] r(1) d(3) by simp
    then show ?thesis using st True ok
      by (intro exI [of _ "ata_say [0x0A] (ata_dec lba (ata_say (cstr ''ATA: read error at LBA '') (put_drive ?c a)))"])
         (simp add: pio_read_sector_def ata_read_sector_def ATA_CMD_READ_SECTORS_def)
  next
    case False
    let ?ws = "words_of (sectors D (ata_lba28 lba))"
    have l: "length (sectors D (ata_lba28 lba)) = 512" using d(4) by (simp add: disk_wf_def)
    then have ws: "length ?ws = 256" "?ws \<noteq> []" "bytes_of ?ws = sectors D (ata_lba28 lba)"
      using bytes_of_words by (auto simp: length_words_of simp flip: length_greater_0_conv)
    have "ata_wait_drq (put_drive ?c a) = Some (0, put_drive ?c a)" using wait_drq [OF on] r(2) False d(3) by simp
    moreover have "in_words 256 (put_drive ?c a) = (?ws, put_drive (?c\<lparr>xfer := Idle\<rparr>) a)" using in_words_spec [OF on ws(2)] r(2) False d(3) ws(1) by simp
    moreover have "ata_ok (put_drive (?c\<lparr>xfer := Idle\<rparr>) a) D" by (rule ata_okI [OF d(1)]) (use d in simp_all)
    ultimately show ?thesis using st False ws(3) by (simp add: pio_read_sector_def ata_read_sector_def ATA_CMD_READ_SECTORS_def)
  qed
qed

lemma pio_write:
  assumes "ata_ok a D" "length buf = 512"
  shows "\<exists>a'. pio_write_sector a lba buf = Some (fst (ata_write_sector D lba buf), a') \<and> ata_ok a' (snd (ata_write_sector D lba buf))"
proof -
  obtain d where d: "on_drive a d" "\<not> packet_drive d" "media d = D" "disk_wf D" using assms(1) by (auto simp: ata_ok_def)
  let ?c = "(command 0x30 (addressed lba (d\<lparr>busy := 0\<rparr>)))\<lparr>busy := 0\<rparr>"
  note st = transfer_start(1) [OF d(1)] transfer_start(2) [OF d(1), where lba = lba and c = "0x30"]
  note r = command_result [of "d\<lparr>busy := 0\<rparr>" lba, simplified, OF d(2)]
  have on: "on_drive (put_drive ?c a) ?c" using d(1) by simp
  have ok: "ata_ok (put_drive ?c a) D" by (rule ata_okI [OF d(1)]) (use d in simp_all)
  show ?thesis
  proof (cases "wr_bad D (ata_lba28 lba)")
    case True
    then have "ata_wait_drq (put_drive ?c a) = Some (- 1, put_drive ?c a)" using wait_drq [OF on] r(3) d(3) by simp
    then show ?thesis using st True ok by (simp add: pio_write_sector_def ata_write_sector_def ATA_CMD_WRITE_SECTORS_def)
  next
    case False
    let ?D = "D\<lparr>sectors := (sectors D)(ata_lba28 lba := buf)\<rparr>"
    let ?e = "?c\<lparr>media := ?D, xfer := Idle, busy := latency ?c (commands ?c)\<rparr>"
    have ws: "length (words_of buf) = 256" "words_of buf \<noteq> []" "bytes_of (words_of buf) = buf"
      using assms(2) bytes_of_words [of buf] by (auto simp: length_words_of simp flip: length_greater_0_conv)
    have "ata_wait_drq (put_drive ?c a) = Some (0, put_drive ?c a)" using wait_drq [OF on] r(4) False d(3) by simp
    moreover have "out_words (words_of buf) (put_drive ?c a) = put_drive ?e a"
      using out_words_spec [OF on ws(2), of "ata_lba28 lba" "[]"] r(4) False d(3) ws(1,3) by simp
    moreover have "outb (ata_io_base (put_drive ?e a) + ATA_REG_COMMAND) ATA_CMD_CACHE_FLUSH (put_drive ?e a) = put_drive (command 0xE7 ?e) a"
      using port_put(1) [OF d(1), of 7 "0xE7" ?e] by (simp add: ATA_REG_COMMAND_def ATA_CMD_CACHE_FLUSH_def write_reg_def)
    moreover have "ata_wait_bsy (put_drive (command 0xE7 ?e) a) = Some (put_drive ((command 0xE7 ?e)\<lparr>busy := 0\<rparr>) a)"
      using wait_bsy [OF on_put [OF d(1)], of "command 0xE7 ?e"] by simp
    moreover have "ata_ok (put_drive ((command 0xE7 ?e)\<lparr>busy := 0\<rparr>) a) ?D"
      by (rule ata_okI [OF d(1)]) (use d assms(2) in \<open>simp_all add: disk_wf_def\<close>)
    ultimately show ?thesis using st False by (simp add: pio_write_sector_def ata_write_sector_def ATA_CMD_WRITE_SECTORS_def Let_def)
  qed
qed


section \<open>Finding the drive\<close>

lemma selected_simps [simp]:
  "ata_io_base (selected io ctl a) = io" "ata_control_base (selected io ctl a) = ctl" "floating (selected io ctl a) = floating a"
  "primary (selected io ctl a) = primary a" "secondary (selected io ctl a) = secondary a" "ata_term (selected io ctl a) = ata_term a"
  by (simp_all add: selected_def)

definition channel :: "u16 \<Rightarrow> u16 \<Rightarrow> bool" where
  "channel io ctl \<longleftrightarrow> io = ATA_PRIMARY_IO \<and> ctl = ATA_PRIMARY_CONTROL \<or> io = ATA_SECONDARY_IO \<and> ctl = ATA_SECONDARY_CONTROL"

definition identified :: "drive \<Rightarrow> drive" where
  "identified d = command 0xEC (d\<lparr>drive_head := 0xA0, seccount := 0, lba_low := 0, lba_mid := 0, lba_high := 0\<rparr>)"

lemma identify_spec: "on_drive a d \<Longrightarrow> ata_identify a = put_drive (identified d) a"
  by (simp add: ata_identify_def Let_def ata_regs ata_cmds port_io port_put delay_id [OF on_put] write_reg_def identified_def)

lemma identify_absent:
  assumes "channel io ctl" "at_base (selected io ctl a) = None"
  shows "ata_identify (selected io ctl a) = selected io ctl a" "inb (io + ATA_REG_STATUS) (selected io ctl a) = (floating a, selected io ctl a)"
proof -
  have o: "outb (io + r) v (selected io ctl a) = selected io ctl a" if "r \<in> {2, 3, 4, 5, 6, 7}" for r v
    using assms that by (auto simp: channel_def selected_def at_base_def outb_def ata_bases split: if_splits)
  have "snd (inb ctl (selected io ctl a)) = selected io ctl a" using assms by (auto simp: channel_def selected_def at_base_def inb_def ata_bases split: if_splits)
  then have "ata_delay_400ns (selected io ctl a) = selected io ctl a" by (simp add: ata_delay_400ns_def eval_nat_numeral selected_def)
  then show "ata_identify (selected io ctl a) = selected io ctl a"
    using o by (simp add: ata_identify_def Let_def ata_regs)
  show "inb (io + ATA_REG_STATUS) (selected io ctl a) = (floating a, selected io ctl a)"
    using assms by (auto simp: channel_def selected_def at_base_def inb_def ata_bases ata_regs split: if_splits)
qed

lemma try_absent:
  assumes "channel io ctl" "at_base (selected io ctl a) = None" "floating a = 0"
  shows "\<exists>t. ata_try_channel io ctl label a = Some (- 1, (selected io ctl a)\<lparr>ata_term := t\<rparr>)"
proof -
  show ?thesis using identify_absent [OF assms(1,2)] assms(3)
    by (simp add: ata_try_channel_def Let_def ata_say_def) blast
qed

lemma identified_simps [simp]:
  "latency (identified d) = latency d" "packet_drive (identified d) = packet_drive d" "media (identified d) = media d" "identity (identified d) = identity d"
  by (simp_all add: identified_def)

lemma try_present:
  assumes "on_drive (selected io ctl a) d" "length (identity d) = 256"
  shows "\<exists>d' t. ata_try_channel io ctl label a = Some (if packet_drive d then - 1 else 0, (put_drive d' (selected io ctl a))\<lparr>ata_term := t\<rparr>) \<and>
    media d' = media d \<and> packet_drive d' = packet_drive d"
proof -
  let ?a = "selected io ctl a" and ?i = "identified d"
  have io: "ata_io_base ?a = io" by simp
  let ?s = "put_drive (?i\<lparr>busy := busy ?i - 1\<rparr>) ?a" and ?w = "?i\<lparr>busy := 0\<rparr>"
  have idn: "ata_identify ?a = put_drive ?i ?a" by (rule identify_spec [OF assms(1)])
  have st: "inb (io + ATA_REG_STATUS) (put_drive ?i ?a) = (status_of ?i, ?s)" "status_of ?i \<noteq> 0"
    using port_put(2) [OF assms(1), of 7 ?i] io by (simp_all add: ATA_REG_STATUS_def read_reg_def status_of_def)
  have bsy: "ata_wait_bsy ?s = Some (put_drive ?w ?a)" using wait_bsy [OF on_put [OF assms(1)], of "?i\<lparr>busy := busy ?i - 1\<rparr>"] by simp
  have mid: "inb (io + ATA_REG_LBA_MID) (put_drive ?w ?a) = (lba_mid ?i, put_drive ?w ?a)"
    "inb (io + ATA_REG_LBA_HIGH) (put_drive ?w ?a) = (lba_high ?i, put_drive ?w ?a)"
    using port_put(2) [OF assms(1), of 4 ?w] port_put(2) [OF assms(1), of 5 ?w] io by (simp_all add: ATA_REG_LBA_MID_def ATA_REG_LBA_HIGH_def read_reg_def)
  show ?thesis
  proof (cases "packet_drive d")
    case True
    then have "lba_mid ?i \<noteq> 0" by (simp add: identified_def command_def Let_def)
    then show ?thesis using idn st bsy mid True io
      by (intro exI [of _ ?w] exI [of _ "terminal_writestring (ata_term a) (cstr ''ATA: '' @ label @ cstr '' master is not a standard ATA drive'' @ [0x0A])"])
         (simp add: ata_try_channel_def Let_def ata_say_def)
  next
    case False
    then have i: "lba_mid ?i = 0" "lba_high ?i = 0" "\<not> failed ?i" "xfer ?i = Send (identity d)" by (simp_all add: identified_def command_def Let_def)
    have on: "on_drive (put_drive ?w ?a) ?w" using assms(1) by simp
    have ne: "identity d \<noteq> []" using assms(2) by auto
    have drq: "ata_wait_drq (put_drive ?w ?a) = Some (0, put_drive ?w ?a)" using wait_drq [OF on] i by simp
    have ws: "in_words 256 (put_drive ?w ?a) = (identity d, put_drive (?w\<lparr>xfer := Idle\<rparr>) ?a)" using in_words_spec [OF on ne] i(4) assms(2) by simp
    have "\<exists>t. ata_try_channel io ctl label a = Some (0, (put_drive (?w\<lparr>xfer := Idle\<rparr>) ?a)\<lparr>ata_term := t\<rparr>)"
      using idn st bsy mid i drq ws io by (simp add: ata_try_channel_def Let_def ata_say_def ata_dec_def) blast
    then show ?thesis using False by (auto intro!: exI [of _ "?w\<lparr>xfer := Idle\<rparr>"])
  qed
qed

text \<open>The disk that the driver should find: an ATA drive on the primary channel, or else on the secondary one.\<close>

definition first_disk :: "ata \<Rightarrow> (u16 \<times> drive) option" where
  "first_disk a =
     (case primary a of
        Some d \<Rightarrow> if packet_drive d then map_option (Pair ATA_SECONDARY_IO) (secondary a) else Some (ATA_PRIMARY_IO, d)
      | None \<Rightarrow> map_option (Pair ATA_SECONDARY_IO) (secondary a))"

lemma try_secondary:
  assumes "secondary a = Some d" "\<not> packet_drive d" "length (identity d) = 256" "disk_wf (media d)"
  shows "\<exists>r a'. ata_try_channel ATA_SECONDARY_IO ATA_SECONDARY_CONTROL label a = Some (r, a') \<and> ata_io_base a' = ATA_SECONDARY_IO \<and> ata_ok a' (media d)"
proof -
  have on: "on_drive (selected ATA_SECONDARY_IO ATA_SECONDARY_CONTROL a) d" using assms(1) by (simp add: on_drive_def at_base_def ata_bases)
  obtain d' t where r: "ata_try_channel ATA_SECONDARY_IO ATA_SECONDARY_CONTROL label a = Some (0, (put_drive d' (selected ATA_SECONDARY_IO ATA_SECONDARY_CONTROL a))\<lparr>ata_term := t\<rparr>)"
    "media d' = media d" "\<not> packet_drive d'" using try_present [OF on assms(3), of label] assms(2) by auto
  have "ata_ok ((put_drive d' (selected ATA_SECONDARY_IO ATA_SECONDARY_CONTROL a))\<lparr>ata_term := t\<rparr>) (media d)"
    using on_put [OF on, of d'] r(2,3) assms(4) by (auto simp: ata_ok_def)
  then show ?thesis using r(1) by simp
qed

text \<open>
  the driver comes up on the first channel that has an ATA drive, also when a CD-ROM drive or nothing is
  on the primary one, and then its sectors are those of that drive.
\<close>

theorem ata_init_selects:
  assumes "first_disk a = Some (io, d)" "\<not> packet_drive d" "disk_wf (media d)" "floating a = 0"
    and "\<forall>e. primary a = Some e \<or> secondary a = Some e \<longrightarrow> length (identity e) = 256"
  shows "\<exists>a'. ata_init a = Some a' \<and> ata_io_base a' = io \<and> ata_ok a' (media d)"
proof (cases "primary a")
  case None
  then have "at_base (selected ATA_PRIMARY_IO ATA_PRIMARY_CONTROL a) = None" by (simp add: at_base_def)
  then obtain t where "ata_try_channel ATA_PRIMARY_IO ATA_PRIMARY_CONTROL (cstr ''primary'') a = Some (- 1, (selected ATA_PRIMARY_IO ATA_PRIMARY_CONTROL a)\<lparr>ata_term := t\<rparr>)"
    using try_absent [of ATA_PRIMARY_IO ATA_PRIMARY_CONTROL a] assms(4) by (auto simp: channel_def)
  then show ?thesis using try_secondary [of "(selected ATA_PRIMARY_IO ATA_PRIMARY_CONTROL a)\<lparr>ata_term := t\<rparr>" d "cstr ''secondary''"] None assms
    by (auto simp: first_disk_def ata_init_def)
next
  case (Some p)
  have on: "on_drive (selected ATA_PRIMARY_IO ATA_PRIMARY_CONTROL a) p" using Some by (simp add: on_drive_def at_base_def)
  obtain d' t where r: "ata_try_channel ATA_PRIMARY_IO ATA_PRIMARY_CONTROL (cstr ''primary'') a =
      Some (if packet_drive p then - 1 else 0, (put_drive d' (selected ATA_PRIMARY_IO ATA_PRIMARY_CONTROL a))\<lparr>ata_term := t\<rparr>)"
    "media d' = media p" "packet_drive d' = packet_drive p" using try_present [OF on, of "cstr ''primary''"] assms(5) Some by auto
  let ?a = "(put_drive d' (selected ATA_PRIMARY_IO ATA_PRIMARY_CONTROL a))\<lparr>ata_term := t\<rparr>"
  show ?thesis
  proof (cases "packet_drive p")
    case True
    then show ?thesis using try_secondary [of ?a d "cstr ''secondary''"] r(1) Some assms
      by (auto simp: first_disk_def ata_init_def put_drive_def)
  next
    case False
    then have "p = d" "io = ATA_PRIMARY_IO" using assms(1) Some by (simp_all add: first_disk_def)
    moreover have "ata_ok ?a (media p)" using on_put [OF on, of d'] r(2,3) assms(3) False \<open>p = d\<close> by (auto simp: ata_ok_def)
    ultimately show ?thesis using r(1) False by (simp add: ata_init_def)
  qed
qed

text \<open>Where nothing drives the bus and it reads as ones, the driver never gets out of its first wait.\<close>

lemma ata_init_hangs:
  assumes "primary a = None" "floating a = 0xFF"
  shows "ata_init a = None"
proof -
  let ?a = "selected ATA_PRIMARY_IO ATA_PRIMARY_CONTROL a"
  have n: "at_base ?a = None" "channel ATA_PRIMARY_IO ATA_PRIMARY_CONTROL" using assms(1) by (simp_all add: at_base_def channel_def)
  note i = identify_absent [OF n(2,1)]
  have "ata_wait_bsy ?a \<noteq> Some b" for b
  proof
    assume h: "ata_wait_bsy ?a = Some b"
    have "?a = ?a \<longrightarrow> False"
    proof (rule ata_wait_bsy.raw_induct [where P = "\<lambda>x y. x = ?a \<longrightarrow> False", OF _ h], intro impI)
      fix f x y
      assume IH: "\<And>x y. f x = Some y \<Longrightarrow> x = ?a \<longrightarrow> False"
        and body: "(case inb (ata_io_base x + ATA_REG_STATUS) x of (st, a) \<Rightarrow> if st AND ATA_SR_BSY \<noteq> 0 then f a else Some a) = Some y" and x: "x = ?a"
      show False using body IH [of ?a y] i(2) assms(2) by (simp add: x ATA_SR_BSY_def)
    qed
    then show False by simp
  qed
  then have "ata_wait_bsy ?a = None" by (cases "ata_wait_bsy ?a") auto
  then show ?thesis using i assms(2) by (simp add: ata_init_def ata_try_channel_def Let_def)
qed

section \<open>Examples\<close>

definition drive0 :: drive where
  "drive0 = \<lparr>media = \<lparr>sectors = (\<lambda>_. replicate 512 0), rd_bad = (\<lambda>_. False), wr_bad = (\<lambda>l. l = 9)\<rparr>, latency = (\<lambda>n. 3 + n), identity = replicate 256 0,
     packet_drive = False, commands = 0, busy = 0, failed = False, xfer = Idle, seccount = 0, lba_low = 0, lba_mid = 0, lba_high = 0, drive_head = 0\<rparr>"

definition ata0 :: ata where
  "ata0 = \<lparr>primary = Some (drive0\<lparr>packet_drive := True\<rparr>), secondary = Some drive0, floating = 0, ata_io_base = ATA_SECONDARY_IO, ata_control_base = ATA_SECONDARY_CONTROL,
     ata_term = \<lparr>video_memory = (\<lambda>_. 0), cursor_row = 0, cursor_col = 0, com1 = []\<rparr>\<rparr>"

lemma ata0_ok: "ata_ok ata0 (media drive0)"
  unfolding ata_ok_def by (rule exI [of _ drive0]) (simp add: on_drive_def at_base_def ata0_def ata_bases drive0_def disk_wf_def)


theorem ata_init_selects_witness: "\<exists>a'. ata_init ata0 = Some a' \<and> ata_io_base a' = ATA_SECONDARY_IO \<and> ata_ok a' (media drive0)"
proof -
  have "first_disk ata0 = Some (ATA_SECONDARY_IO, drive0)" by (simp add: first_disk_def ata0_def)
  then show ?thesis by (rule ata_init_selects) (auto simp: ata0_def drive0_def disk_wf_def)
qed

end
