(* ===== verification/Paging_Run.thy ===== *)
theory Paging_Run
  imports Paging_Spec
begin

text \<open>
  The address spaces over time: the operations of src/src/paging.c and src/src/pmm.c as steps, in any
  order from start-up on, and what no sequence of them can lead to.
\<close>

section \<open>The steps\<close>

text \<open>
  \<open>D\<close> are the directories of the programs. A caller maps or gives back only a frame that it has from
  \<open>pmm_alloc_frame\<close> and that is not in an address space yet (\<open>unlisted\<close>).
\<close>

inductive paging_reach :: "paging \<Rightarrow> u32 set \<Rightarrow> bool" where
  boot: "aligned (kdir s) \<Longrightarrow> aligned (kpt s) \<Longrightarrow> kdir s \<noteq> kpt s \<Longrightarrow> pmm_wf (pm s) \<Longrightarrow> kdir s \<notin> pmm_avail (pm s) \<Longrightarrow> kpt s \<notin> pmm_avail (pm s) \<Longrightarrow>
    paging_reach (paging_init s) {}"
| clone: "paging_reach s D \<Longrightarrow> paging_clone_kernel_directory s = Some (d, s') \<Longrightarrow> paging_reach s' (if d = 0 then D else insert d D)"
| table: "paging_reach s D \<Longrightarrow> d \<in> D \<Longrightarrow> paging_get_or_create_user_table s d vaddr = Some (t, s') \<Longrightarrow> paging_reach s' D"
| frame: "paging_reach s D \<Longrightarrow> pmm_alloc_frame (pm s) = Some (f, p) \<Longrightarrow> paging_reach (s\<lparr>pm := p\<rparr>) D"
| map_page: "paging_reach s D \<Longrightarrow> d \<in> D \<Longrightarrow> private_table s d (unat vaddr div 4096 div 1024) \<Longrightarrow> unlisted s D f \<Longrightarrow>
    paging_reach (paging_map_user_page s (table_at s d (unat vaddr div 4096 div 1024)) vaddr f) D"
| release: "paging_reach s D \<Longrightarrow> unlisted s D f \<Longrightarrow> paging_reach (s\<lparr>pm := pmm_free_frame (pm s) f\<rparr>) D"
| switch: "paging_reach s D \<Longrightarrow> paging_reach (paging_switch_directory s d) D"
| teardown: "paging_reach s D \<Longrightarrow> d \<in> D \<Longrightarrow> s1 = paging_free_user_directory s d \<Longrightarrow> paging_reach (s1\<lparr>pm := pmm_free_frame (pm s1) d\<rparr>) (D - {d})"

section \<open>Every step keeps the state consistent\<close>

lemma wf_clone: "paging_wf s D \<Longrightarrow> paging_clone_kernel_directory s = Some (d, s') \<Longrightarrow> paging_wf s' (if d = 0 then D else insert d D)"
  by (erule clone_cases) auto

lemma wf_table: "paging_wf s D \<Longrightarrow> d \<in> D \<Longrightarrow> paging_get_or_create_user_table s d vaddr = Some (t, s') \<Longrightarrow> paging_wf s' D"
  using get_or_create_cases [where vaddr = vaddr] by (metis Pair_inject option.inject)

lemma wf_frame:
  assumes "paging_wf s D" "pmm_alloc_frame (pm s) = Some (f, p)"
  shows "paging_wf (s\<lparr>pm := p\<rparr>) D"
proof (cases "f = 0")
  case True
  have "pmm_wf (pm s)" using assms(1) by (simp add: paging_wf_def)
  then have "p = pm s" using pmm_pool.alloc_fail assms(2) True by blast
  then show ?thesis using assms(1) by simp
next
  case False
  then show ?thesis by (rule alloc_unlisted(1) [OF assms])
qed

lemma wf_map:
  assumes "paging_wf s D" "d \<in> D" "private_table s d (unat vaddr div 4096 div 1024)" "unlisted s D f"
  shows "paging_wf (paging_map_user_page s (table_at s d (unat vaddr div 4096 div 1024)) vaddr f) D"
proof -
  let ?p = "unat vaddr div 4096"
  have "paging_map_user_page s (table_at s d (?p div 1024)) vaddr f = s\<lparr>mem := (mem s)(slot (table_at s d (?p div 1024)) (?p mod 1024) := user_entry f)\<rparr>"
    unfolding paging_map_user_page_def Let_def dir_index(4) user_entry_def ..
  then show ?thesis using install_page(1) [OF assms(1,2) dir_index(2) assms(3) page_index(2) [of ?p] assms(4)] by simp
qed

lemma wf_release:
  assumes "paging_wf s D" "unlisted s D f"
  shows "paging_wf (s\<lparr>pm := pmm_free_frame (pm s) f\<rparr>) D"
proof -
  have u: "frame_addr f" "f \<notin> pmm_avail (pm s)" "f \<notin># ledger s D" "f \<noteq> kdir s" "f \<noteq> kpt s" "size (ledger s D) < unat (used_frames (pm s))"
    using assms(2) by (auto simp: unlisted_def)
  have "pmm_wf (pm s)" using assms(1) by (simp add: paging_wf_def)
  from pmm_pool.release_frame [OF this u(1,2)] u(6) have r: "pmm_wf (pmm_free_frame (pm s) f)" "pmm_avail (pmm_free_frame (pm s) f) = insert f (pmm_avail (pm s))"
    "unat (used_frames (pmm_free_frame (pm s) f)) = unat (used_frames (pm s)) - 1" by auto
  then show ?thesis using assms(1) u by (auto simp: paging_wf_def)
qed

lemma wf_switch: "paging_wf s D \<Longrightarrow> paging_wf (paging_switch_directory s d) D"
  by (simp add: paging_switch_directory_def load_page_directory_def paging_wf_cr3)

lemma wf_teardown: "paging_wf s D \<Longrightarrow> d \<in> D \<Longrightarrow> s1 = paging_free_user_directory s d \<Longrightarrow> paging_wf (s1\<lparr>pm := pmm_free_frame (pm s1) d\<rparr>) (D - {d})"
  using Paging_Spec.teardown(1) [of s D d] by (simp add: free_user_directory_eq)

lemma reach_wf: "paging_reach s D \<Longrightarrow> paging_wf s D"
  by (induction rule: paging_reach.induct)
     (blast intro: paging_init_wf wf_clone wf_table wf_frame wf_map wf_release wf_switch wf_teardown)+

section \<open>Isolation\<close>


text \<open>From the example machine: a program with the pages 5 and 6.\<close>

lemma reach_page:
  fixes vaddr :: u32
  assumes r: "roomy (pm s) (Suc (Suc k))" and s: "paging_reach s D" and d: "d \<in> D"
  shows "\<exists>f s'. paging_reach s' D \<and> view s' d = (view s d)(unat vaddr div 4096 \<mapsto> f) \<and> (roomy (pm s') (Suc k) \<or> roomy (pm s') k)"
proof -
  note wf = reach_wf [OF s]
  obtain t s1 where t: "paging_get_or_create_user_table s d vaddr = Some (t, s1)" "t \<noteq> 0" "roomy (pm s1) (Suc (Suc k)) \<or> roomy (pm s1) (Suc k)"
    using roomy_table [OF r wf d] by blast
  have s1: "paging_reach s1 D" by (rule table [OF s d t(1)])
  let ?p = "unat vaddr div 4096"
  have v: "private_table s1 d (?p div 1024)" "view s1 d = view s d"
    using get_or_create_cases [OF wf d, where vaddr = vaddr] t(1,2) d by (metis Pair_inject option.inject)+
  obtain f p' where f: "pmm_alloc_frame (pm s1) = Some (f, p')" "f \<noteq> 0" "roomy p' (Suc k) \<or> roomy p' k"
    using t(3) roomy_alloc [of "pm s1"] by metis
  let ?s = "s1\<lparr>pm := p'\<rparr>"
  note a = alloc_unlisted [OF reach_wf [OF s1] f(1,2)]
  have pr: "private_table ?s d (?p div 1024)" using v(1) by (simp add: private_table_def)
  have m: "paging_map_user_page ?s (table_at ?s d (?p div 1024)) vaddr f = ?s\<lparr>mem := (mem ?s)(slot (table_at ?s d (?p div 1024)) (?p mod 1024) := user_entry f)\<rparr>"
    unfolding paging_map_user_page_def Let_def dir_index(4) user_entry_def ..
  have "paging_reach (paging_map_user_page ?s (table_at ?s d (?p div 1024)) vaddr f) D"
    by (rule map_page [OF frame [OF s1 f(1)] d pr a(2)])
  moreover have "view (paging_map_user_page ?s (table_at ?s d (?p div 1024)) vaddr f) d = (view s1 d)(?p \<mapsto> f)"
    unfolding m using install_page(2) [OF a(1) d dir_index(2) pr page_index(2) [of ?p] a(2)] dir_index(3) [of vaddr] div_mult_mod_eq [of ?p 1024]
    by (auto simp: view_def fun_eq_iff)
  moreover have "pm (paging_map_user_page ?s (table_at ?s d (?p div 1024)) vaddr f) = p'" unfolding m by simp
  ultimately show ?thesis using f(3) v(2) by metis
qed

lemma reach_two_pages: "\<exists>s d f g. paging_reach s {d} \<and> view s d 5 = Some f \<and> view s d 6 = Some g"
proof -
  have b: "paging_reach paging_example {}" unfolding paging_example_def by (rule boot [OF paging_ram_ok(1-6)])
  obtain d s1 where c: "paging_clone_kernel_directory paging_example = Some (d, s1)" "d \<noteq> 0" "roomy (pm s1) 6"
    using roomy_copy [of paging_example 6 "kdir paging_example"] paging_example_ok(2) unfolding paging_clone_kernel_directory_def by auto
  have s1: "paging_reach s1 {d}" using clone [OF b c(1)] c(2) by simp
  obtain f s2 where s2: "paging_reach s2 {d}" "view s2 d = (view s1 d)(5 \<mapsto> f)" "roomy (pm s2) 5 \<or> roomy (pm s2) 4"
    using reach_page [of s1 4 "{d}" d "0x5000"] s1 c(3) by auto
  then obtain k where k: "roomy (pm s2) (Suc (Suc k))" by (metis numeral_eq_Suc pred_numeral_simps(3) pred_numeral_simps(2) numeral_2_eq_2)
  obtain g s3 where "paging_reach s3 {d}" "view s3 d = (view s2 d)(6 \<mapsto> g)"
    using reach_page [OF k s2(1), of d "0x6000"] by auto
  then show ?thesis using s2(2) by (metis fun_upd_apply num.distinct(5) numeral_eq_iff semiring_norm(86))
qed


end
