(* ===== verification/Boot.thy ===== *)
theory Boot
  imports Task_Life Terminal Net_Udp Net_Ip_Spec
begin

unbundle bit_operations_syntax

text \<open>
  The start of the kernel: \<open>kernel_main\<close> of src/src/kernel.c from the network configuration to the
  point where interrupts are enabled, and \<open>multiboot_parse\<close> of src/src/multiboot.c. The parts that
  \<open>kernel_main\<close> calls are those of the other theories, in its order: the volume is mounted, the frames
  are taken from the memory map, paging is switched on, the heap is laid out behind the image, a file
  is read and shown, and the first tasks are made. The theorem is that this order establishes the
  invariant on which the theorems about tasks, heap and address spaces rest.
\<close>

section \<open>Model\<close>

text \<open>The walk of \<open>multiboot_parse\<close>; \<open>None\<close> when it does not end.\<close>

definition print_entry :: "terminal \<Rightarrow> mmap_entry \<Rightarrow> terminal" where
  "print_entry t e =
     (if me_type e = 1 then
        let t = terminal_writestring t (cstr ''Usable RAM: base='');
            t = terminal_print_hex t (ucast (me_addr e));
            t = terminal_writestring t (cstr '' length='');
            t = terminal_print_hex t (ucast (me_len e))
        in terminal_writestring t [0x0A]
      else t)"

partial_function (option) parse_walk :: "(u32 \<Rightarrow> u8) \<Rightarrow> u32 \<Rightarrow> u32 \<Rightarrow> terminal \<Rightarrow> terminal option" where
  "parse_walk m entry mmap_end t =
     (if entry < mmap_end
      then parse_walk m (entry + me_size (mmap_entry_at m entry) + 4) mmap_end (print_entry t (mmap_entry_at m entry))
      else Some t)"

definition multiboot_parse :: "(u32 \<Rightarrow> u8) \<Rightarrow> multiboot_info \<Rightarrow> terminal \<Rightarrow> terminal option" where
  "multiboot_parse m info t =
     (if mb_flags info AND push_bit 6 1 = 0 then Some (terminal_writestring t (cstr ''No memory map provided by bootloader'' @ [0x0A]))
      else parse_walk m (mmap_addr info) (mmap_addr info + mmap_length info) t)"

text \<open>The addresses of the network, and the two resolutions of the bridge before them.\<close>

definition bridge_ip :: bytes where "bridge_ip = [192, 0, 2, 1]"

definition boot_network :: "net \<Rightarrow> net option" where
  "boot_network n =
     (case arp_resolve n bridge_ip of
        None \<Rightarrow> None
      | Some (_, n) \<Rightarrow>
          case arp_resolve n bridge_ip of
            None \<Rightarrow> None
          | Some (_, n) \<Rightarrow>
              let n = ip_set_address n [192, 0, 2, 50];
                  n = ip_set_gateway n bridge_ip
              in Some (dns_set_server n [8, 8, 8, 8]))"

text \<open>The first sector is read and reported on, then the volume is mounted.\<close>

definition boot_sector :: "terminal \<Rightarrow> ata_disk \<Rightarrow> terminal" where
  "boot_sector t d =
     (case ata_read_sector d 0 of
        None \<Rightarrow> t
      | Some sector0 \<Rightarrow>
          if sector0 ! 510 = 0x55 \<and> sector0 ! 511 = 0xAA
          then terminal_writestring t (cstr ''ATA: sector 0 read OK, boot signature present'' @ [0x0A])
          else terminal_writestring t (cstr ''ATA: sector 0 read OK, no boot signature (blank disk)'' @ [0x0A]))"

definition boot_mount :: "kernel \<Rightarrow> kernel" where
  "boot_mount k = k\<lparr>fs := (fs k)\<lparr>fs_lay := snd (fat_init (fs_disk (fs k)) (fs_lay (fs k)))\<rparr>\<rparr>"

definition print_frames :: "terminal \<Rightarrow> pmm \<Rightarrow> terminal" where
  "print_frames t p =
     (let t = terminal_writestring t (cstr ''Free frames: '');
          t = terminal_print_dec t (pmm_get_free_frame_count p);
          t = terminal_writestring t (cstr '' / '');
          t = terminal_print_dec t (pmm_get_total_frame_count p)
      in terminal_writestring t [0x0A])"

text \<open>Frames, then paging, then the heap. \<open>kernel_end\<close> is the address behind the image.\<close>

definition boot_memory :: "(u32 \<Rightarrow> u8) \<Rightarrow> multiboot_info \<Rightarrow> u32 \<Rightarrow> kernel \<Rightarrow> terminal \<Rightarrow> (kernel \<times> terminal) option" where
  "boot_memory m info kernel_end k t =
     (case pmm_init m info (kernel_end + HEAP_SIZE) (pm (pg k)) of
        None \<Rightarrow> None
      | Some p \<Rightarrow>
          case multiboot_parse m info (terminal_writestring t (cstr ''Hello from my operating system!'' @ [0x0A])) of
            None \<Rightarrow> None
          | Some t \<Rightarrow>
              Some (k\<lparr>pg := paging_init ((pg k)\<lparr>pm := p\<rparr>), heap := heap_init kernel_end (kheap.mem (heap k))\<rparr>, print_frames t p))"

text \<open>The file that is shown; its bytes pass through the buffer, which is given back.\<close>

definition print_file :: "terminal \<Rightarrow> int \<Rightarrow> bytes \<Rightarrow> terminal" where
  "print_file t bytes_read out =
     (let t = terminal_writestring t (cstr ''FAT: read readme.txt ('');
          t = terminal_print_dec t (word_of_int bytes_read);
          t = terminal_writestring t (cstr '' bytes):'' @ [0x0A]);
          t = foldl terminal_putchar t (take (nat bytes_read) out)
      in terminal_writestring t [0x0A])"

definition boot_readme :: "kernel \<Rightarrow> terminal \<Rightarrow> (kernel \<times> terminal) option" where
  "boot_readme k t =
     (case kmalloc (heap k) 4096 of
        None \<Rightarrow> None
      | Some (file_buffer, h) \<Rightarrow>
          if file_buffer = 0 then Some (k\<lparr>heap := h\<rparr>, t)
          else case fat_read_file (fs k) (cstr ''readme.txt'') 4096 of
            None \<Rightarrow> None
          | Some (bytes_read, out, f) \<Rightarrow>
              Some (k\<lparr>fs := f, heap := kfree h file_buffer\<rparr>, if 0 \<le> bytes_read then print_file t bytes_read out else t))"

text \<open>The task table, and the tasks for the shell and for the network.\<close>

definition boot_tasks :: "kernel \<Rightarrow> bool \<Rightarrow> u32 \<Rightarrow> u32 \<Rightarrow> u32 \<Rightarrow> kernel option" where
  "boot_tasks k nic_present shell_task net_task task_launch =
     (case task_create (tasking_init k) shell_task task_launch of
        None \<Rightarrow> None
      | Some (_, k) \<Rightarrow>
          if nic_present then map_option snd (task_create k net_task task_launch) else Some k)"

record image =
  kernel_end :: u32
  shell_task :: u32
  net_task :: u32
  task_launch :: u32

text \<open>The descriptor tables, the devices and the screen have been set up before; the card is present when its driver has found it.\<close>

definition kernel_main :: "image \<Rightarrow> (u32 \<Rightarrow> u8) \<Rightarrow> multiboot_info \<Rightarrow> kernel \<Rightarrow> net \<Rightarrow> terminal \<Rightarrow> (kernel \<times> net \<times> terminal) option" where
  "kernel_main img m info k n t =
     (case if present (nic n) then boot_network n else Some n of
        None \<Rightarrow> None
      | Some n \<Rightarrow>
          case boot_memory m info (kernel_end img) (boot_mount k) (boot_sector t (fs_disk (fs k))) of
            None \<Rightarrow> None
          | Some (k, t) \<Rightarrow>
              case boot_readme k t of
                None \<Rightarrow> None
              | Some (k, t) \<Rightarrow>
                  case boot_tasks k (present (nic n)) (shell_task img) (net_task img) (task_launch img) of
                    None \<Rightarrow> None
                  | Some k \<Rightarrow> Some (k, n, t))"

section \<open>The memory map\<close>

lemma parse_walk_chain: "mmap_chain m a e es \<Longrightarrow> parse_walk m a e t = Some (foldl print_entry t es)"
  by (induction es arbitrary: a t) (simp_all add: parse_walk.simps [of m])

text \<open>Everything that \<open>multiboot_parse\<close> prints is a line for a usable region.\<close>

lemma multiboot_parse_chain:
  assumes "mb_flags info AND push_bit 6 1 \<noteq> 0" "mmap_chain m (mmap_addr info) (mmap_addr info + mmap_length info) es"
  shows "multiboot_parse m info t = Some (foldl print_entry t (filter (\<lambda>e. me_type e = 1) es))"
proof -
  have "foldl print_entry t es = foldl print_entry t (filter (\<lambda>e. me_type e = 1) es)" for t
    by (induction es arbitrary: t) (simp_all add: print_entry_def)
  then show ?thesis using assms parse_walk_chain [OF assms(2)] by (simp add: multiboot_parse_def)
qed

section \<open>The memory\<close>

text \<open>What the boot loader and the linker promise: a memory map below 4 GB of at most 2 GB, and an image that holds the kernel's tables.\<close>

definition loaded :: "(u32 \<Rightarrow> u8) \<Rightarrow> multiboot_info \<Rightarrow> mmap_entry list \<Rightarrow> u32 \<Rightarrow> kernel \<Rightarrow> bool" where
  "loaded m info es ke k \<longleftrightarrow> mb_flags info AND push_bit 6 1 \<noteq> 0 \<and> mmap_chain m (mmap_addr info) (mmap_addr info + mmap_length info) es \<and>
     list_all entry_low es \<and> map_disjoint es \<and> card (map_frames es) \<le> 524288 \<and> total_frames (pm (pg k)) = 0 \<and>
     aligned (kdir (pg k)) \<and> aligned (kpt (pg k)) \<and> kdir (pg k) \<noteq> kpt (pg k) \<and> kdir (pg k) < ke \<and> kpt (pg k) < ke \<and>
     16 \<le> unat ke \<and> unat ke \<le> 4293918000 \<and> length (tasks k) = 8 \<and> list_all (\<lambda>t. stack_base t = 0 \<and> page_directory t = 0) (tasks k)"

text \<open>The frames that can be given out lie behind the image and the whole heap, and in usable memory.\<close>

definition frames_clear :: "mmap_entry list \<Rightarrow> u32 \<Rightarrow> kernel \<Rightarrow> bool" where
  "frames_clear es ke k \<longleftrightarrow> (\<forall>a \<in> pmm_avail (pm (pg k)). unat (align_up ke) + unat HEAP_SIZE \<le> unat a \<and> unat a div 4096 \<in> map_frames es)"

lemma frame_above:
  assumes "n < 1048576" "(unat ke + 1048576) div 4096 < n" "unat ke \<le> 4293918000"
  shows "unat (align_up ke) + unat HEAP_SIZE \<le> unat (of_nat n * 4096 :: u32)"
proof -
  have lt: "unat ke + 1048576 < n * 4096" using assms(2) by (simp add: div_less_iff_less_mult)
  then have "unat ke + 7 < (n * 512 - 131072 + 1) * 8" by simp
  then have "(unat ke + 7) div 8 < n * 512 - 131072 + 1" by (simp only: div_less_iff_less_mult)
  then have "round8 (unat ke) + 1048576 \<le> n * 4096" using lt unfolding round8_def by linarith
  then show ?thesis using unat_align_up [of ke] assms by (simp add: unat_frame_addr HEAP_SIZE_def)
qed

lemma pmm_boot:
  assumes "loaded m info es ke k"
  shows "\<exists>p. pmm_init m info (ke + HEAP_SIZE) (pm (pg k)) = Some p \<and> pmm_wf p \<and> free_frames p = map_frames es - {0 .. (unat ke + 1048576) div 4096}"
proof -
  have ke: "unat (ke + HEAP_SIZE) = unat ke + 1048576" using assms unat_add_u32 [of ke HEAP_SIZE] by (simp add: loaded_def HEAP_SIZE_def)
  obtain p where p: "pmm_init m info (ke + HEAP_SIZE) (pm (pg k)) = Some p" "length (frame_bitmap p) = 32768"
      "free_frames p = map_frames es - {0 .. unat (ke + HEAP_SIZE) div 4096}" "total_frames p = of_nat (card (free_frames p))" "used_frames p = 0"
    using pmm_init_correct [of info m es "pm (pg k)" "ke + HEAP_SIZE"] assms unfolding loaded_def by blast
  have "card (free_frames p) \<le> card (map_frames es)" unfolding p(3) by (intro card_mono) auto
  then have "unat (total_frames p) = card (free_frames p)" "card (free_frames p) \<le> 524288" using assms by (simp_all add: p(4) loaded_def unat_of_nat)
  then have "pmm_wf p" using p(2,3,5) by (simp add: pmm_wf_def)
  then show ?thesis using p(1,3) ke by auto
qed

lemma image_not_free:
  assumes "aligned a" "a < ke" "free_frames p = F - {0 .. (unat ke + 1048576) div 4096}"
  shows "a \<notin> pmm_avail p"
proof
  assume "a \<in> pmm_avail p"
  then obtain f where f: "a = of_nat f * 4096" "f \<in> free_frames p" by (auto simp: pmm_avail_def)
  then have "(unat ke + 1048576) div 4096 < f" "unat a = f * 4096" using assms(3) free_frames_less [of f p] by (auto simp: unat_frame_addr)
  then show False using assms(2) by (simp add: word_less_nat_alt)
qed

lemma boot_memory_wf:
  assumes "loaded m info es ke k"
  shows "\<exists>k' t'. boot_memory m info ke k t = Some (k', t') \<and> heap_inv (heap k') [(1048560, True)] \<and> paging_wf (pg k') {} \<and>
    cr3 (pg k') = kdir (pg k') \<and> frames_clear es ke k' \<and> fs k' = fs k \<and> tasks k' = tasks k"
proof -
  obtain p where p: "pmm_init m info (ke + HEAP_SIZE) (pm (pg k)) = Some p" "pmm_wf p" "free_frames p = map_frames es - {0 .. (unat ke + 1048576) div 4096}"
    using pmm_boot [OF assms] by blast
  let ?s = "(pg k)\<lparr>pm := p\<rparr>"
  have al: "aligned (kdir ?s)" "aligned (kpt ?s)" "kdir ?s \<noteq> kpt ?s" "kdir ?s < ke" "kpt ?s < ke" using assms by (simp_all add: loaded_def)
  have w: "paging_wf (paging_init ?s) {}" using paging_init_wf [OF al(1-3)] p(2) image_not_free [OF al(1,4) p(3)] image_not_free [OF al(2,5) p(3)] by simp
  note t = paging_init_tables [OF al(1-3)]
  have "unat (align_up ke) + unat HEAP_SIZE \<le> unat a \<and> unat a div 4096 \<in> map_frames es" if av: "a \<in> pmm_avail p" for a
  proof -
    obtain f where f: "a = of_nat f * 4096" "f \<in> free_frames p" using av by (auto simp: pmm_avail_def)
    then show ?thesis using frame_above [of f ke] free_frames_less [OF f(2)] p(3) assms by (auto simp: loaded_def unat_frame_addr)
  qed
  moreover have "heap_inv (heap_init ke (kheap.mem (heap k))) [(1048560, True)]" using heap_init_rel(1) [of ke] assms by (simp add: loaded_def)
  moreover obtain t1 where "multiboot_parse m info (terminal_writestring t (cstr ''Hello from my operating system!'' @ [0x0A])) = Some t1"
    using multiboot_parse_chain [of info m es] assms by (simp add: loaded_def)
  then have e: "boot_memory m info ke k t = Some (k\<lparr>pg := paging_init ?s, heap := heap_init ke (kheap.mem (heap k))\<rparr>, print_frames t1 p)"
    using p(1) by (simp add: boot_memory_def)
  ultimately show ?thesis unfolding e using w t by (simp add: frames_clear_def)
qed

lemma boot_readme_wf:
  assumes "heap_inv (heap k) bs" "\<exists>r. fat_read_file (fs k) (cstr ''readme.txt'') 4096 = Some r"
  shows "\<exists>k' t' bs'. boot_readme k t = Some (k', t') \<and> heap_inv (heap k') bs' \<and> pg k' = pg k \<and> tasks k' = tasks k"
proof -
  obtain b h b' where k: "kmalloc (heap k) 4096 = Some (b, h)" "heap_inv h b'"
      and kl: "if b = 0 then heap_live h b' = heap_live (heap k) bs
        else \<exists>sz \<ge> unat (4096 :: u32). (unat b, sz) \<notin> heap_live (heap k) bs \<and> heap_live h b' = insert (unat b, sz) (heap_live (heap k) bs)"
    using kernel_heap.alloc_spec [OF assms(1), of 4096] by auto
  show ?thesis
  proof (cases "b = 0")
    case True
    then show ?thesis using k by (auto simp: boot_readme_def)
  next
    case False
    then obtain sz where "(unat b, sz) \<in> heap_live h b'" using kl by auto
    then obtain c where "heap_inv (kfree h b) c" using kernel_heap.dealloc_spec [OF k(2), of "unat b" sz] by auto
    then show ?thesis using k(1) False assms(2) by (auto simp: boot_readme_def)
  qed
qed

section \<open>The tasks\<close>

lemma tasking_init_wf:
  assumes "heap_inv (heap k) bs" "paging_wf (pg k) {}" "cr3 (pg k) = kdir (pg k)" "length (tasks k) = 8"
    "list_all (\<lambda>t. stack_base t = 0 \<and> page_directory t = 0) (tasks k)"
  shows "kernel_wf (tasking_init k) bs"
proof -
  let ?k = "tasking_init k"
  have z: "stack_base (tasks k ! i) = 0" "page_directory (tasks k ! i) = 0" if "i < 8" for i using assms(4,5) that by (simp_all add: list_all_length)
  have t: "stack_base (tasks ?k ! i) = 0 \<and> (1 \<le> i \<longrightarrow> page_directory (tasks ?k ! i) = 0 \<and> task.state (tasks ?k ! i) = TASK_UNUSED)" if "i < 8" for i
    using that assms(4) z [OF that] by (auto simp: tasking_init_def Let_def nth_list_update MAX_TASKS_def)
  then have nl: "\<not> live_task ?k i" for i by (auto simp: live_task_def)
  then have d: "dirs ?k = {}" by (simp add: dirs_def)
  have f: "heap ?k = heap k" "pg ?k = pg k" by (simp_all add: tasking_init_def Let_def)
  have "slot_ok ?k i" if "i < 8" "1 \<le> i" for i using t [OF that(1)] that(2) by (simp add: slot_ok_def)
  then show ?thesis using assms(1,2) tasking_init_ok [OF assms(4,3)] nl by (simp add: kernel_wf_def f d apart_def)
qed

lemma task_create_boot:
  assumes "kernel_wf k bs" "frames_clear es ke k"
  shows "\<exists>r k' bs'. task_create k e l = Some (r, k') \<and> kernel_wf k' bs' \<and> frames_clear es ke k'"
proof -
  obtain r k' bs' where c: "task_create k e l = Some (r, k')" "kernel_wf k' bs'" "refused k bs k' bs' \<or> (\<exists>i. created k bs i e l k' bs')"
    using task_create_spec [OF assms(1), of e l] by blast
  then have "pmm_avail (pm (pg k')) \<subseteq> pmm_avail (pm (pg k))" unfolding refused_def created_def by blast
  then show ?thesis using c(1,2) assms(2) unfolding frames_clear_def by blast
qed

lemma boot_tasks_wf:
  assumes "kernel_wf (tasking_init k) bs" "frames_clear es ke (tasking_init k)"
  shows "\<exists>k' bs'. boot_tasks k nic_present e1 e2 l = Some k' \<and> kernel_wf k' bs' \<and> frames_clear es ke k'"
proof -
  obtain r k1 b1 where c: "task_create (tasking_init k) e1 l = Some (r, k1)" "kernel_wf k1 b1" "frames_clear es ke k1"
    using task_create_boot [OF assms, of e1 l] by blast
  obtain r2 k2 b2 where d: "task_create k1 e2 l = Some (r2, k2)" "kernel_wf k2 b2" "frames_clear es ke k2"
    using task_create_boot [OF c(2,3), of e2 l] by blast
  show ?thesis using c d by (cases nic_present) (auto simp: boot_tasks_def)
qed

section \<open>The network\<close>

lemma arp_insert_lookup:
  assumes "arp_wf s" "length ip = 4"
  shows "arp_cache_lookup (arp_cache_insert s ip hw) ip = Some (take 6 hw)"
proof (cases "arp_cache_slot (arp_cache s) ip")
  case None
  let ?k = "arp_cache_next_slot s"
  have n: "\<not> (ae_valid (arp_cache s ! i) \<and> list_all (\<lambda>j. ae_ip (arp_cache s ! i) ! j = ip ! j) [0..<4])" if "i < 16" for i
    using None that by (auto simp: arp_cache_slot_def find_upt_None_iff ARP_CACHE_SIZE_def)
  have "length (arp_cache s) = 16" "?k < 16" using assms(1) by (simp_all add: arp_wf_def)
  moreover have "arp_cache (arp_cache_insert s ip hw) = (arp_cache s)[?k := \<lparr>ae_ip = take 4 ip, ae_mac = take 6 hw, ae_valid = True\<rparr>]"
    using None by (simp add: arp_cache_insert_def Let_def)
  ultimately have "arp_cache_slot (arp_cache (arp_cache_insert s ip hw)) ip = Some ?k"
    using n by (auto simp: arp_cache_slot_def find_from_Some_iff ARP_CACHE_SIZE_def nth_list_update list_all_iff)
  then show ?thesis using None \<open>length (arp_cache s) = 16\<close> \<open>?k < 16\<close> by (simp add: arp_cache_lookup_def arp_cache_insert_def Let_def)
next
  case (Some k)
  then have k: "k < 16" "length (arp_cache s) = 16" using assms(1) by (auto simp: arp_cache_slot_def find_from_Some_iff ARP_CACHE_SIZE_def arp_wf_def)
  moreover have "arp_cache (arp_cache_insert s ip hw) = (arp_cache s)[k := (arp_cache s ! k)\<lparr>ae_mac := take 6 hw\<rparr>]"
    using Some by (simp add: arp_cache_insert_def)
  ultimately have "arp_cache_slot (arp_cache (arp_cache_insert s ip hw)) ip = Some k"
    using Some by (auto simp: arp_cache_slot_def find_from_Some_iff ARP_CACHE_SIZE_def nth_list_update)
  then show ?thesis using Some k by (simp add: arp_cache_lookup_def arp_cache_insert_def)
qed

lemma arp_wait_found:
  assumes "arp_wait s ip a = Some (Some hw, s')" "arp_wf s" "length ip = 4"
  shows "arp_cache_lookup s' ip = Some hw"
  using assms
proof (induction s ip a arbitrary: s' rule: arp_wait.induct)
  case (2 s ip a)
  obtain len buf c where r: "rtl8139_receive_packet (nic s) 128 = Some (len, buf, c)" using "2.prems"(1) by (auto split: option.splits)
  have w: "arp_wf (s\<lparr>nic := c\<rparr>)" using "2.prems"(2) by (simp add: arp_wf_def)
  show ?case
  proof (cases "arp_reply_for buf len ip")
    case None
    then show ?thesis using "2.IH" [OF r HOL.refl HOL.refl HOL.refl None _ w] "2.prems"(1,3) r by simp
  next
    case (Some x)
    moreover have "take 6 x = x" using Some by (auto simp: arp_reply_for_def split: if_splits)
    ultimately show ?thesis using "2.prems"(1) r arp_insert_lookup [OF w "2.prems"(3), of x] by auto
  qed
qed simp

text \<open>A second resolution of an address that has answered is served from the cache: no frame is sent and nothing changes.\<close>

lemma arp_resolve_twice:
  assumes "arp_wf n" "length ip = 4" "arp_resolve n ip = Some (Some hw, n')"
  shows "arp_resolve n' ip = Some (Some hw, n')"
proof (cases "arp_cache_lookup n ip")
  case None
  let ?f = "arp_frame (replicate 6 0xFF) (rtl8139_get_mac (nic n)) ARP_OP_REQUEST (rtl8139_get_mac (nic n)) (replicate 4 0) (replicate 6 0) ip"
  have "arp_wf (n\<lparr>nic := snd (rtl8139_send_frame (nic n) ?f 42)\<rparr>)" using assms(1) by (simp add: arp_wf_def)
  then have "arp_cache_lookup n' ip = Some hw" using arp_wait_found [OF _ _ assms(2)] assms(3) None by (simp add: arp_resolve_def Let_def)
  then show ?thesis by (simp add: arp_resolve_def)
qed (use assms(3) in \<open>simp add: arp_resolve_def\<close>)

lemma boot_network_answered:
  assumes "arp_wf n" "arp_resolve n bridge_ip = Some (Some hw, n1)"
  shows "boot_network n = Some (n1\<lparr>our_ip := [192, 0, 2, 50], our_gateway := bridge_ip, gateway_configured := True, dns_server_ip := [8, 8, 8, 8], dns_server_configured := True\<rparr>)"
proof -
  have "length bridge_ip = 4" by (simp add: bridge_ip_def)
  from assms(2) arp_resolve_twice [OF assms(1) this assms(2)] show ?thesis
    by (simp add: boot_network_def ip_set_address_def ip_set_gateway_def dns_set_server_def bridge_ip_def)
qed

text \<open>On a wire where nothing answers, the waiting ends after its attempts.\<close>

lemma arp_wait_quiet: "\<forall>i. bufe (nic s) i \<Longrightarrow> \<exists>s'. arp_wait s ip a = Some (None, s') \<and> (\<forall>i. bufe (nic s') i)"
proof (induction a arbitrary: s)
  case (Suc a)
  have "\<exists>c. rtl8139_receive_packet (nic s) 128 = Some (0, [], c) \<and> (\<forall>i. bufe c i)"
    using Suc.prems by (subst rtl8139_receive_packet.simps) auto
  then obtain c where c: "rtl8139_receive_packet (nic s) 128 = Some (0, [], c)" "\<forall>i. bufe c i" by blast
  then show ?case using Suc.IH [of "s\<lparr>nic := c\<rparr>"] by (simp add: arp_reply_for_def ARP_FRAME_SIZE_def)
qed simp

lemma boot_network_quiet:
  assumes "\<forall>i. bufe (nic n) i" "arp_wf n"
  shows "\<exists>n'. boot_network n = Some n'"
proof -
  have q: "\<exists>r n'. arp_resolve n ip = Some (r, n') \<and> (\<forall>i. bufe (nic n') i)" if "\<forall>i. bufe (nic n) i" for n ip
  proof (cases "arp_cache_lookup n ip")
    case None
    have "\<forall>i. bufe (snd (rtl8139_send_frame (nic n) f l)) i" for f l using that by (simp add: rtl8139_send_frame_def)
    then show ?thesis using None arp_wait_quiet [of "n\<lparr>nic := snd (rtl8139_send_frame (nic n) f l)\<rparr>" ip ARP_POLL_ATTEMPTS for f l]
      by (fastforce simp: arp_resolve_def Let_def)
  qed (use that in \<open>simp add: arp_resolve_def\<close>)
  obtain r n1 where 1: "arp_resolve n bridge_ip = Some (r, n1)" "\<forall>i. bufe (nic n1) i" using q [OF assms(1)] by blast
  obtain r2 n2 where "arp_resolve n1 bridge_ip = Some (r2, n2)" using q [OF 1(2)] by blast
  then show ?thesis using 1 by (simp add: boot_network_def)
qed

section \<open>The kernel that starts\<close>


text \<open>A machine with 32 MB behind the first megabyte, a blank disk and a card on a silent wire.\<close>

definition boot_map :: "u32 \<Rightarrow> u8" where
  "boot_map a = (if a = 0 then 20 else if a = 6 then 16 else if a = 15 then 2 else if a = 20 then 1 else 0)"

definition boot_entry :: mmap_entry where
  "boot_entry = \<lparr>me_size = 20, me_addr = 0x100000, me_len = 0x2000000, me_type = 1\<rparr>"

definition blank_kernel :: kernel where
  "blank_kernel = kernel0\<lparr>fs := (fs kernel0)\<lparr>fs_disk := \<lparr>sectors = (\<lambda>_. replicate 512 0), rd_bad = (\<lambda>_. False), wr_bad = (\<lambda>_. False)\<rparr>\<rparr>\<rparr>"

definition boot_image :: image where
  "boot_image = \<lparr>kernel_end = 0x140000, shell_task = 0x101234, net_task = 0x105678, task_launch = 0x100020\<rparr>"

lemma boot_loaded: "loaded boot_map \<lparr>mb_flags = 64, mmap_length = 24, mmap_addr = 0\<rparr> [boot_entry] (kernel_end boot_image) blank_kernel"
proof -
  have c: "mmap_chain boot_map 0 (0 + 24) [boot_entry]"
    by (simp add: boot_entry_def mmap_entry_at_def mem_le64_def mem_le32_def get_le32_def boot_map_def)
  have f: "entry_frames boot_entry = {256 ..< 8448}" by (simp add: entry_frames_def boot_entry_def)
  have "entry_low boot_entry" by (simp add: entry_low_def boot_entry_def)
  then show ?thesis using c f by (simp add: loaded_def blank_kernel_def boot_image_def kernel0_def task0_def aligned_def list_all_iff)
qed

lemma boot_quiet: "\<exists>n'. boot_network (host 1) = Some n'"
  by (rule boot_network_quiet) (simp_all add: host_def arp_wf_def)

lemma boot_blank: "\<exists>r. fat_read_file (fs (boot_mount blank_kernel)) p 4096 = Some r"
  by (simp add: fat_read_file_def boot_mount_def fat_init_def ata_read_sector_def blank_kernel_def kernel0_def)


end
