(* ===== verification/Malloctest.thy ===== *)
theory Malloctest
  imports Kheap_Spec Libc_Str
begin

text \<open>
  The self test of the process heap, src/userspace/malloctest.c: it allocates, fills, frees and
  allocates again, and reports what it finds. The bytes that it fills its blocks with are kept beside
  the headers, so that what it checks is that no two blocks overlap. The theorem is that on a fresh
  heap, wherever the linker puts it, each of its nine reports is OK.
\<close>

section \<open>The program\<close>

record mtest =
  mt_heap :: uheap
  mt_bytes :: "u32 \<Rightarrow> u8"
  mt_out :: bytes

definition report :: "string \<Rightarrow> bool \<Rightarrow> mtest \<Rightarrow> mtest" where
  "report label ok s = s\<lparr>mt_out := mt_out s @ cstr label @ cstr (if ok then ''OK'' else ''FAIL'') @ [0x0A]\<rparr>"

definition fill :: "u32 \<Rightarrow> u8 \<Rightarrow> u32 \<Rightarrow> mtest \<Rightarrow> mtest" where
  "fill p x len s = s\<lparr>mt_bytes := memset (mt_bytes s) p (ucast x) len\<rparr>"

definition intact :: "mtest \<Rightarrow> u32 \<Rightarrow> u8 \<Rightarrow> nat \<Rightarrow> bool" where
  "intact s p x n \<longleftrightarrow> list_all (\<lambda>i. mt_bytes s (p + of_nat i) = x) [0..<n]"

definition release :: "u32 \<Rightarrow> mtest \<Rightarrow> mtest" where
  "release p s = s\<lparr>mt_heap := free (mt_heap s) p\<rparr>"

definition take_block :: "u32 \<Rightarrow> u32 \<Rightarrow> mtest \<Rightarrow> (u32 \<times> mtest) option" where
  "take_block u sz s = map_option (\<lambda>(p, h). (p, s\<lparr>mt_heap := h\<rparr>)) (malloc u (mt_heap s) sz)"

text \<open>The second half, from the release of the middle block.\<close>

definition malloctest_reuse :: "u32 \<Rightarrow> u32 \<Rightarrow> u32 \<Rightarrow> u32 \<Rightarrow> mtest \<Rightarrow> mtest option" where
  "malloctest_reuse u a b c s =
     Option.bind (take_block u 32 (release b s)) (\<lambda>(d, s).
       let s = report ''malloc d (reuse freed space): '' (d \<noteq> 0) s;
           s = (if d \<noteq> 0 then fill d 0x44 32 s else s);
           s = report ''a still intact after b freed/d allocated: '' (intact s a 0x41 64) s;
           s = report ''c still intact after b freed/d allocated: '' (intact s c 0x43 64) s;
           s = report ''d intact: '' (d \<noteq> 0 \<longrightarrow> intact s d 0x44 32) s;
           s = report ''d reused b's freed space (d <= old b address): '' (d \<noteq> 0 \<and> d \<le> b) s
       in Option.bind (take_block u 60000 (release d (release c (release a s)))) (\<lambda>(big, s).
            Some (report ''malloc big after freeing everything: '' (big \<noteq> 0) s)))"

definition malloctest :: "u32 \<Rightarrow> mtest \<Rightarrow> mtest option" where
  "malloctest u s =
     Option.bind (take_block u 64 s) (\<lambda>(a, s).
     Option.bind (take_block u 128 s) (\<lambda>(b, s).
     Option.bind (take_block u 64 s) (\<lambda>(c, s).
       let s = report ''malloc c: '' (c \<noteq> 0) (report ''malloc b: '' (b \<noteq> 0) (report ''malloc a: '' (a \<noteq> 0) s))
       in if a = 0 \<or> b = 0 \<or> c = 0 then Some s
          else malloctest_reuse u a b c (fill c 0x43 64 (fill b 0x42 128 (fill a 0x41 64 s))))))"

section \<open>Steps of the heap with the block lists they lead to\<close>

lemma malloc_step:
  assumes "uheap_inv u h bs" "sz \<noteq> 0" "unat sz \<le> 4294967288" "amalloc (round8 (unat sz)) (unat u) bs = Some (p, bs')"
  shows "\<exists>h'. malloc u h sz = Some (adr p, h') \<and> uheap_inv u h' bs'"
proof -
  let ?h = "malloc_setup u h"
  have rel: "heap_rel (umem ?h) (unat u) bs" using assms(1) by (simp add: uheap_inv_def)
  have u0: "u \<noteq> 0" using rel by (auto simp: heap_rel_def)
  have st: "malloc_heap_start ?h = u" using assms(1) by (auto simp: uheap_inv_def malloc_setup_def Let_def)
  obtain m' where w: "kmalloc_walk (umem ?h) u (align_up sz) = Some (adr p, m')" "heap_rel m' (unat u) bs'"
    using kmalloc_walk_rel [OF rel assms(3)] assms(4) by auto
  have "malloc_setup u (?h\<lparr>umem := m'\<rparr>) = ?h\<lparr>umem := m'\<rparr>" using st u0 by (simp add: malloc_setup_def)
  then show ?thesis using w st assms(2) malloc_walk_eq [OF w(1)] by (simp add: malloc_def uheap_inv_def malloc_align_up_eq Let_def)
qed

lemma free_step:
  assumes "uheap_inv u h bs" "(p, s) \<in> live (unat u) bs"
  shows "uheap_inv u (free h (adr p)) (afree p (unat u) bs)"
proof -
  have rel: "heap_rel (umem (malloc_setup u h)) (unat u) bs" using assms by (simp add: uheap_inv_def)
  have st: "malloc_heap_start h = u" and u0: "u \<noteq> 0" using assms rel by (auto simp: uheap_inv_def heap_rel_def)
  then have h: "malloc_setup u h = h" "\<And>m. malloc_setup u (h\<lparr>umem := m\<rparr>) = h\<lparr>umem := m\<rparr>" by (simp_all add: malloc_setup_def)
  have "adr p \<noteq> 0" using live_bounds [OF assms(2)] rel adr_eq_0 [of p] by (auto simp: heap_rel_def)
  then have "free h (adr p) = h\<lparr>umem := kfree_store (umem h) (adr p)\<rparr>" by (simp add: free_eq)
  then show ?thesis using heap_rel_afree(1) [OF rel assms(2)] st h by (simp add: uheap_inv_def)
qed

lemma take_block_step:
  assumes "uheap_inv u (mt_heap s) bs" "sz \<noteq> 0" "unat sz \<le> 4294967288" "amalloc (round8 (unat sz)) (unat u) bs = Some (p, bs')"
  shows "\<exists>h. take_block u sz s = Some (adr p, s\<lparr>mt_heap := h\<rparr>) \<and> uheap_inv u h bs'"
  using malloc_step [OF assms] by (auto simp: take_block_def)

section \<open>The bytes of the blocks\<close>

lemma byte_through_int: "ucast (ucast (x :: u8) :: u32) = x"
  by (rule bit_word_eqI) (simp add: bit_simps)

lemma fill_at:
  assumes "p + len \<le> 4294967296" "len < 4294967296" "x < 4294967296" "p < 4294967296"
  shows "mt_bytes (fill (adr p) ch (of_nat len) s) (adr x) = (if p \<le> x \<and> x < p + len then ch else mt_bytes s (adr x))"
proof -
  have o: "unat (adr x - adr p) = (if p \<le> x then x - p else x + 4294967296 - p)"
    using assms by (simp add: unat_sub_if' unat_adr)
  have "mt_bytes (fill (adr p) ch (of_nat len) s) (adr x) = (if unat (adr x - adr p) < len then ch else mt_bytes s (adr x))"
    using memset_loop_spec [of 0 len "mt_bytes s" "adr p" ch "adr x"] assms(2)
    by (simp add: fill_def memset_def unat_of_nat_u32 byte_through_int)
  then show ?thesis using o assms by auto
qed

lemma intact_cong [simp]: "intact (report l b s) = intact s" "intact (s\<lparr>mt_heap := h\<rparr>) = intact s"
  by (simp_all add: intact_def report_def fun_eq_iff)

lemma intact_iff: "intact s (adr p) ch n \<longleftrightarrow> (\<forall>i < n. mt_bytes s (adr (p + i)) = ch)"
  by (auto simp: intact_def list_all_iff adr_def)

lemma release_bytes [simp]: "mt_bytes (release p s) = mt_bytes s" "mt_bytes (report l b s) = mt_bytes s" "mt_heap (report l b s) = mt_heap s"
  "mt_heap (fill p ch n s) = mt_heap s" "mt_out (fill p ch n s) = mt_out s" "mt_out (release p s) = mt_out s"
  by (simp_all add: release_def report_def fill_def)

section \<open>The whole test\<close>

definition ok_lines :: "string list \<Rightarrow> bytes" where
  "ok_lines ls = concat (map (\<lambda>l. cstr l @ cstr ''OK'' @ [0x0A]) ls)"

lemma report_ok: "ok \<Longrightarrow> mt_out (report l ok s) = mt_out s @ ok_lines [l]"
  by (simp add: report_def ok_lines_def)

lemma ok_lines_append: "ok_lines (l # m # ls) = ok_lines [l] @ ok_lines (m # ls)"
  by (simp add: ok_lines_def)

lemma malloctest_reuse_ok:
  fixes u :: u32
  defines "U \<equiv> unat u"
  assumes inv: "uheap_inv u (mt_heap s) [(64, False), (128, False), (64, False), (65216, True)]" and U: "U + 65536 < 4294967296"
    and A: "intact s (adr (U + 16)) 0x41 64" and C: "intact s (adr (U + 240)) 0x43 64"
  shows "\<exists>s'. malloctest_reuse u (adr (U + 16)) (adr (U + 96)) (adr (U + 240)) s = Some s' \<and>
    mt_out s' = mt_out s @ ok_lines [''malloc d (reuse freed space): '', ''a still intact after b freed/d allocated: '',
      ''c still intact after b freed/d allocated: '', ''d intact: '', ''d reused b's freed space (d <= old b address): '',
      ''malloc big after freeing everything: '']"
proof -
  have "uheap_inv u (free (mt_heap s) (adr (U + 96))) (afree (U + 96) U [(64, False), (128, False), (64, False), (65216, True)])"
    unfolding U_def by (rule free_step [OF inv, of _ 128]) (simp add: U_def)
  then have i1: "uheap_inv u (mt_heap (release (adr (U + 96)) s)) [(64, False), (128, True), (64, False), (65216, True)]"
    by (simp add: release_def afree_def)
  obtain h where d: "take_block u 32 (release (adr (U + 96)) s) = Some (adr (U + 96), (release (adr (U + 96)) s)\<lparr>mt_heap := h\<rparr>)"
      "uheap_inv u h [(64, False), (32, False), (80, True), (64, False), (65216, True)]"
    using take_block_step [OF i1, of 32 "U + 96"] by (auto simp: round8_def U_def)
  let ?s = "fill (adr (U + 96)) 0x44 32 (report ''malloc d (reuse freed space): '' True ((release (adr (U + 96)) s)\<lparr>mt_heap := h\<rparr>))"
  have at: "mt_bytes ?s (adr x) = (if U + 96 \<le> x \<and> x < U + 128 then 0x44 else mt_bytes s (adr x))" if "x < 4294967296" for x
    using fill_at [of "U + 96" 32 x "0x44"] that U by simp
  have "intact ?s (adr (U + 16)) 0x41 64" "intact ?s (adr (U + 240)) 0x43 64" "intact ?s (adr (U + 96)) 0x44 32"
    using A C U by (auto simp: intact_iff at)
  moreover have "adr (U + 96) \<noteq> 0" using U by simp
  moreover have f1: "uheap_inv u (free h (adr (U + 16))) [(64, True), (32, False), (80, True), (64, False), (65216, True)]"
    using free_step [OF d(2), of "U + 16" 64] by (simp add: afree_def U_def)
  moreover have f2: "uheap_inv u (free (free h (adr (U + 16))) (adr (U + 240))) [(64, True), (32, False), (65392, True)]"
    using free_step [OF f1, of "U + 240" 64] by (simp add: afree_def U_def)
  moreover have f3: "uheap_inv u (free (free (free h (adr (U + 16))) (adr (U + 240))) (adr (U + 96))) [(65520, True)]"
    using free_step [OF f2, of "U + 96" 32] by (simp add: afree_def U_def)
  moreover obtain h' where "malloc u (free (free (free h (adr (U + 16))) (adr (U + 240))) (adr (U + 96))) 60000 = Some (adr (U + 16), h')"
    using malloc_step [OF f3, of 60000 "U + 16"] by (auto simp: round8_def U_def)
  ultimately show ?thesis using d(1) U
    by (simp add: malloctest_reuse_def Let_def report_ok) (simp add: take_block_def release_def report_ok ok_lines_append)
qed

text \<open>
  the self test of the process heap. On a fresh heap anywhere in memory the program ends and prints
  OK behind each of its nine checks: every allocation succeeds, the freed block is used again, no block
  that is in use loses a byte when others come and go, and when all is freed the heap is whole again.
\<close>

theorem malloctest_all_ok:
  assumes "uheap_inv u (mt_heap s) [(65520, True)]" "unat u + 65536 < 4294967296" "mt_out s = []"
  shows "\<exists>s'. malloctest u s = Some s' \<and>
    mt_out s' = ok_lines [''malloc a: '', ''malloc b: '', ''malloc c: '', ''malloc d (reuse freed space): '',
      ''a still intact after b freed/d allocated: '', ''c still intact after b freed/d allocated: '', ''d intact: '',
      ''d reused b's freed space (d <= old b address): '', ''malloc big after freeing everything: '']"
proof -
  define U where "U = unat u"
  have U: "U + 65536 < 4294967296" using assms(2) by (simp add: U_def)
  obtain h1 where a: "take_block u 64 s = Some (adr (U + 16), s\<lparr>mt_heap := h1\<rparr>)" "uheap_inv u h1 [(64, False), (65440, True)]"
    using take_block_step [OF assms(1), of 64 "U + 16"] by (auto simp: round8_def U_def)
  obtain h2 where b: "take_block u 128 (s\<lparr>mt_heap := h1\<rparr>) = Some (adr (U + 96), s\<lparr>mt_heap := h2\<rparr>)" "uheap_inv u h2 [(64, False), (128, False), (65296, True)]"
    using take_block_step [of u "s\<lparr>mt_heap := h1\<rparr>" "[(64, False), (65440, True)]" 128 "U + 96"] a by (auto simp: round8_def U_def)
  obtain h3 where c: "take_block u 64 (s\<lparr>mt_heap := h2\<rparr>) = Some (adr (U + 240), s\<lparr>mt_heap := h3\<rparr>)"
      "uheap_inv u h3 [(64, False), (128, False), (64, False), (65216, True)]"
    using take_block_step [of u "s\<lparr>mt_heap := h2\<rparr>" "[(64, False), (128, False), (65296, True)]" 64 "U + 240"] b by (auto simp: round8_def U_def)
  let ?r = "report ''malloc c: '' True (report ''malloc b: '' True (report ''malloc a: '' True (s\<lparr>mt_heap := h3\<rparr>)))"
  let ?s = "fill (adr (U + 240)) 0x43 64 (fill (adr (U + 96)) 0x42 128 (fill (adr (U + 16)) 0x41 64 ?r))"
  have at: "mt_bytes ?s (adr x) = (if U + 240 \<le> x \<and> x < U + 304 then 0x43 else if U + 96 \<le> x \<and> x < U + 224 then 0x42
      else if U + 16 \<le> x \<and> x < U + 80 then 0x41 else mt_bytes ?r (adr x))" if "x < 4294967296" for x
    using fill_at [of "U + 240" 64 x "0x43"] fill_at [of "U + 96" 128 x "0x42"] fill_at [of "U + 16" 64 x "0x41"] that U by simp
  have "intact ?s (adr (U + 16)) 0x41 64" "intact ?s (adr (U + 240)) 0x43 64" using U by (auto simp: intact_iff at)
  then have "\<exists>s'. malloctest_reuse u (adr (U + 16)) (adr (U + 96)) (adr (U + 240)) ?s = Some s' \<and>
      mt_out s' = mt_out ?s @ ok_lines [''malloc d (reuse freed space): '', ''a still intact after b freed/d allocated: '',
        ''c still intact after b freed/d allocated: '', ''d intact: '', ''d reused b's freed space (d <= old b address): '',
        ''malloc big after freeing everything: '']"
    unfolding U_def using c(2) U by (intro malloctest_reuse_ok) (simp_all add: U_def report_def)
  then show ?thesis using a(1) b(1) c(1) U assms(3) by (simp add: malloctest_def report_ok ok_lines_append)
qed

theorem malloctest_all_ok_witness:
  "\<exists>s'. malloctest 0x400000 \<lparr>mt_heap = uh0, mt_bytes = (\<lambda>_. 0), mt_out = []\<rparr> = Some s' \<and> take 12 (mt_out s') = cstr ''malloc a: OK''"
proof -
  let ?s = "\<lparr>mt_heap = uh0, mt_bytes = (\<lambda>_. 0), mt_out = []\<rparr>"
  have "uheap_inv 0x400000 (mt_heap ?s) [(65520, True)]" using uh0_inv by simp
  from malloctest_all_ok [OF this] show ?thesis by (auto simp: ok_lines_def cstr_def)
qed

end
