(* ===== verification/Spec2Isabelle.thy ===== *)
theory Spec2Isabelle
  imports Kheap_Spec Fat_Write Net_Dns_Spec Net_Tcp_Stream Program_Start Shell Editor Cpu_Tables Faults Pci Gui Cat Netecho Ls Inference Ata Paging_Run Boot Malloctest
begin

text \<open>
  A verification development for HAROLD, a 32-bit x86 operating system written in C (src/src) with
  its C library and programs (src/userspace).

  \<^bold>\<open>The program.\<close> \<open>kernel_main\<close> builds the descriptor tables, programs the interrupt controllers, mounts
  a FAT16 volume, sets up physical memory, paging and the heap and starts the shell and the network
  task. Interrupts fill the ring buffers of keyboard, serial line and mouse and drive the scheduler.
  The shell splits a line into arguments and creates a task that loads an ELF file from the volume
  into an address space of its own and enters ring 3; programs come back through the system call
  gate. The network task polls the card and passes frames up through ARP, IP, ICMP, UDP and TCP.

  \<^bold>\<open>How it is modelled.\<close> A C integer of fixed width is a word and wraps; a struct is a record; static
  variables of a file are the record of its component; a byte buffer is a list and a memory that is
  shared through pointers is a function from addresses. Every function returns its result and the
  new state. \<open>None\<close> stands for a loop that does not end or for a page fault in the kernel, and that it does
  not occur is part of the theorems; loops without an evident bound are \<open>partial_function\<close>s, so no fuel
  is chosen anywhere. Devices are parameters: the sectors of a disk that may fail, the frames that
  arrive, the registers of a clock that ticks while it is read, the two interrupt controllers.

  \<^bold>\<open>Theories.\<close>
  \<^item> \<open>Harold_Base\<close>: machine types, byte order, lemmas on words, lists and buffers.
  \<^item> \<open>Kheap\<close>, \<open>Kheap_Spec\<close> (heap.c; \<open>malloc\<close> and \<open>free\<close> of libc.c): both allocators refine one abstract
    block list (locale \<open>allocator\<close>, interpreted for both): first fit, disjointness, coalescing, no leak, and
    contents that survive every sequence of calls.
  \<^item> \<open>Fat_Disk\<close>, \<open>Fat_Names\<close>, \<open>Fat_Dir\<close>, \<open>Fat_File\<close> (ata.c, fat.c) with \<open>Fat_Table\<close>, \<open>Fat_Dir_Spec\<close>, \<open>Fat_Read\<close>,
    \<open>Fat_Write\<close>: entries and chains of the allocation table, long and short names, creating and finding
    a file, reading and appending as operations on its list of bytes, and the one write that cuts a chain.
  \<^item> \<open>Net_Ip\<close>, \<open>Net_Udp\<close>, \<open>Net_Tcp\<close>, \<open>Net_Stack\<close> (rtl8139.c, arp.c, ip.c, icmp.c, udp.c, dns.c, tcp.c, net.c) with
    \<open>Net_Ip_Spec\<close>, \<open>Net_Udp_Spec\<close>, \<open>Net_Dns_Spec\<close>, \<open>Net_Tcp_Spec\<close>, \<open>Net_Tcp_Stream\<close>: delivery of packets and
    datagrams between two hosts, checksums that verify, the DNS encoder and parser, and the connection
    table of TCP as a state machine: handshake, in-order data, isolation of peers, giving up.
  \<^item> \<open>Ring_Buffer\<close>: the interface of a ring buffer as a locale, interpreted by TCP's receive queue and by
    the three input queues.
  \<^item> \<open>Pmm\<close>, \<open>Paging\<close>, \<open>Paging_Spec\<close> (pmm.c, paging.c): frames, address spaces as maps from pages to frames,
    isolation of programs, and a teardown that releases exactly what an address space owned.
  \<^item> \<open>Task\<close>, \<open>Task_Sched\<close>, \<open>Task_Life\<close> (task.c, pit.c, tss.c): the scheduler as a step relation; one task runs,
    contexts survive, ready tasks run, sleepers wake in time, creation and reaping neither leak nor share.
  \<^item> \<open>Loader\<close>, \<open>Loader_Spec\<close>, \<open>Program_Start\<close> (elf.c, usermode.c, exec.c): what a program finds in its memory and
    on its stack when it starts. The file buffer and the kernel stack are taken not to be shadowed by
    the pages of the program; the buffer's content is the parameter \<open>img\<close>.
  \<^item> \<open>Libc_Str\<close> (string functions of libc.c), \<open>Terminal\<close> (terminal.c, the output half of serial.c), \<open>Console\<close>
    (keyboard.c, serial.c, mouse.c, console.c), \<open>Shell\<close> (shell.c), \<open>Editor\<close> (edit.c).
  \<^item> \<open>Rtc\<close> (rtc.c, date.c), \<open>Cpu_Tables\<close> (gdt.c, idt.c, tss.c, pic.c, irq.c), \<open>Faults\<close> (isr.c).
  \<^item> \<open>Pci\<close> (pci.c): the scan of the bus and the lookup of a device among the functions that answer.
  \<^item> \<open>Gui\<close> (gui.c): the desktop; its screen is a picture of its state, a click acts on what is shown, and
    every reachable state keeps its variables within their types.
  \<^item> \<open>Syscall\<close> (syscall.c and the wrappers of libc.c): the dispatcher on the state of all components, with the
    buffers of the program reached through its page tables; both sides of the interface agree, and no
    call disturbs the tasks, the heap or the page tables.
  \<^item> \<open>Cat\<close> (cat.c): a program on top of it all, from its argument vector to the bytes on the terminal.
  \<^item> \<open>Netecho\<close> (netecho.c): the echo server as a refinement of a pipe between the socket calls; \<open>Ls\<close> (ls.c,
    nslookup.c): what the two programs print; \<open>Inference\<close> with \<open>Model_Data\<close> (inference.c, model_data.h): the
    fixed-point network agrees with the unbounded one on every image.
  \<^item> \<open>Ata\<close> (ata.c): the driver at the ports of a drive implements the sectors of \<open>Fat_Disk\<close>.
  \<^item> \<open>Paging_Run\<close>: the operations of paging.c and pmm.c as steps; isolation in every reachable state.
  \<^item> \<open>Boot\<close> (kernel.c, multiboot.c): the start of the kernel, which establishes the invariant across tasks, heap
    and address spaces and keeps the heap out of the frames that are given out.
  \<^item> \<open>Malloctest\<close> (malloctest.c): the self test of the process heap reports OK on every line.

  \<^bold>\<open>Not modelled.\<close> The assembly stubs and port instructions, except for their effect on the state that
  the C code sees; the polling and reset sequences of the RTL8139, PS/2 and serial devices; log
  messages of the drivers; enabling paging; interleaving inside a function that runs with interrupts
  disabled; the demonstration programs of src/userspace that only make a few calls in a row.
\<close>

end
